(* ===== verification/Prelude.thy ===== *)
theory Prelude
  imports Main "HOL-Library.Word"
begin

text \<open>
  Shared vocabulary of the development: machine words, byte-addressed memory with little-endian
  multi-byte accesses, and the generic lemmas every component uses. Addresses, sizes and
  registers keep the width they have in the C code; addition on them wraps. Memory is a total
  function from 64-bit addresses to bytes, so that pointers of different types may alias and
  every frame claim has to be proved.
\<close>

unbundle bit_operations_syntax

named_theorems mem_simps \<open>reads over writes\<close>
named_theorems frame_simps \<open>what an operation leaves alone\<close>

type_synonym u8 = "8 word"
type_synonym u16 = "16 word"
type_synonym u32 = "32 word"
type_synonym u64 = "64 word"
type_synonym i32 = "32 word"
type_synonym i64 = "64 word"
type_synonym mem = "u64 \<Rightarrow> u8"

section \<open>Words\<close>

lemma unat_lt_2p64 [simp]: "unat (x :: u64) < 18446744073709551616"
proof -
  have "unat x < 2 ^ LENGTH(64)" by (rule unsigned_less)
  then show ?thesis by simp
qed

lemma unat_of_nat_64: "i < 2 ^ 64 \<Longrightarrow> unat (of_nat i :: u64) = i"
  by (simp add: unat_of_nat)

lemma unat_add_1_64: "n \<noteq> - 1 \<Longrightarrow> unat (n + 1 :: u64) = Suc (unat n)"
  by (metis add.commute add_eq_0_iff unatSuc Suc_eq_plus1 add.inverse_inverse)

lemma unat_minus_1_64: "(n :: u64) \<noteq> 0 \<Longrightarrow> unat (n - 1) = unat n - 1"
  by (rule unat_minus_one)

lemma unat_diff_step:
  fixes x a :: u64
  assumes "x \<noteq> a"
  shows "unat (x - a) = Suc (unat (x - (a + 1)))"
proof -
  have "x - a \<noteq> 0" using assms by simp
  then have "unat (x - a - 1) = unat (x - a) - 1" by (rule unat_minus_1_64)
  moreover have "x - a - 1 = x - (a + 1)" by simp
  moreover have "unat (x - a) \<noteq> 0" using \<open>x - a \<noteq> 0\<close> by (simp add: unat_eq_0)
  ultimately show ?thesis by simp
qed

lemma unat_dec_less: "(n :: u64) \<noteq> 0 \<Longrightarrow> unat (n - 1) < unat n"
  by (simp add: unat_minus_1_64 unat_gt_0)

lemma unat_up_less: "(i :: u64) < n \<Longrightarrow> unat (n - (i + 1)) < unat (n - i)"
  using unat_diff_step [of n i] by simp

lemma uint_pos_iff [simp]: "0 < uint (x :: 'a::len word) \<longleftrightarrow> x \<noteq> 0"
  by (metis less_le uint_0_iff uint_ge_0)

lemma sint_eq_0: "sint (x :: 'a::len word) = 0 \<Longrightarrow> x = 0"
  by (metis sint_0 word_eq_iff_signed)

lemma bit_iff_odd_unat: "bit w n \<longleftrightarrow> odd (unat w div 2 ^ n)"
  for w :: "'a::len word"
proof -
  have "bit (unat w) n = bit w n" by (simp add: bit_unsigned_iff)
  then show ?thesis by (simp add: bit_iff_odd)
qed

lemma sint_eq_unat: "unat (x :: i32) < 2 ^ 31 \<Longrightarrow> sint x = int (unat x)"
proof -
  assume u: "unat x < 2 ^ 31"
  have n: "uint x = int (unat x)" by simp
  then have "uint x < 2 ^ 31" using u by (metis of_nat_less_numeral_power_cancel_iff)
  then have "take_bit 31 (uint x) = uint x" by (simp add: take_bit_int_eq_self)
  moreover have "\<not> bit x 31" using u by (simp add: bit_iff_odd_unat)
  ultimately show ?thesis unfolding n [symmetric] by (simp add: sint_uint signed_take_bit_eq_if_positive bit_uint_iff)
qed

lemma unat_ucast_32: "unat (s :: u64) < 2 ^ 32 \<Longrightarrow> unat (ucast s :: u32) = unat s"
  by (simp add: unsigned_ucast_eq take_bit_nat_eq_self)

section \<open>Regions of the address space\<close>

text \<open>The \<open>n\<close> bytes from \<open>p\<close>; the subtraction wraps, as address arithmetic does.\<close>

definition region :: "u64 \<Rightarrow> nat \<Rightarrow> u64 set" where
  "region p n = {x. unat (x - p) < n}"

lemma in_region_iff: "x \<in> region p n \<longleftrightarrow> unat (x - p) < n"
  by (simp add: region_def)

lemma region_0 [simp]: "region p 0 = {}"
  by (simp add: region_def)

lemma region_Suc: "n < 2 ^ 64 \<Longrightarrow> region p (Suc n) = insert p (region (p + 1) n)"
proof (rule set_eqI)
  fix x assume n: "n < 2 ^ 64"
  show "x \<in> region p (Suc n) \<longleftrightarrow> x \<in> insert p (region (p + 1) n)"
    by (cases "x = p") (auto simp: in_region_iff unat_diff_step)
qed

lemma region_mono: "n \<le> k \<Longrightarrow> region p n \<subseteq> region p k"
  by (auto simp: in_region_iff)

lemma region_offset: "i < n \<Longrightarrow> n \<le> 2 ^ 64 \<Longrightarrow> p + of_nat i \<in> region p n"
  by (simp add: in_region_iff unat_of_nat_64)

lemma region_shift: "k + i \<le> n \<Longrightarrow> n \<le> 2 ^ 64 \<Longrightarrow> region (p + of_nat i) k \<subseteq> region p n"
proof
  fix x assume b: "k + i \<le> n" "n \<le> 2 ^ 64" and x: "x \<in> region (p + of_nat i) k"
  have e: "x - p = (x - (p + of_nat i)) + of_nat i" by simp
  show "x \<in> region p n"
  proof (cases "i < 2 ^ 64")
    case True
    then have "unat (of_nat i :: u64) = i" by (rule unat_of_nat_64)
    with x b True have "unat (x - p) \<le> unat (x - (p + of_nat i)) + i"
      by (subst e, subst unat_word_ariths) simp
    with x b show ?thesis by (simp add: in_region_iff)
  next
    case False
    with b x show ?thesis by (simp add: in_region_iff)
  qed
qed

lemma region_inside:
  assumes "unat p + n \<le> 2 ^ 64"
  shows "x \<in> region p n \<longleftrightarrow> unat p \<le> unat x \<and> unat x < unat p + n"
proof (cases "p \<le> x")
  case True
  then have "unat (x - p) = unat x - unat p" by (rule unat_sub)
  with True show ?thesis by (auto simp: in_region_iff word_le_nat_alt)
next
  case False
  then have lt: "unat x < unat p" by (simp add: word_le_nat_alt)
  have "unat (x - p) = 2 ^ 64 + unat x - unat p"
    using lt by (simp add: unat_sub_if')
  with lt assms show ?thesis by (auto simp: in_region_iff)
qed

definition disjoint_regions :: "u64 \<Rightarrow> nat \<Rightarrow> u64 \<Rightarrow> nat \<Rightarrow> bool" where
  "disjoint_regions p n q k \<longleftrightarrow> region p n \<inter> region q k = {}"

lemma disjoint_regions_sym: "disjoint_regions p n q k \<longleftrightarrow> disjoint_regions q k p n"
  by (auto simp: disjoint_regions_def)

lemma disjoint_regionsD: "disjoint_regions p n q k \<Longrightarrow> x \<in> region q k \<Longrightarrow> x \<notin> region p n"
  by (auto simp: disjoint_regions_def)

lemma disjoint_regionsI:
  assumes "unat p + n \<le> unat q \<or> unat q + k \<le> unat p"
    and "unat p + n \<le> 2 ^ 64" and "unat q + k \<le> 2 ^ 64"
  shows "disjoint_regions p n q k"
  using assms by (auto simp: disjoint_regions_def region_inside)

text \<open>Parts of one object at increasing offsets do not overlap, wherever the object lies.\<close>

lemma in_offset: "x \<in> region (p + of_nat a) k \<Longrightarrow> a + k \<le> 2 ^ 64 \<Longrightarrow> a \<le> unat (x - p) \<and> unat (x - p) < a + k"
proof -
  assume x: "x \<in> region (p + of_nat a) k" and a: "a + k \<le> 2 ^ 64"
  show ?thesis
  proof (cases "k = 0")
    case True
    with x show ?thesis by simp
  next
    case False
    then have u: "unat (of_nat a :: u64) = a" using a by (intro unat_of_nat_64) simp
    define y where "y = x - (p + of_nat a)"
    have k: "unat y < k" using x by (simp add: in_region_iff y_def)
    have "x - p = y + of_nat a" by (simp add: y_def)
    then have "unat (x - p) = (unat y + a) mod 2 ^ 64" using unat_word_ariths(1) [of y "of_nat a"] u by simp
    also have "\<dots> = unat y + a" using k a by simp
    finally show ?thesis using k by simp
  qed
qed

lemma disjoint_offsets:
  assumes "a + k \<le> b \<or> b + l \<le> a" and "a + k \<le> 2 ^ 64" and "b + l \<le> 2 ^ 64"
  shows "disjoint_regions (p + of_nat a) k (p + of_nat b) l"
proof (unfold disjoint_regions_def, rule equals0I)
  fix x assume "x \<in> region (p + of_nat a) k \<inter> region (p + of_nat b) l"
  with in_offset [of x p a k] in_offset [of x p b l] assms show False by auto
qed

lemma disjoint_regions_diff:
  assumes "k \<le> unat (b - a)" "unat (b - a) + l \<le> 2 ^ 64"
  shows "disjoint_regions a k b l"
  using disjoint_offsets [of 0 k "unat (b - a)" l a] assms by simp

section \<open>Bytes in memory\<close>

primrec bytes_at :: "mem \<Rightarrow> u64 \<Rightarrow> nat \<Rightarrow> u8 list" where
  "bytes_at m p 0 = []"
| "bytes_at m p (Suc n) = m p # bytes_at m (p + 1) n"

primrec store_bytes :: "mem \<Rightarrow> u64 \<Rightarrow> u8 list \<Rightarrow> mem" where
  "store_bytes m p [] = m"
| "store_bytes m p (b # bs) = store_bytes (m(p := b)) (p + 1) bs"

lemma bytes_at_numeral:
  "bytes_at m p (numeral k) = m p # bytes_at m (p + 1) (pred_numeral k)"
  by (simp add: numeral_eq_Suc)

lemma length_bytes_at [simp]: "length (bytes_at m p n) = n"
  by (induction n arbitrary: p) simp_all

lemma nth_bytes_at [simp]: "i < n \<Longrightarrow> bytes_at m p n ! i = m (p + of_nat i)"
  by (induction n arbitrary: p i) (auto simp: nth_Cons' of_nat_diff add.assoc)

lemma bytes_at_eq_iff:
  "bytes_at m p n = bs \<longleftrightarrow> length bs = n \<and> (\<forall>i < n. m (p + of_nat i) = bs ! i)"
  by (auto simp: list_eq_iff_nth_eq)

lemma bytes_at_cong: "(\<And>i. i < n \<Longrightarrow> m (p + of_nat i) = m' (p + of_nat i)) \<Longrightarrow> bytes_at m p n = bytes_at m' p n"
  by (simp add: bytes_at_eq_iff)

lemma store_bytes_apply:
  "length bs \<le> 2 ^ 64 \<Longrightarrow>
     store_bytes m p bs x = (if unat (x - p) < length bs then bs ! unat (x - p) else m x)"
proof (induction bs arbitrary: m p)
  case Nil
  then show ?case by simp
next
  case (Cons b bs)
  then have IH: "store_bytes (m(p := b)) (p + 1) bs x =
      (if unat (x - (p + 1)) < length bs then bs ! unat (x - (p + 1)) else (m(p := b)) x)"
    by simp
  show ?case
  proof (cases "x = p")
    case True
    have "p - (p + 1) = - 1" by simp
    then have "unat (p - (p + 1)) = unat (- 1 :: u64)" by simp
    then have "unat (p - (p + 1)) = 2 ^ 64 - 1"
      by (simp add: unsigned_minus_1_eq_mask mask_eq_exp_minus_1)
    with True IH Cons.prems show ?thesis by simp
  next
    case False
    with IH show ?thesis by (simp add: unat_diff_step)
  qed
qed

lemma store_bytes_outside [frame_simps]:
  "length bs \<le> 2 ^ 64 \<Longrightarrow> x \<notin> region p (length bs) \<Longrightarrow> store_bytes m p bs x = m x"
  by (simp add: store_bytes_apply in_region_iff)

lemma bytes_at_store_bytes [mem_simps]:
  "length bs \<le> 2 ^ 64 \<Longrightarrow> n = length bs \<Longrightarrow> bytes_at (store_bytes m p bs) p n = bs"
  by (auto simp: bytes_at_eq_iff store_bytes_apply unat_of_nat_64)

lemma bytes_at_store_bytes_other [mem_simps]:
  assumes "length bs \<le> 2 ^ 64" and "n \<le> 2 ^ 64" and "disjoint_regions p (length bs) q n"
  shows "bytes_at (store_bytes m p bs) q n = bytes_at m q n"
  using assms by (intro bytes_at_cong) (simp add: store_bytes_outside disjoint_regionsD region_offset)

section \<open>Little-endian words\<close>

primrec le_join :: "u8 list \<Rightarrow> 'a::len word" where
  "le_join [] = 0"
| "le_join (b # bs) = ucast b OR push_bit 8 (le_join bs)"

primrec le_split :: "nat \<Rightarrow> 'a::len word \<Rightarrow> u8 list" where
  "le_split 0 w = []"
| "le_split (Suc n) w = ucast w # le_split n (drop_bit 8 w)"

lemma length_le_split [simp]: "length (le_split n w) = n"
  by (induction n arbitrary: w) simp_all

lemma byte_join_step:
  fixes w :: "'a::len word"
  shows "ucast (ucast w :: u8) OR push_bit 8 (take_bit k (drop_bit 8 w)) = take_bit (8 + k) w"
  by (rule bit_word_eqI) (auto simp: bit_simps)

lemma le_join_split: "le_join (le_split n w) = take_bit (8 * n) w"
  by (induction n arbitrary: w) (simp_all add: byte_join_step)

definition read16 :: "mem \<Rightarrow> u64 \<Rightarrow> u16" where "read16 m p = le_join (bytes_at m p 2)"
definition read32 :: "mem \<Rightarrow> u64 \<Rightarrow> u32" where "read32 m p = le_join (bytes_at m p 4)"
definition read64 :: "mem \<Rightarrow> u64 \<Rightarrow> u64" where "read64 m p = le_join (bytes_at m p 8)"

definition write16 :: "mem \<Rightarrow> u64 \<Rightarrow> u16 \<Rightarrow> mem" where "write16 m p v = store_bytes m p (le_split 2 v)"
definition write32 :: "mem \<Rightarrow> u64 \<Rightarrow> u32 \<Rightarrow> mem" where "write32 m p v = store_bytes m p (le_split 4 v)"
definition write64 :: "mem \<Rightarrow> u64 \<Rightarrow> u64 \<Rightarrow> mem" where "write64 m p v = store_bytes m p (le_split 8 v)"

lemma take_bit_all_64 [simp]: "take_bit 64 (v :: u64) = v" 
  by (simp add: take_bit_word_eq_self)
lemma take_bit_all_32 [simp]: "take_bit 32 (v :: u32) = v" 
  by (simp add: take_bit_word_eq_self)
lemma take_bit_all_16 [simp]: "take_bit 16 (v :: u16) = v" 
  by (simp add: take_bit_word_eq_self)

lemma read16_write16 [mem_simps]: "read16 (write16 m p v) p = v"
  by (simp add: read16_def write16_def bytes_at_store_bytes le_join_split)
lemma read32_write32 [mem_simps]: "read32 (write32 m p v) p = v"
  by (simp add: read32_def write32_def bytes_at_store_bytes le_join_split)
lemma read64_write64 [mem_simps]: "read64 (write64 m p v) p = v"
  by (simp add: read64_def write64_def bytes_at_store_bytes le_join_split)

lemma write64_outside [frame_simps]: "x \<notin> region p 8 \<Longrightarrow> write64 m p v x = m x"
  by (simp add: write64_def store_bytes_outside)

lemma read64_write64_other [mem_simps]:
  "disjoint_regions p 8 q 8 \<Longrightarrow> read64 (write64 m p v) q = read64 m q"
  by (simp add: read64_def write64_def bytes_at_store_bytes_other)

lemma read64_cong: "(\<And>x. x \<in> region p 8 \<Longrightarrow> m x = m' x) \<Longrightarrow> read64 m p = read64 m' p"
  unfolding read64_def by (rule arg_cong [where f = le_join], rule bytes_at_cong) (simp add: region_offset)

section \<open>Alignment\<close>

definition aligned :: "nat \<Rightarrow> u64 \<Rightarrow> bool" where
  "aligned k p \<longleftrightarrow> 2 ^ k dvd unat p"

definition align_down :: "nat \<Rightarrow> u64 \<Rightarrow> u64" where
  "align_down k p = p AND NOT (mask k)"

lemma align_down_push_drop: "align_down k p = push_bit k (drop_bit k p)"
  unfolding align_down_def by (rule bit_word_eqI) (auto simp: bit_simps)

lemma unat_align_down: "unat (align_down k p) = unat p div 2 ^ k * 2 ^ k"
proof -
  have "unat p div 2 ^ k * 2 ^ k \<le> unat p" by simp
  moreover have "unat p < 2 ^ 64" by simp
  ultimately have "unat p div 2 ^ k * 2 ^ k < 2 ^ 64" by (rule le_less_trans)
  then show ?thesis
    by (simp only: align_down_push_drop unsigned_push_bit_eq unsigned_drop_bit_eq)
      (simp add: push_bit_nat_def drop_bit_nat_def take_bit_nat_eq_self)
qed

lemma aligned_align_down [simp]: "aligned k (align_down k p)"
  by (simp add: aligned_def unat_align_down)

lemma align_down_le: "unat (align_down k p) \<le> unat p"
  by (simp add: unat_align_down)

lemma align_down_gt: "unat p < unat (align_down k p) + 2 ^ k"
proof -
  have "unat p mod 2 ^ k < 2 ^ k" by simp
  moreover have "unat p = unat p div 2 ^ k * 2 ^ k + unat p mod 2 ^ k"
    by (rule div_mult_mod_eq [symmetric])
  ultimately show ?thesis unfolding unat_align_down by linarith
qed

lemma align_down_aligned: "aligned k p \<Longrightarrow> align_down k p = p"
  by (simp add: word_unat_eq_iff unat_align_down aligned_def)

lemma aligned_mask_iff: "aligned k p \<longleftrightarrow> p AND mask k = 0"
proof -
  have "p AND mask k = take_bit k p" by (simp add: take_bit_eq_mask)
  moreover have "unat (take_bit k p) = unat p mod 2 ^ k"
    by (simp only: unsigned_take_bit_eq) (simp add: take_bit_nat_def)
  ultimately show ?thesis by (simp add: aligned_def dvd_eq_mod_eq_0 word_unat_eq_iff)
qed

lemma aligned_0 [simp]: "aligned k 0"
  by (simp add: aligned_def)

lemma aligned_weaken: "aligned k p \<Longrightarrow> j \<le> k \<Longrightarrow> aligned j p"
  unfolding aligned_def by (meson dvd_trans le_imp_power_dvd)

lemma aligned_add: "aligned k p \<Longrightarrow> aligned k q \<Longrightarrow> k \<le> 64 \<Longrightarrow> aligned k (p + q)"
proof -
  assume p: "aligned k p" "aligned k q" "k \<le> 64"
  then have "2 ^ k dvd (2 ^ 64 :: nat)" by (intro le_imp_power_dvd)
  with p have "2 ^ k dvd (unat p + unat q) mod 2 ^ 64"
    by (intro dvd_mod) (simp_all add: aligned_def)
  then show ?thesis by (simp add: aligned_def unat_word_ariths)
qed

lemma aligned_diff: "aligned k p \<Longrightarrow> aligned k q \<Longrightarrow> k \<le> 64 \<Longrightarrow> aligned k (p - q)"
proof -
  assume p: "aligned k p" "aligned k q" "k \<le> 64"
  then have d: "2 ^ k dvd (2 ^ 64 :: nat)" by (intro le_imp_power_dvd)
  show ?thesis
  proof (cases "unat q \<le> unat p")
    case True
    with p show ?thesis by (simp add: aligned_def unat_sub_if' dvd_diff_nat)
  next
    case False
    then have "unat (p - q) = unat p + 2 ^ 64 - unat q" by (simp add: unat_sub_if')
    with p d show ?thesis by (simp add: aligned_def dvd_diff_nat)
  qed
qed

lemma aligned_disjoint:
  assumes "aligned k p" and "aligned k q" and "p \<noteq> q" and "k \<le> 64"
  shows "disjoint_regions p (2 ^ k) q (2 ^ k)"
proof (unfold disjoint_regions_def, rule equals0I)
  fix x assume "x \<in> region p (2 ^ k) \<inter> region q (2 ^ k)"
  then have x: "unat (x - p) < 2 ^ k" "unat (x - q) < 2 ^ k" by (simp_all add: in_region_iff)
  have "unat (p - q) < 2 ^ k \<or> unat (q - p) < 2 ^ k"
  proof (cases "x - p \<le> x - q")
    case True
    then have "unat ((x - q) - (x - p)) = unat (x - q) - unat (x - p)" by (rule unat_sub)
    then have "unat (p - q) = unat (x - q) - unat (x - p)" by simp
    with x show ?thesis by linarith
  next
    case False
    then have "x - q \<le> x - p" by simp
    then have "unat ((x - p) - (x - q)) = unat (x - p) - unat (x - q)" by (rule unat_sub)
    then have "unat (q - p) = unat (x - p) - unat (x - q)" by simp
    with x show ?thesis by linarith
  qed
  moreover have "2 ^ k dvd unat (p - q)" "2 ^ k dvd unat (q - p)"
    using assms aligned_diff [of k] by (simp_all add: aligned_def)
  ultimately have "unat (p - q) = 0 \<or> unat (q - p) = 0"
    by (meson dvd_imp_le not_le not_gr_zero)
  with assms(3) show False by (auto simp: unat_eq_0)
qed

lemma disjoint_regions_mono:
  "disjoint_regions p n q k \<Longrightarrow> region p' n' \<subseteq> region p n \<Longrightarrow> region q' k' \<subseteq> region q k \<Longrightarrow>
     disjoint_regions p' n' q' k'"
  unfolding disjoint_regions_def by blast

subsection \<open>Eight-byte slots\<close>

abbreviation aligned8 :: "u64 \<Rightarrow> bool" where
  "aligned8 \<equiv> aligned 3"

lemma aligned8_disjoint: "aligned8 p \<Longrightarrow> aligned8 q \<Longrightarrow> p \<noteq> q \<Longrightarrow> disjoint_regions p 8 q 8"
  using aligned_disjoint [of 3 p q] by simp

lemma read64_write64_aligned:
  "aligned8 p \<Longrightarrow> aligned8 q \<Longrightarrow> read64 (write64 m p v) q = (if p = q then v else read64 m q)"
  by (simp add: read64_write64 read64_write64_other aligned8_disjoint)

end
