(* ===== verification/CString.thy ===== *)
theory CString
  imports Prelude "HOL-Library.Monad_Syntax" "HOL-Library.Sublist"
begin

text \<open>
  The kernel's string and memory routines, \<^verbatim>\<open>klibc/string.c\<close>, over byte memory. A pointer is a
  64-bit address and \<open>NULL\<close> is 0. A loop that walks a string until its NUL is a
  \<open>partial_function (option)\<close>: \<open>None\<close> means that the loop does not return. A counted loop is a
  \<open>function\<close> whose counter is the \<open>size_t\<close> of the code. Routines that write return the new memory
  with the pointer the code returns.
\<close>

section \<open>C strings in memory\<close>

primrec cstr :: "mem \<Rightarrow> u64 \<Rightarrow> u8 list \<Rightarrow> bool" where
  "cstr m p [] \<longleftrightarrow> m p = 0"
| "cstr m p (c # cs) \<longleftrightarrow> m p = c \<and> c \<noteq> 0 \<and> cstr m (p + 1) cs"

section \<open>The routines, in the order of the file\<close>

function strncmp :: "mem \<Rightarrow> u64 \<Rightarrow> u64 \<Rightarrow> u64 \<Rightarrow> int" where
  "strncmp m str1 str2 n =
     (if n > 0 then
        if m str1 \<noteq> m str2 then uint (m str1) - uint (m str2)
        else if m str1 = 0 then 0
        else strncmp m (str1 + 1) (str2 + 1) (n - 1)
      else 0)"
  by pat_completeness auto
termination
  by (relation "measure (\<lambda>(m, a, b, n). unat n)") (auto intro: unat_dec_less)

partial_function (option) strlen_loop :: "mem \<Rightarrow> u64 \<Rightarrow> u64 \<Rightarrow> u64 option" where
  "strlen_loop m str l = (if m str \<noteq> 0 then strlen_loop m (str + 1) (l + 1) else Some l)"

definition strlen :: "mem \<Rightarrow> u64 \<Rightarrow> u64 option" where
  "strlen m str = strlen_loop m str 0"

partial_function (option) strcmp :: "mem \<Rightarrow> u64 \<Rightarrow> u64 \<Rightarrow> int option" where
  "strcmp m str1 str2 =
     (if m str1 \<noteq> 0 \<and> m str1 = m str2 then strcmp m (str1 + 1) (str2 + 1)
      else Some (uint (m str1) - uint (m str2)))"

function memcpy_loop :: "mem \<Rightarrow> u64 \<Rightarrow> u64 \<Rightarrow> u64 \<Rightarrow> mem" where
  "memcpy_loop m d s n =
     (if n \<noteq> 0 then memcpy_loop (m(d := m s)) (d + 1) (s + 1) (n - 1) else m)"
  by pat_completeness auto
termination
  by (relation "measure (\<lambda>(m, d, s, n). unat n)") (auto intro: unat_dec_less)

definition memcpy :: "mem \<Rightarrow> u64 \<Rightarrow> u64 \<Rightarrow> u64 \<Rightarrow> mem \<times> u64" where
  "memcpy m dest src n = (memcpy_loop m dest src n, dest)"

definition strlcat :: "mem \<Rightarrow> u64 \<Rightarrow> u64 \<Rightarrow> u64 \<Rightarrow> (mem \<times> u64) option" where
  "strlcat m dst src sz =
     do {
       sl \<leftarrow> strlen m src;
       dl \<leftarrow> strlen m dst;
       if dl = sz then Some (m, sz + sl)
       else if sl < sz - dl then Some (fst (memcpy m (dst + dl) src (sl + 1)), sl + dl)
       else Some ((fst (memcpy m (dst + dl) src (sz - dl - 1)))(dst + (sz - 1) := 0), sl + dl)
     }"

text \<open>
  \<^verbatim>\<open>while (--n > 0) if ((*d++ = *s++) == 0) break;\<close>: the result is the memory, both pointers
  and what is left of \<open>n\<close>, which is 0 exactly when the copy ran out of space.
\<close>

function strlcpy_copy :: "mem \<Rightarrow> u64 \<Rightarrow> u64 \<Rightarrow> u64 \<Rightarrow> mem \<times> u64 \<times> u64 \<times> u64" where
  "strlcpy_copy m d s n =
     (let n' = n - 1 in
      if n' > 0 then
        let c = m s; m' = m(d := c) in
        if c = 0 then (m', d + 1, s + 1, n') else strlcpy_copy m' (d + 1) (s + 1) n'
      else (m, d, s, n'))"
  by pat_completeness auto
termination
proof (relation "measure (\<lambda>(m, d, s, n). unat (n - 1))", goal_cases)
  case (2 m d s n n' c m')
  then have "unat (n' - 1) < unat n'" by (intro unat_dec_less) auto
  with 2 show ?case by simp
qed simp

partial_function (option) skip_past_nul :: "mem \<Rightarrow> u64 \<Rightarrow> u64 option" where
  "skip_past_nul m s = (if m s \<noteq> 0 then skip_past_nul m (s + 1) else Some (s + 1))"

definition strlcpy :: "mem \<Rightarrow> u64 \<Rightarrow> u64 \<Rightarrow> u64 \<Rightarrow> (mem \<times> u64) option" where
  "strlcpy m dst src n =
     (case strlcpy_copy m dst src n of (m1, d, s, n1) \<Rightarrow>
        if n1 = 0 then
          let m2 = (if n \<noteq> 0 then m1(d := 0) else m1) in
          do { s' \<leftarrow> skip_past_nul m2 s; Some (m2, s' - src - 1) }
        else Some (m1, s - src - 1))"

partial_function (option) strchr_loop :: "mem \<Rightarrow> u64 \<Rightarrow> u8 \<Rightarrow> u64 option" where
  "strchr_loop m str chr =
     (if m str \<noteq> 0 then if m str = chr then Some str else strchr_loop m (str + 1) chr else Some 0)"

definition strchr :: "mem \<Rightarrow> u64 \<Rightarrow> u8 \<Rightarrow> u64 option" where
  "strchr m str chr = (if str = 0 then Some 0 else strchr_loop m str chr)"

partial_function (option) strswap_loop :: "mem \<Rightarrow> u64 \<Rightarrow> u8 \<Rightarrow> u8 \<Rightarrow> mem option" where
  "strswap_loop m str char1 char2 =
     (if m str \<noteq> 0 then
        strswap_loop (if m str = char1 then m(str := char2) else m) (str + 1) char1 char2
      else Some m)"

definition strswap :: "mem \<Rightarrow> u64 \<Rightarrow> u8 \<Rightarrow> u8 \<Rightarrow> mem option" where
  "strswap m str char1 char2 = (if str = 0 then Some m else strswap_loop m str char1 char2)"

partial_function (option) strcount_loop :: "mem \<Rightarrow> u64 \<Rightarrow> u8 \<Rightarrow> u32 \<Rightarrow> u32 option" where
  "strcount_loop m str char1 count =
     (if m str \<noteq> 0 then
        strcount_loop m (str + 1) char1 (if m str = char1 then count + 1 else count)
      else Some count)"

definition strcount :: "mem \<Rightarrow> u64 \<Rightarrow> u8 \<Rightarrow> u32 option" where
  "strcount m str char1 = (if str = 0 then Some 0 else strcount_loop m str char1 0)"

partial_function (option) find_nul :: "mem \<Rightarrow> u64 \<Rightarrow> u64 option" where
  "find_nul m d = (if m d \<noteq> 0 then find_nul m (d + 1) else Some d)"

partial_function (option) copy_through_nul :: "mem \<Rightarrow> u64 \<Rightarrow> u64 \<Rightarrow> mem option" where
  "copy_through_nul m d src =
     (let c = m src; m' = m(d := c) in
      if c \<noteq> 0 then copy_through_nul m' (d + 1) (src + 1) else Some m')"

definition strcat :: "mem \<Rightarrow> u64 \<Rightarrow> u64 \<Rightarrow> (mem \<times> u64) option" where
  "strcat m dest src =
     do { d \<leftarrow> find_nul m dest; m' \<leftarrow> copy_through_nul m d src; Some (m', dest) }"

function strncat_loop :: "mem \<Rightarrow> u64 \<Rightarrow> u64 \<Rightarrow> u64 \<Rightarrow> mem" where
  "strncat_loop m d src n =
     (if n \<noteq> 0 \<and> m src \<noteq> 0 then strncat_loop (m(d := m src)) (d + 1) (src + 1) (n - 1)
      else m(d := 0))"
  by pat_completeness auto
termination
  by (relation "measure (\<lambda>(m, d, s, n). unat n)") (auto intro: unat_dec_less)

definition strncat :: "mem \<Rightarrow> u64 \<Rightarrow> u64 \<Rightarrow> u64 \<Rightarrow> (mem \<times> u64) option" where
  "strncat m dest src n = do { d \<leftarrow> find_nul m dest; Some (strncat_loop m d src n, dest) }"

function memcmp_const_loop :: "mem \<Rightarrow> u64 \<Rightarrow> u8 \<Rightarrow> u64 \<Rightarrow> u64 \<Rightarrow> int" where
  "memcmp_const_loop m s1 val n i =
     (if i < n then
        if m (s1 + i) \<noteq> val then sint (m (s1 + i) - val) else memcmp_const_loop m s1 val n (i + 1)
      else 0)"
  by pat_completeness auto
termination
  by (relation "measure (\<lambda>(m, s, v, n, i). unat (n - i))") (auto intro: unat_up_less)

definition memcmp_const :: "mem \<Rightarrow> u64 \<Rightarrow> u8 \<Rightarrow> u64 \<Rightarrow> int" where
  "memcmp_const m ptr1 val n = memcmp_const_loop m ptr1 val n 0"

function memmove_down :: "mem \<Rightarrow> u64 \<Rightarrow> u64 \<Rightarrow> u64 \<Rightarrow> mem" where
  "memmove_down m d s i =
     (if i > 0 then memmove_down (m(d + (i - 1) := m (s + (i - 1)))) d s (i - 1) else m)"
  by pat_completeness auto
termination
  by (relation "measure (\<lambda>(m, d, s, n). unat n)") (auto intro: unat_dec_less)

definition memmove :: "mem \<Rightarrow> u64 \<Rightarrow> u64 \<Rightarrow> u64 \<Rightarrow> mem \<times> u64" where
  "memmove m dst src n =
     (if dst < src then memcpy m dst src n else (memmove_down m dst src n, dst))"

function memset_loop :: "mem \<Rightarrow> u64 \<Rightarrow> u8 \<Rightarrow> u64 \<Rightarrow> mem" where
  "memset_loop m p v num = (if num \<noteq> 0 then memset_loop (m(p := v)) (p + 1) v (num - 1) else m)"
  by pat_completeness auto
termination
  by (relation "measure (\<lambda>(m, p, v, n). unat n)") (auto intro: unat_dec_less)

definition memset :: "mem \<Rightarrow> u64 \<Rightarrow> i32 \<Rightarrow> u64 \<Rightarrow> mem \<times> u64" where
  "memset m ptr val num = (memset_loop m ptr (ucast val) num, ptr)"

definition strcpy :: "mem \<Rightarrow> u64 \<Rightarrow> u64 \<Rightarrow> (mem \<times> u64) option" where
  "strcpy m dest src = do { m' \<leftarrow> copy_through_nul m dest src; Some (m', dest) }"

partial_function (option) match_here :: "mem \<Rightarrow> u64 \<Rightarrow> u64 \<Rightarrow> u64 option" where
  "match_here m a b =
     (if m a \<noteq> 0 \<and> m b \<noteq> 0 \<and> m a = m b then match_here m (a + 1) (b + 1) else Some b)"

partial_function (option) strstr_loop :: "mem \<Rightarrow> u64 \<Rightarrow> u64 \<Rightarrow> u64 option" where
  "strstr_loop m hpos needle =
     (if m hpos \<noteq> 0 then
        do {
          hl \<leftarrow> strlen m hpos;
          nl \<leftarrow> strlen m needle;
          if hl \<ge> nl then do {
            b \<leftarrow> match_here m hpos needle;
            if m b = 0 then Some hpos else strstr_loop m (hpos + 1) needle
          } else Some 0
        }
      else Some 0)"

definition strstr :: "mem \<Rightarrow> u64 \<Rightarrow> u64 \<Rightarrow> u64 option" where
  "strstr m haystack needle =
     (if m needle = 0 then Some haystack else strstr_loop m haystack needle)"

partial_function (option) strpbrk_inner :: "mem \<Rightarrow> u8 \<Rightarrow> u64 \<Rightarrow> bool option" where
  "strpbrk_inner m c c2 =
     (if m c2 \<noteq> 0 then if c = m c2 then Some True else strpbrk_inner m c (c2 + 1) else Some False)"

partial_function (option) strpbrk :: "mem \<Rightarrow> u64 \<Rightarrow> u64 \<Rightarrow> u64 option" where
  "strpbrk m c1 needle =
     (if m c1 \<noteq> 0 then
        do {
          hit \<leftarrow> strpbrk_inner m (m c1) needle;
          if hit then Some c1 else strpbrk m (c1 + 1) needle
        }
      else Some 0)"

text \<open>\<open>strtok\<close> keeps its position in the static \<open>tok\<close>: it is passed and returned.\<close>

definition strtok :: "mem \<Rightarrow> u64 \<Rightarrow> u64 \<Rightarrow> u64 \<Rightarrow> (mem \<times> u64 \<times> u64) option" where
  "strtok m tok str delim =
     (let start = (if str \<noteq> 0 then str else tok) in
      if start = 0 then Some (m, tok, 0)
      else do {
        e \<leftarrow> strpbrk m start delim;
        if e \<noteq> 0 then Some (m(e := 0), e + 1, start) else Some (m, 0, start)
      })"

fun ipow_loop :: "nat \<Rightarrow> i32 \<Rightarrow> i32 \<Rightarrow> i32" where
  "ipow_loop 0 e res = res"
| "ipow_loop (Suc k) e res = ipow_loop k e (res * e)"

definition ipow :: "i32 \<Rightarrow> i32" where
  "ipow e = ipow_loop (nat (sint e)) e 1"

declare strncmp.simps [simp del] memcpy_loop.simps [simp del] strlcpy_copy.simps [simp del]
  strncat_loop.simps [simp del] memcmp_const_loop.simps [simp del] memmove_down.simps [simp del]
  memset_loop.simps [simp del]

section \<open>Reference definitions\<close>

text \<open>Copying as a function of the memory before the copy.\<close>

definition copy_mem :: "mem \<Rightarrow> u64 \<Rightarrow> u64 \<Rightarrow> nat \<Rightarrow> mem" where
  "copy_mem m d s n = (\<lambda>x. if x \<in> region d n then m (s + (x - d)) else m x)"

text \<open>The reference: the index of the first suffix that starts with the needle.\<close>

fun find_sub :: "'a list \<Rightarrow> 'a list \<Rightarrow> nat option" where
  "find_sub ns [] = (if ns = [] then Some 0 else None)"
| "find_sub ns (h # hs) = (if prefix ns (h # hs) then Some 0 else map_option Suc (find_sub ns hs))"

section \<open>Facts about C strings\<close>

lemma cstr_frame:
  "cstr m p s \<Longrightarrow> (\<And>i. i \<le> length s \<Longrightarrow> m' (p + of_nat i) = m (p + of_nat i)) \<Longrightarrow> cstr m' p s"
proof (induction s arbitrary: p)
  case Nil
  then show ?case using Nil.prems(2) [of 0] by simp
next
  case (Cons c cs)
  have "m' (p + 1 + of_nat i) = m (p + 1 + of_nat i)" if "i \<le> length cs" for i
    using Cons.prems(2) [of "Suc i"] that by (simp add: add.assoc)
  with Cons.IH [of "p + 1"] Cons.prems(1) have "cstr m' (p + 1) cs" by simp
  with Cons.prems(1) Cons.prems(2) [of 0] show ?case by simp
qed

lemma cstr_iff:
  "cstr m p s \<longleftrightarrow> (\<forall>i < length s. m (p + of_nat i) = s ! i) \<and> m (p + of_nat (length s)) = 0 \<and> 0 \<notin> set s"
proof (induction s arbitrary: p)
  case Nil
  then show ?case by simp
next
  case (Cons c cs)
  have "(\<forall>i < length (c # cs). m (p + of_nat i) = (c # cs) ! i) \<longleftrightarrow>
        m p = c \<and> (\<forall>i < length cs. m (p + 1 + of_nat i) = cs ! i)"
    by (auto simp: less_Suc_eq_0_disj add.assoc)
  with Cons.IH [of "p + 1"] show ?case by (auto simp: add.assoc)
qed

lemma cstr_nth: "cstr m p s \<Longrightarrow> i < length s \<Longrightarrow> m (p + of_nat i) = s ! i"
  by (simp add: cstr_iff)

lemma cstr_end: "cstr m p s \<Longrightarrow> m (p + of_nat (length s)) = 0"
  by (simp add: cstr_iff)

lemma cstr_length: "cstr m p s \<Longrightarrow> length s < 2 ^ 64"
proof (rule ccontr)
  assume c: "cstr m p s" and "\<not> length s < 2 ^ 64"
  then have ge: "2 ^ 64 \<le> length s" by simp
  have wrap: "of_nat (length s) = (of_nat (length s mod 2 ^ 64) :: u64)"
    by (simp add: word_of_nat_eq_iff take_bit_eq_mod)
  have "length s mod 2 ^ 64 < length s" using ge by (meson less_le_trans mod_less_divisor zero_less_numeral zero_less_power)
  then have "m (p + of_nat (length s)) = s ! (length s mod 2 ^ 64)" "s ! (length s mod 2 ^ 64) \<in> set s"
    using c cstr_nth [OF c] wrap by auto
  moreover have "m (p + of_nat (length s)) = 0" "0 \<notin> set s" using c by (auto simp: cstr_iff)
  ultimately show False by simp
qed

lemma cstr_unique: "cstr m p s \<Longrightarrow> cstr m p t \<Longrightarrow> s = t"
  by (induction s arbitrary: p t) (case_tac t; auto)+

lemma cstr_drop: "cstr m p s \<Longrightarrow> k \<le> length s \<Longrightarrow> cstr m (p + of_nat k) (drop k s)"
  by (auto simp: cstr_iff add.assoc nth_append dest: in_set_dropD simp flip: of_nat_add)

lemma cstr_bytes: "cstr m p s \<longleftrightarrow> bytes_at m p (length s + 1) = s @ [0] \<and> 0 \<notin> set s"
proof -
  have "bytes_at m p (Suc (length s)) = s @ [0] \<longleftrightarrow>
      (\<forall>i < length s. m (p + of_nat i) = s ! i) \<and> m (p + of_nat (length s)) = 0"
    by (simp only: bytes_at_eq_iff) (auto simp: nth_append less_Suc_eq)
  then show ?thesis by (simp add: cstr_iff del: bytes_at.simps)
qed

lemma strlen_loop_cstr: "cstr m p s \<Longrightarrow> strlen_loop m p l = Some (l + of_nat (length s))"
  by (induction s arbitrary: p l) (simp_all add: strlen_loop.simps)

lemma strlen_cstr: "cstr m p s \<Longrightarrow> strlen m p = Some (of_nat (length s))"
  by (simp add: strlen_def strlen_loop_cstr)

lemma strcmp_cstr:
  "cstr m p s \<Longrightarrow> cstr m q t \<Longrightarrow>
     \<exists>r. strcmp m p q = Some r \<and> (r = 0 \<longleftrightarrow> s = t) \<and> (r < 0 \<longleftrightarrow> ord_class.lexordp s t)"
proof (induction s arbitrary: p q t)
  case Nil
  then show ?case by (cases t) (auto simp: strcmp.simps [of m p q] uint_0_iff word_less_def)
next
  case (Cons c cs)
  show ?case
  proof (cases t)
    case Nil
    with Cons.prems show ?thesis by (auto simp: strcmp.simps [of m p q] uint_0_iff)
  next
    case (Cons d ds)
    show ?thesis
    proof (cases "c = d")
      case True
      with Cons.IH [of "p + 1" "q + 1" ds] Cons.prems Cons show ?thesis
        by (auto simp: strcmp.simps [of m p q])
    next
      case False
      then have "uint c \<noteq> uint d" by (simp add: word_uint_eq_iff)
      with Cons.prems Cons False show ?thesis
        by (auto simp: strcmp.simps [of m p q] word_less_def)
    qed
  qed
qed
section \<open>Block copies\<close>

lemma copy_mem_bytes: "n \<le> 2 ^ 64 \<Longrightarrow> bytes_at (copy_mem m d s n) d n = bytes_at m s n"
  by (simp add: bytes_at_eq_iff copy_mem_def region_offset)

lemma copy_mem_outside: "x \<notin> region d n \<Longrightarrow> copy_mem m d s n x = m x"
  by (simp add: copy_mem_def)

lemma copy_mem_0 [simp]: "copy_mem m d s 0 = m"
  by (simp add: copy_mem_def)

lemma copy_mem_step:
  assumes "n < 2 ^ 64" and "unat (d - s) = 0 \<or> n < unat (d - s)"
  shows "copy_mem (m(d := m s)) (d + 1) (s + 1) n = copy_mem m d s (Suc n)"
proof
  fix x
  show "copy_mem (m(d := m s)) (d + 1) (s + 1) n x = copy_mem m d s (Suc n) x"
  proof (cases "x = d")
    case True
    have "d - (d + 1) = - 1" by simp
    then have "unat (d - (d + 1)) = 2 ^ 64 - 1"
      by (simp only:) (simp add: unsigned_minus_1_eq_mask mask_eq_exp_minus_1)
    then show ?thesis using True assms(1) by (simp add: copy_mem_def in_region_iff)
  next
    case False
    then have st: "unat (x - d) = Suc (unat (x - (d + 1)))" by (rule unat_diff_step)
    have "s + (x - d) \<noteq> d" if "unat (x - d) < Suc n"
    proof
      assume "s + (x - d) = d"
      then have "d - s = x - d" by (simp add: algebra_simps)
      with that st assms(2) show False by simp
    qed
    with False st show ?thesis by (auto simp: copy_mem_def in_region_iff algebra_simps)
  qed
qed

lemma memcpy_loop_forward:
  "\<not> (0 < unat (d - s) \<and> unat (d - s) < unat n) \<Longrightarrow> memcpy_loop m d s n = copy_mem m d s (unat n)"
proof (induction m d s n rule: memcpy_loop.induct)
  case (1 m d s n)
  show ?case
  proof (cases "n = 0")
    case True
    then show ?thesis by (simp add: memcpy_loop.simps copy_mem_def)
  next
    case False
    then have n: "unat n = Suc (unat (n - 1))" by (simp add: unat_minus_1_64 unat_gt_0)
    have "memcpy_loop (m(d := m s)) (d + 1) (s + 1) (n - 1) =
        copy_mem (m(d := m s)) (d + 1) (s + 1) (unat (n - 1))"
      by (rule 1(1)) (use 1(2) False n in auto)
    also have "\<dots> = copy_mem m d s (unat n)"
      using 1(2) n by (subst n, intro copy_mem_step) auto
    finally show ?thesis using False by (subst memcpy_loop.simps) simp
  qed
qed

lemma copy_mem_store_bytes: "n \<le> 2 ^ 64 \<Longrightarrow> copy_mem m d s n = store_bytes m d (bytes_at m s n)"
  by (rule ext) (simp add: copy_mem_def store_bytes_apply in_region_iff)

lemma memmove_down_backward:
  "\<not> (0 < unat (s - d) \<and> unat (s - d) < unat i) \<Longrightarrow> memmove_down m d s i = copy_mem m d s (unat i)"
proof (induction m d s i rule: memmove_down.induct)
  case (1 m d s i)
  show ?case
  proof (cases "i = 0")
    case True
    then show ?thesis by (simp add: memmove_down.simps copy_mem_def)
  next
    case False
    then have n: "unat (i - 1) = unat i - 1" "unat i > 0" by (simp_all add: unat_minus_1_64 unat_gt_0)
    let ?m = "m(d + (i - 1) := m (s + (i - 1)))"
    have "memmove_down m d s i = copy_mem ?m d s (unat (i - 1))"
    proof -
      have "memmove_down ?m d s (i - 1) = copy_mem ?m d s (unat (i - 1))"
        by (rule 1(1)) (use 1(2) False n in \<open>auto simp: word_gt_0\<close>)
      then show ?thesis using False by (subst memmove_down.simps) (simp add: word_gt_0)
    qed
    also have "\<dots> = copy_mem m d s (unat i)"
    proof
      fix x
      show "copy_mem ?m d s (unat (i - 1)) x = copy_mem m d s (unat i) x"
      proof (cases "x = d + (i - 1)")
        case True
        with n show ?thesis by (simp add: copy_mem_def in_region_iff)
      next
        case False
        then have "x - d \<noteq> i - 1" by (metis add.commute diff_add_cancel)
        then have ne: "unat (x - d) \<noteq> unat i - 1" using n by (metis word_unat_eq_iff)
        have "s + (x - d) \<noteq> d + (i - 1)" if k: "unat (x - d) < unat i - 1"
        proof
          assume "s + (x - d) = d + (i - 1)"
          then have "s - d = (i - 1) - (x - d)" by (simp add: algebra_simps)
          moreover have "unat ((i - 1) - (x - d)) = unat i - 1 - unat (x - d)"
            using k n by (subst unat_sub) (simp_all add: word_le_nat_alt)
          ultimately have "unat (s - d) = unat i - 1 - unat (x - d)" by (simp only:)
          with k 1(2) show False by linarith
        qed
        with ne False n show ?thesis by (auto simp: copy_mem_def in_region_iff)
      qed
    qed
    finally show ?thesis .
  qed
qed

lemma memmove_copy_mem:
  assumes "unat dst + unat n \<le> 2 ^ 64" and "unat src + unat n \<le> 2 ^ 64"
  shows "memmove m dst src n = (copy_mem m dst src (unat n), dst)"
proof (cases "dst < src")
  case True
  then have "unat (dst - src) = 2 ^ 64 + unat dst - unat src"
    by (simp add: unat_sub_if' word_less_nat_alt)
  with assms(2) have "\<not> unat (dst - src) < unat n" by simp
  with True show ?thesis by (simp add: memmove_def memcpy_def memcpy_loop_forward)
next
  case False
  have "\<not> (0 < unat (src - dst) \<and> unat (src - dst) < unat n)"
  proof (cases "src = dst")
    case False
    with \<open>\<not> dst < src\<close> have "unat (src - dst) = 2 ^ 64 + unat src - unat dst"
      by (simp add: unat_sub_if' word_less_nat_alt word_unat_eq_iff)
    with assms(1) show ?thesis by simp linarith
  qed simp
  with False show ?thesis by (simp add: memmove_def memmove_down_backward)
qed

lemma memset_loop_spec: "memset_loop m p v n = (\<lambda>x. if x \<in> region p (unat n) then v else m x)"
proof (induction m p v n rule: memset_loop.induct)
  case (1 m p v n)
  show ?case
  proof (cases "n = 0")
    case True
    then show ?thesis by (simp add: memset_loop.simps)
  next
    case False
    then have n: "unat n = Suc (unat (n - 1))" by (simp add: unat_minus_1_64 unat_gt_0)
    have "region p (unat n) = insert p (region (p + 1) (unat (n - 1)))"
      by (subst n, rule region_Suc) simp
    moreover have "memset_loop (m(p := v)) (p + 1) v (n - 1) =
        (\<lambda>x. if x \<in> region (p + 1) (unat (n - 1)) then v else (m(p := v)) x)"
      by (rule 1) (fact False)
    ultimately show ?thesis using False by (subst memset_loop.simps) (auto simp: fun_eq_iff)
  qed
qed


lemma copy_through_nul_cstr:
  "cstr m s str \<Longrightarrow> unat (d - s) = 0 \<or> length str < unat (d - s) \<Longrightarrow>
     copy_through_nul m d s = Some (copy_mem m d s (Suc (length str)))"
proof (induction str arbitrary: m d s)
  case Nil
  then show ?case
    using copy_mem_step [of 0 d s m] by (auto simp: copy_through_nul.simps [of m d s])
next
  case (Cons c cs)
  let ?m = "m(d := m s)"
  have len: "length cs < 2 ^ 64" using cstr_length [OF Cons.prems(1)] by simp
  have "cstr ?m (s + 1) cs"
  proof (rule cstr_frame)
    show "cstr m (s + 1) cs" using Cons.prems(1) by simp
    fix i assume i: "i \<le> length cs"
    have "s + 1 + of_nat i \<noteq> d"
    proof
      assume "s + 1 + of_nat i = d"
      then have "d - s = of_nat (Suc i)" by auto
      moreover have "Suc i < 2 ^ 64" using i cstr_length [OF Cons.prems(1)] by simp
      ultimately have "unat (d - s) = Suc i" by (simp only: unat_of_nat_64)
      with Cons.prems(2) i show False by simp
    qed
    then show "?m (s + 1 + of_nat i) = m (s + 1 + of_nat i)" by simp
  qed
  then have "copy_through_nul ?m (d + 1) (s + 1) = Some (copy_mem ?m (d + 1) (s + 1) (Suc (length cs)))"
    by (rule Cons.IH) (use Cons.prems(2) in auto)
  also have "\<dots> = Some (copy_mem m d s (Suc (length (c # cs))))"
    using Cons.prems cstr_length [OF Cons.prems(1)] by (subst copy_mem_step) auto
  finally show ?case using Cons.prems(1) by (simp add: copy_through_nul.simps [of m d s])
qed

lemma bytes_at_cstr: "cstr m p s \<Longrightarrow> bytes_at m p (Suc (length s)) = s @ [0]"
  using cstr_bytes [of m p s] by (simp del: bytes_at.simps)

lemma bytes_at_cstr_take: "cstr m p s \<Longrightarrow> k \<le> length s \<Longrightarrow> bytes_at m p k = take k s"
  by (auto simp: bytes_at_eq_iff cstr_nth)

lemma cstr_store: "0 \<notin> set s \<Longrightarrow> length s < 2 ^ 64 \<Longrightarrow> cstr (store_bytes m p (s @ [0])) p s"
  by (simp add: cstr_bytes bytes_at_store_bytes del: bytes_at.simps store_bytes.simps)

lemma no_hazard:
  assumes "disjoint_regions d n s k" and "0 < n" and "0 < k" and "k \<le> 2 ^ 64"
  shows "k \<le> unat (d - s)"
proof (rule ccontr)
  assume "\<not> ?thesis"
  then have "d \<in> region s k" by (simp add: in_region_iff)
  moreover have "d \<in> region d n" using assms(2) by (simp add: in_region_iff)
  ultimately show False using assms(1) by (auto simp: disjoint_regions_def)
qed

lemma strcpy_cstr:
  assumes "cstr m src s" and "disjoint_regions dest (length s + 1) src (length s + 1)"
  shows "strcpy m dest src = Some (store_bytes m dest (s @ [0]), dest)"
proof -
  have len: "length s < 2 ^ 64" using assms(1) by (rule cstr_length)
  with no_hazard [OF assms(2)] have "length s + 1 \<le> unat (dest - src)" by simp
  with assms(1) have "copy_through_nul m dest src = Some (copy_mem m dest src (Suc (length s)))"
    by (intro copy_through_nul_cstr) auto
  with assms(1) len show ?thesis
    by (simp add: strcpy_def copy_mem_store_bytes bytes_at_cstr del: bytes_at.simps)
qed

lemma find_nul_cstr: "cstr m p s \<Longrightarrow> find_nul m p = Some (p + of_nat (length s))"
  by (induction s arbitrary: p) (simp_all add: find_nul.simps add.assoc)

lemma skip_past_nul_cstr: "cstr m p s \<Longrightarrow> skip_past_nul m p = Some (p + of_nat (length s) + 1)"
  by (induction s arbitrary: p) (simp_all add: skip_past_nul.simps add.assoc)

lemma cstr_append_store:
  assumes "cstr m p t" and "0 \<notin> set s" and "length t + length s < 2 ^ 64"
  shows "cstr (store_bytes m (p + of_nat (length t)) (s @ [0])) p (t @ s)"
proof -
  let ?q = "p + of_nat (length t)" and ?m = "store_bytes m (p + of_nat (length t)) (s @ [0])"
  have "?m (p + of_nat i) = t ! i" if i: "i < length t" for i
  proof -
    have u: "unat (of_nat i :: u64) = i" "unat (of_nat (length t) :: u64) = length t"
      using i assms(3) by (auto intro!: unat_of_nat_64)
    have "unat (of_nat i - of_nat (length t) :: u64) = 2 ^ 64 + i - length t"
      using i by (subst unat_sub_if') (simp add: u)
    then have "p + of_nat i \<notin> region ?q (length (s @ [0]))"
      using i assms(3) by (simp add: in_region_iff)
    then show ?thesis using assms i by (simp add: store_bytes_outside cstr_nth)
  qed
  moreover have q: "cstr ?m ?q s" using assms by (intro cstr_store) auto
  have "?m (p + of_nat i) = s ! (i - length t)" if "length t \<le> i" "i < length t + length s" for i
  proof -
    have e: "p + of_nat i = ?q + of_nat (i - length t)" using that by simp
    show ?thesis by (subst e, rule cstr_nth [OF q]) (use that in arith)
  qed
  moreover have "?m (p + of_nat (length (t @ s))) = 0" using cstr_end [OF q] by (simp add: add.assoc)
  ultimately show ?thesis
    using assms(1,2) unfolding cstr_iff by (auto simp: nth_append)
qed

lemma strcat_cstr:
  assumes "cstr m dest t" and "cstr m src s"
    and "disjoint_regions (dest + of_nat (length t)) (length s + 1) src (length s + 1)"
  shows "strcat m dest src = Some (store_bytes m (dest + of_nat (length t)) (s @ [0]), dest)"
proof -
  have len: "length s < 2 ^ 64" using assms(2) by (rule cstr_length)
  with no_hazard [OF assms(3)] have "length s + 1 \<le> unat (dest + of_nat (length t) - src)" by simp
  with assms(2) have "copy_through_nul m (dest + of_nat (length t)) src =
      Some (copy_mem m (dest + of_nat (length t)) src (Suc (length s)))"
    by (intro copy_through_nul_cstr) auto
  with assms len show ?thesis
    by (simp add: strcat_def find_nul_cstr copy_mem_store_bytes bytes_at_cstr del: bytes_at.simps)
qed


lemma strlcpy_copy_cstr:
  "cstr m s str \<Longrightarrow> n \<noteq> 0 \<Longrightarrow> unat (d - s) = 0 \<or> length str < unat (d - s) \<Longrightarrow>
     strlcpy_copy m d s n =
       (if Suc (length str) < unat n
        then (copy_mem m d s (Suc (length str)), d + of_nat (Suc (length str)),
              s + of_nat (Suc (length str)), n - of_nat (Suc (length str)))
        else (copy_mem m d s (unat n - 1), d + (n - 1), s + (n - 1), 0))"
proof (induction str arbitrary: m d s n)
  case Nil
  then have n: "unat (n - 1) = unat n - 1" "0 < unat n" by (simp_all add: unat_minus_1_64 unat_gt_0)
  have z: "m(d := 0) = copy_mem m d s 1"
    using copy_mem_step [of 0 d s m] Nil by auto
  show ?case
  proof (cases "1 < unat n")
    case False
    with n have "n - 1 = 0" "unat n = 1" by (auto simp: word_unat_eq_iff)
    then show ?thesis by (subst strlcpy_copy.simps) (simp add: Let_def)
  next
    case True
    with n have "0 < n - 1" by (simp add: word_less_nat_alt)
    with True Nil z show ?thesis by (subst strlcpy_copy.simps) (simp add: Let_def)
  qed
next
  case (Cons c cs)
  let ?m = "m(d := m s)"
  have len: "Suc (length cs) < 2 ^ 64" using cstr_length [OF Cons.prems(1)] by simp
  have n: "unat (n - 1) = unat n - 1" "0 < unat n"
    using Cons.prems(2) by (simp_all add: unat_minus_1_64 unat_gt_0)
  show ?case
  proof (cases "1 < unat n")
    case False
    with n have "n - 1 = 0" "unat n = 1" by (auto simp: word_unat_eq_iff)
    then show ?thesis by (subst strlcpy_copy.simps) (simp add: Let_def)
  next
    case True
    then have n1: "n - 1 \<noteq> 0" using n by (auto simp: word_unat_eq_iff)
    have "cstr ?m (s + 1) cs"
    proof (rule cstr_frame)
      show "cstr m (s + 1) cs" using Cons.prems(1) by simp
      fix i assume i: "i \<le> length cs"
      have "s + 1 + of_nat i \<noteq> d"
      proof
        assume "s + 1 + of_nat i = d"
        then have "d - s = of_nat (Suc i)" by auto
        moreover have "Suc i < 2 ^ 64" using i len by simp
        ultimately have "unat (d - s) = Suc i" by (simp only: unat_of_nat_64)
        with Cons.prems(3) i show False by simp
      qed
      then show "?m (s + 1 + of_nat i) = m (s + 1 + of_nat i)" by simp
    qed
    note ih = Cons.IH [OF this n1, of "d + 1"]
    have step: "copy_mem ?m (d + 1) (s + 1) (Suc (length cs)) = copy_mem m d s (Suc (Suc (length cs)))"
      using Cons.prems(3) len by (intro copy_mem_step) auto
    have step': "copy_mem ?m (d + 1) (s + 1) (unat n - 2) = copy_mem m d s (unat n - 1)"
      if "\<not> Suc (length (c # cs)) < unat n"
    proof -
      have "copy_mem ?m (d + 1) (s + 1) (unat n - 2) = copy_mem m d s (Suc (unat n - 2))"
        using Cons.prems(3) len that by (intro copy_mem_step) auto
      moreover have "Suc (unat n - 2) = unat n - 1" using True by simp
      ultimately show ?thesis by simp
    qed
    have "strlcpy_copy m d s n = strlcpy_copy ?m (d + 1) (s + 1) (n - 1)"
      using Cons.prems(1) n1 by (subst strlcpy_copy.simps) (simp add: Let_def word_gt_0)
    also have "\<dots> = (if Suc (length cs) < unat (n - 1)
        then (copy_mem ?m (d + 1) (s + 1) (Suc (length cs)), d + 1 + of_nat (Suc (length cs)),
              s + 1 + of_nat (Suc (length cs)), n - 1 - of_nat (Suc (length cs)))
        else (copy_mem ?m (d + 1) (s + 1) (unat (n - 1) - 1), d + 1 + (n - 1 - 1), s + 1 + (n - 1 - 1), 0))"
      using Cons.prems(3) by (intro ih) auto
    finally show ?thesis using n True step step' by (auto simp: algebra_simps numeral_2_eq_2)
  qed
qed

lemma cstr_no_write:
  assumes "cstr m p s" and "disjoint_regions q n p (length s + 1)"
    and "\<And>x. x \<notin> region q n \<Longrightarrow> m' x = m x"
  shows "cstr m' p s"
proof (rule cstr_frame [OF assms(1)])
  fix i assume "i \<le> length s"
  then have "p + of_nat i \<in> region p (length s + 1)"
    using cstr_length [OF assms(1)] by (intro region_offset) auto
  with assms(2) have "p + of_nat i \<notin> region q n" by (rule disjoint_regionsD)
  then show "m' (p + of_nat i) = m (p + of_nat i)" by (rule assms(3))
qed

lemma copy_mem_terminate:
  assumes "cstr m s str" and "k \<le> length str"
  shows "(copy_mem m d s k)(d + of_nat k := 0) = store_bytes m d (take k str @ [0])"
proof
  fix x
  have len: "length str < 2 ^ 64" using assms(1) by (rule cstr_length)
  have e: "x = d + of_nat k \<longleftrightarrow> unat (x - d) = k"
  proof -
    have "unat (of_nat k :: u64) = k" using assms(2) len by (intro unat_of_nat_64) simp
    then have "unat (x - d) = k \<longleftrightarrow> x - d = of_nat k" by (simp add: word_unat_eq_iff)
    then show ?thesis by (auto simp: algebra_simps)
  qed
  have "copy_mem m d s k = store_bytes m d (take k str)"
    using assms len by (simp add: copy_mem_store_bytes bytes_at_cstr_take)
  then show "((copy_mem m d s k)(d + of_nat k := 0)) x = store_bytes m d (take k str @ [0]) x"
    using assms(2) len e by (auto simp: store_bytes_apply nth_append)
qed

lemma strlcpy_cstr:
  assumes "n \<noteq> 0" and "cstr m src s" and "disjoint_regions dst (unat n) src (length s + 1)"
  shows "strlcpy m dst src n = Some (store_bytes m dst (take (unat n - 1) s @ [0]), of_nat (length s))"
proof -
  have len: "length s < 2 ^ 64" using assms(2) by (rule cstr_length)
  have n: "0 < unat n" using assms(1) by (simp add: unat_gt_0)
  from no_hazard [OF assms(3) n] len have hz: "length s < unat (dst - src)" by simp
  note copy = strlcpy_copy_cstr [OF assms(2,1) disjI2 [OF hz]]
  show ?thesis
  proof (cases "Suc (length s) < unat n")
    case True
    have "unat n < 2 ^ 64" by simp
    with True have "Suc (length s) < 2 ^ 64" by (rule less_trans)
    then have "unat (of_nat (Suc (length s)) :: u64) = Suc (length s)" by (rule unat_of_nat_64)
    with True have "n \<noteq> of_nat (Suc (length s))" by (metis less_irrefl)
    then have "n - of_nat (Suc (length s)) \<noteq> 0" by simp
    with True copy assms len show ?thesis
      by (simp add: strlcpy_def copy_mem_store_bytes bytes_at_cstr del: bytes_at.simps of_nat_Suc)
        (simp add: algebra_simps)
  next
    case False
    let ?m = "(copy_mem m dst src (unat n - 1))(dst + (n - 1) := 0)"
    have k: "unat n - 1 \<le> length s" using False by simp
    have "of_nat (unat n - 1) = n - 1" using n by (simp add: of_nat_diff)
    then have m: "?m = store_bytes m dst (take (unat n - 1) s @ [0])"
      using copy_mem_terminate [OF assms(2) k, of dst] by simp
    have "cstr ?m src s"
    proof (rule cstr_no_write [OF assms(2,3)])
      fix x assume "x \<notin> region dst (unat n)"
      then show "?m x = m x" unfolding m using n k len
        by (intro store_bytes_outside) (auto simp: in_region_iff)
    qed
    then have "cstr ?m (src + of_nat (unat n - 1)) (drop (unat n - 1) s)"
      using k by (rule cstr_drop)
    then have "skip_past_nul ?m (src + (n - 1)) = Some (src + of_nat (length s) + 1)"
      using k n skip_past_nul_cstr [of ?m "src + (n - 1)" "drop (unat n - 1) s"]
      by (simp add: of_nat_diff algebra_simps)
    with False copy assms(1) m show ?thesis by (simp add: strlcpy_def Let_def)
  qed
qed


lemma strlcat_cstr:
  assumes "cstr m dst t" and "cstr m src s" and "length t < unat sz"
    and "disjoint_regions (dst + of_nat (length t)) (unat sz - length t) src (length s + 1)"
  shows "strlcat m dst src sz =
    Some (store_bytes m (dst + of_nat (length t)) (take (unat sz - length t - 1) s @ [0]),
          of_nat (length s + length t))"
proof -
  let ?d = "dst + of_nat (length t)"
  have len: "length s < 2 ^ 64" "length t < 2 ^ 64" using assms(1,2) by (auto dest: cstr_length)
  have ul: "unat (of_nat (length s) :: u64) = length s" "unat (of_nat (length t) :: u64) = length t"
    using len by (auto intro: unat_of_nat_64)
  have room: "unat (sz - of_nat (length t)) = unat sz - length t"
    using assms(3) by (subst unat_sub_if') (simp add: ul)
  from no_hazard [OF assms(4)] assms(3) len have hz: "length s < unat (?d - src)" by simp
  have ne: "of_nat (length t) \<noteq> sz" using assms(3) ul(2) by auto
  show ?thesis
  proof (cases "length s < unat sz - length t")
    case True
    have "Suc (length s) \<le> unat sz" using True by simp
    moreover have "unat sz < 2 ^ 64" by simp
    ultimately have "unat (of_nat (Suc (length s)) :: u64) = Suc (length s)"
      by (intro unat_of_nat_64) (rule le_less_trans)
    then have "unat (of_nat (length s) + 1 :: u64) = Suc (length s)" by (simp add: add.commute)
    then have "memcpy_loop m ?d src (of_nat (length s) + 1) = store_bytes m ?d (s @ [0])"
      using hz assms(2) len
      by (subst memcpy_loop_forward) (auto simp: copy_mem_store_bytes bytes_at_cstr simp del: bytes_at.simps)
    with True ne ul room assms(1,2) show ?thesis
      by (simp add: strlcat_def strlen_cstr memcpy_def word_less_nat_alt)
  next
    case False
    let ?k = "unat sz - length t - 1"
    have k: "?k \<le> length s" using False by simp
    have uk: "unat (sz - of_nat (length t) - 1) = ?k"
      using room assms(3) ne by (subst unat_minus_1_64) auto
    have "dst + (sz - 1) = ?d + of_nat ?k"
      unfolding uk [symmetric] by simp
    then have "(memcpy_loop m ?d src (sz - of_nat (length t) - 1))(dst + (sz - 1) := 0) =
        store_bytes m ?d (take ?k s @ [0])"
      using hz k uk copy_mem_terminate [OF assms(2) k, of ?d]
      by (subst memcpy_loop_forward) (auto simp: add.assoc)
    with False ne ul room assms(1,2) show ?thesis
      by (simp add: strlcat_def strlen_cstr memcpy_def word_less_nat_alt)
  qed
qed

section \<open>Searching and tokens\<close>

lemma match_here_cstr:
  "cstr m a hs \<Longrightarrow> cstr m b ns \<Longrightarrow> \<exists>b'. match_here m a b = Some b' \<and> (m b' = 0 \<longleftrightarrow> prefix ns hs)"
proof (induction ns arbitrary: a b hs)
  case Nil
  then show ?case by (simp add: match_here.simps [of m a b])
next
  case (Cons c cs)
  show ?case
  proof (cases hs)
    case Nil
    with Cons.prems show ?thesis by (auto simp: match_here.simps [of m a b])
  next
    case hs: (Cons h hs')
    show ?thesis
    proof (cases "c = h")
      case True
      with Cons.prems hs Cons.IH [of "a + 1" hs' "b + 1"] show ?thesis
        by (simp add: match_here.simps [of m a b])
    next
      case False
      with Cons.prems hs show ?thesis by (auto simp: match_here.simps [of m a b])
    qed
  qed
qed

lemma find_sub_Some:
  "find_sub ns hs = Some k \<Longrightarrow>
     k \<le> length hs \<and> prefix ns (drop k hs) \<and> (\<forall>j < k. \<not> prefix ns (drop j hs))"
proof (induction ns hs arbitrary: k rule: find_sub.induct)
  case (2 ns h hs)
  show ?case
  proof (cases "prefix ns (h # hs)")
    case False
    with 2 obtain j where "k = Suc j" "find_sub ns hs = Some j" by auto
    with 2 False show ?thesis by (auto simp: less_Suc_eq_0_disj)
  qed (use 2 in auto)
qed (auto split: if_splits)

lemma find_sub_None: "find_sub ns hs = None \<Longrightarrow> \<not> sublist ns hs"
  by (induction ns hs rule: find_sub.induct) (auto simp: sublist_Cons_right split: if_splits)

lemma find_sub_short: "length hs < length ns \<Longrightarrow> find_sub ns hs = None"
  by (induction ns hs rule: find_sub.induct) (auto dest: prefix_length_le)

lemma strstr_loop_cstr:
  "cstr m h hs \<Longrightarrow> cstr m nd ns \<Longrightarrow> ns \<noteq> [] \<Longrightarrow>
     strstr_loop m h nd = Some (case find_sub ns hs of None \<Rightarrow> 0 | Some k \<Rightarrow> h + of_nat k)"
proof (induction hs arbitrary: h)
  case Nil
  then show ?case by (simp add: strstr_loop.simps [of m h nd])
next
  case (Cons c cs)
  have ge: "(of_nat (length ns) \<le> (of_nat (length (c # cs)) :: u64)) \<longleftrightarrow> length ns \<le> length (c # cs)"
    using cstr_length [OF Cons.prems(1)] cstr_length [OF Cons.prems(2)]
    by (simp only: word_le_nat_alt unat_of_nat_64)
  have lens: "strlen m h = Some (of_nat (length (c # cs)))" "strlen m nd = Some (of_nat (length ns))"
    by (rule strlen_cstr, fact)+
  obtain b' where b': "match_here m h nd = Some b'" "m b' = 0 \<longleftrightarrow> prefix ns (c # cs)"
    using match_here_cstr [OF Cons.prems(1,2)] by blast
  have ih: "strstr_loop m (h + 1) nd = Some (case find_sub ns cs of None \<Rightarrow> 0 | Some k \<Rightarrow> h + of_nat (Suc k))"
    using Cons by (simp add: algebra_simps split: option.splits)
  show ?case
  proof (cases "length ns \<le> length (c # cs)")
    case True
    then show ?thesis
      using Cons.prems(1) b' ih ge
      by (subst strstr_loop.simps) (auto simp: lens simp del: of_nat_Suc length_Cons split: option.splits)
  next
    case False
    then have "find_sub ns (c # cs) = None" by (intro find_sub_short) simp
    with False Cons.prems(1) ge show ?thesis
      by (subst strstr_loop.simps) (auto simp: lens simp del: of_nat_Suc length_Cons find_sub.simps)
  qed
qed

lemma strstr_cstr:
  assumes "cstr m h hs" and "cstr m nd ns"
  shows "strstr m h nd = Some (case find_sub ns hs of None \<Rightarrow> 0 | Some k \<Rightarrow> h + of_nat k)"
proof (cases ns)
  case Nil
  have "find_sub [] hs = Some 0" by (cases hs) auto
  with Nil assms show ?thesis by (simp add: strstr_def)
next
  case (Cons c cs)
  with assms show ?thesis by (simp add: strstr_def strstr_loop_cstr)
qed


lemma strpbrk_inner_cstr: "cstr m p ds \<Longrightarrow> strpbrk_inner m c p = Some (c \<in> set ds)"
  by (induction ds arbitrary: p) (auto simp: strpbrk_inner.simps)

lemma strpbrk_cstr:
  "cstr m p s \<Longrightarrow> cstr m q ds \<Longrightarrow>
     strpbrk m p q =
       Some (if set s \<inter> set ds = {} then 0 else p + of_nat (length (takeWhile (\<lambda>c. c \<notin> set ds) s)))"
proof (induction s arbitrary: p)
  case Nil
  then show ?case by (simp add: strpbrk.simps [of m p q])
next
  case (Cons c cs)
  then have "strpbrk m (p + 1) q =
      Some (if set cs \<inter> set ds = {} then 0 else p + 1 + of_nat (length (takeWhile (\<lambda>c. c \<notin> set ds) cs)))"
    by simp
  with Cons.prems strpbrk_inner_cstr [OF Cons.prems(2), of c] show ?case
    by (auto simp: strpbrk.simps [of m p q] algebra_simps)
qed

lemma strtok_cstr:
  assumes "cstr m str s" and "cstr m delim ds" and "str \<noteq> 0"
    and hit: "set s \<inter> set ds \<noteq> {}" and "unat str + length s < 2 ^ 64"
  defines "w \<equiv> takeWhile (\<lambda>c. c \<notin> set ds) s"
  shows "\<exists>m'. strtok m tok str delim = Some (m', str + of_nat (length w) + 1, str) \<and>
     cstr m' str w \<and> cstr m' (str + of_nat (length w) + 1) (tl (dropWhile (\<lambda>c. c \<notin> set ds) s))"
proof -
  let ?e = "str + of_nat (length w)" and ?r = "dropWhile (\<lambda>c. c \<notin> set ds) s"
  have s: "s = w @ ?r" by (simp add: w_def)
  have r: "?r \<noteq> []" using hit by auto
  then have lw: "length w < length s" by (metis s length_append length_greater_0_conv less_add_same_cancel1)
  have len: "length s < 2 ^ 64" using assms(1) by (rule cstr_length)
  have "unat ?e = unat str + length w"
    using lw assms(5) len by (subst unat_word_ariths) (simp add: unat_of_nat_64)
  then have e0: "?e \<noteq> 0" using assms(3) by (metis add_is_0 unat_0 unat_eq_0)
  have ne: "?e \<noteq> str + of_nat i" if "i \<noteq> length w" "i \<le> length s" for i
    using that lw len unat_of_nat_64 [of i] unat_of_nat_64 [of "length w"] by (metis add_left_cancel le_less_trans less_trans)
  let ?m = "m(?e := 0)"
  have "cstr ?m str w"
  proof -
    have "?m (str + of_nat i) = w ! i" if "i < length w" for i
      using ne [of i] lw that cstr_nth [OF assms(1), of i] by (simp add: w_def takeWhile_nth)
    moreover have "0 \<notin> set w" using assms(1) by (auto simp: w_def cstr_iff dest: set_takeWhileD)
    ultimately show ?thesis unfolding cstr_iff by simp
  qed
  moreover have "cstr ?m (?e + 1) (tl ?r)"
  proof -
    have "cstr m (str + of_nat (Suc (length w))) (drop (Suc (length w)) s)"
      using assms(1) lw by (intro cstr_drop) auto
    moreover have "drop (Suc (length w)) s = tl ?r" by (metis s append_eq_conv_conj drop_Suc tl_drop)
    ultimately have c: "cstr m (?e + 1) (tl ?r)" by (simp add: algebra_simps)
    have "length s = length w + length ?r" by (subst s) (rule length_append)
    moreover have "0 < length ?r" using r by simp
    ultimately have lr: "length (tl ?r) + Suc (length w) = length s" by simp
    show ?thesis
    proof (rule cstr_frame [OF c])
      fix i assume "i \<le> length (tl ?r)"
      then have "?e \<noteq> str + of_nat (Suc (length w) + i)" using lr by (intro ne) auto
      then show "?m (?e + 1 + of_nat i) = m (?e + 1 + of_nat i)" by (simp add: algebra_simps)
    qed
  qed
  moreover have "strtok m tok str delim = Some (?m, ?e + 1, str)"
    using assms(1-4) e0 by (simp add: strtok_def strpbrk_cstr w_def)
  ultimately show ?thesis by blast
qed

lemma strncmp_cstr:
  "cstr m p s \<Longrightarrow> cstr m q t \<Longrightarrow>
     (strncmp m p q n = 0 \<longleftrightarrow> take (unat n) s = take (unat n) t) \<and>
     (strncmp m p q n < 0 \<longleftrightarrow> ord_class.lexordp (take (unat n) s) (take (unat n) t))"
proof (induction s arbitrary: p q t n)
  case Nil
  show ?case
  proof (cases "n = 0")
    case True
    then show ?thesis by (simp add: strncmp.simps)
  next
    case False
    with Nil show ?thesis
      by (cases t; cases "unat n") (auto simp: strncmp.simps [of m p q n] uint_0_iff word_gt_0 unat_eq_0)
  qed
next
  case (Cons c cs)
  show ?case
  proof (cases "n = 0")
    case True
    then show ?thesis by (simp add: strncmp.simps)
  next
    case False
    then have n: "unat n = Suc (unat (n - 1))" by (simp add: unat_minus_1_64 unat_gt_0)
    show ?thesis
    proof (cases t)
      case Nil
      with Cons.prems False n show ?thesis
        by (auto simp: strncmp.simps [of m p q n] uint_0_iff word_gt_0)
    next
      case t: (Cons d ds)
      show ?thesis
      proof (cases "c = d")
        case True
        with Cons.prems False t Cons.IH [of "p + 1" "q + 1" ds "n - 1"] show ?thesis
          by (auto simp: strncmp.simps [of m p q n] word_gt_0 n)
      next
        case ne: False
        then have "uint c \<noteq> uint d" by (simp add: word_uint_eq_iff)
        with ne Cons.prems False t show ?thesis
          by (auto simp: strncmp.simps [of m p q n] word_gt_0 n word_less_def)
      qed
    qed
  qed
qed

lemma strchr_loop_cstr:
  "cstr m p s \<Longrightarrow> c \<noteq> 0 \<Longrightarrow>
     strchr_loop m p c = Some (if c \<in> set s then p + of_nat (length (takeWhile (\<lambda>x. x \<noteq> c) s)) else 0)"
  by (induction s arbitrary: p) (auto simp: strchr_loop.simps algebra_simps)

lemma strcount_loop_cstr:
  "cstr m p s \<Longrightarrow> strcount_loop m p c k = Some (k + of_nat (count_list s c))"
  by (induction s arbitrary: p k) (auto simp: strcount_loop.simps algebra_simps)

lemma memcmp_const_loop_spec:
  "memcmp_const_loop m p v n i = 0 \<longleftrightarrow> (\<forall>j. i \<le> j \<and> j < n \<longrightarrow> m (p + j) = v)"
proof (induction m p v n i rule: memcmp_const_loop.induct)
  case (1 m p v n i)
  show ?case
  proof (cases "i < n")
    case False
    then show ?thesis by (simp add: memcmp_const_loop.simps) (meson le_less_trans)
  next
    case True
    have "unat (i + 1) = Suc (unat i)" using True by (intro unat_add_1_64) auto
    then have "i \<le> j \<longleftrightarrow> j = i \<or> i + 1 \<le> j" for j by (auto simp: word_le_nat_alt word_unat_eq_iff)
    then have "(\<forall>j. i \<le> j \<and> j < n \<longrightarrow> m (p + j) = v) \<longleftrightarrow>
        m (p + i) = v \<and> (\<forall>j. i + 1 \<le> j \<and> j < n \<longrightarrow> m (p + j) = v)"
      using True by auto
    with 1 True show ?thesis
      by (auto simp: memcmp_const_loop.simps [of m p v n i] dest!: sint_eq_0)
  qed
qed

section \<open>Properties\<close>

text \<open>
  C34. Where neither buffer wraps around the address space, \<open>memmove\<close> leaves in the destination
  what the source held before the call, whatever the overlap of the two, changes no byte outside
  the destination, and returns the destination.
\<close>
theorem memmove_correct:
  assumes "unat dst + unat n \<le> 2 ^ 64" and "unat src + unat n \<le> 2 ^ 64"
  shows "bytes_at (fst (memmove m dst src n)) dst (unat n) = bytes_at m src (unat n) \<and>
    (\<forall>x. x \<notin> region dst (unat n) \<longrightarrow> fst (memmove m dst src n) x = m x) \<and>
    snd (memmove m dst src n) = dst"
  using assms by (simp add: memmove_copy_mem copy_mem_bytes copy_mem_outside)

theorem memmove_correct_witness:
  "bytes_at (fst (memmove (\<lambda>x. ucast x) 102 100 4)) 102 4 = [100, 101, 102, 103]"
  using memmove_correct [of 102 4 100 "\<lambda>x. ucast x"] by (simp add: bytes_at_numeral)

text \<open>
  C2. On two C strings \<open>strcmp\<close> returns; its result is 0 exactly when the strings are equal and
  negative exactly when the first is smaller in the lexicographic order of unsigned bytes.
\<close>
theorem strcmp_correct:
  assumes "cstr m p s" and "cstr m q t"
  shows "\<exists>r. strcmp m p q = Some r \<and> (r = 0 \<longleftrightarrow> s = t) \<and> (r < 0 \<longleftrightarrow> ord_class.lexordp s t)"
  using assms by (rule strcmp_cstr)

theorem strcmp_correct_witness:
  "\<exists>r. strcmp (store_bytes (store_bytes (\<lambda>_. 0) 100 [1, 2]) 200 [1, 3]) 100 200 = Some r \<and> r < 0"
proof -
  have "cstr (store_bytes (store_bytes (\<lambda>_. 0) 100 [1, 2]) 200 [1, 3]) 100 [1, 2]"
    and "cstr (store_bytes (store_bytes (\<lambda>_. 0) 100 [1, 2]) 200 [1, 3]) 200 [1, 3]" by simp_all
  from strcmp_correct [OF this] show ?thesis by auto
qed

text \<open>
  C35. \<open>strlcpy\<close> with a non-empty buffer that does not overlap the source returns; it writes the
  longest prefix of the source that fits and a NUL, within the buffer, nothing else, and returns
  the length of the source.
\<close>
theorem strlcpy_correct:
  assumes "n \<noteq> 0" and "cstr m src s" and "disjoint_regions dst (unat n) src (length s + 1)"
  shows "strlcpy m dst src n = Some (store_bytes m dst (take (unat n - 1) s @ [0]), of_nat (length s))"
  using assms by (rule strlcpy_cstr)

theorem strlcpy_correct_witness:
  "strlcpy (store_bytes (\<lambda>_. 7) 100 [1, 2, 3, 0]) 200 100 3 =
     Some (store_bytes (store_bytes (\<lambda>_. 7) 100 [1, 2, 3, 0]) 200 [1, 2, 0], 3)"
proof -
  have "disjoint_regions 200 (unat (3 :: u64)) 100 (length [1, 2, 3 :: u8] + 1)"
    by (rule disjoint_regionsI) simp_all
  moreover have "cstr (store_bytes (\<lambda>_. 7) 100 [1, 2, 3, 0]) 100 [1, 2, 3]" by simp
  ultimately show ?thesis
    using strlcpy_correct [of 3 "store_bytes (\<lambda>_. 7) 100 [1, 2, 3, 0]" 100 "[1, 2, 3]" 200]
    by (simp del: store_bytes.simps)
qed

text \<open>
  C4. Where the string in the destination is shorter than \<open>sz\<close> and the room after it does not
  overlap the source, \<open>strlcat\<close> appends the longest prefix that fits in \<open>sz\<close> bytes with the NUL,
  writes nothing else, and returns the sum of the two lengths.
\<close>
theorem strlcat_correct:
  assumes "cstr m dst t" and "cstr m src s" and "length t < unat sz"
    and "disjoint_regions (dst + of_nat (length t)) (unat sz - length t) src (length s + 1)"
  shows "strlcat m dst src sz =
    Some (store_bytes m (dst + of_nat (length t)) (take (unat sz - length t - 1) s @ [0]),
          of_nat (length s + length t))"
  using assms by (rule strlcat_cstr)

theorem strlcat_correct_witness:
  "strlcat (store_bytes (store_bytes (\<lambda>_. 7) 100 [1, 2, 0]) 200 [5, 0]) 200 100 3 =
     Some (store_bytes (store_bytes (store_bytes (\<lambda>_. 7) 100 [1, 2, 0]) 200 [5, 0]) 201 [1, 0], 3)"
proof -
  let ?m = "store_bytes (store_bytes (\<lambda>_. 7) 100 [1, 2, 0]) 200 [5, 0]"
  have "disjoint_regions (200 + of_nat (length [5 :: u8])) (unat (3 :: u64) - length [5 :: u8]) 100 (length [1, 2 :: u8] + 1)"
    by (rule disjoint_regionsI) simp_all
  moreover have "cstr ?m 200 [5]" "cstr ?m 100 [1, 2]" by simp_all
  ultimately show ?thesis
    using strlcat_correct [of ?m 200 "[5]" 100 "[1, 2]" 3] by (simp del: store_bytes.simps)
qed

text \<open>
  C39. \<open>strstr\<close> returns on C strings. A non-null result is the address of the first occurrence of
  the needle, and where the result is null and the string does not reach address 0 the needle
  does not occur.
\<close>
theorem strstr_first_occurrence:
  assumes "cstr m h hs" and "cstr m nd ns"
  shows "\<exists>r. strstr m h nd = Some r \<and>
    ((\<exists>k \<le> length hs. r = h + of_nat k \<and> prefix ns (drop k hs) \<and> (\<forall>j < k. \<not> prefix ns (drop j hs)))
     \<or> r = 0 \<and> \<not> sublist ns hs)"
proof (cases "find_sub ns hs")
  case None
  then show ?thesis using strstr_cstr [OF assms] find_sub_None by auto
next
  case (Some k)
  then show ?thesis using strstr_cstr [OF assms] find_sub_Some [OF Some] by auto
qed

theorem strstr_first_occurrence_witness:
  "strstr (store_bytes (store_bytes (\<lambda>_. 0) 100 [1, 2, 1, 3]) 200 [1, 3]) 100 200 = Some 102"
proof -
  let ?m = "store_bytes (store_bytes (\<lambda>_. 0) 100 [1, 2, 1, 3]) 200 [1, 3]"
  have "cstr ?m 100 [1, 2, 1, 3]" and "cstr ?m 200 [1, 3]" by simp_all
  from strstr_first_occurrence [OF this] obtain r where r: "strstr ?m 100 200 = Some r"
    and "(\<exists>k \<le> length [1, 2, 1, 3 :: u8]. r = 100 + of_nat k \<and> prefix [1, 3] (drop k [1, 2, 1, 3 :: u8]))
      \<or> \<not> sublist [1, 3] [1, 2, 1, 3 :: u8]" by blast
  moreover have "sublist [1, 3] [1, 2, 1, 3 :: u8]" by (simp add: sublist_Cons_right)
  ultimately obtain k where "k \<le> length [1, 2, 1, 3 :: u8]" "r = 100 + of_nat k"
    "prefix [1, 3] (drop k [1, 2, 1, 3 :: u8])" by blast
  moreover from this have "k = 0 \<or> k = 1 \<or> k = 2 \<or> k = 3 \<or> k = 4" by auto
  ultimately show ?thesis using r by auto
qed

end
