(* ===== verification/Pmm.thy ===== *)
theory Pmm
  imports Prelude
begin

text \<open>
  The physical memory manager, \<^verbatim>\<open>mm/pmm.c\<close>. Its free frames form a linked list that lives in the
  free frames themselves: the first 16 bytes of a free frame, reached through the higher-half
  direct map at \<open>hhdm\<close>, are a \<open>struct PhysicalMemoryRegion\<close>. The memory map and the direct-map
  offset come from the boot loader and are parameters.
\<close>

section \<open>Data\<close>

record memmap_entry =
  me_base :: u64
  me_length :: u64
  me_type :: u64

record pmm =
  pmm_total_pages :: u64
  pmm_free_pages :: u64
  free_mem_head :: u64

definition LIMINE_MEMMAP_USABLE :: u64 where "LIMINE_MEMMAP_USABLE = 0"

definition PAGE_SIZE :: u64 where "PAGE_SIZE = 4096"

definition ALIGN_UP :: "u64 \<Rightarrow> u64 \<Rightarrow> u64" where
  "ALIGN_UP address alignment = (address + (alignment - 1)) AND NOT (alignment - 1)"

definition ALIGN_DOWN :: "u64 \<Rightarrow> u64 \<Rightarrow> u64" where
  "ALIGN_DOWN address alignment = address AND NOT (alignment - 1)"

text \<open>\<open>struct PhysicalMemoryRegion\<close>: \<open>base\<close> at offset 0, \<open>next\<close> at offset 8.\<close>

definition region_base :: "mem \<Rightarrow> u64 \<Rightarrow> u64" where "region_base m r = read64 m r"
definition region_next :: "mem \<Rightarrow> u64 \<Rightarrow> u64" where "region_next m r = read64 m (r + 8)"
definition set_region_base :: "mem \<Rightarrow> u64 \<Rightarrow> u64 \<Rightarrow> mem" where "set_region_base m r v = write64 m r v"
definition set_region_next :: "mem \<Rightarrow> u64 \<Rightarrow> u64 \<Rightarrow> mem" where "set_region_next m r v = write64 m (r + 8) v"

section \<open>Operations\<close>

definition pmm_start :: pmm where
  "pmm_start = \<lparr>pmm_total_pages = 0, pmm_free_pages = 0, free_mem_head = 0\<rparr>"

definition pmm_add_page :: "u64 \<Rightarrow> u64 \<Rightarrow> mem \<times> pmm \<Rightarrow> mem \<times> pmm" where
  "pmm_add_page hhdm current ms =
     (case ms of (m, st) \<Rightarrow>
        let region = current + hhdm;
            m1 = set_region_base m region current;
            m2 = set_region_next m1 region (free_mem_head st)
        in (m2, st\<lparr>free_mem_head := region,
                   pmm_total_pages := pmm_total_pages st + 1,
                   pmm_free_pages := pmm_free_pages st + 1\<rparr>))"

partial_function (option) pmm_add_range :: "u64 \<Rightarrow> u64 \<Rightarrow> u64 \<Rightarrow> mem \<times> pmm \<Rightarrow> (mem \<times> pmm) option" where
  "pmm_add_range hhdm current stop ms =
     (if current < stop
      then pmm_add_range hhdm (current + PAGE_SIZE) stop (pmm_add_page hhdm current ms)
      else Some ms)"

fun pmm_add_entries :: "u64 \<Rightarrow> memmap_entry list \<Rightarrow> mem \<times> pmm \<Rightarrow> (mem \<times> pmm) option" where
  "pmm_add_entries hhdm [] ms = Some ms"
| "pmm_add_entries hhdm (e # es) ms =
     (if me_type e = LIMINE_MEMMAP_USABLE then
        case pmm_add_range hhdm (ALIGN_UP (me_base e) PAGE_SIZE)
               (ALIGN_DOWN (me_base e + me_length e) PAGE_SIZE) ms of
          None \<Rightarrow> None
        | Some ms' \<Rightarrow> pmm_add_entries hhdm es ms'
      else pmm_add_entries hhdm es ms)"

definition pmm_init :: "u64 \<Rightarrow> memmap_entry list \<Rightarrow> mem \<Rightarrow> (mem \<times> pmm) option" where
  "pmm_init hhdm entries m = pmm_add_entries hhdm entries (m, pmm_start)"

definition palloc :: "mem \<times> pmm \<Rightarrow> u64 \<times> (mem \<times> pmm)" where
  "palloc ms =
     (case ms of (m, st) \<Rightarrow>
        if free_mem_head st = 0 then (0, (m, st))
        else let region = free_mem_head st
             in (region_base m region,
                 (m, st\<lparr>free_mem_head := region_next m region,
                        pmm_free_pages := pmm_free_pages st - 1\<rparr>)))"

definition pfree :: "u64 \<Rightarrow> u64 \<Rightarrow> mem \<times> pmm \<Rightarrow> mem \<times> pmm" where
  "pfree hhdm physc_addr ms =
     (case ms of (m, st) \<Rightarrow>
        let region = physc_addr + hhdm;
            m1 = set_region_next m region (free_mem_head st);
            m2 = set_region_base m1 region physc_addr
        in (m2, st\<lparr>free_mem_head := region, pmm_free_pages := pmm_free_pages st + 1\<rparr>))"

definition pmm_get_total_pages :: "pmm \<Rightarrow> u64" where
  "pmm_get_total_pages st = pmm_total_pages st"

definition pmm_get_free_pages :: "pmm \<Rightarrow> u64" where
  "pmm_get_free_pages st = pmm_free_pages st"

definition pmm_get_used_pages :: "pmm \<Rightarrow> u64" where
  "pmm_get_used_pages st = pmm_total_pages st - pmm_free_pages st"

section \<open>Specification\<close>

text \<open>The list of free frames that hangs off a pointer.\<close>

primrec flist :: "u64 \<Rightarrow> mem \<Rightarrow> u64 \<Rightarrow> u64 list \<Rightarrow> bool" where
  "flist hhdm m p [] \<longleftrightarrow> p = 0"
| "flist hhdm m p (f # fs) \<longleftrightarrow>
     p = f + hhdm \<and> p \<noteq> 0 \<and> region_base m p = f \<and> flist hhdm m (region_next m p) fs"

text \<open>A frame the manager can hold: page-aligned, as the direct map is, with a non-null address there.\<close>

definition frame_ok :: "u64 \<Rightarrow> u64 \<Rightarrow> bool" where
  "frame_ok hhdm f \<longleftrightarrow> aligned 12 hhdm \<and> aligned 12 f \<and> f + hhdm \<noteq> 0"

definition pmm_inv :: "u64 \<Rightarrow> u64 list \<Rightarrow> mem \<times> pmm \<Rightarrow> bool" where
  "pmm_inv hhdm fs ms \<longleftrightarrow>
     aligned 12 hhdm \<and> distinct fs \<and> list_all (frame_ok hhdm) fs \<and>
     flist hhdm (fst ms) (free_mem_head (snd ms)) fs \<and>
     pmm_free_pages (snd ms) = of_nat (length fs)"

text \<open>The frames that lie wholly inside a memory-map entry, in ascending order.\<close>

definition entry_frames :: "memmap_entry \<Rightarrow> u64 list" where
  "entry_frames e =
     (let lo = unat (ALIGN_UP (me_base e) PAGE_SIZE);
          hi = unat (ALIGN_DOWN (me_base e + me_length e) PAGE_SIZE)
      in map (\<lambda>i. of_nat (lo + 4096 * i)) [0..<(hi - lo) div 4096])"

definition usable_frames :: "memmap_entry list \<Rightarrow> u64 list" where
  "usable_frames es = concat (map entry_frames (filter (\<lambda>e. me_type e = LIMINE_MEMMAP_USABLE) es))"

definition entry_ok :: "memmap_entry \<Rightarrow> bool" where
  "entry_ok e \<longleftrightarrow> unat (me_base e) + unat (me_length e) + 4096 \<le> 2 ^ 64"

text \<open>
  A client of a frame allocator: it takes frames, writes to bytes of frames it owns, and gives
  back frames it owns. The owned frames are recorded beside the state.
\<close>

datatype page_op = Take | Give u64 | Poke u64 u64 u8

fun page_step ::
    "(mem \<times> 's \<Rightarrow> u64 \<times> (mem \<times> 's)) \<Rightarrow> (u64 \<Rightarrow> mem \<times> 's \<Rightarrow> mem \<times> 's) \<Rightarrow> (u64 \<Rightarrow> u64) \<Rightarrow>
     page_op \<Rightarrow> (mem \<times> 's) \<times> u64 list \<Rightarrow> (mem \<times> 's) \<times> u64 list" where
  "page_step alloc release page Take (s, owned) =
     (case alloc s of (f, s') \<Rightarrow> if f = 0 then (s', owned) else (s', f # owned))"
| "page_step alloc release page (Give f) (s, owned) =
     (if f \<in> set owned then (release f s, remove1 f owned) else (s, owned))"
| "page_step alloc release page (Poke f off v) (s, owned) =
     (if f \<in> set owned \<and> off < 4096 then (((fst s)(page f + off := v), snd s), owned) else (s, owned))"

definition page_run ::
    "(mem \<times> 's \<Rightarrow> u64 \<times> (mem \<times> 's)) \<Rightarrow> (u64 \<Rightarrow> mem \<times> 's \<Rightarrow> mem \<times> 's) \<Rightarrow> (u64 \<Rightarrow> u64) \<Rightarrow>
     page_op list \<Rightarrow> (mem \<times> 's) \<times> u64 list \<Rightarrow> (mem \<times> 's) \<times> u64 list" where
  "page_run alloc release page ops = fold (page_step alloc release page) ops"

section \<open>The interface of a frame allocator\<close>

locale frame_allocator =
  fixes alloc :: "mem \<times> 's \<Rightarrow> u64 \<times> (mem \<times> 's)"
    and release :: "u64 \<Rightarrow> mem \<times> 's \<Rightarrow> mem \<times> 's"
    and page :: "u64 \<Rightarrow> u64"
    and ok :: "u64 \<Rightarrow> bool"
    and holds :: "u64 list \<Rightarrow> mem \<times> 's \<Rightarrow> bool"
  assumes alloc_nil: "holds [] s \<Longrightarrow> alloc s = (0, s)"
    and alloc_frame: "holds (f # fs) s \<Longrightarrow> fst (alloc s) = f"
    and alloc_rest: "holds (f # fs) s \<Longrightarrow> holds fs (snd (alloc s))"
    and alloc_mem: "fst (snd (alloc s)) = fst s"
    and release_push: "holds fs s \<Longrightarrow> ok f \<Longrightarrow> f \<notin> set fs \<Longrightarrow> holds (f # fs) (release f s)"
    and holds_distinct: "holds fs s \<Longrightarrow> distinct fs"
    and holds_ok: "holds fs s \<Longrightarrow> f \<in> set fs \<Longrightarrow> ok f"
    and holds_frame:
      "holds fs (m, st) \<Longrightarrow> (\<And>f x. f \<in> set fs \<Longrightarrow> x \<in> region (page f) 4096 \<Longrightarrow> m' x = m x) \<Longrightarrow>
         holds fs (m', st)"
    and page_disjoint: "ok f \<Longrightarrow> ok g \<Longrightarrow> f \<noteq> g \<Longrightarrow> disjoint_regions (page f) 4096 (page g) 4096"
begin

lemma take_give_round_trip:
  assumes "holds (f # fs) s"
  shows "holds (f # fs) (release f (snd (alloc s)))"
  using assms holds_distinct [OF assms] holds_ok [OF assms]
  by (intro release_push) (auto intro: alloc_rest)

lemma poke_keeps:
  assumes "holds fs s" and "ok f" and "f \<notin> set fs" and "off < 4096"
  shows "holds fs ((fst s)(page f + off := v), snd s)"
proof -
  obtain m st where s: "s = (m, st)" by (cases s)
  have "holds fs (m(page f + off := v), st)"
  proof (rule holds_frame)
    show "holds fs (m, st)" using assms(1) s by simp
    fix g x assume g: "g \<in> set fs" and x: "x \<in> region (page g) 4096"
    have "disjoint_regions (page f) 4096 (page g) 4096"
      using assms g holds_ok [OF assms(1)] by (intro page_disjoint) auto
    from this x have "x \<notin> region (page f) 4096" by (rule disjoint_regionsD)
    moreover have "page f + off \<in> region (page f) 4096"
      using assms(4) by (simp add: in_region_iff word_less_nat_alt)
    ultimately have "x \<noteq> page f + off" by blast
    then show "(m(page f + off := v)) x = m x" by simp
  qed
  then show ?thesis by (simp add: s)
qed

lemma page_step_conserves:
  assumes "holds fs s" and "0 \<notin> set fs" and "0 \<notin> set owned" and "distinct owned"
    and "set fs \<inter> set owned = {}" and "\<forall>f \<in> set owned. ok f"
    and step: "page_step alloc release page opn (s, owned) = (s', owned')"
  shows "\<exists>fs'. holds fs' s' \<and> distinct owned' \<and> set fs' \<inter> set owned' = {} \<and>
    set fs' \<union> set owned' = set fs \<union> set owned"
proof (cases opn)
  case Take
  show ?thesis
  proof (cases fs)
    case Nil
    with assms Take show ?thesis by (intro exI [of _ "[]"]) (auto simp: alloc_nil)
  next
    case (Cons f fs')
    then have h: "holds (f # fs') s" using assms(1) by simp
    have "s' = snd (alloc s)" "owned' = f # owned"
      using step Take alloc_frame [OF h] assms(2) Cons by (auto split: prod.splits)
    with Cons assms alloc_rest [OF h] holds_distinct [OF h] show ?thesis
      by (intro exI [of _ fs']) auto
  qed
next
  case (Give f)
  show ?thesis
  proof (cases "f \<in> set owned")
    case True
    with Give step have "s' = release f s" "owned' = remove1 f owned" by auto
    moreover have "holds (f # fs) (release f s)"
      using assms True by (intro release_push) auto
    ultimately show ?thesis
      using assms True by (intro exI [of _ "f # fs"]) (auto simp: set_remove1_eq)
  qed (use Give assms in auto)
next
  case (Poke f off v)
  with assms poke_keeps [OF assms(1), of f off v] show ?thesis
    by (intro exI [of _ fs]) (auto split: if_splits)
qed

lemma page_run_conserves:
  assumes "holds fs s" and "0 \<notin> set fs" and "0 \<notin> set owned" and "distinct owned"
    and "set fs \<inter> set owned = {}" and "\<forall>f \<in> set owned. ok f"
    and "page_run alloc release page ops (s, owned) = (s', owned')"
  shows "\<exists>fs'. holds fs' s' \<and> distinct owned' \<and> set fs' \<inter> set owned' = {} \<and>
    set fs' \<union> set owned' = set fs \<union> set owned"
  using assms
proof (induction ops arbitrary: fs s owned)
  case Nil
  then show ?case by (auto simp: page_run_def)
next
  case (Cons opn ops)
  obtain s1 owned1 where st: "page_step alloc release page opn (s, owned) = (s1, owned1)"
    by (cases "page_step alloc release page opn (s, owned)")
  from page_step_conserves [OF Cons.prems(1-6) st] obtain fs1 where
    fs1: "holds fs1 s1" "distinct owned1" "set fs1 \<inter> set owned1 = {}"
      "set fs1 \<union> set owned1 = set fs \<union> set owned" by blast
  have ok1: "\<forall>f \<in> set owned1. ok f"
    using fs1(4) Cons.prems(6) holds_ok [OF Cons.prems(1)] by blast
  have z: "0 \<notin> set fs1" "0 \<notin> set owned1" using fs1(4) Cons.prems(2,3) by blast+
  have run: "page_run alloc release page ops (s1, owned1) = (s', owned')"
    using Cons.prems(7) st by (simp add: page_run_def)
  from Cons.IH [OF fs1(1) z fs1(2,3) ok1 run] show ?case unfolding fs1(4) .
qed

end

section \<open>Alignment\<close>

lemma mask_12: "mask 12 = (4095 :: u64)"
  by (simp add: mask_eq_exp_minus_1)

lemma ALIGN_DOWN_page: "ALIGN_DOWN a PAGE_SIZE = align_down 12 a"
  by (simp add: ALIGN_DOWN_def PAGE_SIZE_def align_down_def mask_12)

lemma ALIGN_UP_page: "ALIGN_UP a PAGE_SIZE = align_down 12 (a + 4095)"
  by (simp add: ALIGN_UP_def PAGE_SIZE_def align_down_def mask_12)

lemma page_field_regions:
  assumes "o' \<le> 4088"
  shows "region (p + of_nat o') 8 \<subseteq> region p 4096"
  using assms by (intro region_shift) auto

lemma frame_page_aligned: "frame_ok hhdm f \<Longrightarrow> aligned 12 (f + hhdm)"
  by (simp add: frame_ok_def aligned_add)

lemma frame_pages_disjoint:
  assumes "frame_ok hhdm f" and "frame_ok hhdm g" and "f \<noteq> g"
  shows "disjoint_regions (f + hhdm) 4096 (g + hhdm) 4096"
  using assms aligned_disjoint [of 12 "f + hhdm" "g + hhdm"] by (simp add: frame_page_aligned)

section \<open>The free list under writes\<close>

lemma region_fields_cong:
  assumes "\<And>x. x \<in> region p 4096 \<Longrightarrow> m' x = m x"
  shows "region_base m' p = region_base m p" and "region_next m' p = region_next m p"
proof -
  have "region p 8 \<subseteq> region p 4096" "region (p + 8) 8 \<subseteq> region p 4096"
    using page_field_regions [of 0 p] page_field_regions [of 8 p] by simp_all
  with assms show "region_base m' p = region_base m p" and "region_next m' p = region_next m p"
    unfolding region_base_def region_next_def by (auto intro!: read64_cong)
qed

lemma flist_cong:
  "(\<And>f x. f \<in> set fs \<Longrightarrow> x \<in> region (f + hhdm) 4096 \<Longrightarrow> m' x = m x) \<Longrightarrow>
     flist hhdm m' p fs = flist hhdm m p fs"
proof (induction fs arbitrary: p)
  case Nil
  then show ?case by simp
next
  case (Cons f fs)
  have ih: "flist hhdm m' q fs = flist hhdm m q fs" for q
    by (rule Cons.IH) (use Cons.prems in auto)
  have page: "m' x = m x" if "x \<in> region (f + hhdm) 4096" for x
    by (rule Cons.prems [of f]) (use that in auto)
  have eq: "region_base m' (f + hhdm) = region_base m (f + hhdm)"
    "region_next m' (f + hhdm) = region_next m (f + hhdm)"
    by (rule region_fields_cong, erule page)+
  show ?case
  proof (cases "p = f + hhdm")
    case True
    then show ?thesis by (simp add: ih eq del: add_eq_0_iff)
  qed simp
qed

text \<open>Both orders in which the code writes the two fields leave the same node.\<close>

lemma node_write:
  assumes "aligned 12 p"
  shows "region_base (set_region_next (set_region_base m p b) p n) p = b"
    and "region_next (set_region_next (set_region_base m p b) p n) p = n"
    and "region_base (set_region_base (set_region_next m p n) p b) p = b"
    and "region_next (set_region_base (set_region_next m p n) p b) p = n"
    and "x \<notin> region p 4096 \<Longrightarrow> set_region_next (set_region_base m p b) p n x = m x"
    and "x \<notin> region p 4096 \<Longrightarrow> set_region_base (set_region_next m p n) p b x = m x"
proof -
  have a: "aligned 3 p" using assms by (rule aligned_weaken) simp
  moreover have "aligned 3 (8 :: u64)" by (simp add: aligned_def)
  ultimately have b: "aligned 3 (p + 8)" by (simp add: aligned_add)
  have ne: "p \<noteq> p + 8" by simp
  show "region_base (set_region_next (set_region_base m p b) p n) p = b"
    "region_next (set_region_next (set_region_base m p b) p n) p = n"
    "region_base (set_region_base (set_region_next m p n) p b) p = b"
    "region_next (set_region_base (set_region_next m p n) p b) p = n"
    using a b ne
    by (simp_all add: region_base_def region_next_def set_region_base_def set_region_next_def
        read64_write64_aligned)
  assume x: "x \<notin> region p 4096"
  then have "x \<notin> region p 8" "x \<notin> region (p + 8) 8"
    using page_field_regions [of 0 p] page_field_regions [of 8 p] by auto
  then show "set_region_next (set_region_base m p b) p n x = m x"
    "set_region_base (set_region_next m p n) p b x = m x"
    by (simp_all add: set_region_base_def set_region_next_def write64_outside)
qed

lemma flist_push:
  assumes "frame_ok hhdm f" and "list_all (frame_ok hhdm) fs" and "f \<notin> set fs"
    and "flist hhdm m p fs"
    and "\<And>x. x \<notin> region (f + hhdm) 4096 \<Longrightarrow> m' x = m x"
    and "region_base m' (f + hhdm) = f" and "region_next m' (f + hhdm) = p"
  shows "flist hhdm m' (f + hhdm) (f # fs)"
proof -
  have "flist hhdm m' p fs = flist hhdm m p fs"
  proof (rule flist_cong)
    fix g x assume "g \<in> set fs" and x: "x \<in> region (g + hhdm) 4096"
    with assms have "disjoint_regions (f + hhdm) 4096 (g + hhdm) 4096"
      by (intro frame_pages_disjoint) (auto simp: list_all_iff)
    then show "m' x = m x" using x assms(5) disjoint_regionsD by blast
  qed
  with assms show ?thesis by (simp add: frame_ok_def)
qed


section \<open>Allocation and release\<close>

lemma palloc_nil: "pmm_inv hhdm [] ms \<Longrightarrow> palloc ms = (0, ms)"
  by (cases ms) (simp add: pmm_inv_def palloc_def)

lemma palloc_cons:
  assumes "pmm_inv hhdm (f # fs) ms"
  shows "fst (palloc ms) = f" and "pmm_inv hhdm fs (snd (palloc ms))"
    and "fst (snd (palloc ms)) = fst ms"
  using assms by (cases ms; simp add: pmm_inv_def palloc_def Let_def)+

lemma pfree_push:
  assumes "pmm_inv hhdm fs ms" and "frame_ok hhdm f" and "f \<notin> set fs"
  shows "pmm_inv hhdm (f # fs) (pfree hhdm f ms)"
proof -
  obtain m st where ms: "ms = (m, st)" by (cases ms)
  let ?p = "f + hhdm" and ?m = "set_region_base (set_region_next m (f + hhdm) (free_mem_head st)) (f + hhdm) f"
  have al: "aligned 12 ?p" using assms by (auto simp: pmm_inv_def intro: frame_page_aligned)
  have "flist hhdm ?m ?p (f # fs)"
    using assms al ms node_write [OF al]
    by (intro flist_push [where m = m and p = "free_mem_head st"]) (auto simp: pmm_inv_def)
  with assms ms show ?thesis by (simp add: pmm_inv_def pfree_def Let_def add.commute)
qed

lemma pfree_outside:
  "aligned 12 (f + hhdm) \<Longrightarrow> x \<notin> region (f + hhdm) 4096 \<Longrightarrow> fst (pfree hhdm f ms) x = fst ms x"
  by (cases ms) (simp add: pfree_def Let_def node_write(6))

lemma pmm_add_page_push:
  assumes "pmm_inv hhdm fs ms" and "frame_ok hhdm f" and "f \<notin> set fs"
  shows "pmm_inv hhdm (f # fs) (pmm_add_page hhdm f ms)"
    and "pmm_total_pages (snd (pmm_add_page hhdm f ms)) = pmm_total_pages (snd ms) + 1"
    and "x \<notin> region (f + hhdm) 4096 \<Longrightarrow> fst (pmm_add_page hhdm f ms) x = fst ms x"
proof -
  obtain m st where ms: "ms = (m, st)" by (cases ms)
  let ?p = "f + hhdm" and ?m = "set_region_next (set_region_base m (f + hhdm) f) (f + hhdm) (free_mem_head st)"
  have al: "aligned 12 ?p" using assms by (auto simp: pmm_inv_def intro: frame_page_aligned)
  have "flist hhdm ?m ?p (f # fs)"
    using assms al ms node_write [OF al]
    by (intro flist_push [where m = m and p = "free_mem_head st"]) (auto simp: pmm_inv_def)
  with assms ms show "pmm_inv hhdm (f # fs) (pmm_add_page hhdm f ms)"
    by (simp add: pmm_inv_def pmm_add_page_def Let_def add.commute)
  show "pmm_total_pages (snd (pmm_add_page hhdm f ms)) = pmm_total_pages (snd ms) + 1"
    by (simp add: ms pmm_add_page_def Let_def)
  show "x \<notin> region ?p 4096 \<Longrightarrow> fst (pmm_add_page hhdm f ms) x = fst ms x"
    using node_write [OF al] by (simp add: ms pmm_add_page_def Let_def)
qed

text \<open>The changes of memory that stay inside the pages of some frames.\<close>

definition changes_frames :: "u64 \<Rightarrow> u64 set \<Rightarrow> mem \<Rightarrow> mem \<Rightarrow> bool" where
  "changes_frames hhdm F m m' \<longleftrightarrow> (\<forall>x. (\<forall>f \<in> F. x \<notin> region (f + hhdm) 4096) \<longrightarrow> m' x = m x)"

lemma changes_frames_refl [simp]: "changes_frames hhdm F m m"
  by (simp add: changes_frames_def)

lemma changes_frames_trans:
  "changes_frames hhdm F m m' \<Longrightarrow> changes_frames hhdm G m' m'' \<Longrightarrow> changes_frames hhdm (F \<union> G) m m''"
  by (simp add: changes_frames_def)

text \<open>The manager's state depends on the free frames only: writes elsewhere do not disturb it.\<close>

lemma pmm_inv_frame:
  assumes "pmm_inv hhdm fs (m, st)"
    and "\<And>f x. f \<in> set fs \<Longrightarrow> x \<in> region (f + hhdm) 4096 \<Longrightarrow> m' x = m x"
  shows "pmm_inv hhdm fs (m', st)"
  using assms flist_cong [of fs hhdm m' m "free_mem_head st"] by (simp add: pmm_inv_def)

section \<open>Initialisation\<close>

lemma pmm_add_range_spec:
  assumes "lo + 4096 * n \<le> 2 ^ 64 - 4096" and "4096 dvd lo"
    and "pmm_inv hhdm fs ms"
    and "list_all (frame_ok hhdm) (map (\<lambda>i. of_nat (lo + 4096 * i)) [0..<n])"
    and "set fs \<inter> set (map (\<lambda>i. of_nat (lo + 4096 * i)) [0..<n]) = {}"
  shows "\<exists>ms'. pmm_add_range hhdm (of_nat lo) (of_nat (lo + 4096 * n)) ms = Some ms' \<and>
     pmm_inv hhdm (rev (map (\<lambda>i. of_nat (lo + 4096 * i)) [0..<n]) @ fs) ms' \<and>
     pmm_total_pages (snd ms') = pmm_total_pages (snd ms) + of_nat n \<and>
     changes_frames hhdm (set (map (\<lambda>i. of_nat (lo + 4096 * i)) [0..<n])) (fst ms) (fst ms')"
  using assms
proof (induction n arbitrary: lo fs ms)
  case 0
  then show ?case by (simp add: pmm_add_range.simps)
next
  case (Suc n)
  let ?f = "of_nat lo :: u64" and ?lo = "lo + 4096"
  have split: "map (\<lambda>i. of_nat (lo + 4096 * i) :: u64) [0..<Suc n] =
      ?f # map (\<lambda>i. of_nat (?lo + 4096 * i)) [0..<n]"
    by (simp add: upt_conv_Cons map_Suc_upt [symmetric] del: upt_Suc)
  have f: "frame_ok hhdm ?f" "?f \<notin> set fs" using Suc.prems(4,5) unfolding split by auto
  have inj: "of_nat (?lo + 4096 * i) \<noteq> ?f" if "i < n" for i
  proof -
    have "unat (of_nat (?lo + 4096 * i) :: u64) = ?lo + 4096 * i" "unat ?f = lo"
      by (rule unat_of_nat_64, use that Suc.prems(1) in simp)+
    then show ?thesis by (metis add.assoc add_cancel_left_right add_is_0 zero_neq_numeral)
  qed
  let ?ms = "pmm_add_page hhdm ?f ms"
  have "\<exists>ms'. pmm_add_range hhdm (of_nat ?lo) (of_nat (?lo + 4096 * n)) ?ms = Some ms' \<and>
     pmm_inv hhdm (rev (map (\<lambda>i. of_nat (?lo + 4096 * i)) [0..<n]) @ (?f # fs)) ms' \<and>
     pmm_total_pages (snd ms') = pmm_total_pages (snd ?ms) + of_nat n \<and>
     changes_frames hhdm (set (map (\<lambda>i. of_nat (?lo + 4096 * i)) [0..<n])) (fst ?ms) (fst ms')"
  proof (rule Suc.IH)
    show "?lo + 4096 * n \<le> 2 ^ 64 - 4096" "4096 dvd ?lo" using Suc.prems(1,2) by auto
    show "pmm_inv hhdm (?f # fs) ?ms" using Suc.prems(3) f by (rule pmm_add_page_push)
    show "list_all (frame_ok hhdm) (map (\<lambda>i. of_nat (?lo + 4096 * i)) [0..<n])"
      using Suc.prems(4) unfolding split by simp
    show "set (?f # fs) \<inter> set (map (\<lambda>i. of_nat (?lo + 4096 * i)) [0..<n]) = {}"
      using Suc.prems(5) inj unfolding split by auto
  qed
  moreover have "changes_frames hhdm {?f} (fst ms) (fst ?ms)"
    using pmm_add_page_push(3) [OF Suc.prems(3) f] by (simp add: changes_frames_def)
  moreover have "?f < of_nat (lo + 4096 * Suc n)"
  proof -
    have "unat (of_nat (lo + 4096 * Suc n) :: u64) = lo + 4096 * Suc n" "unat ?f = lo"
      by (rule unat_of_nat_64, use Suc.prems(1) in simp)+
    then show ?thesis by (simp add: word_less_nat_alt)
  qed
  ultimately show ?case
    using pmm_add_page_push(2) [OF Suc.prems(3) f] unfolding split
    by (subst pmm_add_range.simps) (auto simp: PAGE_SIZE_def algebra_simps dest: changes_frames_trans)
qed

lemma entry_bounds:
  assumes "entry_ok e"
  defines "lo \<equiv> unat (ALIGN_UP (me_base e) PAGE_SIZE)"
    and "hi \<equiv> unat (ALIGN_DOWN (me_base e + me_length e) PAGE_SIZE)"
  shows "4096 dvd lo" and "4096 dvd hi" and "hi \<le> 2 ^ 64 - 4096" and "lo \<le> 2 ^ 64 - 4096"
    and "unat (me_base e) \<le> lo" and "hi \<le> unat (me_base e) + unat (me_length e)"
proof -
  have u: "unat (me_base e + me_length e) = unat (me_base e) + unat (me_length e)"
    "unat (me_base e + 4095) = unat (me_base e) + 4095"
    using assms(1) by (auto simp: entry_ok_def unat_word_ariths)
  show "4096 dvd lo" "4096 dvd hi"
    by (simp_all add: lo_def hi_def ALIGN_UP_page ALIGN_DOWN_page unat_align_down)
  show "hi \<le> 2 ^ 64 - 4096" "hi \<le> unat (me_base e) + unat (me_length e)"
    using align_down_le [of 12 "me_base e + me_length e"] u assms(1)
    by (auto simp: hi_def ALIGN_DOWN_page entry_ok_def)
  show "unat (me_base e) \<le> lo" "lo \<le> 2 ^ 64 - 4096"
    using align_down_gt [of "me_base e + 4095" 12] align_down_le [of 12 "me_base e + 4095"] u assms(1)
      \<open>4096 dvd lo\<close>
    by (auto simp: lo_def ALIGN_UP_page entry_ok_def unat_align_down)
qed


lemma entry_frames_range:
  assumes "entry_ok e" and "pmm_inv hhdm fs ms" and "list_all (frame_ok hhdm) (entry_frames e)"
    and "set fs \<inter> set (entry_frames e) = {}"
  shows "\<exists>ms'. pmm_add_range hhdm (ALIGN_UP (me_base e) PAGE_SIZE)
       (ALIGN_DOWN (me_base e + me_length e) PAGE_SIZE) ms = Some ms' \<and>
     pmm_inv hhdm (rev (entry_frames e) @ fs) ms' \<and>
     pmm_total_pages (snd ms') = pmm_total_pages (snd ms) + of_nat (length (entry_frames e)) \<and>
     changes_frames hhdm (set (entry_frames e)) (fst ms) (fst ms')"
proof -
  let ?l = "ALIGN_UP (me_base e) PAGE_SIZE" and ?h = "ALIGN_DOWN (me_base e + me_length e) PAGE_SIZE"
  let ?n = "(unat ?h - unat ?l) div 4096"
  note b = entry_bounds [OF assms(1)]
  have ef: "entry_frames e = map (\<lambda>i. of_nat (unat ?l + 4096 * i)) [0..<?n]"
    by (simp add: entry_frames_def Let_def)
  show ?thesis
  proof (cases "unat ?l \<le> unat ?h")
    case True
    then have h: "unat ?l + 4096 * ?n = unat ?h" using b(1,2) by (simp add: dvd_diff_nat)
    then have e: "?h = of_nat (unat ?l + 4096 * ?n)" "?l = of_nat (unat ?l)" by simp_all
    have "\<exists>ms'. pmm_add_range hhdm (of_nat (unat ?l)) (of_nat (unat ?l + 4096 * ?n)) ms = Some ms' \<and>
       pmm_inv hhdm (rev (map (\<lambda>i. of_nat (unat ?l + 4096 * i)) [0..<?n]) @ fs) ms' \<and>
       pmm_total_pages (snd ms') = pmm_total_pages (snd ms) + of_nat ?n \<and>
       changes_frames hhdm (set (map (\<lambda>i. of_nat (unat ?l + 4096 * i)) [0..<?n])) (fst ms) (fst ms')"
      by (rule pmm_add_range_spec) (use h b assms ef in auto)
    then show ?thesis unfolding ef e [symmetric] by simp
  next
    case False
    then have "\<not> ?l < ?h" "?n = 0" by (simp_all add: word_less_nat_alt)
    with assms(2) ef show ?thesis by (simp add: pmm_add_range.simps)
  qed
qed

lemma pmm_add_entries_spec:
  assumes "\<forall>e \<in> set es. me_type e = LIMINE_MEMMAP_USABLE \<longrightarrow> entry_ok e" and "pmm_inv hhdm fs ms"
    and "list_all (frame_ok hhdm) (usable_frames es)" and "distinct (usable_frames es)"
    and "set fs \<inter> set (usable_frames es) = {}"
  shows "\<exists>ms'. pmm_add_entries hhdm es ms = Some ms' \<and> pmm_inv hhdm (rev (usable_frames es) @ fs) ms' \<and>
     pmm_total_pages (snd ms') = pmm_total_pages (snd ms) + of_nat (length (usable_frames es)) \<and>
     changes_frames hhdm (set (usable_frames es)) (fst ms) (fst ms')"
  using assms
proof (induction es arbitrary: fs ms)
  case Nil
  then show ?case by (simp add: usable_frames_def)
next
  case (Cons e es)
  show ?case
  proof (cases "me_type e = LIMINE_MEMMAP_USABLE")
    case True
    then have u: "usable_frames (e # es) = entry_frames e @ usable_frames es"
      by (simp add: usable_frames_def)
    have "\<exists>ms'. pmm_add_range hhdm (ALIGN_UP (me_base e) PAGE_SIZE)
         (ALIGN_DOWN (me_base e + me_length e) PAGE_SIZE) ms = Some ms' \<and>
       pmm_inv hhdm (rev (entry_frames e) @ fs) ms' \<and>
       pmm_total_pages (snd ms') = pmm_total_pages (snd ms) + of_nat (length (entry_frames e)) \<and>
       changes_frames hhdm (set (entry_frames e)) (fst ms) (fst ms')"
      by (rule entry_frames_range) (use Cons.prems True u in auto)
    then obtain ms1 where ms1: "pmm_add_range hhdm (ALIGN_UP (me_base e) PAGE_SIZE)
        (ALIGN_DOWN (me_base e + me_length e) PAGE_SIZE) ms = Some ms1"
      "pmm_inv hhdm (rev (entry_frames e) @ fs) ms1"
      "pmm_total_pages (snd ms1) = pmm_total_pages (snd ms) + of_nat (length (entry_frames e))"
      "changes_frames hhdm (set (entry_frames e)) (fst ms) (fst ms1)" by blast
    have "\<exists>ms'. pmm_add_entries hhdm es ms1 = Some ms' \<and>
        pmm_inv hhdm (rev (usable_frames es) @ (rev (entry_frames e) @ fs)) ms' \<and>
        pmm_total_pages (snd ms') = pmm_total_pages (snd ms1) + of_nat (length (usable_frames es)) \<and>
        changes_frames hhdm (set (usable_frames es)) (fst ms1) (fst ms')"
      by (rule Cons.IH) (use Cons.prems u ms1 in auto)
    with True ms1 u show ?thesis by (auto simp: add.assoc dest: changes_frames_trans)
  next
    case False
    then have "usable_frames (e # es) = usable_frames es" by (simp add: usable_frames_def)
    with False Cons show ?thesis by simp
  qed
qed

lemma usable_frames_aligned:
  assumes "\<forall>e \<in> set es. me_type e = LIMINE_MEMMAP_USABLE \<longrightarrow> entry_ok e" and "f \<in> set (usable_frames es)"
  shows "aligned 12 f"
proof -
  from assms(2) obtain e i where e: "e \<in> set es" "me_type e = LIMINE_MEMMAP_USABLE"
    and f: "f = of_nat (unat (ALIGN_UP (me_base e) PAGE_SIZE) + 4096 * i)"
    by (auto simp: usable_frames_def entry_frames_def Let_def)
  then have "4096 dvd unat (ALIGN_UP (me_base e) PAGE_SIZE) + 4096 * i"
    using entry_bounds(1) [of e] assms(1) by simp
  then have "4096 dvd (unat (ALIGN_UP (me_base e) PAGE_SIZE) + 4096 * i) mod 2 ^ 64"
    by (rule dvd_mod) simp
  then show ?thesis unfolding f aligned_def by (simp only: unat_of_nat) simp
qed

lemma pmm_start_inv: "aligned 12 hhdm \<Longrightarrow> pmm_inv hhdm [] (m, pmm_start)"
  by (simp add: pmm_inv_def pmm_start_def)

section \<open>The manager as a frame allocator\<close>

interpretation pm: frame_allocator palloc "pfree hhdm" "\<lambda>f. f + hhdm" "frame_ok hhdm" "pmm_inv hhdm"
  for hhdm
proof unfold_locales
  fix ms :: "mem \<times> pmm" and fs f
  show "pmm_inv hhdm [] ms \<Longrightarrow> palloc ms = (0, ms)" by (rule palloc_nil)
  show "pmm_inv hhdm (f # fs) ms \<Longrightarrow> fst (palloc ms) = f" by (rule palloc_cons)
  show "pmm_inv hhdm (f # fs) ms \<Longrightarrow> pmm_inv hhdm fs (snd (palloc ms))" by (rule palloc_cons)
  show "fst (snd (palloc ms)) = fst ms" by (cases ms) (simp add: palloc_def Let_def)
  show "pmm_inv hhdm fs ms \<Longrightarrow> frame_ok hhdm f \<Longrightarrow> f \<notin> set fs \<Longrightarrow> pmm_inv hhdm (f # fs) (pfree hhdm f ms)"
    by (rule pfree_push)
  show "pmm_inv hhdm fs ms \<Longrightarrow> distinct fs" by (simp add: pmm_inv_def)
  show "pmm_inv hhdm fs ms \<Longrightarrow> f \<in> set fs \<Longrightarrow> frame_ok hhdm f" by (auto simp: pmm_inv_def list_all_iff)
next
  fix fs and m m' :: mem and st
  assume "pmm_inv hhdm fs (m, st)" and "\<And>f x. f \<in> set fs \<Longrightarrow> x \<in> region (f + hhdm) 4096 \<Longrightarrow> m' x = m x"
  then show "pmm_inv hhdm fs (m', st)" by (rule pmm_inv_frame)
next
  fix f g
  assume f: "frame_ok hhdm f" "frame_ok hhdm g" "f \<noteq> g"
  show "disjoint_regions (f + hhdm) 4096 (g + hhdm) 4096" using f by (rule frame_pages_disjoint)
qed


text \<open>What initialisation leaves: the free list and memory outside the usable frames as it was.\<close>

lemma pmm_init_spec:
  assumes "aligned 12 hhdm" "\<forall>e \<in> set es. me_type e = LIMINE_MEMMAP_USABLE \<longrightarrow> entry_ok e"
    and "\<forall>f \<in> set (usable_frames es). f + hhdm \<noteq> 0" "distinct (usable_frames es)"
  obtains ms' where "pmm_init hhdm es m = Some ms'" "pmm_inv hhdm (rev (usable_frames es)) ms'"
    "pmm_total_pages (snd ms') = of_nat (length (usable_frames es))" "changes_frames hhdm (set (usable_frames es)) m (fst ms')"
proof -
  have "list_all (frame_ok hhdm) (usable_frames es)"
    using assms usable_frames_aligned [OF assms(2)] by (auto simp: list_all_iff frame_ok_def)
  with pmm_add_entries_spec [OF assms(2) pmm_start_inv [OF assms(1)] _ assms(4), of m] that show thesis
    by (auto simp: pmm_start_def pmm_init_def)
qed

section \<open>Properties\<close>

text \<open>
  C20. On a memory map whose usable entries do not wrap and do not overlap, \<open>pmm_init\<close> returns and
  leaves a well-formed free list that holds exactly the page frames lying inside the usable
  entries, each once; both counters are their number.
\<close>
theorem pmm_init_free_list:
  assumes "aligned 12 hhdm"
    and "\<forall>e \<in> set es. me_type e = LIMINE_MEMMAP_USABLE \<longrightarrow> entry_ok e"
    and "\<forall>f \<in> set (usable_frames es). f + hhdm \<noteq> 0" and "distinct (usable_frames es)"
  shows "\<exists>ms'. pmm_init hhdm es m = Some ms' \<and> pmm_inv hhdm (rev (usable_frames es)) ms' \<and>
    pmm_get_total_pages (snd ms') = of_nat (length (usable_frames es)) \<and>
    pmm_get_used_pages (snd ms') = 0"
proof -
  obtain ms' where "pmm_init hhdm es m = Some ms'" "pmm_inv hhdm (rev (usable_frames es)) ms'"
    "pmm_total_pages (snd ms') = of_nat (length (usable_frames es))"
    by (rule pmm_init_spec [OF assms])
  then show ?thesis
    by (auto simp: pmm_get_total_pages_def pmm_get_used_pages_def pmm_inv_def)
qed

theorem pmm_init_free_list_witness:
  "\<exists>ms'. pmm_init 0x8000000000000000
      [\<lparr>me_base = 0x1000, me_length = 0x2800, me_type = 0\<rparr>, \<lparr>me_base = 0x9000, me_length = 0x1000, me_type = 1\<rparr>]
      (\<lambda>_. 0) = Some ms' \<and> pmm_inv 0x8000000000000000 [0x2000, 0x1000] ms'"
proof -
  let ?es = "[\<lparr>me_base = 0x1000, me_length = 0x2800, me_type = 0\<rparr>,
    \<lparr>me_base = 0x9000, me_length = 0x1000, me_type = 1\<rparr> :: memmap_entry]"
  have u: "usable_frames ?es = [0x1000, 0x2000]"
    by (simp add: usable_frames_def entry_frames_def LIMINE_MEMMAP_USABLE_def ALIGN_UP_def ALIGN_DOWN_def
        PAGE_SIZE_def upt_rec)
  show ?thesis
    using pmm_init_free_list [of "0x8000000000000000" ?es "\<lambda>_. 0"]
    by (auto simp: u entry_ok_def LIMINE_MEMMAP_USABLE_def aligned_def)
qed

text \<open>
  C3. From a well-formed free list without frame 0, any sequence of \<open>palloc\<close>, of \<open>pfree\<close> of owned
  frames and of writes to owned frames keeps the list well formed, never hands out a frame that is
  already owned, and neither loses nor invents a frame.
\<close>
theorem pmm_no_double_allocation:
  assumes "pmm_inv hhdm fs s" and "0 \<notin> set fs"
    and "page_run palloc (pfree hhdm) (\<lambda>f. f + hhdm) ops (s, []) = (s', owned)"
  shows "\<exists>fs'. pmm_inv hhdm fs' s' \<and> distinct owned \<and> set fs' \<inter> set owned = {} \<and>
    set fs' \<union> set owned = set fs"
  using pm.page_run_conserves [OF assms(1,2), of "[]" ops s' owned] assms(3) by simp


theorem pmm_no_double_allocation_witness:
  "\<exists>fs' s' owned. page_run palloc (pfree 0x8000000000000000) (\<lambda>f. f + 0x8000000000000000)
       [Take, Poke 0x1000 8 255, Take, Give 0x1000]
       (pfree 0x8000000000000000 0x1000 (pfree 0x8000000000000000 0x2000 (\<lambda>_. 0, pmm_start)), []) = (s', owned) \<and>
     pmm_inv 0x8000000000000000 fs' s' \<and> distinct owned \<and> set fs' \<union> set owned = {0x1000, 0x2000}"
proof -
  let ?h = "0x8000000000000000 :: u64"
  let ?s = "pfree ?h 0x1000 (pfree ?h 0x2000 (\<lambda>_. 0, pmm_start))"
  let ?ops = "[Take, Poke 0x1000 8 255, Take, Give 0x1000]"
  have "pmm_inv ?h [] (\<lambda>_. 0, pmm_start)" by (rule pmm_start_inv) (simp add: aligned_def)
  then have "pmm_inv ?h [0x1000, 0x2000] ?s"
    by (intro pfree_push) (simp_all add: frame_ok_def aligned_def)
  moreover obtain s' owned where
    run: "page_run palloc (pfree ?h) (\<lambda>f. f + ?h) ?ops (?s, []) = (s', owned)"
    by (cases "page_run palloc (pfree ?h) (\<lambda>f. f + ?h) ?ops (?s, [])") (rule that)
  ultimately obtain fs' where "pmm_inv ?h fs' s'" "distinct owned" "set fs' \<union> set owned = {0x1000, 0x2000}"
    using pmm_no_double_allocation [of ?h "[0x1000, 0x2000]" ?s ?ops s' owned] by auto
  with run show ?thesis by blast
qed

end
