(* ===== verification/Vmm.thy ===== *)
theory Vmm
  imports CString Pmm
begin

text \<open>
  The virtual memory manager, \<^verbatim>\<open>mm/vmm.c\<close>: four-level page tables of 512 eight-byte entries in
  byte memory, reached through the direct map, with table frames taken from the physical memory
  manager. \<open>invlpg\<close> and the cache instructions have no effect on memory; the cache routines are
  modelled by the list of lines they touch.
\<close>

section \<open>Data\<close>

definition PTE_PRESENT :: u64 where "PTE_PRESENT = push_bit 0 1"
definition PTE_WRITABLE :: u64 where "PTE_WRITABLE = push_bit 1 1"
definition PTE_USER :: u64 where "PTE_USER = push_bit 2 1"
definition PTE_HUGE :: u64 where "PTE_HUGE = 0x80"

definition PML4_INDEX :: "u64 \<Rightarrow> u64" where "PML4_INDEX x = drop_bit 39 x AND 0x1FF"
definition PDPT_INDEX :: "u64 \<Rightarrow> u64" where "PDPT_INDEX x = drop_bit 30 x AND 0x1FF"
definition PD_INDEX :: "u64 \<Rightarrow> u64" where "PD_INDEX x = drop_bit 21 x AND 0x1FF"
definition PT_INDEX :: "u64 \<Rightarrow> u64" where "PT_INDEX x = drop_bit 12 x AND 0x1FF"

record vmm =
  hhdm_offset :: u64
  kernel_pml4 :: u64

section \<open>Operations\<close>

definition phys_to_virt :: "vmm \<Rightarrow> u64 \<Rightarrow> u64" where
  "phys_to_virt v phys = phys + hhdm_offset v"

definition virt_to_phys :: "vmm \<Rightarrow> u64 \<Rightarrow> u64" where
  "virt_to_phys v virt = virt - hhdm_offset v"

text \<open>The page-table root register and the boot loader's answer are parameters.\<close>

definition vmm_init :: "u64 \<Rightarrow> u64 option \<Rightarrow> vmm \<Rightarrow> vmm" where
  "vmm_init cr3 response v =
     (let cr3' = cr3 AND NOT 0xFFF;
          v1 = (case response of None \<Rightarrow> v | Some off \<Rightarrow> v\<lparr>hhdm_offset := off\<rparr>)
      in v1\<lparr>kernel_pml4 := phys_to_virt v1 cr3'\<rparr>)"

text \<open>Entry \<open>i\<close> of the table at \<open>t\<close>.\<close>

definition entry_addr :: "u64 \<Rightarrow> u64 \<Rightarrow> u64" where "entry_addr t i = t + 8 * i"
definition get_entry :: "mem \<Rightarrow> u64 \<Rightarrow> u64 \<Rightarrow> u64" where "get_entry m t i = read64 m (entry_addr t i)"
definition set_entry :: "mem \<Rightarrow> u64 \<Rightarrow> u64 \<Rightarrow> u64 \<Rightarrow> mem" where "set_entry m t i e = write64 m (entry_addr t i) e"

definition present :: "u64 \<Rightarrow> bool" where "present e \<longleftrightarrow> e AND PTE_PRESENT \<noteq> 0"

definition alloc_table :: "vmm \<Rightarrow> mem \<times> pmm \<Rightarrow> u64 \<times> (mem \<times> pmm)" where
  "alloc_table v ms =
     (case palloc ms of (phys, (m, st)) \<Rightarrow>
        (phys_to_virt v phys, (fst (memset m (phys_to_virt v phys) 0 4096), st)))"

text \<open>The step the code writes out for each of the three upper levels: find the next table or make it.\<close>

definition next_table :: "vmm \<Rightarrow> u64 \<Rightarrow> u64 \<Rightarrow> u64 \<Rightarrow> mem \<times> pmm \<Rightarrow> u64 \<times> (mem \<times> pmm)" where
  "next_table v user_bit t i ms =
     (if \<not> present (get_entry (fst ms) t i) then
        case alloc_table v ms of (c, (m, st)) \<Rightarrow>
          (c, (set_entry m t i (virt_to_phys v c OR PTE_PRESENT OR PTE_WRITABLE OR user_bit), st))
      else (phys_to_virt v (get_entry (fst ms) t i AND NOT 0xFFF), ms))"

definition map_page :: "vmm \<Rightarrow> u64 \<Rightarrow> u64 \<Rightarrow> u64 \<Rightarrow> mem \<times> pmm \<Rightarrow> mem \<times> pmm" where
  "map_page v virt phys flags ms =
     (let user_bit = flags AND PTE_USER;
          pml4 = kernel_pml4 v;
          (pdpt, ms1) = next_table v user_bit pml4 (PML4_INDEX virt) ms;
          (pd, ms2) = next_table v user_bit pdpt (PDPT_INDEX virt) ms1;
          (pt, ms3) = next_table v user_bit pd (PD_INDEX virt) ms2
      in (set_entry (fst ms3) pt (PT_INDEX virt) (phys OR flags OR PTE_PRESENT), snd ms3))"

definition unmap_page :: "vmm \<Rightarrow> u64 \<Rightarrow> mem \<Rightarrow> mem" where
  "unmap_page v virt m =
     (let pml4 = kernel_pml4 v in
      if \<not> present (get_entry m pml4 (PML4_INDEX virt)) then m else
      let pdpt = phys_to_virt v (get_entry m pml4 (PML4_INDEX virt) AND NOT 0xFFF) in
      if \<not> present (get_entry m pdpt (PDPT_INDEX virt)) then m else
      let pd = phys_to_virt v (get_entry m pdpt (PDPT_INDEX virt) AND NOT 0xFFF) in
      if \<not> present (get_entry m pd (PD_INDEX virt)) then m else
      let pt = phys_to_virt v (get_entry m pd (PD_INDEX virt) AND NOT 0xFFF) in
      set_entry m pt (PT_INDEX virt) 0)"

partial_function (option) flush_lines :: "u64 \<Rightarrow> u64 \<Rightarrow> u64 list \<Rightarrow> u64 list option" where
  "flush_lines p stop acc = (if p < stop then flush_lines (p + 64) stop (acc @ [p]) else Some acc)"

definition phys_flush_cache :: "u64 \<Rightarrow> u64 \<Rightarrow> u64 list option" where
  "phys_flush_cache addr sz = flush_lines (addr AND NOT 63) (addr + sz) []"

definition phys_invalidate_cache :: "u64 \<Rightarrow> u64 \<Rightarrow> u64 list option" where
  "phys_invalidate_cache addr sz = flush_lines (addr AND NOT 63) (addr + sz) []"

section \<open>Specification\<close>

text \<open>
  The page walk of the processor. The frame of an entry is its bits 12 to 51; a present entry leads to a table of the next level
  unless \<open>PTE_HUGE\<close> is set, which ends the walk at a page of 1 GB or 2 MB (and is reserved in the top level, where it faults).
  The code follows every present entry, and takes bits 12 to 63 as the frame.
\<close>

definition frame_of :: "u64 \<Rightarrow> u64" where "frame_of e = e AND 0x000FFFFFFFFFF000"

definition huge :: "u64 \<Rightarrow> bool" where "huge e \<longleftrightarrow> e AND PTE_HUGE \<noteq> 0"

definition links :: "u64 \<Rightarrow> bool" where "links e \<longleftrightarrow> present e \<and> \<not> huge e"

text \<open>The table reached from \<open>t\<close> along a list of indices.\<close>

primrec table_at :: "vmm \<Rightarrow> mem \<Rightarrow> u64 \<Rightarrow> u64 list \<Rightarrow> u64 option" where
  "table_at v m t [] = Some t"
| "table_at v m t (i # is) =
     (if links (get_entry m t i) then table_at v m (phys_to_virt v (frame_of (get_entry m t i))) is else None)"

definition indices :: "u64 \<Rightarrow> u64 list" where
  "indices virt = [PML4_INDEX virt, PDPT_INDEX virt, PD_INDEX virt]"

definition same_page :: "u64 \<Rightarrow> u64 \<Rightarrow> bool" where
  "same_page a b \<longleftrightarrow> indices a = indices b \<and> PT_INDEX a = PT_INDEX b"

definition path_ok :: "u64 list \<Rightarrow> bool" where
  "path_ok p \<longleftrightarrow> length p \<le> 3 \<and> (\<forall>i \<in> set p. i < 512)"

text \<open>
  The tables form a tree of distinct page-aligned pages, none of which is a free frame, and the free frames are
  52-bit physical addresses.
\<close>

definition vm_inv :: "vmm \<Rightarrow> u64 list \<Rightarrow> mem \<Rightarrow> bool" where
  "vm_inv v fs m \<longleftrightarrow>
     (\<forall>p a. path_ok p \<longrightarrow> table_at v m (kernel_pml4 v) p = Some a \<longrightarrow>
        aligned 12 a \<and> a - hhdm_offset v \<notin> set fs \<and>
        (\<forall>q. path_ok q \<longrightarrow> table_at v m (kernel_pml4 v) q = Some a \<longrightarrow> p = q)) \<and>
     (\<forall>f \<in> set fs. frame_of f = f)"

text \<open>
  What the hardware translates an address to: the present entry that ends its walk, and the levels left below it: 0 for a
  page of 4 KB, 1 for 2 MB, 2 for 1 GB.
\<close>

fun walk :: "vmm \<Rightarrow> mem \<Rightarrow> u64 \<Rightarrow> u64 list \<Rightarrow> (u64 \<times> nat) option" where
  "walk v m t [] = None"
| "walk v m t (i # is) =
     (let e = get_entry m t i in
      if \<not> present e then None
      else if is = [] then Some (e, 0)
      else if huge e then if length is \<le> 2 then Some (e, length is) else None
      else walk v m (phys_to_virt v (frame_of e)) is)"

definition translate :: "vmm \<Rightarrow> mem \<Rightarrow> u64 \<Rightarrow> (u64 \<times> nat) option" where
  "translate v m virt = walk v m (kernel_pml4 v) (indices virt @ [PT_INDEX virt])"

text \<open>
  The addresses the code can handle: on their path the present entries of the upper levels are no huge pages and have bits 52 to 63
  clear, so that the code and the processor walk alike.
\<close>

definition plain :: "u64 \<Rightarrow> bool" where "plain e \<longleftrightarrow> (present e \<longrightarrow> \<not> huge e \<and> e AND NOT 0xFFF = frame_of e)"

fun plain_path :: "vmm \<Rightarrow> mem \<Rightarrow> u64 \<Rightarrow> u64 list \<Rightarrow> bool" where
  "plain_path v m t [] \<longleftrightarrow> True"
| "plain_path v m t (i # is) \<longleftrightarrow>
     plain (get_entry m t i) \<and> (present (get_entry m t i) \<longrightarrow> plain_path v m (phys_to_virt v (frame_of (get_entry m t i))) is)"

definition small_pages :: "vmm \<Rightarrow> mem \<Rightarrow> u64 \<Rightarrow> bool" where
  "small_pages v m virt \<longleftrightarrow> plain_path v m (kernel_pml4 v) (indices virt)"

section \<open>Entries of page-aligned tables\<close>

lemma index_bound: "x AND 0x1FF < (512 :: u64)"
proof -
  have "x AND 0x1FF \<le> (0x1FF :: u64)" by (rule word_and_le1)
  then show ?thesis by (simp add: word_le_nat_alt word_less_nat_alt)
qed

lemma indices_ok [simp]: "path_ok (indices a)"
  by (simp add: path_ok_def indices_def PML4_INDEX_def PDPT_INDEX_def PD_INDEX_def index_bound)

lemma PT_INDEX_bound [simp]: "PT_INDEX a < 512"
  by (simp add: PT_INDEX_def index_bound)

lemma entry_offset:
  assumes "i < (512 :: u64)"
  shows "8 * i = of_nat (8 * unat i)" and "8 * unat i \<le> 4088"
  using assms by (simp_all add: word_less_nat_alt)

lemma entry_in_page: "i < 512 \<Longrightarrow> region (entry_addr t i) 8 \<subseteq> region t 4096"
  unfolding entry_addr_def entry_offset(1) by (rule page_field_regions) (rule entry_offset(2))

lemma entry_aligned:
  assumes "aligned 12 t" and "i < 512"
  shows "aligned 3 (entry_addr t i)"
proof -
  have "unat (8 * i) = 8 * unat i"
    using assms(2) by (simp add: unat_word_ariths word_less_nat_alt)
  then have "aligned 3 (8 * i)" by (simp add: aligned_def)
  moreover have "aligned 3 t" using assms(1) by (rule aligned_weaken) simp
  ultimately show ?thesis by (simp add: entry_addr_def aligned_add)
qed

lemma entry_addr_inj:
  assumes "i < 512" and "j < 512"
  shows "entry_addr t i = entry_addr t j \<longleftrightarrow> i = j"
proof -
  have "unat (8 * i) = 8 * unat i" "unat (8 * j) = 8 * unat j"
    using assms by (simp_all add: unat_word_ariths word_less_nat_alt)
  then have "8 * i = 8 * j \<Longrightarrow> unat i = unat j" by (metis mult_cancel1 zero_neq_numeral)
  then have "8 * i = 8 * j \<longleftrightarrow> i = j" by (auto intro: word_unat_eq_iff [THEN iffD2])
  then show ?thesis by (simp add: entry_addr_def)
qed

lemma get_entry_cong:
  "i < 512 \<Longrightarrow> (\<And>x. x \<in> region t 4096 \<Longrightarrow> m' x = m x) \<Longrightarrow> get_entry m' t i = get_entry m t i"
  unfolding get_entry_def using entry_in_page [of i t] by (intro read64_cong) blast

lemma set_entry_outside: "i < 512 \<Longrightarrow> x \<notin> region t 4096 \<Longrightarrow> set_entry m t i e x = m x"
  unfolding set_entry_def using entry_in_page [of i t] by (intro write64_outside) blast

lemma get_set_entry:
  "aligned 12 t \<Longrightarrow> i < 512 \<Longrightarrow> j < 512 \<Longrightarrow>
     get_entry (set_entry m t i e) t j = (if i = j then e else get_entry m t j)"
  by (simp add: get_entry_def set_entry_def read64_write64_aligned entry_aligned entry_addr_inj)

lemma get_set_entry_other:
  assumes "aligned 12 t" and "aligned 12 a" and "a \<noteq> t" and "i < 512" and "j < 512"
  shows "get_entry (set_entry m t i e) a j = get_entry m a j"
proof (rule get_entry_cong [OF assms(5)])
  fix x assume x: "x \<in> region a 4096"
  have "disjoint_regions t 4096 a 4096" using assms aligned_disjoint [of 12 t a] by simp
  then have "x \<notin> region t 4096" using x by (rule disjoint_regionsD)
  then show "set_entry m t i e x = m x" by (rule set_entry_outside [OF assms(4)])
qed

lemma memset_page: "fst (memset m p 0 4096) = (\<lambda>x. if x \<in> region p 4096 then 0 else m x)"
  by (simp add: memset_def memset_loop_spec)

lemma le_join_zero: "(\<forall>b \<in> set bs. b = 0) \<Longrightarrow> le_join bs = 0"
  by (induction bs) auto

lemma get_entry_zeroed:
  assumes "i < 512" and "\<And>x. x \<in> region t 4096 \<Longrightarrow> m x = 0"
  shows "get_entry m t i = 0"
proof -
  have "m (entry_addr t i + of_nat k) = 0" if "k < 8" for k
    using assms entry_in_page [OF assms(1), of t] region_offset [of k 8 "entry_addr t i"] that by auto
  then have "\<forall>b \<in> set (bytes_at m (entry_addr t i) 8). b = 0"
    by (auto simp: in_set_conv_nth)
  then show ?thesis unfolding get_entry_def read64_def by (rule le_join_zero)
qed

lemma present_iff: "present e \<longleftrightarrow> bit e 0"
  by (simp add: present_def PTE_PRESENT_def and_one_eq mod_2_eq_odd bit_0)

lemma present_0 [simp]: "\<not> present 0"
  by (simp add: present_def)

lemma present_or [simp]: "present (a OR PTE_PRESENT)" "present (a OR PTE_PRESENT OR b)"
    "present (a OR b OR PTE_PRESENT)"
  by (simp_all add: present_iff bit_or_iff) (simp_all add: PTE_PRESENT_def)

lemma bit_PTE_USER: "bit PTE_USER n \<longleftrightarrow> n = 2"
  unfolding PTE_USER_def by (simp only: bit_push_bit_iff bit_1_iff) auto

lemma huge_iff: "huge e \<longleftrightarrow> bit e 7"
proof -
  have k: "PTE_HUGE = push_bit 7 1" by (simp add: PTE_HUGE_def)
  have "bit PTE_HUGE n \<longleftrightarrow> n = 7" for n unfolding k by (simp only: bit_push_bit_iff bit_1_iff) auto
  moreover have "huge e \<longleftrightarrow> (\<exists>n. bit (e AND PTE_HUGE) n)" unfolding huge_def by (metis bit_0_eq bit_eqI bot_apply bot_boolE)
  ultimately show ?thesis by (simp add: bit_and_iff)
qed

lemma bit_frame_of: "bit (frame_of e) n \<longleftrightarrow> bit e n \<and> 12 \<le> n \<and> n < 52"
proof -
  have k: "(0x000FFFFFFFFFF000 :: u64) = push_bit 12 (mask 40)" by (simp add: mask_eq_exp_minus_1)
  show ?thesis unfolding frame_of_def k by (simp only: bit_and_iff bit_push_bit_iff bit_mask_iff) auto
qed

lemma frame_of_aligned: "aligned 12 (frame_of e)"
  unfolding aligned_mask_iff by (rule bit_word_eqI) (auto simp: bit_frame_of bit_simps)

lemma links_plain: "present e \<Longrightarrow> plain e \<Longrightarrow> links e \<and> e AND NOT 0xFFF = frame_of e"
  by (simp add: links_def plain_def)

lemma links_0 [simp]: "\<not> links 0"
  by (simp add: links_def)

text \<open>The entry the code makes for a new table.\<close>

lemma table_entry_frame:
  assumes "aligned 12 f" "frame_of f = f" and "ub AND NOT PTE_USER = 0" and e: "e = f OR PTE_PRESENT OR PTE_WRITABLE OR ub"
  shows "links e" "frame_of e = f" "plain e"
proof -
  have f: "bit f n \<Longrightarrow> 12 \<le> n \<and> n < 52" for n using assms(2) bit_frame_of [of f n] by simp
  have u: "n = 2" if b: "bit ub n" for n
  proof (rule ccontr)
    assume "n \<noteq> 2"
    moreover have "n < 64" using bit_imp_le_length [OF b] by simp
    moreover have "bit (ub AND NOT PTE_USER) n = bit 0 n" using assms(3) by simp
    ultimately show False using b by (simp add: bit_and_iff bit_not_iff bit_PTE_USER)
  qed
  have m: "(0xFFF :: u64) = mask 12" by (simp add: mask_eq_exp_minus_1)
  have b: "bit e n \<longleftrightarrow> bit f n \<or> n = 0 \<or> n = 1 \<or> bit ub n" for n
    unfolding e PTE_PRESENT_def PTE_WRITABLE_def by (auto simp: bit_simps)
  show "frame_of e = f" by (intro bit_word_eqI) (auto simp: bit_frame_of b dest: f u)
  moreover have "e AND NOT 0xFFF = f" unfolding m by (intro bit_word_eqI) (auto simp: bit_simps b dest: f u)
  moreover have "present e" by (simp add: present_iff b)
  moreover have "\<not> huge e" using f [of 7] u [of 7] by (auto simp: huge_iff b)
  ultimately show "links e" "plain e" by (simp_all add: links_def plain_def)
qed

section \<open>Walking the tables\<close>

lemma table_at_append:
  "table_at v m t (p @ q) = (case table_at v m t p of None \<Rightarrow> None | Some a \<Rightarrow> table_at v m a q)"
  by (induction p arbitrary: t) auto

lemma table_at_snoc:
  "table_at v m t (p @ [i]) =
     (case table_at v m t p of None \<Rightarrow> None
      | Some a \<Rightarrow> if links (get_entry m a i) then Some (phys_to_virt v (frame_of (get_entry m a i))) else None)"
  by (simp add: table_at_append split: option.split)

lemma plain_path_append:
  "plain_path v m t (p @ q) \<longleftrightarrow> plain_path v m t p \<and> (\<forall>a. table_at v m t p = Some a \<longrightarrow> plain_path v m a q)"
  by (induction p arbitrary: t) (auto simp: links_def plain_def)

lemma path_ok_snoc: "path_ok (p @ [i]) \<longleftrightarrow> path_ok p \<and> length p < 3 \<and> i < 512"
  by (auto simp: path_ok_def)

lemma vm_invD:
  assumes "vm_inv v fs m" and "path_ok p" and "table_at v m (kernel_pml4 v) p = Some a"
  shows "aligned 12 a" and "a - hhdm_offset v \<notin> set fs"
    and "path_ok q \<Longrightarrow> table_at v m (kernel_pml4 v) q = Some a \<Longrightarrow> p = q" and "f \<in> set fs \<Longrightarrow> frame_of f = f"
  using assms unfolding vm_inv_def by blast+

text \<open>Making one table: where it goes and what it leaves alone.\<close>

lemma new_table_entries:
  fixes e :: u64
  assumes "vm_inv v (f # fs) m" and "aligned 12 (f + hhdm_offset v)"
    and "path_ok p" and "table_at v m (kernel_pml4 v) p = Some t" and "i < 512"
  defines "c \<equiv> f + hhdm_offset v"
  defines "m' \<equiv> set_entry (fst (memset m c 0 4096)) t i e"
  shows "path_ok q \<Longrightarrow> table_at v m (kernel_pml4 v) q = Some a \<Longrightarrow> j < 512 \<Longrightarrow>
      get_entry m' a j = (if q = p \<and> i = j then e else get_entry m a j)"
    and "j < 512 \<Longrightarrow> get_entry m' c j = 0"
    and "x \<notin> region c 4096 \<Longrightarrow> x \<notin> region t 4096 \<Longrightarrow> m' x = m x"
proof -
  let ?z = "fst (memset m c 0 4096)"
  have t: "aligned 12 t" "t \<noteq> c"
    using vm_invD [OF assms(1,3,4)] by (auto simp: c_def)
  { fix q a j assume q: "path_ok q" "table_at v m (kernel_pml4 v) q = Some a" and j: "j < (512 :: u64)"
    have a: "aligned 12 a" "a \<noteq> c" using vm_invD [OF assms(1) q] by (auto simp: c_def)
    have "get_entry ?z a j = get_entry m a j"
    proof (rule get_entry_cong [OF j])
      fix x assume "x \<in> region a 4096"
      moreover have "disjoint_regions c 4096 a 4096"
        using a assms(2) aligned_disjoint [of 12 c a] by (simp add: c_def)
      ultimately show "?z x = m x" using disjoint_regionsD by (auto simp: memset_page)
    qed
    moreover have "q = p \<longleftrightarrow> a = t"
      using vm_invD(3) [OF assms(1) q, of p] assms(3,4) q by auto
    ultimately show "get_entry m' a j = (if q = p \<and> i = j then e else get_entry m a j)"
      using t a j assms(5) get_set_entry [of t i j ?z e] get_set_entry_other [of t a i j ?z e]
      by (auto simp: m'_def) }
  { assume j: "j < 512"
    have "get_entry m' c j = get_entry ?z c j"
      unfolding m'_def using t assms(2,5) j by (intro get_set_entry_other) (auto simp: c_def)
    also have "\<dots> = 0" using j by (rule get_entry_zeroed) (simp add: memset_page)
    finally show "get_entry m' c j = 0" . }
  { assume "x \<notin> region c 4096" "x \<notin> region t 4096"
    then show "m' x = m x" using assms(5) by (simp add: m'_def set_entry_outside memset_page) }
qed

lemma new_table_walk:
  fixes e :: u64
  assumes inv: "vm_inv v (f # fs) m" "aligned 12 (f + hhdm_offset v)"
    and p: "path_ok p" "length p < 3" "table_at v m (kernel_pml4 v) p = Some t" and i: "i < 512"
    and absent: "\<not> present (get_entry m t i)"
    and e: "links e" "frame_of e = f"
    and m': "m' = set_entry (fst (memset m (f + hhdm_offset v) 0 4096)) t i e"
  shows "path_ok q \<Longrightarrow> table_at v m' (kernel_pml4 v) q =
    (if q = p @ [i] then Some (f + hhdm_offset v) else table_at v m (kernel_pml4 v) q)"
proof (induction q rule: rev_induct)
  case Nil
  then show ?case by simp
next
  case (snoc j q)
  note entries = new_table_entries [OF inv p(1,3) i, where e = e, folded m']
  have j: "path_ok q" "j < 512" using snoc.prems by (simp_all add: path_ok_snoc)
  note IH = snoc.IH [OF j(1)]
  show ?case
  proof (cases "q = p @ [i]")
    case True
    then have "table_at v m (kernel_pml4 v) q = None" using p absent by (simp add: table_at_snoc links_def)
    moreover have "table_at v m' (kernel_pml4 v) q = Some (f + hhdm_offset v)" "q \<noteq> p"
      using True IH by simp_all
    ultimately show ?thesis unfolding table_at_snoc using entries(2) [OF j(2)] by simp
  next
    case False
    then have IH': "table_at v m' (kernel_pml4 v) q = table_at v m (kernel_pml4 v) q" using IH by simp
    show ?thesis
    proof (cases "table_at v m (kernel_pml4 v) q")
      case None
      with IH' p show ?thesis by (auto simp: table_at_snoc)
    next
      case (Some a)
      with entries(1) [OF j(1) Some j(2)] IH' e p show ?thesis
        by (auto simp: table_at_snoc phys_to_virt_def)
    qed
  qed
qed

text \<open>The new table is empty, so no translation changes, and the code can still follow every path it could follow.\<close>

lemma new_table_translation:
  fixes e :: u64
  assumes inv: "vm_inv v (f # fs) m" "aligned 12 (f + hhdm_offset v)"
    and p: "path_ok p" "length p < 3" "table_at v m (kernel_pml4 v) p = Some t" and i: "i < 512"
    and absent: "\<not> present (get_entry m t i)"
    and e: "links e" "frame_of e = f"
    and m': "m' = set_entry (fst (memset m (f + hhdm_offset v) 0 4096)) t i e"
  shows "path_ok q \<Longrightarrow> table_at v m (kernel_pml4 v) q = Some a \<Longrightarrow> \<forall>j \<in> set w. j < 512 \<Longrightarrow> length q + length w = 4 \<Longrightarrow>
      walk v m' a w = walk v m a w"
    and "plain e \<Longrightarrow> path_ok q \<Longrightarrow> table_at v m (kernel_pml4 v) q = Some a \<Longrightarrow> \<forall>j \<in> set w. j < 512 \<Longrightarrow> length q + length w = 3 \<Longrightarrow>
      plain_path v m a w \<Longrightarrow> plain_path v m' a w"
proof -
  note entries = new_table_entries [OF inv p(1,3) i, where e = e, folded m']
  have t: "q = p \<Longrightarrow> table_at v m (kernel_pml4 v) q = Some a \<Longrightarrow> a = t" for q a using p(3) by simp
  have new: "walk v m' (f + hhdm_offset v) w = None" "plain_path v m' (f + hhdm_offset v) w" if "\<forall>j \<in> set w. j < 512" for w
    using that entries(2) by (cases w; simp add: plain_def)+
  { show "walk v m' a w = walk v m a w"
      if "path_ok q" "table_at v m (kernel_pml4 v) q = Some a" "\<forall>j \<in> set w. j < 512" "length q + length w = 4"
      using that
    proof (induction w arbitrary: q a)
      case (Cons j w)
      show ?case
      proof (cases "q = p \<and> i = j")
        case True
        then have "get_entry m' a j = e" "a = t" using entries(1) [OF Cons.prems(1,2), of j] Cons.prems(2,3) t by auto
        moreover have "w \<noteq> []" using True p(2) Cons.prems(4) by auto
        ultimately show ?thesis using e absent True new(1) [of w] Cons.prems(3) by (simp add: links_def phys_to_virt_def)
      next
        case False
        then have g: "get_entry m' a j = get_entry m a j" using entries(1) [OF Cons.prems(1,2), of j] Cons.prems(3) by auto
        have "walk v m' b w = walk v m b w" if "w \<noteq> []" "links (get_entry m a j)" "b = phys_to_virt v (frame_of (get_entry m a j))" for b
        proof (rule Cons.IH [of "q @ [j]"])
          have "length w > 0" using that(1) by blast
          then have "length q < 3" using Cons.prems(4) unfolding list.size by linarith
          then show "path_ok (q @ [j])" using Cons.prems by (simp add: path_ok_snoc)
        qed (use Cons.prems that in \<open>simp_all add: table_at_snoc\<close>)
        then show ?thesis using g by (simp add: Let_def links_def)
      qed
    qed simp }
  { show "plain_path v m' a w"
      if "plain e" "path_ok q" "table_at v m (kernel_pml4 v) q = Some a" "\<forall>j \<in> set w. j < 512" "length q + length w = 3" "plain_path v m a w"
      using that(2-)
    proof (induction w arbitrary: q a)
      case (Cons j w)
      show ?case
      proof (cases "q = p \<and> i = j")
        case True
        then have "get_entry m' a j = e" using entries(1) [OF Cons.prems(1,2), of j] Cons.prems(3) by auto
        then show ?thesis using e that(1) new(2) [of w] Cons.prems(3) by (simp add: phys_to_virt_def)
      next
        case False
        then have g: "get_entry m' a j = get_entry m a j" using entries(1) [OF Cons.prems(1,2), of j] Cons.prems(3) by auto
        have "plain_path v m' b w" if "present (get_entry m a j)" "b = phys_to_virt v (frame_of (get_entry m a j))" for b
          using Cons.prems that links_plain [of "get_entry m a j"]
          by (intro Cons.IH [of "q @ [j]"]) (simp_all add: path_ok_snoc table_at_snoc)
        then show ?thesis using g Cons.prems(5) by simp
      qed
    qed simp }
qed

lemma new_table_inv:
  fixes e :: u64
  assumes inv: "pmm_inv (hhdm_offset v) (f # fs) ms" "vm_inv v (f # fs) m"
    and p: "path_ok p" "length p < 3" "table_at v m (kernel_pml4 v) p = Some t" and i: "i < 512"
    and absent: "\<not> present (get_entry m t i)"
    and e: "links e" "frame_of e = f"
    and m': "m' = set_entry (fst (memset m (f + hhdm_offset v) 0 4096)) t i e"
  shows "vm_inv v fs m'" and "pmm_inv (hhdm_offset v) fs (m, st) \<Longrightarrow> pmm_inv (hhdm_offset v) fs (m', st)"
proof -
  let ?c = "f + hhdm_offset v"
  have ok: "frame_ok (hhdm_offset v) f" "f \<notin> set fs" using inv(1) by (simp_all add: pmm_inv_def)
  then have c: "aligned 12 ?c" by (simp add: frame_page_aligned)
  note walk = new_table_walk [OF inv(2) c p i absent e m']
  note entries = new_table_entries [OF inv(2) c p(1,3) i, where e = e, folded m']
  note old = vm_invD [OF inv(2)]
  show "vm_inv v fs m'"
    unfolding vm_inv_def
  proof (intro allI impI conjI ballI)
    show "frame_of g = g" if "g \<in> set fs" for g using inv(2) that by (simp add: vm_inv_def)
    fix q a assume q: "path_ok q" "table_at v m' (kernel_pml4 v) q = Some a"
    then have qa: "if q = p @ [i] then a = ?c else table_at v m (kernel_pml4 v) q = Some a"
      using walk by (auto split: if_splits)
    show "aligned 12 a" using qa c old(1) [OF q(1)] by (auto split: if_splits)
    show "a - hhdm_offset v \<notin> set fs" using qa ok old(2) [OF q(1)] by (auto split: if_splits)
    fix q' assume q': "path_ok q'" "table_at v m' (kernel_pml4 v) q' = Some a"
    then have "if q' = p @ [i] then a = ?c else table_at v m (kernel_pml4 v) q' = Some a"
      using walk by (auto split: if_splits)
    moreover have "table_at v m (kernel_pml4 v) r \<noteq> Some ?c" if "path_ok r" for r
      using old(2) [OF that, of ?c] by auto
    ultimately show "q = q'" using qa q(1) q'(1) old(3) [OF q(1)] by (metis (full_types))
  qed
  assume pm: "pmm_inv (hhdm_offset v) fs (m, st)"
  then show "pmm_inv (hhdm_offset v) fs (m', st)"
  proof (rule pmm_inv_frame)
    fix g x assume g: "g \<in> set fs" and x: "x \<in> region (g + hhdm_offset v) 4096"
    have gok: "frame_ok (hhdm_offset v) g" "g \<noteq> f" using pm g ok by (auto simp: pmm_inv_def list_all_iff)
    have "disjoint_regions ?c 4096 (g + hhdm_offset v) 4096"
      using frame_pages_disjoint [OF ok(1) gok(1)] gok(2) by simp
    from this x have x1: "x \<notin> region ?c 4096" by (rule disjoint_regionsD)
    have "t \<noteq> g + hhdm_offset v" using old(2) [OF p(1,3)] g by auto
    with old(1) [OF p(1,3)] frame_page_aligned [OF gok(1)]
    have "disjoint_regions t 4096 (g + hhdm_offset v) 4096"
      using aligned_disjoint [of 12 t "g + hhdm_offset v"] by simp
    from this x have "x \<notin> region t 4096" by (rule disjoint_regionsD)
    with x1 show "m' x = m x" by (rule entries(3))
  qed
qed

section \<open>One level\<close>

lemma next_table_spec:
  assumes inv: "pmm_inv (hhdm_offset v) fs (m, st)" "vm_inv v fs m"
    and p: "path_ok (p @ [i])" "table_at v m (kernel_pml4 v) p = Some t" and small: "plain (get_entry m t i)"
    and ub: "ub AND NOT PTE_USER = 0" and room: "fs \<noteq> []"
  obtains c m' st' fs' where "next_table v ub t i (m, st) = (c, (m', st'))"
    and "pmm_inv (hhdm_offset v) fs' (m', st')" and "vm_inv v fs' m'"
    and "table_at v m' (kernel_pml4 v) (p @ [i]) = Some c"
    and "length fs \<le> Suc (length fs')" and "set fs' \<subseteq> set fs"
    and "\<And>a. translate v m' a = translate v m a" and "\<And>a. small_pages v m a \<Longrightarrow> small_pages v m' a"
    and "\<And>q a. path_ok q \<Longrightarrow> table_at v m' (kernel_pml4 v) q = Some a \<Longrightarrow> table_at v m (kernel_pml4 v) q = Some a \<or> a - hhdm_offset v \<in> set fs"
proof (cases "present (get_entry m t i)")
  case True
  then have "links (get_entry m t i)" "get_entry m t i AND NOT 0xFFF = frame_of (get_entry m t i)" using links_plain small by auto
  with p True inv show ?thesis by (intro that) (auto simp: next_table_def table_at_snoc)
next
  case False
  from room obtain f fs' where fs: "fs = f # fs'" by (cases fs) auto
  have p': "path_ok p" "length p < 3" "i < 512" using p(1) by (simp_all add: path_ok_snoc)
  note pal = palloc_cons [OF inv(1) [unfolded fs]]
  obtain st' where st': "palloc (m, st) = (f, (m, st'))"
    using pal(1) by (cases "palloc (m, st)") (auto simp: palloc_def Let_def split: if_splits)
  then have pm: "pmm_inv (hhdm_offset v) fs' (m, st')" using pal(2) by simp
  have f: "aligned 12 f" "frame_of f = f" using inv fs by (simp_all add: pmm_inv_def frame_ok_def vm_inv_def)
  define e where "e = f OR PTE_PRESENT OR PTE_WRITABLE OR ub"
  define m' where "m' = set_entry (fst (memset m (f + hhdm_offset v) 0 4096)) t i e"
  note e = table_entry_frame [OF f ub e_def]
  have c: "aligned 12 (f + hhdm_offset v)" using inv(1) fs frame_page_aligned [of "hhdm_offset v" f] by (simp add: pmm_inv_def)
  note step = inv(2) [unfolded fs] c p'(1,2) p(2) p'(3) False e(1,2) m'_def
  note new = new_table_inv [OF inv [unfolded fs] p'(1,2) p(2) p'(3) False e(1,2) m'_def]
  note walk = new_table_walk [OF step]
  have "\<forall>j \<in> set (indices a @ [PT_INDEX a]). j < 512" "\<forall>j \<in> set (indices a). j < 512" "length (indices a) = 3" for a
    using indices_ok [of a] by (auto simp: path_ok_def indices_def)
  then have "translate v m' a = translate v m a" "small_pages v m a \<Longrightarrow> small_pages v m' a" for a
    using new_table_translation(1) [OF step, of "[]" "kernel_pml4 v"] new_table_translation(2) [OF step e(3), of "[]" "kernel_pml4 v"]
    by (simp_all add: translate_def small_pages_def path_ok_def)
  moreover have "table_at v m' (kernel_pml4 v) (p @ [i]) = Some (f + hhdm_offset v)" using walk p(1) by simp
  moreover have "next_table v ub t i (m, st) = (f + hhdm_offset v, (m', st'))"
    using False st' by (simp add: next_table_def alloc_table_def phys_to_virt_def virt_to_phys_def m'_def e_def)
  moreover have "table_at v m (kernel_pml4 v) q = Some a \<or> a - hhdm_offset v \<in> set fs"
    if "path_ok q" "table_at v m' (kernel_pml4 v) q = Some a" for q a
    using walk [OF that(1)] that(2) fs by (auto split: if_splits)
  ultimately show ?thesis using new pm fs by (intro that [of _ m' st' fs']) auto
qed

text \<open>Writing one leaf entry.\<close>

lemma set_leaf_entry:
  fixes e :: u64
  assumes "vm_inv v fs m" and p: "path_ok p" "table_at v m (kernel_pml4 v) p = Some t" and i: "i < 512"
    and q: "path_ok q" "table_at v m (kernel_pml4 v) q = Some a" "j < 512"
  shows "get_entry (set_entry m t i e) a j = (if q = p \<and> i = j then e else get_entry m a j)"
proof (cases "a = t")
  case True
  with vm_invD(3) [OF assms(1) q(1,2) p(1)] p(2) have "q = p" by simp
  with True i q vm_invD(1) [OF assms(1) p] show ?thesis by (simp add: get_set_entry)
next
  case False
  with q p(2) have "q \<noteq> p" by auto
  with False i q vm_invD(1) [OF assms(1) p] vm_invD(1) [OF assms(1) q(1,2)] show ?thesis by (simp add: get_set_entry_other)
qed

lemma set_leaf_tables:
  fixes e :: u64
  assumes inv: "vm_inv v fs m" and p: "path_ok p" "length p = 3" "table_at v m (kernel_pml4 v) p = Some t" and i: "i < 512"
  shows "path_ok q \<Longrightarrow> table_at v (set_entry m t i e) (kernel_pml4 v) q = table_at v m (kernel_pml4 v) q"
proof (induction q rule: rev_induct)
  case (snoc j q)
  then have q: "path_ok q" "length q < 3" "j < 512" by (simp_all add: path_ok_snoc)
  with snoc.IH set_leaf_entry [OF inv p(1,3) i q(1) _ q(3), where e = e] p(2) show ?case unfolding table_at_snoc by (auto split: option.split)
qed simp

lemma set_leaf_walk:
  fixes e :: u64
  assumes inv: "vm_inv v fs m" and p: "path_ok p" "length p = 3" "table_at v m (kernel_pml4 v) p = Some t" and i: "i < 512"
  shows "path_ok q \<Longrightarrow> table_at v m (kernel_pml4 v) q = Some a \<Longrightarrow> \<forall>j \<in> set w. j < 512 \<Longrightarrow> length q + length w = 4 \<Longrightarrow>
    walk v (set_entry m t i e) a w = (if q @ w = p @ [i] then if present e then Some (e, 0) else None else walk v m a w)"
proof (induction w arbitrary: q a)
  case (Cons j w)
  have g: "get_entry (set_entry m t i e) a j = (if q = p \<and> i = j then e else get_entry m a j)"
    using set_leaf_entry [OF inv p(1,3) i Cons.prems(1,2)] Cons.prems(3) by simp
  show ?case
  proof (cases "w = []")
    case True
    then show ?thesis using g by (auto simp: Let_def)
  next
    case False
    then have lw: "0 < length w" by simp
    then have q3: "q \<noteq> p" using Cons.prems(4) p(2) by auto
    have on: "links (get_entry m a j)" if "q @ j # w = p @ [i]"
    proof -
      have "p = q @ j # butlast w" using that False by (metis append_butlast_last_id append_same_eq butlast.simps(2) butlast_append butlast_snoc list.discI)
      then show ?thesis using p(3) Cons.prems(2) by (auto simp: table_at_append split: if_splits)
    qed
    have "length q < 3" using Cons.prems(4) lw unfolding list.size by linarith
    then have "walk v (set_entry m t i e) b w = (if (q @ [j]) @ w = p @ [i] then if present e then Some (e, 0) else None else walk v m b w)"
      if "links (get_entry m a j)" "b = phys_to_virt v (frame_of (get_entry m a j))" for b
      using Cons.prems that by (intro Cons.IH) (simp_all add: path_ok_snoc table_at_snoc)
    then show ?thesis using g q3 on False by (auto simp: Let_def links_def)
  qed
qed (auto simp: path_ok_def)

lemma set_leaf_plain:
  fixes e :: u64
  assumes inv: "vm_inv v fs m" and p: "path_ok p" "length p = 3" "table_at v m (kernel_pml4 v) p = Some t" and i: "i < 512"
  shows "path_ok q \<Longrightarrow> table_at v m (kernel_pml4 v) q = Some a \<Longrightarrow> \<forall>j \<in> set w. j < 512 \<Longrightarrow> length q + length w = 3 \<Longrightarrow>
    plain_path v m a w \<Longrightarrow> plain_path v (set_entry m t i e) a w"
proof (induction w arbitrary: q a)
  case (Cons j w)
  have "q \<noteq> p" using Cons.prems(4) p(2) by auto
  then have g: "get_entry (set_entry m t i e) a j = get_entry m a j"
    using set_leaf_entry [OF inv p(1,3) i Cons.prems(1,2)] Cons.prems(3) by simp
  have "plain_path v (set_entry m t i e) b w" if "present (get_entry m a j)" "b = phys_to_virt v (frame_of (get_entry m a j))" for b
    using Cons.prems that links_plain [of "get_entry m a j"] by (intro Cons.IH [of "q @ [j]"]) (simp_all add: path_ok_snoc table_at_snoc)
  then show ?case using g Cons.prems(5) by simp
qed simp

lemma indices_bound: "\<forall>j \<in> set (indices a @ [PT_INDEX a]). j < 512" "\<forall>j \<in> set (indices a). j < 512" "length (indices a) = 3"
  using indices_ok [of a] by (auto simp: path_ok_def indices_def)

lemma set_leaf_spec:
  fixes e :: u64
  assumes inv: "pmm_inv (hhdm_offset v) fs (m, st)" "vm_inv v fs m"
    and t: "table_at v m (kernel_pml4 v) (indices virt) = Some t"
  defines "m' \<equiv> set_entry m t (PT_INDEX virt) e"
  shows "translate v m' a = (if same_page a virt then if present e then Some (e, 0) else None else translate v m a)"
    and "small_pages v m a \<Longrightarrow> small_pages v m' a" and "vm_inv v fs m'" and "pmm_inv (hhdm_offset v) fs (m', st)"
proof -
  note p = indices_ok [of virt] indices_bound(3) [of virt] t
  note i = PT_INDEX_bound [of virt]
  show "translate v m' a = (if same_page a virt then if present e then Some (e, 0) else None else translate v m a)"
    using set_leaf_walk [OF inv(2) p i, of "[]" "kernel_pml4 v" "indices a @ [PT_INDEX a]" e] indices_bound [of a]
    by (simp add: translate_def m'_def same_page_def path_ok_def)
  show "small_pages v m a \<Longrightarrow> small_pages v m' a"
    using set_leaf_plain [OF inv(2) p i, of "[]" "kernel_pml4 v" "indices a" e] indices_bound [of a]
    by (simp add: small_pages_def m'_def path_ok_def)
  show "vm_inv v fs m'" using inv(2) set_leaf_tables [OF inv(2) p i, where e = e] unfolding vm_inv_def m'_def by simp
  show "pmm_inv (hhdm_offset v) fs (m', st)"
  proof (rule pmm_inv_frame [OF inv(1)])
    fix g x assume g: "g \<in> set fs" and x: "x \<in> region (g + hhdm_offset v) 4096"
    have "aligned 12 (g + hhdm_offset v)"
      using inv(1) g by (auto simp: pmm_inv_def list_all_iff frame_page_aligned)
    moreover have "t \<noteq> g + hhdm_offset v" using vm_invD(2) [OF inv(2) p(1,3)] g by auto
    ultimately have "disjoint_regions t 4096 (g + hhdm_offset v) 4096"
      using vm_invD(1) [OF inv(2) p(1,3)] aligned_disjoint [of 12 t "g + hhdm_offset v"] by simp
    from this x have "x \<notin> region t 4096" by (rule disjoint_regionsD)
    then show "m' x = m x" unfolding m'_def by (rule set_entry_outside [OF i])
  qed
qed

section \<open>Which addresses share a page\<close>

lemma field_eq_iff:
  fixes a b :: u64
  assumes "k + l \<le> 64"
  shows "take_bit l (drop_bit k a) = take_bit l (drop_bit k b) \<longleftrightarrow> (\<forall>n. k \<le> n \<and> n < k + l \<longrightarrow> bit a n = bit b n)"
proof
  assume eq: "take_bit l (drop_bit k a) = take_bit l (drop_bit k b)"
  show "\<forall>n. k \<le> n \<and> n < k + l \<longrightarrow> bit a n = bit b n"
  proof (intro allI impI)
    fix n assume n: "k \<le> n \<and> n < k + l"
    from eq have "bit (take_bit l (drop_bit k a)) (n - k) = bit (take_bit l (drop_bit k b)) (n - k)" by simp
    with n show "bit a n = bit b n" by (simp add: bit_take_bit_iff bit_drop_bit_eq less_diff_conv2)
  qed
next
  assume "\<forall>n. k \<le> n \<and> n < k + l \<longrightarrow> bit a n = bit b n"
  then show "take_bit l (drop_bit k a) = take_bit l (drop_bit k b)"
    by (intro bit_word_eqI) (auto simp: bit_take_bit_iff bit_drop_bit_eq)
qed

lemma same_page_iff: "same_page a b \<longleftrightarrow> take_bit 36 (drop_bit 12 a) = take_bit 36 (drop_bit 12 b)"
proof -
  have m: "x AND 0x1FF = take_bit 9 x" for x :: u64 by (simp add: take_bit_eq_mask mask_eq_exp_minus_1)
  have cover: "12 \<le> n \<and> n < 48 \<longleftrightarrow> 12 \<le> n \<and> n < 21 \<or> 21 \<le> n \<and> n < 30 \<or> 30 \<le> n \<and> n < 39 \<or> 39 \<le> n \<and> n < (48::nat)" for n
    by arith
  define P where "P n \<longleftrightarrow> bit a n = bit b n" for n
  note field = field_eq_iff [of _ _ a b, folded P_def]
  have "same_page a b \<longleftrightarrow> (\<forall>n. 39 \<le> n \<and> n < 48 \<longrightarrow> P n) \<and> (\<forall>n. 30 \<le> n \<and> n < 39 \<longrightarrow> P n) \<and>
      (\<forall>n. 21 \<le> n \<and> n < 30 \<longrightarrow> P n) \<and> (\<forall>n. 12 \<le> n \<and> n < 21 \<longrightarrow> P n)"
    unfolding same_page_def indices_def PML4_INDEX_def PDPT_INDEX_def PD_INDEX_def PT_INDEX_def m
    using field [of 12 9] field [of 21 9] field [of 30 9] field [of 39 9] by simp
  also have "\<dots> \<longleftrightarrow> (\<forall>n. 12 \<le> n \<and> n < 48 \<longrightarrow> P n)" unfolding cover by blast
  also have "\<dots> \<longleftrightarrow> take_bit 36 (drop_bit 12 a) = take_bit 36 (drop_bit 12 b)"
    using field [of 12 36] by simp
  finally show ?thesis .
qed

section \<open>Cache lines\<close>

lemma flush_lines_spec:
  assumes "aligned 6 p" and "unat stop \<le> 2 ^ 64 - 64"
  shows "\<exists>n. flush_lines p stop acc = Some (acc @ map (\<lambda>i. p + 64 * of_nat i) [0..<n]) \<and>
    (\<forall>i. i < n \<longleftrightarrow> unat p + 64 * i < unat stop)"
  using assms(1)
proof (induction "unat stop - unat p" arbitrary: p acc rule: less_induct)
  case less
  show ?case
  proof (cases "p < stop")
    case False
    then show ?thesis
      by (intro exI [of _ 0]) (auto simp: flush_lines.simps word_less_nat_alt)
  next
    case True
    then have lt: "unat p < unat stop" by (simp add: word_less_nat_alt)
    with assms(2) have u: "unat (p + 64) = unat p + 64" by (simp add: unat_word_ariths)
    have "aligned 6 (64 :: u64)" by (simp add: aligned_def)
    with less.prems have al: "aligned 6 (p + 64)" by (intro aligned_add) simp_all
    have "unat stop - unat (p + 64) < unat stop - unat p" using lt u by simp
    from less.hyps [OF this al, of "acc @ [p]"] obtain n where
      n: "flush_lines (p + 64) stop (acc @ [p]) =
            Some ((acc @ [p]) @ map (\<lambda>i. p + 64 + 64 * of_nat i) [0..<n])"
         "\<forall>i. i < n \<longleftrightarrow> unat p + 64 + 64 * i < unat stop" using u by auto
    have "p # map (\<lambda>i. p + 64 + 64 * of_nat i) [0..<n] = map (\<lambda>i. p + 64 * of_nat i) [0..<Suc n]"
      unfolding map_upt_Suc by (simp add: distrib_left)
    moreover have "i < Suc n \<longleftrightarrow> unat p + 64 * i < unat stop" for i
      using lt spec [OF n(2), of "i - 1"] by (cases i) (simp_all add: add.assoc)
    ultimately show ?thesis
      using n(1) True by (intro exI [of _ "Suc n"]) (subst flush_lines.simps, simp)
  qed
qed

lemma vm_inv_empty:
  assumes "aligned 12 (kernel_pml4 v)" and "kernel_pml4 v - hhdm_offset v \<notin> set fs" and "\<forall>f \<in> set fs. frame_of f = f"
    and "\<And>j. j < 512 \<Longrightarrow> get_entry m (kernel_pml4 v) j = 0"
  shows "vm_inv v fs m" and "small_pages v m virt"
proof -
  have "p = []" if "path_ok p" "table_at v m (kernel_pml4 v) p = Some a" for p a
    using that assms(4) by (cases p) (auto simp: path_ok_def)
  with assms(1-3) show "vm_inv v fs m" unfolding vm_inv_def by (metis option.inject table_at.simps(1))
  show "small_pages v m virt" using assms(4) indices_bound(2) [of virt] by (simp add: small_pages_def indices_def plain_def)
qed

lemma unmap_page_walk:
  assumes "small_pages v m virt"
  shows "unmap_page v virt m =
     (case table_at v m (kernel_pml4 v) (indices virt) of None \<Rightarrow> m
      | Some pt \<Rightarrow> set_entry m pt (PT_INDEX virt) 0)"
  using assms unfolding unmap_page_def indices_def small_pages_def
  by (simp add: Let_def) (auto simp: links_def plain_def)

text \<open>Out of frames, a new table is physical page 0: it is cleared and linked into the tree.\<close>

lemma alloc_table_exhausted:
  "pmm_inv (hhdm_offset v) [] (m, st) \<Longrightarrow>
     alloc_table v (m, st) =
       (hhdm_offset v, (\<lambda>x. if x \<in> region (hhdm_offset v) 4096 then 0 else m x, st))"
  using palloc_nil [of "hhdm_offset v" "(m, st)"] by (simp add: alloc_table_def phys_to_virt_def memset_page)

section \<open>Mapping a page\<close>

text \<open>The new tables are frames taken from the free list.\<close>

lemma map_page_spec:
  assumes "pmm_inv (hhdm_offset v) fs (m, st)" and "vm_inv v fs m" and "small_pages v m virt" and "3 \<le> length fs"
    and "map_page v virt phys flags (m, st) = (m', st')"
  obtains fs' where "\<And>a. translate v m' a = (if same_page a virt then Some (phys OR flags OR PTE_PRESENT, 0) else translate v m a)"
    "\<And>a. small_pages v m a \<Longrightarrow> small_pages v m' a"
    "pmm_inv (hhdm_offset v) fs' (m', st')" "vm_inv v fs' m'" "set fs' \<subseteq> set fs" "length fs \<le> length fs' + 3"
    "\<And>q a. path_ok q \<Longrightarrow> table_at v m' (kernel_pml4 v) q = Some a \<Longrightarrow> table_at v m (kernel_pml4 v) q = Some a \<or> a - hhdm_offset v \<in> set fs"
proof -
  let ?ub = "flags AND PTE_USER" and ?R = "kernel_pml4 v" and ?h = "hhdm_offset v"
  have ub: "?ub AND NOT PTE_USER = 0" by (rule bit_word_eqI) (auto simp: bit_simps)
  let ?p1 = "[PML4_INDEX virt]" let ?p2 = "?p1 @ [PDPT_INDEX virt]" let ?p3 = "?p2 @ [PD_INDEX virt]"
  have ind: "indices virt = ?p3" by (simp add: indices_def)
  then have ok: "path_ok ?p3" using indices_ok [of virt] by simp
  then have ok2: "path_ok ?p2" and ok1: "path_ok ([] @ ?p1)" by (simp_all add: path_ok_def)
  have plain: "plain (get_entry n a i)" if "small_pages v n virt" "indices virt = p @ i # q" "table_at v n ?R p = Some a" for n p i q a
    using that by (simp add: small_pages_def plain_path_append)
  obtain pdpt m1 st1 fs1 where n1: "next_table v ?ub ?R (PML4_INDEX virt) (m, st) = (pdpt, (m1, st1))"
    "pmm_inv ?h fs1 (m1, st1)" "vm_inv v fs1 m1" "table_at v m1 ?R ([] @ ?p1) = Some pdpt"
    "length fs \<le> Suc (length fs1)" "set fs1 \<subseteq> set fs"
    "\<And>a. translate v m1 a = translate v m a" "\<And>a. small_pages v m a \<Longrightarrow> small_pages v m1 a"
    and t1: "\<And>q a. path_ok q \<Longrightarrow> table_at v m1 ?R q = Some a \<Longrightarrow> table_at v m ?R q = Some a \<or> a - ?h \<in> set fs"
    by (rule next_table_spec [OF assms(1,2) ok1 _ plain [OF assms(3)] ub]) (use assms(4) in \<open>auto simp: ind\<close>)
  have r1: "table_at v m1 ?R ?p1 = Some pdpt" and fs1: "fs1 \<noteq> []" using n1 assms(4) by auto
  have s1: "plain (get_entry m1 pdpt (PDPT_INDEX virt))" using plain [OF n1(8) [OF assms(3)] _ r1] by (simp add: ind)
  obtain pd m2 st2 fs2 where n2: "next_table v ?ub pdpt (PDPT_INDEX virt) (m1, st1) = (pd, (m2, st2))"
    "pmm_inv ?h fs2 (m2, st2)" "vm_inv v fs2 m2" "table_at v m2 ?R ?p2 = Some pd"
    "length fs1 \<le> Suc (length fs2)" "set fs2 \<subseteq> set fs1"
    "\<And>a. translate v m2 a = translate v m1 a" "\<And>a. small_pages v m1 a \<Longrightarrow> small_pages v m2 a"
    and t2: "\<And>q a. path_ok q \<Longrightarrow> table_at v m2 ?R q = Some a \<Longrightarrow> table_at v m1 ?R q = Some a \<or> a - ?h \<in> set fs1"
    by (rule next_table_spec [OF n1(2,3) ok2 r1 s1 ub fs1]) auto
  have fs2: "fs2 \<noteq> []" using n1(5) n2(5) assms(4) by auto
  have s2: "plain (get_entry m2 pd (PD_INDEX virt))" using plain [OF n2(8) [OF n1(8) [OF assms(3)]] _ n2(4)] by (simp add: ind)
  obtain pt m3 st3 fs3 where n3: "next_table v ?ub pd (PD_INDEX virt) (m2, st2) = (pt, (m3, st3))"
    "pmm_inv ?h fs3 (m3, st3)" "vm_inv v fs3 m3" "table_at v m3 ?R ?p3 = Some pt"
    "length fs2 \<le> Suc (length fs3)" "set fs3 \<subseteq> set fs2"
    "\<And>a. translate v m3 a = translate v m2 a" "\<And>a. small_pages v m2 a \<Longrightarrow> small_pages v m3 a"
    and t3: "\<And>q a. path_ok q \<Longrightarrow> table_at v m3 ?R q = Some a \<Longrightarrow> table_at v m2 ?R q = Some a \<or> a - ?h \<in> set fs2"
    by (rule next_table_spec [OF n2(2,3) ok n2(4) s2 ub fs2]) auto
  have m': "m' = set_entry m3 pt (PT_INDEX virt) (phys OR flags OR PTE_PRESENT)" "st' = st3"
    using assms(5) n1(1) n2(1) n3(1) by (auto simp: map_page_def)
  note leaf = set_leaf_spec [OF n3(2,3) n3(4) [folded ind], where e = "phys OR flags OR PTE_PRESENT", folded m']
  have "table_at v m ?R q = Some a \<or> a - ?h \<in> set fs" if q: "path_ok q" "table_at v m' ?R q = Some a" for q a
    using t3 [OF q(1), of a] t2 [OF q(1), of a] t1 [OF q(1), of a] q n1(6) n2(6)
      set_leaf_tables [OF n3(3) indices_ok indices_bound(3) n3(4) [folded ind] PT_INDEX_bound q(1), where e = "phys OR flags OR PTE_PRESENT"]
    by (auto simp: m')
  moreover have "length fs \<le> length fs3 + 3" "set fs3 \<subseteq> set fs" using n1(5,6) n2(5,6) n3(5,6) by auto
  ultimately show thesis using leaf m'(2) n1(7,8) n2(7,8) n3(7,8) by (intro that [of fs3]) auto
qed

text \<open>Unmapping a page.\<close>

lemma unmap_page_spec:
  assumes "pmm_inv (hhdm_offset v) fs (m, st)" and "vm_inv v fs m" and "small_pages v m virt"
  shows "translate v (unmap_page v virt m) a = (if same_page a virt then None else translate v m a)"
    and "small_pages v m a \<Longrightarrow> small_pages v (unmap_page v virt m) a"
    and "pmm_inv (hhdm_offset v) fs (unmap_page v virt m, st)" and "vm_inv v fs (unmap_page v virt m)"
proof -
  note leaf = set_leaf_spec [OF assms(1,2), where e = 0]
  have none: "translate v m a = None" if "table_at v m (kernel_pml4 v) (indices virt) = None" "same_page a virt" for a
    using that assms(3) by (auto simp: translate_def same_page_def indices_def small_pages_def links_def plain_def Let_def split: if_splits)
  show "translate v (unmap_page v virt m) a = (if same_page a virt then None else translate v m a)"
    using leaf(1) none by (simp add: unmap_page_walk [OF assms(3)] split: option.split)
  show "small_pages v m a \<Longrightarrow> small_pages v (unmap_page v virt m) a"
    "pmm_inv (hhdm_offset v) fs (unmap_page v virt m, st)" "vm_inv v fs (unmap_page v virt m)"
    using leaf(2-4) assms(1,2) by (auto simp: unmap_page_walk [OF assms(3)] split: option.split)
qed

section \<open>Properties\<close>

text \<open>
  C1. On well-formed tables with three free frames left, and an address whose path has no huge page, \<open>map_page\<close> makes the address translate to
  the given frame and flags as a page of 4 KB, changes the translation of no other page, and keeps the tables a tree
  of distinct frames outside the free list, taking at most three frames from it; every address that could be mapped still can.
\<close>
theorem map_page_correct:
  assumes "pmm_inv (hhdm_offset v) fs (m, st)" and "vm_inv v fs m" and "small_pages v m virt" and "3 \<le> length fs"
    and "map_page v virt phys flags (m, st) = (m', st')"
  shows "translate v m' virt = Some (phys OR flags OR PTE_PRESENT, 0) \<and>
    (\<forall>a. take_bit 36 (drop_bit 12 a) \<noteq> take_bit 36 (drop_bit 12 virt) \<longrightarrow> translate v m' a = translate v m a) \<and>
    (\<exists>fs'. pmm_inv (hhdm_offset v) fs' (m', st') \<and> vm_inv v fs' m' \<and> set fs' \<subseteq> set fs \<and> length fs \<le> length fs' + 3) \<and>
    (\<forall>a. small_pages v m a \<longrightarrow> small_pages v m' a)"
proof -
  obtain fs' where "\<And>a. translate v m' a = (if same_page a virt then Some (phys OR flags OR PTE_PRESENT, 0) else translate v m a)"
    "\<And>a. small_pages v m a \<Longrightarrow> small_pages v m' a"
    "pmm_inv (hhdm_offset v) fs' (m', st')" "vm_inv v fs' m'" "set fs' \<subseteq> set fs" "length fs \<le> length fs' + 3"
    by (rule map_page_spec [OF assms]) blast
  then show ?thesis by (auto simp: same_page_iff)
qed

text \<open>Three free frames beside an empty root table, the direct map at the start of the upper half.\<close>

definition sample_vmm :: vmm where "sample_vmm = \<lparr>hhdm_offset = 0xFFFF800000000000, kernel_pml4 = 0xFFFF800000010000\<rparr>"

definition sample_frames :: "mem \<times> pmm" where
  "sample_frames = pfree 0xFFFF800000000000 0x1000 (pfree 0xFFFF800000000000 0x2000 (pfree 0xFFFF800000000000 0x3000 (\<lambda>_. 0, pmm_start)))"

lemma sample_start:
  assumes "set gs \<subseteq> {0x1000, 0x2000, 0x3000, 0x200000}"
  shows "pmm_inv (hhdm_offset sample_vmm) [0x1000, 0x2000, 0x3000] sample_frames"
    and "vm_inv sample_vmm gs (fst sample_frames)" and "small_pages sample_vmm (fst sample_frames) a"
proof -
  let ?h = "0xFFFF800000000000 :: u64"
  have "pmm_inv ?h [] (\<lambda>_. 0, pmm_start)" by (rule pmm_start_inv) (simp add: aligned_def)
  then show "pmm_inv (hhdm_offset sample_vmm) [0x1000, 0x2000, 0x3000] sample_frames"
    unfolding sample_frames_def sample_vmm_def vmm.select_convs by (intro pfree_push) (simp_all add: frame_ok_def aligned_def)
  have "fst sample_frames x = 0" if "x \<in> region (kernel_pml4 sample_vmm) 4096" for x
    using that unfolding sample_frames_def sample_vmm_def vmm.select_convs
    by (subst (asm) region_inside) (simp_all add: pfree_outside region_inside aligned_def)
  then have z: "get_entry (fst sample_frames) (kernel_pml4 sample_vmm) j = 0" if "j < 512" for j using that by (intro get_entry_zeroed)
  have "\<forall>f \<in> set gs. frame_of f = f" using assms by (auto simp: frame_of_def)
  moreover have "0x10000 \<notin> set gs" using assms by auto
  ultimately show "vm_inv sample_vmm gs (fst sample_frames)" "small_pages sample_vmm (fst sample_frames) a"
    using vm_inv_empty [of sample_vmm gs "fst sample_frames"] z by (simp_all add: sample_vmm_def aligned_def)
qed

theorem map_page_correct_witness:
  "\<exists>m' st'. map_page sample_vmm 0x1000000000 0x5000 3 sample_frames = (m', st') \<and> translate sample_vmm m' 0x1000000000 = Some (0x5003, 0)"
proof -
  obtain m st where s: "sample_frames = (m, st)" by fastforce
  obtain m' st' where r: "map_page sample_vmm 0x1000000000 0x5000 3 (m, st) = (m', st')" by fastforce
  note start = sample_start [of "[0x1000, 0x2000, 0x3000]", unfolded s fst_conv]
  have "translate sample_vmm m' 0x1000000000 = Some (0x5003, 0)"
    using map_page_correct [OF start(1,2,3) _ r] by (simp add: PTE_PRESENT_def)
  with r s show ?thesis by auto
qed

text \<open>
  C2. For an address whose path has no huge page \<open>unmap_page\<close> leaves the address without a translation and every other page, the tables and the
  free list as they were.
\<close>
theorem unmap_page_correct:
  assumes "pmm_inv (hhdm_offset v) fs (m, st)" and "vm_inv v fs m" and "small_pages v m virt"
  shows "translate v (unmap_page v virt m) virt = None \<and>
    (\<forall>a. take_bit 36 (drop_bit 12 a) \<noteq> take_bit 36 (drop_bit 12 virt) \<longrightarrow>
       translate v (unmap_page v virt m) a = translate v m a) \<and>
    pmm_inv (hhdm_offset v) fs (unmap_page v virt m, st) \<and> vm_inv v fs (unmap_page v virt m) \<and>
    (\<forall>a. small_pages v m a \<longrightarrow> small_pages v (unmap_page v virt m) a)"
  using unmap_page_spec [OF assms] by (simp add: same_page_iff)

theorem unmap_page_correct_witness:
  "\<exists>m' st'. map_page sample_vmm 0x1000000000 0x5000 3 sample_frames = (m', st') \<and> translate sample_vmm m' 0x1000000000 = Some (0x5003, 0) \<and>
    translate sample_vmm (unmap_page sample_vmm 0x1000000000 m') 0x1000000000 = None"
proof -
  obtain m st where s: "sample_frames = (m, st)" by fastforce
  obtain m' st' where r: "map_page sample_vmm 0x1000000000 0x5000 3 (m, st) = (m', st')" by fastforce
  note start = sample_start [of "[0x1000, 0x2000, 0x3000]", unfolded s fst_conv]
  obtain fs' where m': "translate sample_vmm m' 0x1000000000 = Some (0x5003, 0)" "small_pages sample_vmm m' 0x1000000000"
    "pmm_inv (hhdm_offset sample_vmm) fs' (m', st')" "vm_inv sample_vmm fs' m'"
    by (rule map_page_spec [OF start(1,2,3) _ r]) (use start(3) in \<open>auto simp: PTE_PRESENT_def same_page_def\<close>)
  show ?thesis using unmap_page_correct [OF m'(3,4,2)] m'(1) r s by auto
qed

text \<open>
  For a buffer that ends below the last cache line of the address space, \<open>phys_flush_cache\<close>
  returns, flushes each line once, and the lines are those from the one that holds the first byte
  to the last one that starts before the end: every byte of the buffer lies in a flushed line.
\<close>
theorem phys_flush_cache_covers:
  assumes "unat addr + unat sz \<le> 2 ^ 64 - 64"
  shows "\<exists>lines. phys_flush_cache addr sz = Some lines \<and> phys_invalidate_cache addr sz = Some lines \<and> distinct lines \<and>
    (\<forall>l \<in> set lines. aligned 6 l \<and> unat l < unat addr + unat sz) \<and>
    (\<forall>x \<in> region addr (unat sz). \<exists>l \<in> set lines. x \<in> region l 64)"
proof -
  let ?p = "align_down 6 addr" and ?stop = "addr + sz"
  have stop: "unat ?stop = unat addr + unat sz" using assms by (simp add: unat_word_ariths)
  have p: "addr AND NOT 63 = ?p" by (simp add: align_down_def mask_eq_exp_minus_1)
  from flush_lines_spec [of ?p ?stop "[]"] assms stop obtain n where
    n: "flush_lines ?p ?stop [] = Some (map (\<lambda>i. ?p + 64 * of_nat i) [0..<n])"
    and b: "\<And>i. i < n \<longleftrightarrow> unat ?p + 64 * i < unat addr + unat sz" by auto
  have line: "unat (?p + 64 * of_nat i) = unat ?p + 64 * i" if "i < n" for i
  proof -
    have lt: "unat ?p + 64 * i < 2 ^ 64" using b [THEN iffD1, OF that] assms by linarith
    have "?p + 64 * of_nat i = of_nat (unat ?p + 64 * i)" by simp
    then show ?thesis using lt by (metis unat_of_nat_64)
  qed
  let ?ls = "map (\<lambda>i. ?p + 64 * of_nat i) [0..<n]"
  have "inj_on (\<lambda>i. ?p + 64 * of_nat i) {0..<n}"
    using line by (intro inj_on_inverseI [where g = "\<lambda>l. (unat l - unat ?p) div 64"]) simp
  then have "distinct ?ls" by (simp add: distinct_map)
  moreover have "\<forall>l \<in> set ?ls. aligned 6 l \<and> unat l < unat addr + unat sz"
    using line b aligned_align_down [of 6 addr] by (auto simp: aligned_def)
  moreover have "\<exists>l \<in> set ?ls. x \<in> region l 64" if x: "x \<in> region addr (unat sz)" for x
  proof -
    have ux: "unat addr \<le> unat x" "unat x < unat addr + unat sz"
      using x assms by (simp_all add: region_inside)
    let ?i = "(unat x - unat ?p) div 64"
    have le: "unat ?p \<le> unat x" using align_down_le [of 6 addr] ux(1) by linarith
    then have lo: "unat ?p + 64 * ?i \<le> unat x" by (simp add: le_diff_conv2 [symmetric])
    have hi: "unat x < unat ?p + 64 * ?i + 64" using le by (simp add: algebra_simps)
    have i: "?i < n" using b lo ux(2) by simp
    then have "x \<in> region (?p + 64 * of_nat ?i) 64"
      using line [OF i] lo hi ux assms by (simp add: in_region_iff unat_sub_if', linarith)
    with i show ?thesis by auto
  qed
  ultimately show ?thesis
    using n unfolding phys_flush_cache_def phys_invalidate_cache_def p by blast
qed

theorem phys_flush_cache_covers_witness:
  "\<exists>lines. phys_flush_cache 0x1030 0x30 = Some lines \<and> (\<exists>l \<in> set lines. 0x105F \<in> region l 64)"
proof -
  have "0x105F \<in> region 0x1030 (unat (0x30 :: u64))" by (simp add: in_region_iff)
  then show ?thesis using phys_flush_cache_covers [of "0x1030" "0x30"] by auto
qed

end
