(* ===== verification/TlsfBits.thy ===== *)
theory TlsfBits
  imports Prelude
begin

text \<open>
  The arithmetic of the two-level segregated-fit heap, \<^verbatim>\<open>mm/heapalloc/tlsf.c\<close>: bit scans, request
  sizes, and the map from a block size to its pair of list indices. The compiled branch of the
  conditional compilation is the one for gcc on x86-64; the portable fallback is modelled as well
  and proved equal to it. The compiler's bit-scan builtins are given their documented meaning.
\<close>

section \<open>Bit scans\<close>

definition builtin_clz :: "u32 \<Rightarrow> int" where
  "builtin_clz w = int (length (takeWhile (\<lambda>i. \<not> bit w i) (rev [0..<32])))"

definition builtin_ffs :: "u32 \<Rightarrow> int" where
  "builtin_ffs w = (if w = 0 then 0 else int (length (takeWhile (\<lambda>i. \<not> bit w i) [0..<32])) + 1)"

definition tlsf_ffs :: "u32 \<Rightarrow> int" where
  "tlsf_ffs word = builtin_ffs word - 1"

definition tlsf_fls :: "u32 \<Rightarrow> int" where
  "tlsf_fls word = (let b = if word \<noteq> 0 then 32 - builtin_clz word else 0 in b - 1)"

text \<open>One line of the fallback: if no bit of the mask is set, shift up and lower the count.\<close>

definition fls_step :: "u32 \<Rightarrow> nat \<Rightarrow> u32 \<times> int \<Rightarrow> u32 \<times> int" where
  "fls_step msk k wb = (case wb of (w, b) \<Rightarrow> if w AND msk = 0 then (push_bit k w, b - int k) else (w, b))"

definition tlsf_fls_generic :: "u32 \<Rightarrow> int" where
  "tlsf_fls_generic word =
     (let b = (if word = 0 then 32 - 1 else 32);
          wb = fls_step 0x80000000 1 (fls_step 0xc0000000 2 (fls_step 0xf0000000 4
                 (fls_step 0xff000000 8 (fls_step 0xffff0000 16 (word, b)))))
      in snd wb)"

definition tlsf_ffs_fallback :: "u32 \<Rightarrow> int" where
  "tlsf_ffs_fallback word = tlsf_fls_generic (word AND (NOT word + 1)) - 1"

definition tlsf_fls_fallback :: "u32 \<Rightarrow> int" where
  "tlsf_fls_fallback word = tlsf_fls_generic word - 1"

definition tlsf_fls_sizet :: "u64 \<Rightarrow> int" where
  "tlsf_fls_sizet sz =
     (let high = (ucast (drop_bit 32 sz) :: u32)
      in if high \<noteq> 0 then 32 + tlsf_fls high else tlsf_fls (ucast sz))"

section \<open>Constants\<close>

definition SL_INDEX_COUNT_LOG2 :: int where "SL_INDEX_COUNT_LOG2 = 5"
definition ALIGN_SIZE_LOG2 :: int where "ALIGN_SIZE_LOG2 = 3"
definition ALIGN_SIZE :: u64 where "ALIGN_SIZE = push_bit (nat ALIGN_SIZE_LOG2) 1"
definition FL_INDEX_MAX :: int where "FL_INDEX_MAX = 32"
definition SL_INDEX_COUNT :: int where "SL_INDEX_COUNT = push_bit (nat SL_INDEX_COUNT_LOG2) 1"
definition FL_INDEX_SHIFT :: int where "FL_INDEX_SHIFT = SL_INDEX_COUNT_LOG2 + ALIGN_SIZE_LOG2"
definition FL_INDEX_COUNT :: int where "FL_INDEX_COUNT = FL_INDEX_MAX - FL_INDEX_SHIFT + 1"
definition SMALL_BLOCK_SIZE :: u64 where "SMALL_BLOCK_SIZE = push_bit (nat FL_INDEX_SHIFT) 1"

definition block_header_size :: u64 where "block_header_size = 32"
definition block_header_overhead :: u64 where "block_header_overhead = 8"
definition block_start_offset :: u64 where "block_start_offset = 8 + 8"
definition block_size_min :: u64 where "block_size_min = block_header_size - 8"
definition block_size_max :: u64 where "block_size_max = push_bit (nat FL_INDEX_MAX) 1"

lemmas tlsf_constants =
  SL_INDEX_COUNT_LOG2_def ALIGN_SIZE_LOG2_def ALIGN_SIZE_def FL_INDEX_MAX_def SL_INDEX_COUNT_def
  FL_INDEX_SHIFT_def FL_INDEX_COUNT_def SMALL_BLOCK_SIZE_def block_header_size_def
  block_header_overhead_def block_start_offset_def block_size_min_def block_size_max_def

section \<open>Sizes and indices\<close>

text \<open>A failed assertion halts the machine: \<open>None\<close>.\<close>

definition tlsf_assert :: "bool \<Rightarrow> unit option" where
  "tlsf_assert b = (if b then Some () else None)"

definition align_up :: "u64 \<Rightarrow> u64 \<Rightarrow> u64 option" where
  "align_up x align =
     Option.bind (tlsf_assert (align AND (align - 1) = 0)) (\<lambda>_. Some ((x + (align - 1)) AND NOT (align - 1)))"

definition align_down_size :: "u64 \<Rightarrow> u64 \<Rightarrow> u64 option" where
  "align_down_size x align =
     Option.bind (tlsf_assert (align AND (align - 1) = 0)) (\<lambda>_. Some (x - (x AND (align - 1))))"

definition align_ptr :: "u64 \<Rightarrow> u64 \<Rightarrow> u64 option" where
  "align_ptr ptr align =
     Option.bind (tlsf_assert (align AND (align - 1) = 0)) (\<lambda>_. Some ((ptr + (align - 1)) AND NOT (align - 1)))"

definition adjust_request_size :: "u64 \<Rightarrow> u64 \<Rightarrow> u64 option" where
  "adjust_request_size sz align =
     (if sz \<noteq> 0 then
        Option.bind (align_up sz align) (\<lambda>al.
          Some (if al < block_size_max then (if al > block_size_min then al else block_size_min) else 0))
      else Some 0)"

text \<open>The small branch divides a number below 256, so truncation and flooring agree.\<close>

definition mapping_insert :: "u64 \<Rightarrow> int \<times> int" where
  "mapping_insert sz =
     (if sz < SMALL_BLOCK_SIZE then
        (0, sint (ucast sz :: i32) div (256 div SL_INDEX_COUNT))
      else
        let fl = tlsf_fls_sizet sz;
            sl = sint ((ucast (drop_bit (nat (fl - SL_INDEX_COUNT_LOG2)) sz) :: i32) XOR push_bit (nat SL_INDEX_COUNT_LOG2) 1)
        in (fl - (FL_INDEX_SHIFT - 1), sl))"

definition mapping_search :: "u64 \<Rightarrow> int \<times> int" where
  "mapping_search sz =
     mapping_insert
       (if sz \<ge> SMALL_BLOCK_SIZE
        then sz + scast ((push_bit (nat (tlsf_fls_sizet sz - SL_INDEX_COUNT_LOG2)) 1 :: i32) - 1)
        else sz)"

section \<open>The bit scans find the lowest and the highest set bit\<close>

lemma takeWhile_upt:
  assumes "n < k" and "P n" and "\<And>i. i < n \<Longrightarrow> \<not> P i"
  shows "length (takeWhile (\<lambda>i. \<not> P i) [0..<k]) = n"
proof -
  have "[0..<k] = [0..<n] @ n # [Suc n..<k]"
    using assms(1) by (metis less_imp_le_nat upt_add_eq_append upt_conv_Cons add_0 le_add_diff_inverse zero_le)
  then show ?thesis using assms by (simp add: takeWhile_append)
qed

lemma takeWhile_rev_upt:
  assumes "n < k" and "P n" and "\<And>i. n < i \<Longrightarrow> i < k \<Longrightarrow> \<not> P i"
  shows "length (takeWhile (\<lambda>i. \<not> P i) (rev [0..<k])) = k - Suc n"
proof -
  have "[0..<k] = [0..<n] @ n # [Suc n..<k]"
    using assms(1) by (metis less_imp_le_nat upt_add_eq_append upt_conv_Cons add_0 le_add_diff_inverse zero_le)
  then show ?thesis using assms by (simp add: takeWhile_append)
qed

text \<open>The top bit of a non-zero word is the power of two below it.\<close>

lemma top_bit:
  fixes w :: "'a::len word"
  assumes "2 ^ n \<le> unat w" and "unat w < 2 ^ Suc n"
  shows "bit w n" and "i > n \<Longrightarrow> \<not> bit w i"
proof -
  have "unat w div 2 ^ n = 1" using assms by (intro div_nat_eqI) auto
  then show "bit w n" by (simp add: bit_iff_odd_unat)
  show "\<not> bit w i" if "i > n"
  proof -
    have "(2 :: nat) ^ Suc n \<le> 2 ^ i" using that by (intro power_increasing) auto
    then have "unat w div 2 ^ i = 0" using assms by simp
    then show ?thesis by (simp add: bit_iff_odd_unat)
  qed
qed

lemma log_ex:
  fixes w :: "'a::len word"
  assumes "w \<noteq> 0"
  obtains n where "2 ^ n \<le> unat w" and "unat w < 2 ^ Suc n"
proof -
  have "1 \<le> unat w" using assms by (simp add: unat_gt_0 Suc_le_eq)
  then obtain n where "2 ^ n \<le> unat w" "unat w < 2 ^ (n + 1)" using ex_power_ivl1 [of 2] by blast
  then show ?thesis by (intro that) auto
qed

lemma log_unique:
  assumes "2 ^ n \<le> x" and "x < 2 ^ Suc n" and "2 ^ k \<le> x" and "x < (2 :: nat) ^ Suc k"
  shows "n = k"
proof -
  have "(2 :: nat) ^ n < 2 ^ Suc k" "(2 :: nat) ^ k < 2 ^ Suc n" using assms by linarith+
  then show ?thesis by (simp add: power_strict_increasing_iff del: power_Suc)
qed

lemma tlsf_fls_eq:
  assumes "2 ^ n \<le> unat w" and "unat w < 2 ^ Suc n"
  shows "tlsf_fls w = int n"
proof -
  have "unat w < 2 ^ 32" using unsigned_less [of w] by simp
  then have "(2 :: nat) ^ n < 2 ^ 32" using assms(1) by linarith
  then have n: "n < 32" by (rule power_less_imp_less_exp [rotated]) simp
  have "length (takeWhile (\<lambda>i. \<not> bit w i) (rev [0..<32])) = 32 - Suc n"
    using n top_bit [OF assms] by (intro takeWhile_rev_upt) auto
  moreover have "w \<noteq> 0" using assms(1) by (metis unsigned_0 not_one_le_zero one_le_numeral one_le_power order_trans)
  ultimately show ?thesis using n by (simp add: tlsf_fls_def builtin_clz_def)
qed

lemma tlsf_fls_0 [simp]: "tlsf_fls 0 = -1"
  by (simp add: tlsf_fls_def)

lemma tlsf_fls_sizet_eq:
  assumes "2 ^ n \<le> unat s" and "unat s < 2 ^ Suc n"
  shows "tlsf_fls_sizet s = int n"
proof -
  have hi: "unat (ucast (drop_bit 32 s) :: u32) = unat s div 2 ^ 32"
  proof -
    have lt: "unat s div 2 ^ 32 < 2 ^ 32" using unat_lt_2p64 [of s] by (simp add: less_mult_imp_div_less)
    have d: "unat (drop_bit 32 s) = unat s div 2 ^ 32"
      by (simp only: unsigned_drop_bit_eq) (simp add: drop_bit_nat_def take_bit_nat_eq_self)
    show ?thesis unfolding unsigned_ucast_eq d using lt by (simp add: take_bit_nat_eq_self)
  qed
  show ?thesis
  proof (cases "n < 32")
    case True
    then have "(2 :: nat) ^ Suc n \<le> 2 ^ 32" by (intro power_increasing) auto
    then have lt: "unat s < 2 ^ 32" using assms(2) by linarith
    then have "(ucast (drop_bit 32 s) :: u32) = 0" using hi by (simp add: word_unat_eq_iff)
    moreover have "unat (ucast s :: u32) = unat s"
      using lt by (simp add: unsigned_ucast_eq take_bit_nat_eq_self)
    ultimately show ?thesis using assms by (simp add: tlsf_fls_sizet_def tlsf_fls_eq)
  next
    case False
    then obtain k where n: "n = 32 + k" using le_Suc_ex not_less by blast
    have "2 ^ k \<le> unat s div 2 ^ 32" using assms(1) by (simp add: n power_add less_eq_div_iff_mult_less_eq mult.commute)
    moreover have "unat s div 2 ^ 32 < 2 ^ Suc k"
      using assms(2) by (simp add: n power_add less_mult_imp_div_less mult.commute)
    ultimately have f: "tlsf_fls (ucast (drop_bit 32 s)) = int k" using hi by (simp add: tlsf_fls_eq)
    then have "(ucast (drop_bit 32 s) :: u32) \<noteq> 0" by (metis of_nat_less_0_iff tlsf_fls_0 neg_0_less_iff_less verit_comp_simplify1(1) zero_less_one neg_less_0_iff_less)
    with f n show ?thesis by (simp add: tlsf_fls_sizet_def)
  qed
qed

text \<open>The lowest set bit.\<close>

lemma tlsf_ffs_eq:
  assumes "bit w n" and "\<And>i. i < n \<Longrightarrow> \<not> bit w i"
  shows "tlsf_ffs w = int n"
proof -
  have n: "n < 32" using bit_imp_le_length [OF assms(1)] by simp
  have "length (takeWhile (\<lambda>i. \<not> bit w i) [0..<32]) = n" using n assms by (intro takeWhile_upt) auto
  moreover have "w \<noteq> 0" using assms(1) by auto
  ultimately show ?thesis by (simp add: tlsf_ffs_def builtin_ffs_def)
qed

lemma low_bit_ex:
  fixes w :: "'a::len word"
  assumes "w \<noteq> 0"
  obtains n where "bit w n" and "\<And>i. i < n \<Longrightarrow> \<not> bit w i"
proof -
  have "\<exists>n. bit w n" using assms by (auto simp: bit_eq_iff)
  then have "bit w (LEAST n. bit w n)" by (rule LeastI_ex)
  moreover have "\<not> bit w i" if "i < (LEAST n. bit w n)" for i using that by (rule not_less_Least)
  ultimately show ?thesis by (rule that)
qed

section \<open>The portable fallback\<close>

lemma high_mask_zero:
  fixes w :: u32
  assumes "w AND NOT (mask j) = 0" shows "unat w < 2 ^ j"
proof -
  have "w = take_bit j w"
  proof (rule bit_word_eqI)
    fix i assume "i < LENGTH(32)"
    have "bit (w AND NOT (mask j)) i = bit 0 i" using assms by simp
    then show "bit w i = bit (take_bit j w) i"
      using \<open>i < LENGTH(32)\<close> by (auto simp: bit_simps)
  qed
  then have "unat w = take_bit j (unat w)" by (metis unsigned_take_bit_eq)
  then show ?thesis by (metis take_bit_nat_less_exp)
qed

lemma high_mask_nonzero:
  fixes w :: u32
  assumes "w AND NOT (mask j) \<noteq> 0" shows "2 ^ j \<le> unat w"
proof (rule ccontr)
  assume "\<not> 2 ^ j \<le> unat w"
  then have "take_bit j w = w"
    by (metis (no_types) linorder_not_le take_bit_nat_eq_self unsigned_take_bit_eq word_unat_eq_iff)
  then have "w AND NOT (mask j) = take_bit j w AND NOT (mask j)" by simp
  also have "\<dots> = 0" by (rule bit_word_eqI) (auto simp: bit_simps)
  finally show False using assms by simp
qed

lemma fls_step_spec:
  assumes "2 ^ (32 - 2 * k) \<le> unat w" and "2 * k \<le> 32" and "msk = NOT (mask (32 - k))"
  shows "\<exists>j. fls_step msk k (w, b) = (fst (fls_step msk k (w, b)), b - int j) \<and>
    unat (fst (fls_step msk k (w, b))) = unat w * 2 ^ j \<and> 2 ^ (32 - k) \<le> unat (fst (fls_step msk k (w, b)))"
proof (cases "w AND msk = 0")
  case True
  then have lt: "unat w < 2 ^ (32 - k)" using assms(3) high_mask_zero by blast
  then have "unat w * 2 ^ k < 2 ^ (32 - k) * 2 ^ k" by simp
  also have "\<dots> = 2 ^ 32" using assms(2) by (simp flip: power_add)
  finally have u: "unat (push_bit k w) = unat w * 2 ^ k"
    by (simp add: unsigned_push_bit_eq push_bit_nat_def take_bit_nat_eq_self)
  have "(2 :: nat) ^ (32 - k) = 2 ^ (32 - 2 * k) * 2 ^ k" using assms(2) by (simp flip: power_add)
  then have "2 ^ (32 - k) \<le> unat w * 2 ^ k" using assms(1) by simp
  with True u show ?thesis by (intro exI [of _ k]) (simp add: fls_step_def)
next
  case False
  then have "2 ^ (32 - k) \<le> unat w" using assms(3) high_mask_nonzero by blast
  with False show ?thesis by (intro exI [of _ 0]) (simp add: fls_step_def)
qed

lemma tlsf_fls_generic_eq:
  assumes "2 ^ n \<le> unat w" and "unat w < 2 ^ Suc n"
  shows "tlsf_fls_generic w = int n + 1"
proof -
  have w0: "w \<noteq> 0" using assms(1) by (metis unsigned_0 not_one_le_zero one_le_numeral one_le_power order_trans)
  have masks: "0xffff0000 = (NOT (mask (32 - 16)) :: u32)" "0xff000000 = (NOT (mask (32 - 8)) :: u32)"
    "0xf0000000 = (NOT (mask (32 - 4)) :: u32)" "0xc0000000 = (NOT (mask (32 - 2)) :: u32)"
    "0x80000000 = (NOT (mask (32 - 1)) :: u32)"
    by (simp_all add: mask_eq_exp_minus_1)
  let ?s1 = "fls_step 0xffff0000 16 (w, 32)" let ?s2 = "fls_step 0xff000000 8 ?s1"
  let ?s3 = "fls_step 0xf0000000 4 ?s2" let ?s4 = "fls_step 0xc0000000 2 ?s3"
  let ?s5 = "fls_step 0x80000000 1 ?s4"
  have "2 ^ (32 - 2 * 16) \<le> unat w" using w0 by (simp add: Suc_le_eq unat_gt_0)
  from fls_step_spec [OF this _ masks(1), of 32] obtain j1 where
    j1: "snd ?s1 = 32 - int j1" "unat (fst ?s1) = unat w * 2 ^ j1" "2 ^ 16 \<le> unat (fst ?s1)"
    by (auto simp: prod_eq_iff)
  from fls_step_spec [of 8 "fst ?s1", OF _ _ masks(2), of "snd ?s1"] j1(3) obtain j2 where
    j2: "snd ?s2 = snd ?s1 - int j2" "unat (fst ?s2) = unat (fst ?s1) * 2 ^ j2" "2 ^ 24 \<le> unat (fst ?s2)"
    by (auto simp: prod_eq_iff)
  from fls_step_spec [of 4 "fst ?s2", OF _ _ masks(3), of "snd ?s2"] j2(3) obtain j3 where
    j3: "snd ?s3 = snd ?s2 - int j3" "unat (fst ?s3) = unat (fst ?s2) * 2 ^ j3" "2 ^ 28 \<le> unat (fst ?s3)"
    by (auto simp: prod_eq_iff)
  from fls_step_spec [of 2 "fst ?s3", OF _ _ masks(4), of "snd ?s3"] j3(3) obtain j4 where
    j4: "snd ?s4 = snd ?s3 - int j4" "unat (fst ?s4) = unat (fst ?s3) * 2 ^ j4" "2 ^ 30 \<le> unat (fst ?s4)"
    by (auto simp: prod_eq_iff)
  from fls_step_spec [of 1 "fst ?s4", OF _ _ masks(5), of "snd ?s4"] j4(3) obtain j5 where
    j5: "snd ?s5 = snd ?s4 - int j5" "unat (fst ?s5) = unat (fst ?s4) * 2 ^ j5" "2 ^ 31 \<le> unat (fst ?s5)"
    by (auto simp: prod_eq_iff)
  define j where "j = j1 + j2 + j3 + j4 + j5"
  have u: "unat (fst ?s5) = unat w * 2 ^ j"
    by (simp only: j1(2) j2(2) j3(2) j4(2) j5(2) j_def power_add mult.assoc)
  have b: "snd ?s5 = 32 - int j" using j1(1) j2(1) j3(1) j4(1) j5(1) by (simp add: j_def)
  have "unat (fst ?s5) < 2 ^ 32" using unsigned_less [of "fst ?s5"] by simp
  then have "2 ^ (n + j) \<le> unat (fst ?s5)" "unat (fst ?s5) < 2 ^ Suc (n + j)" "unat (fst ?s5) < 2 ^ Suc 31"
    unfolding u using assms by (simp_all add: power_add)
  then have "n + j = 31" using j5(3) by (intro log_unique)
  then show ?thesis using w0 b by (simp add: tlsf_fls_generic_def)
qed

lemma isolate_low_bit:
  fixes w :: u32
  assumes "bit w n" and "\<And>i. i < n \<Longrightarrow> \<not> bit w i"
  shows "w AND (NOT w + 1) = push_bit n 1"
proof -
  define v where "v = drop_bit n w"
  have w: "w = push_bit n v"
  proof (rule bit_word_eqI)
    fix i assume "i < LENGTH(32)"
    then show "bit w i = bit (push_bit n v) i" unfolding v_def
      using assms(2) [of i] by (cases "i < n") (auto simp: bit_simps)
  qed
  have "bit v 0" using assms(1) by (simp add: v_def bit_drop_bit_eq)
  then have "- v = NOT v OR 1"
  proof -
    have "bit (NOT v + 1) i = bit (NOT v OR 1) i" for i
    proof -
      have "NOT v AND 1 = 0" using \<open>bit v 0\<close> by (intro bit_word_eqI) (auto simp: bit_simps)
      then have "NOT v + 1 = NOT v OR 1" by (rule disjunctive_add_eq_or)
      then show ?thesis by simp
    qed
    then show ?thesis by (simp add: bit_eq_iff minus_eq_not_plus_1)
  qed
  then have "v AND - v = 1"
    using \<open>bit v 0\<close> by (intro bit_word_eqI) (auto simp: bit_simps)
  moreover have "NOT w + 1 = push_bit n (- v)"
    by (simp add: w minus_eq_not_plus_1 [symmetric] push_bit_eq_mult)
  ultimately show ?thesis by (simp add: w flip: push_bit_and)
qed

section \<open>Size classes\<close>

text \<open>The smallest size in the list with indices \<open>fl\<close> and \<open>sl\<close>.\<close>

definition class_min :: "nat \<Rightarrow> nat \<Rightarrow> nat" where
  "class_min fl sl = (if fl = 0 then 8 * sl else 2 ^ (fl + 2) * (32 + sl))"

lemma mapping_insert_small:
  "unat s < 256 \<Longrightarrow> mapping_insert s = (0, int (unat s div 8))"
  by (simp add: mapping_insert_def tlsf_constants word_less_nat_alt zdiv_int sint_eq_unat unat_ucast_32)

lemma xor_32:
  assumes "32 \<le> unat x" and "unat x < 64"
  shows "sint ((x :: i32) XOR 32) = int (unat x - 32)"
proof -
  have all: "\<forall>k \<in> set [32..<64]. sint ((word_of_nat k :: i32) XOR 32) = int (k - 32)" by code_simp
  have "unat x \<in> set [32..<64]" unfolding set_upt atLeastLessThan_iff using assms by simp
  from bspec [OF all this] show ?thesis by simp
qed

lemma mapping_insert_large:
  assumes "2 ^ n \<le> unat s" and "unat s < 2 ^ Suc n" and "8 \<le> n"
  shows "mapping_insert s = (int (n - 7), int (unat s div 2 ^ (n - 5) - 32))"
proof -
  have "(2 :: nat) ^ 8 \<le> 2 ^ n" using assms(3) by (intro power_increasing) auto
  then have big: "\<not> s < SMALL_BLOCK_SIZE" using assms(1) by (simp add: tlsf_constants word_less_nat_alt)
  let ?q = "unat s div 2 ^ (n - 5)"
  have p: "(2 :: nat) ^ n = 32 * 2 ^ (n - 5)" "(2 :: nat) ^ Suc n = 64 * 2 ^ (n - 5)"
    using assms(3) power_add [of "2 :: nat" 5 "n - 5"] by simp_all
  have q: "32 \<le> ?q" "?q < 64"
    using assms(1,2) unfolding p by (simp_all add: less_eq_div_iff_mult_less_eq less_mult_imp_div_less)
  have "unat (drop_bit (n - 5) s) = ?q"
    by (simp only: unsigned_drop_bit_eq) (simp add: drop_bit_nat_def take_bit_nat_eq_self)
  then have u: "unat (ucast (drop_bit (n - 5) s) :: i32) = ?q" using q unat_ucast_32 by simp
  have "nat (int n - 5) = n - 5" by simp
  with big tlsf_fls_sizet_eq [OF assms(1,2)] xor_32 [of "ucast (drop_bit (n - 5) s)"] q u assms(3)
  show ?thesis by (simp add: mapping_insert_def tlsf_constants Let_def)
qed

lemma mapping_insert_class:
  assumes "mapping_insert t = (f, l)"
  shows "0 \<le> f" and "0 \<le> l" and "l < 32" and "class_min (nat f) (nat l) \<le> unat t"
    and "f \<le> 57" and "unat t < 2 ^ (nat f + 8)"
proof -
  have "0 \<le> f \<and> 0 \<le> l \<and> l < 32 \<and> class_min (nat f) (nat l) \<le> unat t \<and> f \<le> 57 \<and> unat t < 2 ^ (nat f + 8)"
  proof (cases "unat t < 256")
    case True
    with assms mapping_insert_small [of t] show ?thesis by (auto simp: class_min_def)
  next
    case False
    then have "t \<noteq> 0" by auto
    then obtain n where n: "2 ^ n \<le> unat t" "unat t < 2 ^ Suc n" by (rule log_ex)
    have "(2 :: nat) ^ 8 < 2 ^ Suc n" using False n(2) by simp
    then have "8 < Suc n" by (rule power_less_imp_less_exp [rotated]) simp
    then have n8: "8 \<le> n" by simp
    have "(2 :: nat) ^ n < 2 ^ 64" using n(1) unat_lt_2p64 [of t] by (simp del: unat_lt_2p64)
    then have n64: "n < 64" by (rule power_less_imp_less_exp [rotated]) simp
    let ?q = "unat t div 2 ^ (n - 5)"
    have p: "(2 :: nat) ^ n = 32 * 2 ^ (n - 5)" "(2 :: nat) ^ Suc n = 64 * 2 ^ (n - 5)"
      using n8 power_add [of "2 :: nat" 5 "n - 5"] by simp_all
    have q: "32 \<le> ?q" "?q < 64"
      using n unfolding p by (simp_all add: less_eq_div_iff_mult_less_eq less_mult_imp_div_less)
    have fl: "f = int (n - 7)" "l = int (?q - 32)" using mapping_insert_large [OF n n8] assms by simp_all
    have e: "n - 7 + 2 = n - 5" "n - 7 + 8 = Suc n" using n8 by simp_all
    have "class_min (n - 7) (?q - 32) = 2 ^ (n - 5) * ?q" using q n8 by (simp add: class_min_def e del: power_Suc)
    also have "\<dots> \<le> unat t" by simp
    finally show ?thesis unfolding fl nat_int e(2) using q n(2) n64 by auto
  qed
  then show "0 \<le> f" "0 \<le> l" "l < 32" "class_min (nat f) (nat l) \<le> unat t" "f \<le> 57" "unat t < 2 ^ (nat f + 8)"
    by blast+
qed

text \<open>A list that comes later in the search order holds larger blocks.\<close>

lemma class_min_mono:
  assumes "f < f' \<or> f = f' \<and> l \<le> l'" and "l < 32"
  shows "class_min f l \<le> class_min f' l'"
proof (cases "f = f'")
  case True
  with assms show ?thesis by (auto simp: class_min_def)
next
  case False
  then have ff: "f < f'" using assms(1) by auto
  have "class_min f l \<le> 2 ^ (f + 8)"
  proof -
    have "class_min f l \<le> 2 ^ (f + 2) * 64" using assms(2) by (simp add: class_min_def)
    then show ?thesis by (simp add: power_add)
  qed
  also have "\<dots> \<le> 2 ^ (f' + 7)" using ff by (intro power_increasing) auto
  also have "\<dots> \<le> class_min f' l'" using ff by (simp add: class_min_def power_add)
  finally show ?thesis .
qed

lemma mapping_search_class:
  assumes "unat s < 2 ^ 32" and "8 dvd unat s" and "mapping_search s = (f, l)"
  shows "unat s \<le> class_min (nat f) (nat l)"
proof (cases "unat s < 256")
  case True
  with assms mapping_insert_small [of s] show ?thesis
    by (auto simp: mapping_search_def tlsf_constants word_le_nat_alt class_min_def)
next
  case False
  then have "s \<noteq> 0" by auto
  then obtain n where n: "2 ^ n \<le> unat s" "unat s < 2 ^ Suc n" by (rule log_ex)
  have "(2 :: nat) ^ 8 < 2 ^ Suc n" using False n(2) by simp
  then have "8 < Suc n" by (rule power_less_imp_less_exp [rotated]) simp
  then have n8: "8 \<le> n" by simp
  have "(2 :: nat) ^ n < 2 ^ 32" using n(1) assms(1) by linarith
  then have n32: "n < 32" by (rule power_less_imp_less_exp [rotated]) simp
  let ?r = "2 ^ (n - 5) :: nat" and ?t = "s + scast ((push_bit (n - 5) 1 :: i32) - 1)"
  have r: "?r < 2 ^ 27" using n32 by (intro power_strict_increasing) auto
  have "(push_bit (n - 5) 1 :: i32) - 1 = mask (n - 5)" by (simp add: mask_eq_exp_minus_1 push_bit_eq_mult)
  moreover have "scast (mask (n - 5) :: i32) = (mask (n - 5) :: u64)"
    using n32 by (intro bit_word_eqI) (auto simp: bit_simps)
  moreover have "unat (mask (n - 5) :: u64) = ?r - 1"
  proof -
    have "?r - 1 < 2 ^ 64" using r by simp
    moreover have "(mask (n - 5) :: u64) = of_nat (?r - 1)" by (simp add: mask_eq_exp_minus_1)
    ultimately show ?thesis by (simp only: unat_of_nat_64)
  qed
  ultimately have u: "unat ?t = unat s + (?r - 1)"
    using assms(1) r by (simp add: unat_word_ariths)
  have "nat (int n - 5) = n - 5" by simp
  then have ms: "mapping_insert ?t = (f, l)"
    using assms(3) False tlsf_fls_sizet_eq [OF n] by (simp add: mapping_search_def tlsf_constants word_le_nat_alt)
  have p: "(2 :: nat) ^ n = 32 * ?r" "(2 :: nat) ^ Suc n = 64 * ?r" "?r \<ge> 1"
    using n8 power_add [of "2 :: nat" 5 "n - 5"] by simp_all
  show ?thesis
  proof (cases "unat ?t < 2 ^ Suc n")
    case True
    let ?q = "unat ?t div ?r"
    have "2 ^ n \<le> unat ?t" using n(1) u by linarith
    from mapping_insert_large [OF this True n8] ms have fl: "f = int (n - 7)" "l = int (?q - 32)" by simp_all
    have "32 \<le> ?q" using \<open>2 ^ n \<le> unat ?t\<close> unfolding p by (simp add: less_eq_div_iff_mult_less_eq)
    moreover have "n - 7 + 2 = n - 5" using n8 by simp
    ultimately have c: "class_min (nat f) (nat l) = ?r * ?q" unfolding fl nat_int using n8 by (simp add: class_min_def)
    have "unat ?t < ?r * ?q + ?r" using mod_less_divisor [of ?r "unat ?t"] mult_div_mod_eq [of ?r "unat ?t"] p(3) by linarith
    then show ?thesis using c u p(3) by linarith
  next
    case False
    let ?q = "unat ?t div 2 ^ (Suc n - 5)"
    have d: "Suc n - 5 = Suc (n - 5)" using n8 by simp
    have "unat ?t < 2 ^ Suc (Suc n)" using u n(2) p by simp
    from mapping_insert_large [OF _ this] False n8 ms have fl: "f = int (n - 6)" "l = int (?q - 32)" by simp_all
    have q: "32 \<le> ?q" using False unfolding d p by (simp add: less_eq_div_iff_mult_less_eq)
    moreover have "n - 6 + 2 = Suc (n - 5)" using n8 by simp
    ultimately have "class_min (nat f) (nat l) = 2 ^ Suc (n - 5) * ?q"
      unfolding fl nat_int using n8 d by (simp add: class_min_def del: power_Suc)
    also have "\<dots> \<ge> 2 ^ Suc (n - 5) * 32" using q by (intro mult_left_mono) auto
    finally show ?thesis using n(2) unfolding p(2) by simp
  qed
qed

section \<open>Request sizes\<close>

lemma align_up_8: "align_up s ALIGN_SIZE = Some (align_down 3 (s + 7))"
  by (simp add: align_up_def tlsf_assert_def tlsf_constants align_down_def mask_eq_exp_minus_1)

lemma unat_round_8:
  assumes "unat s + 7 < 2 ^ 64"
  shows "unat (align_down 3 (s + 7)) = (unat s + 7) div 8 * 8"
proof -
  have "unat (s + 7) = unat s + 7" using assms by (simp add: unat_word_ariths)
  then show ?thesis by (simp add: unat_align_down)
qed

section \<open>Properties\<close>

text \<open>
  C11. Good fit: a block whose list comes at or after the list that \<open>mapping_search\<close> names for an
  aligned request, in the order the search visits lists, is at least as large as the request.
\<close>
theorem mapping_search_good_fit:
  assumes "unat s < 2 ^ 32" and "8 dvd unat s" and "mapping_search s = (f, l)"
    and "mapping_insert t = (f', l')" and "f < f' \<or> f = f' \<and> l \<le> l'"
  shows "s \<le> t"
proof -
  note search = assms(3) [unfolded mapping_search_def] and c = mapping_insert_class
  have "unat s \<le> class_min (nat f) (nat l)" using assms(1-3) by (rule mapping_search_class)
  also have "\<dots> \<le> class_min (nat f') (nat l')"
    using assms(5) c(1-3) [OF search] c(1-3) [OF assms(4)] by (intro class_min_mono) auto
  also have "\<dots> \<le> unat t" using assms(4) by (rule c(4))
  finally show ?thesis by (simp add: word_le_nat_alt)
qed

theorem mapping_search_good_fit_witness:
  "(1000 :: u64) \<le> 1024 \<and> mapping_search 1000 = (2, 31) \<and> mapping_insert 1024 = (3, 0)"
proof -
  have "mapping_search 1000 = (2, 31)" "mapping_insert 1024 = (3, 0)" by code_simp+
  then show ?thesis using mapping_search_good_fit [of 1000 2 31 1024 3 0] by simp
qed

text \<open>
  C39. \<open>mapping_insert\<close> stays inside the control structure's arrays for every block size below
  \<open>block_size_max\<close>, and one step beyond the first-level array at \<open>block_size_max\<close> itself, which
  \<open>tlsf_add_pool\<close> admits.
\<close>
theorem mapping_insert_bounds:
  "(\<forall>s. s < block_size_max \<longrightarrow> (case mapping_insert s of (f, l) \<Rightarrow>
      0 \<le> f \<and> f < FL_INDEX_COUNT \<and> 0 \<le> l \<and> l < SL_INDEX_COUNT)) \<and>
   mapping_insert block_size_max = (FL_INDEX_COUNT, 0)"
proof (intro conjI allI impI)
  fix s assume "s < block_size_max"
  then have s: "unat s < 2 ^ 32" by (simp add: tlsf_constants word_less_nat_alt)
  obtain f l where fl: "mapping_insert s = (f, l)" by (cases "mapping_insert s")
  note c = mapping_insert_class [OF fl]
  have "f < 25"
  proof (rule ccontr)
    assume "\<not> f < 25"
    then have "25 \<le> nat f" by simp
    then have "(2 :: nat) ^ 32 \<le> 2 ^ (nat f + 7)" by (intro power_increasing) auto
    also have "\<dots> \<le> class_min (nat f) (nat l)" using \<open>25 \<le> nat f\<close> by (simp add: class_min_def power_add)
    finally show False using c(4) s by simp
  qed
  with c show "case mapping_insert s of (f, l) \<Rightarrow> 0 \<le> f \<and> f < FL_INDEX_COUNT \<and> 0 \<le> l \<and> l < SL_INDEX_COUNT"
    by (simp add: fl tlsf_constants)
next
  show "mapping_insert block_size_max = (FL_INDEX_COUNT, 0)" by code_simp
qed

theorem mapping_insert_bounds_witness:
  "case mapping_insert 4096 of (f, l) \<Rightarrow> 0 \<le> f \<and> f < FL_INDEX_COUNT \<and> 0 \<le> l \<and> l < SL_INDEX_COUNT"
proof -
  have "(4096 :: u64) < block_size_max" by (simp add: tlsf_constants)
  from mp [OF spec [OF conjunct1 [OF mapping_insert_bounds], of 4096] this] show ?thesis .
qed

text \<open>C40. The portable bit scans compute what the compiler's builtins compute, on every word.\<close>
theorem bit_scan_fallback_equivalent:
  "tlsf_fls_fallback w = tlsf_fls w \<and> tlsf_ffs_fallback w = tlsf_ffs w"
proof (cases "w = 0")
  case True
  have "tlsf_fls_generic 0 = 0" by code_simp
  with True show ?thesis by (simp add: tlsf_fls_fallback_def tlsf_ffs_fallback_def tlsf_ffs_def builtin_ffs_def)
next
  case False
  then obtain n where n: "2 ^ n \<le> unat w" "unat w < 2 ^ Suc n" by (rule log_ex)
  from False obtain k where k: "bit w k" "\<And>i. i < k \<Longrightarrow> \<not> bit w i" by (rule low_bit_ex) blast
  have "k < 32" using bit_imp_le_length [OF k(1)] by simp
  then have "(2 :: nat) ^ k < 2 ^ 32" by (intro power_strict_increasing) auto
  then have "unat (push_bit k 1 :: u32) = 2 ^ k"
    using \<open>k < 32\<close> by (simp add: unsigned_push_bit_eq push_bit_nat_def take_bit_nat_eq_self del: push_bit_of_1)
  then have "tlsf_fls_generic (push_bit k 1) = int k + 1" by (intro tlsf_fls_generic_eq) simp_all
  then show ?thesis
    using n k isolate_low_bit [OF k] tlsf_fls_eq [OF n] tlsf_fls_generic_eq [OF n] tlsf_ffs_eq [OF k]
    by (simp add: tlsf_fls_fallback_def tlsf_ffs_fallback_def)
qed

text \<open>
  C14. For a request that does not wrap when rounded up, \<open>adjust_request_size\<close> gives 0 exactly when
  the request is 0 or rounds up to \<open>block_size_max\<close> or more, and otherwise the least multiple of 8
  that holds the request and the minimum block; the largest request of all wraps to 0 and is
  granted the minimum block.
\<close>
theorem adjust_request_size_correct:
  "(\<forall>s. unat s + 7 < 2 ^ 64 \<longrightarrow>
      adjust_request_size s ALIGN_SIZE =
        Some (if s = 0 \<or> 2 ^ 32 \<le> (unat s + 7) div 8 * 8 then 0
              else of_nat (max 24 ((unat s + 7) div 8 * 8)))) \<and>
   adjust_request_size (- 1) ALIGN_SIZE = Some 24"
proof (intro conjI allI impI)
  fix s :: u64 assume s: "unat s + 7 < 2 ^ 64"
  note u = unat_round_8 [OF s]
  then have a: "align_down 3 (s + 7) = of_nat ((unat s + 7) div 8 * 8)" unfolding u [symmetric] by simp
  show "adjust_request_size s ALIGN_SIZE = Some (if s = 0 \<or> 2 ^ 32 \<le> (unat s + 7) div 8 * 8 then 0
              else of_nat (max 24 ((unat s + 7) div 8 * 8)))"
    unfolding adjust_request_size_def align_up_8 using u a
    by (auto simp: tlsf_constants word_less_nat_alt max_def)
next
  show "adjust_request_size (- 1) ALIGN_SIZE = Some 24" by code_simp
qed

theorem adjust_request_size_correct_witness:
  "adjust_request_size 100 ALIGN_SIZE = Some 104"
proof -
  have "unat (100 :: u64) + 7 < 2 ^ 64" by simp
  with adjust_request_size_correct have "adjust_request_size 100 ALIGN_SIZE =
    Some (if (100 :: u64) = 0 \<or> 2 ^ 32 \<le> (unat (100 :: u64) + 7) div 8 * 8 then 0
          else of_nat (max 24 ((unat (100 :: u64) + 7) div 8 * 8)))" by blast
  then show ?thesis by simp
qed

end
