(* ===== verification/Tlsf.thy ===== *)
theory Tlsf
  imports CString TlsfBits "HOL-Library.Monad_Syntax"
begin

text \<open>
  The kernel heap, \<^verbatim>\<open>mm/heapalloc/tlsf.c\<close>, over byte memory: block headers and the control structure
  are read and written at the offsets the C layout gives them, and the functions return \<open>None\<close>
  where an assertion of the code fails (the machine halts) or a walk does not end. Messages to the
  console are left out.
\<close>

section \<open>Layout\<close>

text \<open>\<open>block_header_t\<close>: four words. The size field keeps the two status bits.\<close>

definition prev_phys_block :: "mem \<Rightarrow> u64 \<Rightarrow> u64" where "prev_phys_block m b = read64 m b"
definition size_field :: "mem \<Rightarrow> u64 \<Rightarrow> u64" where "size_field m b = read64 m (b + 8)"
definition next_free :: "mem \<Rightarrow> u64 \<Rightarrow> u64" where "next_free m b = read64 m (b + 16)"
definition prev_free :: "mem \<Rightarrow> u64 \<Rightarrow> u64" where "prev_free m b = read64 m (b + 24)"

definition set_prev_phys_block :: "u64 \<Rightarrow> u64 \<Rightarrow> mem \<Rightarrow> mem" where "set_prev_phys_block b v m = write64 m b v"
definition set_size_field :: "u64 \<Rightarrow> u64 \<Rightarrow> mem \<Rightarrow> mem" where "set_size_field b v m = write64 m (b + 8) v"
definition set_next_free :: "u64 \<Rightarrow> u64 \<Rightarrow> mem \<Rightarrow> mem" where "set_next_free b v m = write64 m (b + 16) v"
definition set_prev_free :: "u64 \<Rightarrow> u64 \<Rightarrow> mem \<Rightarrow> mem" where "set_prev_free b v m = write64 m (b + 24) v"

text \<open>\<open>control_t\<close>: the null block, the two bitmaps, and 25 rows of 32 list heads.\<close>

definition block_null :: "u64 \<Rightarrow> u64" where "block_null c = c"
definition fl_bitmap :: "mem \<Rightarrow> u64 \<Rightarrow> u32" where "fl_bitmap m c = read32 m (c + 32)"
definition sl_bitmap :: "mem \<Rightarrow> u64 \<Rightarrow> int \<Rightarrow> u32" where "sl_bitmap m c fl = read32 m (c + 36 + of_int (4 * fl))"
definition head_addr :: "u64 \<Rightarrow> int \<Rightarrow> int \<Rightarrow> u64" where "head_addr c fl sl = c + 136 + of_int (8 * (32 * fl + sl))"
definition blocks :: "mem \<Rightarrow> u64 \<Rightarrow> int \<Rightarrow> int \<Rightarrow> u64" where "blocks m c fl sl = read64 m (head_addr c fl sl)"

definition set_fl_bitmap :: "u64 \<Rightarrow> u32 \<Rightarrow> mem \<Rightarrow> mem" where "set_fl_bitmap c v m = write32 m (c + 32) v"
definition set_sl_bitmap :: "u64 \<Rightarrow> int \<Rightarrow> u32 \<Rightarrow> mem \<Rightarrow> mem" where
  "set_sl_bitmap c fl v m = write32 m (c + 36 + of_int (4 * fl)) v"
definition set_blocks :: "u64 \<Rightarrow> int \<Rightarrow> int \<Rightarrow> u64 \<Rightarrow> mem \<Rightarrow> mem" where
  "set_blocks c fl sl v m = write64 m (head_addr c fl sl) v"

section \<open>Block operations\<close>

definition block_header_free_bit :: u64 where "block_header_free_bit = push_bit 0 1"
definition block_header_prev_free_bit :: u64 where "block_header_prev_free_bit = push_bit 1 1"

definition block_size :: "mem \<Rightarrow> u64 \<Rightarrow> u64" where
  "block_size m b = size_field m b AND NOT (block_header_free_bit OR block_header_prev_free_bit)"

definition block_set_size :: "u64 \<Rightarrow> u64 \<Rightarrow> mem \<Rightarrow> mem" where
  "block_set_size b sz m =
     set_size_field b (sz OR (size_field m b AND (block_header_free_bit OR block_header_prev_free_bit))) m"

definition block_is_last :: "mem \<Rightarrow> u64 \<Rightarrow> bool" where
  "block_is_last m b \<longleftrightarrow> block_size m b = 0"

definition block_is_free :: "mem \<Rightarrow> u64 \<Rightarrow> bool" where
  "block_is_free m b \<longleftrightarrow> size_field m b AND block_header_free_bit \<noteq> 0"

definition block_set_free :: "u64 \<Rightarrow> mem \<Rightarrow> mem" where
  "block_set_free b m = set_size_field b (size_field m b OR block_header_free_bit) m"

definition block_set_used :: "u64 \<Rightarrow> mem \<Rightarrow> mem" where
  "block_set_used b m = set_size_field b (size_field m b AND NOT block_header_free_bit) m"

definition block_is_prev_free :: "mem \<Rightarrow> u64 \<Rightarrow> bool" where
  "block_is_prev_free m b \<longleftrightarrow> size_field m b AND block_header_prev_free_bit \<noteq> 0"

definition block_set_prev_free :: "u64 \<Rightarrow> mem \<Rightarrow> mem" where
  "block_set_prev_free b m = set_size_field b (size_field m b OR block_header_prev_free_bit) m"

definition block_set_prev_used :: "u64 \<Rightarrow> mem \<Rightarrow> mem" where
  "block_set_prev_used b m = set_size_field b (size_field m b AND NOT block_header_prev_free_bit) m"

definition block_from_ptr :: "u64 \<Rightarrow> u64" where
  "block_from_ptr ptr = ptr - block_start_offset"

definition block_to_ptr :: "u64 \<Rightarrow> u64" where
  "block_to_ptr b = b + block_start_offset"

definition offset_to_block :: "u64 \<Rightarrow> u64 \<Rightarrow> u64" where
  "offset_to_block ptr sz = ptr + sz"

definition block_prev :: "mem \<Rightarrow> u64 \<Rightarrow> u64 option" where
  "block_prev m b = do { tlsf_assert (block_is_prev_free m b); Some (prev_phys_block m b) }"

definition block_next :: "mem \<Rightarrow> u64 \<Rightarrow> u64 option" where
  "block_next m b =
     (let next = offset_to_block (block_to_ptr b) (block_size m b - block_header_overhead)
      in do { tlsf_assert (\<not> block_is_last m b); Some next })"

definition block_link_next :: "u64 \<Rightarrow> mem \<Rightarrow> (u64 \<times> mem) option" where
  "block_link_next b m = do { next \<leftarrow> block_next m b; Some (next, set_prev_phys_block next b m) }"

definition block_mark_as_free :: "u64 \<Rightarrow> mem \<Rightarrow> mem option" where
  "block_mark_as_free b m =
     do { (next, m1) \<leftarrow> block_link_next b m; Some (block_set_free b (block_set_prev_free next m1)) }"

definition block_mark_as_used :: "u64 \<Rightarrow> mem \<Rightarrow> mem option" where
  "block_mark_as_used b m =
     do { next \<leftarrow> block_next m b; Some (block_set_used b (block_set_prev_used next m)) }"

section \<open>Free lists\<close>

definition search_suitable_block :: "mem \<Rightarrow> u64 \<Rightarrow> int \<Rightarrow> int \<Rightarrow> (u64 \<times> int \<times> int) option" where
  "search_suitable_block m c fl sl =
     (let sl_map = sl_bitmap m c fl AND push_bit (nat sl) (- 1) in
      if sl_map = 0 then
        let fl_map = fl_bitmap m c AND push_bit (nat (fl + 1)) (- 1) in
        if fl_map = 0 then Some (0, fl, sl)
        else
          let fl' = tlsf_ffs fl_map; sl_map' = sl_bitmap m c fl' in
          do { tlsf_assert (sl_map' \<noteq> 0);
               let sl' = tlsf_ffs sl_map';
               Some (blocks m c fl' sl', fl', sl') }
      else
        let sl' = tlsf_ffs sl_map in Some (blocks m c fl sl', fl, sl'))"

definition remove_free_block :: "u64 \<Rightarrow> u64 \<Rightarrow> int \<Rightarrow> int \<Rightarrow> mem \<Rightarrow> mem option" where
  "remove_free_block c b fl sl m =
     (let prev = prev_free m b; next = next_free m b in
      do { tlsf_assert (prev \<noteq> 0);
           tlsf_assert (next \<noteq> 0);
           let m1 = set_next_free prev next (set_prev_free next prev m);
           if blocks m1 c fl sl = b then
             let m2 = set_blocks c fl sl next m1 in
             if next = block_null c then
               let m3 = set_sl_bitmap c fl (sl_bitmap m2 c fl AND NOT (push_bit (nat sl) 1)) m2 in
               if sl_bitmap m3 c fl = 0
               then Some (set_fl_bitmap c (fl_bitmap m3 c AND NOT (push_bit (nat fl) 1)) m3)
               else Some m3
             else Some m2
           else Some m1 })"

definition insert_free_block :: "u64 \<Rightarrow> u64 \<Rightarrow> int \<Rightarrow> int \<Rightarrow> mem \<Rightarrow> mem option" where
  "insert_free_block c b fl sl m =
     (let current = blocks m c fl sl in
      do { tlsf_assert (current \<noteq> 0);
           tlsf_assert (b \<noteq> 0);
           let m1 = set_prev_free current b (set_prev_free b (block_null c) (set_next_free b current m));
           p \<leftarrow> align_ptr (block_to_ptr b) ALIGN_SIZE;
           tlsf_assert (block_to_ptr b = p);
           let m2 = set_blocks c fl sl b m1;
           let m3 = set_fl_bitmap c (fl_bitmap m2 c OR push_bit (nat fl) 1) m2;
           Some (set_sl_bitmap c fl (sl_bitmap m3 c fl OR push_bit (nat sl) 1) m3) })"

definition block_remove :: "u64 \<Rightarrow> u64 \<Rightarrow> mem \<Rightarrow> mem option" where
  "block_remove c b m = (case mapping_insert (block_size m b) of (fl, sl) \<Rightarrow> remove_free_block c b fl sl m)"

definition block_insert :: "u64 \<Rightarrow> u64 \<Rightarrow> mem \<Rightarrow> mem option" where
  "block_insert c b m = (case mapping_insert (block_size m b) of (fl, sl) \<Rightarrow> insert_free_block c b fl sl m)"

section \<open>Splitting and merging\<close>

definition block_can_split :: "mem \<Rightarrow> u64 \<Rightarrow> u64 \<Rightarrow> bool" where
  "block_can_split m b sz \<longleftrightarrow> block_size m b \<ge> block_header_size + sz"

definition block_split :: "u64 \<Rightarrow> u64 \<Rightarrow> mem \<Rightarrow> (u64 \<times> mem) option" where
  "block_split b sz m =
     (let remaining = offset_to_block (block_to_ptr b) (sz - block_header_overhead);
          remain_size = block_size m b - (sz + block_header_overhead) in
      do { p \<leftarrow> align_ptr (block_to_ptr remaining) ALIGN_SIZE;
           tlsf_assert (block_to_ptr remaining = p);
           tlsf_assert (block_size m b = remain_size + sz + block_header_overhead);
           let m1 = block_set_size remaining remain_size m;
           tlsf_assert (block_size m1 remaining \<ge> block_size_min);
           let m2 = block_set_size b sz m1;
           m3 \<leftarrow> block_mark_as_free remaining m2;
           Some (remaining, m3) })"

definition block_absorb :: "u64 \<Rightarrow> u64 \<Rightarrow> mem \<Rightarrow> (u64 \<times> mem) option" where
  "block_absorb prev b m =
     do { tlsf_assert (\<not> block_is_last m prev);
          let m1 = set_size_field prev (size_field m prev + (block_size m b + block_header_overhead)) m;
          (next, m2) \<leftarrow> block_link_next prev m1;
          Some (prev, m2) }"

definition block_merge_prev :: "u64 \<Rightarrow> u64 \<Rightarrow> mem \<Rightarrow> (u64 \<times> mem) option" where
  "block_merge_prev c b m =
     (if block_is_prev_free m b then
        do { prev \<leftarrow> block_prev m b;
             tlsf_assert (prev \<noteq> 0);
             tlsf_assert (block_is_free m prev);
             m1 \<leftarrow> block_remove c prev m;
             block_absorb prev b m1 }
      else Some (b, m))"

definition block_merge_next :: "u64 \<Rightarrow> u64 \<Rightarrow> mem \<Rightarrow> (u64 \<times> mem) option" where
  "block_merge_next c b m =
     do { next \<leftarrow> block_next m b;
          tlsf_assert (next \<noteq> 0);
          if block_is_free m next then
            do { tlsf_assert (\<not> block_is_last m b);
                 m1 \<leftarrow> block_remove c next m;
                 block_absorb b next m1 }
          else Some (b, m) }"

definition block_trim_free :: "u64 \<Rightarrow> u64 \<Rightarrow> u64 \<Rightarrow> mem \<Rightarrow> mem option" where
  "block_trim_free c b sz m =
     do { tlsf_assert (block_is_free m b);
          if block_can_split m b sz then
            do { (remaining, m1) \<leftarrow> block_split b sz m;
                 (_, m2) \<leftarrow> block_link_next b m1;
                 block_insert c remaining (block_set_prev_free remaining m2) }
          else Some m }"

definition block_trim_used :: "u64 \<Rightarrow> u64 \<Rightarrow> u64 \<Rightarrow> mem \<Rightarrow> mem option" where
  "block_trim_used c b sz m =
     do { tlsf_assert (\<not> block_is_free m b);
          if block_can_split m b sz then
            do { (remaining, m1) \<leftarrow> block_split b sz m;
                 (remaining', m2) \<leftarrow> block_merge_next c remaining (block_set_prev_used remaining m1);
                 block_insert c remaining' m2 }
          else Some m }"

definition block_trim_free_leading :: "u64 \<Rightarrow> u64 \<Rightarrow> u64 \<Rightarrow> mem \<Rightarrow> (u64 \<times> mem) option" where
  "block_trim_free_leading c b sz m =
     (if block_can_split m b sz then
        do { (remaining, m1) \<leftarrow> block_split b (sz - block_header_overhead) m;
             (_, m2) \<leftarrow> block_link_next b (block_set_prev_free remaining m1);
             m3 \<leftarrow> block_insert c b m2;
             Some (remaining, m3) }
      else Some (b, m))"

definition block_locate_free :: "u64 \<Rightarrow> u64 \<Rightarrow> mem \<Rightarrow> (u64 \<times> mem) option" where
  "block_locate_free c sz m =
     do { (b, fl, sl) \<leftarrow>
            (if sz \<noteq> 0 then
               case mapping_search sz of (fl, sl) \<Rightarrow>
                 if fl < FL_INDEX_COUNT then search_suitable_block m c fl sl else Some (0, fl, sl)
             else Some (0, 0, 0));
          if b \<noteq> 0 then
            do { tlsf_assert (block_size m b \<ge> sz);
                 m1 \<leftarrow> remove_free_block c b fl sl m;
                 Some (b, m1) }
          else Some (b, m) }"

definition block_prepare_used :: "u64 \<Rightarrow> u64 \<Rightarrow> u64 \<Rightarrow> mem \<Rightarrow> (u64 \<times> mem) option" where
  "block_prepare_used c b sz m =
     (if b \<noteq> 0 then
        do { tlsf_assert (sz \<noteq> 0);
             m1 \<leftarrow> block_trim_free c b sz m;
             m2 \<leftarrow> block_mark_as_used b m1;
             Some (block_to_ptr b, m2) }
      else Some (0, m))"

definition control_construct :: "u64 \<Rightarrow> mem \<Rightarrow> mem" where
  "control_construct c m =
     (let m1 = set_prev_free (block_null c) (block_null c) (set_next_free (block_null c) (block_null c) m);
          m2 = set_fl_bitmap c 0 m1
      in fold (\<lambda>i m. fold (\<lambda>j. set_blocks c i j (block_null c)) [0..SL_INDEX_COUNT - 1] (set_sl_bitmap c i 0 m))
           [0..FL_INDEX_COUNT - 1] m2)"

section \<open>Consistency checks\<close>

record integrity =
  prev_status :: int
  status :: int

text \<open>\<open>tlsf_insist\<close> asserts first, so it never reaches the decrement.\<close>

definition integrity_walker :: "mem \<Rightarrow> u64 \<Rightarrow> u64 \<Rightarrow> bool \<Rightarrow> integrity \<Rightarrow> integrity option" where
  "integrity_walker m ptr sz used integ =
     (let b = block_from_ptr ptr;
          this_prev_status = (if block_is_prev_free m b then 1 else 0);
          this_status = (if block_is_free m b then 1 else 0);
          this_block_size = block_size m b in
      do { tlsf_assert (prev_status integ = this_prev_status);
           tlsf_assert (sz = this_block_size);
           Some (integ\<lparr>prev_status := this_status, status := status integ + 0\<rparr>) })"

partial_function (option) tlsf_check_list :: "mem \<Rightarrow> u64 \<Rightarrow> int \<Rightarrow> int \<Rightarrow> u64 \<Rightarrow> unit option" where
  "tlsf_check_list m c i j b =
     (if b \<noteq> block_null c then
        do { tlsf_assert (block_is_free m b);
             tlsf_assert (\<not> block_is_prev_free m b);
             next \<leftarrow> block_next m b;
             tlsf_assert (\<not> block_is_free m next);
             tlsf_assert (block_is_prev_free m next);
             tlsf_assert (block_size m b \<ge> block_size_min);
             tlsf_assert (mapping_insert (block_size m b) = (i, j));
             tlsf_check_list m c i j (next_free m b) }
      else Some ())"

definition tlsf_check_cell :: "mem \<Rightarrow> u64 \<Rightarrow> int \<Rightarrow> int \<Rightarrow> unit option" where
  "tlsf_check_cell m c i j =
     (let fl_map = fl_bitmap m c AND push_bit (nat i) 1;
          sl_list = sl_bitmap m c i;
          sl_map = sl_list AND push_bit (nat j) 1;
          b = blocks m c i j in
      do { (if fl_map = 0 then tlsf_assert (sl_map = 0) else Some ());
           if sl_map = 0 then tlsf_assert (b = block_null c)
           else
             do { tlsf_assert (sl_list \<noteq> 0);
                  tlsf_assert (b \<noteq> block_null c);
                  tlsf_check_list m c i j b } })"

fun all_steps :: "('a \<Rightarrow> unit option) \<Rightarrow> 'a list \<Rightarrow> unit option" where
  "all_steps f [] = Some ()"
| "all_steps f (x # xs) = do { f x; all_steps f xs }"

definition tlsf_check :: "mem \<Rightarrow> u64 \<Rightarrow> int option" where
  "tlsf_check m c =
     do { all_steps (\<lambda>i. all_steps (\<lambda>j. tlsf_check_cell m c i j) [0..SL_INDEX_COUNT - 1]) [0..FL_INDEX_COUNT - 1];
          Some 0 }"

text \<open>The walker reads memory and its own state; it is a parameter, as in the code.\<close>

partial_function (option) walk_loop ::
    "(u64 \<Rightarrow> u64 \<Rightarrow> bool \<Rightarrow> 's \<Rightarrow> 's option) \<Rightarrow> mem \<Rightarrow> u64 \<Rightarrow> 's \<Rightarrow> 's option" where
  "walk_loop walker m b user =
     (if b \<noteq> 0 \<and> \<not> block_is_last m b then
        do { user' \<leftarrow> walker (block_to_ptr b) (block_size m b) (\<not> block_is_free m b) user;
             next \<leftarrow> block_next m b;
             walk_loop walker m next user' }
      else Some user)"

definition tlsf_walk_pool :: "(u64 \<Rightarrow> u64 \<Rightarrow> bool \<Rightarrow> 's \<Rightarrow> 's option) \<Rightarrow> mem \<Rightarrow> u64 \<Rightarrow> 's \<Rightarrow> 's option" where
  "tlsf_walk_pool walker m pool user = walk_loop walker m (offset_to_block pool (- block_header_overhead)) user"

definition tlsf_block_size :: "mem \<Rightarrow> u64 \<Rightarrow> u64" where
  "tlsf_block_size m ptr = (if ptr \<noteq> 0 then block_size m (block_from_ptr ptr) else 0)"

definition tlsf_check_pool :: "mem \<Rightarrow> u64 \<Rightarrow> int option" where
  "tlsf_check_pool m pool =
     map_option status (tlsf_walk_pool (integrity_walker m) m pool \<lparr>prev_status = 0, status = 0\<rparr>)"

section \<open>Pools\<close>

definition tlsf_size :: u64 where "tlsf_size = 32 + 4 + 4 * 25 + 8 * 25 * 32"
definition tlsf_pool_overhead :: u64 where "tlsf_pool_overhead = 2 * block_header_overhead"

definition tlsf_add_pool :: "u64 \<Rightarrow> u64 \<Rightarrow> u64 \<Rightarrow> mem \<Rightarrow> (u64 \<times> mem) option" where
  "tlsf_add_pool c start bytes m =
     do { pool_bytes \<leftarrow> align_down_size (bytes - tlsf_pool_overhead) ALIGN_SIZE;
          if start AND (ALIGN_SIZE - 1) \<noteq> 0 then Some (0, m)
          else if pool_bytes < block_size_min \<or> pool_bytes > block_size_max then Some (0, m)
          else
            let b = offset_to_block start (- block_header_overhead);
                m1 = block_set_prev_used b (block_set_free b (block_set_size b pool_bytes m)) in
            do { m2 \<leftarrow> block_insert c b m1;
                 (next, m3) \<leftarrow> block_link_next b m2;
                 Some (start, block_set_prev_free next (block_set_used next (block_set_size next 0 m3))) } }"

definition tlsf_remove_pool :: "u64 \<Rightarrow> u64 \<Rightarrow> mem \<Rightarrow> mem option" where
  "tlsf_remove_pool c pool m =
     (let b = offset_to_block pool (- block_header_overhead) in
      do { tlsf_assert (block_is_free m b);
           n1 \<leftarrow> block_next m b;
           tlsf_assert (\<not> block_is_free m n1);
           n2 \<leftarrow> block_next m b;
           tlsf_assert (block_size m n2 = 0);
           case mapping_insert (block_size m b) of (fl, sl) \<Rightarrow> remove_free_block c b fl sl m })"

definition tlsf_create :: "u64 \<Rightarrow> mem \<Rightarrow> u64 \<times> mem" where
  "tlsf_create start m =
     (if start AND (ALIGN_SIZE - 1) \<noteq> 0 then (0, m) else (start, control_construct start m))"

definition tlsf_create_with_pool :: "u64 \<Rightarrow> u64 \<Rightarrow> mem \<Rightarrow> (u64 \<times> mem) option" where
  "tlsf_create_with_pool start bytes m =
     (case tlsf_create start m of (tlsf, m1) \<Rightarrow>
        do { (_, m2) \<leftarrow> tlsf_add_pool tlsf (start + tlsf_size) (bytes - tlsf_size) m1;
             Some (tlsf, m2) })"

definition tlsf_get_pool :: "u64 \<Rightarrow> u64" where
  "tlsf_get_pool tlsf = tlsf + tlsf_size"

section \<open>The interface\<close>

definition tlsf_malloc :: "u64 \<Rightarrow> u64 \<Rightarrow> mem \<Rightarrow> (u64 \<times> mem) option" where
  "tlsf_malloc c sz m =
     do { adjust \<leftarrow> adjust_request_size sz ALIGN_SIZE;
          (b, m1) \<leftarrow> block_locate_free c adjust m;
          block_prepare_used c b adjust m1 }"

definition tlsf_memalign :: "u64 \<Rightarrow> u64 \<Rightarrow> u64 \<Rightarrow> mem \<Rightarrow> (u64 \<times> mem) option" where
  "tlsf_memalign c align sz m =
     do { adjust \<leftarrow> adjust_request_size sz ALIGN_SIZE;
          let gap_minimum = block_header_size;
          size_with_gap \<leftarrow> adjust_request_size (adjust + align + gap_minimum) align;
          let aligned_size = (if adjust \<noteq> 0 \<and> align > ALIGN_SIZE then size_with_gap else adjust);
          (b, m1) \<leftarrow> block_locate_free c aligned_size m;
          (b', m2) \<leftarrow>
            (if b \<noteq> 0 then
               do { let ptr = block_to_ptr b;
                    a1 \<leftarrow> align_ptr ptr align;
                    let gap1 = a1 - ptr;
                    gap \<leftarrow>
                      (if gap1 \<noteq> 0 \<and> gap1 < gap_minimum then
                         do { let gap_remain = gap_minimum - gap1;
                              let offset = (if gap_remain > align then gap_remain else align);
                              a2 \<leftarrow> align_ptr (a1 + offset) align;
                              Some (a2 - ptr) }
                       else Some gap1);
                    if gap \<noteq> 0 then
                      do { tlsf_assert (gap \<ge> gap_minimum);
                           block_trim_free_leading c b gap m1 }
                    else Some (b, m1) }
             else Some (b, m1));
          block_prepare_used c b' adjust m2 }"

definition tlsf_free :: "u64 \<Rightarrow> u64 \<Rightarrow> mem \<Rightarrow> mem option" where
  "tlsf_free c ptr m =
     (if ptr \<noteq> 0 then
        do { let b = block_from_ptr ptr;
             tlsf_assert (\<not> block_is_free m b);
             m1 \<leftarrow> block_mark_as_free b m;
             (b1, m2) \<leftarrow> block_merge_prev c b m1;
             (b2, m3) \<leftarrow> block_merge_next c b1 m2;
             block_insert c b2 m3 }
      else Some m)"

definition tlsf_realloc :: "u64 \<Rightarrow> u64 \<Rightarrow> u64 \<Rightarrow> mem \<Rightarrow> (u64 \<times> mem) option" where
  "tlsf_realloc c ptr sz m =
     (if ptr \<noteq> 0 \<and> sz = 0 then do { m1 \<leftarrow> tlsf_free c ptr m; Some (0, m1) }
      else if ptr = 0 then tlsf_malloc c sz m
      else
        do { let b = block_from_ptr ptr;
             next \<leftarrow> block_next m b;
             let cursize = block_size m b;
             let combined = cursize + block_size m next + block_header_overhead;
             adjust \<leftarrow> adjust_request_size sz ALIGN_SIZE;
             tlsf_assert (\<not> block_is_free m b);
             if adjust > cursize \<and> (\<not> block_is_free m next \<or> adjust > combined) then
               do { (p, m1) \<leftarrow> tlsf_malloc c sz m;
                    if p \<noteq> 0 then
                      do { let minsize = (if cursize < sz then cursize else sz);
                           m2 \<leftarrow> tlsf_free c ptr (fst (memcpy m1 p ptr minsize));
                           Some (p, m2) }
                    else Some (p, m1) }
             else
               do { m1 \<leftarrow> (if adjust > cursize
                          then do { (_, m') \<leftarrow> block_merge_next c b m; block_mark_as_used b m' }
                          else Some m);
                    m2 \<leftarrow> block_trim_used c b adjust m1;
                    Some (ptr, m2) } })"

end
