(* ===== verification/Stdlib.thy ===== *)
theory Stdlib
  imports Tlsf
begin

text \<open>
  The kernel's general utilities, \<^verbatim>\<open>klibc/stdlib.c\<close>: the heap interface over the kernel's TLSF
  instance, number conversion, searching and sorting. Signed arithmetic wraps at its width.
  \<open>char\<close> is signed. A comparison function is a parameter that reads memory.
\<close>

section \<open>The heap interface\<close>

definition malloc :: "u64 \<Rightarrow> u64 \<Rightarrow> mem \<Rightarrow> (u64 \<times> mem) option" where
  "malloc kernel_tlsf sz m = tlsf_malloc kernel_tlsf sz m"

definition free :: "u64 \<Rightarrow> u64 \<Rightarrow> mem \<Rightarrow> mem option" where
  "free kernel_tlsf ptr m = tlsf_free kernel_tlsf ptr m"

function zero_loop :: "mem \<Rightarrow> u64 \<Rightarrow> u64 \<Rightarrow> u64 \<Rightarrow> mem" where
  "zero_loop m p i tot = (if i < tot then zero_loop (m(p + i := 0)) p (i + 1) tot else m)"
  by pat_completeness auto
termination
  by (relation "measure (\<lambda>(m, p, i, tot). unat (tot - i))") (auto intro: unat_up_less)

definition calloc :: "u64 \<Rightarrow> u64 \<Rightarrow> u64 \<Rightarrow> mem \<Rightarrow> (u64 \<times> mem) option" where
  "calloc kernel_tlsf nmemb sz m =
     do { let tot = nmemb * sz;
          (ptr, m1) \<leftarrow> malloc kernel_tlsf tot m;
          if ptr \<noteq> 0 then Some (ptr, zero_loop m1 ptr 0 tot) else Some (ptr, m1) }"

definition realloc :: "u64 \<Rightarrow> u64 \<Rightarrow> u64 \<Rightarrow> mem \<Rightarrow> (u64 \<times> mem) option" where
  "realloc kernel_tlsf ptr sz m = tlsf_realloc kernel_tlsf ptr sz m"

section \<open>Patterns and numbers\<close>

function memset_pattern_loop :: "mem \<Rightarrow> u64 \<Rightarrow> u64 \<Rightarrow> u64 \<Rightarrow> u64 \<Rightarrow> u64 \<Rightarrow> u64 \<Rightarrow> mem" where
  "memset_pattern_loop m p pat pat_idx i pattern_size num =
     (if i < num then
        memset_pattern_loop (m(p + i := m (pat + pat_idx))) p pat ((pat_idx + 1) mod pattern_size) (i + 1) pattern_size num
      else m)"
  by pat_completeness auto
termination
  by (relation "measure (\<lambda>(m, p, pat, pat_idx, i, pattern_size, num). unat (num - i))") (auto intro: unat_up_less)

text \<open>The modulus traps on an empty pattern as soon as one byte is written.\<close>

definition memset_pattern :: "mem \<Rightarrow> u64 \<Rightarrow> u64 \<Rightarrow> u64 \<Rightarrow> u64 \<Rightarrow> (mem \<times> u64) option" where
  "memset_pattern m ptr pat pattern_size num =
     (if pattern_size = 0 \<and> num \<noteq> 0 then None
      else Some (memset_pattern_loop m ptr pat 0 0 pattern_size num, ptr))"

definition itoa_char :: "u32 \<Rightarrow> u8" where
  "itoa_char rem = (if sint rem > 9 then ucast (rem - 10 + 97) else ucast (rem + 48))"

text \<open>\<open>value % base\<close> and \<open>value / base\<close> are unsigned, since \<open>base\<close> is; a zero base traps.\<close>

partial_function (option) itoa_digits :: "mem \<Rightarrow> u64 \<Rightarrow> u32 \<Rightarrow> u32 \<Rightarrow> nat \<Rightarrow> (mem \<times> nat) option" where
  "itoa_digits m str v base i =
     (if v \<noteq> 0 then
        if base = 0 then None
        else itoa_digits (m(str + of_nat i := itoa_char (v mod base))) str (v div base) base (i + 1)
      else Some (m, i))"

fun reverse_bytes :: "mem \<Rightarrow> u64 \<Rightarrow> nat \<Rightarrow> nat \<Rightarrow> mem" where
  "reverse_bytes m str start stop =
     (if start < stop then
        let temp = m (str + of_nat start);
            m1 = m(str + of_nat start := m (str + of_nat stop));
            m2 = m1(str + of_nat stop := temp)
        in reverse_bytes m2 str (start + 1) (stop - 1)
      else m)"

definition itoa :: "mem \<Rightarrow> i32 \<Rightarrow> u64 \<Rightarrow> u32 \<Rightarrow> (mem \<times> u64) option" where
  "itoa m v str base =
     (if v = 0 then Some (m(str := 48, str + 1 := 0), str)
      else
        let neg = sint v < 0 \<and> base = 10;
            v1 = (if neg then - v else v) in
        do { (m1, i) \<leftarrow> itoa_digits m str v1 base 0;
             let (m2, i2) = (if neg then (m1(str + of_nat i := 45), i + 1) else (m1, i));
             Some (reverse_bytes (m2(str + of_nat i2 := 0)) str 0 (i2 - 1), str) })"

definition is_blank :: "u8 \<Rightarrow> bool" where
  "is_blank c \<longleftrightarrow> c = 32 \<or> c = 9 \<or> c = 10"

partial_function (option) skip_blanks :: "mem \<Rightarrow> u64 \<Rightarrow> u64 option" where
  "skip_blanks m str = (if is_blank (m str) then skip_blanks m (str + 1) else Some str)"

definition read_sign :: "mem \<Rightarrow> u64 \<Rightarrow> bool \<times> u64" where
  "read_sign m str = (if m str = 45 then (True, str + 1) else if m str = 43 then (False, str + 1) else (False, str))"

partial_function (option) atoi_digits :: "mem \<Rightarrow> u64 \<Rightarrow> 'a::len word \<Rightarrow> 'a word option" where
  "atoi_digits m str res =
     (if sint (m str) \<ge> 48 \<and> sint (m str) \<le> 57
      then atoi_digits m (str + 1) (res * 10 + of_int (sint (m str) - 48))
      else Some res)"

definition ato_number :: "mem \<Rightarrow> u64 \<Rightarrow> 'a::len word option" where
  "ato_number m str =
     do { str1 \<leftarrow> skip_blanks m str;
          let (neg, str2) = read_sign m str1;
          res \<leftarrow> atoi_digits m str2 0;
          Some (if neg then - res else res) }"

definition atoi :: "mem \<Rightarrow> u64 \<Rightarrow> i32 option" where "atoi m str = ato_number m str"
definition atol :: "mem \<Rightarrow> u64 \<Rightarrow> i64 option" where "atol m str = ato_number m str"
definition atoll :: "mem \<Rightarrow> u64 \<Rightarrow> i64 option" where "atoll m str = ato_number m str"

definition strtol_digit :: "u8 \<Rightarrow> int option" where
  "strtol_digit c =
     (let s = sint c in
      if s \<ge> 48 \<and> s \<le> 57 then Some (s - 48)
      else if s \<ge> 97 \<and> s \<le> 122 then Some (s - 97 + 10)
      else if s \<ge> 65 \<and> s \<le> 90 then Some (s - 65 + 10)
      else None)"

partial_function (option) strtol_digits :: "mem \<Rightarrow> u64 \<Rightarrow> i32 \<Rightarrow> i64 \<Rightarrow> (i64 \<times> u64) option" where
  "strtol_digits m str base res =
     (if m str \<noteq> 0 then
        case strtol_digit (m str) of None \<Rightarrow> Some (res, str)
        | Some digit \<Rightarrow>
            if digit \<ge> sint base then Some (res, str)
            else strtol_digits m (str + 1) base (res * scast base + of_int digit)
      else Some (res, str))"

definition strtol_prefix :: "mem \<Rightarrow> u64 \<Rightarrow> i32 \<Rightarrow> u64 \<times> i32" where
  "strtol_prefix m str base =
     (if base = 0 then
        if m str = 48 then
          if m (str + 1) = 120 \<or> m (str + 1) = 88 then (str + 2, 16) else (str + 1, 8)
        else (str, 10)
      else if base = 16 \<and> m str = 48 \<and> (m (str + 1) = 120 \<or> m (str + 1) = 88) then (str + 2, base)
      else (str, base))"

text \<open>The result and the address stored through \<open>endptr\<close> when that is not null.\<close>

definition strtol :: "mem \<Rightarrow> u64 \<Rightarrow> i32 \<Rightarrow> (i64 \<times> u64) option" where
  "strtol m str base =
     do { str1 \<leftarrow> skip_blanks m str;
          let (neg, str2) = read_sign m str1;
          let (str3, base') = strtol_prefix m str2 base;
          (res, stop) \<leftarrow> strtol_digits m str3 base' 0;
          Some (if neg then - res else res, stop) }"

definition strtoul :: "mem \<Rightarrow> u64 \<Rightarrow> i32 \<Rightarrow> (u64 \<times> u64) option" where "strtoul m str base = strtol m str base"
definition strtoll :: "mem \<Rightarrow> u64 \<Rightarrow> i32 \<Rightarrow> (i64 \<times> u64) option" where "strtoll m str base = strtol m str base"
definition strtoull :: "mem \<Rightarrow> u64 \<Rightarrow> i32 \<Rightarrow> (u64 \<times> u64) option" where "strtoull m str base = strtol m str base"

section \<open>Searching and sorting\<close>

function swap_bytes :: "mem \<Rightarrow> u64 \<Rightarrow> u64 \<Rightarrow> u64 \<Rightarrow> mem" where
  "swap_bytes m a b sz =
     (if sz \<noteq> 0 then
        let temp = m a; m1 = m(a := m b); m2 = m1(b := temp)
        in swap_bytes m2 (a + 1) (b + 1) (sz - 1)
      else m)"
  by pat_completeness auto
termination
  by (relation "measure (\<lambda>(m, a, b, sz). unat sz)") (auto intro: unat_dec_less)

function bsearch :: "(mem \<Rightarrow> u64 \<Rightarrow> u64 \<Rightarrow> int) \<Rightarrow> mem \<Rightarrow> u64 \<Rightarrow> u64 \<Rightarrow> u64 \<Rightarrow> u64 \<Rightarrow> u64" where
  "bsearch compar m key base num sz =
     (if num > 0 then
        let pivot = base + (num div 2) * sz;
            res = compar m key pivot in
        if res = 0 then pivot
        else if res > 0 then bsearch compar m key (pivot + sz) (num - num div 2 - 1) sz
        else bsearch compar m key base (num div 2) sz
      else 0)"
  by pat_completeness auto
termination
proof (relation "measure (\<lambda>(compar, m, key, base, num, sz). unat num)", simp, goal_cases)
  case (1 compar m key base num sz x xa)
  then have n: "0 < unat num" by (simp add: unat_gt_0)
  then have "unat (num - num div 2) = unat num - unat num div 2" by (simp add: unat_sub_if' unat_div)
  then have "unat (num - num div 2 - 1) = unat num - unat num div 2 - 1"
    using n by (subst unat_minus_1_64) (auto simp: word_unat_eq_iff unat_div)
  then show ?case using n by simp
next
  case (2 compar m key base num sz x xa)
  then show ?case by (simp add: unat_div unat_gt_0)
qed

partial_function (option) scan_up :: "(mem \<Rightarrow> u64 \<Rightarrow> u64 \<Rightarrow> int) \<Rightarrow> mem \<Rightarrow> u64 \<Rightarrow> u64 \<Rightarrow> u64 \<Rightarrow> u64 option" where
  "scan_up compar m left pivot sz =
     (if compar m left pivot < 0 then scan_up compar m (left + sz) pivot sz else Some left)"

partial_function (option) scan_down :: "(mem \<Rightarrow> u64 \<Rightarrow> u64 \<Rightarrow> int) \<Rightarrow> mem \<Rightarrow> u64 \<Rightarrow> u64 \<Rightarrow> u64 \<Rightarrow> u64 option" where
  "scan_down compar m right pivot sz =
     (if compar m right pivot > 0 then scan_down compar m (right - sz) pivot sz else Some right)"

partial_function (option) qsort_partition ::
    "(mem \<Rightarrow> u64 \<Rightarrow> u64 \<Rightarrow> int) \<Rightarrow> mem \<Rightarrow> u64 \<Rightarrow> u64 \<Rightarrow> u64 \<Rightarrow> u64 \<Rightarrow> (mem \<times> u64 \<times> u64) option" where
  "qsort_partition compar m left right pivot sz =
     (if left \<le> right then
        do { l \<leftarrow> scan_up compar m left pivot sz;
             r \<leftarrow> scan_down compar m right pivot sz;
             if l \<le> r then
               qsort_partition compar (if l \<noteq> r then swap_bytes m l r sz else m) (l + sz) (r - sz) pivot sz
             else qsort_partition compar m l r pivot sz }
      else Some (m, left, right))"

partial_function (option) qsort ::
    "(mem \<Rightarrow> u64 \<Rightarrow> u64 \<Rightarrow> int) \<Rightarrow> mem \<Rightarrow> u64 \<Rightarrow> u64 \<Rightarrow> u64 \<Rightarrow> mem option" where
  "qsort compar m base num sz =
     (if num < 2 then Some m
      else
        do { (m1, left, right) \<leftarrow>
               qsort_partition compar m base (base + (num - 1) * sz) (base + (num div 2) * sz) sz;
             m2 \<leftarrow> (if base < right then qsort compar m1 base ((right - base) div sz + 1) sz else Some m1);
             if left < base + (num - 1) * sz
             then qsort compar m2 left ((base + (num - 1) * sz - left) div sz + 1) sz
             else Some m2 })"

declare zero_loop.simps [simp del] memset_pattern_loop.simps [simp del] reverse_bytes.simps [simp del]
  swap_bytes.simps [simp del] bsearch.simps [simp del]

declare scan_up.simps [code] scan_down.simps [code] qsort_partition.simps [code] qsort.simps [code]

section \<open>Numerals\<close>

text \<open>The digits of a number, least significant first, and the value of a digit string.\<close>

function udigits :: "nat \<Rightarrow> nat \<Rightarrow> nat list" where
  "udigits b n = (if n = 0 \<or> b < 2 then [] else n mod b # udigits b (n div b))"
  by pat_completeness auto
termination
  by (relation "measure snd") auto

declare udigits.simps [simp del]

definition digit_char :: "nat \<Rightarrow> u8" where
  "digit_char d = (if d > 9 then of_nat (d + 87) else of_nat (d + 48))"

definition horner :: "nat \<Rightarrow> nat list \<Rightarrow> nat" where
  "horner b ds = foldl (\<lambda>r d. r * b + d) 0 ds"

definition numeral_of :: "nat \<Rightarrow> nat \<Rightarrow> u8 list" where
  "numeral_of b n = (if n = 0 then [48] else map digit_char (rev (udigits b n)))"

lemma horner_udigits: "2 \<le> b \<Longrightarrow> horner b (rev (udigits b n)) = n"
proof (induction b n rule: udigits.induct)
  case (1 b n)
  then show ?case
    by (cases "n = 0") (simp_all add: udigits.simps [of b n] udigits.simps [of b 0] horner_def)
qed

lemma udigits_bound: "d \<in> set (udigits b n) \<Longrightarrow> d < b"
proof (induction b n rule: udigits.induct)
  case (1 b n)
  then show ?case
    by (cases "n = 0 \<or> b < 2") (auto simp: udigits.simps [of b n])
qed

lemma udigits_length: "2 \<le> b \<Longrightarrow> n < 2 ^ k \<Longrightarrow> length (udigits b n) \<le> k"
proof (induction k arbitrary: n)
  case 0
  then show ?case by (simp add: udigits.simps)
next
  case (Suc k)
  show ?case
  proof (cases "n = 0")
    case False
    have "n div b \<le> n div 2" using Suc.prems(1) by (rule div_le_mono2 [rotated]) simp
    then have "n div b < 2 ^ k" using Suc.prems(2) by (simp add: less_mult_imp_div_less)
    with Suc False show ?thesis by (simp add: udigits.simps [of b n])
  qed (simp add: udigits.simps)
qed

lemma udigits_nonempty: "0 < n \<Longrightarrow> 2 \<le> b \<Longrightarrow> udigits b n \<noteq> []"
  by (simp add: udigits.simps [of b n])

lemma digit_char_eval:
  assumes "d < 36"
  shows "digit_char d \<noteq> 0" and "sint (digit_char d) = (if d > 9 then int d + 87 else int d + 48)"
    and "\<not> is_blank (digit_char d)" and "digit_char d \<noteq> 45" and "digit_char d \<noteq> 43"
    and "digit_char d \<noteq> 120 \<or> d = 33" and "digit_char d \<noteq> 88"
    and "strtol_digit (digit_char d) = Some (int d)"
proof -
  have all: "\<forall>d \<in> set [0..<36]. digit_char d \<noteq> 0 \<and> sint (digit_char d) = (if d > 9 then int d + 87 else int d + 48) \<and>
    \<not> is_blank (digit_char d) \<and> digit_char d \<noteq> 45 \<and> digit_char d \<noteq> 43 \<and> (digit_char d \<noteq> 120 \<or> d = 33) \<and>
    digit_char d \<noteq> 88 \<and> strtol_digit (digit_char d) = Some (int d)"
    by code_simp
  have "d \<in> set [0..<36]" unfolding set_upt atLeastLessThan_iff using assms by simp
  from bspec [OF all this] show "digit_char d \<noteq> 0" "sint (digit_char d) = (if d > 9 then int d + 87 else int d + 48)"
    "\<not> is_blank (digit_char d)" "digit_char d \<noteq> 45" "digit_char d \<noteq> 43"
    "digit_char d \<noteq> 120 \<or> d = 33" "digit_char d \<noteq> 88" "strtol_digit (digit_char d) = Some (int d)" by blast+
qed

lemma itoa_char_eq:
  assumes "unat d < 36"
  shows "itoa_char d = digit_char (unat d)"
proof -
  have all: "\<forall>k \<in> set [0..<36]. itoa_char (of_nat k) = digit_char k" by code_simp
  have "unat d \<in> set [0..<36]" unfolding set_upt atLeastLessThan_iff using assms by simp
  from bspec [OF all this] show ?thesis by simp
qed

section \<open>Writing a numeral\<close>

lemma store_bytes_snoc:
  "store_bytes m p (bs @ [b]) = (store_bytes m p bs)(p + of_nat (length bs) := b)"
  by (induction bs arbitrary: m p) (simp_all add: add.assoc)

lemma itoa_digits_spec:
  assumes "2 \<le> unat base" and "unat base \<le> 36"
  shows "itoa_digits m str v base i =
    Some (store_bytes m (str + of_nat i) (map digit_char (udigits (unat base) (unat v))),
          i + length (udigits (unat base) (unat v)))"
proof (induction "unat v" arbitrary: m v i rule: less_induct)
  case less
  show ?case
  proof (cases "v = 0")
    case True
    then show ?thesis by (simp add: itoa_digits.simps udigits.simps)
  next
    case False
    have b0: "base \<noteq> 0" using assms(1) by auto
    have "unat (v div base) < unat v" using False assms(1) by (simp add: unat_div unat_gt_0)
    note IH = less.hyps [OF this]
    have "unat (v mod base) < 36" using assms by (simp add: unat_mod) (metis assms(2) less_le_trans mod_less_divisor not_numeral_le_zero zero_less_iff_neq_zero)
    then have c: "itoa_char (v mod base) = digit_char (unat v mod unat base)"
      by (simp add: itoa_char_eq unat_mod)
    have "udigits (unat base) (unat v) = unat v mod unat base # udigits (unat base) (unat v div unat base)"
      using False assms(1) by (simp add: udigits.simps [of _ "unat v"] unat_eq_0)
    with IH c b0 False show ?thesis
      by (subst itoa_digits.simps) (simp add: unat_div ac_simps)
  qed
qed

lemma reverse_bytes_spec:
  assumes "stop < 2 ^ 64" and "k < 2 ^ 64"
  shows "reverse_bytes m str start stop (str + of_nat k) =
    (if start \<le> k \<and> k \<le> stop then m (str + of_nat (start + stop - k)) else m (str + of_nat k))"
  using assms(1)
proof (induction m str start stop rule: reverse_bytes.induct)
  case (1 m str start stop)
  show ?case
  proof (cases "start < stop")
    case False
    then have "start + stop - k = k" if "start \<le> k" "k \<le> stop" using that by arith
    with False show ?thesis by (subst reverse_bytes.simps) (simp del: of_nat_add of_nat_diff)
  next
    case True
    define M where "M = (m(str + of_nat start := m (str + of_nat stop)))(str + of_nat stop := m (str + of_nat start))"
    have inj: "(of_nat a :: u64) = of_nat b \<longleftrightarrow> a = b" if "a < 2 ^ 64" "b < 2 ^ 64" for a b
      using that by (metis unat_of_nat_64)
    have M: "M (str + of_nat j) = (if j = stop then m (str + of_nat start) else if j = start then m (str + of_nat stop)
        else m (str + of_nat j))" if "j < 2 ^ 64" for j
      using that True 1(2) inj [of j stop] inj [of j start] by (auto simp: M_def)
    have IH: "reverse_bytes M str (start + 1) (stop - 1) (str + of_nat k) =
      (if start + 1 \<le> k \<and> k \<le> stop - 1 then M (str + of_nat (start + 1 + (stop - 1) - k)) else M (str + of_nat k))"
      unfolding M_def by (rule 1(1)) (use True 1(2) in auto)
    have "reverse_bytes m str start stop (str + of_nat k) = reverse_bytes M str (start + 1) (stop - 1) (str + of_nat k)"
      using True by (subst reverse_bytes.simps) (simp add: M_def)
    also have "\<dots> = (if start \<le> k \<and> k \<le> stop then m (str + of_nat (start + stop - k)) else m (str + of_nat k))"
    proof (cases "start + 1 \<le> k \<and> k \<le> stop - 1")
      case True
      then have e: "start + 1 + (stop - 1) - k = start + stop - k" and n: "start + stop - k \<noteq> stop" "start + stop - k \<noteq> start"
        and lt: "start + stop - k < 2 ^ 64" and b: "start \<le> k" "k \<le> stop" using 1(2) by arith+
      show ?thesis unfolding IH e using M [OF lt] n b True by (simp del: of_nat_add of_nat_diff)
    next
      case False
      then have o: "k < start \<or> stop < k \<or> k = start \<or> k = stop" by arith
      have e: "start + stop - start = stop" "start + stop - stop = start" by simp_all
      show ?thesis unfolding IH using M [OF assms(2)] False o True by (auto simp: e simp del: of_nat_add of_nat_diff)
    qed
    finally show ?thesis .
  qed
qed

definition signed_numeral :: "i32 \<Rightarrow> u32 \<Rightarrow> u8 list" where
  "signed_numeral v base =
     (if sint v < 0 \<and> base = 10 then 45 # numeral_of 10 (nat (- sint v)) else numeral_of (unat base) (unat v))"

lemma sint_conv: "sint (v :: i32) = uint v - 2 ^ 32 * of_bool (bit v 31)"
proof -
  have "take_bit 32 (uint v) = uint v" using uint_lt2p [of v] by (simp add: take_bit_int_eq_self)
  then show ?thesis by (simp add: sint_uint signed_take_bit_eq_take_bit_minus bit_uint_iff)
qed

lemma unat_neg:
  assumes "sint (v :: i32) < 0"
  shows "unat (- v) = nat (- sint v)"
proof -
  have b: "sint v = uint v - 2 ^ 32" using assms sint_conv [of v] by (cases "bit v 31") auto
  have "uint (- v) = (- uint v) mod 2 ^ 32" by (simp add: uint_word_ariths)
  also have "\<dots> = (2 ^ 32 - uint v) mod 2 ^ 32" by (simp add: mod_diff_left_eq [symmetric])
  also have "\<dots> = 2 ^ 32 - uint v"
  proof (rule mod_pos_pos_trivial)
    show "0 \<le> 2 ^ 32 - uint v" using uint_lt2p [of v] by simp
    have "0 < uint v" using assms b by (cases "v = 0") auto
    then show "2 ^ 32 - uint v < 2 ^ 32" by simp
  qed
  finally show ?thesis using b by (simp add: unat_eq_nat_uint)
qed

lemma reverse_stored:
  assumes "length L < 2 ^ 64" and "0 \<notin> set L" and "L \<noteq> []"
    and m': "m' = reverse_bytes ((store_bytes m str L)(str + of_nat (length L) := 0)) str 0 (length L - 1)"
  shows "cstr m' str (rev L)" and "x \<notin> region str (length L + 1) \<Longrightarrow> m' x = m x"
proof -
  define M where "M = (store_bytes m str L)(str + of_nat (length L) := 0)"
  have at: "m' (str + of_nat k) = (if k \<le> length L - 1 then M (str + of_nat (length L - 1 - k)) else M (str + of_nat k))"
    if "k < 2 ^ 64" for k
    unfolding m' M_def [symmetric] using that assms(1) by (subst reverse_bytes_spec) auto
  have inj: "(of_nat a :: u64) = of_nat b \<longleftrightarrow> a = b" if "a < 2 ^ 64" "b < 2 ^ 64" for a b
    using that by (metis unat_of_nat_64)
  have st: "M (str + of_nat k) = (if k = length L then 0 else if k < length L then L ! k else m (str + of_nat k))"
    if "k < 2 ^ 64" for k
    using that assms(1) inj [of k "length L"] by (simp add: M_def store_bytes_apply unat_of_nat_64)
  show "cstr m' str (rev L)"
    unfolding cstr_iff
  proof (intro conjI allI impI)
    fix i assume i: "i < length (rev L)"
    then have "m' (str + of_nat i) = M (str + of_nat (length L - 1 - i))" using at [of i] assms(1) by auto
    also have "\<dots> = L ! (length L - 1 - i)"
    proof -
      have b: "length L - 1 - i < length L" "length L - 1 - i < 2 ^ 64" using i assms(1) by auto
      show ?thesis using st [OF b(2)] b(1) by (simp del: of_nat_diff)
    qed
    finally show "m' (str + of_nat i) = rev L ! i" using i by (simp add: rev_nth)
  next
    show "m' (str + of_nat (length (rev L))) = 0"
    proof -
      have "\<not> length L \<le> length L - 1" using assms(3) by (cases L) auto
      then show ?thesis using at [of "length L"] st [of "length L"] assms(1) by simp
    qed
  qed (use assms(2) in simp)
  show "m' x = m x" if x: "x \<notin> region str (length L + 1)"
  proof -
    define k where "k = unat (x - str)"
    have u: "x = str + of_nat k" "k < 2 ^ 64" by (simp_all add: k_def)
    moreover have "\<not> k < length L + 1" using x by (simp add: in_region_iff k_def)
    moreover from this have "\<not> k \<le> length L - 1" by linarith
    ultimately show ?thesis using at [of k] st [of k] by simp
  qed
qed

lemma itoa_spec:
  assumes "2 \<le> unat base" and "unat base \<le> 36"
  shows "\<exists>m'. itoa m v str base = Some (m', str) \<and> cstr m' str (signed_numeral v base) \<and>
    (\<forall>x. x \<notin> region str (length (signed_numeral v base) + 1) \<longrightarrow> m' x = m x)"
proof (cases "v = 0")
  case True
  then show ?thesis
    by (auto simp: itoa_def signed_numeral_def numeral_of_def in_region_iff)
next
  case False
  define neg where "neg \<longleftrightarrow> sint v < 0 \<and> base = 10"
  define u where "u = (if neg then - v else v)"
  let ?ds = "udigits (unat base) (unat u)"
  define L where "L = map digit_char ?ds @ (if neg then [45] else [])"
  have "unat u < 2 ^ 32" using unsigned_less [of u] by simp
  then have len: "length ?ds \<le> 32" using assms(1) by (intro udigits_length)
  have u0: "u \<noteq> 0" using False by (simp add: u_def)
  then have "0 < unat u" by (simp add: unat_gt_0)
  have nz: "0 \<notin> set L"
  proof -
    have "digit_char d \<noteq> 0" if "d \<in> set ?ds" for d
      using udigits_bound [OF that] assms(2) by (intro digit_char_eval(1)) linarith
    then show ?thesis by (auto simp: L_def)
  qed
  have ne: "L \<noteq> []" using udigits_nonempty [OF \<open>0 < unat u\<close> assms(1)] by (simp add: L_def)
  have rev: "rev L = signed_numeral v base"
    using u0 unat_neg [of v] False
    by (auto simp: L_def signed_numeral_def numeral_of_def neg_def u_def rev_map unat_eq_0)
  define m' where "m' = reverse_bytes ((store_bytes m str L)(str + of_nat (length L) := 0)) str 0 (length L - 1)"
  have "length L < 2 ^ 64" using len by (simp add: L_def)
  note r = reverse_stored [OF this nz ne m'_def]
  have "itoa m v str base = Some (m', str)"
    using False itoa_digits_spec [OF assms, of m str u 0]
    by (simp add: itoa_def neg_def [symmetric] u_def [symmetric] m'_def L_def store_bytes_snoc ac_simps)
  moreover have "length (signed_numeral v base) = length L" using rev by (metis length_rev)
  ultimately show ?thesis using r unfolding rev by (intro exI [of _ m']) simp
qed

section \<open>Reading a numeral\<close>

lemma atoi_digits_spec:
  assumes "cstr m p (map digit_char ds)" and "\<forall>d \<in> set ds. d < 10"
  shows "atoi_digits m p r = Some (foldl (\<lambda>r d. r * 10 + of_nat d) r ds)"
  using assms
proof (induction ds arbitrary: p r)
  case Nil
  then show ?case by (simp add: atoi_digits.simps)
next
  case (Cons d ds)
  then have c: "m p = digit_char d" "d < 10" by simp_all
  then have "sint (m p) = int d + 48" using digit_char_eval(2) [of d] by simp
  with Cons c show ?case by (subst atoi_digits.simps) simp
qed

lemma foldl_of_nat:
  "foldl (\<lambda>r d. r * of_nat b + of_nat d) (of_nat r) ds = of_nat (foldl (\<lambda>r d. r * b + d) r ds)"
proof (induction ds arbitrary: r)
  case (Cons d ds)
  show ?case using Cons [of "r * b + d"] by simp
qed simp

lemma atoi_digits_horner:
  assumes "cstr m p (map digit_char ds)" and "\<forall>d \<in> set ds. d < 10"
  shows "(atoi_digits m p 0 :: 'a::len word option) = Some (of_nat (horner 10 ds))"
  using atoi_digits_spec [OF assms, where r = "0 :: 'a word"] foldl_of_nat [where b = 10 and r = 0 and ds = ds and 'a = "'a word"]
  by (simp add: horner_def)

lemma strtol_digits_spec:
  assumes "cstr m p (map digit_char ds)" and "\<forall>d \<in> set ds. d < unat base" and "unat base \<le> 36"
  shows "strtol_digits m p base r =
    Some (foldl (\<lambda>r d. r * of_nat (unat base) + of_nat d) r ds, p + of_nat (length ds))"
  using assms(1,2)
proof (induction ds arbitrary: p r)
  case Nil
  then show ?case by (simp add: strtol_digits.simps)
next
  case (Cons d ds)
  have sb: "sint base = int (unat base)" using assms(3) by (simp add: sint_eq_unat)
  have db: "d < 36" "d < unat base" using Cons.prems(2) assms(3) by auto
  have c: "m p = digit_char d" "m p \<noteq> 0" "strtol_digit (m p) = Some (int d)"
    using Cons.prems(1) digit_char_eval [OF db(1)] by auto
  have "scast base = (of_int (sint base) :: i64)" by simp
  then have sc: "scast base = (of_nat (unat base) :: i64)" using sb by simp
  have "\<not> sint base \<le> int d" unfolding sb using db(2) by (simp only: of_nat_le_iff not_le)
  with Cons.IH [of "p + 1"] Cons.prems c sc show ?case
    by (subst strtol_digits.simps) (simp add: ac_simps)
qed

lemma numeral_of_digits:
  assumes "2 \<le> b"
  obtains ds where "numeral_of b n = map digit_char ds" and "ds \<noteq> []" and "\<forall>d \<in> set ds. d < b" and "horner b ds = n"
proof (cases "n = 0")
  case True
  with assms show ?thesis by (intro that [of "[0]"]) (auto simp: numeral_of_def digit_char_def horner_def)
next
  case False
  with assms show ?thesis
    by (intro that [of "rev (udigits b n)"])
      (auto simp: numeral_of_def horner_udigits udigits_bound udigits_nonempty)
qed

lemma read_numeral_start:
  assumes "cstr m p (map digit_char ds)" and "ds \<noteq> []" and "\<forall>d \<in> set ds. d < 36"
  shows "skip_blanks m p = Some p" and "read_sign m p = (False, p)"
proof -
  from assms(2) obtain d ds' where "ds = d # ds'" by (cases ds) auto
  with assms have "m p = digit_char d" "d < 36" by simp_all
  then show "skip_blanks m p = Some p" "read_sign m p = (False, p)"
    using digit_char_eval [of d] by (simp_all add: skip_blanks.simps read_sign_def)
qed

lemma read_minus_start:
  "m p = 45 \<Longrightarrow> skip_blanks m p = Some p" "m p = 45 \<Longrightarrow> read_sign m p = (True, p + 1)"
  by (simp_all add: skip_blanks.simps read_sign_def is_blank_def)

lemma ato_number_numeral:
  assumes "cstr m p (numeral_of 10 n)"
  shows "(ato_number m p :: 'a::len word option) = Some (of_nat n)"
proof -
  obtain ds where ds: "numeral_of 10 n = map digit_char ds" "ds \<noteq> []" "\<forall>d \<in> set ds. d < 10" "horner 10 ds = n"
    by (rule numeral_of_digits [of 10 n]) auto
  have c: "cstr m p (map digit_char ds)" using assms ds(1) by simp
  have "\<forall>d \<in> set ds. d < 36" using ds(3) by auto
  note st = read_numeral_start [OF c ds(2) this]
  from st ds(4) atoi_digits_horner [OF c ds(3), where 'a = 'a] show ?thesis by (simp add: ato_number_def)
qed

lemma ato_number_minus:
  assumes "cstr m p (45 # numeral_of 10 n)"
  shows "(ato_number m p :: 'a::len word option) = Some (- of_nat n)"
proof -
  obtain ds where ds: "numeral_of 10 n = map digit_char ds" "ds \<noteq> []" "\<forall>d \<in> set ds. d < 10" "horner 10 ds = n"
    by (rule numeral_of_digits [of 10 n]) auto
  have c: "cstr m (p + 1) (map digit_char ds)" and p: "m p = 45" using assms ds(1) by simp_all
  from read_minus_start [of m p] p ds(4) atoi_digits_horner [OF c ds(3), where 'a = 'a] show ?thesis by (simp add: ato_number_def)
qed

lemma strtol_prefix_numeral:
  assumes "cstr m p (map digit_char ds)" and "\<forall>d \<in> set ds. d < unat base" and "2 \<le> unat base" and "ds \<noteq> []"
  shows "strtol_prefix m p base = (p, base)"
proof (cases "base = 16")
  case True
  then have lt: "\<forall>d \<in> set ds. d < 16" using assms(2) by simp
  have "m (p + 1) \<noteq> 120 \<and> m (p + 1) \<noteq> 88"
  proof (cases "tl ds")
    case Nil
    then have "length ds = 1" using assms(4) by (cases ds) auto
    then have "m (p + 1) = 0" using assms(1) by (cases ds) auto
    then show ?thesis by simp
  next
    case (Cons d ds')
    then obtain e where ds: "ds = e # d # ds'" using assms(4) by (cases ds) auto
    with assms(1) lt have "m (p + 1) = digit_char d" "d < 16" by auto
    then show ?thesis using digit_char_eval(6,7) [of d] by auto
  qed
  with True show ?thesis by (simp add: strtol_prefix_def)
next
  case False
  moreover have "base \<noteq> 0" using assms(3) by auto
  ultimately show ?thesis by (simp add: strtol_prefix_def)
qed

lemma strtol_numeral:
  assumes "2 \<le> unat base" and "unat base \<le> 36" and "cstr m p (numeral_of (unat base) n)"
  shows "strtol m p base = Some (of_nat n, p + of_nat (length (numeral_of (unat base) n)))"
    and "\<And>q. q + 1 = p \<Longrightarrow> m q = 45 \<Longrightarrow> strtol m q base = Some (- of_nat n, p + of_nat (length (numeral_of (unat base) n)))"
proof -
  obtain ds where ds: "numeral_of (unat base) n = map digit_char ds" "ds \<noteq> []" "\<forall>d \<in> set ds. d < unat base"
    "horner (unat base) ds = n"
    by (rule numeral_of_digits [OF assms(1), of n]) auto
  have c: "cstr m p (map digit_char ds)" using assms(3) ds(1) by simp
  have "\<forall>d \<in> set ds. d < 36" using ds(3) assms(2) by auto
  note st = read_numeral_start [OF c ds(2) this]
  have sd: "strtol_digits m p base 0 = Some (of_nat n, p + of_nat (length ds))"
    using strtol_digits_spec [OF c ds(3) assms(2), of 0] foldl_of_nat [of "unat base" 0 ds] ds(4)
    by (simp add: horner_def)
  note pre = strtol_prefix_numeral [OF c ds(3) assms(1) ds(2)]
  show "strtol m p base = Some (of_nat n, p + of_nat (length (numeral_of (unat base) n)))"
    using st sd pre ds(1) by (simp add: strtol_def)
  show "strtol m q base = Some (- of_nat n, p + of_nat (length (numeral_of (unat base) n)))"
    if "q + 1 = p" "m q = 45" for q
    using read_minus_start [of m q] that sd pre ds(1) by (simp add: strtol_def)
qed

section \<open>Loops over memory\<close>

lemma zero_loop_spec:
  "i \<le> tot \<Longrightarrow> zero_loop m p i tot = (\<lambda>x. if x \<in> region (p + i) (unat (tot - i)) then 0 else m x)"
proof (induction m p i tot rule: zero_loop.induct)
  case (1 m p i tot)
  show ?case
  proof (cases "i < tot")
    case True
    then have "i + 1 \<le> tot" by (simp add: inc_le)
    note IH = 1(1) [OF True this]
    have n: "unat (tot - i) = Suc (unat (tot - (i + 1)))" using True by (intro unat_diff_step) auto
    have "region (p + i) (unat (tot - i)) = insert (p + i) (region (p + (i + 1)) (unat (tot - (i + 1))))"
      unfolding n by (subst region_Suc) (simp_all add: add.assoc)
    moreover have "zero_loop m p i tot = zero_loop (m(p + i := 0)) p (i + 1) tot"
      using True by (subst zero_loop.simps) simp
    ultimately show ?thesis unfolding IH by (auto simp: fun_eq_iff)
  next
    case False
    with "1.prems" have "i = tot" by simp
    then show ?thesis by (subst zero_loop.simps) simp
  qed
qed

text \<open>What binary search finds, given that the comparison with the key is monotone along the array.\<close>

definition elem_addr :: "u64 \<Rightarrow> u64 \<Rightarrow> nat \<Rightarrow> u64" where
  "elem_addr base sz i = base + of_nat i * sz"

text \<open>
  What a search of \<open>n\<close> elements may return: the address of an element that compares equal, or 0 when there is
  none. Extending the range, at either end, by elements that do not compare equal keeps the result.
\<close>
definition search_result :: "(mem \<Rightarrow> u64 \<Rightarrow> u64 \<Rightarrow> int) \<Rightarrow> mem \<Rightarrow> u64 \<Rightarrow> u64 \<Rightarrow> u64 \<Rightarrow> nat \<Rightarrow> u64 \<Rightarrow> bool" where
  "search_result compar m key base sz n r \<longleftrightarrow>
    (\<exists>i < n. r = elem_addr base sz i \<and> compar m key (elem_addr base sz i) = 0) \<or>
    r = 0 \<and> (\<forall>i < n. compar m key (elem_addr base sz i) \<noteq> 0)"

lemma search_result_upwards:
  assumes "search_result compar m key base sz h r" and "h \<le> n" and "\<And>i. h \<le> i \<Longrightarrow> i < n \<Longrightarrow> compar m key (elem_addr base sz i) \<noteq> 0"
  shows "search_result compar m key base sz n r"
proof -
  have "compar m key (elem_addr base sz i) \<noteq> 0" if "\<forall>i < h. compar m key (elem_addr base sz i) \<noteq> 0" "i < n" for i
    using that assms(3) [of i] by (cases "i < h") auto
  then show ?thesis using assms(1,2) unfolding search_result_def by (metis less_le_trans)
qed

lemma elem_addr_add: "elem_addr (elem_addr base sz k) sz i = elem_addr base sz (k + i)"
  by (simp add: elem_addr_def distrib_right add.assoc)

lemma search_result_downwards:
  assumes "search_result compar m key (elem_addr base sz k) sz n r" and "\<And>i. i < k \<Longrightarrow> compar m key (elem_addr base sz i) \<noteq> 0"
  shows "search_result compar m key base sz (k + n) r"
  using assms(1) unfolding search_result_def elem_addr_add
proof (elim disjE exE conjE)
  fix i assume "i < n" "r = elem_addr base sz (k + i)" "compar m key (elem_addr base sz (k + i)) = 0"
  then show "(\<exists>i<k + n. r = elem_addr base sz i \<and> compar m key (elem_addr base sz i) = 0) \<or>
      r = 0 \<and> (\<forall>i<k + n. compar m key (elem_addr base sz i) \<noteq> 0)"
    by (intro disjI1 exI [of _ "k + i"]) simp
next
  assume z: "r = 0" "\<forall>i<n. compar m key (elem_addr base sz (k + i)) \<noteq> 0"
  have "compar m key (elem_addr base sz i) \<noteq> 0" if "i < k + n" for i
    using assms(2) [of i] z(2) [rule_format, of "i - k"] that by (cases "i < k") auto
  with z(1) show "(\<exists>i<k + n. r = elem_addr base sz i \<and> compar m key (elem_addr base sz i) = 0) \<or>
      r = 0 \<and> (\<forall>i<k + n. compar m key (elem_addr base sz i) \<noteq> 0)" by blast
qed

lemma bsearch_result:
  assumes "\<And>i j. i < j \<Longrightarrow> j < unat num \<Longrightarrow> compar m key (elem_addr base sz i) < 0 \<Longrightarrow> compar m key (elem_addr base sz j) < 0"
    and "\<And>i j. i < j \<Longrightarrow> j < unat num \<Longrightarrow> compar m key (elem_addr base sz j) > 0 \<Longrightarrow> compar m key (elem_addr base sz i) > 0"
  shows "search_result compar m key base sz (unat num) (bsearch compar m key base num sz)"
  using assms
proof (induction compar m key base num sz rule: bsearch.induct)
  case (1 compar m key base num sz)
  let ?h = "unat num div 2" and ?p = "base + (num div 2) * sz"
  show ?case
  proof (cases "num > 0")
    case False
    then have "num = 0" by (simp add: word_gt_0)
    then show ?thesis by (simp add: bsearch.simps search_result_def)
  next
    case True
    then have n: "0 < unat num" by (simp add: unat_gt_0)
    have "?h < 2 ^ 64" using unat_lt_2p64 [of num] by (simp del: unat_lt_2p64)
    then have "num div 2 = of_nat ?h" by (simp add: word_unat_eq_iff unat_div unat_of_nat_64)
    then have p: "?p = elem_addr base sz ?h" "?p + sz = elem_addr base sz (?h + 1)" by (simp_all add: elem_addr_def distrib_right)
    consider (eq) "compar m key ?p = 0" | (gt) "compar m key ?p > 0" | (lt) "compar m key ?p < 0" by linarith
    then show ?thesis
    proof cases
      case eq
      then have "bsearch compar m key base num sz = ?p" using True by (subst bsearch.simps) simp
      with eq p(1) n show ?thesis unfolding search_result_def by (intro disjI1 exI [of _ ?h]) auto
    next
      case gt
      have "unat (num - num div 2) = unat num - ?h" by (simp add: unat_sub_if' unat_div)
      then have u: "unat (num - num div 2 - 1) = unat num - ?h - 1" using n by (subst unat_minus_1_64) (auto simp: word_unat_eq_iff unat_div)
      have "search_result compar m key (?p + sz) sz (unat (num - num div 2 - 1)) (bsearch compar m key (?p + sz) (num - num div 2 - 1) sz)"
        using gt True 1(3) [of "?h + 1 + _" "?h + 1 + _"] 1(4) [of "?h + 1 + _" "?h + 1 + _"]
        by (intro 1(1)) (auto simp: p(2) elem_addr_add u)
      moreover have "bsearch compar m key base num sz = bsearch compar m key (?p + sz) (num - num div 2 - 1) sz"
        using True gt by (subst bsearch.simps) simp
      moreover have "compar m key (elem_addr base sz i) \<noteq> 0" if "i < ?h + 1" for i
        using gt 1(4) [of i ?h] that n p(1) by (cases "i = ?h") auto
      ultimately show ?thesis using search_result_downwards [of compar m key base sz "?h + 1" "unat num - ?h - 1"] n unfolding p(2) u by simp
    next
      case lt
      have u: "unat (num div 2) = ?h" by (simp add: unat_div)
      have "search_result compar m key base sz (unat (num div 2)) (bsearch compar m key base (num div 2) sz)"
        using lt True 1(3,4) by (intro 1(2)) (auto simp: u)
      moreover have "bsearch compar m key base num sz = bsearch compar m key base (num div 2) sz"
        using True lt by (subst bsearch.simps) simp
      moreover have "compar m key (elem_addr base sz i) \<noteq> 0" if "?h \<le> i" "i < unat num" for i
        using lt 1(3) [of ?h i] that p(1) by (cases "i = ?h") auto
      ultimately show ?thesis using search_result_upwards [of compar m key base sz ?h _ "unat num"] unfolding u by simp
    qed
  qed
qed

section \<open>Properties\<close>

text \<open>
  C1. Round trip: for every 32-bit value, \<open>itoa\<close> in base 10 writes a string that \<open>atoi\<close> reads back
  as the same value; this holds for the smallest value too.
\<close>
theorem itoa_atoi_round_trip:
  "\<exists>m'. itoa m v str 10 = Some (m', str) \<and> atoi m' str = Some v"
proof -
  obtain m' where m': "itoa m v str 10 = Some (m', str)" "cstr m' str (signed_numeral v 10)"
    using itoa_spec [of 10 m v str] by auto
  show ?thesis
  proof (cases "sint v < 0")
    case True
    with m'(2) have "atoi m' str = Some (- of_nat (nat (- sint v)))"
      by (simp add: atoi_def signed_numeral_def ato_number_minus del: cstr.simps)
    moreover have "of_nat (nat (- sint v)) = - v" unfolding unat_neg [OF True, symmetric] by simp
    ultimately show ?thesis using m'(1) by simp
  next
    case False
    with m' show ?thesis by (simp add: atoi_def signed_numeral_def ato_number_numeral)
  qed
qed

text \<open>
  C33. For every base from 2 to 36, \<open>strtol\<close> reads what \<open>itoa\<close> wrote, stops at its NUL, and gives the
  signed value in base 10 and the unsigned value in every other base.
\<close>
theorem itoa_strtol_round_trip:
  assumes "2 \<le> unat base" and "unat base \<le> 36"
  shows "\<exists>m' k. itoa m v str base = Some (m', str) \<and> m' (str + of_nat k) = 0 \<and>
    strtol m' str base = Some (if base = 10 then scast v else ucast v, str + of_nat k)"
proof -
  let ?s = "signed_numeral v base"
  obtain m' where m': "itoa m v str base = Some (m', str)" "cstr m' str ?s"
    using itoa_spec [OF assms, of m v str] by blast
  note stop = cstr_end [OF m'(2)]
  show ?thesis
  proof (cases "sint v < 0 \<and> base = 10")
    case True
    let ?n = "nat (- sint v)"
    from True m'(2) have c: "m' str = 45" "cstr m' (str + 1) (numeral_of (unat base) ?n)"
      by (simp_all add: signed_numeral_def)
    have "(- of_nat ?n :: i64) = scast v"
    proof -
      have "(of_nat ?n :: i64) = of_int (- sint v)" using True by (subst of_nat_nat) simp_all
      then show ?thesis by simp
    qed
    with strtol_numeral(2) [OF assms c(2), of str] c(1) True stop m'(1) show ?thesis
      by (intro exI [of _ m'] exI [of _ "length ?s"]) (simp add: signed_numeral_def add.assoc)
  next
    case False
    then have s: "?s = numeral_of (unat base) (unat v)" by (auto simp: signed_numeral_def)
    have "(of_nat (unat v) :: i64) = (if base = 10 then scast v else ucast v)"
    proof (cases "base = 10")
      case True
      then have "sint v = int (unat v)" using False sint_conv [of v] uint_lt2p [of v] by (cases "bit v 31") auto
      then have "(scast v :: i64) = of_int (int (unat v))" by (metis of_int_sint)
      then show ?thesis using True by simp
    qed simp
    with strtol_numeral(1) [OF assms, of m' str "unat v"] s m' stop show ?thesis
      by (intro exI [of _ m'] exI [of _ "length ?s"]) simp
  qed
qed

theorem itoa_strtol_round_trip_witness:
  "\<exists>m' k. itoa (\<lambda>_. 1) (- 1) 0x1000 16 = Some (m', 0x1000) \<and> strtol m' 0x1000 16 = Some (0xFFFFFFFF, 0x1000 + of_nat k)"
proof -
  have "(ucast (- 1 :: i32) :: i64) = 0xFFFFFFFF" by code_simp
  then show ?thesis using itoa_strtol_round_trip [of 16 "\<lambda>_. 1" "- 1" "0x1000"] by (simp add: unsigned_minus_1_eq_mask) blast
qed

text \<open>
  C3. On an array along which the comparison with the key goes from positive over zero to negative,
  \<open>bsearch\<close> returns the address of an element that compares equal, or NULL when there is none.
\<close>
theorem bsearch_correct:
  assumes "\<forall>i j. i < j \<and> j < unat num \<longrightarrow> sgn (compar m key (elem_addr base sz j)) \<le> sgn (compar m key (elem_addr base sz i))"
  shows "(\<exists>i < unat num. bsearch compar m key base num sz = elem_addr base sz i \<and> compar m key (elem_addr base sz i) = 0) \<or>
    bsearch compar m key base num sz = 0 \<and> (\<forall>i < unat num. compar m key (elem_addr base sz i) \<noteq> 0)"
proof (rule bsearch_result [unfolded search_result_def])
  fix i j assume ij: "i < j" "j < unat num"
  then have s: "sgn (compar m key (elem_addr base sz j)) \<le> sgn (compar m key (elem_addr base sz i))" using assms by blast
  show "compar m key (elem_addr base sz i) < 0 \<Longrightarrow> compar m key (elem_addr base sz j) < 0"
    using s by (auto simp: sgn_if split: if_splits)
  show "compar m key (elem_addr base sz j) > 0 \<Longrightarrow> compar m key (elem_addr base sz i) > 0"
    using s by (auto simp: sgn_if split: if_splits)
qed

definition byte_compar :: "mem \<Rightarrow> u64 \<Rightarrow> u64 \<Rightarrow> int" where
  "byte_compar m a b = uint (m a) - uint (m b)"

theorem bsearch_correct_witness:
  "bsearch byte_compar ((\<lambda>_. 0)(0x100 := 3, 0x101 := 5, 0x102 := 9, 0x50 := 5)) 0x50 0x100 3 1 = 0x101"
proof -
  let ?m = "(\<lambda>_. 0)(0x100 := 3, 0x101 := 5, 0x102 := 9, 0x50 := 5) :: mem"
  have cmp: "byte_compar ?m 0x50 (elem_addr 0x100 1 0) = 2" "byte_compar ?m 0x50 (elem_addr 0x100 1 1) = 0"
    "byte_compar ?m 0x50 (elem_addr 0x100 1 2) = - 4" by code_simp+
  have cases: "i = 0 \<or> i = 1 \<or> i = 2" if "i < unat (3 :: u64)" for i using that by auto
  have mono: "\<forall>i j. i < j \<and> j < unat (3 :: u64) \<longrightarrow>
      sgn (byte_compar ?m 0x50 (elem_addr 0x100 1 j)) \<le> sgn (byte_compar ?m 0x50 (elem_addr 0x100 1 i))"
  proof (intro allI impI)
    fix i j :: nat assume "i < j \<and> j < unat (3 :: u64)"
    then have "i = 0 \<and> j = 1 \<or> i = 0 \<and> j = 2 \<or> i = 1 \<and> j = 2" by auto
    then show "sgn (byte_compar ?m 0x50 (elem_addr 0x100 1 j)) \<le> sgn (byte_compar ?m 0x50 (elem_addr 0x100 1 i))"
      by (elim disjE conjE) (simp_all only: cmp, simp_all)
  qed
  let ?b = "bsearch byte_compar ?m 0x50 0x100 3 1"
  from bsearch_correct [where compar = byte_compar and m = ?m and key = "0x50" and base = "0x100" and sz = 1 and num = 3, OF mono]
  consider (hit) i where "i < unat (3 :: u64)" "?b = elem_addr 0x100 1 i" "byte_compar ?m 0x50 (elem_addr 0x100 1 i) = 0"
    | (miss) "\<forall>i < unat (3 :: u64). byte_compar ?m 0x50 (elem_addr 0x100 1 i) \<noteq> 0" by blast
  then show ?thesis
  proof cases
    case hit
    from cases [OF hit(1)] have "i = 1"
    proof (elim disjE)
      assume "i = 0" with hit(3) cmp(1) show "i = 1" by (simp only: zero_neq_numeral)
    next
      assume "i = 2" with hit(3) cmp(3) show "i = 1" by (simp only: zero_neq_neg_numeral)
    qed
    with hit(2) show ?thesis by (simp add: elem_addr_def)
  next
    case miss
    have "(1 :: nat) < unat (3 :: u64)" by simp
    with miss have "byte_compar ?m 0x50 (elem_addr 0x100 1 1) \<noteq> 0" by blast
    with cmp(2) show ?thesis by simp
  qed
qed

text \<open>
  C4. The pivot of \<open>qsort\<close> is a pointer into the array, so exchanges move the pivot value: the sort
  returns with an array that is not sorted.
\<close>
theorem qsort_does_not_sort:
  "map_option (\<lambda>m. bytes_at m 0x100 4)
     (qsort byte_compar ((\<lambda>_. 0)(0x100 := 2, 0x101 := 2, 0x102 := 0, 0x103 := 1)) 0x100 4 1) = Some [0, 2, 1, 2]"
  by code_simp

end
