(* ===== verification/TlsfLists.thy ===== *)
theory TlsfLists
  imports Tlsf
begin

text \<open>
  The segregated free lists of the heap (\<open>mm/heapalloc/tlsf.c\<close>: \<open>search_suitable_block\<close>,
  \<open>remove_free_block\<close>, \<open>insert_free_block\<close>). The invariant says that the control structure indexes,
  for every size class, one doubly linked list, and that the two levels of bitmaps mark exactly the
  classes whose list is not empty. Insertion and removal refine the operations on lists, and the
  search finds the first list at or after a class, in the order of the classes.
\<close>

section \<open>Memory frames\<close>

lemma read32_cong: "(\<And>x. x \<in> region p 4 \<Longrightarrow> m x = m' x) \<Longrightarrow> read32 m p = read32 m' p"
  unfolding read32_def by (rule arg_cong [where f = le_join], rule bytes_at_cong) (simp add: region_offset)

lemma write32_outside [frame_simps]: "x \<notin> region p 4 \<Longrightarrow> write32 m p v x = m x"
  by (simp add: write32_def store_bytes_outside)

lemma read64_write32_other: "disjoint_regions p 4 q 8 \<Longrightarrow> read64 (write32 m p v) q = read64 m q"
  by (rule read64_cong) (simp add: write32_outside disjoint_regionsD)

lemma read32_write64_other: "disjoint_regions p 8 q 4 \<Longrightarrow> read32 (write64 m p v) q = read32 m q"
  by (rule read32_cong) (simp add: write64_outside disjoint_regionsD)

lemma read32_write32_other: "disjoint_regions p 4 q 4 \<Longrightarrow> read32 (write32 m p v) q = read32 m q"
  by (rule read32_cong) (simp add: write32_outside disjoint_regionsD)

lemmas other_word = read64_write64_other read64_write32_other read32_write64_other read32_write32_other

section \<open>The control structure\<close>

definition idx :: "int \<Rightarrow> int \<Rightarrow> bool" where
  "idx i j \<longleftrightarrow> 0 \<le> i \<and> i < 25 \<and> 0 \<le> j \<and> j < 32"

lemma control_addrs:
  "c + 32 = c + of_nat 32"
  "0 \<le> i \<Longrightarrow> c + 36 + of_int (4 * i) = c + of_nat (36 + 4 * nat i)"
  "idx i j \<Longrightarrow> head_addr c i j = c + of_nat (136 + 8 * (32 * nat i + nat j))"
  by (simp_all add: head_addr_def idx_def add.assoc)

lemma cell_cases:
  assumes "idx i j" "idx i' j'" "(i, j) \<noteq> (i', j')"
  shows "136 + 8 * (32 * nat i + nat j) + 8 \<le> 136 + 8 * (32 * nat i' + nat j') \<or>
    136 + 8 * (32 * nat i' + nat j') + 8 \<le> 136 + 8 * (32 * nat i + nat j)"
  using assms unfolding idx_def by (cases "i = i'") auto

lemma heads_algebra:
  assumes "idx i j"
  shows "blocks (set_blocks c i j v m) c i j = v"
    and "idx i' j' \<Longrightarrow> (i', j') \<noteq> (i, j) \<Longrightarrow> blocks (set_blocks c i j v m) c i' j' = blocks m c i' j'"
    and "0 \<le> i' \<Longrightarrow> i' < 25 \<Longrightarrow> sl_bitmap (set_blocks c i j v m) c i' = sl_bitmap m c i'"
    and "fl_bitmap (set_blocks c i j v m) c = fl_bitmap m c"
proof -
  show "blocks (set_blocks c i j v m) c i j = v"
    by (simp add: blocks_def set_blocks_def read64_write64)
  have o: "136 + 8 * (32 * nat i + nat j) + 8 \<le> 2 ^ 64" using assms by (auto simp: idx_def)
  show "blocks (set_blocks c i j v m) c i' j' = blocks m c i' j'" if "idx i' j'" "(i', j') \<noteq> (i, j)"
    unfolding blocks_def set_blocks_def control_addrs(3) [OF assms] control_addrs(3) [OF that(1)]
    using cell_cases [OF assms that(1)] that o by (intro read64_write64_other disjoint_offsets) (auto simp: idx_def)
  show "sl_bitmap (set_blocks c i j v m) c i' = sl_bitmap m c i'" if "0 \<le> i'" "i' < 25"
    unfolding sl_bitmap_def set_blocks_def control_addrs(3) [OF assms] control_addrs(2) [OF that(1)]
    using that o by (intro other_word disjoint_offsets) auto
  show "fl_bitmap (set_blocks c i j v m) c = fl_bitmap m c"
    unfolding fl_bitmap_def set_blocks_def control_addrs(3) [OF assms] control_addrs(1) [of c]
    using o by (intro other_word disjoint_offsets) auto
qed

lemma sl_algebra:
  assumes "0 \<le> i" "i < 25"
  shows "sl_bitmap (set_sl_bitmap c i v m) c i = v"
    and "0 \<le> i' \<Longrightarrow> i' < 25 \<Longrightarrow> i' \<noteq> i \<Longrightarrow> sl_bitmap (set_sl_bitmap c i v m) c i' = sl_bitmap m c i'"
    and "idx i' j' \<Longrightarrow> blocks (set_sl_bitmap c i v m) c i' j' = blocks m c i' j'"
    and "fl_bitmap (set_sl_bitmap c i v m) c = fl_bitmap m c"
proof -
  show "sl_bitmap (set_sl_bitmap c i v m) c i = v"
    by (simp add: sl_bitmap_def set_sl_bitmap_def read32_write32)
  show "sl_bitmap (set_sl_bitmap c i v m) c i' = sl_bitmap m c i'" if "0 \<le> i'" "i' < 25" "i' \<noteq> i"
    unfolding sl_bitmap_def set_sl_bitmap_def control_addrs(2) [OF assms(1)] control_addrs(2) [OF that(1)]
    using that assms by (intro other_word disjoint_offsets) auto
  show "blocks (set_sl_bitmap c i v m) c i' j' = blocks m c i' j'" if "idx i' j'"
    unfolding blocks_def set_sl_bitmap_def control_addrs(2) [OF assms(1)] control_addrs(3) [OF that]
    using that assms by (intro other_word disjoint_offsets) (auto simp: idx_def)
  show "fl_bitmap (set_sl_bitmap c i v m) c = fl_bitmap m c"
    unfolding fl_bitmap_def set_sl_bitmap_def control_addrs(2) [OF assms(1)] control_addrs(1) [of c]
    using assms by (intro other_word disjoint_offsets) auto
qed

lemma fl_algebra:
  "fl_bitmap (set_fl_bitmap c v m) c = v"
  "0 \<le> i \<Longrightarrow> i < 25 \<Longrightarrow> sl_bitmap (set_fl_bitmap c v m) c i = sl_bitmap m c i"
  "idx i j \<Longrightarrow> blocks (set_fl_bitmap c v m) c i j = blocks m c i j"
proof -
  show "fl_bitmap (set_fl_bitmap c v m) c = v"
    by (simp add: fl_bitmap_def set_fl_bitmap_def read32_write32)
  show "sl_bitmap (set_fl_bitmap c v m) c i = sl_bitmap m c i" if "0 \<le> i" "i < 25"
    unfolding sl_bitmap_def set_fl_bitmap_def control_addrs(2) [OF that(1)] control_addrs(1) [of c]
    using that by (intro other_word disjoint_offsets) auto
  show "blocks (set_fl_bitmap c v m) c i j = blocks m c i j" if "idx i j"
    unfolding blocks_def set_fl_bitmap_def control_addrs(3) [OF that] control_addrs(1) [of c]
    using that by (intro other_word disjoint_offsets) (auto simp: idx_def)
qed

text \<open>The bytes of the control structure, and what the setters touch of it.\<close>

definition ctl :: "u64 \<Rightarrow> u64 set" where "ctl c = region c 6536"

lemma control_setters_outside:
  assumes "x \<notin> ctl c"
  shows "idx i j \<Longrightarrow> set_blocks c i j v m x = m x"
    and "0 \<le> i \<Longrightarrow> i < 25 \<Longrightarrow> set_sl_bitmap c i w m x = m x"
    and "set_fl_bitmap c w m x = m x"
    and "set_next_free c v m x = m x" and "set_prev_free c v m x = m x"
proof -
  have sub: "x \<notin> region (c + of_nat a) k" if "a + k \<le> 6536" for a k
    using region_shift [of k a 6536 c] that assms by (auto simp: ctl_def)
  show "set_blocks c i j v m x = m x" if "idx i j"
    unfolding set_blocks_def control_addrs(3) [OF that] using that by (intro write64_outside sub) (auto simp: idx_def)
  show "set_sl_bitmap c i w m x = m x" if "0 \<le> i" "i < 25"
    unfolding set_sl_bitmap_def control_addrs(2) [OF that(1)] using that by (intro write32_outside sub) auto
  show "set_fl_bitmap c w m x = m x"
    unfolding set_fl_bitmap_def control_addrs(1) [of c] by (intro write32_outside sub) simp
  show "set_next_free c v m x = m x" "set_prev_free c v m x = m x"
    unfolding set_next_free_def set_prev_free_def
    using sub [of 16 8] sub [of 24 8] by (simp_all add: write64_outside)
qed

section \<open>Links\<close>

text \<open>The two link fields of a node; distinct nodes keep theirs apart. The null block is a node.\<close>

definition separate :: "u64 set \<Rightarrow> bool" where
  "separate N \<longleftrightarrow> (\<forall>b \<in> N. \<forall>b' \<in> N. b \<noteq> b' \<longrightarrow> disjoint_regions (b + 16) 16 (b' + 16) 16)"

lemma link_regions: "region (b + 16) 8 \<subseteq> region (b + 16) 16" "region (b + 24) 8 \<subseteq> region (b + 16) 16"
  using region_mono [of 8 16 "b + 16"] region_shift [of 8 8 16 "b + 16"] by (simp_all add: add.commute)

lemma separate_links:
  assumes "separate N" "b \<in> N" "b' \<in> N" "b \<noteq> b'" "x \<in> {b + 16, b + 24}" "y \<in> {b' + 16, b' + 24}"
  shows "disjoint_regions x 8 y 8"
proof -
  have "region x 8 \<subseteq> region (b + 16) 16" "region y 8 \<subseteq> region (b' + 16) 16"
    using assms(5,6) link_regions by blast+
  with assms(1-4) show ?thesis unfolding separate_def by (blast intro: disjoint_regions_mono)
qed

lemma own_links: "disjoint_regions (b + 16) 8 (b + 24) 8" "disjoint_regions (b + 24) 8 (b + 16) 8"
  using disjoint_offsets [of 16 8 24 8 b] disjoint_offsets [of 24 8 16 8 b] by simp_all

lemma link_algebra:
  assumes "separate N" "b \<in> N" "b' \<in> N"
  shows "next_free (set_next_free b v m) b' = (if b' = b then v else next_free m b')"
    and "prev_free (set_prev_free b v m) b' = (if b' = b then v else prev_free m b')"
    and "next_free (set_prev_free b v m) b' = next_free m b'"
    and "prev_free (set_next_free b v m) b' = prev_free m b'"
proof -
  note sep = separate_links [OF assms]
  show "next_free (set_next_free b v m) b' = (if b' = b then v else next_free m b')"
    using sep [of "b + 16" "b' + 16"] by (auto simp: next_free_def set_next_free_def read64_write64 read64_write64_other)
  show "prev_free (set_prev_free b v m) b' = (if b' = b then v else prev_free m b')"
    using sep [of "b + 24" "b' + 24"] by (auto simp: prev_free_def set_prev_free_def read64_write64 read64_write64_other)
  show "next_free (set_prev_free b v m) b' = next_free m b'"
    using sep [of "b + 24" "b' + 16"] own_links [of b]
    by (cases "b' = b") (auto simp: next_free_def set_prev_free_def read64_write64_other)
  show "prev_free (set_next_free b v m) b' = prev_free m b'"
    using sep [of "b + 16" "b' + 24"] own_links [of b]
    by (cases "b' = b") (auto simp: prev_free_def set_next_free_def read64_write64_other)
qed

text \<open>A node outside the control structure, or the null block, does not share its index.\<close>

lemma node_control:
  assumes "b = c \<or> disjoint_regions (b + 16) 16 c 6536"
  shows "idx i j \<Longrightarrow> blocks (set_next_free b v m) c i j = blocks m c i j"
    and "idx i j \<Longrightarrow> blocks (set_prev_free b v m) c i j = blocks m c i j"
    and "0 \<le> i \<Longrightarrow> i < 25 \<Longrightarrow> sl_bitmap (set_next_free b v m) c i = sl_bitmap m c i"
    and "0 \<le> i \<Longrightarrow> i < 25 \<Longrightarrow> sl_bitmap (set_prev_free b v m) c i = sl_bitmap m c i"
    and "fl_bitmap (set_next_free b v m) c = fl_bitmap m c"
    and "fl_bitmap (set_prev_free b v m) c = fl_bitmap m c"
proof -
  have dis: "disjoint_regions x 8 (c + of_nat a) k" if "32 \<le> a" "a + k \<le> 6536" "x \<in> {b + 16, b + 24}" for x a k
    using assms
  proof
    assume "b = c"
    then show ?thesis using that disjoint_offsets [of 16 8 a k c] disjoint_offsets [of 24 8 a k c] by auto
  next
    assume d: "disjoint_regions (b + 16) 16 c 6536"
    have "region x 8 \<subseteq> region (b + 16) 16"
      using that(3) link_regions by blast
    moreover have "region (c + of_nat a) k \<subseteq> region c 6536" using that(2) region_shift [of k a 6536 c] by simp
    ultimately show ?thesis using d by (blast intro: disjoint_regions_mono)
  qed
  show "blocks (set_next_free b v m) c i j = blocks m c i j" "blocks (set_prev_free b v m) c i j = blocks m c i j" if "idx i j"
    unfolding blocks_def set_next_free_def set_prev_free_def control_addrs(3) [OF that]
    using that by (auto intro!: other_word dis simp: idx_def simp del: of_nat_add of_nat_mult)
  show "sl_bitmap (set_next_free b v m) c i = sl_bitmap m c i" "sl_bitmap (set_prev_free b v m) c i = sl_bitmap m c i"
    if "0 \<le> i" "i < 25"
    unfolding sl_bitmap_def set_next_free_def set_prev_free_def control_addrs(2) [OF that(1)]
    using that by (auto intro!: other_word dis simp del: of_nat_add of_nat_mult)
  show "fl_bitmap (set_next_free b v m) c = fl_bitmap m c" "fl_bitmap (set_prev_free b v m) c = fl_bitmap m c"
    unfolding fl_bitmap_def set_next_free_def set_prev_free_def control_addrs(1) [of c]
    by (auto intro!: other_word dis simp del: of_nat_numeral)
qed

lemma control_links:
  assumes "disjoint_regions (b + 16) 16 c 6536"
  shows "idx i j \<Longrightarrow> next_free (set_blocks c i j v m) b = next_free m b"
    and "idx i j \<Longrightarrow> prev_free (set_blocks c i j v m) b = prev_free m b"
    and "0 \<le> i \<Longrightarrow> i < 25 \<Longrightarrow> next_free (set_sl_bitmap c i w m) b = next_free m b"
    and "0 \<le> i \<Longrightarrow> i < 25 \<Longrightarrow> prev_free (set_sl_bitmap c i w m) b = prev_free m b"
    and "next_free (set_fl_bitmap c w m) b = next_free m b"
    and "prev_free (set_fl_bitmap c w m) b = prev_free m b"
proof -
  have "x \<notin> ctl c" if "x \<in> region (b + 16) 8 \<or> x \<in> region (b + 24) 8" for x
    using that assms link_regions [of b] unfolding ctl_def disjoint_regions_def by blast
  then show "idx i j \<Longrightarrow> next_free (set_blocks c i j v m) b = next_free m b"
    "idx i j \<Longrightarrow> prev_free (set_blocks c i j v m) b = prev_free m b"
    "0 \<le> i \<Longrightarrow> i < 25 \<Longrightarrow> next_free (set_sl_bitmap c i w m) b = next_free m b"
    "0 \<le> i \<Longrightarrow> i < 25 \<Longrightarrow> prev_free (set_sl_bitmap c i w m) b = prev_free m b"
    "next_free (set_fl_bitmap c w m) b = next_free m b" "prev_free (set_fl_bitmap c w m) b = prev_free m b"
    unfolding next_free_def prev_free_def by (intro read64_cong; simp add: control_setters_outside)+
qed

section \<open>Doubly linked lists\<close>

definition hd_or :: "u64 \<Rightarrow> u64 list \<Rightarrow> u64" where
  "hd_or c xs = (case xs of [] \<Rightarrow> c | x # _ \<Rightarrow> x)"

definition last_or :: "u64 \<Rightarrow> u64 list \<Rightarrow> u64" where
  "last_or p xs = (if xs = [] then p else last xs)"

lemma hd_or_simps [simp]: "hd_or c [] = c" "hd_or c (x # xs) = x"
  by (simp_all add: hd_or_def)

lemma last_or_simps [simp]: "last_or p [] = p" "last_or p (x # xs) = last_or x xs"
  by (auto simp: last_or_def)

lemma hd_or_in: "hd_or c xs \<in> insert c (set xs)"
  by (cases xs) simp_all

lemma last_or_in: "last_or c xs \<in> insert c (set xs)"
  by (simp add: last_or_def)

fun chain :: "(u64 \<Rightarrow> u64) \<Rightarrow> (u64 \<Rightarrow> u64) \<Rightarrow> u64 \<Rightarrow> u64 \<Rightarrow> u64 list \<Rightarrow> bool" where
  "chain nf pf c p [] = True"
| "chain nf pf c p (x # xs) = (pf x = p \<and> nf x = hd_or c xs \<and> chain nf pf c x xs)"

lemma chain_cong: "(\<And>x. x \<in> set xs \<Longrightarrow> nf x = nf' x \<and> pf x = pf' x) \<Longrightarrow> chain nf pf c p xs = chain nf' pf' c p xs"
  by (induction xs arbitrary: p) auto

lemma chain_append:
  "chain nf pf c p (xs @ ys) \<longleftrightarrow> (if ys = [] then chain nf pf c p xs
     else chain nf pf (hd ys) p xs \<and> chain nf pf c (last_or p xs) ys)"
proof (induction xs arbitrary: p)
  case (Cons x xs)
  then show ?case by (cases xs; cases ys) (auto simp: hd_or_def split: list.splits)
qed simp

lemma chain_insert:
  assumes "chain nf pf c c xs" "distinct (b # xs)" "c \<notin> set (b # xs)"
  shows "chain (nf(b := hd_or c xs)) (pf(b := c, hd_or c xs := b)) c c (b # xs)"
proof (cases xs)
  case Nil
  with assms show ?thesis by simp
next
  case (Cons y ys)
  with assms have "chain (nf(b := y)) (pf(b := c, y := b)) c y ys = chain nf pf c y ys" by (intro chain_cong) auto
  with Cons assms show ?thesis by auto
qed

lemma chain_relink:
  "chain nf pf b p ys \<Longrightarrow> distinct ys \<Longrightarrow> p \<notin> set ys \<Longrightarrow> chain (nf(last_or p ys := d)) pf d p ys"
proof (induction ys arbitrary: p)
  case (Cons x ys)
  show ?case
  proof (cases "ys = []")
    case False
    then have "last_or x ys \<in> set ys" by (simp add: last_or_def)
    with Cons False show ?thesis by (cases ys) auto
  qed (use Cons.prems in simp)
qed simp

lemma chain_remove:
  assumes "chain nf pf c p (ys @ b # zs)" "distinct (ys @ b # zs)" "c \<notin> set (ys @ b # zs)" "p \<notin> set (ys @ b # zs)"
  shows "pf b = last_or p ys" "nf b = hd_or c zs"
    "chain (nf(last_or p ys := hd_or c zs)) (pf(hd_or c zs := last_or p ys)) c p (ys @ zs)"
proof -
  have c: "chain nf pf b p ys" "pf b = last_or p ys" "nf b = hd_or c zs" "chain nf pf c b zs"
    using assms(1) by (auto simp: chain_append split: if_splits)
  then show "pf b = last_or p ys" "nf b = hd_or c zs" by simp_all
  show "chain (nf(last_or p ys := hd_or c zs)) (pf(hd_or c zs := last_or p ys)) c p (ys @ zs)" (is "chain ?nf ?pf c p _")
  proof (cases zs)
    case Nil
    have "chain ?nf ?pf c p ys = chain (nf(last_or p ys := c)) pf c p ys"
      using assms(3) Nil by (intro chain_cong) auto
    with chain_relink [OF c(1), of c] assms Nil show ?thesis by simp
  next
    case (Cons z zs')
    have "chain ?nf ?pf z p ys = chain (nf(last_or p ys := z)) pf z p ys"
      using assms(2) Cons by (intro chain_cong) auto
    moreover have q: "last_or p ys \<notin> set zs" using last_or_in [of p ys] assms(2,4) by auto
    then have "chain ?nf ?pf c z zs' = chain nf pf c z zs'"
      using assms(2) Cons by (intro chain_cong) auto
    ultimately show ?thesis using chain_relink [OF c(1), of z] assms(2,4) c(4) q Cons by (auto simp: chain_append)
  qed
qed

section \<open>The invariant\<close>

definition nodes :: "(int \<Rightarrow> int \<Rightarrow> u64 list) \<Rightarrow> u64 set" where
  "nodes L = {b. \<exists>i j. idx i j \<and> b \<in> set (L i j)}"

definition well_placed :: "u64 \<Rightarrow> u64 set \<Rightarrow> bool" where
  "well_placed c N \<longleftrightarrow> c \<noteq> 0 \<and> 0 \<notin> N \<and> c \<notin> N \<and> separate (insert c N) \<and> (\<forall>b \<in> N. disjoint_regions (b + 16) 16 c 6536)"

definition cell_ok :: "u64 \<Rightarrow> mem \<Rightarrow> int \<Rightarrow> int \<Rightarrow> u64 list \<Rightarrow> bool" where
  "cell_ok c m i j xs \<longleftrightarrow> blocks m c i j = hd_or c xs \<and> chain (next_free m) (prev_free m) c c xs \<and> distinct xs \<and>
     (bit (sl_bitmap m c i) (nat j) \<longleftrightarrow> xs \<noteq> [])"

definition row_ok :: "u64 \<Rightarrow> mem \<Rightarrow> (int \<Rightarrow> int \<Rightarrow> u64 list) \<Rightarrow> bool" where
  "row_ok c m L \<longleftrightarrow> (\<forall>i. 0 \<le> i \<longrightarrow> i < 25 \<longrightarrow> (bit (fl_bitmap m c) (nat i) \<longleftrightarrow> (\<exists>j. idx i j \<and> L i j \<noteq> []))) \<and>
     (\<forall>k \<ge> 25. \<not> bit (fl_bitmap m c) k)"

definition apart :: "(int \<Rightarrow> int \<Rightarrow> u64 list) \<Rightarrow> bool" where
  "apart L \<longleftrightarrow> (\<forall>i j i' j'. idx i j \<longrightarrow> idx i' j' \<longrightarrow> (i, j) \<noteq> (i', j') \<longrightarrow> set (L i j) \<inter> set (L i' j') = {})"

definition lists_ok :: "u64 \<Rightarrow> mem \<Rightarrow> (int \<Rightarrow> int \<Rightarrow> u64 list) \<Rightarrow> bool" where
  "lists_ok c m L \<longleftrightarrow> (\<forall>i j. idx i j \<longrightarrow> cell_ok c m i j (L i j)) \<and> row_ok c m L \<and> apart L \<and> well_placed c (nodes L)"

definition upd :: "(int \<Rightarrow> int \<Rightarrow> u64 list) \<Rightarrow> int \<Rightarrow> int \<Rightarrow> u64 list \<Rightarrow> int \<Rightarrow> int \<Rightarrow> u64 list" where
  "upd L i j xs = (\<lambda>i' j'. if i' = i \<and> j' = j then xs else L i' j')"

lemma upd_simps [simp]: "upd L i j xs i j = xs" "i' \<noteq> i \<or> j' \<noteq> j \<Longrightarrow> upd L i j xs i' j' = L i' j'"
  by (auto simp: upd_def)

lemma in_nodes: "idx i j \<Longrightarrow> b \<in> set (L i j) \<Longrightarrow> b \<in> nodes L"
  by (auto simp: nodes_def)

definition others :: "(int \<Rightarrow> int \<Rightarrow> u64 list) \<Rightarrow> int \<Rightarrow> int \<Rightarrow> u64 set" where
  "others L i j = {b. \<exists>i' j'. idx i' j' \<and> (i', j') \<noteq> (i, j) \<and> b \<in> set (L i' j')}"

lemma nodes_split: "idx i j \<Longrightarrow> nodes L = set (L i j) \<union> others L i j"
  unfolding nodes_def others_def by blast

lemma others_upd [simp]: "others (upd L i j xs) i j = others L i j"
  by (auto simp: others_def upd_def split: if_splits)

lemma nodes_upd: "idx i j \<Longrightarrow> nodes (upd L i j xs) = set xs \<union> others L i j"
  by (simp add: nodes_split)

lemma apart_others: "apart L \<Longrightarrow> idx i j \<Longrightarrow> set (L i j) \<inter> others L i j = {}"
  unfolding apart_def others_def by blast

lemma apart_upd: "apart L \<Longrightarrow> idx i j \<Longrightarrow> set xs \<inter> others L i j = {} \<Longrightarrow> apart (upd L i j xs)"
proof -
  assume ap: "apart L" and ij: "idx i j" and xs: "set xs \<inter> others L i j = {}"
  have new: "set xs \<inter> set (L i' j') = {}" if "idx i' j'" "(i', j') \<noteq> (i, j)" for i' j'
    using that xs unfolding others_def by blast
  show "apart (upd L i j xs)" unfolding apart_def
  proof (intro allI impI)
    fix a b a' b' assume *: "idx a b" "idx a' b'" "(a, b) \<noteq> (a', b')"
    show "set (upd L i j xs a b) \<inter> set (upd L i j xs a' b') = {}"
      using new [OF *(1)] new [OF *(2)] ap [unfolded apart_def, rule_format, OF *] *(3) by (auto simp: upd_def)
  qed
qed

lemma well_placed_mono: "well_placed c N \<Longrightarrow> M \<subseteq> N \<Longrightarrow> well_placed c M"
  unfolding well_placed_def separate_def by (intro conjI; blast)

lemma align_ptr_aligned: "aligned8 b \<Longrightarrow> align_ptr (block_to_ptr b) ALIGN_SIZE = Some (block_to_ptr b)"
proof -
  assume b: "aligned8 b"
  have "aligned8 (block_to_ptr b)" unfolding block_to_ptr_def
    by (rule aligned_add [OF b]) (simp_all add: block_start_offset_def aligned_def)
  then have d: "8 dvd unat (block_to_ptr b)" by (simp add: aligned_def)
  then obtain k where k: "unat (block_to_ptr b) = 8 * k" by (rule dvdE)
  moreover have "unat (block_to_ptr b) < 2 ^ 64" by simp
  ultimately have "unat (block_to_ptr b) + 7 < 2 ^ 64" by simp
  from unat_round_8 [OF this] k have "unat (align_down 3 (block_to_ptr b + 7)) = unat (block_to_ptr b)" by simp
  then show ?thesis by (simp add: align_ptr_def tlsf_assert_def tlsf_constants align_down_def mask_eq_exp_minus_1 word_unat_eq_iff)
qed

lemma assert_simps [simp]: "tlsf_assert True = Some ()" "tlsf_assert False = None"
  by (simp_all add: tlsf_assert_def)

text \<open>An operation on the lists writes the control structure and the links of nodes only.\<close>

definition list_frame :: "u64 \<Rightarrow> u64 set \<Rightarrow> mem \<Rightarrow> mem \<Rightarrow> bool" where
  "list_frame c N m m' \<longleftrightarrow> (\<forall>x. x \<notin> ctl c \<longrightarrow> (\<forall>b \<in> N. x \<notin> region (b + 16) 16) \<longrightarrow> m' x = m x)"

lemma link_setters_outside:
  "x \<notin> region (b + 16) 16 \<Longrightarrow> set_next_free b v m x = m x"
  "x \<notin> region (b + 16) 16 \<Longrightarrow> set_prev_free b v m x = m x"
  unfolding set_next_free_def set_prev_free_def using link_regions [of b] by (auto intro!: write64_outside)

lemma row_nonempty:
  assumes "\<And>j. idx i j \<Longrightarrow> bit (sl_bitmap m c i) (nat j) \<longleftrightarrow> L i j \<noteq> []" "0 \<le> i" "i < 25"
  shows "(\<exists>j. idx i j \<and> L i j \<noteq> []) \<longleftrightarrow> sl_bitmap m c i \<noteq> 0"
proof
  assume "\<exists>j. idx i j \<and> L i j \<noteq> []"
  then show "sl_bitmap m c i \<noteq> 0" using assms(1) by auto
next
  assume "sl_bitmap m c i \<noteq> 0"
  then obtain n where n: "bit (sl_bitmap m c i) n" by (auto simp: bit_eq_iff)
  then have "n < 32" using bit_imp_le_length by fastforce
  then have "idx i (int n)" using assms(2,3) by (simp add: idx_def)
  with n assms(1) [of "int n"] show "\<exists>j. idx i j \<and> L i j \<noteq> []" by auto
qed

text \<open>
  Changing one list of the segregated lists: when the new list is chained, its head is stored and
  its bit in the second level set exactly if it is not empty, when the bit of the row follows, and when
  the other lists keep heads, links and bits, the invariant holds of the changed lists. Insertion and removal are
  both such changes.
\<close>
lemma lists_ok_upd:
  assumes ok: "lists_ok c m L" and ij: "idx i j"
    and placed: "well_placed c (nodes (upd L i j xs))" "set xs \<inter> others L i j = {}"
    and xs: "distinct xs" "chain (next_free m') (prev_free m') c c xs"
    and links: "\<And>x. x \<in> others L i j \<Longrightarrow> next_free m' x = next_free m x \<and> prev_free m' x = prev_free m x"
    and heads: "\<And>i' j'. idx i' j' \<Longrightarrow> blocks m' c i' j' = (if i' = i \<and> j' = j then hd_or c xs else blocks m c i' j')"
    and sl: "\<And>i'. 0 \<le> i' \<Longrightarrow> i' < 25 \<Longrightarrow> i' \<noteq> i \<Longrightarrow> sl_bitmap m' c i' = sl_bitmap m c i'"
    and slbit: "\<And>j'. idx i j' \<Longrightarrow> bit (sl_bitmap m' c i) (nat j') \<longleftrightarrow> upd L i j xs i j' \<noteq> []"
    and flbit: "\<And>k. bit (fl_bitmap m' c) k \<longleftrightarrow> (if k = nat i then sl_bitmap m' c i \<noteq> 0 else bit (fl_bitmap m c) k)"
  shows "lists_ok c m' (upd L i j xs)"
proof -
  have row: "row_ok c m L" and ap: "apart L" and cell: "\<And>i' j'. idx i' j' \<Longrightarrow> cell_ok c m i' j' (L i' j')"
    using ok by (simp_all add: lists_ok_def)
  have ir: "0 \<le> i" "i < 25" using ij by (simp_all add: idx_def)
  have bits: "bit (sl_bitmap m' c i') (nat j') \<longleftrightarrow> upd L i j xs i' j' \<noteq> []" if "idx i' j'" for i' j'
    using that slbit [of j'] sl [of i'] cell [OF that] by (cases "i' = i") (auto simp: idx_def cell_ok_def)
  have cells: "cell_ok c m' i' j' (upd L i j xs i' j')" if ij': "idx i' j'" for i' j'
  proof (cases "(i', j') = (i, j)")
    case True
    then show ?thesis using xs heads [OF ij] slbit [OF ij] by (auto simp: cell_ok_def)
  next
    case False
    have "chain (next_free m') (prev_free m') c c (L i' j') = chain (next_free m) (prev_free m) c c (L i' j')"
      using ij' False by (intro chain_cong links) (auto simp: others_def)
    then show ?thesis using cell [OF ij'] heads [OF ij'] bits [OF ij'] False by (auto simp: cell_ok_def)
  qed
  have "row_ok c m' (upd L i j xs)" unfolding row_ok_def
  proof (intro conjI allI impI)
    fix i' :: int assume i': "0 \<le> i'" "i' < 25"
    have "(nat i' = nat i) = (i' = i)" by (rule eq_nat_nat_iff [OF i'(1) ir(1)])
    then show "bit (fl_bitmap m' c) (nat i') \<longleftrightarrow> (\<exists>j'. idx i' j' \<and> upd L i j xs i' j' \<noteq> [])"
      using flbit [of "nat i'"] row_nonempty [of i m' c "upd L i j xs", OF slbit ir] row i' by (auto simp: row_ok_def upd_def)
  next
    fix k :: nat assume "25 \<le> k"
    with flbit [of k] row ir show "\<not> bit (fl_bitmap m' c) k" by (auto simp: row_ok_def)
  qed
  then show ?thesis using cells placed(1) apart_upd [OF ap ij placed(2)] by (simp add: lists_ok_def)
qed

lemma insert_free_block_ok:
  assumes ok: "lists_ok c m L" and ij: "idx i j" and b: "b \<notin> nodes L" "well_placed c (insert b (nodes L))" "aligned8 b"
  obtains m' where "insert_free_block c b i j m = Some m'" "lists_ok c m' (upd L i j (b # L i j))"
    "list_frame c (insert b (nodes L)) m m'"
proof -
  let ?N = "insert c (insert b (nodes L))" let ?cur = "hd_or c (L i j)"
  have sep: "separate ?N" and c: "c \<notin> nodes L" "b \<noteq> c" "c \<noteq> 0" "b \<noteq> 0" "0 \<notin> nodes L" using b(2) by (auto simp: well_placed_def)
  have dis: "disjoint_regions (x + 16) 16 c 6536" if "x \<in> insert b (nodes L)" for x using b(2) that by (auto simp: well_placed_def)
  have nc: "x = c \<or> disjoint_regions (x + 16) 16 c 6536" if "x \<in> ?N" for x using dis that by auto
  have cell: "cell_ok c m i j (L i j)" using ok ij by (simp add: lists_ok_def)
  have ir: "0 \<le> i" "i < 25" using ij by (simp_all add: idx_def)
  have cur: "blocks m c i j = ?cur" "?cur \<in> ?N" "?cur \<noteq> 0"
    using cell hd_or_in [of c "L i j"] c in_nodes [OF ij] by (auto simp: cell_ok_def)
  define m1 where "m1 = set_prev_free ?cur b (set_prev_free b c (set_next_free b ?cur m))"
  define m4 where "m4 = set_sl_bitmap c i (sl_bitmap m c i OR push_bit (nat j) 1)
     (set_fl_bitmap c (fl_bitmap m c OR push_bit (nat i) 1) (set_blocks c i j b m1))"
  have bin: "b \<in> ?N" by simp
  note node = node_control [OF nc [OF cur(2)]] node_control [OF nc [OF bin]]
  have run: "insert_free_block c b i j m = Some m4"
    unfolding insert_free_block_def m4_def m1_def Let_def cur(1) block_null_def align_ptr_aligned [OF b(3)]
    using cur(3) c ir by (simp add: heads_algebra [OF ij] fl_algebra node)
  have links: "next_free m4 x = ((next_free m)(b := ?cur)) x" "prev_free m4 x = ((prev_free m)(b := c, ?cur := b)) x"
    if x: "x \<in> insert b (nodes L)" for x
  proof -
    have "x \<in> ?N" using x by simp
    from link_algebra [OF sep cur(2) this] link_algebra [OF sep bin this] ij ir
    show "next_free m4 x = ((next_free m)(b := ?cur)) x" "prev_free m4 x = ((prev_free m)(b := c, ?cur := b)) x"
      unfolding m4_def m1_def by (simp_all add: control_links [OF dis [OF x]])
  qed
  have ctrl: "blocks m4 c i' j' = (if i' = i \<and> j' = j then b else blocks m c i' j')" if "idx i' j'" for i' j'
    using that ij ir unfolding m4_def m1_def
    by (cases "i' = i \<and> j' = j") (auto simp: sl_algebra fl_algebra heads_algebra node)
  have sl: "sl_bitmap m4 c i' = (if i' = i then sl_bitmap m c i OR push_bit (nat j) 1 else sl_bitmap m c i')"
    if "0 \<le> i'" "i' < 25" for i'
    using that ij ir unfolding m4_def m1_def by (auto simp: sl_algebra fl_algebra heads_algebra node)
  have fl: "fl_bitmap m4 c = fl_bitmap m c OR push_bit (nat i) 1"
    using ij ir unfolding m4_def m1_def by (auto simp: sl_algebra fl_algebra heads_algebra node)
  have oth: "x \<in> nodes L" "x \<noteq> b" "x \<noteq> ?cur" if "x \<in> others L i j" for x
    using that b(1) c(1) nodes_split [OF ij, of L] apart_others [of L i j] ij ok hd_or_in [of c "L i j"] by (auto simp: lists_ok_def)
  have "lists_ok c m4 (upd L i j (b # L i j))"
  proof (rule lists_ok_upd [OF ok ij])
    have "b \<notin> set (L i j)" "c \<notin> set (L i j)" using b(1) c(1) in_nodes [OF ij] by auto
    then have "distinct (b # L i j)" "chain ((next_free m)(b := ?cur)) ((prev_free m)(b := c, ?cur := b)) c c (b # L i j)"
      using cell chain_insert [of "next_free m" "prev_free m" c "L i j" b] c by (auto simp: cell_ok_def)
    moreover have "chain (next_free m4) (prev_free m4) c c (b # L i j) =
        chain ((next_free m)(b := ?cur)) ((prev_free m)(b := c, ?cur := b)) c c (b # L i j)"
      using in_nodes [OF ij] by (intro chain_cong conjI links) auto
    ultimately show "distinct (b # L i j)" "chain (next_free m4) (prev_free m4) c c (b # L i j)" by simp_all
    show "well_placed c (nodes (upd L i j (b # L i j)))" using b(2) nodes_split [OF ij, of L] by (simp add: nodes_upd [OF ij])
    show "set (b # L i j) \<inter> others L i j = {}" using apart_others [of L i j] ok ij oth by (auto simp: lists_ok_def)
    show "bit (sl_bitmap m4 c i) (nat j') \<longleftrightarrow> upd L i j (b # L i j) i j' \<noteq> []" if "idx i j'" for j'
      using that ok ij sl [OF ir] by (auto simp: lists_ok_def cell_ok_def bit_simps idx_def upd_def)
    have "bit (sl_bitmap m4 c i) (nat j)" using sl [OF ir] ij by (auto simp: bit_simps idx_def)
    then show "bit (fl_bitmap m4 c) k \<longleftrightarrow> (if k = nat i then sl_bitmap m4 c i \<noteq> 0 else bit (fl_bitmap m c) k)" for k
      using ir by (auto simp: fl bit_simps)
  qed (use oth links ctrl sl in auto)
  moreover have "list_frame c (insert b (nodes L)) m m4"
    using cur(2) ij ir unfolding list_frame_def m4_def m1_def
    by (auto simp: control_setters_outside link_setters_outside)
  ultimately show thesis using run that by blast
qed


text \<open>What the removal of a block from its list does to the memory: the links of its neighbours, the head and the bitmaps.\<close>

lemma remove_effect:
  assumes ok: "lists_ok c m L" and ij: "idx i j" and L: "L i j = ys @ b # zs"
  obtains m' where "remove_free_block c b i j m = Some m'" "list_frame c (nodes L) m m'"
    "\<And>x. x \<in> nodes L \<Longrightarrow> next_free m' x = ((next_free m)(last_or c ys := hd_or c zs)) x \<and>
       prev_free m' x = ((prev_free m)(hd_or c zs := last_or c ys)) x"
    "\<And>i' j'. idx i' j' \<Longrightarrow> blocks m' c i' j' = (if i' = i \<and> j' = j then hd_or c (ys @ zs) else blocks m c i' j')"
    "\<And>i'. 0 \<le> i' \<Longrightarrow> i' < 25 \<Longrightarrow> sl_bitmap m' c i' =
       (if i' = i \<and> ys = [] \<and> zs = [] then sl_bitmap m c i AND NOT (push_bit (nat j) 1) else sl_bitmap m c i')"
    "fl_bitmap m' c = (if ys = [] \<and> zs = [] \<and> sl_bitmap m' c i = 0 then fl_bitmap m c AND NOT (push_bit (nat i) 1) else fl_bitmap m c)"
proof -
  let ?N = "insert c (nodes L)" let ?p = "last_or c ys" let ?n = "hd_or c zs"
  have wp: "well_placed c (nodes L)" and ap: "apart L" and row: "row_ok c m L" using ok by (simp_all add: lists_ok_def)
  have sep: "separate ?N" and c: "c \<notin> nodes L" "c \<noteq> 0" "0 \<notin> nodes L" using wp by (auto simp: well_placed_def)
  have dis: "disjoint_regions (x + 16) 16 c 6536" if "x \<in> nodes L" for x using wp that by (auto simp: well_placed_def)
  have nc: "x = c \<or> disjoint_regions (x + 16) 16 c 6536" if "x \<in> ?N" for x using dis that by auto
  have cell: "cell_ok c m i' j' (L i' j')" if "idx i' j'" for i' j' using ok that by (simp add: lists_ok_def)
  have ir: "0 \<le> i" "i < 25" using ij by (simp_all add: idx_def)
  have sub: "set (L i j) \<subseteq> nodes L" using in_nodes [OF ij] by auto
  have cL: "c \<notin> set (ys @ b # zs)" and dist: "distinct (ys @ b # zs)"
    using sub c(1) cell [OF ij] L by (auto simp: cell_ok_def)
  note rem = chain_remove [OF _ dist cL cL, of "next_free m" "prev_free m"]
  have pn: "prev_free m b = ?p" "next_free m b = ?n"
    "chain ((next_free m)(?p := ?n)) ((prev_free m)(?n := ?p)) c c (ys @ zs)"
    using rem cell [OF ij] L by (simp_all add: cell_ok_def)
  have pN: "?p \<in> ?N" "?n \<in> ?N" using last_or_in [of c ys] hd_or_in [of c zs] sub L by auto
  then have nz: "?p \<noteq> 0" "?n \<noteq> 0" using c by auto
  define m1 where "m1 = set_next_free ?p ?n (set_prev_free ?n ?p m)"
  note node = node_control [OF nc [OF pN(1)]] node_control [OF nc [OF pN(2)]]
  have m1c: "idx i' j' \<Longrightarrow> blocks m1 c i' j' = blocks m c i' j'" "0 \<le> i' \<Longrightarrow> i' < 25 \<Longrightarrow> sl_bitmap m1 c i' = sl_bitmap m c i'"
    "fl_bitmap m1 c = fl_bitmap m c" for i' j' unfolding m1_def by (simp_all add: node)
  define sl' where "sl' = (if ys = [] \<and> zs = [] then sl_bitmap m c i AND NOT (push_bit (nat j) 1) else sl_bitmap m c i)"
  define m2 where "m2 = (if ys = [] then set_blocks c i j ?n m1 else m1)"
  define m3 where "m3 = (if ys = [] \<and> zs = [] then set_sl_bitmap c i sl' m2 else m2)"
  define m4 where "m4 = (if ys = [] \<and> zs = [] \<and> sl' = 0 then set_fl_bitmap c (fl_bitmap m c AND NOT (push_bit (nat i) 1)) m3 else m3)"
  have head: "(blocks m1 c i j = b) = (ys = [])"
    using cell [OF ij] L dist unfolding cell_ok_def m1c(1) [OF ij] by (cases ys) auto
  have nc0: "(?n = c) = (zs = [])" using cL by (cases zs) auto
  have m2c: "sl_bitmap m2 c i = sl_bitmap m c i" "fl_bitmap m2 c = fl_bitmap m c"
    using ij ir unfolding m2_def by (simp_all add: heads_algebra m1c)
  have m3c: "sl_bitmap m3 c i = sl'" "fl_bitmap m3 c = fl_bitmap m c"
    using ir m2c unfolding m3_def by (simp_all add: sl_algebra sl'_def)
  have run: "remove_free_block c b i j m = Some m4"
    unfolding remove_free_block_def Let_def pn block_null_def m1_def [symmetric] head
    using nz nc0 m2c m3c unfolding m4_def m3_def m2_def by (auto simp: sl'_def split: if_splits)
  have links: "next_free m4 x = ((next_free m)(?p := ?n)) x" "prev_free m4 x = ((prev_free m)(?n := ?p)) x" if x: "x \<in> nodes L" for x
  proof -
    have "x \<in> ?N" using x by simp
    from link_algebra [OF sep pN(1) this] link_algebra [OF sep pN(2) this]
    have "next_free m1 x = ((next_free m)(?p := ?n)) x" "prev_free m1 x = ((prev_free m)(?n := ?p)) x" unfolding m1_def by simp_all
    moreover have "next_free m4 x = next_free m1 x" "prev_free m4 x = prev_free m1 x"
      using ij ir unfolding m4_def m3_def m2_def by (simp_all add: control_links [OF dis [OF x]])
    ultimately show "next_free m4 x = ((next_free m)(?p := ?n)) x" "prev_free m4 x = ((prev_free m)(?n := ?p)) x" by simp_all
  qed
  have ctrl: "blocks m4 c i' j' = (if i' = i \<and> j' = j then hd_or c (ys @ zs) else blocks m c i' j')" if "idx i' j'" for i' j'
  proof (cases "i' = i \<and> j' = j")
    case True
    then show ?thesis using that ij ir cell [OF ij] L unfolding m4_def m3_def m2_def cell_ok_def
      by (cases ys) (auto simp: sl_algebra fl_algebra heads_algebra m1c)
  next
    case False
    then show ?thesis using that ij ir unfolding m4_def m3_def m2_def
      by (auto simp: sl_algebra fl_algebra heads_algebra m1c)
  qed
  have sl: "sl_bitmap m4 c i' = (if i' = i then sl' else sl_bitmap m c i')" if "0 \<le> i'" "i' < 25" for i'
    using that ij ir m3c(1) unfolding m4_def m3_def m2_def by (auto simp: sl_algebra fl_algebra heads_algebra m1c sl'_def)
  have fl: "fl_bitmap m4 c = (if ys = [] \<and> zs = [] \<and> sl' = 0 then fl_bitmap m c AND NOT (push_bit (nat i) 1) else fl_bitmap m c)"
    using m3c(2) unfolding m4_def by (auto simp: fl_algebra)
  have frame: "list_frame c (nodes L) m m4"
  proof -
    have "m1 x = m x" if "x \<notin> ctl c" "\<forall>b \<in> nodes L. x \<notin> region (b + 16) 16" for x
    proof -
      have "set_next_free q v u x = u x \<and> set_prev_free q v u x = u x" if "q \<in> ?N" for q v u
        using that \<open>x \<notin> ctl c\<close> \<open>\<forall>b \<in> nodes L. x \<notin> region (b + 16) 16\<close>
        by (cases "q = c") (auto simp: control_setters_outside link_setters_outside)
      with pN show ?thesis unfolding m1_def by simp
    qed
    then show ?thesis using ij ir unfolding list_frame_def m4_def m3_def m2_def by (auto simp: control_setters_outside)
  qed
  have slc: "sl_bitmap m4 c i' = (if i' = i \<and> ys = [] \<and> zs = [] then sl_bitmap m c i AND NOT (push_bit (nat j) 1) else sl_bitmap m c i')"
    if "0 \<le> i'" "i' < 25" for i' using sl [OF that] by (simp add: sl'_def)
  have "sl_bitmap m4 c i = sl'" using sl [OF ir] by simp
  with that [OF run frame _ ctrl slc] links fl show thesis by simp
qed


lemma remove_free_block_ok:
  assumes ok: "lists_ok c m L" and ij: "idx i j" and L: "L i j = ys @ b # zs"
  obtains m' where "remove_free_block c b i j m = Some m'" "lists_ok c m' (upd L i j (ys @ zs))" "list_frame c (nodes L) m m'"
proof -
  obtain m' where run: "remove_free_block c b i j m = Some m'" "list_frame c (nodes L) m m'"
    and links: "\<And>x. x \<in> nodes L \<Longrightarrow> next_free m' x = ((next_free m)(last_or c ys := hd_or c zs)) x \<and>
       prev_free m' x = ((prev_free m)(hd_or c zs := last_or c ys)) x"
    and heads: "\<And>i' j'. idx i' j' \<Longrightarrow> blocks m' c i' j' = (if i' = i \<and> j' = j then hd_or c (ys @ zs) else blocks m c i' j')"
    and sl: "\<And>i'. 0 \<le> i' \<Longrightarrow> i' < 25 \<Longrightarrow> sl_bitmap m' c i' =
       (if i' = i \<and> ys = [] \<and> zs = [] then sl_bitmap m c i AND NOT (push_bit (nat j) 1) else sl_bitmap m c i')"
    and fl: "fl_bitmap m' c = (if ys = [] \<and> zs = [] \<and> sl_bitmap m' c i = 0 then fl_bitmap m c AND NOT (push_bit (nat i) 1) else fl_bitmap m c)"
    by (rule remove_effect [OF assms], rule that)
  have wp: "well_placed c (nodes L)" and ap: "apart L" and cell: "\<And>j'. idx i j' \<Longrightarrow> cell_ok c m i j' (L i j')"
    using ok by (simp_all add: lists_ok_def)
  have ir: "0 \<le> i" "i < 25" using ij by (simp_all add: idx_def)
  have c: "c \<notin> nodes L" using wp by (auto simp: well_placed_def)
  have sub: "set (L i j) \<subseteq> nodes L" "others L i j \<subseteq> nodes L" using nodes_split [OF ij, of L] by auto
  have cL: "c \<notin> set (ys @ b # zs)" and dist: "distinct (ys @ b # zs)" using sub c cell [OF ij] L by (auto simp: cell_ok_def)
  have slbit: "bit (sl_bitmap m' c i) (nat j') \<longleftrightarrow> upd L i j (ys @ zs) i j' \<noteq> []" if "idx i j'" for j'
    using that cell [OF that] ij L sl [OF ir] unfolding cell_ok_def by (auto simp: bit_simps idx_def upd_def)
  have "lists_ok c m' (upd L i j (ys @ zs))"
  proof (rule lists_ok_upd [OF ok ij])
    have "chain (next_free m') (prev_free m') c c (ys @ zs) =
        chain ((next_free m)(last_or c ys := hd_or c zs)) ((prev_free m)(hd_or c zs := last_or c ys)) c c (ys @ zs)"
      using sub L by (intro chain_cong links) auto
    then show "chain (next_free m') (prev_free m') c c (ys @ zs)"
      using chain_remove [OF _ dist cL cL, of "next_free m" "prev_free m"] cell [OF ij] L by (simp add: cell_ok_def)
    show "well_placed c (nodes (upd L i j (ys @ zs)))"
      using sub L by (intro well_placed_mono [OF wp]) (auto simp: nodes_upd [OF ij])
    show "set (ys @ zs) \<inter> others L i j = {}" using apart_others [OF ap ij] L by auto
    show "next_free m' x = next_free m x \<and> prev_free m' x = prev_free m x" if x: "x \<in> others L i j" for x
    proof -
      have "x \<notin> set (L i j)" "x \<noteq> c" using x apart_others [OF ap ij] sub c by auto
      then have "x \<noteq> last_or c ys" "x \<noteq> hd_or c zs" using last_or_in [of c ys] hd_or_in [of c zs] L by auto
      with links [of x] x sub show ?thesis by auto
    qed
    have "bit (fl_bitmap m c) (nat i)" using ok ij L ir by (auto simp: lists_ok_def row_ok_def)
    moreover have "sl_bitmap m' c i \<noteq> 0" if "\<not> (ys = [] \<and> zs = [])" using that slbit [OF ij] by auto
    ultimately show "bit (fl_bitmap m' c) k \<longleftrightarrow> (if k = nat i then sl_bitmap m' c i \<noteq> 0 else bit (fl_bitmap m c) k)" for k
      using bit_imp_le_length [of "fl_bitmap m c" k] unfolding fl by (auto simp: bit_simps)
  qed (use dist heads sl slbit in auto)
  then show thesis using run that by blast
qed


section \<open>The search\<close>

text \<open>Classes in the order of the search.\<close>

definition class_le :: "int \<times> int \<Rightarrow> int \<times> int \<Rightarrow> bool" where
  "class_le p q \<longleftrightarrow> fst p < fst q \<or> fst p = fst q \<and> snd p \<le> snd q"

lemma masked_bit: "bit (w AND push_bit k (- 1)) n \<longleftrightarrow> bit (w :: u32) n \<and> k \<le> n"
  using bit_imp_le_length [of w n] by (auto simp: bit_simps)

text \<open>In a row whose bitmap has a bit at \<open>j\<close> or above, the lowest such bit is the first list from \<open>j\<close> on that is not empty.\<close>

lemma row_first:
  assumes ok: "lists_ok c m L" and i: "0 \<le> i" "i < 25" and j: "0 \<le> j"
    and nz: "sl_bitmap m c i AND push_bit (nat j) (- 1) \<noteq> 0"
  obtains n b xs where "tlsf_ffs (sl_bitmap m c i AND push_bit (nat j) (- 1)) = int n" "idx i (int n)" "j \<le> int n"
    "L i (int n) = b # xs" "blocks m c i (int n) = b" "\<And>j'. idx i j' \<Longrightarrow> j \<le> j' \<Longrightarrow> L i j' \<noteq> [] \<Longrightarrow> int n \<le> j'"
proof -
  let ?w = "sl_bitmap m c i AND push_bit (nat j) (- 1)"
  have bitm: "bit (sl_bitmap m c i) (nat j') \<longleftrightarrow> L i j' \<noteq> []" "blocks m c i j' = hd_or c (L i j')" if "idx i j'" for j'
    using ok that by (simp_all add: lists_ok_def cell_ok_def)
  from nz obtain n where n: "bit ?w n" "\<And>k. k < n \<Longrightarrow> \<not> bit ?w k" by (rule low_bit_ex) blast
  then have f: "tlsf_ffs ?w = int n" by (rule tlsf_ffs_eq)
  have nb: "bit (sl_bitmap m c i) n" "nat j \<le> n" using n(1) unfolding masked_bit by auto
  have nx: "idx i (int n)" using i bit_imp_le_length [OF nb(1)] by (simp add: idx_def)
  then obtain b xs where L: "L i (int n) = b # xs" using bitm(1) [OF nx] nb(1) by (cases "L i (int n)") auto
  have "int n \<le> j'" if "idx i j'" "j \<le> j'" "L i j' \<noteq> []" for j'
  proof -
    have "bit ?w (nat j')" using that bitm(1) [OF that(1)] unfolding masked_bit by (auto simp: idx_def)
    then have "n \<le> nat j'" using n(2) by (metis not_le)
    then show ?thesis using that(1) by (auto simp: idx_def)
  qed
  with that [OF f nx _ L] bitm(2) [OF nx] L nb(2) show thesis by auto
qed

text \<open>Likewise, the lowest bit of the first level above \<open>i\<close> is the first row above \<open>i\<close> with a list that is not empty.\<close>

lemma level_first:
  assumes ok: "lists_ok c m L" and i: "0 \<le> i" and nz: "fl_bitmap m c AND push_bit (nat (i + 1)) (- 1) \<noteq> 0"
  obtains k where "tlsf_ffs (fl_bitmap m c AND push_bit (nat (i + 1)) (- 1)) = int k" "k < 25" "i < int k" "sl_bitmap m c (int k) \<noteq> 0"
    "\<And>i' j'. idx i' j' \<Longrightarrow> i < i' \<Longrightarrow> L i' j' \<noteq> [] \<Longrightarrow> int k \<le> i'"
proof -
  let ?w = "fl_bitmap m c AND push_bit (nat (i + 1)) (- 1)"
  have row: "row_ok c m L" using ok by (simp add: lists_ok_def)
  from nz obtain k where k: "bit ?w k" "\<And>l. l < k \<Longrightarrow> \<not> bit ?w l" by (rule low_bit_ex) blast
  then have f: "tlsf_ffs ?w = int k" by (rule tlsf_ffs_eq)
  have kb: "bit (fl_bitmap m c) k" "nat (i + 1) \<le> k" using k(1) unfolding masked_bit by auto
  then have k25: "k < 25" using row unfolding row_ok_def by (meson not_le)
  then obtain j where j: "idx (int k) j" "L (int k) j \<noteq> []"
    using row kb(1) unfolding row_ok_def by (metis int_ops(3) nat_int of_nat_0_le_iff of_nat_less_iff of_nat_numeral)
  then have "bit (sl_bitmap m c (int k)) (nat j)" using ok by (simp add: lists_ok_def cell_ok_def)
  then have slnz: "sl_bitmap m c (int k) \<noteq> 0" by auto
  have "int k \<le> i'" if "idx i' j'" "i < i'" "L i' j' \<noteq> []" for i' j'
  proof -
    have "bit ?w (nat i')" using row that unfolding row_ok_def masked_bit by (auto simp: idx_def)
    then have "k \<le> nat i'" using k(2) by (metis not_le)
    then show ?thesis using that(2) i by simp
  qed
  with that [OF f k25 _ slnz] kb(2) i show thesis by simp
qed

lemma search_suitable_block_ok:
  assumes ok: "lists_ok c m L" and ij: "idx i j"
  obtains (none) "search_suitable_block m c i j = Some (0, i, j)"
      "\<And>i' j'. idx i' j' \<Longrightarrow> class_le (i, j) (i', j') \<Longrightarrow> L i' j' = []"
    | (found) b i' j' xs where "search_suitable_block m c i j = Some (b, i', j')" "idx i' j'" "class_le (i, j) (i', j')"
      "L i' j' = b # xs" "\<And>i'' j''. idx i'' j'' \<Longrightarrow> class_le (i, j) (i'', j'') \<Longrightarrow> L i'' j'' \<noteq> [] \<Longrightarrow> class_le (i', j') (i'', j'')"
proof -
  have ir: "0 \<le> i" "i < 25" "0 \<le> j" "j < 32" using ij by (simp_all add: idx_def)
  let ?slm = "sl_bitmap m c i AND push_bit (nat j) (- 1)"
  let ?flm = "fl_bitmap m c AND push_bit (nat (i + 1)) (- 1)"
  show thesis
  proof (cases "?slm = 0")
    case False
    obtain n b xs where n: "tlsf_ffs ?slm = int n" "idx i (int n)" "j \<le> int n" "L i (int n) = b # xs" "blocks m c i (int n) = b"
      and least: "\<And>j'. idx i j' \<Longrightarrow> j \<le> j' \<Longrightarrow> L i j' \<noteq> [] \<Longrightarrow> int n \<le> j'"
      by (rule row_first [OF ok ir(1-3) False], rule that)
    have "search_suitable_block m c i j = Some (b, i, int n)"
      using False n(5) unfolding search_suitable_block_def Let_def n(1) by simp
    then show thesis by (rule found [OF _ n(2) _ n(4)]) (use n(3) least in \<open>auto simp: class_le_def\<close>)
  next
    case True
    have above: "i < i'" if "idx i' j'" "class_le (i, j) (i', j')" "L i' j' \<noteq> []" for i' j'
    proof (rule ccontr)
      assume "\<not> i < i'"
      then have "i' = i" "j \<le> j'" using that(2) by (auto simp: class_le_def)
      then have "bit ?slm (nat j')" using ok that unfolding masked_bit by (auto simp: lists_ok_def cell_ok_def idx_def)
      with True show False by simp
    qed
    show thesis
    proof (cases "?flm = 0")
      case flz: True
      have "search_suitable_block m c i j = Some (0, i, j)"
        using True flz unfolding search_suitable_block_def Let_def by simp
      moreover have "L i' j' = []" if "idx i' j'" "class_le (i, j) (i', j')" for i' j'
      proof (rule ccontr)
        assume "L i' j' \<noteq> []"
        then have "bit ?flm (nat i')"
          using above [OF that] ok that unfolding masked_bit by (auto simp: lists_ok_def row_ok_def idx_def)
        with flz show False by simp
      qed
      ultimately show thesis by (rule none)
    next
      case flz: False
      obtain k where k: "tlsf_ffs ?flm = int k" "k < 25" "i < int k" "sl_bitmap m c (int k) \<noteq> 0"
        and kleast: "\<And>i' j'. idx i' j' \<Longrightarrow> i < i' \<Longrightarrow> L i' j' \<noteq> [] \<Longrightarrow> int k \<le> i'"
        by (rule level_first [OF ok ir(1) flz], rule that)
      have k': "0 \<le> int k" "int k < 25" "sl_bitmap m c (int k) AND push_bit (nat 0) (- 1) \<noteq> 0" using k(2,4) by simp_all
      obtain n b xs where n: "tlsf_ffs (sl_bitmap m c (int k) AND push_bit (nat 0) (- 1)) = int n" "idx (int k) (int n)" "0 \<le> int n"
        "L (int k) (int n) = b # xs" "blocks m c (int k) (int n) = b"
        and least: "\<And>j'. idx (int k) j' \<Longrightarrow> 0 \<le> j' \<Longrightarrow> L (int k) j' \<noteq> [] \<Longrightarrow> int n \<le> j'"
        by (rule row_first [OF ok k'(1,2) order_refl k'(3)], rule that)
      have "search_suitable_block m c i j = Some (b, int k, int n)"
        using True flz k(4) n(1,5) unfolding search_suitable_block_def Let_def k(1) by simp
      moreover have "class_le (int k, int n) (i', j')" if "idx i' j'" "class_le (i, j) (i', j')" "L i' j' \<noteq> []" for i' j'
        using kleast [OF that(1) above [OF that] that(3)] least [of j'] that(1,3) by (cases "i' = int k") (auto simp: class_le_def idx_def)
      ultimately show thesis using found n(2,4) k(3) by (auto simp: class_le_def)
    qed
  qed
qed

end
