(* ===== verification/TlsfHeap.thy ===== *)
theory TlsfHeap
  imports TlsfLists
begin

text \<open>
  The heap as a set of blocks. A pool is tiled by blocks; the headers in memory say for each block
  its size, whether it is free, and whether the block before it is free, and a free block is
  recorded in the header of the block behind it. Together with the free lists of \<open>TlsfLists\<close> this is
  the invariant that allocation and release keep (\<open>mm/heapalloc/tlsf.c\<close>).
\<close>

section \<open>The size field\<close>

definition szf :: "u64 \<Rightarrow> bool \<Rightarrow> bool \<Rightarrow> u64" where
  "szf sz fr pf = sz OR (if fr then 1 else 0) OR (if pf then 2 else 0)"

lemma aligned_low_bits: "aligned8 sz \<Longrightarrow> n < 3 \<Longrightarrow> \<not> bit sz n"
proof -
  assume "aligned8 sz" "n < 3"
  then have "push_bit 3 (drop_bit 3 sz) = sz" using align_down_aligned [of 3 sz] by (simp add: align_down_push_drop)
  then show "\<not> bit sz n" using \<open>n < 3\<close> by (metis bit_push_bit_iff not_le)
qed

lemma bit_1_2: "bit (1 :: u64) n \<longleftrightarrow> n = 0" "bit (2 :: u64) n \<longleftrightarrow> n = 1"
  using bit_exp_iff [of 1 n, where 'a = u64] by (auto simp: bit_1_iff)

lemma bit_szf:
  assumes "aligned8 sz"
  shows "bit (szf sz fr pf) n \<longleftrightarrow> (n = 0 \<and> fr) \<or> (n = 1 \<and> pf) \<or> (2 < n \<and> bit sz n)"
proof -
  have "bit sz n \<longleftrightarrow> 2 < n \<and> bit sz n" using aligned_low_bits [OF assms, of n] by (metis Suc_leI eval_nat_numeral(3) not_less less_Suc_eq_le)
  then show ?thesis unfolding szf_def
    by (cases fr; cases pf) (simp only: if_True if_False bit_or_iff bit_1_2 bit_0_eq bot_apply bot_bool_def; blast)+
qed

lemma header_bits: "block_header_free_bit = 1" "block_header_prev_free_bit = 2"
  by (simp_all add: block_header_free_bit_def block_header_prev_free_bit_def)

lemma eq_by_bits:
  fixes x y :: u64
  assumes "bit x 0 = bit y 0" "bit x 1 = bit y 1" "bit x 2 = bit y 2" "\<And>n. 2 < n \<Longrightarrow> n < 64 \<Longrightarrow> bit x n = bit y n"
  shows "x = y"
proof (rule bit_word_eqI)
  fix n assume n: "n < LENGTH(64)"
  have "n = 0 \<or> n = 1 \<or> n = 2 \<or> 2 < n" by arith
  with assms n show "bit x n = bit y n" by auto
qed

lemma szf_values:
  assumes "aligned8 sz" "aligned8 s"
  shows "szf sz fr pf AND NOT (1 OR 2) = sz"
    and "szf sz fr pf AND 1 \<noteq> 0 \<longleftrightarrow> fr" and "szf sz fr pf AND 2 \<noteq> 0 \<longleftrightarrow> pf"
    and "szf sz fr pf OR 1 = szf sz True pf" and "szf sz fr pf AND NOT 1 = szf sz False pf"
    and "szf sz fr pf OR 2 = szf sz fr True" and "szf sz fr pf AND NOT 2 = szf sz fr False"
    and "s OR (szf sz fr pf AND (1 OR 2)) = szf s fr pf"
    and "\<exists>fr pf. s OR (g AND (1 OR 2)) = szf s fr pf"
proof -
  note b = bit_szf [OF assms(1)] bit_szf [OF assms(2)]
  have lo: "\<not> bit sz 0" "\<not> bit sz 1" "\<not> bit sz 2" "\<not> bit s 0" "\<not> bit s 1" "\<not> bit s 2"
    using aligned_low_bits [OF assms(1)] aligned_low_bits [OF assms(2)] by simp_all
  note bs = bit_and_iff bit_or_iff bit_not_iff bit_1_2 b possible_bit_word lo
  show "szf sz fr pf AND NOT (1 OR 2) = sz"
    by (rule eq_by_bits; simp only: bs; simp)
  have "bit (szf sz fr pf AND 1) n \<longleftrightarrow> n = 0 \<and> fr" "bit (szf sz fr pf AND 2) n \<longleftrightarrow> n = 1 \<and> pf" for n
    unfolding bit_and_iff bit_1_2 b by auto
  then show "szf sz fr pf AND 1 \<noteq> 0 \<longleftrightarrow> fr" "szf sz fr pf AND 2 \<noteq> 0 \<longleftrightarrow> pf"
    unfolding bit_eq_iff [of "szf sz fr pf AND 1"] bit_eq_iff [of "szf sz fr pf AND 2"] by auto
  show "szf sz fr pf OR 1 = szf sz True pf" by (rule eq_by_bits; simp only: bs; simp)
  show "szf sz fr pf AND NOT 1 = szf sz False pf" by (rule eq_by_bits; simp only: bs; simp)
  show "szf sz fr pf OR 2 = szf sz fr True" by (rule eq_by_bits; simp only: bs; simp)
  show "szf sz fr pf AND NOT 2 = szf sz fr False" by (rule eq_by_bits; simp only: bs; simp)
  show "s OR (szf sz fr pf AND (1 OR 2)) = szf s fr pf" by (rule eq_by_bits; simp only: bs; simp)
  have "s OR (g AND (1 OR 2)) = szf s (bit g 0) (bit g 1)" by (rule eq_by_bits; simp only: bs; simp)
  then show "\<exists>fr pf. s OR (g AND (1 OR 2)) = szf s fr pf" by blast
qed


lemma szf_plus: "aligned8 sz \<Longrightarrow> szf sz fr pf = sz + ((if fr then 1 else 0) + (if pf then 2 else 0))"
proof -
  assume a: "aligned8 sz"
  have lo: "\<not> bit sz 0" "\<not> bit sz 1" using aligned_low_bits [OF a] by simp_all
  have "(if fr then 1 else 0 :: u64) + (if pf then 2 else 0) = (if fr then 1 else 0) OR (if pf then 2 else 0)" by simp
  moreover have "sz AND ((if fr then 1 else 0) OR (if pf then 2 else 0)) = 0"
    by (rule bit_word_eqI, cases fr; cases pf)
      (use lo in \<open>auto simp only: if_True if_False bit_and_iff bit_or_iff bit_1_2 bit_0_eq bot_apply bot_bool_def simp_thms\<close>)
  ultimately show ?thesis unfolding szf_def by (simp only: or.assoc disjunctive_add_eq_or)
qed

lemma szf_absorb: "aligned8 sz \<Longrightarrow> aligned8 k \<Longrightarrow> szf sz fr pf + k = szf (sz + k) fr pf"
  using aligned_add [of 3 sz k] by (simp add: szf_plus)

text \<open>Reading the status of a block from its size field.\<close>

lemma status_of_szf:
  assumes "size_field m b = szf sz fr pf" "aligned8 sz"
  shows "block_size m b = sz" "block_is_free m b \<longleftrightarrow> fr" "block_is_prev_free m b \<longleftrightarrow> pf" "block_is_last m b \<longleftrightarrow> sz = 0"
  using szf_values [OF assms(2,2)] assms(1)
  by (simp_all only: block_size_def block_is_free_def block_is_prev_free_def block_is_last_def header_bits)

lemma status_setters:
  assumes "size_field m b = szf sz fr pf" "aligned8 sz"
  shows "block_set_free b m = set_size_field b (szf sz True pf) m"
    and "block_set_used b m = set_size_field b (szf sz False pf) m"
    and "block_set_prev_free b m = set_size_field b (szf sz fr True) m"
    and "block_set_prev_used b m = set_size_field b (szf sz fr False) m"
    and "aligned8 s \<Longrightarrow> block_set_size b s m = set_size_field b (szf s fr pf) m"
  using szf_values [OF assms(2,2)] szf_values(8) [OF assms(2)] assms(1)
  by (simp_all only: block_set_free_def block_set_used_def block_set_prev_free_def block_set_prev_used_def block_set_size_def header_bits)

lemma set_size_garbage:
  assumes "aligned8 s"
  obtains fr pf where "block_set_size b s m = set_size_field b (szf s fr pf) m"
  using szf_values(9) [OF assms assms, of "size_field m b"] unfolding block_set_size_def header_bits by auto

lemma size_field_set [simp]: "size_field (set_size_field b v m) b = v"
  by (simp add: size_field_def set_size_field_def read64_write64)

section \<open>Blocks\<close>

type_synonym blockmap = "u64 \<Rightarrow> (u64 \<times> bool) option"

definition nxt :: "u64 \<Rightarrow> u64 \<Rightarrow> u64" where
  "nxt b sz = b + (8 + sz)"

text \<open>
  What belongs to a block: its size field and its payload, whose last word is the \<open>prev_phys_block\<close> of
  the block behind it.
\<close>

definition territory :: "u64 \<Rightarrow> u64 \<Rightarrow> u64 set" where
  "territory b sz = region (b + 8) (8 + unat sz)"

definition block_ok :: "u64 \<Rightarrow> u64 \<Rightarrow> u64 \<Rightarrow> bool \<Rightarrow> bool" where
  "block_ok c b sz fr \<longleftrightarrow> b \<noteq> 0 \<and> aligned8 b \<and> aligned8 sz \<and> unat b + unat sz + 16 < 2 ^ 64 \<and>
     (if sz = 0 then \<not> fr else 24 \<le> unat sz \<and> unat sz < 2 ^ 32) \<and> territory b sz \<inter> ctl c = {}"

text \<open>Where a heap at \<open>c\<close> may lie: its control structure, and addresses behind it that do not wrap.\<close>

definition span :: "u64 \<Rightarrow> u64 set" where
  "span c = ctl c \<union> {x. unat c \<le> unat x \<and> unat x < unat c + 2 ^ 32}"

lemma span_region: "span c \<subseteq> region c (2 ^ 32)"
proof
  fix x assume "x \<in> span c"
  then consider "x \<in> ctl c" | "unat c \<le> unat x" "unat x < unat c + 2 ^ 32" unfolding span_def by blast
  then show "x \<in> region c (2 ^ 32)"
  proof cases
    case 1
    then show ?thesis using region_mono [of 6536 "2 ^ 32" c] by (auto simp: ctl_def)
  next
    case 2
    then show ?thesis by (simp add: in_region_iff unat_sub word_le_nat_alt)
  qed
qed

text \<open>Control structure and pool span at most \<open>2 ^ 32\<close> bytes, so that merging blocks cannot pass the largest size class.\<close>

definition geometry :: "u64 \<Rightarrow> blockmap \<Rightarrow> bool" where
  "geometry c B \<longleftrightarrow> (\<forall>b sz fr. B b = Some (sz, fr) \<longrightarrow> territory b sz \<subseteq> span c) \<and>
     (\<forall>b sz fr. B b = Some (sz, fr) \<longrightarrow> block_ok c b sz fr \<and> (sz \<noteq> 0 \<longrightarrow> B (nxt b sz) \<noteq> None)) \<and>
     (\<forall>b sz fr b' sz' fr'. B b = Some (sz, fr) \<longrightarrow> B b' = Some (sz', fr') \<longrightarrow> b \<noteq> b' \<longrightarrow> territory b sz \<inter> territory b' sz' = {})"

lemma geometryD:
  assumes "geometry c B" "B b = Some (sz, fr)"
  shows "b \<noteq> 0" "aligned8 b" "aligned8 sz" "unat b + unat sz + 16 < 2 ^ 64" "sz = 0 \<Longrightarrow> \<not> fr"
    "sz \<noteq> 0 \<Longrightarrow> 24 \<le> unat sz" "unat sz < 2 ^ 32" "territory b sz \<inter> ctl c = {}"
    "sz \<noteq> 0 \<Longrightarrow> \<exists>sz' fr'. B (nxt b sz) = Some (sz', fr')"
proof -
  have "block_ok c b sz fr" and n: "sz \<noteq> 0 \<longrightarrow> B (nxt b sz) \<noteq> None" using assms unfolding geometry_def by blast+
  then show "b \<noteq> 0" "aligned8 b" "aligned8 sz" "unat b + unat sz + 16 < 2 ^ 64" "sz = 0 \<Longrightarrow> \<not> fr"
    "sz \<noteq> 0 \<Longrightarrow> 24 \<le> unat sz" "unat sz < 2 ^ 32" "territory b sz \<inter> ctl c = {}"
    unfolding block_ok_def by (auto split: if_splits)
  show "sz \<noteq> 0 \<Longrightarrow> \<exists>sz' fr'. B (nxt b sz) = Some (sz', fr')" using n by auto
qed

lemma geometry_apart:
  "geometry c B \<Longrightarrow> B b = Some (sz, fr) \<Longrightarrow> B b' = Some (sz', fr') \<Longrightarrow> b \<noteq> b' \<Longrightarrow> territory b sz \<inter> territory b' sz' = {}"
  unfolding geometry_def by blast

lemma geometry_pool: "geometry c B \<Longrightarrow> B b = Some (sz, fr) \<Longrightarrow> territory b sz \<subseteq> span c"
  unfolding geometry_def by blast

lemma geometryI:
  assumes "\<And>b sz fr. B b = Some (sz, fr) \<Longrightarrow> block_ok c b sz fr"
    and "\<And>b sz fr. B b = Some (sz, fr) \<Longrightarrow> territory b sz \<subseteq> span c"
    and "\<And>b sz fr. B b = Some (sz, fr) \<Longrightarrow> sz \<noteq> 0 \<Longrightarrow> B (nxt b sz) \<noteq> None"
    and "\<And>b sz fr b' sz' fr'. B b = Some (sz, fr) \<Longrightarrow> B b' = Some (sz', fr') \<Longrightarrow> b \<noteq> b' \<Longrightarrow> territory b sz \<inter> territory b' sz' = {}"
  shows "geometry c B"
  using assms unfolding geometry_def by blast

lemma geometry_block_ok: "geometry c B \<Longrightarrow> B b = Some (sz, fr) \<Longrightarrow> block_ok c b sz fr"
  unfolding geometry_def by blast

text \<open>The parts of a territory.\<close>

lemma territory_parts:
  assumes "unat sz < 2 ^ 32"
  shows "region (b + 8) 8 \<subseteq> territory b sz"
    and "24 \<le> unat sz \<Longrightarrow> region (b + 16) 16 \<subseteq> territory b sz"
    and "24 \<le> unat sz \<Longrightarrow> region (nxt b sz) 8 \<subseteq> territory b sz"
    and "region (b + 16) (unat sz) \<subseteq> territory b sz"
proof -
  have sub: "region (b + 8 + of_nat a) k \<subseteq> territory b sz" if "k + a \<le> 8 + unat sz" for a k
    unfolding territory_def using that assms by (intro region_shift) simp_all
  show "region (b + 8) 8 \<subseteq> territory b sz" using sub [of 8 0] by simp
  show "region (b + 16) 16 \<subseteq> territory b sz" if "24 \<le> unat sz" using sub [of 16 8] that by (simp add: add.commute)
  show "region (b + 16) (unat sz) \<subseteq> territory b sz" using sub [of "unat sz" 8] by (simp add: add.commute)
  show "region (nxt b sz) 8 \<subseteq> territory b sz" if "24 \<le> unat sz"
    using sub [of 8 "unat sz"] by (simp add: nxt_def add.commute add.left_commute)
qed

lemma own_parts:
  assumes "unat sz < 2 ^ 32" "24 \<le> unat sz"
  shows "region (b + 8) 8 \<inter> region (b + 16) 16 = {}" "region (b + 8) 8 \<inter> region (nxt b sz) 8 = {}"
    "region (b + 16) 16 \<inter> region (nxt b sz) 8 = {}" "region (b + 8) 8 \<inter> region (b + 16) (unat sz) = {}"
proof -
  have n: "nxt b sz = b + of_nat (8 + unat sz)" by (simp add: nxt_def)
  show "region (b + 8) 8 \<inter> region (b + 16) 16 = {}" using disjoint_offsets [of 8 8 16 16 b] by (simp add: disjoint_regions_def)
  show "region (b + 8) 8 \<inter> region (b + 16) (unat sz) = {}"
    using disjoint_offsets [of 8 8 16 "unat sz" b] assms by (simp add: disjoint_regions_def)
  show "region (b + 8) 8 \<inter> region (nxt b sz) 8 = {}" "region (b + 16) 16 \<inter> region (nxt b sz) 8 = {}"
    unfolding n using disjoint_offsets [of 8 8 "8 + unat sz" 8 b] disjoint_offsets [of 16 16 "8 + unat sz" 8 b] assms
    by (simp_all add: disjoint_regions_def)
qed

section \<open>Header writes and what they leave alone\<close>

lemma size_write_outside: "z \<notin> region (b + 8) 8 \<Longrightarrow> set_size_field b v m z = m z"
  by (simp add: set_size_field_def write64_outside)

lemma pp_write_outside: "z \<notin> region a 8 \<Longrightarrow> set_prev_phys_block a v m z = m z"
  by (simp add: set_prev_phys_block_def write64_outside)

lemma header_views:
  assumes g: "geometry c B" and y: "B y = Some (sy, fy)" and x: "B x = Some (sx, fx)"
  shows "size_field (set_size_field y v m) x = (if x = y then v else size_field m x)"
    and "sx \<noteq> 0 \<Longrightarrow> prev_phys_block (set_size_field y v m) (nxt x sx) = prev_phys_block m (nxt x sx)"
    and "sy \<noteq> 0 \<Longrightarrow> size_field (set_prev_phys_block (nxt y sy) v m) x = size_field m x"
    and "sy \<noteq> 0 \<Longrightarrow> sx \<noteq> 0 \<Longrightarrow> prev_phys_block (set_prev_phys_block (nxt y sy) v m) (nxt x sx) = (if x = y then v else prev_phys_block m (nxt x sx))"
proof -
  note dx = geometryD [OF g x] and dy = geometryD [OF g y]
  note px = territory_parts [OF dx(7), of x] and py = territory_parts [OF dy(7), of y]
  have ap: "territory x sx \<inter> territory y sy = {}" if "x \<noteq> y" using geometry_apart [OF g x y that] .
  have eq: "sx = sy" if "x = y" using that x y by simp
  show "size_field (set_size_field y v m) x = (if x = y then v else size_field m x)"
    unfolding size_field_def set_size_field_def
  proof (cases "x = y")
    case False
    then have "region (y + 8) 8 \<inter> region (x + 8) 8 = {}" using ap px(1) py(1) by blast
    with False show "read64 (write64 m (y + 8) v) (x + 8) = (if x = y then v else read64 m (x + 8))"
      by (simp add: read64_write64_other disjoint_regions_def)
  qed (simp add: read64_write64)
  show "prev_phys_block (set_size_field y v m) (nxt x sx) = prev_phys_block m (nxt x sx)" if "sx \<noteq> 0"
    unfolding prev_phys_block_def set_size_field_def
    using ap px(3) py(1) own_parts(2) [OF dx(7), of x] dx(6) that
    by (intro read64_write64_other) (cases "x = y"; auto simp: disjoint_regions_def)
  show "size_field (set_prev_phys_block (nxt y sy) v m) x = size_field m x" if "sy \<noteq> 0"
    unfolding size_field_def set_prev_phys_block_def
    using ap px(1) py(3) own_parts(2) [OF dy(7), of y] dy(6) that
    by (intro read64_write64_other) (cases "x = y"; auto simp: disjoint_regions_def)
  show "prev_phys_block (set_prev_phys_block (nxt y sy) v m) (nxt x sx) = (if x = y then v else prev_phys_block m (nxt x sx))"
    if "sy \<noteq> 0" "sx \<noteq> 0"
  proof (cases "x = y")
    case True
    with eq show ?thesis by (simp add: prev_phys_block_def set_prev_phys_block_def read64_write64)
  next
    case False
    then have "region (nxt y sy) 8 \<inter> region (nxt x sx) 8 = {}" using ap px(3) [OF dx(6)] py(3) [OF dy(6)] that by blast
    with False show ?thesis
      by (simp add: prev_phys_block_def set_prev_phys_block_def read64_write64_other disjoint_regions_def)
  qed
qed

lemma lists_ok_cong:
  assumes ok: "lists_ok c m L" and eq: "\<And>z. z \<in> ctl c \<or> (\<exists>b \<in> nodes L. z \<in> region (b + 16) 16) \<Longrightarrow> m' z = m z"
  shows "lists_ok c m' L"
proof -
  have sub: "z \<in> region (c + of_nat a) k \<Longrightarrow> a + k \<le> 6536 \<Longrightarrow> m' z = m z" for z a k
    using region_shift [of k a 6536 c] eq by (auto simp: ctl_def)
  have bl: "blocks m' c i j = blocks m c i j" if "idx i j" for i j
    unfolding blocks_def control_addrs(3) [OF that]
    by (rule read64_cong, erule sub) (use that in \<open>auto simp: idx_def\<close>)
  have sl: "sl_bitmap m' c i = sl_bitmap m c i" if "0 \<le> i" "i < 25" for i
    unfolding sl_bitmap_def control_addrs(2) [OF that(1)]
    by (rule read32_cong, erule sub) (use that in auto)
  have fl: "fl_bitmap m' c = fl_bitmap m c"
    unfolding fl_bitmap_def control_addrs(1) [of c] by (rule read32_cong, erule sub) simp
  have ln: "next_free m' b = next_free m b" "prev_free m' b = prev_free m b" if "b \<in> nodes L" for b
    unfolding next_free_def prev_free_def using that link_regions [of b] by (intro read64_cong eq; blast)+
  have "cell_ok c m' i j (L i j)" if ij: "idx i j" for i j
  proof -
    have "chain (next_free m') (prev_free m') c c (L i j) = chain (next_free m) (prev_free m) c c (L i j)"
      using in_nodes [OF ij] by (intro chain_cong conjI ln) auto
    with ok ij bl [OF ij] sl [of i] show ?thesis unfolding lists_ok_def cell_ok_def idx_def by auto
  qed
  with ok fl show ?thesis by (simp add: lists_ok_def row_ok_def)
qed

text \<open>The free blocks of a map, and the blocks in use with their payloads.\<close>

definition frees :: "blockmap \<Rightarrow> u64 set" where
  "frees B = {b. \<exists>sz. B b = Some (sz, True)}"

lemma freesD: "geometry c B \<Longrightarrow> b \<in> frees B \<Longrightarrow> \<exists>sz. B b = Some (sz, True) \<and> sz \<noteq> 0"
  unfolding frees_def using geometryD(5) by fastforce

text \<open>A write to a header disturbs neither the free lists nor the payload of a block in use.\<close>

lemma header_write_lists:
  assumes g: "geometry c B" and ok: "lists_ok c m L" and n: "nodes L \<subseteq> frees B" and y: "B y = Some (sy, fy)"
  shows "lists_ok c (set_size_field y v m) L" and "sy \<noteq> 0 \<Longrightarrow> lists_ok c (set_prev_phys_block (nxt y sy) v m) L"
proof -
  note dy = geometryD [OF g y] note py = territory_parts [OF dy(7), of y]
  have other: "z \<notin> region (y + 8) 8 \<and> (sy \<noteq> 0 \<longrightarrow> z \<notin> region (nxt y sy) 8)"
    if z: "z \<in> ctl c \<or> (\<exists>b \<in> nodes L. z \<in> region (b + 16) 16)" for z
    using z
  proof
    assume "z \<in> ctl c"
    then show ?thesis using dy(6,8) py(1,3) by auto
  next
    assume "\<exists>b \<in> nodes L. z \<in> region (b + 16) 16"
    then obtain b sz where b: "B b = Some (sz, True)" "sz \<noteq> 0" "z \<in> region (b + 16) 16" using n freesD [OF g] by blast
    note db = geometryD [OF g b(1)]
    have "z \<in> territory b sz" using territory_parts(2) [OF db(7) db(6)] b by blast
    show ?thesis
    proof (cases "b = y")
      case True
      then show ?thesis using own_parts [OF db(7) db(6), of b] b y by auto
    next
      case False
      then show ?thesis using geometry_apart [OF g b(1) y] \<open>z \<in> territory b sz\<close> py(1,3) dy(6) by blast
    qed
  qed
  show "lists_ok c (set_size_field y v m) L"
    using other by (intro lists_ok_cong [OF ok] size_write_outside) blast
  show "lists_ok c (set_prev_phys_block (nxt y sy) v m) L" if "sy \<noteq> 0"
    using other that by (intro lists_ok_cong [OF ok] pp_write_outside) blast
qed

definition keeps :: "blockmap \<Rightarrow> mem \<Rightarrow> mem \<Rightarrow> bool" where
  "keeps B m m' \<longleftrightarrow> (\<forall>x sx. B x = Some (sx, False) \<longrightarrow> (\<forall>z \<in> region (x + 16) (unat sx). m' z = m z))"

lemma keeps_refl [simp]: "keeps B m m"
  by (simp add: keeps_def)

lemma keeps_trans: "keeps B m m' \<Longrightarrow> keeps B m' m'' \<Longrightarrow> keeps B m m''"
  by (simp add: keeps_def)

lemma keeps_size_write:
  assumes g: "geometry c B" and y: "B y = Some (sy, fy)"
  shows "keeps B m (set_size_field y v m)" and "fy \<Longrightarrow> keeps B m (set_prev_phys_block (nxt y sy) v m)"
proof -
  note dy = geometryD [OF g y] note py = territory_parts [OF dy(7), of y]
  have other: "z \<notin> region (y + 8) 8 \<and> (fy \<longrightarrow> z \<notin> region (nxt y sy) 8)"
    if x: "B x = Some (sx, False)" and z: "z \<in> region (x + 16) (unat sx)" for x sx z
  proof (cases "x = y")
    case True
    have "sx \<noteq> 0" using z by auto
    with True show ?thesis using own_parts(4) [of sx x] geometryD [OF g x] x y z by auto
  next
    case False
    have "z \<in> territory x sx" using territory_parts(4) [OF geometryD(7) [OF g x]] z by blast
    then show ?thesis using geometry_apart [OF g x y False] py(1,3) dy(5,6) by blast
  qed
  show "keeps B m (set_size_field y v m)" unfolding keeps_def using other by (auto intro: size_write_outside)
  show "keeps B m (set_prev_phys_block (nxt y sy) v m)" if fy
    unfolding keeps_def using other that by (auto intro: pp_write_outside)
qed

lemma keeps_list_frame:
  assumes g: "geometry c B" and fr: "list_frame c N m m'" and N: "N \<subseteq> frees B"
  shows "keeps B m m'"
  unfolding keeps_def
proof (intro allI impI ballI)
  fix x sx z assume x: "B x = Some (sx, False)" and z: "z \<in> region (x + 16) (unat sx)"
  have zt: "z \<in> territory x sx" using territory_parts(4) [OF geometryD(7) [OF g x]] z by blast
  have "z \<notin> region (b + 16) 16" if bN: "b \<in> N" for b
  proof -
    obtain sz where b: "B b = Some (sz, True)" "sz \<noteq> 0" using bN N freesD [OF g] by blast
    then have "b \<noteq> x" using x by auto
    then show ?thesis
      using geometry_apart [OF g b(1) x] zt territory_parts(2) [OF geometryD(7,6) [OF g b(1)], of b] b(2) by blast
  qed
  moreover have "z \<notin> ctl c" using geometryD(8) [OF g x] zt by blast
  ultimately show "m' z = m z" using fr by (simp add: list_frame_def)
qed

section \<open>The invariant\<close>

definition pfree :: "blockmap \<Rightarrow> u64 \<Rightarrow> bool" where
  "pfree B b \<longleftrightarrow> (\<exists>p sp. B p = Some (sp, True) \<and> nxt p sp = b)"

definition headers :: "mem \<Rightarrow> blockmap \<Rightarrow> bool" where
  "headers m B \<longleftrightarrow> (\<forall>b sz fr. B b = Some (sz, fr) \<longrightarrow> size_field m b = szf sz fr (pfree B b) \<and>
     (fr \<longrightarrow> prev_phys_block m (nxt b sz) = b))"

definition class_of :: "blockmap \<Rightarrow> u64 \<Rightarrow> int \<times> int" where
  "class_of B b = mapping_insert (fst (the (B b)))"

text \<open>
  A set of blocks may be detached: they are marked free but are in no list, while an operation works
  on them. All other free blocks are in the list of their class, and no two of them are neighbours.
\<close>

definition listed :: "blockmap \<Rightarrow> u64 set \<Rightarrow> (int \<Rightarrow> int \<Rightarrow> u64 list) \<Rightarrow> bool" where
  "listed B D L \<longleftrightarrow> (\<forall>i j. idx i j \<longrightarrow> set (L i j) = {b \<in> frees B - D. class_of B b = (i, j)})"

definition coalesced :: "blockmap \<Rightarrow> u64 set \<Rightarrow> bool" where
  "coalesced B D \<longleftrightarrow> (\<forall>b sz. B b = Some (sz, True) \<longrightarrow> b \<notin> D \<longrightarrow> nxt b sz \<notin> D \<longrightarrow> nxt b sz \<notin> frees B)"

definition heap :: "u64 \<Rightarrow> mem \<Rightarrow> blockmap \<Rightarrow> u64 set \<Rightarrow> bool" where
  "heap c m B D \<longleftrightarrow> geometry c B \<and> headers m B \<and> coalesced B D \<and> (\<exists>L. lists_ok c m L \<and> listed B D L)"

lemma prev_unique:
  assumes "geometry c B" "B p = Some (sp, fp)" "B q = Some (sq, fq)" "sp \<noteq> 0" "sq \<noteq> 0" "nxt p sp = nxt q sq"
  shows "p = q"
proof (rule ccontr)
  assume n: "p \<noteq> q"
  have r: "x \<in> region x 8" for x :: u64 by (simp add: in_region_iff)
  have "nxt p sp \<in> territory p sp" "nxt q sq \<in> territory q sq"
    using r territory_parts(3) [OF geometryD(7,6) [OF assms(1,2)] , of p] territory_parts(3) [OF geometryD(7,6) [OF assms(1,3)], of q]
      assms(4,5) by blast+
  with geometry_apart [OF assms(1-3) n] assms(6) show False by auto
qed

lemma nxt_neq: "geometry c B \<Longrightarrow> B b = Some (sz, fr) \<Longrightarrow> nxt b sz \<noteq> b"
proof
  assume g: "geometry c B" "B b = Some (sz, fr)" and n: "nxt b sz = b"
  then have "8 + sz = 0" by (simp add: nxt_def)
  then have "unat (8 + sz) = 0" by simp
  then show False using geometryD(7) [OF g] by (simp add: unat_word_ariths)
qed

lemma class_idx:
  assumes "geometry c B" "b \<in> frees B"
  obtains i j where "class_of B b = (i, j)" "idx i j"
proof -
  obtain sz where b: "B b = Some (sz, True)" "sz \<noteq> 0" using freesD [OF assms] by blast
  obtain i j where ij: "mapping_insert sz = (i, j)" by fastforce
  note mc = mapping_insert_class [OF ij]
  have "nat i < 25"
  proof (rule ccontr)
    assume "\<not> nat i < 25"
    then have "(2 :: nat) ^ 27 * 32 \<le> class_min (nat i) (nat j)"
      unfolding class_min_def using power_increasing [of 27 "nat i + 2" "2 :: nat"] mult_le_mono [of "2 ^ 27" "2 ^ (nat i + 2)" 32 "32 + nat j"] by simp
    with mc(4) geometryD(7) [OF assms(1) b(1)] show False by simp
  qed
  with mc have "idx i j" by (simp add: idx_def)
  with that ij b show thesis by (simp add: class_of_def)
qed

lemma listed_nodes: "geometry c B \<Longrightarrow> listed B D L \<Longrightarrow> nodes L = frees B - D"
  unfolding nodes_def listed_def by (rule set_eqI, rule iffI) (blast, metis (mono_tags, lifting) class_idx DiffD1 mem_Collect_eq)

lemma geometry_well_placed:
  assumes g: "geometry c B" and c: "c \<noteq> 0" and N: "N \<subseteq> frees B"
  shows "well_placed c N"
proof -
  have part: "\<exists>sz. B b = Some (sz, True) \<and> region (b + 16) 16 \<subseteq> territory b sz \<and> territory b sz \<inter> ctl c = {} \<and> b \<noteq> 0" if bN: "b \<in> N" for b
  proof -
    obtain sz where b: "B b = Some (sz, True)" "sz \<noteq> 0" using freesD [OF g] N bN by blast
    note d = geometryD [OF g b(1)]
    show ?thesis using b d(1,8) territory_parts(2) [OF d(7) d(6)] by blast
  qed
  have cr: "region (c + 16) 16 \<subseteq> ctl c" using region_shift [of 16 16 6536 c] by (simp add: ctl_def)
  have dis: "region (b + 16) 16 \<inter> ctl c = {}" if "b \<in> N" for b using part [OF that] by blast
  have "c \<notin> N"
  proof
    assume "c \<in> N"
    then have "region (c + 16) 16 \<inter> region (c + 16) 16 = {}" using dis cr by blast
    moreover have "c + 16 \<in> region (c + 16) 16" by (simp add: in_region_iff)
    ultimately show False by blast
  qed
  moreover have "disjoint_regions (b + 16) 16 (b' + 16) 16" if "b \<in> N" "b' \<in> N" "b \<noteq> b'" for b b'
    using part [OF that(1)] part [OF that(2)] geometry_apart [OF g _ _ that(3)] unfolding disjoint_regions_def by blast
  moreover have "disjoint_regions (c + 16) 16 (b' + 16) 16" "disjoint_regions (b' + 16) 16 (c + 16) 16" if "b' \<in> N" for b'
    using dis [OF that] cr unfolding disjoint_regions_def by blast+
  ultimately show ?thesis
    using c part dis unfolding well_placed_def separate_def by (fastforce simp: disjoint_regions_def ctl_def)
qed

section \<open>Lists and headers\<close>

lemma list_frame_headers:
  assumes g: "geometry c B" and fr: "list_frame c N m m'" and N: "N \<subseteq> frees B" and h: "headers m B"
  shows "headers m' B"
  unfolding headers_def
proof (intro allI impI)
  fix x sx fx assume x: "B x = Some (sx, fx)"
  note dx = geometryD [OF g x] note px = territory_parts [OF dx(7), of x]
  have same: "m' z = m z" if z: "z \<in> territory x sx" and own: "fx \<Longrightarrow> z \<notin> region (x + 16) 16" for z
  proof -
    have "z \<notin> region (b + 16) 16" if bN: "b \<in> N" for b
    proof -
      obtain sz where b: "B b = Some (sz, True)" "sz \<noteq> 0" using bN N freesD [OF g] by blast
      show ?thesis
      proof (cases "b = x")
        case True
        with own b x show ?thesis by auto
      next
        case False
        then show ?thesis
          using geometry_apart [OF g b(1) x] z territory_parts(2) [OF geometryD(7,6) [OF g b(1)], of b] b(2) by blast
      qed
    qed
    moreover have "z \<notin> ctl c" using dx(8) z by blast
    ultimately show ?thesis using fr by (simp add: list_frame_def)
  qed
  have own: "region (x + 8) 8 \<inter> region (x + 16) 16 = {}" "region (x + 16) 16 \<inter> region (nxt x sx) 8 = {}" if fx
    using own_parts [OF dx(7,6)] dx(5) that by blast+
  have "size_field m' x = size_field m x"
    unfolding size_field_def using px(1) own(1) by (intro read64_cong same) blast+
  moreover have "prev_phys_block m' (nxt x sx) = prev_phys_block m (nxt x sx)" if fx
    unfolding prev_phys_block_def using px(3) [OF dx(6)] dx(5) own(2) that by (intro read64_cong same) blast+
  ultimately show "size_field m' x = szf sx fx (pfree B x) \<and> (fx \<longrightarrow> prev_phys_block m' (nxt x sx) = x)"
    using h x by (simp add: headers_def)
qed

lemma heap_block:
  assumes "heap c m B D" "B b = Some (sz, fr)"
  shows "block_size m b = sz" "block_is_free m b \<longleftrightarrow> fr" "block_is_prev_free m b \<longleftrightarrow> pfree B b" "block_is_last m b \<longleftrightarrow> sz = 0"
    "fr \<Longrightarrow> prev_phys_block m (nxt b sz) = b" "size_field m b = szf sz fr (pfree B b)"
proof -
  have g: "geometry c B" using assms(1) by (simp add: heap_def)
  have h: "size_field m b = szf sz fr (pfree B b)" "fr \<Longrightarrow> prev_phys_block m (nxt b sz) = b" and a: "aligned8 sz"
    using assms geometryD(3) [OF g assms(2)] by (auto simp: heap_def headers_def)
  then show "block_size m b = sz" "block_is_free m b \<longleftrightarrow> fr" "block_is_prev_free m b \<longleftrightarrow> pfree B b" "block_is_last m b \<longleftrightarrow> sz = 0"
    "fr \<Longrightarrow> prev_phys_block m (nxt b sz) = b" "size_field m b = szf sz fr (pfree B b)"
    using status_of_szf [OF h(1) a] by simp_all
qed

lemma remove_ok:
  assumes hp: "heap c m B D" and b: "b \<in> frees B" "b \<notin> D" and ij: "class_of B b = (i, j)"
  obtains m' where "remove_free_block c b i j m = Some m'" "heap c m' B (insert b D)" "keeps B m m'"
proof -
  obtain L where g: "geometry c B" and h: "headers m B" and co: "coalesced B D" and L: "lists_ok c m L" and li: "listed B D L"
    using hp by (auto simp: heap_def)
  have ix: "idx i j" using class_idx [OF g b(1)] ij by auto
  have "b \<in> set (L i j)" using li ix b ij by (auto simp: listed_def)
  then obtain ys zs where split: "L i j = ys @ b # zs" by (auto simp: in_set_conv_decomp)
  obtain m' where m': "remove_free_block c b i j m = Some m'" "lists_ok c m' (upd L i j (ys @ zs))" "list_frame c (nodes L) m m'"
    using remove_free_block_ok [OF L ix split] by blast
  have "distinct (L i j)" using L ix by (auto simp: lists_ok_def cell_ok_def)
  then have "set (ys @ zs) = set (L i j) - {b}" using split by auto
  then have "listed B (insert b D) (upd L i j (ys @ zs))"
    using li ij unfolding listed_def by (auto simp: upd_def)
  moreover have "coalesced B (insert b D)" using co by (auto simp: coalesced_def)
  moreover have N: "nodes L \<subseteq> frees B" using listed_nodes [OF g li] by blast
  ultimately show thesis
    using that [of m'] m' g list_frame_headers [OF g m'(3) N h] keeps_list_frame [OF g m'(3) N] unfolding heap_def by blast
qed

lemma insert_ok:
  assumes hp: "heap c m B D" and b: "b \<in> frees B" "b \<in> D" and co: "coalesced B (D - {b})"
  obtains m' where "block_insert c b m = Some m'" "heap c m' B (D - {b})" "keeps B m m'"
proof -
  obtain L where g: "geometry c B" and h: "headers m B" and L: "lists_ok c m L" and li: "listed B D L"
    using hp by (auto simp: heap_def)
  obtain i j where ij: "class_of B b = (i, j)" and ix: "idx i j" by (rule class_idx [OF g b(1)])
  obtain sz where sz: "B b = Some (sz, True)" using b by (auto simp: frees_def)
  have n: "nodes L = frees B - D" using listed_nodes [OF g li] .
  have "c \<noteq> 0" using L by (simp add: lists_ok_def well_placed_def)
  moreover have "insert b (nodes L) \<subseteq> frees B" using n b by blast
  ultimately have wp: "well_placed c (insert b (nodes L))" by (rule geometry_well_placed [OF g])
  have bn: "b \<notin> nodes L" using n b by simp
  have al: "aligned8 b" using geometryD(2) [OF g sz] .
  obtain m' where m': "insert_free_block c b i j m = Some m'" "lists_ok c m' (upd L i j (b # L i j))"
    "list_frame c (insert b (nodes L)) m m'" using insert_free_block_ok [OF L ix bn wp al] by blast
  have "block_insert c b m = Some m'"
    unfolding block_insert_def heap_block(1) [OF hp sz] using ij m'(1) sz by (simp add: class_of_def)
  moreover have "listed B (D - {b}) (upd L i j (b # L i j))"
    unfolding listed_def
  proof (intro allI impI)
    fix i' j' assume "idx i' j'"
    then have old: "set (L i' j') = {b \<in> frees B - D. class_of B b = (i', j')}" using li by (simp add: listed_def)
    show "set (upd L i j (b # L i j) i' j') = {b' \<in> frees B - (D - {b}). class_of B b' = (i', j')}" (is "?l = ?r")
    proof (rule set_eqI)
      fix x
      have "x \<in> ?l \<longleftrightarrow> (i', j') = (i, j) \<and> x = b \<or> x \<in> set (L i' j')" by (auto simp: upd_def)
      also have "\<dots> \<longleftrightarrow> x \<in> ?r" unfolding old using ij b by (cases "x = b") auto
      finally show "x \<in> ?l \<longleftrightarrow> x \<in> ?r" .
    qed
  qed
  moreover have N: "insert b (nodes L) \<subseteq> frees B" using n b by blast
  ultimately show thesis
    using that [of m'] m' g co list_frame_headers [OF g m'(3) N h] keeps_list_frame [OF g m'(3) N] unfolding heap_def by blast
qed

section \<open>Changing the status of a block\<close>

lemma heap_geometry: "heap c m B D \<Longrightarrow> geometry c B"
  by (simp add: heap_def)

lemma next_block:
  assumes "block_size m b = sz" "sz \<noteq> 0"
  shows "block_next m b = Some (nxt b sz)"
  using assms by (simp add: block_next_def Let_def block_is_last_def offset_to_block_def block_to_ptr_def tlsf_constants nxt_def)

lemma frees_upd: "frees (B(b \<mapsto> (sz, f))) = (if f then insert b (frees B) else frees B - {b})"
  by (auto simp: frees_def)

lemma geometry_flag: "geometry c B \<Longrightarrow> B b = Some (sz, fr) \<Longrightarrow> sz \<noteq> 0 \<Longrightarrow> geometry c (B(b \<mapsto> (sz, fr')))"
proof -
  assume g: "geometry c B" and b: "B b = Some (sz, fr)" and nz: "sz \<noteq> 0"
  let ?B = "B(b \<mapsto> (sz, fr'))"
  note pool = geometry_pool [OF g]
  have old: "\<exists>f. B x = Some (sx, f) \<and> (sx = 0 \<longrightarrow> f = fx)" if "?B x = Some (sx, fx)" for x sx fx
    using that b nz by (cases "x = b") auto
  show "geometry c ?B"
  proof (rule geometryI)
    fix x sx fx assume "?B x = Some (sx, fx)"
    then obtain f where x: "B x = Some (sx, f)" "sx = 0 \<longrightarrow> f = fx" using old by blast
    show "block_ok c x sx fx" using geometry_block_ok [OF g x(1)] x(2) unfolding block_ok_def by (cases "sx = 0") simp_all
    show "territory x sx \<subseteq> span c" using pool [OF x(1)] .
    show "?B (nxt x sx) \<noteq> None" if "sx \<noteq> 0" using geometryD(9) [OF g x(1) that] by auto
    fix y sy fy assume "?B y = Some (sy, fy)" "x \<noteq> y"
    then show "territory x sx \<inter> territory y sy = {}" using old geometry_apart [OF g x(1)] by blast
  qed
qed

lemma pfree_nxt: "geometry c B \<Longrightarrow> B b = Some (sz, fr) \<Longrightarrow> sz \<noteq> 0 \<Longrightarrow> pfree B (nxt b sz) = fr"
proof -
  assume g: "geometry c B" "B b = Some (sz, fr)" "sz \<noteq> 0"
  have "fr" if p: "B p = Some (sp, True)" "nxt p sp = nxt b sz" for p sp
  proof -
    have "sp \<noteq> 0" using geometryD(5) [OF g(1) p(1)] by auto
    then have "p = b" using prev_unique [OF g(1) p(1) g(2)] g(3) p(2) by blast
    then show fr using p g by simp
  qed
  then show ?thesis using g(2) unfolding pfree_def by (cases fr) auto
qed

lemma pfree_flag:
  assumes "geometry c B" "B b = Some (sz, fr)" "sz \<noteq> 0"
  shows "pfree (B(b \<mapsto> (sz, fr'))) x = (if x = nxt b sz then fr' else pfree B x)"
proof (cases "x = nxt b sz")
  case True
  with pfree_nxt [OF geometry_flag [OF assms, of fr'], of b sz fr'] assms show ?thesis by simp
next
  case False
  have "(B(b \<mapsto> (sz, fr'))) p = Some (sp, True) \<and> nxt p sp = x \<longleftrightarrow> B p = Some (sp, True) \<and> nxt p sp = x" for p sp
    using False assms by (cases "p = b") auto
  with False show ?thesis by (simp add: pfree_def)
qed

lemma headers_flag:
  assumes g: "geometry c B" and h: "headers m B" and b: "B b = Some (sz, fr)" "sz \<noteq> 0" and n: "B (nxt b sz) = Some (sn, fn)"
    and sf: "\<And>x sx fx. B x = Some (sx, fx) \<Longrightarrow>
      size_field m' x = (if x = b then szf sz f' (pfree B b) else if x = nxt b sz then szf sn fn f' else size_field m x)"
    and pp: "\<And>x sx. B x = Some (sx, True) \<Longrightarrow> x \<noteq> b \<Longrightarrow> prev_phys_block m' (nxt x sx) = prev_phys_block m (nxt x sx)"
    and pb: "f' \<Longrightarrow> prev_phys_block m' (nxt b sz) = b"
  shows "headers m' (B(b \<mapsto> (sz, f')))"
  unfolding headers_def
proof (intro allI impI)
  fix x sx fx assume x: "(B(b \<mapsto> (sz, f'))) x = Some (sx, fx)"
  have ne: "nxt b sz \<noteq> b" using nxt_neq [OF g b(1)] .
  note pf = pfree_flag [OF g b, of f'] 
  show "size_field m' x = szf sx fx (pfree (B(b \<mapsto> (sz, f'))) x) \<and> (fx \<longrightarrow> prev_phys_block m' (nxt x sx) = x)"
  proof (cases "x = b")
    case True
    with x have e: "sx = sz" "fx = f'" by auto
    have "pfree (B(b \<mapsto> (sz, f'))) b = pfree B b" using pf [of b] ne by simp
    then show ?thesis using sf [OF b(1)] pb unfolding True e by simp
  next
    case False
    with x have x': "B x = Some (sx, fx)" by simp
    then have old: "size_field m x = szf sx fx (pfree B x)" "fx \<longrightarrow> prev_phys_block m (nxt x sx) = x"
      using h unfolding headers_def by blast+
    have "size_field m' x = szf sx fx (pfree (B(b \<mapsto> (sz, f'))) x)"
      unfolding pf using sf [OF x'] old(1) n x' False by (cases "x = nxt b sz") auto
    moreover have "fx \<longrightarrow> prev_phys_block m' (nxt x sx) = x" using pp x' False old(2) by (cases fx) auto
    ultimately show ?thesis by blast
  qed
qed

lemma class_of_upd: "x \<noteq> b \<Longrightarrow> class_of (B(b \<mapsto> v)) x = class_of B x"
  by (simp add: class_of_def)

lemma class_of_flag: "B b = Some (sz, fr) \<Longrightarrow> class_of (B(b \<mapsto> (sz, f))) x = class_of B x"
  by (simp add: class_of_def)

lemma listed_cong:
  assumes "listed B D L" "frees B' - D' = frees B - D" "\<And>x. x \<in> frees B - D \<Longrightarrow> class_of B' x = class_of B x"
  shows "listed B' D' L"
  using assms unfolding listed_def by auto

lemma mark_used_ok:
  assumes hp: "heap c m B D" and b: "B b = Some (sz, True)" "b \<in> D"
  obtains m' where "block_mark_as_used b m = Some m'" "heap c m' (B(b \<mapsto> (sz, False))) (D - {b})" "keeps B m m'"
proof -
  obtain L where g: "geometry c B" and h: "headers m B" and co: "coalesced B D" and L: "lists_ok c m L" and li: "listed B D L"
    using hp by (auto simp: heap_def)
  note db = geometryD [OF g b(1)] note hb = heap_block [OF hp b(1)]
  have nz: "sz \<noteq> 0" using db(5) by auto
  obtain sn fn where n: "B (nxt b sz) = Some (sn, fn)" using db(9) [OF nz] by blast
  note hn = heap_block [OF hp n] note dn = geometryD [OF g n]
  have ne: "nxt b sz \<noteq> b" using nxt_neq [OF g b(1)] .
  define m1 where "m1 = set_size_field (nxt b sz) (szf sn fn False) m"
  define m2 where "m2 = set_size_field b (szf sz False (pfree B b)) m1"
  have s1: "block_set_prev_used (nxt b sz) m = m1" unfolding m1_def by (rule status_setters(4) [OF hn(6) dn(3)])
  have "size_field m1 b = szf sz True (pfree B b)" unfolding m1_def header_views(1) [OF g n b(1)] using ne hb(6) by simp
  then have s2: "block_set_used b m1 = m2" unfolding m2_def by (rule status_setters(2) [OF _ db(3)])
  have run: "block_mark_as_used b m = Some m2"
    by (simp add: block_mark_as_used_def next_block [OF hb(1) nz] s1 s2)
  have N: "nodes L \<subseteq> frees B" using listed_nodes [OF g li] by blast
  have "lists_ok c m2 L" unfolding m2_def m1_def using header_write_lists(1) [OF g _ N] L n b(1) by blast
  moreover have "headers m2 (B(b \<mapsto> (sz, False)))"
  proof (rule headers_flag [OF g h b(1) nz n])
    fix x sx fx assume x: "B x = Some (sx, fx)"
    show "size_field m2 x = (if x = b then szf sz False (pfree B b) else if x = nxt b sz then szf sn fn False else size_field m x)"
      unfolding m2_def m1_def header_views(1) [OF g b(1) x] header_views(1) [OF g n x] ..
  next
    fix x sx assume x: "B x = Some (sx, True)"
    then have "sx \<noteq> 0" using geometryD(5) [OF g x] by auto
    then show "prev_phys_block m2 (nxt x sx) = prev_phys_block m (nxt x sx)"
      unfolding m2_def m1_def by (simp add: header_views(2) [OF g b(1) x] header_views(2) [OF g n x])
  qed simp
  moreover have "listed (B(b \<mapsto> (sz, False))) (D - {b}) L"
    by (rule listed_cong [OF li]) (use b in \<open>auto simp: frees_upd class_of_flag\<close>)
  moreover have "coalesced (B(b \<mapsto> (sz, False))) (D - {b})"
    using co unfolding coalesced_def frees_upd by (auto split: if_splits)
  moreover have "keeps B m m2"
    unfolding m2_def m1_def using keeps_trans keeps_size_write(1) [OF g n] keeps_size_write(1) [OF g b(1)] by blast
  ultimately show thesis using that run geometry_flag [OF g b(1) nz] unfolding heap_def by blast
qed

lemma mark_free_ok:
  assumes hp: "heap c m B D" and b: "B b = Some (sz, False)" and nz: "sz \<noteq> 0"
  obtains m' where "block_mark_as_free b m = Some m'" "heap c m' (B(b \<mapsto> (sz, True))) (insert b D)"
    "keeps (B(b \<mapsto> (sz, True))) m m'"
proof -
  obtain L where g: "geometry c B" and h: "headers m B" and co: "coalesced B D" and L: "lists_ok c m L" and li: "listed B D L"
    using hp by (auto simp: heap_def)
  let ?B = "B(b \<mapsto> (sz, True))"
  note db = geometryD [OF g b] note hb = heap_block [OF hp b]
  obtain sn fn where n: "B (nxt b sz) = Some (sn, fn)" using db(9) [OF nz] by blast
  note hn = heap_block [OF hp n] note dn = geometryD [OF g n]
  have ne: "nxt b sz \<noteq> b" using nxt_neq [OF g b] .
  define m0 where "m0 = set_prev_phys_block (nxt b sz) b m"
  define m1 where "m1 = set_size_field (nxt b sz) (szf sn fn True) m0"
  define m2 where "m2 = set_size_field b (szf sz True (pfree B b)) m1"
  have "size_field m0 (nxt b sz) = szf sn fn (pfree B (nxt b sz))"
    unfolding m0_def header_views(3) [OF g b n nz] hn(6) ..
  then have s1: "block_set_prev_free (nxt b sz) m0 = m1" unfolding m1_def by (rule status_setters(3) [OF _ dn(3)])
  have "size_field m1 b = szf sz False (pfree B b)"
    unfolding m1_def m0_def header_views(1) [OF g n b] header_views(3) [OF g b b nz] using ne hb(6) by simp
  then have s2: "block_set_free b m1 = m2" unfolding m2_def by (rule status_setters(1) [OF _ db(3)])
  have run: "block_mark_as_free b m = Some m2"
    by (simp add: block_mark_as_free_def block_link_next_def next_block [OF hb(1) nz] m0_def [symmetric] s1 s2)
  have N: "nodes L \<subseteq> frees B" using listed_nodes [OF g li] by blast
  have "lists_ok c m0 L" unfolding m0_def by (rule header_write_lists(2) [OF g L N b nz])
  then have "lists_ok c m2 L" unfolding m2_def m1_def using header_write_lists(1) [OF g _ N] n b by blast
  moreover have "headers m2 ?B"
  proof (rule headers_flag [OF g h b nz n])
    fix x sx fx assume x: "B x = Some (sx, fx)"
    show "size_field m2 x = (if x = b then szf sz True (pfree B b) else if x = nxt b sz then szf sn fn True else size_field m x)"
      unfolding m2_def m1_def m0_def header_views(1) [OF g b x] header_views(1) [OF g n x] header_views(3) [OF g b x nz] ..
  next
    fix x sx assume x: "B x = Some (sx, True)" "x \<noteq> b"
    then have "sx \<noteq> 0" using geometryD(5) [OF g x(1)] by auto
    with x(2) show "prev_phys_block m2 (nxt x sx) = prev_phys_block m (nxt x sx)"
      unfolding m2_def m1_def m0_def
      by (simp add: header_views(2) [OF g b x(1)] header_views(2) [OF g n x(1)] header_views(4) [OF g b x(1) nz])
  next
    show "prev_phys_block m2 (nxt b sz) = b"
      unfolding m2_def m1_def m0_def
      by (simp add: header_views(2) [OF g b b nz] header_views(2) [OF g n b nz] header_views(4) [OF g b b nz nz])
  qed
  moreover have "b \<notin> frees B" using b by (simp add: frees_def)
  then have "listed ?B (insert b D) L"
    by (intro listed_cong [OF li]) (use b in \<open>auto simp: frees_upd class_of_flag\<close>)
  moreover have "coalesced ?B (insert b D)"
    using co unfolding coalesced_def frees_upd by (auto split: if_splits)
  moreover have g': "geometry c ?B" using geometry_flag [OF g b nz] .
  have b': "?B b = Some (sz, True)" and n': "?B (nxt b sz) = Some (sn, fn)" using n ne by simp_all
  have "keeps ?B m m2"
    unfolding m2_def m1_def m0_def
    using keeps_trans keeps_size_write(1) [OF g' n'] keeps_size_write(1) [OF g' b'] keeps_size_write(2) [OF g' b'] by blast
  ultimately show thesis using that [of m2] run g' unfolding heap_def by blast
qed

end
