(* ===== verification/TlsfMerge.thy ===== *)
theory TlsfMerge
  imports TlsfHeap
begin

text \<open>
  Splitting and merging blocks (\<open>mm/heapalloc/tlsf.c\<close>: \<open>block_split\<close>, \<open>block_absorb\<close>,
  \<open>block_merge_prev\<close>, \<open>block_merge_next\<close>, \<open>block_trim_free\<close>) keep the invariant of the heap.
\<close>

section \<open>Territories\<close>

lemma region_append:
  assumes "a + k \<le> 2 ^ 64"
  shows "region p (a + k) = region p a \<union> region (p + of_nat a) k"
proof (rule set_eqI, rule iffI)
  fix x assume "x \<in> region p (a + k)"
  then have x: "unat (x - p) < a + k" by (simp add: in_region_iff)
  show "x \<in> region p a \<union> region (p + of_nat a) k"
  proof (cases "unat (x - p) < a")
    case True
    then show ?thesis by (simp add: in_region_iff)
  next
    case False
    with x assms have "unat (of_nat a :: u64) = a" by (intro unat_of_nat_64) simp
    with False have "unat (x - p - of_nat a) = unat (x - p) - a" by (subst unat_sub) (simp_all add: word_le_nat_alt)
    with False x show ?thesis by (simp add: in_region_iff diff_diff_add)
  qed
next
  fix x assume "x \<in> region p a \<union> region (p + of_nat a) k"
  then show "x \<in> region p (a + k)" using region_mono [of a "a + k" p] region_shift [of k a "a + k" p] assms by auto
qed

lemma region_disjoint_append: "a + k \<le> 2 ^ 64 \<Longrightarrow> region p a \<inter> region (p + of_nat a) k = {}"
  using disjoint_offsets [of 0 a a k p] by (simp add: disjoint_regions_def)

lemma card_region: "n \<le> 2 ^ 64 \<Longrightarrow> card (region p n) = n"
proof -
  assume n: "n \<le> 2 ^ 64"
  have "region p n = (\<lambda>i. p + of_nat i) ` {..<n}"
  proof (rule set_eqI, rule iffI)
    fix x assume "x \<in> region p n"
    then have "unat (x - p) < n" by (simp add: in_region_iff)
    moreover have "x = p + of_nat (unat (x - p))" by simp
    ultimately show "x \<in> (\<lambda>i. p + of_nat i) ` {..<n}" by blast
  qed (use n region_offset in auto)
  moreover have "inj_on (\<lambda>i. p + of_nat i :: u64) {..<n}"
  proof (rule inj_onI)
    fix x y assume "x \<in> {..<n}" "y \<in> {..<n}" "p + of_nat x = p + (of_nat y :: u64)"
    with n have "unat (of_nat x :: u64) = unat (of_nat y :: u64)" "x < 2 ^ 64" "y < 2 ^ 64" by auto
    then show "x = y" by (simp add: unat_of_nat_64)
  qed
  ultimately show ?thesis by (simp add: card_image)
qed

lemma territory_join:
  assumes "unat s + unat t + 16 < 2 ^ 64"
  shows "territory b (s + (t + 8)) = territory b s \<union> territory (nxt b s) t"
    and "territory b s \<inter> territory (nxt b s) t = {}"
    and "unat (s + (t + 8)) = unat s + unat t + 8" and "nxt (nxt b s) t = nxt b (s + (t + 8))"
proof -
  show u: "unat (s + (t + 8)) = unat s + unat t + 8" using assms by (simp add: unat_word_ariths)
  have e: "territory (nxt b s) t = region (b + 8 + of_nat (8 + unat s)) (8 + unat t)"
    by (simp add: territory_def nxt_def add_ac)
  have a: "(8 + unat s) + (8 + unat t) \<le> 2 ^ 64" using assms by simp
  have "territory b (s + (t + 8)) = region (b + 8) ((8 + unat s) + (8 + unat t))"
    unfolding territory_def u by (simp add: add_ac)
  then show "territory b (s + (t + 8)) = territory b s \<union> territory (nxt b s) t"
    unfolding e region_append [OF a] by (simp add: territory_def)
  show "territory b s \<inter> territory (nxt b s) t = {}"
    by (subst e) (simp only: territory_def region_disjoint_append [OF a])
  show "nxt (nxt b s) t = nxt b (s + (t + 8))" by (simp add: nxt_def)
qed

lemma own_territory: "b + 8 \<in> territory b sz"
  by (simp add: territory_def in_region_iff)

section \<open>Splitting the block map\<close>

text \<open>A block of size \<open>s + (t + 8)\<close> and the two blocks it is split into.\<close>

definition split_at :: "blockmap \<Rightarrow> u64 \<Rightarrow> u64 \<Rightarrow> bool \<Rightarrow> u64 \<Rightarrow> blockmap" where
  "split_at B b s fr t = B(b \<mapsto> (s, fr), nxt b s \<mapsto> (t, True))"

definition join_at :: "blockmap \<Rightarrow> u64 \<Rightarrow> u64 \<Rightarrow> bool \<Rightarrow> u64 \<Rightarrow> blockmap" where
  "join_at B b s fr t = (B(nxt b s := None))(b \<mapsto> (s + (t + 8), fr))"

lemma split_fresh:
  assumes g: "geometry c B" and b: "B b = Some (s + (t + 8), fr)" and u: "unat s + unat t + 16 < 2 ^ 64"
  shows "B (nxt b s) = None" "nxt b s \<noteq> b"
proof -
  have r: "nxt b s + 8 \<in> territory b (s + (t + 8))" unfolding territory_join(1) [OF u] using own_territory by blast
  show ne: "nxt b s \<noteq> b"
  proof
    assume "nxt b s = b"
    then have "b + 8 \<in> territory b s \<inter> territory (nxt b s) t" using own_territory [of b] by simp
    then show False using territory_join(2) [OF u] by blast
  qed
  show "B (nxt b s) = None"
  proof (rule ccontr)
    assume "B (nxt b s) \<noteq> None"
    then obtain s' f' where "B (nxt b s) = Some (s', f')" by auto
    then show False using geometry_apart [OF g b _ ne [symmetric]] r own_territory by blast
  qed
qed

lemma geometry_split:
  assumes g: "geometry c B" and b: "B b = Some (s + (t + 8), fr)"
    and s: "aligned8 s" "24 \<le> unat s" and t: "aligned8 t" "24 \<le> unat t" and u: "unat s + unat t + 16 < 2 ^ 64"
  shows "geometry c (split_at B b s fr t)"
proof -
  let ?r = "nxt b s" let ?B = "split_at B b s fr t"
  note pool = geometry_pool [OF g]
  note j = territory_join(1,2) [OF u, of b] territory_join(3) [OF u] territory_join(4) [OF u, of b] note fresh = split_fresh [OF g b u] note db = geometryD [OF g b]
  have st: "unat s < 2 ^ 32" "unat t < 2 ^ 32" using db(7) j(3) by auto
  have nz: "s \<noteq> 0" "t \<noteq> 0" using s t by auto
  have ur: "unat ?r = unat b + unat s + 8"
    using db(4) j(3) by (simp add: nxt_def unat_word_ariths)
  have al: "aligned8 ?r" unfolding nxt_def using db(2) s(1) by (intro aligned_add) (simp_all add: aligned_def)
  have "?r \<noteq> 0" using ur by auto
  then have ok: "block_ok c b s fr" "block_ok c ?r t True"
    using db(1,2,4,8) s t st j(1,3) al ur nz unfolding block_ok_def by auto
  have new: "(x = b \<and> (sx, fx) = (s, fr) \<or> x = ?r \<and> (sx, fx) = (t, True)) \<or> x \<noteq> b \<and> x \<noteq> ?r \<and> B x = Some (sx, fx)"
    if "?B x = Some (sx, fx)" for x sx fx
    using that fresh(2) unfolding split_at_def by (auto split: if_splits)
  have sub: "territory b s \<subseteq> territory b (s + (t + 8))" "territory ?r t \<subseteq> territory b (s + (t + 8))" using j(1) by blast+
  have nb: "B (nxt b (s + (t + 8))) \<noteq> None" using db(9) j(3) nz by force
  show ?thesis
  proof (rule geometryI)
    fix x sx fx assume x: "?B x = Some (sx, fx)"
    from new [OF x] show "block_ok c x sx fx" using ok geometry_block_ok [OF g] by auto
    from new [OF x] show "territory x sx \<subseteq> span c" using sub pool [OF b] pool by blast
    have dom: "?B y \<noteq> None" if "B y \<noteq> None" for y using that by (auto simp: split_at_def)
    show "?B (nxt x sx) \<noteq> None" if "sx \<noteq> 0"
    proof -
      from new [OF x] consider "x = b" "sx = s" | "x = ?r" "sx = t" | "B x = Some (sx, fx)" by auto
      then show ?thesis
      proof cases
        case 1
        then show ?thesis by (simp add: split_at_def)
      next
        case 2
        then show ?thesis using dom nb j(4) by simp
      next
        case 3
        then show ?thesis using dom geometryD(9) [OF g 3 that] by auto
      qed
    qed
    fix y sy fy assume y: "?B y = Some (sy, fy)" and xy: "x \<noteq> y"
    have other: "territory b (s + (t + 8)) \<inter> territory z sz = {}" if "z \<noteq> b" "B z = Some (sz, fz)" for z sz fz
      using geometry_apart [OF g b that(2)] that(1) by blast
    from new [OF x] new [OF y] xy show "territory x sx \<inter> territory y sy = {}"
      using other sub j(2) geometry_apart [OF g] by (elim disjE conjE) (simp_all, blast+)
  qed
qed


lemma unat_nxt: "geometry c B \<Longrightarrow> B b = Some (sz, fr) \<Longrightarrow> unat (nxt b sz) = unat b + unat sz + 8"
  using geometryD(4) [of c B b sz fr] by (simp add: nxt_def unat_word_ariths)

lemma merged_size:
  assumes g: "geometry c B" and b: "B b = Some (s, fb)" "s \<noteq> 0" and r: "B (nxt b s) = Some (t, fr)"
  shows "unat s + unat t + 16 < 2 ^ 64" "unat (s + (t + 8)) = unat s + unat t + 8" "unat (s + (t + 8)) < 2 ^ 32"
    "unat (nxt b s) = unat b + unat s + 8"
proof -
  note db = geometryD [OF g b(1)] note dr = geometryD [OF g r]
  show u: "unat s + unat t + 16 < 2 ^ 64" using db(7) dr(7) by simp
  show e: "unat (s + (t + 8)) = unat s + unat t + 8" using territory_join(3) [OF u] .
  note pool = geometry_pool [OF g]
  have "territory b (s + (t + 8)) \<subseteq> region c (2 ^ 32)" using pool [OF b(1)] pool [OF r] territory_join(1) [OF u] span_region by blast
  then have "card (territory b (s + (t + 8))) \<le> card (region c (2 ^ 32))" by (rule card_mono [rotated]) simp
  then show "unat (s + (t + 8)) < 2 ^ 32" using u unfolding territory_def by (simp add: card_region e)
  show "unat (nxt b s) = unat b + unat s + 8" using unat_nxt [OF g b(1)] .
qed

lemma geometry_join:
  assumes g: "geometry c B" and b: "B b = Some (s, fb)" "s \<noteq> 0" and r: "B (nxt b s) = Some (t, fr)" "t \<noteq> 0"
  shows "geometry c (join_at B b s f t)"
proof -
  let ?r = "nxt b s" let ?B = "join_at B b s f t" let ?s = "s + (t + 8)"
  note pool = geometry_pool [OF g]
  note ms = merged_size [OF g b r(1)] note db = geometryD [OF g b(1)] note dr = geometryD [OF g r(1)]
  note j = territory_join(1,2) [OF ms(1), of b] territory_join(4) [OF ms(1), of b]
  have rb: "?r \<noteq> b" using nxt_neq [OF g b(1)] .
  have al: "aligned8 ?s" using db(3) dr(3) by (intro aligned_add) (simp_all add: aligned_def)
  have nz: "?s \<noteq> 0" using ms(2) by auto
  have ok: "block_ok c b ?s f"
    using db(1,2,6,8) dr(4,8) al ms nz b(2) j(1) unfolding block_ok_def by auto
  have new: "x = b \<and> sx = ?s \<or> x \<noteq> b \<and> x \<noteq> ?r \<and> B x = Some (sx, fx)" if "?B x = Some (sx, fx)" for x sx fx
    using that rb unfolding join_at_def by (auto split: if_splits)
  have sb: "?B b = Some (?s, f)" by (simp add: join_at_def)
  have apart: "territory b ?s \<inter> territory x sx = {}" if "x \<noteq> b" "x \<noteq> ?r" "B x = Some (sx, fx)" for x sx fx
    using geometry_apart [OF g b(1) that(3)] geometry_apart [OF g r(1) that(3)] that(1,2) j(1) by blast
  have dom: "?B y \<noteq> None" if "B y \<noteq> None" "y \<noteq> ?r" for y using that by (auto simp: join_at_def)
  show ?thesis
  proof (rule geometryI)
    fix x sx fx assume x: "?B x = Some (sx, fx)"
    show "block_ok c x sx fx" using new [OF x] ok x sb geometry_block_ok [OF g] by auto
    show "territory x sx \<subseteq> span c" using new [OF x] pool [OF b(1)] pool [OF r(1)] pool j(1) by blast
    show "?B (nxt x sx) \<noteq> None" if "sx \<noteq> 0"
    proof (cases "x = b")
      case True
      have "B (nxt ?r t) \<noteq> None" using dr(9) [OF r(2)] by auto
      then show ?thesis using True new [OF x] dom nxt_neq [OF g r(1)] j(3) by simp
    next
      case False
      then have x': "B x = Some (sx, fx)" using new [OF x] by blast
      have "nxt x sx \<noteq> ?r" using prev_unique [OF g x' b(1) that b(2)] False by blast
      then show ?thesis using dom geometryD(9) [OF g x' that] by auto
    qed
    fix y sy fy assume y: "?B y = Some (sy, fy)" and xy: "x \<noteq> y"
    from new [OF x] new [OF y] xy show "territory x sx \<inter> territory y sy = {}"
      using apart geometry_apart [OF g] by (elim disjE conjE) (simp_all, blast+)
  qed
qed

lemma pfree_join:
  assumes g: "geometry c B" and b: "B b = Some (s, True)" and r: "B (nxt b s) = Some (t, True)" and x: "x \<noteq> nxt b s"
  shows "pfree (join_at B b s True t) x = pfree B x"
proof -
  have nz: "s \<noteq> 0" "t \<noteq> 0" using geometryD(5) [OF g b] geometryD(5) [OF g r] by auto
  have e: "nxt (nxt b s) t = nxt b (s + (t + 8))" using territory_join(4) [OF merged_size(1) [OF g b nz(1) r]] .
  have rb: "nxt b s \<noteq> b" using nxt_neq [OF g b] .
  show ?thesis
  proof
    assume "pfree (join_at B b s True t) x"
    then obtain p sp where p: "join_at B b s True t p = Some (sp, True)" "nxt p sp = x" by (auto simp: pfree_def)
    show "pfree B x"
    proof (cases "p = b")
      case True
      with p e r show ?thesis by (auto simp: pfree_def join_at_def)
    next
      case False
      with p have "B p = Some (sp, True)" by (auto simp: join_at_def split: if_splits)
      with p show ?thesis by (auto simp: pfree_def)
    qed
  next
    assume "pfree B x"
    then obtain p sp where p: "B p = Some (sp, True)" "nxt p sp = x" by (auto simp: pfree_def)
    show "pfree (join_at B b s True t) x"
    proof (cases "p = nxt b s")
      case True
      with p r e have "nxt b (s + (t + 8)) = x" by simp
      moreover have "join_at B b s True t b = Some (s + (t + 8), True)" by (simp add: join_at_def)
      ultimately show ?thesis unfolding pfree_def by blast
    next
      case False
      have "p \<noteq> b" using p b x by auto
      with False p show ?thesis by (auto simp: pfree_def join_at_def)
    qed
  qed
qed

lemma pfree_split:
  assumes g: "geometry c B" and b: "B b = Some (s + (t + 8), fr)" and u: "unat s + unat t + 16 < 2 ^ 64"
    and g': "geometry c (split_at B b s fr t)" and nz: "s \<noteq> 0" "t \<noteq> 0"
  shows "pfree (split_at B b s fr t) x =
    (if x = nxt b s then fr else if x = nxt b (s + (t + 8)) then True else pfree B x)"
proof -
  let ?B = "split_at B b s fr t"
  have rb: "nxt b s \<noteq> b" using split_fresh(2) [OF g b u] .
  have b': "?B b = Some (s, fr)" and r': "?B (nxt b s) = Some (t, True)" using rb by (simp_all add: split_at_def)
  have e: "nxt (nxt b s) t = nxt b (s + (t + 8))" using territory_join(4) [OF u] .
  have 1: "pfree ?B (nxt b s) = fr" using pfree_nxt [OF g' b' nz(1)] .
  have 2: "pfree ?B (nxt b (s + (t + 8)))" using pfree_nxt [OF g' r' nz(2)] e by simp
  have "?B p = Some (sp, True) \<and> nxt p sp = x \<longleftrightarrow> B p = Some (sp, True) \<and> nxt p sp = x"
    if "x \<noteq> nxt b s" "x \<noteq> nxt b (s + (t + 8))" for p sp
  proof (cases "p = b \<or> p = nxt b s")
    case True
    then show ?thesis using that b b' r' e split_fresh(1) [OF g b u] by auto
  next
    case False
    then show ?thesis by (simp add: split_at_def)
  qed
  with 1 2 show ?thesis by (auto simp: pfree_def)
qed

section \<open>Merging\<close>

lemma absorb_ok:
  assumes hp: "heap c m B D" and b: "B b = Some (s, True)" "b \<in> D" and r: "B (nxt b s) = Some (t, True)" "nxt b s \<in> D"
  obtains m' where "block_absorb b (nxt b s) m = Some (b, m')" "heap c m' (join_at B b s True t) (D - {nxt b s})"
    "keeps (join_at B b s True t) m m'"
proof -
  obtain L where g: "geometry c B" and h: "headers m B" and co: "coalesced B D" and L: "lists_ok c m L" and li: "listed B D L"
    using hp by (auto simp: heap_def)
  let ?B = "join_at B b s True t" let ?s = "s + (t + 8)"
  note db = geometryD [OF g b(1)] note dr = geometryD [OF g r(1)] note hb = heap_block [OF hp b(1)] note hr = heap_block [OF hp r(1)]
  have nz: "s \<noteq> 0" "t \<noteq> 0" using db(5) dr(5) by auto
  note ms = merged_size [OF g b(1) nz(1) r(1)]
  have g': "geometry c ?B" using geometry_join [OF g b(1) nz(1) r(1) nz(2)] .
  have b': "?B b = Some (?s, True)" by (simp add: join_at_def)
  have nz': "?s \<noteq> 0" using ms(2) by auto
  have e: "nxt b ?s = nxt (nxt b s) t" using territory_join(4) [OF ms(1)] by simp
  have al: "aligned8 (t + 8)" "aligned8 ?s" using db(3) dr(3) by (intro aligned_add; simp add: aligned_def)+
  define m1 where "m1 = set_size_field b (szf ?s True (pfree B b)) m"
  define m2 where "m2 = set_prev_phys_block (nxt b ?s) b m1"
  have m1: "set_size_field b (size_field m b + (block_size m (nxt b s) + block_header_overhead)) m = m1"
    unfolding m1_def hb(6) hr(1) by (simp add: szf_absorb [OF db(3) al(1)] block_header_overhead_def)
  have "size_field m1 b = szf ?s True (pfree B b)" unfolding m1_def by simp
  then have "block_size m1 b = ?s" using status_of_szf(1) [OF _ al(2)] by blast
  from next_block [OF this nz'] have run: "block_absorb b (nxt b s) m = Some (b, m2)"
    unfolding block_absorb_def hb(4) m1 block_link_next_def m2_def using nz(1) by simp
  have N: "nodes L \<subseteq> frees B" using listed_nodes [OF g li] by blast
  have "lists_ok c m1 L" unfolding m1_def by (rule header_write_lists(1) [OF g L N b(1)])
  then have "lists_ok c m2 L" unfolding m2_def e by (rule header_write_lists(2) [OF g _ N r(1) nz(2)])
  moreover have "headers m2 ?B" unfolding headers_def
  proof (intro allI impI)
    fix x sx fx assume x: "?B x = Some (sx, fx)"
    have xr: "x \<noteq> nxt b s" using x nxt_neq [OF g b(1)] by (auto simp: join_at_def)
    have sf: "size_field m2 x = (if x = b then szf ?s True (pfree B b) else size_field m x)"
      unfolding m2_def m1_def header_views(3) [OF g' b' x nz'] header_views(1) [OF g' b' x] ..
    have pp: "prev_phys_block m2 (nxt x sx) = (if x = b then b else prev_phys_block m (nxt x sx))" if "sx \<noteq> 0"
      unfolding m2_def m1_def header_views(4) [OF g' b' x nz' that] header_views(2) [OF g' b' x that] ..
    show "size_field m2 x = szf sx fx (pfree ?B x) \<and> (fx \<longrightarrow> prev_phys_block m2 (nxt x sx) = x)"
    proof (cases "x = b")
      case True
      then show ?thesis using sf pp x b' nz' pfree_join [OF g b(1) r(1) xr] by auto
    next
      case False
      with x xr have x': "B x = Some (sx, fx)" by (auto simp: join_at_def split: if_splits)
      moreover have "fx \<Longrightarrow> sx \<noteq> 0" using geometryD(5) [OF g x'] by blast
      ultimately show ?thesis using sf pp False pfree_join [OF g b(1) r(1) xr] heap_block(5,6) [OF hp x'] by metis
    qed
  qed
  moreover have fr: "frees ?B = frees B - {nxt b s}"
    using b(1) nxt_neq [OF g b(1)] unfolding frees_def join_at_def by (auto split: if_splits)
  have "listed ?B (D - {nxt b s}) L"
  proof (rule listed_cong [OF li])
    show "frees ?B - (D - {nxt b s}) = frees B - D" unfolding fr using r(2) by blast
    fix x assume "x \<in> frees B - D"
    then have "x \<noteq> b" "x \<noteq> nxt b s" using b(2) r(2) by auto
    then show "class_of ?B x = class_of B x" by (simp add: class_of_def join_at_def)
  qed
  moreover have "coalesced ?B (D - {nxt b s})" unfolding coalesced_def
  proof (intro allI impI)
    fix x sx assume x: "?B x = Some (sx, True)" "x \<notin> D - {nxt b s}" "nxt x sx \<notin> D - {nxt b s}"
    have "x \<noteq> b" "x \<noteq> nxt b s" using x(1,2) b(2) nxt_neq [OF g b(1)] by (auto simp: join_at_def)
    with x have x': "B x = Some (sx, True)" "x \<notin> D" by (auto simp: join_at_def split: if_splits)
    have "sx \<noteq> 0" using geometryD(5) [OF g x'(1)] by auto
    then have "nxt x sx \<noteq> nxt b s" using prev_unique [OF g x'(1) b(1)] nz(1) \<open>x \<noteq> b\<close> by blast
    then have "nxt x sx \<notin> D" using x(3) by blast
    then show "nxt x sx \<notin> frees ?B" using co x' unfolding coalesced_def fr by blast
  qed
  moreover have "keeps ?B m m2"
    unfolding m2_def m1_def using keeps_trans keeps_size_write(1) [OF g' b'] keeps_size_write(2) [OF g' b'] by blast
  ultimately show thesis using that [of m2] run g' unfolding heap_def by blast
qed

lemma frees_I: "B b = Some (sz, True) \<Longrightarrow> b \<in> frees B"
  by (auto simp: frees_def)

lemma block_remove_ok:
  assumes hp: "heap c m B D" and b: "B b = Some (sz, True)" "b \<notin> D"
  obtains m' where "block_remove c b m = Some m'" "heap c m' B (insert b D)" "keeps B m m'"
proof -
  obtain i j where ij: "mapping_insert sz = (i, j)" by fastforce
  then have "class_of B b = (i, j)" using b by (simp add: class_of_def)
  then obtain m' where "remove_free_block c b i j m = Some m'" "heap c m' B (insert b D)" "keeps B m m'"
    using remove_ok [OF hp frees_I [of B b sz, OF b(1)] b(2)] by blast
  with that show thesis unfolding block_remove_def heap_block(1) [OF hp b(1)] ij by simp
qed

definition used :: "blockmap \<Rightarrow> (u64 \<times> u64) set" where
  "used B = {(b, sz). B b = Some (sz, False)}"

lemma keeps_used: "used B' \<subseteq> used B \<Longrightarrow> keeps B m m' \<Longrightarrow> keeps B' m m'"
  unfolding keeps_def used_def by blast

lemma used_join: "geometry c B \<Longrightarrow> B b = Some (s, True) \<Longrightarrow> B (nxt b s) = Some (t, True) \<Longrightarrow> used (join_at B b s True t) = used B"
  using nxt_neq [of c B b s True] unfolding used_def join_at_def by (auto split: if_splits)

text \<open>A released block takes in a free neighbour on either side.\<close>

lemma merge_prev_ok:
  assumes hp: "heap c m B {b}" and b: "B b = Some (sz, True)"
  obtains p B' sp m' where "block_merge_prev c b m = Some (p, m')" "heap c m' B' {p}" "B' p = Some (sp, True)"
    "\<not> pfree B' p" "keeps B m m'" "used B' = used B"
proof (cases "pfree B b")
  case False
  then have "block_merge_prev c b m = Some (b, m)" unfolding block_merge_prev_def heap_block(3) [OF hp b] by simp
  with False that hp b show thesis by simp
next
  case True
  have g: "geometry c B" using heap_geometry [OF hp] .
  obtain p sp where p: "B p = Some (sp, True)" "nxt p sp = b" using True by (auto simp: pfree_def)
  have pb: "p \<noteq> b" using nxt_neq [OF g p(1)] p(2) by auto
  have nz: "sp \<noteq> 0" using geometryD(5) [OF g p(1)] by auto
  obtain m1 where m1: "block_remove c p m = Some m1" "heap c m1 B {p, b}" "keeps B m m1"
    using block_remove_ok [OF hp p(1)] pb by auto
  have b': "B (nxt p sp) = Some (sz, True)" using b p(2) by simp
  let ?B = "join_at B p sp True sz"
  obtain m2 where m2: "block_absorb p b m1 = Some (p, m2)" "heap c m2 ?B ({p, b} - {b})" "keeps ?B m1 m2"
    using absorb_ok [OF m1(2) p(1) _ b'] p(2) by auto
  have "block_merge_prev c b m = Some (p, m2)"
    unfolding block_merge_prev_def block_prev_def heap_block(3) [OF hp b]
    using True heap_block(5) [OF hp p(1)] p(2) geometryD(1) [OF g p(1)] heap_block(2) [OF hp p(1)] m1(1) m2(1) by simp
  moreover have "{p, b} - {b} = {p}" using pb by auto
  moreover have u: "used ?B = used B" using used_join [OF g p(1) b'] .
  moreover have "?B p = Some (sp + (sz + 8), True)" by (simp add: join_at_def)
  moreover have "\<not> pfree ?B p"
  proof -
    have "\<not> pfree B p"
    proof
      assume "pfree B p"
      then obtain q sq where q: "B q = Some (sq, True)" "nxt q sq = p" by (auto simp: pfree_def)
      have "coalesced B {b}" using hp by (simp add: heap_def)
      moreover have "q \<noteq> b" using unat_nxt [OF g q(1)] unat_nxt [OF g p(1)] q(2) p(2) by auto
      ultimately show False using q pb frees_I [of B p sp, OF p(1)] unfolding coalesced_def by auto
    qed
    then show ?thesis using pfree_join [OF g p(1) b', of p] p(2) pb by simp
  qed
  moreover have "keeps B m m2" using keeps_trans [OF m1(3)] keeps_used [OF _ m2(3)] u by blast
  ultimately show thesis using that m2(2) by metis
qed

lemma frees_join: "geometry c B \<Longrightarrow> B b = Some (s, True) \<Longrightarrow> frees (join_at B b s True t) = frees B - {nxt b s}"
  using nxt_neq [of c B b s True] unfolding frees_def join_at_def by (auto split: if_splits)

lemma merge_next_ok:
  assumes hp: "heap c m B {b}" and b: "B b = Some (sz, True)" and np: "\<not> pfree B b"
  obtains B' sz' m' where "block_merge_next c b m = Some (b, m')" "heap c m' B' {b}" "B' b = Some (sz', True)"
    "\<not> pfree B' b" "nxt b sz' \<notin> frees B'" "keeps B m m'" "used B' = used B"
proof -
  have g: "geometry c B" using heap_geometry [OF hp] .
  note hb = heap_block [OF hp b]
  have nz: "sz \<noteq> 0" using geometryD(5) [OF g b] by auto
  obtain t fr where r: "B (nxt b sz) = Some (t, fr)" using geometryD(9) [OF g b nz] by blast
  note hr = heap_block [OF hp r]
  have ne: "nxt b sz \<noteq> b" using nxt_neq [OF g b] .
  have step: "block_merge_next c b m = (if fr then do { m1 \<leftarrow> block_remove c (nxt b sz) m; block_absorb b (nxt b sz) m1 } else Some (b, m))"
    unfolding block_merge_next_def next_block [OF hb(1) nz] using hb(4) hr(2) nz geometryD(1) [OF g r] by simp
  show thesis
  proof (cases fr)
    case False
    then have "nxt b sz \<notin> frees B" using r by (auto simp: frees_def)
    then show thesis using that step False hp b np by simp
  next
    case True
    with r have r': "B (nxt b sz) = Some (t, True)" by simp
    let ?B = "join_at B b sz True t"
    obtain m1 where m1: "block_remove c (nxt b sz) m = Some m1" "heap c m1 B {nxt b sz, b}" "keeps B m m1"
      using block_remove_ok [OF hp r'] ne by auto
    obtain m2 where m2: "block_absorb b (nxt b sz) m1 = Some (b, m2)" "heap c m2 ?B ({nxt b sz, b} - {nxt b sz})" "keeps ?B m1 m2"
      using absorb_ok [OF m1(2) b _ r'] by auto
    have e: "nxt b (sz + (t + 8)) = nxt (nxt b sz) t" using territory_join(4) [OF merged_size(1) [OF g b nz r]] by simp
    have "coalesced B {b}" using hp by (simp add: heap_def)
    moreover have "nxt (nxt b sz) t \<noteq> b" using unat_nxt [OF g b] unat_nxt [OF g r] by auto
    ultimately have "nxt b (sz + (t + 8)) \<notin> frees ?B"
      using r' ne unfolding frees_join [OF g b] e coalesced_def by blast
    moreover have "?B b = Some (sz + (t + 8), True)" by (simp add: join_at_def)
    moreover have "{nxt b sz, b} - {nxt b sz} = {b}" using ne by auto
    moreover have "\<not> pfree ?B b" using pfree_join [OF g b r', of b] ne np by simp
    moreover have u: "used ?B = used B" using used_join [OF g b r'] .
    moreover have "keeps B m m2" using keeps_trans [OF m1(3)] keeps_used [OF _ m2(3)] u by blast
    ultimately show thesis using that [of m2 ?B] m1(1) m2(1,2) step True by simp
  qed
qed

lemma insert_last_ok:
  assumes hp: "heap c m B {b}" and b: "B b = Some (sz, True)" and nb: "\<not> pfree B b" "nxt b sz \<notin> frees B"
  obtains m' where "block_insert c b m = Some m'" "heap c m' B {}" "keeps B m m'"
proof -
  have "coalesced B {b}" using hp by (simp add: heap_def)
  then have "nxt x sx \<notin> frees B" if "B x = Some (sx, True)" for x sx
    using nb b that unfolding coalesced_def pfree_def by (cases "x = b") auto
  then have "coalesced B ({b} - {b})" by (simp add: coalesced_def)
  with insert_ok [OF hp frees_I [of B b sz, OF b]] that show thesis by auto
qed

section \<open>Release\<close>

lemma used_upd: "used (B(b \<mapsto> (sz, True))) = used B - {b} \<times> UNIV"
  by (auto simp: used_def split: if_splits)

lemma payload_ptr: "geometry c B \<Longrightarrow> B b = Some (sz, fr) \<Longrightarrow> block_to_ptr b \<noteq> 0"
proof
  assume g: "geometry c B" "B b = Some (sz, fr)" and "block_to_ptr b = 0"
  then have "unat (b + 16) = 0" by (simp add: block_to_ptr_def block_start_offset_def)
  with geometryD(4) [OF g] show False by (simp add: unat_word_ariths)
qed

lemma free_ok:
  assumes hp: "heap c m B {}" and b: "B b = Some (sz, False)" "sz \<noteq> 0"
  obtains B' m' where "tlsf_free c (block_to_ptr b) m = Some m'" "heap c m' B' {}" "used B' = used B - {(b, sz)}" "keeps B' m m'"
proof -
  have g: "geometry c B" using heap_geometry [OF hp] .
  let ?B = "B(b \<mapsto> (sz, True))"
  obtain m1 where m1: "block_mark_as_free b m = Some m1" "heap c m1 ?B {b}" "keeps ?B m m1"
    using mark_free_ok [OF hp b] by auto
  have b1: "?B b = Some (sz, True)" by simp
  obtain p B1 sp m2 where m2: "block_merge_prev c b m1 = Some (p, m2)" "heap c m2 B1 {p}" "B1 p = Some (sp, True)"
    "\<not> pfree B1 p" "keeps ?B m1 m2" "used B1 = used ?B" by (rule merge_prev_ok [OF m1(2) b1])
  obtain B2 s2 m3 where m3: "block_merge_next c p m2 = Some (p, m3)" "heap c m3 B2 {p}" "B2 p = Some (s2, True)"
    "\<not> pfree B2 p" "nxt p s2 \<notin> frees B2" "keeps B1 m2 m3" "used B2 = used B1" by (rule merge_next_ok [OF m2(2,3,4)])
  obtain m4 where m4: "block_insert c p m3 = Some m4" "heap c m4 B2 {}" "keeps B2 m3 m4" by (rule insert_last_ok [OF m3(2,3,4,5)])
  have "block_from_ptr (block_to_ptr b) = b" by (simp add: block_from_ptr_def block_to_ptr_def)
  then have "tlsf_free c (block_to_ptr b) m = Some m4"
    unfolding tlsf_free_def using payload_ptr [OF g b(1)] heap_block(2) [OF hp b(1)] m1(1) m2(1) m3(1) m4(1) by simp
  moreover have u: "used B2 = used ?B" using m2(6) m3(7) by simp
  moreover have "used ?B = used B - {(b, sz)}" using b unfolding used_upd by (auto simp: used_def)
  moreover have "keeps B2 m m4"
    using keeps_used [OF _ m1(3), of B2] keeps_used [OF _ m2(5), of B2] keeps_used [OF _ m3(6), of B2] m4(3) u m3(7)
    by (metis keeps_trans order_refl)
  ultimately show thesis using that m4(2) by metis
qed

section \<open>Splitting\<close>

text \<open>
  The block map after a split: the remainder is the one new free block, and since it is exempt, like \<open>b\<close> when that is free, the lists
  and the absence of free neighbours carry over.
\<close>
lemma split_map:
  assumes g: "geometry c B" and b: "B b = Some (s + (t + 8), fr)" and u: "unat s + unat t + 16 < 2 ^ 64" and D: "fr \<longrightarrow> b \<in> D"
  shows "frees (split_at B b s fr t) = insert (nxt b s) (frees B)"
    "listed B D L \<Longrightarrow> listed (split_at B b s fr t) (insert (nxt b s) D) L"
    "coalesced B D \<Longrightarrow> coalesced (split_at B b s fr t) (insert (nxt b s) D)"
proof -
  let ?B = "split_at B b s fr t" let ?r = "nxt b s"
  note fresh = split_fresh [OF g b u]
  have b': "?B b = Some (s, fr)" and r': "?B ?r = Some (t, True)" using fresh(2) by (simp_all add: split_at_def)
  show fe: "frees ?B = insert ?r (frees B)" using b b' r' unfolding frees_def split_at_def by (auto split: if_splits)
  show "listed ?B (insert ?r D) L" if li: "listed B D L"
  proof (rule listed_cong [OF li])
    have "?r \<notin> frees B" using fresh(1) by (auto simp: frees_def)
    then show "frees ?B - insert ?r D = frees B - D" unfolding fe by blast
    fix x assume x: "x \<in> frees B - D"
    then have "x \<noteq> b" "x \<noteq> ?r" using D b fresh(1) by (auto simp: frees_def)
    then show "class_of ?B x = class_of B x" by (simp add: class_of_def split_at_def)
  qed
  show "coalesced ?B (insert ?r D)" if co: "coalesced B D" unfolding coalesced_def fe
  proof (intro allI impI)
    fix x sx assume x: "?B x = Some (sx, True)" "x \<notin> insert ?r D" "nxt x sx \<notin> insert ?r D"
    then have "x \<noteq> b" using b' D by auto
    then have "B x = Some (sx, True)" using x(1,2) by (auto simp: split_at_def split: if_splits)
    with co x(2,3) show "nxt x sx \<notin> insert ?r (frees B)" unfolding coalesced_def by blast
  qed
qed

text \<open>
  The writes of a split and of the call that follows it, in order: the size of the remainder, the size of \<open>b\<close>, the back link and
  the status of the block behind, the status of the remainder; then, when \<open>b\<close> is free, the back link of the remainder, and its status.
\<close>
definition split_writes :: "u64 \<Rightarrow> u64 \<Rightarrow> u64 \<Rightarrow> bool \<Rightarrow> bool \<Rightarrow> u64 \<Rightarrow> bool \<Rightarrow> bool \<Rightarrow> bool \<Rightarrow> mem \<Rightarrow> mem" where
  "split_writes b s t fr pf sn fn g1 g2 m =
    set_size_field (nxt b s) (szf t True g2) (set_size_field (nxt b (s + (t + 8))) (szf sn fn True)
      (set_prev_phys_block (nxt b (s + (t + 8))) (nxt b s) (set_size_field b (szf s fr pf) (set_size_field (nxt b s) (szf t g1 g2) m))))"

definition split_marked :: "u64 \<Rightarrow> u64 \<Rightarrow> u64 \<Rightarrow> bool \<Rightarrow> mem \<Rightarrow> mem" where
  "split_marked b s t fr m = set_size_field (nxt b s) (szf t True fr) (if fr then set_prev_phys_block (nxt b s) b m else m)"

lemma split_headers:
  fixes g1 g2 :: bool
  assumes hp: "heap c m B D" and b: "B b = Some (s + (t + 8), fr)" and n: "B (nxt b (s + (t + 8))) = Some (sn, fn)"
    and g': "geometry c (split_at B b s fr t)" and nz: "s \<noteq> 0" "t \<noteq> 0" and u: "unat s + unat t + 16 < 2 ^ 64"
  defines "m3 \<equiv> split_writes b s t fr (pfree B b) sn fn g1 g2 m"
  shows "headers (split_marked b s t fr m3) (split_at B b s fr t)" "size_field m3 b = szf s fr (pfree B b)"
    "keeps (split_at B b s fr t) m (split_marked b s t fr m3)"
    "lists_ok c m L \<Longrightarrow> nodes L \<subseteq> frees (split_at B b s fr t) \<Longrightarrow> lists_ok c (split_marked b s t fr m3) L"
proof -
  let ?B = "split_at B b s fr t" let ?r = "nxt b s" let ?n = "nxt b (s + (t + 8))"
  have g: "geometry c B" using hp by (auto simp: heap_def)
  note fresh = split_fresh [OF g b u] and m3 = m3_def [unfolded split_writes_def] and e = territory_join(4) [OF u]
  have b': "?B b = Some (s, fr)" and r': "?B ?r = Some (t, True)" using fresh(2) by (simp_all add: split_at_def)
  have ne: "?n \<noteq> b" "?n \<noteq> ?r" using nxt_neq [OF g b] n fresh(1) by auto
  have n': "?B ?n = Some (sn, fn)" using n ne by (simp add: split_at_def)
  show "size_field m3 b = szf s fr (pfree B b)"
    unfolding m3 header_views(1) [OF g' r' b'] header_views(1) [OF g' n' b']
    using header_views(3) [OF g' r' b' nz(2)] header_views(1) [OF g' b' b'] fresh(2) ne e by simp
  show "headers (split_marked b s t fr m3) ?B" unfolding headers_def
  proof (intro allI impI)
    fix x sx fx assume x: "?B x = Some (sx, fx)"
    let ?m = "split_marked b s t fr m3"
    note vb = header_views [OF g' b' x] note vr = header_views [OF g' r' x] note vn = header_views [OF g' n' x]
    have sf: "size_field ?m x = (if x = ?r then szf t True fr else if x = ?n then szf sn fn True else
        if x = b then szf s fr (pfree B b) else size_field m x)"
      unfolding split_marked_def m3
      by (cases fr; simp only: if_True if_False vb(1) vb(3) [OF nz(1)] vr(1) vr(3) [OF nz(2), unfolded e] vn(1); simp)
    have pp: "prev_phys_block ?m (nxt x sx) = (if x = ?r then ?r else if x = b \<and> fr then b else prev_phys_block m (nxt x sx))"
      if sx: "sx \<noteq> 0"
      unfolding split_marked_def m3 using fresh(2)
      by (cases fr; simp only: if_True if_False vb(2) [OF sx] vb(4) [OF nz(1) sx] vr(2) [OF sx] vr(4) [OF nz(2) sx, unfolded e] vn(2) [OF sx]; simp)
    have "fx \<Longrightarrow> sx \<noteq> 0" using geometryD(5) [OF g' x] by blast
    moreover have "x = b \<or> x = ?r \<or> x \<noteq> b \<and> x \<noteq> ?r \<and> B x = Some (sx, fx)" using x by (auto simp: split_at_def split: if_splits)
    ultimately show "size_field ?m x = szf sx fx (pfree ?B x) \<and> (fx \<longrightarrow> prev_phys_block ?m (nxt x sx) = x)"
      using sf pp x b' r' n n' ne fresh(2) heap_block(5,6) [OF hp, of x sx fx]
      unfolding pfree_split [OF g b u g' nz(1,2), of x] by (elim disjE conjE) (cases "x = ?n"; auto)+
  qed
  have k: "keeps ?B M (set_size_field ?r v M)" "keeps ?B M (set_size_field b v M)" "keeps ?B M (set_size_field ?n v M)"
    "keeps ?B M (set_prev_phys_block ?n v M)" "fr \<Longrightarrow> keeps ?B M (set_prev_phys_block ?r v M)" for v M
    using keeps_size_write [OF g' r'] keeps_size_write [OF g' b'] keeps_size_write [OF g' n'] e by auto
  have "keeps ?B m m3" unfolding m3 by (rule keeps_trans [OF keeps_trans [OF keeps_trans [OF keeps_trans]]]; rule k)
  moreover have "keeps ?B m3 (split_marked b s t fr m3)"
    unfolding split_marked_def using k(1) keeps_trans [OF k(5) k(1)] by (cases fr) auto
  ultimately show "keeps ?B m (split_marked b s t fr m3)" by (rule keeps_trans)
  show "lists_ok c (split_marked b s t fr m3) L" if L: "lists_ok c m L" and N: "nodes L \<subseteq> frees ?B"
  proof -
    have w: "lists_ok c (set_size_field ?r v M) L" "lists_ok c (set_size_field b v M) L" "lists_ok c (set_size_field ?n v M) L"
      "lists_ok c (set_prev_phys_block ?n v M) L" "lists_ok c (set_prev_phys_block ?r v M) L" if "lists_ok c M L" for v M
      using header_write_lists(1) [OF g' that N] header_write_lists(2) [OF g' that N r' nz(2)] header_write_lists(2) [OF g' that N b' nz(1)]
        r' b' n' e by metis+
    show ?thesis unfolding split_marked_def m3 using L by (simp add: w)
  qed
qed

lemma split_run:
  assumes hp: "heap c m B D" and b: "B b = Some (s + (t + 8), fr)" and n: "B (nxt b (s + (t + 8))) = Some (sn, fn)"
    and g': "geometry c (split_at B b s fr t)" and s: "aligned8 s" "s \<noteq> 0" and t: "aligned8 t" "24 \<le> unat t" and u: "unat s + unat t + 16 < 2 ^ 64"
  obtains g1 g2 where "block_split b s m = Some (nxt b s, split_writes b s t fr (pfree B b) sn fn g1 g2 m)"
proof -
  let ?B = "split_at B b s fr t" let ?r = "nxt b s" let ?n = "nxt b (s + (t + 8))"
  have g: "geometry c B" using hp by (auto simp: heap_def)
  have nz: "t \<noteq> 0" using t by auto
  note fresh = split_fresh [OF g b u] and e = territory_join(4) [OF u] and hb = heap_block [OF hp b] and hn = heap_block [OF hp n]
  have b': "?B b = Some (s, fr)" and r': "?B ?r = Some (t, True)" using fresh(2) by (simp_all add: split_at_def)
  have ne: "?n \<noteq> b" "?n \<noteq> ?r" using nxt_neq [OF g b] n fresh(1) by auto
  have n': "?B ?n = Some (sn, fn)" using n ne by (simp add: split_at_def)
  obtain g1 g2 where m1: "block_set_size ?r t m = set_size_field ?r (szf t g1 g2) m" by (rule set_size_garbage [OF t(1)])
  define m1 where "m1 = set_size_field ?r (szf t g1 g2) m"
  define m2 where "m2 = set_size_field b (szf s fr (pfree B b)) m1"
  define m2a where "m2a = set_prev_phys_block ?n ?r m2"
  define m2b where "m2b = set_size_field ?n (szf sn fn True) m2a"
  have s1: "size_field m1 b = szf (s + (t + 8)) fr (pfree B b)" "size_field m1 ?r = szf t g1 g2"
    unfolding m1_def header_views(1) [OF g' r' b'] using hb(6) fresh(2) by auto
  have s2: "size_field m2 ?r = szf t g1 g2" unfolding m2_def header_views(1) [OF g' b' r'] using s1(2) fresh(2) by simp
  have s2a: "size_field m2a ?n = szf sn fn (pfree B ?n)"
    unfolding m2a_def m2_def m1_def e [symmetric] header_views(3) [OF g' r' n' [folded e] nz] header_views(1) [OF g' b' n' [folded e]]
      header_views(1) [OF g' r' n' [folded e]] using ne hn(6) e by simp
  have s2b: "size_field m2b ?r = szf t g1 g2"
    unfolding m2b_def header_views(1) [OF g' n' r'] m2a_def using header_views(3) [OF g' r' r' nz] s2 ne e by simp
  have free: "block_mark_as_free ?r m2 = Some (set_size_field ?r (szf t True g2) m2b)"
    unfolding block_mark_as_free_def block_link_next_def next_block [OF status_of_szf(1) [OF s2 t(1)] nz] e
    by (simp add: m2a_def [symmetric] status_setters(3) [OF s2a geometryD(3) [OF g n]] m2b_def [symmetric] status_setters(1) [OF s2b t(1)])
  have rem: "offset_to_block (block_to_ptr b) (s - block_header_overhead) = ?r" "s + (t + 8) - (s + block_header_overhead) = t"
    by (simp_all add: offset_to_block_def block_to_ptr_def tlsf_constants nxt_def)
  have t24: "24 \<le> t" using t(2) by (simp add: word_le_nat_alt)
  have "block_split b s m = Some (?r, set_size_field ?r (szf t True g2) m2b)"
    unfolding block_split_def Let_def hb(1) rem align_ptr_aligned [OF geometryD(2) [OF g' r']] m1 m1_def [symmetric]
      status_of_szf(1) [OF s1(2) t(1)] status_setters(5) [OF s1(1) geometryD(3) [OF g b] s(1)] m2_def [symmetric] free
    using t24 by (simp add: tlsf_constants algebra_simps)
  then show thesis using that [of g1 g2] unfolding split_writes_def m2b_def m2a_def m2_def m1_def by simp
qed

lemma split_ok:
  assumes hp: "heap c m B D" and b: "B b = Some (s + (t + 8), fr)" and D: "fr \<longrightarrow> b \<in> D"
    and s: "aligned8 s" "24 \<le> unat s" and t: "aligned8 t" "24 \<le> unat t" and u: "unat s + unat t + 16 < 2 ^ 64"
  obtains m3 g where "block_split b s m = Some (nxt b s, m3)" "size_field m3 (nxt b s) = szf t True g" "block_size m3 b = s"
    "heap c (set_size_field (nxt b s) (szf t True fr) (if fr then set_prev_phys_block (nxt b s) b m3 else m3))
       (split_at B b s fr t) (insert (nxt b s) D)"
    "keeps (split_at B b s fr t) m (set_size_field (nxt b s) (szf t True fr) (if fr then set_prev_phys_block (nxt b s) b m3 else m3))"
proof -
  obtain L where g: "geometry c B" and co: "coalesced B D" and L: "lists_ok c m L" and li: "listed B D L"
    using hp by (auto simp: heap_def)
  have nz: "s \<noteq> 0" "t \<noteq> 0" "s + (t + 8) \<noteq> 0" using s t territory_join(3) [OF u] by auto
  have g': "geometry c (split_at B b s fr t)" using geometry_split [OF g b s t u] .
  obtain sn fn where n: "B (nxt b (s + (t + 8))) = Some (sn, fn)" using geometryD(9) [OF g b nz(3)] by blast
  obtain g1 g2 where run: "block_split b s m = Some (nxt b s, split_writes b s t fr (pfree B b) sn fn g1 g2 m)"
    by (rule split_run [OF hp b n g' s(1) nz(1) t u])
  note hd = split_headers [OF hp b n g' nz(1,2) u, where ?g1.0 = g1 and ?g2.0 = g2] and map = split_map [OF g b u D]
  have "nodes L \<subseteq> frees (split_at B b s fr t)" using listed_nodes [OF g li] map(1) by blast
  then have "heap c (split_marked b s t fr (split_writes b s t fr (pfree B b) sn fn g1 g2 m)) (split_at B b s fr t) (insert (nxt b s) D)"
    unfolding heap_def using g' hd(1) hd(4) [OF L] map(2) [OF li] map(3) [OF co] by blast
  moreover have "size_field (split_writes b s t fr (pfree B b) sn fn g1 g2 m) (nxt b s) = szf t True g2" by (simp add: split_writes_def)
  ultimately show thesis using that [OF run _ status_of_szf(1) [OF hd(2) s(1)]] hd(3) unfolding split_marked_def by blast
qed

end
