(* ===== verification/TlsfAlloc.thy ===== *)
theory TlsfAlloc
  imports TlsfMerge
begin

text \<open>
  Allocation (\<open>mm/heapalloc/tlsf.c\<close>: \<open>block_locate_free\<close>, \<open>block_trim_free\<close>, \<open>tlsf_malloc\<close>), what clients may do to the bytes they hold,
  and the pool \<open>tlsf_create_with_pool\<close> makes.
\<close>

section \<open>Requests\<close>

definition proper :: "u64 \<Rightarrow> bool" where
  "proper s \<longleftrightarrow> aligned8 s \<and> 24 \<le> unat s \<and> unat s < 2 ^ 32"

lemma adjust_cases:
  assumes "unat sz + 7 < 2 ^ 64"
  obtains (zero) "adjust_request_size sz ALIGN_SIZE = Some 0" "sz = 0 \<or> 2 ^ 32 \<le> (unat sz + 7) div 8 * 8"
    | (size) a where "adjust_request_size sz ALIGN_SIZE = Some a" "proper a" "unat sz \<le> unat a" "sz \<noteq> 0"
proof -
  let ?r = "(unat sz + 7) div 8 * 8" let ?al = "align_down 3 (sz + 7)"
  have u: "unat ?al = ?r" using unat_round_8 [OF assms] .
  show thesis
  proof (cases "sz = 0 \<or> 2 ^ 32 \<le> ?r")
    case True
    moreover have "adjust_request_size sz ALIGN_SIZE = Some 0"
      unfolding adjust_request_size_def align_up_8 using True u by (auto simp: tlsf_constants word_less_nat_alt)
    ultimately show thesis using zero by blast
  next
    case False
    define a where "a = (if ?al > 24 then ?al else 24)"
    have "adjust_request_size sz ALIGN_SIZE = Some a"
      unfolding adjust_request_size_def align_up_8 a_def using False u by (auto simp: tlsf_constants word_less_nat_alt)
    moreover have "unat a = max ?r 24" unfolding a_def using u by (auto simp: word_less_nat_alt)
    moreover from this have "proper a" unfolding proper_def aligned_def using False by (auto simp: max_def)
    ultimately show thesis using size False by simp
  qed
qed

section \<open>Allocation\<close>

lemma locate_ok:
  assumes hp: "heap c m B {}" and s: "proper s"
  obtains (none) "block_locate_free c s m = Some (0, m)"
      "\<And>b sz. B b = Some (sz, True) \<Longrightarrow> \<not> class_le (mapping_search s) (mapping_insert sz)"
    | (found) b sz m' where "block_locate_free c s m = Some (b, m')" "B b = Some (sz, True)" "unat s \<le> unat sz"
      "heap c m' B {b}" "keeps B m m'"
proof -
  obtain L where g: "geometry c B" and L: "lists_ok c m L" and li: "listed B {} L" using hp by (auto simp: heap_def)
  obtain f l where fl: "mapping_search s = (f, l)" by fastforce
  note mi = mapping_insert_class [OF fl [unfolded mapping_search_def]]
  have nz: "s \<noteq> 0" using s by (auto simp: proper_def)
  have fit: "unat s \<le> class_min (nat f) (nat l)" using mapping_search_class [OF _ _ fl] s by (simp add: proper_def aligned_def)
  show thesis
  proof (cases "f < 25")
    case False
    then have "block_locate_free c s m = Some (0, m)"
      unfolding block_locate_free_def using nz fl by (simp add: tlsf_constants)
    moreover have "\<not> class_le (f, l) (mapping_insert sz)" if b: "B b = Some (sz, True)" for b sz
    proof (rule class_idx [OF g frees_I [of B b sz, OF b]])
      fix i j assume "class_of B b = (i, j)" "idx i j"
      then show ?thesis using b False by (simp add: class_of_def idx_def class_le_def)
    qed
    ultimately show thesis using none fl by metis
  next
    case True
    then have ix: "idx f l" using mi by (simp add: idx_def)
    from L ix show thesis
    proof (cases rule: search_suitable_block_ok)
      case none': none
      then have "block_locate_free c s m = Some (0, m)"
        unfolding block_locate_free_def using nz fl True by (simp add: tlsf_constants)
      moreover have "\<not> class_le (f, l) (mapping_insert sz)" if b: "B b = Some (sz, True)" for b sz
      proof (rule class_idx [OF g frees_I [of B b sz, OF b]])
        fix i j assume ij: "class_of B b = (i, j)" "idx i j"
        then have "b \<in> set (L i j)" using li frees_I [of B b sz, OF b] unfolding listed_def by blast
        then show ?thesis using none'(2) [OF ij(2)] ij b by (auto simp: class_of_def)
      qed
      ultimately show thesis using none fl by metis
    next
      case found': (found b i j xs)
      then have b: "b \<in> frees B" "class_of B b = (i, j)" using li unfolding listed_def by (metis (mono_tags, lifting) DiffD1 list.set_intros(1) mem_Collect_eq)+
      obtain sz where sz: "B b = Some (sz, True)" using b(1) by (auto simp: frees_def)
      have ins: "mapping_insert sz = (i, j)" using b(2) sz by (simp add: class_of_def)
      note mj = mapping_insert_class [OF ins]
      have "class_min (nat f) (nat l) \<le> class_min (nat i) (nat j)"
        using found'(3) mi(1-3) mj(1-3) by (intro class_min_mono) (auto simp: class_le_def)
      with fit mj(4) have le: "unat s \<le> unat sz" by linarith
      obtain m' where m': "remove_free_block c b i j m = Some m'" "heap c m' B {b}" "keeps B m m'"
        using remove_ok [OF hp b(1) _ b(2)] by auto
      have "block_locate_free c s m = Some (b, m')"
        unfolding block_locate_free_def heap_block(1) [OF hp sz]
        using nz fl True found'(1) geometryD(1) [OF g sz] heap_block(1) [OF hp sz] le m'(1) by (simp add: tlsf_constants word_le_nat_alt)
      then show thesis using found sz le m' by blast
    qed
  qed
qed

lemma trim_free_ok:
  assumes hp: "heap c m B {b}" and b: "B b = Some (sz, True)" and nf: "nxt b sz \<notin> frees B" and s: "proper s" "unat s \<le> unat sz"
  obtains B' s' m' where "block_trim_free c b s m = Some m'" "heap c m' B' {b}" "B' b = Some (s', True)" "unat s \<le> unat s'"
    "used B' = used B" "keeps B m m'" "B' = (if unat s + 32 \<le> unat sz then split_at B b s True (sz - (s + 8)) else B)"
proof -
  have g: "geometry c B" using heap_geometry [OF hp] .
  note db = geometryD [OF g b] note hb = heap_block [OF hp b]
  have can: "block_can_split m b s \<longleftrightarrow> unat s + 32 \<le> unat sz"
    unfolding block_can_split_def hb(1) using s by (simp add: block_header_size_def word_le_nat_alt unat_word_ariths proper_def; linarith)
  show thesis
  proof (cases "unat s + 32 \<le> unat sz")
    case False
    then have "block_trim_free c b s m = Some m" unfolding block_trim_free_def using can hb(2) by simp
    then show thesis using that hp b s(2) False by simp
  next
    case True
    define t where "t = sz - (s + 8)"
    have sz: "sz = s + (t + 8)" by (simp add: t_def)
    have "unat (s + 8) = unat s + 8" using s by (simp add: proper_def unat_word_ariths)
    then have ut: "unat t = unat sz - unat s - 8" unfolding t_def using True by (subst unat_sub) (simp_all add: word_le_nat_alt)
    have t: "aligned8 t" "24 \<le> unat t" "unat s + unat t + 16 < 2 ^ 64"
      using ut True s(1) db(3,7) by (auto simp: proper_def aligned_def)
    let ?r = "nxt b s" let ?B = "split_at B b s True t"
    have sa: "aligned8 s" "24 \<le> unat s" using s by (simp_all add: proper_def)
    define M where "M m3 = set_size_field ?r (szf t True True) (set_prev_phys_block ?r b m3)" for m3
    obtain m3 gb where m3: "block_split b s m = Some (?r, m3)" "size_field m3 ?r = szf t True gb" "block_size m3 b = s"
      "heap c (M m3) ?B {?r, b}" "keeps ?B m (M m3)"
      using split_ok [OF hp b [unfolded sz] _ sa t] unfolding M_def by auto
    have g': "geometry c ?B" using heap_geometry [OF m3(4)] .
    have fresh: "B ?r = None" "?r \<noteq> b" using split_fresh [OF g b [unfolded sz] t(3)] .
    have b': "?B b = Some (s, True)" and r': "?B ?r = Some (t, True)" using fresh(2) by (simp_all add: split_at_def)
    have nz: "s \<noteq> 0" "t \<noteq> 0" using sa t(2) by auto
    have "size_field (set_prev_phys_block ?r b m3) ?r = szf t True gb" using header_views(3) [OF g' b' r' nz(1)] m3(2) by simp
    then have fin: "block_set_prev_free ?r (set_prev_phys_block ?r b m3) = M m3"
      unfolding M_def by (rule status_setters(3) [OF _ t(1)])
    have fe: "frees ?B = insert ?r (frees B)" using b b' r' unfolding frees_def split_at_def by (auto split: if_splits)
    have nn: "nxt ?r t \<notin> frees ?B"
      using nf territory_join(4) [OF t(3)] sz nxt_neq [OF g' r'] unfolding fe by auto
    have "coalesced ?B {b}" unfolding coalesced_def
    proof (intro allI impI)
      fix x sx assume x: "?B x = Some (sx, True)" "x \<notin> {b}" "nxt x sx \<notin> {b}"
      show "nxt x sx \<notin> frees ?B"
      proof (cases "x = ?r")
        case True
        with x r' nn show ?thesis by simp
      next
        case False
        have "sx \<noteq> 0" using geometryD(5) [OF g' x(1)] by auto
        then have "nxt x sx \<noteq> ?r" using prev_unique [OF g' x(1) b'] nz(1) x(2) by blast
        moreover have "coalesced ?B {?r, b}" using m3(4) by (simp add: heap_def)
        ultimately show ?thesis using x False unfolding coalesced_def by blast
      qed
    qed
    moreover have rb: "{?r, b} - {?r} = {b}" using fresh(2) by auto
    ultimately obtain m4 where m4: "block_insert c ?r (M m3) = Some m4" "heap c m4 ?B {b}" "keeps ?B (M m3) m4"
      using insert_ok [OF m3(4) frees_I [of ?B ?r t, OF r']] by auto
    have "block_trim_free c b s m = Some m4"
      unfolding block_trim_free_def block_link_next_def using can True hb(2) m3(1) next_block [OF m3(3) nz(1)] fin m4(1) by simp
    moreover have u: "used ?B = used B" using b b' r' fresh(1) unfolding used_def split_at_def by (auto split: if_splits)
    moreover have "keeps B m m4" using keeps_used [OF _ keeps_trans [OF m3(5) m4(3)]] u by blast
    moreover have "?B = (if unat s + 32 \<le> unat sz then split_at B b s True (sz - (s + 8)) else B)" using True by (simp add: t_def)
    ultimately show thesis using that m4(2) b' by blast
  qed
qed

lemma malloc_ok:
  assumes hp: "heap c m B {}" and sz: "unat sz + 7 < 2 ^ 64"
  obtains (none) "tlsf_malloc c sz m = Some (0, m)"
      "\<And>a b s. adjust_request_size sz ALIGN_SIZE = Some a \<Longrightarrow> a \<noteq> 0 \<Longrightarrow> B b = Some (s, True) \<Longrightarrow>
        \<not> class_le (mapping_search a) (mapping_insert s)"
    | (some) b s B' m' where "tlsf_malloc c sz m = Some (block_to_ptr b, m')" "heap c m' B' {}" "B' b = Some (s, False)"
      "s \<noteq> 0" "unat sz \<le> unat s" "used B' = insert (b, s) (used B)" "b \<notin> fst ` used B" "keeps B m m'" "sz \<noteq> 0"
      "\<exists>a bs. adjust_request_size sz ALIGN_SIZE = Some a \<and> B b = Some (bs, True) \<and>
        B' = (if unat a + 32 \<le> unat bs then split_at B b a True (bs - (a + 8)) else B)(b \<mapsto> (s, False))"
  using sz
proof (cases rule: adjust_cases)
  case zero
  then have "tlsf_malloc c sz m = Some (0, m)"
    by (simp add: tlsf_malloc_def block_locate_free_def block_prepare_used_def)
  then show thesis using none zero by simp
next
  case (size a)
  have az: "a \<noteq> 0" using size(2) by (auto simp: proper_def)
  have g: "geometry c B" using heap_geometry [OF hp] .
  from hp size(2) show thesis
  proof (cases rule: locate_ok)
    case none': none
    then have "tlsf_malloc c sz m = Some (0, m)" using size(1) by (simp add: tlsf_malloc_def block_prepare_used_def)
    then show thesis by (rule none) (use none'(2) size(1) in auto)
  next
    case (found b bs m1)
    have "coalesced B {}" using hp by (simp add: heap_def)
    then have nf: "nxt b bs \<notin> frees B" using found(2) by (auto simp: coalesced_def)
    obtain B1 s m2 where m2: "block_trim_free c b a m1 = Some m2" "heap c m2 B1 {b}" "B1 b = Some (s, True)" "unat a \<le> unat s"
      "used B1 = used B" "keeps B m1 m2" "B1 = (if unat a + 32 \<le> unat bs then split_at B b a True (bs - (a + 8)) else B)" by (rule trim_free_ok [OF found(4,2) nf size(2) found(3)])
    let ?B = "B1(b \<mapsto> (s, False))"
    obtain m3 where m3: "block_mark_as_used b m2 = Some m3" "heap c m3 ?B {}" "keeps B1 m2 m3"
      using mark_used_ok [OF m2(2,3)] by auto
    have "tlsf_malloc c sz m = Some (block_to_ptr b, m3)"
      using size(1) found(1) geometryD(1) [OF g found(2)] az m2(1) m3(1) by (simp add: tlsf_malloc_def block_prepare_used_def)
    moreover have "s \<noteq> 0" using m2(3) geometryD(5) [OF heap_geometry [OF m2(2)]] by blast
    moreover have "used ?B = insert (b, s) (used B1)" using m2(3) unfolding used_def by (auto split: if_splits)
    then have "used ?B = insert (b, s) (used B)" using m2(5) by simp
    moreover have "b \<notin> fst ` used B" using found(2) by (auto simp: used_def)
    moreover have "keeps B m m3" using keeps_trans [OF found(5) keeps_trans [OF m2(6)]] keeps_used [OF _ m3(3)] m2(5) by blast
    moreover have "unat sz \<le> unat s" using size(3) m2(4) by simp
    moreover have "?B b = Some (s, False)" by simp
    moreover have "\<exists>a bs. adjust_request_size sz ALIGN_SIZE = Some a \<and> B b = Some (bs, True) \<and>
        ?B = (if unat a + 32 \<le> unat bs then split_at B b a True (bs - (a + 8)) else B)(b \<mapsto> (s, False))"
      using size(1) found(2) m2(7) by blast
    ultimately show thesis using some [of b m3 ?B s] m3(2) size(4) by simp
  qed
qed

section \<open>Clients\<close>

text \<open>Bytes that are neither in a size field, nor in a free block, nor in the control structure do not matter.\<close>

lemma heap_change:
  assumes hp: "heap c m B {}" and hdr: "\<And>x y sy fy. m' x \<noteq> m x \<Longrightarrow> B y = Some (sy, fy) \<Longrightarrow> x \<notin> region (y + 8) 8"
    and fr: "\<And>x y sy. m' x \<noteq> m x \<Longrightarrow> B y = Some (sy, True) \<Longrightarrow> x \<notin> territory y sy" and ct: "\<And>x. m' x \<noteq> m x \<Longrightarrow> x \<notin> ctl c"
  shows "heap c m' B {}"
proof -
  obtain L where g: "geometry c B" and h: "headers m B" and co: "coalesced B {}" and L: "lists_ok c m L" and li: "listed B {} L"
    using hp by (auto simp: heap_def)
  have "size_field m' y = size_field m y" if "B y = Some (sy, fy)" for y sy fy
    unfolding size_field_def using hdr [OF _ that] by (intro read64_cong) blast
  moreover have "prev_phys_block m' (nxt y sy) = prev_phys_block m (nxt y sy)" if y: "B y = Some (sy, True)" for y sy
    unfolding prev_phys_block_def
    using fr [OF _ y] territory_parts(3) [OF geometryD(7,6) [OF g y], of y] geometryD(5) [OF g y] by (intro read64_cong) blast
  ultimately have "headers m' B" using h unfolding headers_def by simp
  moreover have "lists_ok c m' L"
  proof (rule lists_ok_cong [OF L])
    fix z assume z: "z \<in> ctl c \<or> (\<exists>y \<in> nodes L. z \<in> region (y + 16) 16)"
    show "m' z = m z"
    proof (rule ccontr)
      assume d: "m' z \<noteq> m z"
      then obtain y where y: "y \<in> nodes L" "z \<in> region (y + 16) 16" using z ct by blast
      obtain sy where sy: "B y = Some (sy, True)" "sy \<noteq> 0" using y listed_nodes [OF g li] freesD [OF g] by blast
      show False using fr [OF d sy(1)] territory_parts(2) [OF geometryD(7,6) [OF g sy(1)], of y] sy(2) y(2) by blast
    qed
  qed
  ultimately show ?thesis using g co li unfolding heap_def by blast
qed

text \<open>A client may write what it likes to the payload of a block in use, and anywhere beyond the heap.\<close>

lemma payload_change:
  assumes hp: "heap c m B {}" and b: "B b = Some (sz, False)" and x: "\<And>x. m' x \<noteq> m x \<Longrightarrow> x \<in> region (block_to_ptr b) (unat sz)"
  shows "heap c m' B {}"
proof (rule heap_change [OF hp])
  fix x assume d: "m' x \<noteq> m x"
  have g: "geometry c B" using heap_geometry [OF hp] .
  have x': "x \<in> region (b + 16) (unat sz)" using x [OF d] by (simp add: block_to_ptr_def block_start_offset_def)
  have nz: "sz \<noteq> 0" using x' by auto
  note db = geometryD [OF g b]
  have xt: "x \<in> territory b sz" using territory_parts(4) [OF db(7)] x' by blast
  have far: "x \<notin> territory y sy" if "B y = Some (sy, fy)" "y \<noteq> b" for y sy fy
    using geometry_apart [OF g b that(1)] that(2) xt by blast
  show "x \<notin> region (y + 8) 8" if y: "B y = Some (sy, fy)" for y sy fy
  proof (cases "y = b")
    case True
    then show ?thesis using own_parts(4) [OF db(7) db(6) [OF nz], of b] x' by auto
  next
    case False
    then show ?thesis using far [OF y] territory_parts(1) [OF geometryD(7) [OF g y]] by blast
  qed
  show "x \<notin> territory y sy" if y: "B y = Some (sy, True)" for y sy
    using far [OF y] y b by (cases "y = b") auto
  show "x \<notin> ctl c" using db(8) xt by blast
qed

lemma outside_write:
  assumes hp: "heap c m B {}" and x: "x \<notin> span c"
  shows "heap c (m(x := v)) B {}"
proof (rule heap_change [OF hp])
  fix z assume "(m(x := v)) z \<noteq> m z"
  then have z: "z \<notin> span c" using x by (auto split: if_splits)
  have g: "geometry c B" using heap_geometry [OF hp] .
  have out: "z \<notin> territory y sy" if "B y = Some (sy, fy)" for y sy fy using geometry_pool [OF g that] z by blast
  show "z \<notin> region (y + 8) 8" if y: "B y = Some (sy, fy)" for y sy fy
    using out [OF y] territory_parts(1) [OF geometryD(7) [OF g y]] by blast
  show "z \<notin> territory y sy" if "B y = Some (sy, True)" for y sy using out [OF that] .
  show "z \<notin> ctl c" using z by (simp add: span_def)
qed

text \<open>
  The allocations a client holds, each a pointer with the size it asked for: every one is the start
  of the payload of its own block.
\<close>

definition holds :: "blockmap \<Rightarrow> (u64 \<times> u64) set \<Rightarrow> bool" where
  "holds B A \<longleftrightarrow> (\<forall>(p, n) \<in> A. \<exists>b s. p = block_to_ptr b \<and> B b = Some (s, False) \<and> s \<noteq> 0 \<and> unat n \<le> unat s) \<and>
     (\<forall>(p, n) \<in> A. \<forall>(p', n') \<in> A. p = p' \<longrightarrow> n = n')"

lemma block_to_ptr_inj [simp]: "block_to_ptr b = block_to_ptr b' \<longleftrightarrow> b = b'"
  by (simp add: block_to_ptr_def)

lemma holdsD:
  assumes "holds B A" "(p, n) \<in> A"
  obtains b s where "p = block_to_ptr b" "B b = Some (s, False)" "s \<noteq> 0" "unat n \<le> unat s"
  using assms unfolding holds_def by blast

lemma holdsI:
  assumes "\<And>p n. (p, n) \<in> A \<Longrightarrow> \<exists>b s. p = block_to_ptr b \<and> B b = Some (s, False) \<and> s \<noteq> 0 \<and> unat n \<le> unat s"
    and "\<And>p n n'. (p, n) \<in> A \<Longrightarrow> (p, n') \<in> A \<Longrightarrow> n = n'"
  shows "holds B A"
  using assms unfolding holds_def by blast

lemma holds_unique: "holds B A \<Longrightarrow> (p, n) \<in> A \<Longrightarrow> (p, n') \<in> A \<Longrightarrow> n = n'"
  unfolding holds_def by blast

lemma holds_malloc:
  assumes h: "holds B A" and u: "used B' = insert (b, s) (used B)" "b \<notin> fst ` used B" and s: "s \<noteq> 0" "unat n \<le> unat s"
  shows "holds B' (insert (block_to_ptr b, n) A)"
proof -
  have old: "B' x = Some (sx, False)" if "B x = Some (sx, False)" for x sx using that u(1) by (auto simp: used_def)
  have new: "B' b = Some (s, False)" using u(1) by (auto simp: used_def)
  have fresh: "p \<noteq> block_to_ptr b" if pk: "(p, k) \<in> A" for p k
  proof -
    obtain x sx where "p = block_to_ptr x" "B x = Some (sx, False)" by (rule holdsD [OF h pk])
    then show ?thesis using u(2) by (force simp: used_def)
  qed
  show ?thesis
  proof (rule holdsI)
    fix p k assume "(p, k) \<in> insert (block_to_ptr b, n) A"
    then show "\<exists>x sx. p = block_to_ptr x \<and> B' x = Some (sx, False) \<and> sx \<noteq> 0 \<and> unat k \<le> unat sx"
    proof (cases "(p, k) \<in> A")
      case True
      then show ?thesis by (rule holdsD [OF h]) (use old in blast)
    qed (use new s in auto)
  next
    fix p k k' assume "(p, k) \<in> insert (block_to_ptr b, n) A" "(p, k') \<in> insert (block_to_ptr b, n) A"
    then show "k = k'" using fresh holds_unique [OF h] by blast
  qed
qed

lemma holds_free:
  assumes h: "holds B A" and b: "(block_to_ptr b, n) \<in> A" "B b = Some (s, False)" and u: "used B' = used B - {(b, s)}"
  shows "holds B' (A - {(block_to_ptr b, n)})"
proof -
  have "\<exists>x sx. p = block_to_ptr x \<and> B' x = Some (sx, False) \<and> sx \<noteq> 0 \<and> unat k \<le> unat sx"
    if k: "(p, k) \<in> A" "(p, k) \<noteq> (block_to_ptr b, n)" for p k
  proof -
    obtain x sx where x: "p = block_to_ptr x" "B x = Some (sx, False)" "sx \<noteq> 0" "unat k \<le> unat sx" by (rule holdsD [OF h k(1)])
    have "x \<noteq> b" using holds_unique [OF h b(1)] k x(1) by auto
    then have "(x, sx) \<in> used B'" using x(2) unfolding u by (simp add: used_def)
    with x show ?thesis by (auto simp: used_def)
  qed
  then show ?thesis using holds_unique [OF h] by (intro holdsI) blast+
qed

section \<open>A new pool\<close>

lemma heads_fold:
  assumes "0 \<le> i" "i < 25" "set js \<subseteq> {0..<32}"
  shows "idx i' j' \<Longrightarrow> blocks (fold (\<lambda>j. set_blocks c i j v) js m) c i' j' = (if i' = i \<and> j' \<in> set js then v else blocks m c i' j')"
    and "0 \<le> k \<Longrightarrow> k < 25 \<Longrightarrow> sl_bitmap (fold (\<lambda>j. set_blocks c i j v) js m) c k = sl_bitmap m c k"
    and "fl_bitmap (fold (\<lambda>j. set_blocks c i j v) js m) c = fl_bitmap m c"
    and "x \<notin> ctl c \<Longrightarrow> fold (\<lambda>j. set_blocks c i j v) js m x = m x"
  using assms(3)
proof (induction js arbitrary: m)
  case (Cons j js)
  { case 1
    then have "idx i j" using assms by (simp add: idx_def)
    then show ?case using 1 Cons.IH(1) [of "set_blocks c i j v m"] heads_algebra(1,2) [of i j] by (cases "i' = i \<and> j' = j") auto }
  { case 2
    then have "idx i j" using assms by (simp add: idx_def)
    then show ?case using 2 Cons.IH(2) heads_algebra(3) [of i j] by simp }
  { case 3
    then have "idx i j" using assms by (simp add: idx_def)
    then show ?case using 3 Cons.IH(3) heads_algebra(4) [of i j] by simp }
  { case 4
    then have "idx i j" using assms by (simp add: idx_def)
    then show ?case using 4 Cons.IH(4) control_setters_outside(1) [of x c i j] by simp }
qed simp_all

definition clear_row :: "u64 \<Rightarrow> int \<Rightarrow> mem \<Rightarrow> mem" where
  "clear_row c i m = fold (\<lambda>j. set_blocks c i j c) [0..31] (set_sl_bitmap c i 0 m)"

lemma clear_row:
  assumes "0 \<le> i" "i < 25"
  shows "idx i' j' \<Longrightarrow> blocks (clear_row c i m) c i' j' = (if i' = i then c else blocks m c i' j')"
    and "0 \<le> k \<Longrightarrow> k < 25 \<Longrightarrow> sl_bitmap (clear_row c i m) c k = (if k = i then 0 else sl_bitmap m c k)"
    and "fl_bitmap (clear_row c i m) c = fl_bitmap m c"
    and "x \<notin> ctl c \<Longrightarrow> clear_row c i m x = m x"
proof -
  have js: "set [0..31] \<subseteq> {0..<32 :: int}" by auto
  note f = heads_fold [OF assms js, where c = c and v = c]
  show "blocks (clear_row c i m) c i' j' = (if i' = i then c else blocks m c i' j')" if "idx i' j'"
    unfolding clear_row_def f(1) [OF that] using that by (auto simp: sl_algebra [OF assms] idx_def)
  show "sl_bitmap (clear_row c i m) c k = (if k = i then 0 else sl_bitmap m c k)" if "0 \<le> k" "k < 25"
    unfolding clear_row_def f(2) [OF that] using that by (auto simp: sl_algebra [OF assms])
  show "fl_bitmap (clear_row c i m) c = fl_bitmap m c" unfolding clear_row_def f(3) by (simp add: sl_algebra [OF assms])
  show "clear_row c i m x = m x" if "x \<notin> ctl c"
    unfolding clear_row_def f(4) [OF that] using control_setters_outside(2) [OF that assms] .
qed

lemma clear_rows:
  assumes "set is \<subseteq> {0..<25}"
  shows "idx i' j' \<Longrightarrow> i' \<in> set is \<Longrightarrow> blocks (fold (clear_row c) is m) c i' j' = c"
    and "idx i' j' \<Longrightarrow> i' \<notin> set is \<Longrightarrow> blocks (fold (clear_row c) is m) c i' j' = blocks m c i' j'"
    and "k \<in> set is \<Longrightarrow> sl_bitmap (fold (clear_row c) is m) c k = 0"
    and "0 \<le> k \<Longrightarrow> k < 25 \<Longrightarrow> k \<notin> set is \<Longrightarrow> sl_bitmap (fold (clear_row c) is m) c k = sl_bitmap m c k"
    and "fl_bitmap (fold (clear_row c) is m) c = fl_bitmap m c"
    and "x \<notin> ctl c \<Longrightarrow> fold (clear_row c) is m x = m x"
  using assms
proof (induction "is" arbitrary: m)
  case (Cons i "is")
  note r = clear_row [where c = c and i = i]
  { case 1 then show ?case using Cons.IH(1,2) r(1) by (cases "i' \<in> set is") auto }
  { case 2 then show ?case using Cons.IH(2) r(1) by auto }
  { case 3 then show ?case using Cons.IH(3,4) r(2) by (cases "k \<in> set is") auto }
  { case 4 then show ?case using Cons.IH(4) r(2) by auto }
  { case 5 then show ?case using Cons.IH(5) r(3) by simp }
  { case 6 then show ?case using Cons.IH(6) r(4) by simp }
qed simp_all

lemma control_construct_ok:
  assumes c: "c \<noteq> 0"
  shows "lists_ok c (control_construct c m) (\<lambda>_ _. [])" and "x \<notin> ctl c \<Longrightarrow> control_construct c m x = m x"
proof -
  define m2 where "m2 = set_fl_bitmap c 0 (set_prev_free c c (set_next_free c c m))"
  have e: "control_construct c m = fold (clear_row c) [0..24] m2"
    unfolding control_construct_def m2_def clear_row_def block_null_def Let_def by (simp add: tlsf_constants)
  have js: "set [0..24] \<subseteq> {0..<25 :: int}" by auto
  note r = clear_rows [OF js, where c = c and m = m2, folded e]
  have fl: "fl_bitmap (control_construct c m) c = 0" using r(5) by (simp add: m2_def fl_algebra)
  have "cell_ok c (control_construct c m) i j []" if "idx i j" for i j
    using r(1) [OF that] r(3) [of i] that by (auto simp: cell_ok_def idx_def)
  moreover have "nodes (\<lambda>_ _. []) = {}" by (simp add: nodes_def)
  ultimately show "lists_ok c (control_construct c m) (\<lambda>_ _. [])"
    using c fl unfolding lists_ok_def row_ok_def apart_def well_placed_def separate_def by auto
  show "control_construct c m x = m x" if "x \<notin> ctl c"
    unfolding r(6) [OF that] m2_def using that by (simp add: control_setters_outside)
qed

lemma aligned8_mask: "aligned8 x \<longleftrightarrow> x AND 7 = 0"
proof -
  have "x AND 7 = take_bit 3 x" by (simp add: take_bit_eq_mask mask_eq_exp_minus_1)
  moreover have "unat (take_bit 3 x) = unat x mod 8" by (simp add: take_bit_eq_mod unat_mod)
  ultimately show ?thesis unfolding aligned_def by (simp add: word_unat_eq_iff dvd_eq_mod_eq_0)
qed

lemma unat_align_down_size: "align_down_size x ALIGN_SIZE = Some (x - (x AND 7))" "unat (x - (x AND 7)) = unat x div 8 * 8"
proof -
  show "align_down_size x ALIGN_SIZE = Some (x - (x AND 7))" by (simp add: align_down_size_def tlsf_constants)
  have "x AND 7 = take_bit 3 x" by (simp add: take_bit_eq_mask mask_eq_exp_minus_1)
  then have "unat (x AND 7) = unat x mod 8" by (simp add: take_bit_eq_mod unat_mod)
  then show "unat (x - (x AND 7)) = unat x div 8 * 8"
    by (subst unat_sub) (simp_all add: word_and_le1 word_le_nat_alt minus_mod_eq_div_mult)
qed

text \<open>The first block of a pool and the sentinel behind it.\<close>

definition pool_blocks :: "u64 \<Rightarrow> u64 \<Rightarrow> blockmap" where
  "pool_blocks c P = [c + 6528 \<mapsto> (P, True), nxt (c + 6528) P \<mapsto> (0, False)]"

lemma pool_geometry:
  assumes c: "aligned8 c" "c \<noteq> 0" and P: "aligned8 P" "24 \<le> unat P" "unat P + 6552 \<le> 2 ^ 32" and f: "unat c + unat P + 6552 < 2 ^ 64"
  shows "geometry c (pool_blocks c P)" "nxt (c + 6528) P \<noteq> c + 6528" "aligned8 (c + 6528)"
proof -
  let ?b = "c + 6528" let ?n = "nxt ?b P"
  have ub: "unat ?b = unat c + 6528" using f by (simp add: unat_word_ariths)
  have un: "unat ?n = unat c + unat P + 6536" using f ub by (simp add: nxt_def unat_word_ariths)
  show ne: "?n \<noteq> ?b" using ub un by auto
  show al: "aligned8 ?b" using c(1) by (intro aligned_add) (simp_all add: aligned_def)
  then have aln: "aligned8 ?n" unfolding nxt_def by (rule aligned_add) (rule aligned_add [OF _ P(1)], simp_all add: aligned_def)
  have tb: "territory ?b P = region (c + of_nat 6536) (8 + unat P)" by (simp add: territory_def add.assoc)
  have tn: "territory ?n 0 = region (c + of_nat (6544 + unat P)) 8" by (simp add: territory_def nxt_def add_ac)
  have dis: "territory ?b P \<inter> territory ?n 0 = {}" "territory ?b P \<inter> ctl c = {}" "territory ?n 0 \<inter> ctl c = {}"
    unfolding tb tn ctl_def using disjoint_offsets [of 6536 "8 + unat P" "6544 + unat P" 8 c]
      disjoint_offsets [of 6536 "8 + unat P" 0 6536 c] disjoint_offsets [of "6544 + unat P" 8 0 6536 c] f
    by (simp_all add: disjoint_regions_def)
  have pool: "territory ?b P \<subseteq> span c" "territory ?n 0 \<subseteq> span c"
  proof -
    have u: "unat (c + of_nat 6536) = unat c + 6536" "unat (c + of_nat (6544 + unat P)) = unat c + 6544 + unat P"
      using f by (simp_all add: unat_word_ariths)
    show "territory ?b P \<subseteq> span c" "territory ?n 0 \<subseteq> span c"
      unfolding tb tn span_def using P(3) f u by (auto simp: region_inside)
  qed
  have new: "x = ?b \<and> sx = P \<and> fx = True \<or> x = ?n \<and> sx = 0 \<and> fx = False" if "pool_blocks c P x = Some (sx, fx)" for x sx fx
    using that unfolding pool_blocks_def by (auto split: if_splits)
  have nz: "?b \<noteq> 0" "?n \<noteq> 0" using ub un by auto
  have "unat P \<noteq> 0" using P(2) by simp
  then have "P \<noteq> 0" by auto
  then have ok: "block_ok c ?b P True" "block_ok c ?n 0 False"
    using nz al aln P dis(2,3) ub un f unfolding block_ok_def by (simp_all add: aligned_def)
  show "geometry c (pool_blocks c P)"
  proof (rule geometryI)
    fix x sx fx assume x: "pool_blocks c P x = Some (sx, fx)"
    from new [OF x] show "block_ok c x sx fx" using ok by blast
    from new [OF x] show "territory x sx \<subseteq> span c" using pool by blast
    from new [OF x] show "pool_blocks c P (nxt x sx) \<noteq> None" if "sx \<noteq> 0" using that by (auto simp: pool_blocks_def)
    fix y sy fy assume "pool_blocks c P y = Some (sy, fy)" "x \<noteq> y"
    with new [OF x] new [of y sy fy] show "territory x sx \<inter> territory y sy = {}" using dis(1) by blast
  qed
qed

text \<open>
  The first block of a fresh pool: after its header is written it goes into an empty structure of lists, which leaves the header as it is.
\<close>
lemma pool_first_block:
  assumes c: "c \<noteq> 0" and g: "geometry c (pool_blocks c P)" and b: "pool_blocks c P (c + 6528) = Some (P, True)"
    and P: "aligned8 P" "24 \<le> unat P" and al: "aligned8 (c + 6528)"
  obtains m2 i j where
    "block_insert c (c + 6528) (block_set_prev_used (c + 6528) (block_set_free (c + 6528) (block_set_size (c + 6528) P (control_construct c m)))) = Some m2"
    "idx i j" "class_of (pool_blocks c P) (c + 6528) = (i, j)" "lists_ok c m2 (upd (\<lambda>_ _. []) i j [c + 6528])"
    "size_field m2 (c + 6528) = szf P True False"
proof -
  let ?b = "c + 6528" let ?B = "pool_blocks c P" let ?m = "control_construct c m"
  note db = geometryD [OF g b]
  obtain g1 g2 where "block_set_size ?b P ?m = set_size_field ?b (szf P g1 g2) ?m" by (rule set_size_garbage [OF P(1)])
  moreover define ma where "ma = set_size_field ?b (szf P g1 g2) ?m"
  moreover define mb where "mb = set_size_field ?b (szf P True g2) ma"
  moreover define m1 where "m1 = set_size_field ?b (szf P True False) mb"
  moreover have "block_set_free ?b ma = mb" "block_set_prev_used ?b mb = m1"
    unfolding m1_def mb_def using status_setters(1) [OF _ P(1), of ma ?b g1 g2] status_setters(4) [OF _ P(1), of mb ?b True g2]
    by (simp_all add: ma_def mb_def)
  ultimately have w: "block_set_prev_used ?b (block_set_free ?b (block_set_size ?b P ?m)) = m1" by simp
  have L0: "lists_ok c m1 (\<lambda>_ _. [])"
  proof (rule lists_ok_cong)
    show "lists_ok c ?m (\<lambda>_ _. [])" by (rule control_construct_ok(1) [OF c])
    fix z assume "z \<in> ctl c \<or> (\<exists>b \<in> nodes (\<lambda>_ _. []). z \<in> region (b + 16) 16)"
    then have "z \<notin> region (?b + 8) 8" using db(8) territory_parts(1) [OF db(7), of ?b] by (auto simp: nodes_def)
    then show "m1 z = ?m z" unfolding m1_def mb_def ma_def by (simp add: size_write_outside)
  qed
  have bf: "?b \<in> frees ?B" using b by (rule frees_I)
  obtain i j where ij: "class_of ?B ?b = (i, j)" "idx i j" by (rule class_idx [OF g bf])
  have emp: "nodes (\<lambda>_ _. [] :: u64 list) = {}" by (simp add: nodes_def)
  have wp: "well_placed c (insert ?b (nodes (\<lambda>_ _. [])))" using geometry_well_placed [OF g c, of "{?b}"] bf emp by simp
  obtain m2 where m2: "insert_free_block c ?b i j m1 = Some m2" "lists_ok c m2 (upd (\<lambda>_ _. []) i j [?b])" "list_frame c {?b} m1 m2"
    using insert_free_block_ok [OF L0 ij(2) _ wp al] emp by auto
  have sf1: "size_field m1 ?b = szf P True False" unfolding m1_def by simp
  have "region (?b + 8) 8 \<inter> ctl c = {}" "region (?b + 8) 8 \<inter> region (?b + 16) 16 = {}"
    using db(8) territory_parts(1) [OF db(7), of ?b] own_parts(1) [OF db(7) P(2), of ?b] by blast+
  then have "size_field m2 ?b = size_field m1 ?b" unfolding size_field_def
    using m2(3) unfolding list_frame_def by (intro read64_cong) blast
  moreover have "block_insert c ?b m1 = Some m2"
    unfolding block_insert_def status_of_szf(1) [OF sf1 P(1)] using m2(1) ij(1) b by (simp add: class_of_def)
  ultimately show thesis using that [OF _ ij(2,1) m2(2)] sf1 unfolding w by simp
qed

text \<open>The block of size 0 that ends the pool: linking it behind the first block and marking it used completes the headers.\<close>

lemma pool_last_block:
  assumes g: "geometry c (pool_blocks c P)" and ne: "nxt (c + 6528) P \<noteq> c + 6528" and P: "aligned8 P" "P \<noteq> 0"
    and sf: "size_field m2 (c + 6528) = szf P True False"
  obtains m3 m4 where "block_link_next (c + 6528) m2 = Some (nxt (c + 6528) P, m3)"
    "block_set_prev_free (nxt (c + 6528) P) (block_set_used (nxt (c + 6528) P) (block_set_size (nxt (c + 6528) P) 0 m3)) = m4"
    "headers m4 (pool_blocks c P)" "\<And>L. lists_ok c m2 L \<Longrightarrow> nodes L \<subseteq> frees (pool_blocks c P) \<Longrightarrow> lists_ok c m4 L"
proof -
  let ?b = "c + 6528" let ?n = "nxt ?b P" let ?B = "pool_blocks c P"
  have b: "?B ?b = Some (P, True)" and nb: "?B ?n = Some (0, False)" using ne by (simp_all add: pool_blocks_def)
  define m3 where "m3 = set_prev_phys_block ?n ?b m2"
  have link: "block_link_next ?b m2 = Some (?n, m3)"
    unfolding block_link_next_def m3_def using next_block [OF status_of_szf(1) [OF sf P(1)] P(2)] by simp
  have a0: "aligned8 0" by (simp add: aligned_def)
  obtain h1 h2 where "block_set_size ?n 0 m3 = set_size_field ?n (szf 0 h1 h2) m3" by (rule set_size_garbage [OF a0])
  moreover define mc where "mc = set_size_field ?n (szf 0 h1 h2) m3"
  moreover define md where "md = set_size_field ?n (szf 0 False h2) mc"
  moreover define m4 where "m4 = set_size_field ?n (szf 0 False True) md"
  moreover have "block_set_used ?n mc = md" "block_set_prev_free ?n md = m4"
    unfolding m4_def md_def using status_setters(2) [OF _ a0, of mc ?n h1 h2] status_setters(3) [OF _ a0, of md ?n False h2]
    by (simp_all add: mc_def md_def)
  ultimately have w: "block_set_prev_free ?n (block_set_used ?n (block_set_size ?n 0 m3)) = m4" by simp
  have "headers m4 ?B" unfolding headers_def
  proof (intro allI impI)
    fix x sx fx assume x: "?B x = Some (sx, fx)"
    note vn = header_views [OF g nb x] note vb = header_views [OF g b x]
    have "x = ?b \<or> x = ?n" using x by (auto simp: pool_blocks_def split: if_splits)
    moreover have "pfree ?B ?n" using b unfolding pfree_def by blast
    moreover have "\<not> pfree ?B ?b" using ne unfolding pfree_def pool_blocks_def by (auto split: if_splits)
    moreover have "size_field m4 x = (if x = ?n then szf 0 False True else size_field m2 x)"
      unfolding m4_def md_def mc_def m3_def by (simp only: vn(1) vb(3) [OF P(2)] if_cancel cong: if_cong) simp
    moreover have "prev_phys_block m4 (nxt x sx) = ?b" if "x = ?b"
    proof -
      have sx: "sx \<noteq> 0" using that x b P(2) by simp
      show ?thesis unfolding m4_def md_def mc_def m3_def by (simp only: vn(2) [OF sx] vb(4) [OF P(2) sx]) (simp add: that)
    qed
    ultimately show "size_field m4 x = szf sx fx (pfree ?B x) \<and> (fx \<longrightarrow> prev_phys_block m4 (nxt x sx) = x)"
      using x b nb ne sf by auto
  qed
  moreover have "lists_ok c m4 L" if L: "lists_ok c m2 L" and N: "nodes L \<subseteq> frees ?B" for L
    unfolding m4_def md_def mc_def m3_def
    using header_write_lists(1) [OF g _ N nb] header_write_lists(2) [OF g L N b P(2)] by blast
  ultimately show thesis using that [OF link w] by blast
qed

lemma create_ok:
  assumes c: "aligned8 c" "c \<noteq> 0" and n: "6576 \<le> unat bytes" "unat bytes \<le> 2 ^ 32" "unat c + unat bytes < 2 ^ 64"
  obtains m' where "tlsf_create_with_pool c bytes m = Some (c, m')" "heap c m' (pool_blocks c ((bytes - 6552) - ((bytes - 6552) AND 7))) {}"
proof -
  define P where "P = (bytes - 6552) - ((bytes - 6552) AND 7)"
  have "unat (bytes - 6552) = unat bytes - 6552" using n by (subst unat_sub) (simp_all add: word_le_nat_alt)
  then have uP: "unat P = (unat bytes - 6552) div 8 * 8" unfolding P_def unat_align_down_size(2) by simp
  have P: "aligned8 P" "24 \<le> unat P" "unat P + 6552 \<le> 2 ^ 32" "unat c + unat P + 6552 < 2 ^ 64"
    using uP n by (auto simp: aligned_def)
  let ?b = "c + 6528" let ?n = "nxt ?b P" let ?B = "pool_blocks c P"
  note g = pool_geometry(1) [OF c P] and ne = pool_geometry(2) [OF c P] and al = pool_geometry(3) [OF c P]
  have b: "?B ?b = Some (P, True)" using ne by (simp add: pool_blocks_def)
  have nz: "P \<noteq> 0" using P(2) by auto
  obtain m2 i j where m2: "block_insert c ?b (block_set_prev_used ?b (block_set_free ?b (block_set_size ?b P (control_construct c m)))) = Some m2"
    and ix: "idx i j" and ij: "class_of ?B ?b = (i, j)" and L: "lists_ok c m2 (upd (\<lambda>_ _. []) i j [?b])"
    and sf: "size_field m2 ?b = szf P True False"
    by (rule pool_first_block [OF c(2) g b P(1,2) al])
  have nb: "?n \<noteq> ?b" using ne by auto
  obtain m3 m4 where m4: "block_link_next ?b m2 = Some (?n, m3)" "block_set_prev_free ?n (block_set_used ?n (block_set_size ?n 0 m3)) = m4"
    and h: "headers m4 ?B" and Lk: "\<And>L. lists_ok c m2 L \<Longrightarrow> nodes L \<subseteq> frees ?B \<Longrightarrow> lists_ok c m4 L"
    by (rule pool_last_block [OF g nb P(1) nz sf], rule that)
  have st: "c AND 7 = 0" "(c + 6536) AND 7 = 0"
    using c(1) aligned_add [OF c(1), of 6536] by (simp_all add: aligned8_mask [symmetric] aligned_def)
  have lim: "\<not> P < block_size_min" "\<not> block_size_max < P" using P by (simp_all add: tlsf_constants word_less_nat_alt)
  have sz: "bytes - tlsf_size - tlsf_pool_overhead = bytes - 6552" by (simp add: tlsf_size_def tlsf_pool_overhead_def tlsf_constants)
  have off: "offset_to_block (c + tlsf_size) (- block_header_overhead) = ?b"
    by (simp add: offset_to_block_def tlsf_size_def tlsf_constants)
  have "tlsf_add_pool c (c + tlsf_size) (bytes - tlsf_size) (control_construct c m) = Some (c + tlsf_size, m4)"
    unfolding tlsf_add_pool_def sz unat_align_down_size(1) P_def [symmetric] off Let_def
    using lim st(2) m2 m4 by (simp add: tlsf_size_def ALIGN_SIZE_def ALIGN_SIZE_LOG2_def)
  then have run: "tlsf_create_with_pool c bytes m = Some (c, m4)"
    unfolding tlsf_create_with_pool_def tlsf_create_def using st(1) by (simp add: ALIGN_SIZE_def ALIGN_SIZE_LOG2_def)
  have fe: "frees ?B = {?b}" using ne unfolding frees_def pool_blocks_def by (auto split: if_splits)
  have "lists_ok c m4 (upd (\<lambda>_ _. []) i j [?b])" using fe by (intro Lk L) (auto simp: nodes_upd [OF ix] others_def)
  moreover have "listed ?B {} (upd (\<lambda>_ _. []) i j [?b])" unfolding listed_def fe using ij by (auto simp: upd_def)
  moreover have "coalesced ?B {}" unfolding coalesced_def fe using ne b by (auto simp: pool_blocks_def split: if_splits)
  ultimately show thesis using that [OF run] g h unfolding heap_def P_def [symmetric] by blast
qed

end
