(* ===== verification/TlsfRealloc.thy ===== *)
theory TlsfRealloc
  imports TlsfAlloc
begin

text \<open>
  Resizing an allocation (\<open>mm/heapalloc/tlsf.c\<close>: \<open>block_trim_used\<close>, \<open>tlsf_realloc\<close>): a block in use gives its tail back, or
  takes in the free block behind it, or its contents move to a new block.
\<close>

section \<open>Giving back the tail of a block in use\<close>

lemma used_flag: "B b = Some (s, False) \<Longrightarrow> (b, s) \<in> used B"
  by (simp add: used_def)

lemma trim_used_ok:
  assumes hp: "heap c m B {}" and b: "B b = Some (sz, False)" and s: "proper s" "unat s \<le> unat sz"
  obtains B' s' m' where "block_trim_used c b s m = Some m'" "heap c m' B' {}" "used B' = insert (b, s') (used B - {(b, sz)})"
    "unat s \<le> unat s'" "unat s' \<le> unat sz" "keeps B' m m'"
proof -
  have g: "geometry c B" using heap_geometry [OF hp] .
  note db = geometryD [OF g b] note hb = heap_block [OF hp b]
  have can: "block_can_split m b s \<longleftrightarrow> unat s + 32 \<le> unat sz"
    unfolding block_can_split_def hb(1) using s by (simp add: block_header_size_def word_le_nat_alt unat_word_ariths proper_def; linarith)
  show thesis
  proof (cases "unat s + 32 \<le> unat sz")
    case False
    then have "block_trim_used c b s m = Some m" unfolding block_trim_used_def using can hb(2) by simp
    moreover have "used B = insert (b, sz) (used B - {(b, sz)})" using used_flag [of B b sz, OF b] by blast
    ultimately show thesis using that [of m B sz] hp s(2) by simp
  next
    case True
    define t where "t = sz - (s + 8)"
    have sz: "sz = s + (t + 8)" by (simp add: t_def)
    have "unat (s + 8) = unat s + 8" using s by (simp add: proper_def unat_word_ariths)
    then have ut: "unat t = unat sz - unat s - 8" unfolding t_def using True by (subst unat_sub) (simp_all add: word_le_nat_alt)
    have t: "aligned8 t" "24 \<le> unat t" "unat s + unat t + 16 < 2 ^ 64"
      using ut True s(1) db(3,7) by (auto simp: proper_def aligned_def)
    let ?r = "nxt b s" let ?B = "split_at B b s False t"
    have sa: "aligned8 s" "24 \<le> unat s" using s by (simp_all add: proper_def)
    obtain m3 gb where m3: "block_split b s m = Some (?r, m3)" "size_field m3 ?r = szf t True gb"
      "heap c (set_size_field ?r (szf t True False) m3) ?B {?r}" "keeps ?B m (set_size_field ?r (szf t True False) m3)"
      by (rule split_ok [OF hp b [unfolded sz] _ sa t]) auto
    have g': "geometry c ?B" using heap_geometry [OF m3(3)] .
    have fresh: "B ?r = None" "?r \<noteq> b" using split_fresh [OF g b [unfolded sz] t(3)] .
    have b': "?B b = Some (s, False)" and r': "?B ?r = Some (t, True)" using fresh(2) by (simp_all add: split_at_def)
    have "s \<noteq> 0" using sa by auto
    then have np: "\<not> pfree ?B ?r" using pfree_nxt [OF g' b'] by simp
    have set: "block_set_prev_used ?r m3 = set_size_field ?r (szf t True False) m3" by (rule status_setters(4) [OF m3(2) t(1)])
    obtain B1 t1 m4 where m4: "block_merge_next c ?r (set_size_field ?r (szf t True False) m3) = Some (?r, m4)" "heap c m4 B1 {?r}" "B1 ?r = Some (t1, True)"
      "\<not> pfree B1 ?r" "nxt ?r t1 \<notin> frees B1" "keeps ?B (set_size_field ?r (szf t True False) m3) m4" "used B1 = used ?B"
      by (rule merge_next_ok [OF m3(3) r' np])
    obtain m5 where m5: "block_insert c ?r m4 = Some m5" "heap c m5 B1 {}" "keeps B1 m4 m5" by (rule insert_last_ok [OF m4(2-5)])
    have "block_trim_used c b s m = Some m5"
      unfolding block_trim_used_def using can True hb(2) m3(1) set m4(1) m5(1) by simp
    moreover have "used ?B = insert (b, s) (used B - {(b, sz)})"
      using b b' r' fresh unfolding used_def split_at_def by (auto split: if_splits)
    then have "used B1 = insert (b, s) (used B - {(b, sz)})" using m4(7) by simp
    moreover have "keeps B1 m m5" using keeps_used [OF _ m3(4), of B1] keeps_used [OF _ m4(6), of B1] m5(3) m4(7) by (metis keeps_trans order_refl)
    ultimately show thesis using that [of m5 B1 s] m5(2) s(2) by simp
  qed
qed

section \<open>Taking in the free block behind\<close>

lemma pfree_join_used:
  assumes g: "geometry c B" and b: "B b = Some (s, False)" "s \<noteq> 0" and r: "B (nxt b s) = Some (t, True)" and x: "x \<noteq> nxt b s"
  shows "pfree (join_at B b s False t) x \<longleftrightarrow> x \<noteq> nxt b (s + (t + 8)) \<and> pfree B x"
proof -
  have tz: "t \<noteq> 0" using geometryD(5) [OF g r] by auto
  have e: "nxt (nxt b s) t = nxt b (s + (t + 8))" using territory_join(4) [OF merged_size(1) [OF g b r]] .
  have "join_at B b s False t p = Some (sp, True) \<and> nxt p sp = x \<longleftrightarrow> x \<noteq> nxt b (s + (t + 8)) \<and> B p = Some (sp, True) \<and> nxt p sp = x" for p sp
  proof (cases "p = b \<or> p = nxt b s")
    case True
    then show ?thesis using b r e by (auto simp: join_at_def)
  next
    case False
    have "nxt p sp \<noteq> nxt b (s + (t + 8))" if p: "B p = Some (sp, True)"
      using prev_unique [OF g p r] geometryD(5) [OF g p] tz False unfolding e by auto
    then show ?thesis using False by (auto simp: join_at_def)
  qed
  then show ?thesis unfolding pfree_def by blast
qed

text \<open>
  The block map after a used block has taken in the free one behind it, which was the only exempt block: the
  lists and the absence of free neighbours carry over, with no exempt block left.
\<close>
lemma join_used_map:
  assumes g: "geometry c B" and b: "B b = Some (s, False)" "s \<noteq> 0"
  shows "listed B {nxt b s} L \<Longrightarrow> listed (join_at B b s False t) {} L"
    "coalesced B {nxt b s} \<Longrightarrow> coalesced (join_at B b s False t) {}"
proof -
  let ?B = "join_at B b s False t"
  have b': "?B b = Some (s + (t + 8), False)" by (simp add: join_at_def)
  have fr: "frees ?B = frees B - {nxt b s}"
    using b(1) nxt_neq [OF g b(1)] unfolding frees_def join_at_def by (auto split: if_splits)
  show "listed ?B {} L" if li: "listed B {nxt b s} L"
  proof (rule listed_cong [OF li])
    show "frees ?B - {} = frees B - {nxt b s}" unfolding fr by blast
    fix x assume "x \<in> frees B - {nxt b s}"
    then have "x \<noteq> b" "x \<noteq> nxt b s" using b(1) by (auto simp: frees_def)
    then show "class_of ?B x = class_of B x" by (simp add: class_of_def join_at_def)
  qed
  show "coalesced ?B {}" if co: "coalesced B {nxt b s}" unfolding coalesced_def
  proof (intro allI impI)
    fix x sx assume x: "?B x = Some (sx, True)"
    then have x': "x \<noteq> b" "x \<noteq> nxt b s" "B x = Some (sx, True)" using b' nxt_neq [OF g b(1)] by (auto simp: join_at_def split: if_splits)
    have "sx \<noteq> 0" using geometryD(5) [OF g x'(3)] by auto
    then have "nxt x sx \<noteq> nxt b s" using prev_unique [OF g x'(3) b(1)] b(2) x'(1) by blast
    then show "nxt x sx \<notin> frees ?B" using co x' unfolding coalesced_def fr by blast
  qed
qed

lemma absorb_used_ok:
  assumes hp: "heap c m B {nxt b s}" and b: "B b = Some (s, False)" "s \<noteq> 0" and r: "B (nxt b s) = Some (t, True)"
  obtains m1 m' where "block_absorb b (nxt b s) m = Some (b, m1)" "block_mark_as_used b m1 = Some m'"
    "heap c m' (join_at B b s False t) {}" "keeps B m m'"
proof -
  obtain L where g: "geometry c B" and co: "coalesced B {nxt b s}" and L: "lists_ok c m L" and li: "listed B {nxt b s} L"
    using hp by (auto simp: heap_def)
  let ?B = "join_at B b s False t" let ?s = "s + (t + 8)" let ?n = "nxt b (s + (t + 8))"
  note db = geometryD [OF g b(1)] note dr = geometryD [OF g r] note hb = heap_block [OF hp b(1)] note hr = heap_block [OF hp r]
  have tz: "t \<noteq> 0" using dr(5) by auto
  note ms = merged_size [OF g b r]
  have g': "geometry c ?B" using geometry_join [OF g b r tz] .
  have b': "?B b = Some (?s, False)" by (simp add: join_at_def)
  have nz': "?s \<noteq> 0" using ms(2) by auto
  have e: "?n = nxt (nxt b s) t" using territory_join(4) [OF ms(1)] by simp
  have al: "aligned8 (t + 8)" "aligned8 ?s" using db(3) dr(3) by (intro aligned_add; simp add: aligned_def)+
  obtain sn fn where n: "B ?n = Some (sn, fn)" using dr(9) [OF tz] e by auto
  note hn = heap_block [OF hp n]
  have ne: "?n \<noteq> b" "?n \<noteq> nxt b s" using nxt_neq [OF g' b'] nxt_neq [OF g r] e by auto
  have n': "?B ?n = Some (sn, fn)" using n ne by (simp add: join_at_def)
  have pn: "pfree B ?n" using pfree_nxt [OF g r tz] e by simp
  define m1 where "m1 = set_size_field b (szf ?s False (pfree B b)) m"
  define m2 where "m2 = set_prev_phys_block ?n b m1"
  define m3 where "m3 = set_size_field ?n (szf sn fn False) m2"
  define m4 where "m4 = set_size_field b (szf ?s False (pfree B b)) m3"
  note V = header_views [OF g' b'] header_views [OF g' n']
  have sfb: "size_field m1 b = szf ?s False (pfree B b)" by (simp add: m1_def)
  have "block_size m1 b = ?s" using status_of_szf(1) [OF sfb al(2)] .
  from next_block [OF this nz'] have run1: "block_absorb b (nxt b s) m = Some (b, m2)"
    unfolding block_absorb_def hb(4) block_link_next_def m2_def m1_def hb(6) hr(1)
    using b(2) by (simp add: szf_absorb [OF db(3) al(1)] block_header_overhead_def)
  have sf2: "size_field m2 b = szf ?s False (pfree B b)" "size_field m2 ?n = szf sn fn True"
    unfolding m2_def m1_def using V(1,3) [OF b'] V(1,3) [OF n'] nz' hn(6) pn ne(1) by simp_all
  have "block_size m2 b = ?s" using status_of_szf(1) [OF sf2(1) al(2)] .
  moreover have "block_set_prev_used ?n m2 = m3" unfolding m3_def by (rule status_setters(4) [OF sf2(2) geometryD(3) [OF g n]])
  moreover have sf3: "size_field m3 b = szf ?s False (pfree B b)" unfolding m3_def V(5) [OF b'] using sf2(1) ne(1) by simp
  have "block_set_used b m3 = m4" unfolding m4_def by (rule status_setters(2) [OF sf3 al(2)])
  ultimately have run2: "block_mark_as_used b m2 = Some m4"
    unfolding block_mark_as_used_def using next_block [of m2 b ?s] nz' by simp
  have hd: "headers m4 ?B" unfolding headers_def
  proof (intro allI impI)
    fix x sx fx assume x: "?B x = Some (sx, fx)"
    have xr: "x \<noteq> nxt b s" using x nxt_neq [OF g b(1)] by (auto simp: join_at_def)
    have sf: "size_field m4 x = (if x = b then szf ?s False (pfree B b) else if x = ?n then szf sn fn False else size_field m x)"
      unfolding m4_def m3_def m2_def m1_def V(1) [OF x] V(5) [OF x] V(3) [OF x nz'] by simp
    have pp: "prev_phys_block m4 (nxt x sx) = prev_phys_block m (nxt x sx)" if "sx \<noteq> 0" "x \<noteq> b"
      unfolding m4_def m3_def m2_def m1_def V(2) [OF x that(1)] V(6) [OF x that(1)] V(4) [OF x nz' that(1)] using that(2) by simp
    note pf = pfree_join_used [OF g b r xr]
    show "size_field m4 x = szf sx fx (pfree ?B x) \<and> (fx \<longrightarrow> prev_phys_block m4 (nxt x sx) = x)"
    proof (cases "x = b")
      case True
      then show ?thesis using sf pf x b' ne by auto
    next
      case False
      with x xr have x': "B x = Some (sx, fx)" by (auto simp: join_at_def split: if_splits)
      moreover have "fx \<Longrightarrow> sx \<noteq> 0" using geometryD(5) [OF g x'] by blast
      ultimately show ?thesis using sf pp pf False heap_block(5,6) [OF hp x'] n by auto
    qed
  qed
  have N: "nodes L \<subseteq> frees B" using listed_nodes [OF g li] by blast
  have W: "lists_ok c (set_size_field b v M) L" "lists_ok c (set_size_field ?n v M) L" "lists_ok c (set_prev_phys_block ?n v M) L" if "lists_ok c M L" for v M
    using header_write_lists(1) [OF g that N b(1)] header_write_lists(1) [OF g that N n] header_write_lists(2) [OF g that N r tz] e by simp_all
  have "lists_ok c m4 L" unfolding m4_def m3_def m2_def m1_def using L by (simp add: W)
  then have hp4: "heap c m4 ?B {}" using g' hd join_used_map(1) [OF g b li] join_used_map(2) [OF g b co] unfolding heap_def by blast
  have k: "keeps B M (set_size_field b v M)" "keeps B M (set_size_field ?n v M)" "keeps B M (set_prev_phys_block ?n v M)" for v M
    using keeps_size_write(1) [OF g b(1)] keeps_size_write(1) [OF g n] keeps_size_write(2) [OF g r] e by simp_all
  have "keeps B m m4" unfolding m4_def m3_def m2_def m1_def by (intro keeps_trans [OF k(1) keeps_trans [OF k(3) keeps_trans [OF k(2) k(1)]]])
  then show thesis using that run1 run2 hp4 by blast
qed

lemma grow_ok:
  assumes hp: "heap c m B {}" and b: "B b = Some (s, False)" "s \<noteq> 0" and r: "B (nxt b s) = Some (t, True)"
  obtains m1 m' where "block_merge_next c b m = Some (b, m1)" "block_mark_as_used b m1 = Some m'"
    "heap c m' (join_at B b s False t) {}" "keeps B m m'" "used (join_at B b s False t) = insert (b, s + (t + 8)) (used B - {(b, s)})"
proof -
  have g: "geometry c B" using heap_geometry [OF hp] .
  note hb = heap_block [OF hp b(1)]
  have rz: "nxt b s \<noteq> 0" using geometryD(1) [OF g r] .
  obtain m0 where m0: "block_remove c (nxt b s) m = Some m0" "heap c m0 B {nxt b s}" "keeps B m m0"
    using block_remove_ok [OF hp r] by auto
  obtain m1 m' where m1: "block_absorb b (nxt b s) m0 = Some (b, m1)" "block_mark_as_used b m1 = Some m'"
    "heap c m' (join_at B b s False t) {}" "keeps B m0 m'" by (rule absorb_used_ok [OF m0(2) b r])
  have "block_merge_next c b m = Some (b, m1)"
    unfolding block_merge_next_def next_block [OF hb(1) b(2)] using hb(4) b(2) heap_block(2) [OF hp r] rz m0(1) m1(1) by simp
  moreover have "used (join_at B b s False t) = insert (b, s + (t + 8)) (used B - {(b, s)})"
    using b r nxt_neq [OF g b(1)] unfolding used_def join_at_def by (auto split: if_splits)
  ultimately show thesis using that m1(2,3) keeps_trans [OF m0(3) m1(4)] by blast
qed

section \<open>Moving to a new block\<close>

lemma memcpy_disjoint:
  assumes "region p (unat k) \<inter> region q (unat k) = {}"
  shows "fst (memcpy m p q k) = copy_mem m p q (unat k)"
proof -
  have "\<not> (0 < unat (p - q) \<and> unat (p - q) < unat k)"
  proof
    assume "0 < unat (p - q) \<and> unat (p - q) < unat k"
    then have "p \<in> region q (unat k)" "p \<in> region p (unat k)" by (auto simp: in_region_iff)
    then show False using assms by blast
  qed
  then show ?thesis by (simp add: memcpy_def memcpy_loop_forward)
qed

text \<open>
  What resizing the block \<open>b\<close> of \<open>s\<close> bytes achieves: the block \<open>b'\<close> of \<open>s'\<close> bytes takes its place, the first bytes are those of the old
  block, and no other block in use changes.
\<close>

definition resized :: "u64 \<Rightarrow> mem \<Rightarrow> blockmap \<Rightarrow> u64 \<Rightarrow> u64 \<Rightarrow> u64 \<Rightarrow> u64 \<Rightarrow> u64 \<Rightarrow> blockmap \<Rightarrow> mem \<Rightarrow> bool" where
  "resized c m B b s sz b' s' B' m' \<longleftrightarrow>
    heap c m' B' {} \<and> used B' = insert (b', s') (used B - {(b, s)}) \<and> b' \<notin> fst ` (used B - {(b, s)}) \<and> unat sz \<le> unat s' \<and>
    (\<forall>i < min (unat s) (unat sz). m' (block_to_ptr b' + of_nat i) = m (block_to_ptr b + of_nat i)) \<and>
    (\<forall>x sx. B x = Some (sx, False) \<longrightarrow> x \<noteq> b \<longrightarrow> (\<forall>z \<in> region (x + 16) (unat sx). m' z = m z))"

lemma u64_region_offset: "i < unat (n :: u64) \<Longrightarrow> p + of_nat i \<in> region p (unat n)"
  by (rule region_offset) (simp_all add: less_imp_le)

lemma ptr_offset: "i < unat (n :: u64) \<Longrightarrow> block_to_ptr b + of_nat i \<in> region (b + 16) (unat n)"
  using u64_region_offset [of i n "b + 16"] by (simp add: block_to_ptr_def block_start_offset_def)

text \<open>In place: the block keeps its start.\<close>

lemma resize_in_place:
  assumes hp: "heap c m B {}" and b: "B b = Some (s, False)" and grown: "heap c m1 B1 {}" "keeps B m m1" "B1 b = Some (s1, False)"
    "used B1 = insert (b, s1) (used B - {(b, s)})" and a: "proper a" "unat a \<le> unat s1" "unat sz \<le> unat a"
  obtains s' B' m' where "block_trim_used c b a m1 = Some m'" "resized c m B b s sz b s' B' m'"
proof -
  obtain B' s' m' where t: "block_trim_used c b a m1 = Some m'" "heap c m' B' {}" "used B' = insert (b, s') (used B1 - {(b, s1)})"
    "unat a \<le> unat s'" "keeps B' m1 m'" by (rule trim_used_ok [OF grown(1,3) a(1,2)])
  have new: "b \<notin> fst ` (used B - {(b, s)})" using b by (auto simp: used_def)
  then have u: "used B' = insert (b, s') (used B - {(b, s)})" using t(3) grown(4) by force
  have b': "B' b = Some (s', False)" using u by (auto simp: used_def)
  have "m' (block_to_ptr b + of_nat i) = m (block_to_ptr b + of_nat i)" if "i < min (unat s) (unat sz)" for i
  proof -
    have "block_to_ptr b + of_nat i \<in> region (b + 16) (unat s)" "block_to_ptr b + of_nat i \<in> region (b + 16) (unat s')"
      using that a(3) t(4) by (auto intro!: ptr_offset)
    then show ?thesis using grown(2) t(5) b b' by (simp add: keeps_def)
  qed
  moreover have "m' z = m z" if x: "B x = Some (sx, False)" "x \<noteq> b" "z \<in> region (x + 16) (unat sx)" for x sx z
  proof -
    have "(x, sx) \<in> used B'" using u x(1,2) by (auto simp: used_def)
    then show ?thesis using grown(2) t(5) x by (simp add: keeps_def used_def)
  qed
  ultimately have "resized c m B b s sz b s' B' m'" unfolding resized_def using t(2,4) u new a(3) by auto
  then show thesis using that t(1) by blast
qed

text \<open>Elsewhere: a new block, a copy, and the release of the old one.\<close>

lemma resize_by_copy:
  assumes hp: "heap c m B {}" and b: "B b = Some (s, False)" "s \<noteq> 0"
    and new: "heap c m1 B1 {}" "B1 p = Some (s1, False)" "used B1 = insert (p, s1) (used B)" "p \<notin> fst ` used B" "keeps B m m1" "unat sz \<le> unat s1"
  obtains B' m' where "tlsf_free c (block_to_ptr b) (fst (memcpy m1 (block_to_ptr p) (block_to_ptr b) (if s < sz then s else sz))) = Some m'"
    "resized c m B b s sz p s1 B' m'"
proof -
  define k where "k = (if s < sz then s else sz)"
  have k: "unat k = min (unat s) (unat sz)" by (auto simp: k_def word_less_nat_alt)
  have g1: "geometry c B1" using heap_geometry [OF new(1)] .
  have b1: "B1 b = Some (s, False)" using b(1) new(3) by (auto simp: used_def)
  have pb: "p \<noteq> b" using new(4) b(1) by (force simp: used_def)
  have in_block: "region (block_to_ptr x) (unat n) \<subseteq> territory x sx" if "B1 x = Some (sx, False)" "unat n \<le> unat sx" for x n sx
    using territory_parts(4) [OF geometryD(7) [OF g1 that(1)], of x] region_mono [OF that(2), of "x + 16"]
    by (auto simp: block_to_ptr_def block_start_offset_def)
  have dis: "region (block_to_ptr p) (unat k) \<inter> region (block_to_ptr b) (unat k) = {}"
  proof -
    have "unat k \<le> unat s1" "unat k \<le> unat s" using k new(6) by auto
    then show ?thesis using in_block [OF new(2), of k] in_block [OF b1, of k] geometry_apart [OF g1 new(2) b1 pb] by blast
  qed
  define m2 where "m2 = fst (memcpy m1 (block_to_ptr p) (block_to_ptr b) k)"
  have m2: "m2 = copy_mem m1 (block_to_ptr p) (block_to_ptr b) (unat k)" unfolding m2_def by (rule memcpy_disjoint [OF dis])
  have ch: "x \<in> region (block_to_ptr p) (unat s1)" if "m2 x \<noteq> m1 x" for x
  proof -
    have "unat k \<le> unat s1" using k new(6) by auto
    then show ?thesis using that region_mono [of "unat k" "unat s1" "block_to_ptr p"] by (auto simp: m2 copy_mem_def split: if_splits)
  qed
  have hp2: "heap c m2 B1 {}" by (rule payload_change [OF new(1,2) ch])
  obtain B' m' where f: "tlsf_free c (block_to_ptr b) m2 = Some m'" "heap c m' B' {}" "used B' = used B1 - {(b, s)}" "keeps B' m2 m'"
    by (rule free_ok [OF hp2 b1 b(2)])
  have u: "used B' = insert (p, s1) (used B - {(b, s)})" using f(3) new(3) pb by auto
  have other: "m' z = m z" if x: "B x = Some (sx, False)" "x \<noteq> b" "z \<in> region (x + 16) (unat sx)" for x sx z
  proof -
    have x1: "B1 x = Some (sx, False)" and xp: "x \<noteq> p" using x(1) new(3,4) by (force simp: used_def)+
    have "(x, sx) \<in> used B'" using u x(1,2) by (auto simp: used_def)
    then have "m' z = m2 z" using f(4) x(3) by (simp add: keeps_def used_def)
    moreover have "m2 z = m1 z"
    proof (rule ccontr)
      assume "m2 z \<noteq> m1 z"
      then have "z \<in> territory p s1" using ch [of z] in_block [OF new(2), of s1] by auto
      then show False using geometry_apart [OF g1 new(2) x1 xp [symmetric]] territory_parts(4) [OF geometryD(7) [OF g1 x1], of x] x(3) by blast
    qed
    moreover have "m1 z = m z" using new(5) x(1,3) by (simp add: keeps_def)
    ultimately show ?thesis by simp
  qed
  have "m' (block_to_ptr p + of_nat i) = m (block_to_ptr b + of_nat i)" if i: "i < min (unat s) (unat sz)" for i
  proof -
    have "block_to_ptr p + of_nat i \<in> region (p + 16) (unat s1)" "block_to_ptr b + of_nat i \<in> region (b + 16) (unat s)"
      using i new(6) by (auto intro!: ptr_offset)
    moreover have "B' p = Some (s1, False)" using u by (auto simp: used_def)
    moreover have "block_to_ptr p + of_nat i \<in> region (block_to_ptr p) (unat k)" using i k by (intro u64_region_offset) simp
    ultimately show ?thesis using f(4) new(5) b(1) by (simp add: keeps_def m2 copy_mem_def)
  qed
  then have "resized c m B b s sz p s1 B' m'" unfolding resized_def using f(2) u new(4,6) other by auto
  then show thesis using that f(1) unfolding m2_def k_def by blast
qed

section \<open>Resizing\<close>

lemma realloc_ok:
  assumes hp: "heap c m B {}" and b: "B b = Some (s, False)" "s \<noteq> 0"
    and sz: "sz \<noteq> 0" "unat sz + 7 < 2 ^ 64" and a: "adjust_request_size sz ALIGN_SIZE = Some a" "proper a" "unat sz \<le> unat a"
  obtains (fail) "tlsf_realloc c (block_to_ptr b) sz m = Some (0, m)"
    | (ok) b' s' B' m' where "tlsf_realloc c (block_to_ptr b) sz m = Some (block_to_ptr b', m')" "resized c m B b s sz b' s' B' m'"
proof -
  have g: "geometry c B" using heap_geometry [OF hp] .
  note hb = heap_block [OF hp b(1)]
  obtain t fr where r: "B (nxt b s) = Some (t, fr)" using geometryD(9) [OF g b] by blast
  note hr = heap_block [OF hp r] note ms = merged_size [OF g b r]
  have from_ptr: "block_from_ptr (block_to_ptr b) = b" by (simp add: block_from_ptr_def block_to_ptr_def)
  have nz: "block_to_ptr b \<noteq> 0" using payload_ptr [OF g b(1)] .
  have comb: "s + t + 8 = s + (t + 8)" by simp
  have run: "tlsf_realloc c (block_to_ptr b) sz m =
      (if s < a \<and> (\<not> fr \<or> s + (t + 8) < a) then
         do { (p, m1) \<leftarrow> tlsf_malloc c sz m;
              if p \<noteq> 0 then do { m2 \<leftarrow> tlsf_free c (block_to_ptr b) (fst (memcpy m1 p (block_to_ptr b) (if s < sz then s else sz))); Some (p, m2) }
              else Some (p, m1) }
       else do { m1 \<leftarrow> (if s < a then do { (_, m') \<leftarrow> block_merge_next c b m; block_mark_as_used b m' } else Some m);
                 m2 \<leftarrow> block_trim_used c b a m1; Some (block_to_ptr b, m2) })"
    unfolding tlsf_realloc_def from_ptr Let_def next_block [OF hb(1) b(2)] hb(1) a(1)
    using nz sz(1) hr(1,2) hb(2) comb by (simp add: block_header_overhead_def add.assoc)
  show thesis
  proof (cases "s < a \<and> (\<not> fr \<or> s + (t + 8) < a)")
    case True
    from hp sz(2) show thesis
    proof (cases rule: malloc_ok)
      case none
      then show thesis using fail run True by simp
    next
      case (some p s1 B1 m1)
      obtain B' m' where "tlsf_free c (block_to_ptr b) (fst (memcpy m1 (block_to_ptr p) (block_to_ptr b) (if s < sz then s else sz))) = Some m'"
        "resized c m B b s sz p s1 B' m'" by (rule resize_by_copy [OF hp b some(2,3,6,7,8,5)])
      then show thesis using ok run True some(1) payload_ptr [OF heap_geometry [OF some(2)] some(3)] by simp
    qed
  next
    case False
    show thesis
    proof (cases "s < a")
      case True
      with False r have r': "B (nxt b s) = Some (t, True)" and le: "unat a \<le> unat (s + (t + 8))" by (auto simp: word_le_nat_alt not_less)
      obtain m0 m1 where m1: "block_merge_next c b m = Some (b, m0)" "block_mark_as_used b m0 = Some m1"
        "heap c m1 (join_at B b s False t) {}" "keeps B m m1" "used (join_at B b s False t) = insert (b, s + (t + 8)) (used B - {(b, s)})"
        by (rule grow_ok [OF hp b r'])
      have "join_at B b s False t b = Some (s + (t + 8), False)" by (simp add: join_at_def)
      from resize_in_place [OF hp b(1) m1(3,4) this m1(5) a(2) le a(3)] obtain s' B' m' where
        "block_trim_used c b a m1 = Some m'" "resized c m B b s sz b s' B' m'" by blast
      then show thesis using ok run False True m1(1,2) by simp
    next
      case keep: False
      have "used B = insert (b, s) (used B - {(b, s)})" using used_flag [of B b s, OF b(1)] by blast
      moreover have "unat a \<le> unat s" using keep by (simp add: word_less_nat_alt)
      ultimately obtain s' B' m' where "block_trim_used c b a m = Some m'" "resized c m B b s sz b s' B' m'"
        using resize_in_place [OF hp b(1) hp keeps_refl b(1) _ a(2) _ a(3)] by blast
      then show thesis using ok run keep by simp
    qed
  qed
qed

end
