(* ===== verification/TlsfSafety.thy ===== *)
theory TlsfSafety
  imports TlsfRealloc
begin

text \<open>
  The heap as its clients see it: from a pool created by \<open>tlsf_create_with_pool\<close>, through any sequence
  of \<open>tlsf_malloc\<close>, \<open>tlsf_realloc\<close> and \<open>tlsf_free\<close> of a live allocation and writes of clients to their own
  allocations (\<open>mm/heapalloc/tlsf.c\<close>).
\<close>

section \<open>Runs\<close>

text \<open>
  A run of the heap at \<open>c\<close>: the state is the memory and the set of live allocations. Clients
  allocate, resize and release what they hold, and write to the bytes they asked for; memory beyond the span of the
  heap may change in any way.
\<close>

inductive heap_run :: "u64 \<Rightarrow> mem \<Rightarrow> (u64 \<times> u64) set \<Rightarrow> bool" for c where
  created: "aligned8 c \<Longrightarrow> c \<noteq> 0 \<Longrightarrow> 6576 \<le> unat bytes \<Longrightarrow> unat bytes \<le> 2 ^ 32 \<Longrightarrow> unat c + unat bytes < 2 ^ 64 \<Longrightarrow>
    tlsf_create_with_pool c bytes m = Some (c, m') \<Longrightarrow> heap_run c m' {}"
| malloc: "heap_run c m A \<Longrightarrow> unat sz + 7 < 2 ^ 64 \<Longrightarrow> tlsf_malloc c sz m = Some (p, m') \<Longrightarrow>
    heap_run c m' (if p = 0 then A else insert (p, sz) A)"
| free: "heap_run c m A \<Longrightarrow> (p, n) \<in> A \<Longrightarrow> tlsf_free c p m = Some m' \<Longrightarrow> heap_run c m' (A - {(p, n)})"
| realloc: "heap_run c m A \<Longrightarrow> (p, n) \<in> A \<Longrightarrow> sz \<noteq> 0 \<Longrightarrow> unat sz \<le> 2 ^ 32 - 8 \<Longrightarrow> tlsf_realloc c p sz m = Some (q, m') \<Longrightarrow>
    heap_run c m' (if q = 0 then A else insert (q, sz) (A - {(p, n)}))"
| free_null: "heap_run c m A \<Longrightarrow> tlsf_free c 0 m = Some m' \<Longrightarrow> heap_run c m' A"
| store: "heap_run c m A \<Longrightarrow> (p, n) \<in> A \<Longrightarrow> x \<in> region p (unat n) \<Longrightarrow> heap_run c (m(x := v)) A"
| outside: "heap_run c m A \<Longrightarrow> x \<notin> span c \<Longrightarrow> heap_run c (m(x := v)) A"

lemma realloc_request:
  assumes "sz \<noteq> 0" "unat sz \<le> 2 ^ 32 - 8"
  obtains a where "adjust_request_size sz ALIGN_SIZE = Some a" "proper a" "unat sz \<le> unat a" "unat sz + 7 < 2 ^ 64"
proof -
  have f: "unat sz + 7 < 2 ^ 64" using assms(2) by simp
  from f show thesis
  proof (cases rule: adjust_cases)
    case zero
    then show thesis using assms by simp
  next
    case (size a)
    then show thesis using that f by blast
  qed
qed

text \<open>Resizing the block of a live allocation gives it its new size and leaves the others alone.\<close>

lemma holds_resized:
  assumes h: "holds B A" and p: "(block_to_ptr b, n) \<in> A" "B b = Some (s, False)" and r: "resized c m B b s sz b' s' B' m'" "sz \<noteq> 0"
  shows "holds B' (insert (block_to_ptr b', sz) (A - {(block_to_ptr b, n)}))"
proof -
  let ?B = "B(b := None)"
  have u: "used ?B = used B - {(b, s)}" using p(2) by (auto simp: used_def split: if_splits)
  have "holds ?B (A - {(block_to_ptr b, n)})" by (rule holds_free [OF h p u])
  moreover have "used B' = insert (b', s') (used ?B)" "b' \<notin> fst ` used ?B" "unat sz \<le> unat s'"
    using r(1) unfolding resized_def u by simp_all
  moreover have "s' \<noteq> 0" using calculation(4) r(2) by (auto simp: unat_eq_0)
  ultimately show ?thesis using holds_malloc by blast
qed

lemma run_heap:
  assumes "heap_run c m A"
  shows "\<exists>B. heap c m B {} \<and> holds B A"
  using assms
proof induction
  case (created bytes m m')
  then show ?case using create_ok [OF created(1-5), of m] by (metis Pair_inject empty_iff holdsI option.inject)
next
  case (malloc m A sz p m')
  then obtain B where B: "heap c m B {}" "holds B A" by blast
  from B(1) malloc(2) show ?case
  proof (cases rule: malloc_ok)
    case none
    with malloc B show ?thesis by auto
  next
    case (some b s B' m'')
    then have "p = block_to_ptr b" "m' = m''" using malloc(3) by auto
    moreover have "block_to_ptr b \<noteq> 0" using payload_ptr [OF heap_geometry [OF some(2)] some(3)] .
    ultimately show ?thesis using some holds_malloc [OF B(2) some(6,7,4,5)] by auto
  qed
next
  case (free m A p n m')
  then obtain B where B: "heap c m B {}" "holds B A" by blast
  obtain b s where b: "p = block_to_ptr b" "B b = Some (s, False)" "s \<noteq> 0" by (rule holdsD [OF B(2) free(2)])
  obtain B' m'' where "tlsf_free c (block_to_ptr b) m = Some m''" "heap c m'' B' {}" "used B' = used B - {(b, s)}"
    by (rule free_ok [OF B(1) b(2,3)])
  then show ?case using holds_free [OF B(2) _ b(2)] free(2,3) b(1) by auto
next
  case (realloc m A p n sz q m')
  then obtain B where B: "heap c m B {}" "holds B A" by blast
  obtain b s where b: "p = block_to_ptr b" "B b = Some (s, False)" "s \<noteq> 0" by (rule holdsD [OF B(2) realloc(2)])
  obtain a where a: "adjust_request_size sz ALIGN_SIZE = Some a" "proper a" "unat sz \<le> unat a" "unat sz + 7 < 2 ^ 64"
    by (rule realloc_request [OF realloc(3,4)])
  from B(1) b(2,3) realloc(3) a(4,1,2,3) show ?case
  proof (cases rule: realloc_ok)
    case fail
    then show ?thesis using realloc(5) b(1) B by auto
  next
    case (ok b' s' B' m'')
    then have "q = block_to_ptr b'" "m' = m''" "heap c m' B' {}" using realloc(5) b(1) by (auto simp: resized_def)
    moreover have "(b', s') \<in> used B'" using ok(2) by (simp add: resized_def)
    then have "B' b' = Some (s', False)" by (simp add: used_def)
    then have "block_to_ptr b' \<noteq> 0" using payload_ptr [OF heap_geometry] calculation(3) by blast
    ultimately show ?thesis using holds_resized [OF B(2) _ b(2) ok(2) realloc(3), of n] realloc(2) b(1) by auto
  qed
next
  case (free_null m A m')
  then show ?case by (simp add: tlsf_free_def)
next
  case (store m A p n x v)
  then obtain B where B: "heap c m B {}" "holds B A" by blast
  obtain b s where b: "p = block_to_ptr b" "B b = Some (s, False)" "unat n \<le> unat s" by (rule holdsD [OF B(2) store(2)])
  have "x \<in> region (block_to_ptr b) (unat s)" using store(3) b region_mono [OF b(3)] by blast
  then have "heap c (m(x := v)) B {}" by (intro payload_change [OF B(1) b(2)]) (auto split: if_splits)
  then show ?case using B(2) by blast
next
  case (outside m A x v)
  then show ?case using outside_write by blast
qed

section \<open>The consistency check\<close>

lemma single_bit: "(w :: u32) AND push_bit k 1 = 0 \<longleftrightarrow> \<not> bit w k"
proof -
  have b: "bit (w AND push_bit k 1) n \<longleftrightarrow> n = k \<and> bit w k" for n
    using bit_imp_le_length [of w k] by (auto simp: bit_simps)
  show ?thesis
  proof
    assume "w AND push_bit k 1 = 0"
    then show "\<not> bit w k" using b [of k] by (metis bit_0_eq bot_apply bot_bool_def)
  next
    assume "\<not> bit w k"
    then show "w AND push_bit k 1 = 0" by (intro bit_word_eqI) (simp only: b bit_0_eq bot_apply bot_bool_def simp_thms)
  qed
qed

lemma check_list_ok:
  assumes hp: "heap c m B {}" and ch: "chain (next_free m) (prev_free m) c p xs" and c: "c \<notin> set xs"
    and xs: "\<And>b. b \<in> set xs \<Longrightarrow> b \<in> frees B \<and> class_of B b = (i, j)"
  shows "tlsf_check_list m c i j (hd_or c xs) = Some ()"
  using ch c xs
proof (induction xs arbitrary: p)
  case Nil
  then show ?case by (simp add: tlsf_check_list.simps block_null_def)
next
  case (Cons b xs)
  have g: "geometry c B" and co: "coalesced B {}" using hp by (simp_all add: heap_def)
  obtain sz where b: "B b = Some (sz, True)" "sz \<noteq> 0" using freesD [OF g] Cons.prems(3) [of b] by auto
  note hb = heap_block [OF hp b(1)]
  obtain sn fn where n: "B (nxt b sz) = Some (sn, fn)" using geometryD(9) [OF g b] by blast
  note hn = heap_block [OF hp n]
  have nf: "\<not> fn" using co b n frees_I [of B "nxt b sz" sn] by (auto simp: coalesced_def)
  have np: "\<not> pfree B b"
  proof
    assume "pfree B b"
    then obtain q sq where "B q = Some (sq, True)" "nxt q sq = b" by (auto simp: pfree_def)
    then show False using co frees_I [of B b sz] b by (auto simp: coalesced_def)
  qed
  have pn: "pfree B (nxt b sz)" using pfree_nxt [OF g b] by simp
  have mi: "mapping_insert sz = (i, j)" using Cons.prems(3) [of b] b by (simp add: class_of_def)
  have big: "block_size_min \<le> sz" using geometryD(6) [OF g b] by (simp add: tlsf_constants word_le_nat_alt)
  have nx: "next_free m b = hd_or c xs" "chain (next_free m) (prev_free m) c b xs" using Cons.prems(1) by simp_all
  have "tlsf_check_list m c i j (hd_or c xs) = Some ()" using Cons.IH [OF nx(2)] Cons.prems(2,3) by auto
  then show ?case
    using Cons.prems(2) next_block [OF hb(1) b(2)] hb(1,2,3) hn(2,3) nf np pn mi big nx(1)
    by (simp add: tlsf_check_list.simps [of m c i j b] block_null_def)
qed

lemma all_steps_ok: "(\<And>x. x \<in> set xs \<Longrightarrow> f x = Some ()) \<Longrightarrow> all_steps f xs = Some ()"
  by (induction xs) auto

lemma check_ok:
  assumes hp: "heap c m B {}"
  shows "tlsf_check m c = Some 0"
proof -
  obtain L where g: "geometry c B" and L: "lists_ok c m L" and li: "listed B {} L" using hp by (auto simp: heap_def)
  have c: "c \<notin> nodes L" using L by (simp add: lists_ok_def well_placed_def)
  have "tlsf_check_cell m c i j = Some ()" if ij: "idx i j" for i j
  proof -
    have cell: "blocks m c i j = hd_or c (L i j)" "chain (next_free m) (prev_free m) c c (L i j)" "bit (sl_bitmap m c i) (nat j) \<longleftrightarrow> L i j \<noteq> []"
      using L ij by (simp_all add: lists_ok_def cell_ok_def)
    have row: "L i j \<noteq> [] \<Longrightarrow> bit (fl_bitmap m c) (nat i)" using L ij unfolding lists_ok_def row_ok_def idx_def by blast
    have cL: "c \<notin> set (L i j)" using c in_nodes [OF ij] by blast
    have "tlsf_check_list m c i j (hd_or c (L i j)) = Some ()"
      using check_list_ok [OF hp cell(2) cL] li ij by (simp add: listed_def)
    moreover have "L i j \<noteq> [] \<Longrightarrow> hd_or c (L i j) \<noteq> c" using cL by (cases "L i j") auto
    moreover have "L i j \<noteq> [] \<Longrightarrow> sl_bitmap m c i \<noteq> 0" using cell(3) by auto
    ultimately show ?thesis
      unfolding tlsf_check_cell_def Let_def single_bit cell(1,3) block_null_def using row by (cases "L i j = []") auto
  qed
  then have "all_steps (\<lambda>j. tlsf_check_cell m c i j) [0..31] = Some ()" if "0 \<le> i" "i < 25" for i
    using that by (intro all_steps_ok) (auto simp: idx_def)
  then have "all_steps (\<lambda>i. all_steps (\<lambda>j. tlsf_check_cell m c i j) [0..31]) [0..24] = Some ()"
    by (rule all_steps_ok) auto
  then show ?thesis unfolding tlsf_check_def by (simp add: tlsf_constants)
qed

section \<open>Properties\<close>

lemma held_region:
  assumes "heap c m B {}" "holds B A" "(p, n) \<in> A"
  obtains b s where "p = block_to_ptr b" "B b = Some (s, False)" "s \<noteq> 0" "region p (unat n) \<subseteq> region (b + 16) (unat s)"
    "region p (unat n) \<subseteq> territory b s"
proof -
  obtain b s where b: "p = block_to_ptr b" "B b = Some (s, False)" "s \<noteq> 0" "unat n \<le> unat s" by (rule holdsD [OF assms(2,3)])
  have "region p (unat n) \<subseteq> region (b + 16) (unat s)"
    using region_mono [OF b(4)] b(1) by (simp add: block_to_ptr_def block_start_offset_def)
  moreover have "region (b + 16) (unat s) \<subseteq> territory b s"
    using territory_parts(4) [OF geometryD(7) [OF heap_geometry [OF assms(1)] b(2)]] .
  ultimately show thesis using that b(1-3) by blast
qed

lemma keeps_held:
  assumes hp: "heap c m B {}" and h: "holds B A" and k: "keeps B' m m'" and u: "\<And>b s. B b = Some (s, False) \<Longrightarrow> block_to_ptr b \<in> fst ` A \<Longrightarrow> B' b = Some (s, False)"
  shows "\<forall>(q, k) \<in> A. \<forall>x \<in> region q (unat k). m' x = m x"
proof clarify
  fix q k x assume qk: "(q, k) \<in> A" and x: "x \<in> region q (unat k)"
  obtain b s where b: "q = block_to_ptr b" "B b = Some (s, False)" "s \<noteq> 0" "region q (unat k) \<subseteq> region (b + 16) (unat s)"
    by (rule held_region [OF hp h qk])
  have "B' b = Some (s, False)" using u [OF b(2)] qk b(1) by force
  with k b(4) x show "m' x = m x" unfolding keeps_def by blast
qed

lemma run_apart:
  assumes "heap_run c m A" and pn: "(p, n) \<in> A" and pn': "(p', n') \<in> A" and ne: "(p, n) \<noteq> (p', n')"
  shows "region p (unat n) \<inter> region p' (unat n') = {}"
proof -
  obtain B where hp: "heap c m B {}" and h: "holds B A" using run_heap [OF assms(1)] by blast
  obtain b s where b: "p = block_to_ptr b" "B b = Some (s, False)" "region p (unat n) \<subseteq> territory b s"
    by (rule held_region [OF hp h pn])
  obtain b' s' where b': "p' = block_to_ptr b'" "B b' = Some (s', False)" "region p' (unat n') \<subseteq> territory b' s'"
    by (rule held_region [OF hp h pn'])
  have "b \<noteq> b'" using holds_unique [OF h pn] pn' ne b(1) b'(1) by blast
  then show ?thesis using geometry_apart [OF heap_geometry [OF hp] b(2) b'(2)] b(3) b'(3) by blast
qed

lemma run_span:
  assumes "heap_run c m A" "(p, n) \<in> A"
  shows "region p (unat n) \<subseteq> span c"
proof -
  obtain B where hp: "heap c m B {}" and h: "holds B A" using run_heap [OF assms(1)] by blast
  obtain b s where "B b = Some (s, False)" "region p (unat n) \<subseteq> territory b s" by (rule held_region [OF hp h assms(2)])
  then show ?thesis using geometry_pool [OF heap_geometry [OF hp]] by blast
qed

lemma run_unique: "heap_run c m A \<Longrightarrow> (p, n) \<in> A \<Longrightarrow> (p, n') \<in> A \<Longrightarrow> n = n'"
  using run_heap holds_unique by blast

lemma run_malloc:
  assumes run: "heap_run c m A" and sz: "unat sz + 7 < 2 ^ 64"
  obtains p m' where "tlsf_malloc c sz m = Some (p, m')" "p = 0 \<longrightarrow> m' = m" "p \<noteq> 0 \<longrightarrow> sz \<noteq> 0 \<and> p \<notin> fst ` A"
    "\<forall>(q, k) \<in> A. \<forall>x \<in> region q (unat k). m' x = m x"
proof -
  obtain B where hp: "heap c m B {}" and h: "holds B A" using run_heap [OF run] by blast
  from hp sz show thesis
  proof (cases rule: malloc_ok)
    case none
    with that [of 0 m] show thesis by simp
  next
    case (some b s B' m')
    have old: "B' x = Some (sx, False)" if "B x = Some (sx, False)" for x sx using that some(6) by (auto simp: used_def)
    have "\<forall>(q, k) \<in> A. \<forall>x \<in> region q (unat k). m' x = m x" by (rule keeps_held [OF hp h some(8)])
    moreover have "block_to_ptr b \<notin> fst ` A"
    proof
      assume "block_to_ptr b \<in> fst ` A"
      then obtain k where qk: "(block_to_ptr b, k) \<in> A" by force
      obtain x sx where "block_to_ptr b = block_to_ptr x" "B x = Some (sx, False)" by (rule holdsD [OF h qk])
      then show False using some(7) by (force simp: used_def)
    qed
    ultimately show thesis
      by (intro that [OF some(1)]) (use some(9) payload_ptr [OF heap_geometry [OF some(2)] some(3)] in simp_all)
  qed
qed

lemma run_free:
  assumes run: "heap_run c m A" and pn: "(p, n) \<in> A"
  obtains m' where "tlsf_free c p m = Some m'" "\<forall>(q, k) \<in> A - {(p, n)}. \<forall>x \<in> region q (unat k). m' x = m x"
proof -
  obtain B where hp: "heap c m B {}" and h: "holds B A" using run_heap [OF run] by blast
  obtain b s where b: "p = block_to_ptr b" "B b = Some (s, False)" "s \<noteq> 0" by (rule holdsD [OF h pn])
  obtain B' m' where m': "tlsf_free c (block_to_ptr b) m = Some m'" "heap c m' B' {}" "used B' = used B - {(b, s)}" "keeps B' m m'"
    by (rule free_ok [OF hp b(2,3)])
  have h': "holds B (A - {(p, n)})" using h by (auto intro!: holdsI elim: holdsD dest: holds_unique)
  have "\<forall>(q, k) \<in> A - {(p, n)}. \<forall>x \<in> region q (unat k). m' x = m x"
  proof (rule keeps_held [OF hp h' m'(4)])
    fix x sx assume x: "B x = Some (sx, False)" "block_to_ptr x \<in> fst ` (A - {(p, n)})"
    then obtain k where "(block_to_ptr x, k) \<in> A - {(p, n)}" by force
    then have "x \<noteq> b" using holds_unique [OF h pn] b(1) by auto
    then have "(x, sx) \<in> used B'" using x(1) unfolding m'(3) by (simp add: used_def)
    then show "B' x = Some (sx, False)" by (simp add: used_def)
  qed
  then show thesis using that m'(1) b(1) by blast
qed

lemma run_fresh_apart:
  assumes run: "heap_run c m A" and al: "unat sz + 7 < 2 ^ 64" "tlsf_malloc c sz m = Some (p, m')" "p \<noteq> 0" and qk: "(q, k) \<in> A"
  shows "region p (unat sz) \<inter> region q (unat k) = {}"
proof -
  have run': "heap_run c m' (insert (p, sz) A)" using heap_run.malloc [OF run al(1,2)] al(3) by simp
  obtain p2 m2 where "tlsf_malloc c sz m = Some (p2, m2)" "p2 \<noteq> 0 \<longrightarrow> sz \<noteq> 0 \<and> p2 \<notin> fst ` A" by (rule run_malloc [OF run al(1)])
  then have "p \<notin> fst ` A" using al(2,3) by simp
  then have "(p, sz) \<noteq> (q, k)" using qk by force
  then show ?thesis using run_apart [OF run', of p sz q k] qk by simp
qed

lemma run_nonnull: "heap_run c m A \<Longrightarrow> (p, n) \<in> A \<Longrightarrow> p \<noteq> 0"
  using run_heap payload_ptr [OF heap_geometry] by (metis holdsD)

lemma run_realloc:
  assumes run: "heap_run c m A" and pn: "(p, n) \<in> A" and sz: "sz \<noteq> 0" "unat sz \<le> 2 ^ 32 - 8"
  obtains q m' where "tlsf_realloc c p sz m = Some (q, m')" "q = 0 \<longrightarrow> m' = m"
    "q \<noteq> 0 \<longrightarrow> (\<forall>i < min (unat n) (unat sz). m' (q + of_nat i) = m (p + of_nat i)) \<and>
      (\<forall>(r, k) \<in> A - {(p, n)}. region q (unat sz) \<inter> region r (unat k) = {} \<and> (\<forall>x \<in> region r (unat k). m' x = m x))"
proof -
  obtain B where hp: "heap c m B {}" and h: "holds B A" using run_heap [OF run] by blast
  obtain b s where b: "p = block_to_ptr b" "B b = Some (s, False)" "s \<noteq> 0" "unat n \<le> unat s" by (rule holdsD [OF h pn])
  obtain a where a: "adjust_request_size sz ALIGN_SIZE = Some a" "proper a" "unat sz \<le> unat a" "unat sz + 7 < 2 ^ 64"
    by (rule realloc_request [OF sz])
  from hp b(2,3) sz(1) a(4,1,2,3) show thesis
  proof (cases rule: realloc_ok)
    case fail
    then show thesis using that [of 0 m] b(1) by simp
  next
    case (ok b' s' B' m')
    have hp': "heap c m' B' {}" and u: "used B' = insert (b', s') (used B - {(b, s)})" and nb: "b' \<notin> fst ` (used B - {(b, s)})"
      and cp: "\<forall>i < min (unat s) (unat sz). m' (block_to_ptr b' + of_nat i) = m (block_to_ptr b + of_nat i)"
      and kp: "\<forall>x sx. B x = Some (sx, False) \<longrightarrow> x \<noteq> b \<longrightarrow> (\<forall>z \<in> region (x + 16) (unat sx). m' z = m z)"
      using ok(2) unfolding resized_def by blast+
    let ?q = "block_to_ptr b'" and ?A = "A - {(p, n)}"
    have "(b', s') \<in> used B'" using u by simp
    then have "B' b' = Some (s', False)" by (simp add: used_def)
    then have q: "?q \<noteq> 0" by (rule payload_ptr [OF heap_geometry [OF hp']])
    have run': "heap_run c m' (insert (?q, sz) ?A)" using heap_run.realloc [OF run pn sz, of ?q m'] ok(1) b(1) q by simp
    have h': "holds B ?A" using h by (auto intro!: holdsI elim: holdsD dest: holds_unique)
    have "region ?q (unat sz) \<inter> region y (unat k) = {} \<and> (\<forall>x \<in> region y (unat k). m' x = m x)" if yk: "(y, k) \<in> ?A" for y k
    proof -
      obtain x sx where x: "y = block_to_ptr x" "B x = Some (sx, False)" "unat k \<le> unat sx" by (rule holdsD [OF h' yk])
      have xb: "x \<noteq> b" using yk holds_unique [OF h pn] b(1) x(1) by auto
      have sub: "region y (unat k) \<subseteq> region (x + 16) (unat sx)" using region_mono [OF x(3)] x(1) by (simp add: block_to_ptr_def block_start_offset_def)
      have "(x, sx) \<in> used B - {(b, s)}" using x(2) xb by (simp add: used_def)
      then have "b' \<noteq> x" using nb by force
      then have "(?q, sz) \<noteq> (y, k)" using x(1) by simp
      then have "region ?q (unat sz) \<inter> region y (unat k) = {}" using run_apart [OF run', of ?q sz y k] yk by blast
      moreover have "m' z = m z" if "z \<in> region y (unat k)" for z using kp x(2) xb sub that by blast
      ultimately show ?thesis by blast
    qed
    moreover have "\<forall>i < min (unat n) (unat sz). m' (?q + of_nat i) = m (p + of_nat i)" using cp b(1,4) by simp
    ultimately show thesis using that [OF ok(1) [folded b(1)]] q by blast
  qed
qed

text \<open>
  C1. Safety of the heap: in every state a run reaches, from a pool created by
  \<open>tlsf_create_with_pool\<close> through allocations, resizing, releases and writes of clients to their own bytes, the
  live allocations are not null, aligned to 8 bytes, do not pass the end of the address space, lie
  outside the control structure, and do not overlap one another.
\<close>
theorem heap_allocations_safe:
  assumes "heap_run c m A"
  shows "(\<forall>(p, n) \<in> A. p \<noteq> 0 \<and> 8 dvd unat p \<and> unat p + unat n < 2 ^ 64 \<and> region p (unat n) \<inter> region c (unat tlsf_size) = {}) \<and>
    (\<forall>(p, n) \<in> A. \<forall>(p', n') \<in> A. (p, n) \<noteq> (p', n') \<longrightarrow> region p (unat n) \<inter> region p' (unat n') = {})"
proof -
  obtain B where hp: "heap c m B {}" and h: "holds B A" using run_heap [OF assms] by blast
  have g: "geometry c B" using heap_geometry [OF hp] .
  have "p \<noteq> 0 \<and> 8 dvd unat p \<and> unat p + unat n < 2 ^ 64 \<and> region p (unat n) \<inter> region c (unat tlsf_size) = {}"
    if pn: "(p, n) \<in> A" for p n
  proof -
    obtain b s where b: "p = block_to_ptr b" "B b = Some (s, False)" "s \<noteq> 0" "unat n \<le> unat s" by (rule holdsD [OF h pn])
    note d = geometryD [OF g b(2)]
    have "unat p = unat b + 16" using b(1) d(4) by (simp add: block_to_ptr_def block_start_offset_def unat_word_ariths)
    then have "p \<noteq> 0" "8 dvd unat p" "unat p + unat n < 2 ^ 64" using b(4) d(2,4) by (auto simp: aligned_def)
    moreover obtain x sx where "p = block_to_ptr x" "B x = Some (sx, False)" "region p (unat n) \<subseteq> territory x sx"
      by (rule held_region [OF hp h pn])
    then have "region p (unat n) \<inter> region c (unat tlsf_size) = {}" using geometryD(8) [OF g] by (fastforce simp: ctl_def tlsf_size_def)
    ultimately show ?thesis by blast
  qed
  then show ?thesis using run_apart [OF assms] by blast
qed

text \<open>
  C2. No assertion of the allocator fails in a reachable state: an allocation that does not wrap
  returns, either null with the heap unchanged or an allocation apart from all live ones, and the
  release of a live allocation returns; neither changes a byte of the other allocations.
\<close>
theorem heap_operations_complete:
  assumes "heap_run c m A"
  shows "(\<forall>sz. unat sz + 7 < 2 ^ 64 \<longrightarrow> (\<exists>p m'. tlsf_malloc c sz m = Some (p, m') \<and> (p = 0 \<longrightarrow> m' = m) \<and>
      (p \<noteq> 0 \<longrightarrow> sz \<noteq> 0 \<and> (\<forall>(q, k) \<in> A. region p (unat sz) \<inter> region q (unat k) = {})) \<and>
      (\<forall>(q, k) \<in> A. \<forall>x \<in> region q (unat k). m' x = m x))) \<and>
    (\<forall>(p, n) \<in> A. \<exists>m'. tlsf_free c p m = Some m' \<and> (\<forall>(q, k) \<in> A - {(p, n)}. \<forall>x \<in> region q (unat k). m' x = m x))"
proof (intro conjI allI impI)
  fix sz :: u64 assume sz: "unat sz + 7 < 2 ^ 64"
  obtain p m' where m': "tlsf_malloc c sz m = Some (p, m')" "p = 0 \<longrightarrow> m' = m" "p \<noteq> 0 \<longrightarrow> sz \<noteq> 0 \<and> p \<notin> fst ` A"
    "\<forall>(q, k) \<in> A. \<forall>x \<in> region q (unat k). m' x = m x" by (rule run_malloc [OF assms sz])
  then show "\<exists>p m'. tlsf_malloc c sz m = Some (p, m') \<and> (p = 0 \<longrightarrow> m' = m) \<and>
      (p \<noteq> 0 \<longrightarrow> sz \<noteq> 0 \<and> (\<forall>(q, k) \<in> A. region p (unat sz) \<inter> region q (unat k) = {})) \<and>
      (\<forall>(q, k) \<in> A. \<forall>x \<in> region q (unat k). m' x = m x)"
    using run_fresh_apart [OF assms sz m'(1)] by blast
next
  show "\<forall>(p, n) \<in> A. \<exists>m'. tlsf_free c p m = Some m' \<and> (\<forall>(q, k) \<in> A - {(p, n)}. \<forall>x \<in> region q (unat k). m' x = m x)"
    using run_free [OF assms] by blast
qed

text \<open>
  C11. The allocator's own check agrees: in every reachable state \<open>tlsf_check\<close> ends, trips none of its
  assertions and reports 0 errors.
\<close>
theorem heap_check_passes:
  assumes "heap_run c m A"
  shows "tlsf_check m c = Some 0"
  using run_heap [OF assms] check_ok by blast

text \<open>
  C9. Resizing: in every reachable state \<open>tlsf_realloc\<close> of a live allocation to a size from 1 to \<open>2^32 - 8\<close> returns. Either it returns null, and nothing
  has changed, or an allocation of the new size that holds the old contents up to the smaller size and overlaps none of the
  others; these keep their contents. Size 0 releases the allocation, and a null pointer allocates.
\<close>
theorem heap_realloc_correct:
  assumes "heap_run c m A" "(p, n) \<in> A"
  shows "(\<forall>sz. sz \<noteq> 0 \<and> unat sz \<le> 2 ^ 32 - 8 \<longrightarrow> (\<exists>q m'. tlsf_realloc c p sz m = Some (q, m') \<and> (q = 0 \<longrightarrow> m' = m) \<and>
      (q \<noteq> 0 \<longrightarrow> (\<forall>i < min (unat n) (unat sz). m' (q + of_nat i) = m (p + of_nat i)) \<and>
        (\<forall>(r, k) \<in> A - {(p, n)}. region q (unat sz) \<inter> region r (unat k) = {} \<and> (\<forall>x \<in> region r (unat k). m' x = m x))))) \<and>
    tlsf_realloc c p 0 m = map_option (Pair 0) (tlsf_free c p m) \<and> tlsf_realloc c 0 sz m = tlsf_malloc c sz m"
proof (intro conjI allI impI)
  fix sz :: u64 assume sz: "sz \<noteq> 0 \<and> unat sz \<le> 2 ^ 32 - 8"
  show "\<exists>q m'. tlsf_realloc c p sz m = Some (q, m') \<and> (q = 0 \<longrightarrow> m' = m) \<and>
      (q \<noteq> 0 \<longrightarrow> (\<forall>i < min (unat n) (unat sz). m' (q + of_nat i) = m (p + of_nat i)) \<and>
        (\<forall>(r, k) \<in> A - {(p, n)}. region q (unat sz) \<inter> region r (unat k) = {} \<and> (\<forall>x \<in> region r (unat k). m' x = m x)))"
    by (rule run_realloc [OF assms, of sz]) (use sz in blast)+
next
  have "p \<noteq> 0" using run_nonnull [OF assms] .
  then show "tlsf_realloc c p 0 m = map_option (Pair 0) (tlsf_free c p m)"
    by (cases "tlsf_free c p m") (simp_all add: tlsf_realloc_def)
  show "tlsf_realloc c 0 sz m = tlsf_malloc c sz m" by (simp add: tlsf_realloc_def)
qed

text \<open>A sample pool, and what an allocation from its one free block leaves.\<close>

lemma sample_pool: "\<exists>m. heap_run 4096 m {} \<and> heap 4096 m (pool_blocks 4096 58984) {}"
proof -
  have c: "aligned8 4096" "(4096 :: u64) \<noteq> 0" "6576 \<le> unat (65536 :: u64)" "unat (65536 :: u64) \<le> 2 ^ 32" "unat (4096 :: u64) + unat (65536 :: u64) < 2 ^ 64"
    by (simp_all add: aligned_def)
  obtain m where m: "tlsf_create_with_pool 4096 65536 (\<lambda>_. 0) = Some (4096, m)" "heap 4096 m (pool_blocks 4096 ((65536 - 6552) - ((65536 - 6552) AND 7))) {}"
    by (rule create_ok [OF c])
  then show ?thesis using heap_run.created [OF c m(1)] by auto
qed

lemma sample_malloc:
  assumes run: "heap_run 4096 m {}" and hp: "heap 4096 m (pool_blocks 4096 58984) {}" and f: "unat sz + 7 < 2 ^ 64"
    and a: "adjust_request_size sz ALIGN_SIZE = Some a" "a \<noteq> 0" "class_le (mapping_search a) (mapping_insert 58984)" "unat a + 32 \<le> 58984"
  shows "\<exists>m' B. heap_run 4096 m' {(10640, sz)} \<and> heap 4096 m' B {} \<and> B (nxt 10624 a) = Some (58984 - (a + 8), True) \<and>
    (\<forall>b s. B b = Some (s, True) \<longrightarrow> b = nxt 10624 a)"
  using hp f
proof (cases rule: malloc_ok)
  case none
  then show ?thesis using none(2) [OF a(1,2), of 10624 58984] a(3) by (simp add: pool_blocks_def nxt_def)
next
  case (some b s B' m')
  have free: "pool_blocks 4096 58984 x = Some (y, True) \<longleftrightarrow> x = 10624 \<and> y = 58984" for x y by (auto simp: pool_blocks_def nxt_def)
  have b: "b = 10624" and B': "B' = (split_at (pool_blocks 4096 58984) 10624 a True (58984 - (a + 8)))(10624 \<mapsto> (s, False))"
    using some(10) a(1,4) by (auto simp: free)
  have run': "heap_run 4096 m' {(10640, sz)}"
    using heap_run.malloc [OF run f some(1)] by (simp add: b block_to_ptr_def block_start_offset_def)
  have ne: "nxt 10624 a \<noteq> 10624"
  proof
    assume "nxt 10624 a = 10624"
    then have "8 + a = 0" by (simp add: nxt_def)
    then have "unat (8 + a) = 0" by simp
    then show False using a(4) by (simp add: unat_word_ariths)
  qed
  have r: "B' (nxt 10624 a) = Some (58984 - (a + 8), True)" using ne by (simp add: B' split_at_def)
  have "x = nxt 10624 a" if "B' x = Some (y, True)" for x y using that free [of x y] unfolding B' split_at_def by (auto split: if_splits)
  then show ?thesis using run' some(2) r by blast
qed

lemma sample_run: "\<exists>p m. p \<noteq> 0 \<and> heap_run 4096 m {(p, 100)}"
proof -
  obtain m where m: "heap_run 4096 m {}" "heap 4096 m (pool_blocks 4096 58984) {}" using sample_pool by blast
  have "adjust_request_size 100 ALIGN_SIZE = Some 104" "class_le (mapping_search 104) (mapping_insert 58984)" by code_simp+
  then obtain m' where "heap_run 4096 m' {(10640, 100)}" using sample_malloc [OF m, of 100 104] by auto
  then show ?thesis by (intro exI [of _ 10640]) auto
qed

theorem heap_allocations_safe_witness:
  "\<exists>p m. heap_run 4096 m {(p, 100)} \<and> 8 dvd unat p \<and> region p 100 \<inter> region 4096 6536 = {}"
proof -
  obtain p m where r: "heap_run 4096 m {(p, 100)}" using sample_run by blast
  show ?thesis using r heap_allocations_safe [OF r] by (auto simp: tlsf_size_def)
qed

theorem heap_operations_complete_witness:
  "\<exists>p m m'. heap_run 4096 m {(p, 100)} \<and> tlsf_free 4096 p m = Some m'"
proof -
  obtain p m where r: "heap_run 4096 m {(p, 100)}" using sample_run by blast
  show ?thesis using r heap_operations_complete [OF r] by auto
qed

theorem heap_realloc_correct_witness:
  "\<exists>p m q m'. heap_run 4096 m {(p, 100)} \<and> tlsf_realloc 4096 p 200 m = Some (q, m') \<and> (q \<noteq> 0 \<longrightarrow> (\<forall>i < 100. m' (q + of_nat i) = m (p + of_nat i)))"
proof -
  obtain p m where r: "heap_run 4096 m {(p, 100)}" using sample_run by blast
  have "(200 :: u64) \<noteq> 0 \<and> unat (200 :: u64) \<le> 2 ^ 32 - 8" by simp
  with heap_realloc_correct [OF r, of p 100 0] obtain q m' where "tlsf_realloc 4096 p 200 m = Some (q, m')"
    "q \<noteq> 0 \<longrightarrow> (\<forall>i < min (unat (100 :: u64)) (unat (200 :: u64)). m' (q + of_nat i) = m (p + of_nat i))" by blast
  then show ?thesis using r by auto
qed

theorem heap_check_passes_witness: "\<exists>p m. p \<noteq> 0 \<and> heap_run 4096 m {(p, 100)} \<and> tlsf_check m 4096 = Some 0"
proof -
  obtain p m where r: "p \<noteq> 0" "heap_run 4096 m {(p, 100)}" using sample_run by blast
  show ?thesis using r heap_check_passes [OF r(2)] by blast
qed

end
