(* ===== verification/KHeap.thy ===== *)
theory KHeap
  imports Stdlib TlsfSafety
begin

text \<open>
  The heap as the rest of the kernel uses it, through \<open>malloc\<close>, \<open>free\<close> and \<open>calloc\<close> of
  \<open>klibc/stdlib.c\<close>. What a client relies on is a locale; the functions over the TLSF pool are its
  instance.
\<close>

section \<open>What a client relies on\<close>

locale heap_service =
  fixes alloc :: "u64 \<Rightarrow> mem \<Rightarrow> (u64 \<times> mem) option" and release :: "u64 \<Rightarrow> mem \<Rightarrow> mem option"
    and run :: "mem \<Rightarrow> (u64 \<times> u64) set \<Rightarrow> bool" and span :: "u64 set"
  assumes alloc_returns: "run m A \<Longrightarrow> unat n + 7 < 2 ^ 64 \<Longrightarrow> \<exists>p m'. alloc n m = Some (p, m')"
    and alloc_run: "run m A \<Longrightarrow> unat n + 7 < 2 ^ 64 \<Longrightarrow> alloc n m = Some (p, m') \<Longrightarrow> run m' (if p = 0 then A else insert (p, n) A)"
    and alloc_keeps: "run m A \<Longrightarrow> unat n + 7 < 2 ^ 64 \<Longrightarrow> alloc n m = Some (p, m') \<Longrightarrow> (q, k) \<in> A \<Longrightarrow> x \<in> region q (unat k) \<Longrightarrow> m' x = m x"
    and alloc_apart: "run m A \<Longrightarrow> unat n + 7 < 2 ^ 64 \<Longrightarrow> alloc n m = Some (p, m') \<Longrightarrow> p \<noteq> 0 \<Longrightarrow> (q, k) \<in> A \<Longrightarrow>
      region p (unat n) \<inter> region q (unat k) = {}"
    and release_run: "run m A \<Longrightarrow> (p, n) \<in> A \<Longrightarrow> \<exists>m'. release p m = Some m' \<and> run m' (A - {(p, n)}) \<and>
      (\<forall>(q, k) \<in> A - {(p, n)}. \<forall>x \<in> region q (unat k). m' x = m x)"
    and store_run: "run m A \<Longrightarrow> (p, n) \<in> A \<Longrightarrow> x \<in> region p (unat n) \<Longrightarrow> run (m(x := v)) A"
    and outside_run: "run m A \<Longrightarrow> x \<notin> span \<Longrightarrow> run (m(x := v)) A"
begin

text \<open>Clearing an allocation, byte by byte, is a sequence of stores to it.\<close>

lemma zero_loop_run:
  "run m A \<Longrightarrow> (p, tot) \<in> A \<Longrightarrow> run (zero_loop m p i tot) A"
proof (induction m p i tot rule: zero_loop.induct)
  case (1 m p i tot)
  show ?case
  proof (cases "i < tot")
    case True
    then have "p + i \<in> region p (unat tot)" by (simp add: in_region_iff word_less_nat_alt)
    then have "run (m(p + i := 0)) A" using store_run 1 by blast
    then have "run (zero_loop (m(p + i := 0)) p (i + 1) tot) A" using 1(1) [OF True] 1(3) by blast
    with True show ?thesis by (simp add: zero_loop.simps [of m p i tot])
  qed (use 1 in \<open>simp add: zero_loop.simps [of m p i tot]\<close>)
qed

text \<open>Any change of memory inside live allocations and beyond the heap is a sequence of stores.\<close>

lemma rewrite_run:
  assumes run: "run m A" and live: "\<And>x. m' x \<noteq> m x \<Longrightarrow> x \<notin> span \<or> (\<exists>(p, n) \<in> A. x \<in> region p (unat n))"
  shows "run m' A"
proof -
  have "run (\<lambda>x. if x \<in> D then m' x else m x) A" if "finite D" "D \<subseteq> {x. m' x \<noteq> m x}" for D
    using that
  proof induction
    case empty
    then show ?case using run by simp
  next
    case (insert x D)
    then have "x \<notin> span \<or> (\<exists>(p, n) \<in> A. x \<in> region p (unat n))" using live by auto
    moreover have "run (\<lambda>x. if x \<in> D then m' x else m x) A" using insert by auto
    ultimately have "run ((\<lambda>x. if x \<in> D then m' x else m x)(x := m' x)) A" by (auto intro: outside_run store_run)
    moreover have "(\<lambda>x. if x \<in> D then m' x else m x)(x := m' x) = (\<lambda>y. if y \<in> insert x D then m' y else m y)" by auto
    ultimately show ?case by simp
  qed
  from this [of "{x. m' x \<noteq> m x}"] have "run (\<lambda>x. if x \<in> {x. m' x \<noteq> m x} then m' x else m x) A" by simp
  moreover have "(\<lambda>x. if x \<in> {x. m' x \<noteq> m x} then m' x else m x) = m'" by auto
  ultimately show ?thesis by simp
qed

text \<open>An allocation that is released again leaves the other allocations as they were.\<close>

lemma alloc_release:
  assumes run: "run m A" and n: "unat n + 7 < 2 ^ 64" "alloc n m = Some (p, m1)" "p \<noteq> 0" and new: "p \<notin> fst ` A"
  shows "\<exists>m2. release p m1 = Some m2 \<and> run m2 A \<and> (\<forall>(q, k) \<in> A. \<forall>x \<in> region q (unat k). m2 x = m x)"
proof -
  have r1: "run m1 (insert (p, n) A)" using alloc_run [OF run n(1,2)] n(3) by simp
  obtain m2 where m2: "release p m1 = Some m2" "run m2 (insert (p, n) A - {(p, n)})"
    "\<forall>(q, k) \<in> insert (p, n) A - {(p, n)}. \<forall>x \<in> region q (unat k). m2 x = m1 x"
    using release_run [OF r1, of p n] by auto
  have "insert (p, n) A - {(p, n)} = A" using new by force
  then show ?thesis using m2 alloc_keeps [OF run n(1,2)] by fastforce
qed

end

interpretation kh: heap_service "malloc c" "free c" "heap_run c" "span c" for c
proof unfold_locales
  show "\<exists>p m'. malloc c n m = Some (p, m')" if "heap_run c m A" "unat n + 7 < 2 ^ 64" for m A n
    unfolding malloc_def by (rule run_malloc [OF that]) blast
  show "heap_run c m' (if p = 0 then A else insert (p, n) A)"
    if "heap_run c m A" "unat n + 7 < 2 ^ 64" "malloc c n m = Some (p, m')" for m A n p m'
    using that unfolding malloc_def by (rule heap_run.malloc)
  show "m' x = m x"
    if "heap_run c m A" "unat n + 7 < 2 ^ 64" "malloc c n m = Some (p, m')" "(q, k) \<in> A" "x \<in> region q (unat k)" for m A n p m' q k x
  proof (rule run_malloc [OF that(1,2)])
    fix p2 m2 assume "tlsf_malloc c n m = Some (p2, m2)" "\<forall>(q, k) \<in> A. \<forall>x \<in> region q (unat k). m2 x = m x"
    then show ?thesis using that(3-5) unfolding malloc_def by auto
  qed
  show "region p (unat n) \<inter> region q (unat k) = {}"
    if "heap_run c m A" "unat n + 7 < 2 ^ 64" "malloc c n m = Some (p, m')" "p \<noteq> 0" "(q, k) \<in> A" for m A n p m' q k
    using that unfolding malloc_def by (rule run_fresh_apart)
  show "\<exists>m'. free c p m = Some m' \<and> heap_run c m' (A - {(p, n)}) \<and> (\<forall>(q, k) \<in> A - {(p, n)}. \<forall>x \<in> region q (unat k). m' x = m x)"
    if "heap_run c m A" "(p, n) \<in> A" for m A p n
    unfolding free_def by (rule run_free [OF that]) (use heap_run.free [OF that] in blast)
  show "heap_run c (m(x := v)) A" if "heap_run c m A" "(p, n) \<in> A" "x \<in> region p (unat n)" for m A p n x v
    using that by (rule heap_run.store)
  show "heap_run c (m(x := v)) A" if "heap_run c m A" "x \<notin> span c" for m A x v
    using that by (rule heap_run.outside)
qed

section \<open>The heap of the kernel\<close>

text \<open>
  \<open>init_heap\<close> makes the pool from the static array \<open>kernel_heap\<close>, whose address the linker gives; its
  messages and the time stamp taken first have no effect on the heap.
\<close>

definition KERNEL_HEAP_SIZE :: u64 where "KERNEL_HEAP_SIZE = 0x100000"

definition init_heap :: "u64 \<Rightarrow> mem \<Rightarrow> (u64 \<times> mem) option" where
  "init_heap kernel_heap m = tlsf_create_with_pool kernel_heap KERNEL_HEAP_SIZE m"

lemma init_heap_run:
  assumes "aligned8 k" "k \<noteq> 0" "unat k + unat KERNEL_HEAP_SIZE < 2 ^ 64"
  shows "\<exists>m'. init_heap k m = Some (k, m') \<and> heap_run k m' {}"
proof -
  have b: "6576 \<le> unat KERNEL_HEAP_SIZE" "unat KERNEL_HEAP_SIZE \<le> 2 ^ 32" by (simp_all add: KERNEL_HEAP_SIZE_def)
  obtain m' where "tlsf_create_with_pool k KERNEL_HEAP_SIZE m = Some (k, m')" by (rule create_ok [OF assms(1,2) b assms(3)])
  then show ?thesis using heap_run.created [OF assms(1,2) b assms(3)] by (auto simp: init_heap_def)
qed

section \<open>Properties\<close>

text \<open>
  C10. In every reachable state of the heap \<open>calloc\<close> returns, for a product of its arguments that does
  not wrap: either null with the heap as it was, or a new allocation of that many bytes, all zero,
  apart from every live one. The bytes of the live allocations do not change, and the heap can be
  used on.
\<close>
theorem calloc_zeroes_fresh_memory:
  assumes "heap_run c m A" and "unat nmemb * unat sz + 7 < 2 ^ 64"
  shows "\<exists>p m'. calloc c nmemb sz m = Some (p, m') \<and> heap_run c m' (if p = 0 then A else insert (p, nmemb * sz) A) \<and>
    (p \<noteq> 0 \<longrightarrow> (\<forall>x \<in> region p (unat nmemb * unat sz). m' x = 0) \<and>
      (\<forall>(q, k) \<in> A. region p (unat nmemb * unat sz) \<inter> region q (unat k) = {})) \<and>
    (\<forall>(q, k) \<in> A. \<forall>x \<in> region q (unat k). m' x = m x)"
proof -
  let ?t = "nmemb * sz"
  have t: "unat ?t = unat nmemb * unat sz" using assms(2) by (simp add: unat_word_ariths)
  then have t7: "unat ?t + 7 < 2 ^ 64" using assms(2) by simp
  obtain p m1 where m1: "malloc c ?t m = Some (p, m1)" using kh.alloc_returns [OF assms(1) t7] by blast
  note r1 = kh.alloc_run [OF assms(1) t7 m1] and k1 = kh.alloc_keeps [OF assms(1) t7 m1] and a1 = kh.alloc_apart [OF assms(1) t7 m1]
  show ?thesis
  proof (cases "p = 0")
    case True
    then show ?thesis using m1 r1 k1 by (auto simp: calloc_def Let_def)
  next
    case False
    let ?m = "zero_loop m1 p 0 ?t"
    have "calloc c nmemb sz m = Some (p, ?m)" using m1 False by (simp add: calloc_def Let_def)
    moreover have "heap_run c ?m (insert (p, ?t) A)" using kh.zero_loop_run r1 False by simp
    moreover have "?m x = 0" if "x \<in> region p (unat ?t)" for x
      using that by (simp add: zero_loop_spec)
    moreover have "?m x = m x" if qk: "(q, k) \<in> A" "x \<in> region q (unat k)" for q k x
    proof -
      have "x \<notin> region p (unat ?t)" using a1 [OF False qk(1)] qk(2) by blast
      then show ?thesis using k1 [OF qk] by (simp add: zero_loop_spec)
    qed
    moreover have "\<forall>(q, k) \<in> A. region p (unat ?t) \<inter> region q (unat k) = {}" using a1 [OF False] by blast
    ultimately show ?thesis using False unfolding t [symmetric] by (intro exI [of _ p] exI [of _ ?m]) auto
  qed
qed

theorem calloc_zeroes_fresh_memory_witness:
  "\<exists>m p q m'. heap_run 4096 m {(p, 100)} \<and> calloc 4096 4 8 m = Some (q, m') \<and> (\<forall>x \<in> region p 100. m' x = m x)"
proof -
  obtain p m where r: "heap_run 4096 m {(p, 100)}" using sample_run by blast
  obtain q m' where "calloc 4096 4 8 m = Some (q, m')" "\<forall>x \<in> region p 100. m' x = m x"
    using calloc_zeroes_fresh_memory [OF r, of 4 8] by auto
  with r show ?thesis by blast
qed

end
