(* ===== verification/Stdio.thy ===== *)
theory Stdio
  imports Stdlib
begin

text \<open>
  Formatted output, \<^verbatim>\<open>klibc/stdio.c\<close>. \<open>printf\<close> writes to the terminal: the bytes handed to
  \<open>flanterm_write\<close> are a list. The variable arguments are the list of 64-bit argument slots; taking
  one that is not there is \<open>None\<close>. The splitting of a \<open>double\<close> argument into its integer part and
  six further digits is a parameter, as the kernel has no other floating-point code.
\<close>

section \<open>Formats\<close>

definition is_digit :: "u8 \<Rightarrow> bool" where
  "is_digit c \<longleftrightarrow> sint c \<ge> 48 \<and> sint c \<le> 57"

partial_function (option) read_width :: "mem \<Rightarrow> u64 \<Rightarrow> i32 \<Rightarrow> (i32 \<times> u64) option" where
  "read_width m fmt w =
     (if is_digit (m fmt) then read_width m (fmt + 1) (w * 10 + of_int (sint (m fmt) - 48)) else Some (w, fmt))"

section \<open>printf\<close>

record pf =
  pf_mem :: mem
  pf_format :: u64
  pf_args :: "u64 list"
  pf_out :: "u8 list"
  chars_written :: i32

definition put :: "u8 list \<Rightarrow> pf \<Rightarrow> pf" where
  "put bs s = s\<lparr>pf_out := pf_out s @ bs, chars_written := chars_written s + of_nat (length bs)\<rparr>"

definition va_arg :: "pf \<Rightarrow> (u64 \<times> pf) option" where
  "va_arg s = (case pf_args s of [] \<Rightarrow> None | a # as \<Rightarrow> Some (a, s\<lparr>pf_args := as\<rparr>))"

partial_function (option) put_cstr :: "u64 \<Rightarrow> pf \<Rightarrow> pf option" where
  "put_cstr p s =
     (let c = pf_mem s p in if c \<noteq> 0 then put_cstr (p + 1) (put [c] s) else Some s)"

text \<open>\<open>(null)\<close>\<close>

definition null_text :: "u8 list" where "null_text = [40, 110, 117, 108, 108, 41]"

datatype text_source = At u64 | Literal "u8 list"

definition put_padded :: "i32 \<Rightarrow> u8 \<Rightarrow> text_source \<Rightarrow> pf \<Rightarrow> pf option" where
  "put_padded pad pad_char src s =
     (case src of
        At p \<Rightarrow>
          do { len \<leftarrow> strlen (pf_mem s) p;
               put_cstr p (put (replicate (nat (sint pad - sint (ucast len :: i32))) pad_char) s) }
      | Literal bs \<Rightarrow> Some (put bs (put (replicate (nat (sint pad - int (length bs))) pad_char) s)))"

text \<open>The length modifiers: \<open>(is_long, is_longlong)\<close> and the rest of the format.\<close>

definition printf_length :: "mem \<Rightarrow> u64 \<Rightarrow> bool \<times> bool \<times> u64" where
  "printf_length m fmt =
     (if m fmt = 108 then
        if m (fmt + 1) = 108 then (False, True, fmt + 2) else (True, False, fmt + 1)
      else if m fmt = 76 then (False, True, fmt + 1)
      else (False, False, fmt))"

text \<open>
  The numeric conversions. All three branches of the code hand the argument to the \<open>int32_t\<close>
  parameter of \<open>itoa\<close>.
\<close>

definition printf_number :: "u64 \<Rightarrow> u8 \<Rightarrow> bool \<Rightarrow> bool \<Rightarrow> pf \<Rightarrow> pf option" where
  "printf_number buf c is_long is_longlong s =
     do { (slot, s1) \<leftarrow> va_arg s;
          let val = (if is_longlong then (ucast slot :: i32)
                     else if is_long then ucast slot
                     else ucast slot);
          let s2 = (if c = 120 then put [48, 120] s1 else s1);
          (m', p) \<leftarrow> itoa (pf_mem s2) val buf (if c = 120 then 16 else if c = 111 then 8 else 10);
          Some (s2\<lparr>pf_mem := m'\<rparr>) }"

definition printf_double :: "(u64 \<Rightarrow> i32 \<times> i32) \<Rightarrow> u64 \<Rightarrow> pf \<Rightarrow> pf option" where
  "printf_double split_double buf s =
     do { (slot, s1) \<leftarrow> va_arg s;
          let (int_part, frac) = split_double slot;
          (m1, _) \<leftarrow> itoa (pf_mem s1) int_part buf 10;
          s2 \<leftarrow> put_cstr buf (s1\<lparr>pf_mem := m1\<rparr>);
          let s3 = put [46] s2;
          (m2, _) \<leftarrow> itoa (pf_mem s3) frac buf 10;
          put_cstr buf (s3\<lparr>pf_mem := m2\<rparr>) }"

definition printf_memory :: "i32 \<Rightarrow> pf \<Rightarrow> pf option" where
  "printf_memory pad s =
     do { (p, s1) \<leftarrow> va_arg s;
          let len = nat (sint (if pad \<noteq> 0 then pad else 16));
          if p \<noteq> 0 then Some (put (bytes_at (pf_mem s1) p len) s1)
          else if len \<le> length null_text + 1 then Some (put (take len (null_text @ [0])) s1)
          else None }"

definition printf_directive :: "(u64 \<Rightarrow> i32 \<times> i32) \<Rightarrow> u64 \<Rightarrow> pf \<Rightarrow> pf option" where
  "printf_directive split_double buf s =
     (let (pad_char, f1) = (if pf_mem s (pf_format s) = 48 then (48, pf_format s + 1) else (32, pf_format s)) in
      do { (pad, f2) \<leftarrow> read_width (pf_mem s) f1 0;
           let (is_long, is_longlong, f3) = printf_length (pf_mem s) f2;
           let c = pf_mem s f3;
           let s1 = s\<lparr>pf_format := f3 + 1\<rparr>;
           if c \<in> {100, 117, 120, 111} then
             do { s2 \<leftarrow> printf_number buf c is_long is_longlong s1;
                  put_padded pad pad_char (At buf) s2 }
           else if c = 102 then printf_double split_double buf s1
           else if c = 115 then
             do { (p, s2) \<leftarrow> va_arg s1;
                  put_padded pad pad_char (if p \<noteq> 0 then At p else Literal null_text) s2 }
           else if c = 99 then
             do { (slot, s2) \<leftarrow> va_arg s1;
                  Some (put [ucast slot] s2) }
           else if c = 112 then
             do { (slot, s2) \<leftarrow> va_arg (put [48, 120] s1);
                  (m', p) \<leftarrow> itoa (pf_mem s2) (ucast slot) buf 16;
                  put_padded pad pad_char (At buf) (s2\<lparr>pf_mem := m'\<rparr>) }
           else if c = 109 then printf_memory pad s1
           else Some (put [c] s1) })"

partial_function (option) printf_loop :: "(u64 \<Rightarrow> i32 \<times> i32) \<Rightarrow> u64 \<Rightarrow> pf \<Rightarrow> pf option" where
  "printf_loop split_double buf s =
     (let c = pf_mem s (pf_format s);
          s1 = s\<lparr>pf_format := pf_format s + 1\<rparr> in
      if c = 0 then Some s1
      else if c \<noteq> 37 then printf_loop split_double buf (put [c] s1)
      else do { s2 \<leftarrow> printf_directive split_double buf s1;
                printf_loop split_double buf s2 })"

text \<open>The bytes written and the returned count; \<open>-1\<close> without a terminal.\<close>

definition printf :: "(u64 \<Rightarrow> i32 \<times> i32) \<Rightarrow> u64 \<Rightarrow> bool \<Rightarrow> mem \<Rightarrow> u64 \<Rightarrow> u64 list \<Rightarrow> (u8 list \<times> i32) option" where
  "printf split_double buf has_terminal m format args =
     (if \<not> has_terminal then Some ([], - 1)
      else map_option (\<lambda>s. (pf_out s, chars_written s))
        (printf_loop split_double buf
          \<lparr>pf_mem = m, pf_format = format, pf_args = args, pf_out = [], chars_written = 0\<rparr>))"

section \<open>vsprintf\<close>

definition hex_digit :: "bool \<Rightarrow> u64 \<Rightarrow> u8" where
  "hex_digit uppercase d =
     ucast (if d \<le> 9 then d + 48 else if uppercase then d - 10 + 65 else d - 10 + 97)"

text \<open>The local array \<open>tmp\<close> is the list of its first \<open>i\<close> bytes; indexing past its end is \<open>None\<close>.\<close>

partial_function (option) num_digits :: "u64 \<Rightarrow> u64 \<Rightarrow> bool \<Rightarrow> u8 list \<Rightarrow> u8 list option" where
  "num_digits num base uppercase tmp =
     (if num \<noteq> 0 then
        if base = 0 \<or> length tmp \<ge> 32 then None
        else num_digits (num div base) base uppercase (tmp @ [hex_digit uppercase (num mod base)])
      else Some tmp)"

fun copy_back :: "u8 list \<Rightarrow> mem \<Rightarrow> u64 \<Rightarrow> mem \<times> u64" where
  "copy_back tmp m buf =
     (if tmp = [] then (m, buf) else copy_back (butlast tmp) (m(buf := last tmp)) (buf + 1))"

definition num_to_str :: "mem \<Rightarrow> u64 \<Rightarrow> u64 \<Rightarrow> i32 \<Rightarrow> bool \<Rightarrow> (mem \<times> u64) option" where
  "num_to_str m buf num base uppercase =
     (if num = 0 then Some (m(buf := 48), buf + 1)
      else do { tmp \<leftarrow> num_digits num (scast base) uppercase [];
                Some (copy_back tmp m buf) })"

datatype len_mod = Plain | Long | LongLong

definition vs_length :: "mem \<Rightarrow> u64 \<Rightarrow> len_mod \<times> u64" where
  "vs_length m fmt =
     (if m fmt = 108 then
        if m (fmt + 1) = 108 then (LongLong, fmt + 2) else (Long, fmt + 1)
      else if m fmt = 104 then
        if m (fmt + 1) = 104 then (Plain, fmt + 2) else (Plain, fmt + 1)
      else if m fmt = 122 then (LongLong, fmt + 1)
      else (Plain, fmt))"

definition next_arg :: "u64 list \<Rightarrow> (u64 \<times> u64 list) option" where
  "next_arg args = (case args of [] \<Rightarrow> None | a # as \<Rightarrow> Some (a, as))"

definition signed_arg :: "len_mod \<Rightarrow> u64 \<Rightarrow> i64" where
  "signed_arg l slot = (if l = Plain then scast (ucast slot :: i32) else slot)"

definition unsigned_arg :: "len_mod \<Rightarrow> u64 \<Rightarrow> u64" where
  "unsigned_arg l slot = (if l = Plain then ucast (ucast slot :: u32) else slot)"

partial_function (option) copy_str :: "mem \<Rightarrow> u64 \<Rightarrow> u64 \<Rightarrow> (mem \<times> u64) option" where
  "copy_str m str p = (if m p \<noteq> 0 then copy_str (m(str := m p)) (str + 1) (p + 1) else Some (m, str))"

definition vs_convert :: "mem \<Rightarrow> u64 \<Rightarrow> u8 \<Rightarrow> len_mod \<Rightarrow> u64 list \<Rightarrow> (mem \<times> u64 \<times> u64 list) option" where
  "vs_convert m str c l args =
     (if c = 100 \<or> c = 105 then
        do { (slot, args') \<leftarrow> next_arg args;
             let val = signed_arg l slot;
             let (m1, str1, num) = (if sint val < 0 then (m(str := 45), str + 1, - val) else (m, str, val));
             (m2, str2) \<leftarrow> num_to_str m1 str1 num 10 False;
             Some (m2, str2, args') }
      else if c = 117 then
        do { (slot, args') \<leftarrow> next_arg args;
             (m2, str2) \<leftarrow> num_to_str m str (unsigned_arg l slot) 10 False;
             Some (m2, str2, args') }
      else if c = 120 \<or> c = 88 \<or> c = 111 then
        do { (slot, args') \<leftarrow> next_arg args;
             (m2, str2) \<leftarrow> num_to_str m str (unsigned_arg l slot) (if c = 111 then 8 else 16) (c = 88);
             Some (m2, str2, args') }
      else if c = 112 then
        do { (slot, args') \<leftarrow> next_arg args;
             (m2, str2) \<leftarrow> num_to_str (m(str := 48, str + 1 := 120)) (str + 2) slot 16 False;
             Some (m2, str2, args') }
      else if c = 115 then
        do { (p, args') \<leftarrow> next_arg args;
             (m2, str2) \<leftarrow> (if p \<noteq> 0 then copy_str m str p
                          else Some (store_bytes m str null_text, str + of_nat (length null_text)));
             Some (m2, str2, args') }
      else if c = 99 then
        do { (slot, args') \<leftarrow> next_arg args;
             Some (m(str := ucast slot), str + 1, args') }
      else Some (m(str := 37, str + 1 := c), str + 2, args))"

fun shift_up :: "nat \<Rightarrow> nat \<Rightarrow> u64 \<Rightarrow> mem \<Rightarrow> mem" where
  "shift_up 0 pad start m = m"
| "shift_up (Suc i) pad start m = shift_up i pad start (m(start + of_nat (i + pad) := m (start + of_nat i)))"

definition vs_pad :: "mem \<Rightarrow> u64 \<Rightarrow> u64 \<Rightarrow> i32 \<Rightarrow> bool \<Rightarrow> mem \<times> u64" where
  "vs_pad m start str width zero_pad =
     (let len = (ucast (str - start) :: i32) in
      if sint width > sint len then
        let pad = nat (sint width - sint len);
            m1 = shift_up (nat (sint len)) pad start m
        in (store_bytes m1 start (replicate pad (if zero_pad then 48 else 32)), str + of_nat pad)
      else (m, str))"

definition vs_directive :: "mem \<Rightarrow> u64 \<Rightarrow> u64 \<Rightarrow> u64 list \<Rightarrow> (mem \<times> u64 \<times> u64 \<times> u64 list) option" where
  "vs_directive m str fmt args =
     (let (zero_pad, f1) = (if m fmt = 48 then (True, fmt + 1) else (False, fmt)) in
      do { (width, f2) \<leftarrow> read_width m f1 0;
           let (l, f3) = vs_length m f2;
           (m1, str1, args') \<leftarrow> vs_convert m str (m f3) l args;
           let (m2, str2) = vs_pad m1 str str1 width zero_pad;
           Some (m2, str2, f3 + 1, args') })"

partial_function (option) vsprintf_loop :: "mem \<Rightarrow> u64 \<Rightarrow> u64 \<Rightarrow> u64 list \<Rightarrow> (mem \<times> u64) option" where
  "vsprintf_loop m str fmt args =
     (if m fmt = 0 then Some (m, str)
      else if m fmt \<noteq> 37 then vsprintf_loop (m(str := m fmt)) (str + 1) (fmt + 1) args
      else if m (fmt + 1) = 37 then vsprintf_loop (m(str := 37)) (str + 1) (fmt + 2) args
      else do { (m1, str1, fmt1, args1) \<leftarrow> vs_directive m str (fmt + 1) args;
                vsprintf_loop m1 str1 fmt1 args1 })"

definition vsprintf :: "mem \<Rightarrow> u64 \<Rightarrow> u64 \<Rightarrow> u64 list \<Rightarrow> (mem \<times> i32) option" where
  "vsprintf m buf fmt args =
     do { (m1, str) \<leftarrow> vsprintf_loop m buf fmt args;
          Some (m1(str := 0), ucast (str - buf)) }"

declare copy_back.simps [simp del]

section \<open>Writing pieces\<close>

lemma put_put [simp]: "put b (put a s) = put (a @ b) s"
  by (simp add: put_def)

lemma put_fields [simp]:
  "pf_mem (put bs s) = pf_mem s" "pf_format (put bs s) = pf_format s" "pf_args (put bs s) = pf_args s"
  "pf_out (put bs s) = pf_out s @ bs" "chars_written (put bs s) = chars_written s + of_nat (length bs)"
  by (simp_all add: put_def)

lemma put_Nil [simp]: "put [] s = s"
  by (simp add: put_def)

lemma put_cstr_spec: "cstr (pf_mem s) p t \<Longrightarrow> put_cstr p s = Some (put t s)"
proof (induction t arbitrary: p s)
  case Nil
  then show ?case by (simp add: put_cstr.simps)
next
  case (Cons c t)
  then have "put_cstr (p + 1) (put [c] s) = Some (put t (put [c] s))" by simp
  with Cons.prems show ?case by (subst put_cstr.simps) simp
qed

lemma put_padded_plain:
  assumes "cstr (pf_mem s) p t" and "length t < 2 ^ 31"
  shows "put_padded 0 c (At p) s = Some (put t s)"
proof -
  have "unat (of_nat (length t) :: i32) = length t" using assms(2) by (simp add: unat_of_nat)
  then have "0 \<le> sint (of_nat (length t) :: i32)" using assms(2) by (subst sint_eq_unat) simp_all
  moreover have "(ucast (of_nat (length t) :: u64) :: i32) = of_nat (length t)"
    using assms(2) by (simp add: word_unat_eq_iff unsigned_ucast_eq unat_of_nat take_bit_eq_mod)
  ultimately show ?thesis
    using strlen_cstr [OF assms(1)] put_cstr_spec [OF assms(1)] by (simp add: put_padded_def)
qed

section \<open>num_to_str\<close>

lemma udigits_length_power: "2 \<le> b \<Longrightarrow> n < b ^ k \<Longrightarrow> length (udigits b n) \<le> k"
proof (induction k arbitrary: n)
  case 0
  then show ?case by (simp add: udigits.simps)
next
  case (Suc k)
  show ?case
  proof (cases "n = 0")
    case False
    have "n div b < b ^ k" using Suc.prems by (simp add: less_mult_imp_div_less mult.commute)
    with Suc False show ?thesis by (simp add: udigits.simps [of b n])
  qed (simp add: udigits.simps)
qed

definition upper_char :: "bool \<Rightarrow> nat \<Rightarrow> u8" where
  "upper_char up d = (if up \<and> d > 9 then of_nat (d + 55) else digit_char d)"

lemma hex_digit_eq: "unat d < 16 \<Longrightarrow> hex_digit up d = upper_char up (unat d)"
proof -
  assume d: "unat d < 16"
  have all: "\<forall>k \<in> set [0..<16]. hex_digit True (of_nat k) = upper_char True k \<and> hex_digit False (of_nat k) = upper_char False k"
    by code_simp
  have "unat d \<in> set [0..<16]" unfolding set_upt atLeastLessThan_iff using d by simp
  from bspec [OF all this] show ?thesis by (cases up) simp_all
qed

lemma num_digits_spec:
  assumes "2 \<le> unat base" and "unat base \<le> 16" and "length tmp + length (udigits (unat base) (unat num)) \<le> 32"
  shows "num_digits num base up tmp = Some (tmp @ map (upper_char up) (udigits (unat base) (unat num)))"
  using assms(3)
proof (induction "unat num" arbitrary: num tmp rule: less_induct)
  case less
  show ?case
  proof (cases "num = 0")
    case True
    then show ?thesis by (simp add: num_digits.simps udigits.simps)
  next
    case False
    have b0: "base \<noteq> 0" using assms(1) by auto
    have d: "udigits (unat base) (unat num) = unat num mod unat base # udigits (unat base) (unat num div unat base)"
      using False assms(1) by (simp add: udigits.simps [of _ "unat num"] unat_eq_0)
    have lt: "unat (num div base) < unat num" using False assms(1) by (simp add: unat_div unat_gt_0)
    have "unat (num mod base) < unat base" using assms(1) by (simp add: unat_mod)
    then have "hex_digit up (num mod base) = upper_char up (unat num mod unat base)"
      using assms(2) by (simp add: hex_digit_eq unat_mod)
    moreover have "num_digits (num div base) base up (tmp @ [upper_char up (unat num mod unat base)]) =
        Some ((tmp @ [upper_char up (unat num mod unat base)]) @ map (upper_char up) (udigits (unat base) (unat (num div base))))"
      using less.prems d by (intro less.hyps [OF lt]) (simp add: unat_div)
    ultimately show ?thesis using False b0 d less.prems
      by (subst num_digits.simps) (simp add: unat_div)
  qed
qed

lemma copy_back_spec: "copy_back tmp m buf = (store_bytes m buf (rev tmp), buf + of_nat (length tmp))"
proof (induction tmp arbitrary: m buf rule: rev_induct)
  case Nil
  then show ?case by (simp add: copy_back.simps)
next
  case (snoc x xs)
  then show ?case by (subst copy_back.simps) (simp add: add.assoc fun_upd_def)
qed

definition unum :: "bool \<Rightarrow> nat \<Rightarrow> nat \<Rightarrow> u8 list" where
  "unum up b n = (if n = 0 then [48] else map (upper_char up) (rev (udigits b n)))"

lemma unum_lower: "unum False b n = numeral_of b n"
proof -
  have "upper_char False = digit_char" by (rule ext) (simp add: upper_char_def)
  then show ?thesis by (simp add: unum_def numeral_of_def)
qed

lemma num_to_str_spec:
  assumes "4 \<le> sint base" and "sint base \<le> 16"
  shows "num_to_str m buf num base up =
    Some (store_bytes m buf (unum up (nat (sint base)) (unat num)), buf + of_nat (length (unum up (nat (sint base)) (unat num))))"
proof -
  let ?b = "nat (sint base)"
  have b: "unat (scast base :: u64) = ?b"
  proof -
    have "(scast base :: u64) = of_nat ?b" using assms by (simp add: of_nat_nat)
    moreover have "?b < 2 ^ 64" using assms(2) by simp
    ultimately show ?thesis by (simp only: unat_of_nat_64)
  qed
  have "(2 :: nat) ^ 64 = 4 ^ 32" by simp
  also have "\<dots> \<le> ?b ^ 32" using assms(1) by (intro power_mono) auto
  finally have "unat num < ?b ^ 32" using unat_lt_2p64 [of num] by (simp del: unat_lt_2p64)
  then have len: "length (udigits ?b (unat num)) \<le> 32" using assms(1) by (intro udigits_length_power) auto
  show ?thesis
  proof (cases "num = 0")
    case True
    then show ?thesis by (simp add: num_to_str_def unum_def)
  next
    case False
    have "num_digits num (scast base) up [] = Some (map (upper_char up) (udigits ?b (unat num)))"
      using num_digits_spec [of "scast base" "[]" num up] len b assms by simp
    with False show ?thesis by (simp add: num_to_str_def unum_def copy_back_spec rev_map unat_eq_0)
  qed
qed

section \<open>One directive\<close>

lemma read_width_none: "\<not> is_digit (m p) \<Longrightarrow> read_width m p w = Some (w, p)"
  by (simp add: read_width.simps)

lemma signed_numeral_length:
  "2 \<le> unat base \<Longrightarrow> length (signed_numeral v base) \<le> 33"
proof -
  assume b: "2 \<le> unat base"
  have n: "length (numeral_of c k) \<le> 32" if "k < 2 ^ 32" "2 \<le> c" for c k
    using that udigits_length [of c k 32] by (simp add: numeral_of_def)
  have "unat v < 2 ^ 32" using unsigned_less [of v] by simp
  moreover have "nat (- sint v) < 2 ^ 32" if "sint v < 0"
  proof -
    have "unat (- v) < 2 ^ 32" using unsigned_less [of "- v"] by simp
    then show ?thesis using unat_neg [OF that] by simp
  qed
  ultimately show ?thesis
    using n [of "unat v" "unat base"] n [of "nat (- sint v)" 10] b by (auto simp: signed_numeral_def)
qed

lemma vsprintf_literal_loop:
  assumes "cstr m fmt s" and "37 \<notin> set s"
    and "\<And>i j. i < length s \<Longrightarrow> j \<le> length s \<Longrightarrow> str + of_nat i \<noteq> fmt + of_nat j"
  shows "vsprintf_loop m str fmt args = Some (store_bytes m str s, str + of_nat (length s))"
  using assms
proof (induction s arbitrary: m str fmt)
  case Nil
  then show ?case by (simp add: vsprintf_loop.simps)
next
  case (Cons c s)
  have ne: "str \<noteq> fmt + 1 + of_nat j" if "j \<le> length s" for j
    using Cons.prems(3) [of 0 "Suc j"] that by (simp add: add.assoc)
  have c: "cstr (m(str := c)) (fmt + 1) s"
  proof (rule cstr_frame [of m])
    show "cstr m (fmt + 1) s" using Cons.prems(1) by simp
    show "(m(str := c)) (fmt + 1 + of_nat i) = m (fmt + 1 + of_nat i)" if "i \<le> length s" for i
      using ne [OF that] by simp
  qed
  have "vsprintf_loop (m(str := c)) (str + 1) (fmt + 1) args =
      Some (store_bytes (m(str := c)) (str + 1) s, str + 1 + of_nat (length s))"
  proof (rule Cons.IH [OF c])
    show "37 \<notin> set s" using Cons.prems(2) by simp
    show "str + 1 + of_nat i \<noteq> fmt + 1 + of_nat j" if "i < length s" "j \<le> length s" for i j
      using Cons.prems(3) [of "Suc i" "Suc j"] that by (simp add: add.assoc)
  qed
  with Cons.prems show ?case by (subst vsprintf_loop.simps) (simp add: add.assoc)
qed

lemma ucast_of_nat_32: "(ucast (of_nat n :: u64) :: i32) = of_nat n"
  by (simp add: unsigned_of_nat word_of_nat_eq_iff take_bit_take_bit)

section \<open>Properties\<close>

text \<open>The decimal numeral of a 64-bit signed value.\<close>

definition decimal64 :: "i64 \<Rightarrow> u8 list" where
  "decimal64 v = (if sint v < 0 then 45 # numeral_of 10 (unat (- v)) else numeral_of 10 (unat v))"

lemma numeral_of_nonzero: "2 \<le> b \<Longrightarrow> b \<le> 36 \<Longrightarrow> 0 \<notin> set (numeral_of b n)"
proof -
  assume b: "2 \<le> b" "b \<le> 36"
  obtain ds where ds: "numeral_of b n = map digit_char ds" "\<forall>d \<in> set ds. d < b"
    by (rule numeral_of_digits [OF b(1), of n]) auto
  have "digit_char d \<noteq> 0" if "d \<in> set ds" for d
    using ds(2) that b(2) by (intro digit_char_eval(1)) auto
  with ds(1) show ?thesis by auto
qed

lemma decimal64_length: "length (decimal64 v) \<le> 21"
proof -
  have n: "length (numeral_of 10 (unat w)) \<le> 20" for w :: u64
  proof -
    have "unat w < 10 ^ 20" using unat_lt_2p64 [of w] by (simp del: unat_lt_2p64)
    then have "length (udigits 10 (unat w)) \<le> 20" by (intro udigits_length_power) simp_all
    then show ?thesis by (simp add: numeral_of_def)
  qed
  show ?thesis using n [of v] n [of "- v"] by (simp add: decimal64_def)
qed

lemma vs_convert_lld:
  "vs_convert m str 100 LongLong [v] = Some (store_bytes m str (decimal64 v), str + of_nat (length (decimal64 v)), [])"
proof -
  have ten: "sint (10 :: i32) = 10" by simp
  have num: "num_to_str m' buf w 10 False =
      Some (store_bytes m' buf (numeral_of 10 (unat w)), buf + of_nat (length (numeral_of 10 (unat w))))" for m' buf w
    using num_to_str_spec [of 10 m' buf w False] by (simp add: unum_lower)
  show ?thesis
    by (simp add: vs_convert_def next_arg_def signed_arg_def decimal64_def num add.assoc)
qed

lemma vs_pad_none:
  "unat (str' - str) < 2 ^ 31 \<Longrightarrow> vs_pad m str str' 0 z = (m, str')"
proof -
  assume u: "unat (str' - str) < 2 ^ 31"
  then have "unat (ucast (str' - str) :: i32) = unat (str' - str)" by (intro unat_ucast_32) simp
  then have "0 \<le> sint (ucast (str' - str) :: i32)" using u by (subst sint_eq_unat) simp_all
  then show ?thesis by (simp add: vs_pad_def Let_def)
qed

text \<open>
  C32. \<open>vsprintf\<close> with \<open>%lld\<close> writes the signed decimal numeral of its argument into the buffer, NUL
  terminated, and returns its length; \<open>atoll\<close> reads the argument back, for all 64-bit values.
\<close>
theorem vsprintf_lld_round_trip:
  assumes "cstr m fmt [37, 108, 108, 100]" and "disjoint_regions buf 22 fmt 5"
  shows "\<exists>m'. vsprintf m buf fmt [v] = Some (m', of_nat (length (decimal64 v))) \<and>
    cstr m' buf (decimal64 v) \<and> atoll m' buf = Some v"
proof -
  let ?t = "decimal64 v"
  let ?m1 = "store_bytes m buf ?t" and ?n = "of_nat (length ?t) :: u64"
  have len: "length ?t \<le> 21" by (rule decimal64_length)
  have f: "m fmt = 37" "m (fmt + 1) = 108" "m (fmt + 2) = 108" "m (fmt + 3) = 100" "m (fmt + 4) = 0"
    using assms(1) by (simp_all add: add.assoc)
  have un: "unat ?n = length ?t" using len by (intro unat_of_nat_64) simp
  have nd: "\<not> is_digit 108" by (simp add: is_digit_def)
  have dir: "vs_directive m buf (fmt + 1) [v] = Some (?m1, buf + ?n, fmt + 4, [])"
    using f nd vs_convert_lld [of m buf v] vs_pad_none [of "buf + ?n" buf ?m1 False] len un
    by (simp add: vs_directive_def read_width_none vs_length_def add.assoc)
  have "fmt + 4 \<in> region fmt 5" by (simp add: in_region_iff)
  with assms(2) have "fmt + 4 \<notin> region buf 22" by (rule disjoint_regionsD)
  then have "fmt + 4 \<notin> region buf (length ?t)" using len region_mono [of "length ?t" 22 buf] by auto
  then have "?m1 (fmt + 4) = 0" using f(5) len by (subst store_bytes_outside) simp_all
  then have "vsprintf_loop m buf fmt [v] = Some (?m1, buf + ?n)"
    using f(1,2) dir by (subst vsprintf_loop.simps, simp) (subst vsprintf_loop.simps, simp)
  moreover have "(ucast ?n :: i32) = of_nat (length ?t)"
    using len un by (simp add: word_unat_eq_iff unsigned_ucast_eq unat_of_nat take_bit_eq_mod)
  ultimately have v: "vsprintf m buf fmt [v] = Some (store_bytes m buf (?t @ [0]), of_nat (length ?t))"
    by (simp add: vsprintf_def store_bytes_snoc)
  have nz: "0 \<notin> set ?t" using numeral_of_nonzero [of 10] by (auto simp: decimal64_def)
  have c: "cstr (store_bytes m buf (?t @ [0])) buf ?t" using nz len by (intro cstr_store) simp_all
  have "atoll (store_bytes m buf (?t @ [0])) buf = Some v"
  proof (cases "sint v < 0")
    case True
    with c show ?thesis
      using ato_number_minus [where 'a = 64, of "store_bytes m buf (?t @ [0])" buf "unat (- v)"] by (simp add: atoll_def decimal64_def)
  next
    case False
    with c show ?thesis
      using ato_number_numeral [where 'a = 64, of "store_bytes m buf (?t @ [0])" buf "unat v"] by (simp add: atoll_def decimal64_def)
  qed
  with v c show ?thesis by blast
qed

theorem vsprintf_lld_round_trip_witness:
  "\<exists>m'. vsprintf (store_bytes (\<lambda>_. 7) 0x1000 [37, 108, 108, 100, 0]) 0x2000 0x1000 [- 5] = Some (m', of_nat (length (decimal64 (- 5)))) \<and>
    atoll m' 0x2000 = Some (- 5)"
proof -
  have "cstr (store_bytes (\<lambda>_. 7) 0x1000 [37, 108, 108, 100, 0]) 0x1000 [37, 108, 108, 100]" by simp
  moreover have "disjoint_regions 0x2000 22 0x1000 5" by (intro disjoint_regionsI) simp_all
  ultimately show ?thesis using vsprintf_lld_round_trip by blast
qed

text \<open>
  C3. \<open>vsprintf\<close> copies a format without directives, terminates it and returns its length, for any
  buffer that does not overlap the format.
\<close>
theorem vsprintf_copies_literals:
  assumes "cstr m fmt s" and "37 \<notin> set s" and "disjoint_regions buf (length s + 1) fmt (length s + 1)"
  shows "vsprintf m buf fmt args = Some (store_bytes m buf (s @ [0]), of_nat (length s))"
proof -
  note len = cstr_length [OF assms(1)]
  have "buf + of_nat i \<noteq> fmt + of_nat j" if "i < length s" "j \<le> length s" for i j
  proof -
    have "buf + of_nat i \<in> region buf (length s + 1)" using that len by (intro region_offset) simp_all
    moreover have "fmt + of_nat j \<in> region fmt (length s + 1)" using that len by (intro region_offset) simp_all
    ultimately show ?thesis using assms(3) by (auto simp: disjoint_regions_def)
  qed
  from vsprintf_literal_loop [OF assms(1,2) this] show ?thesis
    by (simp add: vsprintf_def store_bytes_snoc ucast_of_nat_32)
qed

theorem vsprintf_copies_literals_witness:
  "vsprintf (store_bytes (\<lambda>_. 7) 0x1000 [72, 105, 0]) 0x2000 0x1000 [] =
     Some (store_bytes (store_bytes (\<lambda>_. 7) 0x1000 [72, 105, 0]) 0x2000 [72, 105, 0], 2)"
proof -
  have "cstr (store_bytes (\<lambda>_. 7) 0x1000 [72, 105, 0]) 0x1000 [72, 105]" by simp
  moreover have "disjoint_regions 0x2000 (length [72, 105 :: u8] + 1) 0x1000 (length [72, 105 :: u8] + 1)"
    by (intro disjoint_regionsI) simp_all
  ultimately have "vsprintf (store_bytes (\<lambda>_. 7) 0x1000 [72, 105, 0]) 0x2000 0x1000 [] =
     Some (store_bytes (store_bytes (\<lambda>_. 7) 0x1000 [72, 105, 0]) 0x2000 ([72, 105] @ [0]), of_nat (length [72, 105 :: u8]))"
    by (intro vsprintf_copies_literals) simp_all
  then show ?thesis by simp
qed

end
