(* ===== verification/Printf.thy ===== *)
theory Printf
  imports Stdio
begin

text \<open>
  What \<open>printf\<close> of \<open>klibc/stdio.c\<close> writes, for formats without widths: a format is a list of pieces,
  its output the concatenation of what the pieces write. The shell and the panic messages of the
  kernel use only such formats. The conversion buffer of \<open>printf\<close> lies on its own stack frame, so it
  overlaps neither the format nor the string arguments.
\<close>

section \<open>Formats as pieces\<close>

datatype piece = Lit u8 | Num nat u8 | Str | Chr

fun piece_format :: "piece \<Rightarrow> u8 list" where
  "piece_format (Lit c) = [c]"
| "piece_format (Num k c) = 37 # replicate k 108 @ [c]"
| "piece_format Str = [37, 115]"
| "piece_format Chr = [37, 99]"

fun piece_ok :: "piece \<Rightarrow> bool" where
  "piece_ok (Lit c) \<longleftrightarrow> c \<noteq> 0 \<and> c \<noteq> 37"
| "piece_ok (Num k c) \<longleftrightarrow> k \<le> 2 \<and> c \<in> {100, 117, 120, 111}"
| "piece_ok Str \<longleftrightarrow> True"
| "piece_ok Chr \<longleftrightarrow> True"

definition format_of :: "piece list \<Rightarrow> u8 list" where
  "format_of ps = concat (map piece_format ps)"

definition number_text :: "u8 \<Rightarrow> u64 \<Rightarrow> u8 list" where
  "number_text c a = (if c = 120 then [48, 120] else []) @ signed_numeral (ucast a) (if c = 120 then 16 else if c = 111 then 8 else 10)"

definition string_text :: "u64 \<Rightarrow> mem \<Rightarrow> u64 \<Rightarrow> u8 list \<Rightarrow> bool" where
  "string_text buf m a t \<longleftrightarrow>
    (if a = 0 then t = null_text
     else cstr m a t \<and> length t < 2 ^ 31 \<and> disjoint_regions buf 64 a (length t + 1))"

text \<open>\<open>out\<close> is what the pieces write for these arguments.\<close>

fun writes :: "u64 \<Rightarrow> mem \<Rightarrow> piece list \<Rightarrow> u64 list \<Rightarrow> u8 list \<Rightarrow> bool" where
  "writes buf m [] as out \<longleftrightarrow> out = []"
| "writes buf m (Lit c # ps) as out \<longleftrightarrow> (\<exists>w. out = c # w \<and> writes buf m ps as w)"
| "writes buf m (Num k c # ps) (a # as) out \<longleftrightarrow> (\<exists>w. out = number_text c a @ w \<and> writes buf m ps as w)"
| "writes buf m (Str # ps) (a # as) out \<longleftrightarrow> (\<exists>t w. string_text buf m a t \<and> out = t @ w \<and> writes buf m ps as w)"
| "writes buf m (Chr # ps) (a # as) out \<longleftrightarrow> (\<exists>w. out = ucast a # w \<and> writes buf m ps as w)"
| "writes buf m _ _ out \<longleftrightarrow> False"

section \<open>Changes inside the conversion buffer\<close>

definition only_buffer :: "u64 \<Rightarrow> mem \<Rightarrow> mem \<Rightarrow> bool" where
  "only_buffer buf m m' \<longleftrightarrow> (\<forall>x. x \<notin> region buf 64 \<longrightarrow> m' x = m x)"

lemma only_buffer_refl [simp]: "only_buffer buf m m"
  by (simp add: only_buffer_def)

lemma cstr_only_buffer:
  assumes "cstr m p t" and "only_buffer buf m m'" and "disjoint_regions buf 64 p (length t + 1)"
  shows "cstr m' p t"
proof (rule cstr_frame [OF assms(1)])
  fix i assume i: "i \<le> length t"
  have "p + of_nat i \<in> region p (length t + 1)"
    using i cstr_length [OF assms(1)] by (intro region_offset) simp_all
  then have "p + of_nat i \<notin> region buf 64" using assms(3) by (rule disjoint_regionsD [rotated])
  then show "m' (p + of_nat i) = m (p + of_nat i)" using assms(2) by (simp add: only_buffer_def)
qed

lemma string_text_frame: "string_text buf m a t \<Longrightarrow> only_buffer buf m m' \<Longrightarrow> string_text buf m' a t"
  by (auto simp: string_text_def intro: cstr_only_buffer)

lemma writes_frame: "writes buf m ps as out \<Longrightarrow> only_buffer buf m m' \<Longrightarrow> writes buf m' ps as out"
  by (induction buf m ps as out rule: writes.induct) (auto intro: string_text_frame)

section \<open>One directive\<close>

lemma cstr_append: "cstr m p (s @ t) \<longleftrightarrow> bytes_at m p (length s) = s \<and> 0 \<notin> set s \<and> cstr m (p + of_nat (length s)) t"
  by (induction s arbitrary: p) (auto simp: add.assoc)

lemma number_conversion:
  assumes "c \<in> {100, 117, 120, 111}" and "pf_args s = a # as"
  shows "\<exists>m'. only_buffer buf (pf_mem s) m' \<and>
    Option.bind (printf_number buf c l ll s) (put_padded 0 pc (At buf)) =
      Some (put (number_text c a) (s\<lparr>pf_args := as, pf_mem := m'\<rparr>))"
proof -
  define base :: u32 where "base = (if c = 120 then 16 else if c = 111 then 8 else 10)"
  let ?t = "signed_numeral (ucast a) base"
  have b: "2 \<le> unat base" "unat base \<le> 36" by (simp_all add: base_def)
  obtain m' where m': "itoa (pf_mem s) (ucast a) buf base = Some (m', buf)" "cstr m' buf ?t"
    "\<And>x. x \<notin> region buf (length ?t + 1) \<Longrightarrow> m' x = pf_mem s x"
    using itoa_spec [OF b, of "pf_mem s" "ucast a" buf] by auto
  have len: "length ?t \<le> 33" by (rule signed_numeral_length [OF b(1)])
  then have "only_buffer buf (pf_mem s) m'"
    using m'(3) region_mono [of "length ?t + 1" 64 buf] by (auto simp: only_buffer_def)
  moreover define s2 where "s2 = (if c = 120 then put [48, 120] (s\<lparr>pf_args := as\<rparr>) else s\<lparr>pf_args := as\<rparr>)"
  have "printf_number buf c l ll s = Some (s2\<lparr>pf_mem := m'\<rparr>)"
    using m'(1) assms(2) by (auto simp: printf_number_def va_arg_def s2_def base_def split: if_splits)
  moreover have "put_padded 0 pc (At buf) (s2\<lparr>pf_mem := m'\<rparr>) = Some (put ?t (s2\<lparr>pf_mem := m'\<rparr>))"
    using m'(2) len by (intro put_padded_plain) simp_all
  moreover have "put ?t (s2\<lparr>pf_mem := m'\<rparr>) = put (number_text c a) (s\<lparr>pf_args := as, pf_mem := m'\<rparr>)"
    by (simp add: s2_def number_text_def base_def put_def)
  ultimately show ?thesis by auto
qed

lemma string_conversion:
  assumes "string_text buf (pf_mem s) a t" and "pf_args s = a # as"
  shows "Option.bind (va_arg s) (\<lambda>(p, s2). put_padded 0 pc (if p \<noteq> 0 then At p else Literal null_text) s2) =
    Some (put t (s\<lparr>pf_args := as\<rparr>))"
  using assms put_padded_plain [of "s\<lparr>pf_args := as\<rparr>" a t pc]
  by (auto simp: string_text_def va_arg_def put_padded_def)

lemma no_digit: "\<not> is_digit 108" "\<not> is_digit 115" "\<not> is_digit 99" "c \<in> {100, 117, 120, 111} \<Longrightarrow> \<not> is_digit c"
  by (auto simp: is_digit_def)

lemma directive_number:
  assumes "cstr (pf_mem s) (pf_format s) (replicate k 108 @ [c] @ rest)" and "k \<le> 2" and "c \<in> {100, 117, 120, 111}" and "pf_args s = a # as"
  shows "\<exists>m'. only_buffer buf (pf_mem s) m' \<and> printf_directive dbl buf s =
    Some (put (number_text c a) (s\<lparr>pf_format := pf_format s + of_nat (k + 1), pf_args := as, pf_mem := m'\<rparr>))"
proof -
  define s1 where "s1 = s\<lparr>pf_format := pf_format s + of_nat (k + 1)\<rparr>"
  let ?ll = "k = 2" and ?l = "k = 1"
  obtain m' where m': "only_buffer buf (pf_mem s) m'"
    "Option.bind (printf_number buf c ?l ?ll s1) (put_padded 0 32 (At buf)) = Some (put (number_text c a) (s1\<lparr>pf_args := as, pf_mem := m'\<rparr>))"
    using number_conversion [OF assms(3), of s1 a as buf ?l ?ll 32] assms(4) by (auto simp: s1_def)
  have k: "k = 0 \<or> k = 1 \<or> k = 2" using assms(2) by arith
  have c: "c \<noteq> 48" "c \<noteq> 108" "c \<noteq> 76" "\<not> is_digit c" using assms(3) no_digit(4) [OF assms(3)] by auto
  have "printf_directive dbl buf s = Option.bind (printf_number buf c ?l ?ll s1) (put_padded 0 32 (At buf))"
  proof -
    let ?m = "pf_mem s" and ?f = "pf_format s"
    have lst: "bytes_at ?m ?f (k + 1) = replicate k 108 @ [c]" using assms(1) cstr_append [of ?m ?f "replicate k 108 @ [c]" rest] by simp
    have v: "k = 0 \<Longrightarrow> ?m ?f = c" "k = 1 \<Longrightarrow> ?m ?f = 108 \<and> ?m (?f + 1) = c"
      "k = 2 \<Longrightarrow> ?m ?f = 108 \<and> ?m (?f + 1) = 108 \<and> ?m (?f + 2) = c" using lst by (simp_all add: bytes_at_numeral numeral_2_eq_2 add.assoc)
    have "\<not> is_digit (?m ?f)" "?m ?f \<noteq> 48" using k v c no_digit(1) by auto
    moreover have "printf_length ?m ?f = (?l, ?ll, ?f + of_nat k)" using k v c(2,3) by (auto simp: printf_length_def)
    moreover have "?m (?f + of_nat k) = c" using k v by auto
    ultimately show ?thesis using assms(3)
      by (simp add: printf_directive_def read_width_none s1_def Let_def add.assoc add.commute [of 1] del: insert_iff)
  qed
  with m' show ?thesis by (auto simp: s1_def)
qed

lemma directive_string:
  assumes "cstr (pf_mem s) (pf_format s) (115 # rest)" and "string_text buf (pf_mem s) a t" and "pf_args s = a # as"
  shows "printf_directive dbl buf s = Some (put t (s\<lparr>pf_format := pf_format s + 1, pf_args := as\<rparr>))"
proof -
  let ?s = "s\<lparr>pf_format := pf_format s + 1\<rparr>"
  have "printf_directive dbl buf s = Option.bind (va_arg ?s) (\<lambda>(p, s2). put_padded 0 32 (if p \<noteq> 0 then At p else Literal null_text) s2)"
    using assms(1) no_digit(2) by (simp add: printf_directive_def read_width_none printf_length_def Let_def)
  also have "\<dots> = Some (put t (?s\<lparr>pf_args := as\<rparr>))" using assms(2,3) by (intro string_conversion) simp_all
  finally show ?thesis by simp
qed

lemma directive_char:
  assumes "cstr (pf_mem s) (pf_format s) (99 # rest)" and "pf_args s = a # as"
  shows "printf_directive dbl buf s = Some (put [ucast a] (s\<lparr>pf_format := pf_format s + 1, pf_args := as\<rparr>))"
  using assms no_digit(3) by (simp add: printf_directive_def read_width_none printf_length_def Let_def va_arg_def)

section \<open>Whole formats\<close>

text \<open>What is left to do in state \<open>s\<close>: the pieces \<open>ps\<close>, which write \<open>out\<close>.\<close>

definition remaining :: "u64 \<Rightarrow> piece list \<Rightarrow> u8 list \<Rightarrow> pf \<Rightarrow> bool" where
  "remaining buf ps out s \<longleftrightarrow>
    cstr (pf_mem s) (pf_format s) (format_of ps) \<and> disjoint_regions buf 64 (pf_format s) (length (format_of ps) + 1) \<and>
    (\<forall>p \<in> set ps. piece_ok p) \<and> writes buf (pf_mem s) ps (pf_args s) out"

lemma remaining_after:
  assumes "remaining buf (p # ps) out s" and "writes buf (pf_mem s) ps as w" and "only_buffer buf (pf_mem s) m'"
  shows "remaining buf ps w (put bs (s\<lparr>pf_format := pf_format s + of_nat (length (piece_format p)), pf_args := as, pf_mem := m'\<rparr>))"
proof -
  let ?f = "pf_format s + of_nat (length (piece_format p))"
  have f: "format_of (p # ps) = piece_format p @ format_of ps" by (simp add: format_of_def)
  have c: "cstr (pf_mem s) (pf_format s) (piece_format p @ format_of ps)" using assms(1) by (simp add: remaining_def f)
  have "region ?f (length (format_of ps) + 1) \<subseteq> region (pf_format s) (length (format_of (p # ps)) + 1)"
    using cstr_length [OF c] by (intro region_shift) (simp_all add: f)
  then have d: "disjoint_regions buf 64 ?f (length (format_of ps) + 1)"
    using assms(1) by (auto simp: remaining_def intro: disjoint_regions_mono)
  moreover have "cstr m' ?f (format_of ps)" using c assms(3) d by (auto simp: cstr_append intro: cstr_only_buffer)
  ultimately show ?thesis using assms writes_frame [OF assms(2,3)] by (simp add: remaining_def)
qed

lemma printf_loop_pieces:
  "remaining buf ps out s \<Longrightarrow>
     \<exists>s'. printf_loop dbl buf s = Some s' \<and> pf_out s' = pf_out s @ out \<and> chars_written s' = chars_written s + of_nat (length out)"
proof (induction ps arbitrary: out s)
  case Nil
  then show ?case by (subst printf_loop.simps) (simp add: remaining_def format_of_def)
next
  case (Cons p ps)
  note rem = Cons.prems
  have go: ?case if out: "out = bs @ w" and "writes buf (pf_mem s) ps as w" and "only_buffer buf (pf_mem s) m'"
    and step: "printf_loop dbl buf s =
      printf_loop dbl buf (put bs (s\<lparr>pf_format := pf_format s + of_nat (length (piece_format p)), pf_args := as, pf_mem := m'\<rparr>))"
    for bs w as m'
    using Cons.IH [OF remaining_after [OF rem that(2,3)], of bs] step by (auto simp: out)
  have f: "cstr (pf_mem s) (pf_format s) (piece_format p @ format_of ps)" using rem by (simp add: remaining_def format_of_def)
  let ?s1 = "s\<lparr>pf_format := pf_format s + 1\<rparr>"
  have directive: "printf_loop dbl buf s = Option.bind (printf_directive dbl buf ?s1) (printf_loop dbl buf)"
    if "hd (piece_format p) = 37" "piece_format p \<noteq> []"
    using that f by (subst printf_loop.simps) (cases "piece_format p"; simp add: Let_def)
  show ?case
  proof (cases p)
    case (Lit c)
    with rem obtain w where w: "out = [c] @ w" "writes buf (pf_mem s) ps (pf_args s) w" "c \<noteq> 0" "c \<noteq> 37"
      by (auto simp: remaining_def)
    show ?thesis
    proof (rule go [OF w(1,2) only_buffer_refl])
      show "printf_loop dbl buf s = printf_loop dbl buf (put [c] (s\<lparr>pf_format := pf_format s + of_nat (length (piece_format p)),
          pf_args := pf_args s, pf_mem := pf_mem s\<rparr>))"
        using f w(3,4) by (subst printf_loop.simps) (simp add: Lit Let_def)
    qed
  next
    case (Num k c)
    with rem obtain a as w where w: "pf_args s = a # as" "out = number_text c a @ w" "writes buf (pf_mem s) ps as w"
      "k \<le> 2" "c \<in> {100, 117, 120, 111}" by (cases "pf_args s") (auto simp: remaining_def)
    from directive_number [of ?s1 k c "format_of ps" a as buf dbl] f w obtain m' where
      "only_buffer buf (pf_mem s) m'" "printf_directive dbl buf ?s1 =
        Some (put (number_text c a) (?s1\<lparr>pf_format := pf_format s + 1 + of_nat (k + 1), pf_args := as, pf_mem := m'\<rparr>))"
      by (auto simp: Num)
    with go [OF w(2,3), of m'] directive show ?thesis by (simp add: Num add.assoc)
  next
    case Str
    with rem obtain a as t w where w: "pf_args s = a # as" "out = t @ w" "string_text buf (pf_mem s) a t" "writes buf (pf_mem s) ps as w"
      by (cases "pf_args s") (auto simp: remaining_def)
    from directive_string [of ?s1 "format_of ps" buf a t as dbl] f w
    have "printf_directive dbl buf ?s1 = Some (put t (?s1\<lparr>pf_format := pf_format s + 1 + 1, pf_args := as\<rparr>))" by (simp add: Str)
    with go [OF w(2,4) only_buffer_refl] directive show ?thesis by (simp add: Str add.assoc)
  next
    case Chr
    with rem obtain a as w where w: "pf_args s = a # as" "out = [ucast a] @ w" "writes buf (pf_mem s) ps as w"
      by (cases "pf_args s") (auto simp: remaining_def)
    from directive_char [of ?s1 "format_of ps" a as dbl buf] f w
    have "printf_directive dbl buf ?s1 = Some (put [ucast a] (?s1\<lparr>pf_format := pf_format s + 1 + 1, pf_args := as\<rparr>))" by (simp add: Chr)
    with go [OF w(2,3) only_buffer_refl] directive show ?thesis by (simp add: Chr add.assoc)
  qed
qed

lemma printf_writes:
  assumes "cstr m fmt (format_of ps)" and "disjoint_regions buf 64 fmt (length (format_of ps) + 1)"
    and "\<forall>p \<in> set ps. piece_ok p" and "writes buf m ps as out"
  shows "printf dbl buf True m fmt as = Some (out, of_nat (length out))"
  using printf_loop_pieces [of buf ps out "\<lparr>pf_mem = m, pf_format = fmt, pf_args = as, pf_out = [], chars_written = 0\<rparr>" dbl] assms
  by (auto simp: remaining_def printf_def)

section \<open>The documented output\<close>

text \<open>
  The value a number directive stands for, by \<open>stdio.h\<close> and the C rules for the length modifiers: an \<open>int\<close> without \<open>l\<close>,
  64 bits with it, signed for \<open>%d\<close> and unsigned for \<open>%u\<close>, \<open>%x\<close> and \<open>%o\<close>; and its numeral, after \<open>0x\<close> for \<open>%x\<close>.
\<close>

definition directive_value :: "nat \<Rightarrow> u8 \<Rightarrow> u64 \<Rightarrow> int" where
  "directive_value k c a =
    (if c = 100 then if k = 0 then sint (ucast a :: i32) else sint a
     else if k = 0 then uint (ucast a :: u32) else uint a)"

definition int_numeral :: "nat \<Rightarrow> int \<Rightarrow> u8 list" where
  "int_numeral b v = (if v < 0 then 45 # numeral_of b (nat (- v)) else numeral_of b (nat v))"

definition directive_text :: "nat \<Rightarrow> u8 \<Rightarrow> u64 \<Rightarrow> u8 list" where
  "directive_text k c a =
    (if c = 120 then [48, 120] @ int_numeral 16 (directive_value k c a)
     else int_numeral (if c = 111 then 8 else 10) (directive_value k c a))"

text \<open>
  The values \<open>printf\<close> shows: every number passes through an \<open>int32_t\<close>, so a decimal one must lie in its range, and a hexadecimal or
  octal one below 4294967296.
\<close>

definition shown_exactly :: "u8 \<Rightarrow> int \<Rightarrow> bool" where
  "shown_exactly c v \<longleftrightarrow> (if c = 100 \<or> c = 117 then - (2 ^ 31) < v \<and> v < 2 ^ 31 else v < 2 ^ 32)"

fun documented :: "u64 \<Rightarrow> mem \<Rightarrow> piece list \<Rightarrow> u64 list \<Rightarrow> u8 list \<Rightarrow> bool" where
  "documented buf m [] as out \<longleftrightarrow> out = []"
| "documented buf m (Lit c # ps) as out \<longleftrightarrow> (\<exists>w. out = c # w \<and> documented buf m ps as w)"
| "documented buf m (Num k c # ps) (a # as) out \<longleftrightarrow>
    shown_exactly c (directive_value k c a) \<and> (\<exists>w. out = directive_text k c a @ w \<and> documented buf m ps as w)"
| "documented buf m (Str # ps) (a # as) out \<longleftrightarrow> (\<exists>t w. string_text buf m a t \<and> out = t @ w \<and> documented buf m ps as w)"
| "documented buf m (Chr # ps) (a # as) out \<longleftrightarrow> (\<exists>w. out = ucast a # w \<and> documented buf m ps as w)"
| "documented buf m _ _ out \<longleftrightarrow> False"

lemma low_unsigned:
  assumes "uint (a :: u64) < 2 ^ 32"
  shows "uint (ucast a :: u32) = uint a"
  using assms by (simp add: unsigned_ucast_eq take_bit_int_eq_self)

lemma low_signed:
  assumes "- (2 ^ 31) \<le> sint (a :: u64)" "sint a < 2 ^ 31"
  shows "sint (ucast a :: i32) = sint a"
proof -
  have "sint (ucast a :: i32) = signed_take_bit 31 (uint a)" by (simp add: sint_uint unsigned_ucast_eq signed_take_bit_take_bit)
  also have "\<dots> = signed_take_bit 31 (signed_take_bit 63 (uint a))" by (simp add: signed_take_bit_signed_take_bit)
  also have "\<dots> = signed_take_bit 31 (sint a)" by (simp add: sint_uint)
  also have "\<dots> = sint a" using assms by (simp add: signed_take_bit_int_eq_self_iff)
  finally show ?thesis .
qed

lemma small_signed: "uint (v :: i32) < 2 ^ 31 \<Longrightarrow> sint v = uint v"
  by (simp add: sint_uint signed_take_bit_int_eq_self_iff) (rule order.trans [of _ 0], simp_all)

lemma shown_low:
  assumes "c \<in> {100, 117, 120, 111}" "shown_exactly c (directive_value k c a)"
  shows "directive_value k c a = (if c = 100 then sint (ucast a :: i32) else uint (ucast a :: u32))"
  using assms low_unsigned [of a] low_signed [of a] by (auto simp: directive_value_def shown_exactly_def split: if_splits)

lemma signed_numeral_int: "signed_numeral v 10 = int_numeral 10 (sint v)" "base \<noteq> 10 \<Longrightarrow> signed_numeral v base = int_numeral (unat base) (uint v)"
proof -
  have "nat (uint v) = unat v" by (rule unat_eq_nat_uint [symmetric])
  moreover have "0 \<le> sint v \<Longrightarrow> nat (sint v) = unat v" using sint_conv [of v] uint_lt2p [of v] by (cases "bit v 31") auto
  ultimately show "signed_numeral v 10 = int_numeral 10 (sint v)" "base \<noteq> 10 \<Longrightarrow> signed_numeral v base = int_numeral (unat base) (uint v)"
    by (simp_all only: signed_numeral_def int_numeral_def) auto
qed

lemma number_documented:
  assumes "c \<in> {100, 117, 120, 111}" "shown_exactly c (directive_value k c a)"
  shows "number_text c a = directive_text k c a"
proof -
  note v = shown_low [OF assms]
  have "c = 117 \<Longrightarrow> sint (ucast a :: i32) = uint (ucast a :: u32)" using assms(2) v by (intro small_signed) (simp add: shown_exactly_def)
  then show ?thesis using v assms(1) by (auto simp: number_text_def directive_text_def signed_numeral_int)
qed

lemma documented_writes:
  "documented buf m ps as out \<Longrightarrow> \<forall>p \<in> set ps. piece_ok p \<Longrightarrow> writes buf m ps as out"
  by (induction buf m ps as out rule: documented.induct) (auto simp: number_documented)

section \<open>Properties\<close>



end
