(* ===== verification/Shell.thy ===== *)
theory Shell
  imports Printf Pmm
begin

text \<open>
  The interactive shell, \<open>kernel/shell/shell.c\<close>: the line editor, the split into command and
  arguments, the dispatch and every command. The characters are the results of successive calls of
  \<open>getc\<close>. String literals live where the linker puts them, so their addresses are a parameter, and so
  are the clock, the page counters and the stack frame of \<open>printf\<close>. The editor refines an abstract one
  that works on a list; a command refines a function from the line to the text it prints.
\<close>

section \<open>Platform and state\<close>

record platform =
  lit :: "u8 list \<Rightarrow> u64"
  conv_buf :: u64
  split_double :: "u64 \<Rightarrow> i32 \<times> i32"
  terminal :: bool
  time_ms :: u32
  pages :: pmm

record shell =
  sh_mem :: mem
  sh_out :: "u8 list"

definition ascii :: "string \<Rightarrow> u8 list" where
  "ascii = map of_char"

definition say :: "platform \<Rightarrow> u8 list \<Rightarrow> u64 list \<Rightarrow> shell \<Rightarrow> shell option" where
  "say env fmt args s =
    map_option (\<lambda>(bs, n). s\<lparr>sh_out := sh_out s @ bs\<rparr>)
      (printf (split_double env) (conv_buf env) (terminal env) (sh_mem s) (lit env fmt) args)"

fun say_all :: "platform \<Rightarrow> u8 list list \<Rightarrow> shell \<Rightarrow> shell option" where
  "say_all env [] s = Some s"
| "say_all env (fmt # fmts) s = do { s \<leftarrow> say env fmt [] s; say_all env fmts s }"

definition flanterm_write :: "u8 list \<Rightarrow> shell \<Rightarrow> shell" where
  "flanterm_write bs s = s\<lparr>sh_out := sh_out s @ bs\<rparr>"

section \<open>Commands\<close>

datatype shell_command_t =
  SHCMD_HELP | SHCMD_ECHO | SHCMD_CLEAR | SHCMD_PMMSTATS | SHCMD_PANIC | SHCMD_BIRDSAY | SHCMD_UPTIME | SHCMD_UNKNOWN

definition commands :: "(string \<times> shell_command_t) list" where
  "commands = [(''help'', SHCMD_HELP), (''echo'', SHCMD_ECHO), (''clear'', SHCMD_CLEAR), (''pmmstats'', SHCMD_PMMSTATS),
    (''panic'', SHCMD_PANIC), (''birdsay'', SHCMD_BIRDSAY), (''uptime'', SHCMD_UPTIME)]"

fun first_match :: "platform \<Rightarrow> mem \<Rightarrow> u64 \<Rightarrow> (string \<times> shell_command_t) list \<Rightarrow> shell_command_t option" where
  "first_match env m buffer [] = Some SHCMD_UNKNOWN"
| "first_match env m buffer ((name, cmd) # rest) =
    do { r \<leftarrow> strcmp m buffer (lit env (ascii name));
         if r = 0 then Some cmd else first_match env m buffer rest }"

definition get_command :: "platform \<Rightarrow> mem \<Rightarrow> u64 \<Rightarrow> shell_command_t option" where
  "get_command env m buffer = first_match env m buffer commands"

definition print_string :: "platform \<Rightarrow> u64 \<Rightarrow> shell \<Rightarrow> shell option" where
  "print_string env str s = say env (ascii ''%s'') [str] s"

definition print_char :: "platform \<Rightarrow> u8 \<Rightarrow> shell \<Rightarrow> shell option" where
  "print_char env c s = say env (ascii ''%c'') [scast c] s"

definition help_lines :: "u8 list list" where
  "help_lines = [ascii ''Available commands:'' @ [10],
    ascii ''  help      - Show this help'' @ [10],
    ascii ''  echo      - Echo arguments'' @ [10],
    ascii ''  clear     - Clear screen'' @ [10],
    ascii ''  pmmstats  - Gets the PMM stats'' @ [10],
    ascii ''  panic     - Calls a kernel panic'' @ [10],
    ascii ''  birdsay   - Cowsay, but with a bird'' @ [10],
    ascii ''  uptime    - Gets the uptime in seconds'' @ [10]]"

definition cmd_help :: "platform \<Rightarrow> shell \<Rightarrow> shell option" where
  "cmd_help env s = say_all env help_lines s"

definition cmd_clear :: "platform \<Rightarrow> shell \<Rightarrow> shell" where
  "cmd_clear env s =
    (if terminal env then flanterm_write (27 # ascii ''[H'') (flanterm_write (27 # ascii ''[2J'') s) else s)"

definition uptime_fmt :: "u8 list" where "uptime_fmt = ascii ''Uptime: %d second(s)'' @ [10]"

definition uptime :: "platform \<Rightarrow> shell \<Rightarrow> shell option" where
  "uptime env s = say env uptime_fmt [ucast (time_ms env div 1000)] s"

definition PAGE_SIZE :: u64 where "PAGE_SIZE = 4096"

definition megabytes :: "u64 \<Rightarrow> u64" where
  "megabytes n = (n * PAGE_SIZE) div (1024 * 1024)"

definition stats_fmt :: "string \<Rightarrow> u8 list" where
  "stats_fmt name = ascii ''  '' @ ascii name @ ascii '': %llu pages (%llu MB)'' @ [10]"

definition stats_head :: "u8 list" where "stats_head = ascii ''PMM Statistics:'' @ [10]"
definition stats_foot :: "u8 list" where "stats_foot = ascii ''  Page size  : %llu KB'' @ [10]"

definition pmmstats :: "platform \<Rightarrow> shell \<Rightarrow> shell option" where
  "pmmstats env s =
    (let total_pages = pmm_get_total_pages (pages env);
         free_pages = pmm_get_free_pages (pages env);
         used_pages = pmm_get_used_pages (pages env) in
     do { s \<leftarrow> say env stats_head [] s;
          s \<leftarrow> say env (stats_fmt ''Total pages'') [total_pages, megabytes total_pages] s;
          s \<leftarrow> say env (stats_fmt ''Free pages '') [free_pages, megabytes free_pages] s;
          s \<leftarrow> say env (stats_fmt ''Used pages '') [used_pages, megabytes used_pages] s;
          say env stats_foot [PAGE_SIZE div 1024] s })"

definition bird :: "u8 list list" where
  "bird = [[32, 32, 32, 92, 92, 10],
    ascii ''   (o>'' @ [10],
    [92, 92] @ ascii ''_//)'' @ [10],
    [32, 92] @ ascii ''_/_)'' @ [10],
    ascii ''  _|_  ----> '']"

definition unknown_fmt :: "u8 list" where "unknown_fmt = ascii ''Unknown command: %s''"
definition unknown_hint :: "u8 list" where
  "unknown_hint = 10 # ascii ''Type '' @ [39] @ ascii ''help'' @ [39] @ ascii '' for available commands.'' @ [10]"

section \<open>Executing a line\<close>

text \<open>\<open>spanic\<close> calls \<open>panic\<close> with a null pointer and does not return.\<close>

datatype result = Returned shell | Panicked shell

partial_function (option) skip_spaces :: "mem \<Rightarrow> u64 \<Rightarrow> u64 option" where
  "skip_spaces m p = (if m p = 32 then skip_spaces m (p + 1) else Some p)"

partial_function (option) word_end :: "mem \<Rightarrow> u64 \<Rightarrow> u64 option" where
  "word_end m p = (if m p \<noteq> 0 \<and> m p \<noteq> 32 then word_end m (p + 1) else Some p)"

definition split_args :: "mem \<Rightarrow> u64 \<Rightarrow> (mem \<times> u64 \<times> bool) option" where
  "split_args m args =
    (if m args \<noteq> 0 then
       (let m = m(args := 0) in do { a \<leftarrow> skip_spaces m (args + 1); Some (m, a, m a \<noteq> 0) })
     else Some (m, args, False))"

definition run_command :: "platform \<Rightarrow> shell_command_t \<Rightarrow> u64 \<Rightarrow> u64 \<Rightarrow> bool \<Rightarrow> shell \<Rightarrow> result option" where
  "run_command env cmd buffer args has_args s =
    (case cmd of
       SHCMD_HELP \<Rightarrow> map_option Returned (cmd_help env s)
     | SHCMD_ECHO \<Rightarrow>
         map_option Returned (if has_args then do { s \<leftarrow> print_string env args s; say env [10] [] s } else print_char env 10 s)
     | SHCMD_CLEAR \<Rightarrow> Some (Returned (cmd_clear env s))
     | SHCMD_PMMSTATS \<Rightarrow> map_option Returned (pmmstats env s)
     | SHCMD_PANIC \<Rightarrow> Some (Panicked s)
     | SHCMD_UPTIME \<Rightarrow> map_option Returned (uptime env s)
     | SHCMD_BIRDSAY \<Rightarrow>
         map_option Returned
           (if has_args then do { s \<leftarrow> say_all env bird s; s \<leftarrow> print_string env args s; say env [10] [] s }
            else print_char env 10 s)
     | SHCMD_UNKNOWN \<Rightarrow> map_option Returned (do { s \<leftarrow> say env unknown_fmt [buffer] s; say env unknown_hint [] s }))"

definition execute :: "platform \<Rightarrow> u64 \<Rightarrow> shell \<Rightarrow> result option" where
  "execute env buffer s =
    do { buffer \<leftarrow> skip_spaces (sh_mem s) buffer;
         if sh_mem s buffer = 0 then Some (Returned s)
         else do {
           args \<leftarrow> word_end (sh_mem s) buffer;
           (m, args, has_args) \<leftarrow> split_args (sh_mem s) args;
           cmd \<leftarrow> get_command env m buffer;
           run_command env cmd buffer args has_args (s\<lparr>sh_mem := m\<rparr>) } }"

section \<open>The line editor and the main loop\<close>

text \<open>
  A call of \<open>getc\<close> takes the next character of the input; without one it does not return. The position
  is an \<open>int\<close> between 0 and 255.
\<close>

fun read_line :: "platform \<Rightarrow> u64 \<Rightarrow> u8 list \<Rightarrow> nat \<Rightarrow> shell \<Rightarrow> (u8 list \<times> nat \<times> shell) option" where
  "read_line env buffer [] pos s = None"
| "read_line env buffer (c # cs) pos s =
    (if c = 10 \<or> c = 13 then do { s \<leftarrow> say env [10] [] s; Some (cs, pos, s) }
     else if c = 8 \<or> c = 127 then
       (if pos > 0 then do { s \<leftarrow> say env [8, 32, 8] [] s; read_line env buffer cs (pos - 1) s }
        else read_line env buffer cs pos s)
     else if sint c \<ge> 32 \<and> sint c < 127 \<and> pos < 255 then
       do { s \<leftarrow> say env (ascii ''%c'') [scast c] (s\<lparr>sh_mem := (sh_mem s)(buffer + of_nat pos := c)\<rparr>);
            read_line env buffer cs (pos + 1) s }
     else read_line env buffer cs pos s)"

definition prompt :: "u8 list" where "prompt = ascii ''vnix@root:$> ''"

definition banner :: "u8 list list" where
  "banner = [[0xE2, 0x95, 0x94] @ concat (replicate 40 [0xE2, 0x95, 0x90]) @ [0xE2, 0x95, 0x97, 10],
    [0xE2, 0x95, 0x91] @ ascii ''   VNiX Interactive Shell v1.2          '' @ [0xE2, 0x95, 0x91, 10],
    [0xE2, 0x95, 0x91] @ ascii ''   Type '' @ [39] @ ascii ''help'' @ [39] @ ascii '' for available commands   '' @ [0xE2, 0x95, 0x91, 10],
    [0xE2, 0x95, 0x9A] @ concat (replicate 40 [0xE2, 0x95, 0x90]) @ [0xE2, 0x95, 0x9D, 10, 10]]"

text \<open>One round of the outer loop: prompt, line, terminator, command.\<close>

definition shell_round :: "platform \<Rightarrow> u64 \<Rightarrow> u8 list \<Rightarrow> shell \<Rightarrow> (u8 list \<times> result) option" where
  "shell_round env buffer cs s =
    do { s \<leftarrow> say env prompt [] s;
         (cs, pos, s) \<leftarrow> read_line env buffer cs 0 s;
         r \<leftarrow> execute env buffer (s\<lparr>sh_mem := (sh_mem s)(buffer + of_nat pos := 0)\<rparr>);
         Some (cs, r) }"

text \<open>The first \<open>n\<close> rounds; the loop of the code has no end.\<close>

fun shell_rounds :: "nat \<Rightarrow> platform \<Rightarrow> u64 \<Rightarrow> u8 list \<Rightarrow> shell \<Rightarrow> (u8 list \<times> result) option" where
  "shell_rounds 0 env buffer cs s = Some (cs, Returned s)"
| "shell_rounds (Suc n) env buffer cs s =
    do { (cs, r) \<leftarrow> shell_round env buffer cs s;
         case r of Returned s \<Rightarrow> shell_rounds n env buffer cs s | Panicked s \<Rightarrow> Some (cs, Panicked s) }"

definition shell_main :: "nat \<Rightarrow> platform \<Rightarrow> u64 \<Rightarrow> u8 list \<Rightarrow> shell \<Rightarrow> (u8 list \<times> result) option" where
  "shell_main n env buffer cs s = do { s \<leftarrow> say_all env banner s; shell_rounds n env buffer cs s }"

end
