(* ===== verification/ShellSpec.thy ===== *)
theory ShellSpec
  imports Shell
begin

text \<open>
  What the shell promises: an abstract line editor on lists, the text of every command as a function
  of the line, and sessions built from them; and the proof that \<open>Shell\<close> refines them.
\<close>

section \<open>The abstract shell\<close>

definition printable :: "u8 \<Rightarrow> bool" where
  "printable c \<longleftrightarrow> sint c \<ge> 32 \<and> sint c < 127"

text \<open>Editing a line: the rest of the input, the finished line and what was echoed.\<close>

fun edit :: "u8 list \<Rightarrow> u8 list \<Rightarrow> (u8 list \<times> u8 list \<times> u8 list) option" where
  "edit line [] = None"
| "edit line (c # cs) =
    (if c = 10 \<or> c = 13 then Some (cs, line, [10])
     else if c = 8 \<or> c = 127 then
       (if line = [] then edit [] cs else map_option (apsnd (apsnd ((@) [8, 32, 8]))) (edit (butlast line) cs))
     else if printable c \<and> length line < 255 then map_option (apsnd (apsnd ((#) c))) (edit (line @ [c]) cs)
     else edit line cs)"

definition command_of :: "u8 list \<Rightarrow> shell_command_t" where
  "command_of w = (case map_of (map (\<lambda>(n, c). (ascii n, c)) commands) w of Some c \<Rightarrow> c | None \<Rightarrow> SHCMD_UNKNOWN)"

definition decimal :: "u64 \<Rightarrow> u8 list" where
  "decimal n = signed_numeral (ucast n) 10"

definition stats_line :: "string \<Rightarrow> u64 \<Rightarrow> u8 list" where
  "stats_line name n = ascii ''  '' @ ascii name @ ascii '': '' @ decimal n @ ascii '' pages ('' @ decimal (megabytes n) @ ascii '' MB)'' @ [10]"

definition command_text :: "platform \<Rightarrow> shell_command_t \<Rightarrow> u8 list \<Rightarrow> u8 list \<Rightarrow> u8 list" where
  "command_text env cmd w args =
    (case cmd of
       SHCMD_HELP \<Rightarrow> concat help_lines
     | SHCMD_ECHO \<Rightarrow> args @ [10]
     | SHCMD_CLEAR \<Rightarrow> 27 # ascii ''[2J'' @ 27 # ascii ''[H''
     | SHCMD_PMMSTATS \<Rightarrow> stats_head @ stats_line ''Total pages'' (pmm_get_total_pages (pages env)) @
         stats_line ''Free pages '' (pmm_get_free_pages (pages env)) @
         stats_line ''Used pages '' (pmm_get_used_pages (pages env)) @
         ascii ''  Page size  : 4 KB'' @ [10]
     | SHCMD_PANIC \<Rightarrow> []
     | SHCMD_UPTIME \<Rightarrow> ascii ''Uptime: '' @ signed_numeral (time_ms env div 1000) 10 @ ascii '' second(s)'' @ [10]
     | SHCMD_BIRDSAY \<Rightarrow> (if args = [] then [] else concat bird @ args) @ [10]
     | SHCMD_UNKNOWN \<Rightarrow> ascii ''Unknown command: '' @ w @ unknown_hint)"

text \<open>A line: whether it panics, and what it prints.\<close>

definition line_effect :: "platform \<Rightarrow> u8 list \<Rightarrow> bool \<times> u8 list" where
  "line_effect env line =
    (let l = dropWhile (\<lambda>c. c = 32) line;
         w = takeWhile (\<lambda>c. c \<noteq> 32) l;
         args = dropWhile (\<lambda>c. c = 32) (dropWhile (\<lambda>c. c \<noteq> 32) l)
     in if l = [] then (False, []) else (command_of w = SHCMD_PANIC, command_text env (command_of w) w args))"

section \<open>Where the literals are\<close>

definition plain_literals :: "u8 list list" where
  "plain_literals = help_lines @ bird @ banner @ [stats_head, unknown_hint, [10], [8, 32, 8], prompt] @ map (ascii \<circ> fst) commands"

definition formats :: "u8 list list" where
  "formats = [ascii ''%s'', ascii ''%c'', uptime_fmt, stats_fmt ''Total pages'', stats_fmt ''Free pages '', stats_fmt ''Used pages '',
    stats_foot, unknown_fmt]"

text \<open>
  The literals are in memory, and neither they nor the line buffer overlap what \<open>printf\<close> and the
  editor write.
\<close>

definition ready :: "platform \<Rightarrow> u64 \<Rightarrow> mem \<Rightarrow> bool" where
  "ready env buf m \<longleftrightarrow> terminal env \<and> buf \<noteq> 0 \<and> unat buf + 256 \<le> 2 ^ 64 \<and> disjoint_regions (conv_buf env) 64 buf 256 \<and>
    (\<forall>l \<in> set (plain_literals @ formats). cstr m (lit env l) l \<and>
       disjoint_regions (conv_buf env) 64 (lit env l) (length l + 1) \<and> disjoint_regions buf 256 (lit env l) (length l + 1))"

lemma ready_frame:
  assumes "ready env buf m" and "\<And>x. x \<notin> region buf 256 \<Longrightarrow> m' x = m x"
  shows "ready env buf m'"
proof -
  have "cstr m' (lit env l) l" if l: "l \<in> set (plain_literals @ formats)" for l
  proof (rule cstr_frame)
    show c: "cstr m (lit env l) l" using assms(1) l unfolding ready_def by blast
    fix i assume "i \<le> length l"
    then have "lit env l + of_nat i \<in> region (lit env l) (length l + 1)" using cstr_length [OF c] by (intro region_offset) simp_all
    moreover have "disjoint_regions buf 256 (lit env l) (length l + 1)" using assms(1) l unfolding ready_def by blast
    ultimately show "m' (lit env l + of_nat i) = m (lit env l + of_nat i)" by (intro assms(2) disjoint_regionsD)
  qed
  with assms(1) show ?thesis unfolding ready_def by blast
qed

lemma plain_no_percent: "l \<in> set plain_literals \<Longrightarrow> 37 \<notin> set l"
proof -
  have "list_all (\<lambda>l. 37 \<notin> set l) plain_literals" by code_simp
  then show "l \<in> set plain_literals \<Longrightarrow> 37 \<notin> set l" by (simp add: list_all_iff)
qed

lemma say_pieces:
  assumes "ready env buf (sh_mem s)" and "fmt \<in> set (plain_literals @ formats)" and "fmt = format_of ps"
    and "\<forall>p \<in> set ps. piece_ok p" and "writes (conv_buf env) (sh_mem s) ps as out"
  shows "say env fmt as s = Some (s\<lparr>sh_out := sh_out s @ out\<rparr>)"
proof -
  have "printf (split_double env) (conv_buf env) True (sh_mem s) (lit env fmt) as = Some (out, of_nat (length out))"
    using assms unfolding ready_def by (intro printf_writes) auto
  with assms(1) show ?thesis by (simp add: say_def ready_def)
qed

lemma format_of_Lit: "format_of (map Lit l) = l"
  by (induction l) (simp_all add: format_of_def)

lemma writes_Lit: "writes b m (map Lit l) as out \<longleftrightarrow> out = l"
  by (induction l arbitrary: out) auto

lemma writes_Lit_append: "writes b m (map Lit l @ ps) as out \<longleftrightarrow> (\<exists>w. out = l @ w \<and> writes b m ps as w)"
  by (induction l arbitrary: out) auto

lemma format_of_append: "format_of (ps @ qs) = format_of ps @ format_of qs"
  by (simp add: format_of_def)

lemma say_plain:
  assumes "ready env buf (sh_mem s)" and "l \<in> set plain_literals"
  shows "say env l [] s = Some (s\<lparr>sh_out := sh_out s @ l\<rparr>)"
proof (rule say_pieces [OF assms(1), of _ "map Lit l"])
  have "cstr (sh_mem s) (lit env l) l" using assms unfolding ready_def by auto
  then have "0 \<notin> set l" by (simp add: cstr_iff)
  then show "\<forall>p \<in> set (map Lit l). piece_ok p" using plain_no_percent [OF assms(2)] by auto
qed (use assms(2) in \<open>simp_all add: format_of_Lit writes_Lit\<close>)

lemma say_all_plain:
  "ready env buf (sh_mem s) \<Longrightarrow> set ls \<subseteq> set plain_literals \<Longrightarrow>
     say_all env ls s = Some (s\<lparr>sh_out := sh_out s @ concat ls\<rparr>)"
proof (induction ls arbitrary: s)
  case (Cons l ls)
  then have "say env l [] s = Some (s\<lparr>sh_out := sh_out s @ l\<rparr>)" by (intro say_plain) auto
  with Cons show ?case by simp
qed simp

lemma formats_pieces:
  "ascii ''%s'' = format_of [Str]" "ascii ''%c'' = format_of [Chr]"
  "unknown_fmt = format_of (map Lit (ascii ''Unknown command: '') @ [Str])"
  "uptime_fmt = format_of (map Lit (ascii ''Uptime: '') @ [Num 0 100] @ map Lit (ascii '' second(s)'' @ [10]))"
  "stats_foot = format_of (map Lit (ascii ''  Page size  : '') @ [Num 2 117] @ map Lit (ascii '' KB'' @ [10]))"
  "stats_fmt name = format_of (map Lit (ascii ''  '' @ ascii name @ ascii '': '') @ [Num 2 117] @
     map Lit (ascii '' pages ('') @ [Num 2 117] @ map Lit (ascii '' MB)'' @ [10]))"
  by (simp_all add: format_of_append format_of_Lit unknown_fmt_def uptime_fmt_def stats_foot_def stats_fmt_def)
    (simp_all add: format_of_def ascii_def numeral_2_eq_2)

section \<open>The editor refines the abstract one\<close>

text \<open>The first \<open>length line\<close> bytes of the buffer are the line; the rest of memory is as in \<open>m0\<close>.\<close>

definition editing :: "platform \<Rightarrow> u64 \<Rightarrow> mem \<Rightarrow> u8 list \<Rightarrow> mem \<Rightarrow> bool" where
  "editing env buf m0 line m \<longleftrightarrow>
    ready env buf m \<and> length line \<le> 255 \<and> bytes_at m buf (length line) = line \<and> 0 \<notin> set line \<and>
    (\<forall>x. x \<notin> region buf 255 \<longrightarrow> m x = m0 x)"

lemma editing_butlast: "editing env buf m0 line m \<Longrightarrow> editing env buf m0 (butlast line) m"
proof -
  assume e: "editing env buf m0 line m"
  then have "bytes_at m buf (length (butlast line)) = butlast line"
    by (simp add: editing_def bytes_at_eq_iff nth_butlast)
  with e show ?thesis by (auto simp: editing_def dest: in_set_butlastD)
qed

lemma editing_snoc:
  assumes "editing env buf m0 line m" and "length line < 255" and "c \<noteq> 0"
  shows "editing env buf m0 (line @ [c]) (m(buf + of_nat (length line) := c))"
proof -
  let ?p = "buf + of_nat (length line)"
  have p: "?p \<in> region buf 255" using assms(2) by (intro region_offset) simp_all
  then have "ready env buf (m(?p := c))"
    using assms(1) region_mono [of 255 256 buf] by (auto simp: editing_def intro!: ready_frame [of env buf m])
  moreover have "bytes_at (m(?p := c)) buf (length (line @ [c])) = line @ [c]"
  proof -
    have "of_nat i \<noteq> (of_nat (length line) :: u64)" if "i < length line" for i
    proof
      assume "of_nat i = (of_nat (length line) :: u64)"
      then have "unat (of_nat i :: u64) = unat (of_nat (length line) :: u64)" by simp
      with that assms(2) show False by (simp add: unat_of_nat_64)
    qed
    moreover have "m (buf + of_nat i) = line ! i" if "i < length line" for i
      using assms(1) that by (auto simp: editing_def bytes_at_eq_iff)
    ultimately show ?thesis unfolding bytes_at_eq_iff by (auto simp: nth_append less_Suc_eq)
  qed
  ultimately show ?thesis using assms p by (auto simp: editing_def)
qed

lemma say_char:
  assumes "ready env buf (sh_mem s)"
  shows "say env (ascii ''%c'') [scast c] s = Some (s\<lparr>sh_out := sh_out s @ [c]\<rparr>)"
proof (rule say_pieces [OF assms, of _ "[Chr]"])
  have "(ucast (scast c :: u64) :: u8) = c" by (rule bit_word_eqI) (auto simp: bit_simps)
  then show "writes (conv_buf env) (sh_mem s) [Chr] [scast c] [c]" by simp
qed (simp_all add: formats_def formats_pieces)

lemma printable_nonzero: "printable c \<Longrightarrow> c \<noteq> 0"
  by (auto simp: printable_def)

lemma read_line_refines:
  "editing env buf m0 line (sh_mem s) \<Longrightarrow>
     (case edit line cs of
        None \<Rightarrow> read_line env buf cs (length line) s = None
      | Some (rest, line', echo) \<Rightarrow>
          \<exists>m'. read_line env buf cs (length line) s = Some (rest, length line', s\<lparr>sh_mem := m', sh_out := sh_out s @ echo\<rparr>) \<and>
            editing env buf m0 line' m')"
proof (induction cs arbitrary: line s)
  case Nil
  then show ?case by simp
next
  case (Cons c cs)
  note e = Cons.prems
  have r: "ready env buf (sh_mem s)" using e by (simp add: editing_def)
  have lits: "[10] \<in> set plain_literals" "[8, 32, 8] \<in> set plain_literals" by (simp_all add: plain_literals_def)
  consider (nl) "c = 10 \<or> c = 13" | (bs0) "c = 8 \<or> c = 127" "line = []" | (bs) "c = 8 \<or> c = 127" "line \<noteq> []"
    | (chr) "c \<notin> {10, 13, 8, 127}" "printable c" "length line < 255"
    | (skip) "c \<notin> {10, 13, 8, 127}" "\<not> (printable c \<and> length line < 255)" by auto
  then show ?case
  proof cases
    case nl
    then show ?thesis using say_plain [OF r lits(1)] e by (auto intro!: exI [of _ "sh_mem s"])
  next
    case bs0
    then show ?thesis using Cons.IH [of "[]" s] e by (auto split: option.splits)
  next
    case bs
    let ?s = "s\<lparr>sh_out := sh_out s @ [8, 32, 8]\<rparr>"
    have "editing env buf m0 (butlast line) (sh_mem ?s)" using e by (simp add: editing_butlast)
    from Cons.IH [OF this] bs say_plain [OF r lits(2)] show ?thesis
      by (auto split: option.splits)
  next
    case chr
    let ?t = "s\<lparr>sh_mem := (sh_mem s)(buf + of_nat (length line) := c)\<rparr>"
    let ?s = "?t\<lparr>sh_out := sh_out s @ [c]\<rparr>"
    have ed: "editing env buf m0 (line @ [c]) (sh_mem ?s)"
      using editing_snoc [OF e chr(3) printable_nonzero [OF chr(2)]] by simp
    then have "say env (ascii ''%c'') [scast c] ?t = Some ?s"
      using say_char [of env buf ?t c] by (simp add: editing_def)
    with Cons.IH [OF ed] chr show ?thesis by (auto simp: printable_def split: option.splits)
  next
    case skip
    then show ?thesis using Cons.IH [OF e] by (auto simp: printable_def split: option.splits)
  qed
qed

section \<open>Commands\<close>

lemma skip_spaces_cstr:
  "cstr m p s \<Longrightarrow> skip_spaces m p = Some (p + of_nat (length (takeWhile (\<lambda>c. c = 32) s)))"
proof (induction s arbitrary: p)
  case Nil
  then show ?case by (simp add: skip_spaces.simps)
next
  case (Cons c s)
  then show ?case by (subst skip_spaces.simps) (auto simp: add.assoc)
qed

lemma word_end_cstr:
  "cstr m p s \<Longrightarrow> word_end m p = Some (p + of_nat (length (takeWhile (\<lambda>c. c \<noteq> 32) s)))"
proof (induction s arbitrary: p)
  case Nil
  then show ?case by (simp add: word_end.simps)
next
  case (Cons c s)
  then show ?case by (subst word_end.simps) (auto simp: add.assoc)
qed

lemma cstr_dropWhile: "cstr m p s \<Longrightarrow> cstr m (p + of_nat (length (takeWhile P s))) (dropWhile P s)"
  using cstr_drop [of m p s "length (takeWhile P s)"] by (simp add: dropWhile_eq_drop length_takeWhile_le)

lemma first_match_command:
  assumes "cstr m p w" and "\<forall>(n, c) \<in> set cs. cstr m (lit env (ascii n)) (ascii n)"
  shows "first_match env m p cs =
    Some (case map_of (map (\<lambda>(n, c). (ascii n, c)) cs) w of Some c \<Rightarrow> c | None \<Rightarrow> SHCMD_UNKNOWN)"
  using assms(2)
proof (induction cs)
  case (Cons nc cs)
  obtain n c where nc: "nc = (n, c)" by (cases nc)
  with Cons.prems have "cstr m (lit env (ascii n)) (ascii n)" by simp
  from strcmp_cstr [OF assms(1) this] obtain r where "strcmp m p (lit env (ascii n)) = Some r" "r = 0 \<longleftrightarrow> w = ascii n" by blast
  with Cons show ?case by (auto simp: nc)
qed simp

lemma get_command_ready:
  assumes "ready env buf m" and "cstr m p w"
  shows "get_command env m p = Some (command_of w)"
proof -
  have "\<forall>(n, c) \<in> set commands. cstr m (lit env (ascii n)) (ascii n)"
  proof (clarify)
    fix n c assume "(n, c) \<in> set commands"
    then have "ascii n \<in> set (plain_literals @ formats)" by (force simp: plain_literals_def)
    with assms(1) show "cstr m (lit env (ascii n)) (ascii n)" unfolding ready_def by blast
  qed
  from first_match_command [OF assms(2) this] show ?thesis by (simp add: get_command_def command_of_def)
qed

lemma number_text_decimal: "number_text 117 n = decimal n" "number_text 100 n = decimal n"
  by (simp_all add: number_text_def decimal_def)

lemma literal_ok: "piece_ok (Lit c) \<longleftrightarrow> c \<noteq> 0 \<and> c \<noteq> 37"
  by simp

lemma say_stats:
  assumes "ready env buf (sh_mem s)" and "name \<in> {''Total pages'', ''Free pages '', ''Used pages ''}"
  shows "say env (stats_fmt name) [n, megabytes n] s = Some (s\<lparr>sh_out := sh_out s @ stats_line name n\<rparr>)"
proof (rule say_pieces [OF assms(1) _ formats_pieces(6)])
  show "stats_fmt name \<in> set (plain_literals @ formats)" using assms(2) by (auto simp: formats_def)
  show "\<forall>p \<in> set (map Lit (ascii ''  '' @ ascii name @ ascii '': '') @ [Num 2 117] @ map Lit (ascii '' pages ('') @ [Num 2 117] @
      map Lit (ascii '' MB)'' @ [10])). piece_ok p"
    using assms(2) by (auto simp: ascii_def)
  show "writes (conv_buf env) (sh_mem s) (map Lit (ascii ''  '' @ ascii name @ ascii '': '') @ [Num 2 117] @ map Lit (ascii '' pages ('') @
      [Num 2 117] @ map Lit (ascii '' MB)'' @ [10])) [n, megabytes n] (stats_line name n)"
    by (auto simp: writes_Lit_append writes_Lit number_text_decimal stats_line_def simp del: map_append)
qed

lemma say_uptime:
  assumes "ready env buf (sh_mem s)"
  shows "uptime env s = Some (s\<lparr>sh_out := sh_out s @ command_text env SHCMD_UPTIME w a\<rparr>)"
  unfolding uptime_def
proof (rule say_pieces [OF assms _ formats_pieces(4)])
  have "(ucast (ucast (time_ms env div 1000) :: u64) :: i32) = time_ms env div 1000" by (rule bit_word_eqI) (auto simp: bit_simps)
  then show "writes (conv_buf env) (sh_mem s) (map Lit (ascii ''Uptime: '') @ [Num 0 100] @ map Lit (ascii '' second(s)'' @ [10]))
      [ucast (time_ms env div 1000)] (command_text env SHCMD_UPTIME w a)"
    by (auto simp: writes_Lit_append writes_Lit number_text_decimal decimal_def command_text_def simp del: map_append)
qed (auto simp: formats_def ascii_def)

lemma say_stats_foot:
  assumes "ready env buf (sh_mem s)"
  shows "say env stats_foot [PAGE_SIZE div 1024] s = Some (s\<lparr>sh_out := sh_out s @ ascii ''  Page size  : 4 KB'' @ [10]\<rparr>)"
proof (rule say_pieces [OF assms _ formats_pieces(5)])
  have "decimal (PAGE_SIZE div 1024) = [52]" by code_simp
  then show "writes (conv_buf env) (sh_mem s) (map Lit (ascii ''  Page size  : '') @ [Num 2 117] @ map Lit (ascii '' KB'' @ [10]))
      [PAGE_SIZE div 1024] (ascii ''  Page size  : 4 KB'' @ [10])"
    by (auto simp: writes_Lit_append writes_Lit number_text_decimal simp del: map_append) (simp add: ascii_def)
qed (auto simp: formats_def ascii_def)

lemma pmmstats_text:
  assumes "ready env buf (sh_mem s)"
  shows "pmmstats env s = Some (s\<lparr>sh_out := sh_out s @ command_text env SHCMD_PMMSTATS w a\<rparr>)"
proof -
  have h: "stats_head \<in> set plain_literals" by (simp add: plain_literals_def)
  show ?thesis using assms
    by (simp add: pmmstats_def Let_def say_plain [OF _ h] say_stats say_stats_foot command_text_def)
qed

text \<open>A string argument inside the line buffer.\<close>

definition in_buffer :: "u64 \<Rightarrow> mem \<Rightarrow> u64 \<Rightarrow> u8 list \<Rightarrow> bool" where
  "in_buffer buf m p t \<longleftrightarrow> cstr m p t \<and> p \<noteq> 0 \<and> (\<exists>k. p = buf + of_nat k \<and> k + length t < 256)"

lemma in_buffer_text:
  assumes "ready env buf m" and "in_buffer buf m p t"
  shows "string_text (conv_buf env) m p t"
proof -
  obtain k where k: "p = buf + of_nat k" "k + length t < 256" using assms(2) by (auto simp: in_buffer_def)
  have "region p (length t + 1) \<subseteq> region buf 256" unfolding k(1) using k(2) by (intro region_shift) simp_all
  then have "disjoint_regions (conv_buf env) 64 p (length t + 1)"
    using assms(1) by (auto simp: ready_def intro: disjoint_regions_mono)
  with assms(2) k show ?thesis by (simp add: string_text_def in_buffer_def)
qed

lemma print_string_text:
  assumes "ready env buf (sh_mem s)" and "in_buffer buf (sh_mem s) p t"
  shows "print_string env p s = Some (s\<lparr>sh_out := sh_out s @ t\<rparr>)"
  unfolding print_string_def using in_buffer_text [OF assms]
  by (intro say_pieces [OF assms(1) _ formats_pieces(1)]) (auto simp: formats_def)

lemma say_unknown:
  assumes "ready env buf (sh_mem s)" and "in_buffer buf (sh_mem s) p t"
  shows "say env unknown_fmt [p] s = Some (s\<lparr>sh_out := sh_out s @ ascii ''Unknown command: '' @ t\<rparr>)"
proof (rule say_pieces [OF assms(1) _ formats_pieces(3)])
  show "writes (conv_buf env) (sh_mem s) (map Lit (ascii ''Unknown command: '') @ [Str]) [p] (ascii ''Unknown command: '' @ t)"
    using in_buffer_text [OF assms] by (auto simp: writes_Lit_append)
qed (auto simp: formats_def ascii_def)

lemma run_command_text:
  assumes r: "ready env buf (sh_mem s)" and w: "in_buffer buf (sh_mem s) p w"
    and a: "has_args \<longleftrightarrow> args \<noteq> []" "has_args \<Longrightarrow> in_buffer buf (sh_mem s) q args"
  shows "run_command env cmd p q has_args s =
    Some ((if cmd = SHCMD_PANIC then Panicked else Returned) (s\<lparr>sh_out := sh_out s @ command_text env cmd w args\<rparr>))"
proof -
  have lits: "set help_lines \<subseteq> set plain_literals" "set bird \<subseteq> set plain_literals" "[10] \<in> set plain_literals"
    "unknown_hint \<in> set plain_literals" by (auto simp: plain_literals_def)
  have t: "terminal env" using r by (simp add: ready_def)
  have nl: "print_char env 10 u = Some (u\<lparr>sh_out := sh_out u @ [10]\<rparr>)" if "sh_mem u = sh_mem s" for u
    unfolding print_char_def using r that by (intro say_char) simp
  have ps: "print_string env q u = Some (u\<lparr>sh_out := sh_out u @ args\<rparr>)" if "sh_mem u = sh_mem s" "args \<noteq> []" for u
    using r a that by (intro print_string_text [of env buf]) simp_all
  have uk: "say env unknown_fmt [p] u = Some (u\<lparr>sh_out := sh_out u @ ascii ''Unknown command: '' @ w\<rparr>)" if "sh_mem u = sh_mem s" for u
    using r w that by (intro say_unknown [of env buf]) simp_all
  show ?thesis
  proof (cases cmd)
    case SHCMD_PANIC
    then show ?thesis by (simp add: run_command_def command_text_def)
  next
    case SHCMD_UPTIME
    then show ?thesis using say_uptime [OF r] by (simp add: run_command_def)
  next
    case SHCMD_PMMSTATS
    then show ?thesis using pmmstats_text [OF r] by (simp add: run_command_def)
  qed (use a(1) r t nl ps uk lits in \<open>simp_all add: run_command_def command_text_def cmd_help_def cmd_clear_def flanterm_write_def
      say_all_plain [of env buf] say_plain [of env buf]\<close>)
qed

lemma cstr_head: "cstr m p l \<Longrightarrow> m p = 0 \<longleftrightarrow> l = []"
  by (cases l) auto

lemma in_bufferI:
  assumes "ready env buf m" and "cstr m (buf + of_nat k) t" and "k + length t < 256"
  shows "in_buffer buf m (buf + of_nat k) t"
proof -
  have b: "buf \<noteq> 0" "unat buf + 256 \<le> 2 ^ 64" using assms(1) by (simp_all add: ready_def)
  have "unat (buf + of_nat k) = unat buf + k" using b(2) assms(3) by (simp add: unat_word_ariths unat_of_nat_64)
  moreover have "unat buf \<noteq> 0" using b(1) by (simp add: unat_eq_0)
  ultimately have "buf + of_nat k \<noteq> 0" by (metis add_is_0 unsigned_0)
  with assms show ?thesis by (auto simp: in_buffer_def)
qed

lemma cut_word:
  assumes "cstr m p (w @ 32 # r)"
  defines "q \<equiv> p + of_nat (length w)"
  shows "m q = 32" and "cstr (m(q := 0)) p w" and "cstr (m(q := 0)) (q + 1) r"
proof -
  have len: "length w + length r + 1 < 2 ^ 64" using cstr_length [OF assms(1)] by simp
  have ne: "of_nat i \<noteq> (of_nat j :: u64)" if "i \<noteq> j" "i < 2 ^ 64" "j < 2 ^ 64" for i j
    using that by (metis unat_of_nat_64)
  show "m q = 32" using cstr_nth [OF assms(1), of "length w"] by (simp add: q_def nth_append)
  show "cstr (m(q := 0)) p w"
    using assms(1) ne [of _ "length w"] len by (auto simp: cstr_iff q_def nth_append)
  have c: "cstr m (q + 1) r" using assms(1) by (simp add: cstr_append q_def)
  show "cstr (m(q := 0)) (q + 1) r"
  proof (rule cstr_frame [OF c])
    fix i assume "i \<le> length r"
    then have "of_nat (Suc i) \<noteq> (of_nat 0 :: u64)" using len by (intro ne) simp_all
    then show "(m(q := 0)) (q + 1 + of_nat i) = m (q + 1 + of_nat i)" by (simp add: add.assoc)
  qed
qed

text \<open>
  Splitting a line \<open>l\<close> behind its first word: the word is terminated in place, by a zero over the blank
  that follows it, if there is one, and the arguments start behind the blanks.
\<close>
lemma split_args_cstr:
  assumes cl: "cstr m p l"
  defines "w \<equiv> takeWhile (\<lambda>c. c \<noteq> 32) l" and "args \<equiv> dropWhile (\<lambda>c. c = 32) (dropWhile (\<lambda>c. c \<noteq> 32) l)"
  obtains m' a where "split_args m (p + of_nat (length w)) = Some (m', a, args \<noteq> [])" "cstr m' p w"
    "m' = m \<or> (\<exists>i < length l. m' = m(p + of_nat i := 0))"
    "args \<noteq> [] \<Longrightarrow> \<exists>j. a = p + of_nat j \<and> cstr m' a args \<and> j + length args \<le> length l"
proof -
  define rest where "rest = dropWhile (\<lambda>c. c \<noteq> 32) l"
  define q where "q = p + of_nat (length w)"
  have l: "l = w @ rest" by (simp add: w_def rest_def)
  show thesis
  proof (cases rest)
    case Nil
    then have "args = []" "l = w" using l unfolding args_def rest_def [symmetric] by simp_all
    moreover have "cstr m q rest" using cstr_dropWhile [OF cl] by (simp add: q_def w_def rest_def)
    then have "split_args m q = Some (m, q, False)" using Nil by (simp add: split_args_def)
    ultimately show thesis using that [of m q] cl by (simp add: q_def)
  next
    case (Cons b r)
    have "b = 32" using hd_dropWhile [of "\<lambda>c. c \<noteq> 32" l] Cons unfolding rest_def by (metis list.distinct(1) list.sel(1))
    with Cons have rr: "rest = 32 # r" by simp
    note cut = cut_word [OF cl [unfolded l rr], folded q_def]
    define j where "j = length (takeWhile (\<lambda>c. c = 32) r)"
    have ar: "args = dropWhile (\<lambda>c. c = 32) r" unfolding args_def rest_def [symmetric] rr by simp
    have sk: "skip_spaces (m(q := 0)) (q + 1) = Some (q + 1 + of_nat j)" using skip_spaces_cstr [OF cut(3)] by (simp add: j_def)
    have ca: "cstr (m(q := 0)) (q + 1 + of_nat j) args" using cstr_dropWhile [OF cut(3)] by (simp add: j_def ar)
    have lens: "j + length args = length r" unfolding j_def ar by (metis length_append takeWhile_dropWhile_id)
    have pos: "q + 1 + of_nat j = p + of_nat (length w + 1 + j)" by (simp add: q_def)
    have "split_args m q = Some (m(q := 0), q + 1 + of_nat j, args \<noteq> [])"
      using cut(1) sk cstr_head [OF ca] by (simp add: split_args_def Let_def)
    moreover have "\<exists>i < length l. m(q := 0) = m(p + of_nat i := 0)"
      unfolding q_def by (rule exI [of _ "length w"]) (simp add: l rr)
    moreover have "\<exists>i. q + 1 + of_nat j = p + of_nat i \<and> cstr (m(q := 0)) (q + 1 + of_nat j) args \<and> i + length args \<le> length l"
    proof (intro exI [of _ "length w + 1 + j"] conjI)
      show "length w + 1 + j + length args \<le> length l" using lens by (simp add: l rr)
    qed (fact pos ca)+
    ultimately show thesis using that cut(2) unfolding q_def by blast
  qed
qed

lemma execute_line:
  assumes r: "ready env buf (sh_mem s)" and c: "cstr (sh_mem s) buf line" and n: "length line < 256"
  shows "\<exists>m'. execute env buf s = Some ((if fst (line_effect env line) then Panicked else Returned)
      (s\<lparr>sh_mem := m', sh_out := sh_out s @ snd (line_effect env line)\<rparr>)) \<and> (\<forall>x. x \<notin> region buf 256 \<longrightarrow> m' x = sh_mem s x)"
proof -
  let ?m = "sh_mem s"
  define k where "k = length (takeWhile (\<lambda>c. c = 32) line)"
  define l where "l = dropWhile (\<lambda>c. c = 32) line"
  define p where "p = buf + of_nat k"
  have skip: "skip_spaces ?m buf = Some p" using skip_spaces_cstr [OF c] by (simp add: p_def k_def)
  have cl: "cstr ?m p l" using cstr_dropWhile [OF c] by (simp add: p_def k_def l_def)
  have kl: "k + length l = length line" unfolding k_def l_def by (metis length_append takeWhile_dropWhile_id)
  show ?thesis
  proof (cases "l = []")
    case True
    then have "sh_mem s p = 0" using cstr_head [OF cl] by simp
    with skip have "execute env buf s = Some (Returned s)" by (simp add: execute_def)
    moreover have "line_effect env line = (False, [])" using True by (simp add: line_effect_def l_def Let_def)
    ultimately show ?thesis by (auto intro!: exI [of _ "sh_mem s"])
  next
    case False
    define w where "w = takeWhile (\<lambda>c. c \<noteq> 32) l"
    define args where "args = dropWhile (\<lambda>c. c = 32) (dropWhile (\<lambda>c. c \<noteq> 32) l)"
    have we: "word_end ?m p = Some (p + of_nat (length w))" using word_end_cstr [OF cl] by (simp add: w_def)
    have eff: "line_effect env line = (command_of w = SHCMD_PANIC, command_text env (command_of w) w args)"
      using False unfolding line_effect_def w_def l_def args_def Let_def by (simp only: if_False)
    obtain m' a where split: "split_args ?m (p + of_nat (length w)) = Some (m', a, args \<noteq> [])" and w: "cstr m' p w"
      and m': "m' = ?m \<or> (\<exists>i < length l. m' = ?m(p + of_nat i := 0))"
      and a: "args \<noteq> [] \<Longrightarrow> \<exists>j. a = p + of_nat j \<and> cstr m' a args \<and> j + length args \<le> length l"
      by (rule split_args_cstr [OF cl, folded w_def args_def], rule that)
    have "p + of_nat i \<in> region buf 256" if "i < length l" for i
      unfolding p_def add.assoc of_nat_add [symmetric] using that kl n by (intro region_offset) simp_all
    then have out: "m' x = ?m x" if "x \<notin> region buf 256" for x using m' that by auto
    have r': "ready env buf m'" using ready_frame [OF r] out by blast
    have "length w \<le> length l" by (simp add: w_def length_takeWhile_le)
    then have wb: "in_buffer buf m' p w" using r' w kl n unfolding p_def by (intro in_bufferI) auto
    have ab: "in_buffer buf m' a args" if ne: "args \<noteq> []"
    proof -
      obtain j where j: "a = p + of_nat j" "cstr m' a args" "j + length args \<le> length l" using a [OF ne] by blast
      have "a = buf + of_nat (k + j)" by (simp add: j(1) p_def)
      then show ?thesis using in_bufferI [OF r', of "k + j" args] j(2,3) kl n by simp
    qed
    have "run_command env (command_of w) p a (args \<noteq> []) (s\<lparr>sh_mem := m'\<rparr>) =
      Some ((if command_of w = SHCMD_PANIC then Panicked else Returned)
        (s\<lparr>sh_mem := m', sh_out := sh_out s @ command_text env (command_of w) w args\<rparr>))"
      using run_command_text [of env buf "s\<lparr>sh_mem := m'\<rparr>" p w "args \<noteq> []" args a "command_of w"] r' wb ab by simp
    moreover have "execute env buf s = run_command env (command_of w) p a (args \<noteq> []) (s\<lparr>sh_mem := m'\<rparr>)"
      using skip we split get_command_ready [OF r' w] cstr_head [OF cl] False by (simp add: execute_def)
    ultimately show ?thesis using out unfolding eff by auto
  qed
qed

section \<open>Sessions\<close>

text \<open>The abstract session: what is left of the input, whether it panicked, and the text it shows.\<close>

fun session :: "nat \<Rightarrow> platform \<Rightarrow> u8 list \<Rightarrow> (u8 list \<times> bool \<times> u8 list) option" where
  "session 0 env cs = Some (cs, False, [])"
| "session (Suc n) env cs =
    (case edit [] cs of
       None \<Rightarrow> None
     | Some (rest, line, echo) \<Rightarrow>
         if fst (line_effect env line) then Some (rest, True, prompt @ echo @ snd (line_effect env line))
         else map_option (apsnd (apsnd ((@) (prompt @ echo @ snd (line_effect env line))))) (session n env rest))"

lemma shell_round_refines:
  assumes "ready env buf (sh_mem s)"
  shows "case edit [] cs of
      None \<Rightarrow> shell_round env buf cs s = None
    | Some (rest, line, echo) \<Rightarrow>
        \<exists>m'. shell_round env buf cs s = Some (rest, (if fst (line_effect env line) then Panicked else Returned)
          (s\<lparr>sh_mem := m', sh_out := sh_out s @ prompt @ echo @ snd (line_effect env line)\<rparr>)) \<and>
          (\<forall>x. x \<notin> region buf 256 \<longrightarrow> m' x = sh_mem s x)"
proof -
  let ?t = "s\<lparr>sh_out := sh_out s @ prompt\<rparr>"
  have pr: "say env prompt [] s = Some ?t" using assms by (intro say_plain) (simp_all add: plain_literals_def)
  have "editing env buf (sh_mem s) [] (sh_mem ?t)" using assms by (simp add: editing_def)
  note ref = read_line_refines [OF this, of cs]
  show ?thesis
  proof (cases "edit [] cs")
    case None
    then show ?thesis using ref pr by (simp add: shell_round_def)
  next
    case (Some e)
    obtain rest line echo where e: "e = (rest, line, echo)" by (cases e)
    from ref Some e obtain m1 where
      rl: "read_line env buf cs 0 ?t = Some (rest, length line, ?t\<lparr>sh_mem := m1, sh_out := sh_out ?t @ echo\<rparr>)"
      and ed: "editing env buf (sh_mem s) line m1" by auto
    have len: "length line \<le> 255" using ed by (simp add: editing_def)
    define m2 where "m2 = m1(buf + of_nat (length line) := 0)"
    have at: "buf + of_nat (length line) \<in> region buf 256" using len by (intro region_offset) simp_all
    have m1: "m1 x = sh_mem s x" if "x \<notin> region buf 256" for x
      using ed that region_mono [of 255 256 buf] by (auto simp: editing_def)
    have r2: "ready env buf m2"
    proof (rule ready_frame [OF assms])
      show "m2 x = sh_mem s x" if "x \<notin> region buf 256" for x using m1 [OF that] at that by (auto simp: m2_def)
    qed
    have ne: "of_nat i \<noteq> (of_nat (length line) :: u64)" if "i < length line" for i
    proof
      assume "of_nat i = (of_nat (length line) :: u64)"
      then have "unat (of_nat i :: u64) = unat (of_nat (length line) :: u64)" by simp
      with that len show False by (simp add: unat_of_nat_64)
    qed
    have "cstr m2 buf line"
      using ed ne by (auto simp: cstr_iff editing_def bytes_at_eq_iff m2_def)
    from execute_line [of env buf "?t\<lparr>sh_mem := m2, sh_out := sh_out ?t @ echo\<rparr>" line] r2 this len
    obtain m' where m': "execute env buf (?t\<lparr>sh_mem := m2, sh_out := sh_out ?t @ echo\<rparr>) =
        Some ((if fst (line_effect env line) then Panicked else Returned)
          (s\<lparr>sh_mem := m', sh_out := sh_out s @ prompt @ echo @ snd (line_effect env line)\<rparr>))"
      "\<And>x. x \<notin> region buf 256 \<Longrightarrow> m' x = m2 x" by auto
    have "m' x = sh_mem s x" if "x \<notin> region buf 256" for x using m'(2) [OF that] m1 [OF that] at that by (auto simp: m2_def)
    moreover let ?u = "?t\<lparr>sh_mem := m1, sh_out := sh_out ?t @ echo\<rparr>"
    have e1: "shell_round env buf cs s = Option.bind (execute env buf (?u\<lparr>sh_mem := m2\<rparr>)) (\<lambda>r. Some (rest, r))"
      using rl pr by (simp add: shell_round_def m2_def)
    have e2: "?u\<lparr>sh_mem := m2\<rparr> = ?t\<lparr>sh_mem := m2, sh_out := sh_out ?t @ echo\<rparr>" by (cases s) simp
    ultimately have "shell_round env buf cs s = Some (rest, (if fst (line_effect env line) then Panicked else Returned)
          (s\<lparr>sh_mem := m', sh_out := sh_out s @ prompt @ echo @ snd (line_effect env line)\<rparr>)) \<and>
        (\<forall>x. x \<notin> region buf 256 \<longrightarrow> m' x = sh_mem s x)" using e1 [unfolded e2 m'(1)] by simp
    then show ?thesis by (auto simp: Some e)
  qed
qed

lemma shell_rounds_refine:
  "ready env buf (sh_mem s) \<Longrightarrow>
     (case session n env cs of
        None \<Rightarrow> shell_rounds n env buf cs s = None
      | Some (rest, panicked, out) \<Rightarrow>
          \<exists>m'. shell_rounds n env buf cs s = Some (rest, (if panicked then Panicked else Returned) (s\<lparr>sh_mem := m', sh_out := sh_out s @ out\<rparr>)) \<and>
            (\<forall>x. x \<notin> region buf 256 \<longrightarrow> m' x = sh_mem s x))"
proof (induction n arbitrary: cs s)
  case 0
  then show ?case by (auto intro!: exI [of _ "sh_mem s"])
next
  case (Suc n)
  note rd = shell_round_refines [OF Suc.prems, of cs]
  show ?case
  proof (cases "edit [] cs")
    case None
    with rd show ?thesis by simp
  next
    case (Some e)
    obtain rest line echo where e: "e = (rest, line, echo)" by (cases e)
    from rd Some e obtain m1 where m1: "shell_round env buf cs s = Some (rest, (if fst (line_effect env line) then Panicked else Returned)
        (s\<lparr>sh_mem := m1, sh_out := sh_out s @ prompt @ echo @ snd (line_effect env line)\<rparr>))"
      "\<And>x. x \<notin> region buf 256 \<Longrightarrow> m1 x = sh_mem s x" by auto
    show ?thesis
    proof (cases "fst (line_effect env line)")
      case True
      then show ?thesis using m1 by (auto simp: Some e)
    next
      case False
      let ?s1 = "s\<lparr>sh_mem := m1, sh_out := sh_out s @ prompt @ echo @ snd (line_effect env line)\<rparr>"
      have "ready env buf (sh_mem ?s1)" using ready_frame [OF Suc.prems] m1(2) by simp
      from Suc.IH [OF this, of rest] show ?thesis
        using m1 False by (auto simp: Some e split: option.splits) 
    qed
  qed
qed

section \<open>Properties\<close>

text \<open>
  C5. The shell refines the abstract session for every input and number of rounds: it shows the
  banner and then exactly the abstract prompts, echoes and command texts, returns or panics as the
  abstract session does and waits for input exactly when that does; outside the 256 bytes of the line
  buffer it leaves memory alone.
\<close>
theorem shell_refines_session:
  assumes "ready env buf (sh_mem s)"
  shows "case session n env cs of
      None \<Rightarrow> shell_main n env buf cs s = None
    | Some (rest, panicked, out) \<Rightarrow>
        \<exists>m'. shell_main n env buf cs s =
            Some (rest, (if panicked then Panicked else Returned) (s\<lparr>sh_mem := m', sh_out := sh_out s @ concat banner @ out\<rparr>)) \<and>
          (\<forall>x. x \<notin> region buf 256 \<longrightarrow> m' x = sh_mem s x)"
proof -
  let ?t = "s\<lparr>sh_out := sh_out s @ concat banner\<rparr>"
  have "say_all env banner s = Some ?t" using assms by (intro say_all_plain) (auto simp: plain_literals_def)
  moreover have "ready env buf (sh_mem ?t)" using assms by simp
  note shell_rounds_refine [OF this, of n cs]
  ultimately show ?thesis by (auto simp: shell_main_def split: option.splits)
qed

text \<open>A memory with every literal in a kilobyte of its own.\<close>

definition placed :: "u8 list list" where "placed = plain_literals @ formats"

definition demo_platform :: platform where
  "demo_platform = \<lparr>lit = (\<lambda>l. 0x100000 + of_nat (1024 * length (takeWhile (\<lambda>k. k \<noteq> l) placed))), conv_buf = 0x9000,
    split_double = (\<lambda>_. (0, 0)), terminal = True, time_ms = 61000, pages = \<lparr>pmm_total_pages = 512, pmm_free_pages = 256, free_mem_head = 0\<rparr>\<rparr>"

definition demo_mem :: mem where
  "demo_mem x =
    (let a = unat (x - 0x100000); l = placed ! (a div 1024)
     in if a div 1024 < length placed \<and> a mod 1024 < length l then l ! (a mod 1024) else 0)"

lemma placed_facts: "length placed < 64" "l \<in> set placed \<Longrightarrow> length l < 1000 \<and> 0 \<notin> set l"
proof -
  show "length placed < 64" by code_simp
  have "list_all (\<lambda>l. length l < 1000 \<and> 0 \<notin> set l) placed" by code_simp
  then show "l \<in> set placed \<Longrightarrow> length l < 1000 \<and> 0 \<notin> set l" by (simp add: list_all_iff)
qed

lemma demo_ready: "ready demo_platform 0x8000 demo_mem"
proof -
  have "cstr demo_mem (lit demo_platform l) l \<and> disjoint_regions 0x9000 64 (lit demo_platform l) (length l + 1) \<and>
      disjoint_regions 0x8000 256 (lit demo_platform l) (length l + 1)" if l: "l \<in> set placed" for l
  proof -
    define i where "i = length (takeWhile (\<lambda>k. k \<noteq> l) placed)"
    have "takeWhile (\<lambda>k. k \<noteq> l) placed \<noteq> placed" using l by (auto simp: takeWhile_eq_all_conv)
    then have i: "i < length placed" unfolding i_def by (metis length_takeWhile_le nat_less_le takeWhile_eq_take take_all order_refl)
    then have il: "placed ! i = l" using nth_length_takeWhile [where P = "\<lambda>k. k \<noteq> l" and xs = placed] by (simp add: i_def)
    have n: "length l < 1000" "0 \<notin> set l" "i < 64" using placed_facts(1) placed_facts(2) [OF l] i by auto
    have at: "lit demo_platform l = 0x100000 + of_nat (1024 * i)" by (simp add: demo_platform_def i_def)
    have u: "unat (lit demo_platform l) = 0x100000 + 1024 * i" unfolding at using n(3) by (simp add: unat_word_ariths unat_of_nat_64)
    have off: "demo_mem (lit demo_platform l + of_nat j) = (if j < length l then l ! j else 0)" if "j \<le> length l" for j
    proof -
      have "unat (lit demo_platform l + of_nat j - 0x100000) = 1024 * i + j"
      proof -
        have "lit demo_platform l + of_nat j - 0x100000 = of_nat (1024 * i + j)" by (simp add: at)
        then show ?thesis using n that by (simp only:) (rule unat_of_nat_64, simp)
      qed
      moreover have "(1024 * i + j) div 1024 = i" "(1024 * i + j) mod 1024 = j" using n that by auto
      ultimately show ?thesis using i il by (simp add: demo_mem_def Let_def)
    qed
    have "cstr demo_mem (lit demo_platform l) l" using n(2) off by (auto simp: cstr_iff)
    moreover have "disjoint_regions 0x9000 64 (lit demo_platform l) (length l + 1)"
      "disjoint_regions 0x8000 256 (lit demo_platform l) (length l + 1)"
      using n by (intro disjoint_regionsI; simp add: u)+
    ultimately show ?thesis by blast
  qed
  moreover have "disjoint_regions 0x9000 64 0x8000 256" by (intro disjoint_regionsI) simp_all
  ultimately show ?thesis by (auto simp: ready_def placed_def demo_platform_def)
qed

theorem shell_refines_session_witness:
  "\<exists>m'. shell_main 1 demo_platform 0x8000 (ascii ''ecx'' @ [8] @ ascii ''ho hi'' @ [10]) \<lparr>sh_mem = demo_mem, sh_out = []\<rparr> =
     Some ([], Returned \<lparr>sh_mem = m', sh_out = concat banner @ prompt @ ascii ''ecx'' @ [8, 32, 8] @ ascii ''ho hi'' @ [10] @ ascii ''hi'' @ [10]\<rparr>)"
proof -
  let ?cs = "ascii ''ecx'' @ [8] @ ascii ''ho hi'' @ [10]" and ?s = "\<lparr>sh_mem = demo_mem, sh_out = []\<rparr>"
  have "edit [] ?cs = Some ([], ascii ''echo hi'', ascii ''ecx'' @ [8, 32, 8] @ ascii ''ho hi'' @ [10])"
    by (simp add: ascii_def printable_def)
  moreover have "line_effect demo_platform (ascii ''echo hi'') = (False, ascii ''hi'' @ [10])"
    by (simp add: line_effect_def command_of_def commands_def command_text_def ascii_def)
  ultimately have "session 1 demo_platform ?cs =
      Some ([], False, prompt @ ascii ''ecx'' @ [8, 32, 8] @ ascii ''ho hi'' @ [10] @ ascii ''hi'' @ [10])" by simp
  with shell_refines_session [of demo_platform "0x8000" ?s 1 ?cs] demo_ready show ?thesis by auto
qed

end
