(* ===== verification/Limits.thy ===== *)
theory Limits
  imports Pmm Stdlib "HOL-Library.Signed_Division"
begin

text \<open>
  Checked arithmetic and validation, \<^verbatim>\<open>klibc/limits.c\<close>. Integers of type \<open>int\<close> are 32-bit words read
  as signed; the C division truncates. A function with an output parameter gives its return value
  and the value stored, if any. The macros \<open>PATH_MAX\<close> and \<open>NAME_MAX\<close> are parameters: the file is
  compiled without them.
\<close>

section \<open>Operations\<close>

definition INT_MAX :: int where "INT_MAX = 2147483647"
definition INT_MIN :: int where "INT_MIN = - 2147483647 - 1"
definition SCHAR_MIN :: int where "SCHAR_MIN = - 128"
definition SCHAR_MAX :: int where "SCHAR_MAX = 127"
definition PID_MAX :: int where "PID_MAX = 32768"

definition safe_add :: "i32 \<Rightarrow> i32 \<Rightarrow> int \<times> i32 option" where
  "safe_add a b =
     (if sint a > 0 \<and> sint b > INT_MAX - sint a then (- 1, None)
      else if sint a < 0 \<and> sint b < INT_MIN - sint a then (- 1, None)
      else (0, Some (a + b)))"

definition safe_multiply :: "i32 \<Rightarrow> i32 \<Rightarrow> int \<times> i32 option" where
  "safe_multiply a b =
     (if (if sint a > 0 then
            if sint b > 0 then sint a > INT_MAX sdiv sint b
            else sint b < INT_MIN sdiv sint a
          else
            if sint b > 0 then sint a < INT_MIN sdiv sint b
            else sint a \<noteq> 0 \<and> sint b < INT_MAX sdiv sint a)
      then (- 1, None)
      else (0, Some (a * b)))"

partial_function (option) check_length :: "mem \<Rightarrow> u64 \<Rightarrow> (u64 \<Rightarrow> bool) \<Rightarrow> u64 \<Rightarrow> int option" where
  "check_length m path too_long len =
     (if m (path + len) \<noteq> 0 then
        if too_long (len + 1) then Some (- 1) else check_length m path too_long (len + 1)
      else Some 0)"

definition validate_path :: "u64 option \<Rightarrow> mem \<Rightarrow> u64 \<Rightarrow> int option" where
  "validate_path path_max m path =
     (case path_max of Some n \<Rightarrow> check_length m path (\<lambda>len. len \<ge> n) 0 | None \<Rightarrow> Some 0)"

definition validate_filename :: "u64 option \<Rightarrow> mem \<Rightarrow> u64 \<Rightarrow> int option" where
  "validate_filename name_max m name =
     (case name_max of Some n \<Rightarrow> check_length m name (\<lambda>len. len > n) 0 | None \<Rightarrow> Some 0)"

definition clamp_to_char :: "int \<Rightarrow> int" where
  "clamp_to_char v = (if v < SCHAR_MIN then SCHAR_MIN else if v > SCHAR_MAX then SCHAR_MAX else v)"

definition unsigned_to_signed :: "u32 \<Rightarrow> int \<times> i32 option" where
  "unsigned_to_signed val = (if uint val > INT_MAX then (- 1, None) else (0, Some val))"

definition safe_buffer_alloc :: "u64 \<Rightarrow> pmm \<Rightarrow> u64 \<Rightarrow> mem \<Rightarrow> (u64 \<times> mem) option" where
  "safe_buffer_alloc kernel_tlsf st sz m =
     (let max_alloc_size = pmm_get_free_pages st * PAGE_SIZE in
      if sz > max_alloc_size then Some (0, m)
      else
        do { (ptr, m1) \<leftarrow> malloc kernel_tlsf sz m;
             if ptr = 0 then Some (0, m1) else Some (ptr, m1) })"

definition validate_pid :: "int \<Rightarrow> int" where
  "validate_pid pid = (if pid \<le> 0 \<or> pid > PID_MAX then - 1 else 0)"

definition reverse_step :: "u32 \<times> u32 \<Rightarrow> u32 \<times> u32" where
  "reverse_step rv = (case rv of (res, v) \<Rightarrow> (push_bit 1 res OR (v AND 1), drop_bit 1 v))"

definition reverse_bits :: "u32 \<Rightarrow> u32" where
  "reverse_bits v = fst ((reverse_step ^^ 32) (0, v))"

function bits_loop :: "u32 \<Rightarrow> int \<Rightarrow> int" where
  "bits_loop v bits = (if v > 0 then bits_loop (drop_bit 1 v) (bits + 1) else bits)"
  by pat_completeness auto
termination
proof (relation "measure (\<lambda>(v, bits). unat v)", simp, goal_cases)
  case (1 v bits)
  then have "0 < unat v" by (simp add: unat_gt_0 word_gt_0)
  moreover have "unat (drop_bit 1 v) = unat v div 2"
  proof -
    have "unat v < 2 ^ 32" using unsigned_less [of v] by simp
    then show ?thesis by (simp only: unsigned_drop_bit_eq) (simp add: drop_bit_nat_def take_bit_nat_eq_self)
  qed
  ultimately show ?case by simp
qed

definition bits_needed :: "u32 \<Rightarrow> int" where
  "bits_needed v = (if v = 0 then 1 else bits_loop v 0)"

declare bits_loop.simps [simp del]

lemmas int_limits = INT_MAX_def INT_MIN_def SCHAR_MIN_def SCHAR_MAX_def PID_MAX_def

section \<open>Signed arithmetic\<close>

lemma sint_range: "INT_MIN \<le> sint (a :: i32)" "sint (a :: i32) \<le> INT_MAX"
  using sint_ge [of a] sint_lt [of a] by (simp_all add: int_limits)

lemma sint_exact:
  fixes x :: i32
  assumes "x = of_int k" and "INT_MIN \<le> k" and "k \<le> INT_MAX"
  shows "sint x = k"
  using assms by (simp add: signed_of_int int_limits signed_take_bit_int_eq_self)

lemma div_less_iff_int: "0 < b \<Longrightarrow> (n :: int) div b < a \<longleftrightarrow> n < a * b"
proof -
  assume b: "0 < b"
  have "a \<le> n div b \<longleftrightarrow> a * b \<le> n"
  proof
    assume "a \<le> n div b"
    then have "a * b \<le> n div b * b" using b by simp
    also have "\<dots> \<le> n" using b by (simp add: minus_mod_eq_div_mult [symmetric])
    finally show "a * b \<le> n" .
  next
    assume "a * b \<le> n"
    then have "(a * b) div b \<le> n div b" using b by (rule zdiv_mono1)
    then show "a \<le> n div b" using b by simp
  qed
  then show ?thesis by linarith
qed

text \<open>The overflow test of each quadrant, as the code writes it.\<close>

lemma overflow_test:
  fixes a b :: int
  assumes "INT_MIN \<le> a" "a \<le> INT_MAX" "INT_MIN \<le> b" "b \<le> INT_MAX"
  shows "0 < a \<Longrightarrow> 0 < b \<Longrightarrow> a > INT_MAX sdiv b \<longleftrightarrow> a * b > INT_MAX"
    and "0 < a \<Longrightarrow> b < INT_MIN sdiv a \<longleftrightarrow> a * b < INT_MIN"
    and "a < 0 \<Longrightarrow> b < INT_MAX sdiv a \<longleftrightarrow> a * b > INT_MAX"
proof -
  show "a > INT_MAX sdiv b \<longleftrightarrow> a * b > INT_MAX" if "0 < a" "0 < b"
    using that div_less_iff_int [of b INT_MAX a] by (simp add: signed_divide_int_def INT_MAX_def)
  have "INT_MIN sdiv a = - (2147483648 div a)" if "0 < a"
    using that by (simp add: signed_divide_int_def INT_MIN_def)
  then show "b < INT_MIN sdiv a \<longleftrightarrow> a * b < INT_MIN" if "0 < a"
    using that div_less_iff_int [of a 2147483648 "- b"] by (auto simp: INT_MIN_def mult.commute)
  have "INT_MAX sdiv a = - (INT_MAX div (- a))" if "a < 0"
    using that by (simp add: signed_divide_int_def INT_MAX_def)
  then show "b < INT_MAX sdiv a \<longleftrightarrow> a * b > INT_MAX" if "a < 0"
    using that div_less_iff_int [of "- a" INT_MAX "- b"] by (auto simp: mult.commute)
qed

section \<open>Bits\<close>

lemma reverse_iter:
  "n \<le> 32 \<Longrightarrow> (reverse_step ^^ n) (0, v) = (fst ((reverse_step ^^ n) (0, v)), drop_bit n v) \<and>
     (\<forall>i. bit (fst ((reverse_step ^^ n) (0, v))) i \<longleftrightarrow> i < n \<and> bit v (n - 1 - i))"
proof (induction n)
  case 0
  then show ?case by simp
next
  case (Suc n)
  obtain r where r: "(reverse_step ^^ n) (0, v) = (r, drop_bit n v)" "\<And>i. bit r i \<longleftrightarrow> i < n \<and> bit v (n - 1 - i)"
    using Suc by (metis Suc_leD fst_conv)
  have "bit (push_bit 1 r OR (drop_bit n v AND 1)) i \<longleftrightarrow> i < Suc n \<and> bit v (Suc n - 1 - i)" for i
  proof (cases i)
    case 0
    then show ?thesis by (simp only: bit_or_iff bit_and_iff bit_push_bit_iff bit_drop_bit_eq bit_1_iff comp_apply) simp
  next
    case (Suc j)
    have "i < Suc n \<Longrightarrow> i < 32" using Suc.prems by simp
    with Suc r(2) [of j] show ?thesis
      by (simp only: bit_or_iff bit_and_iff bit_push_bit_iff bit_1_iff) (auto simp: possible_bit_word)
  qed
  moreover have "(reverse_step ^^ Suc n) (0, v) = (push_bit 1 r OR (drop_bit n v AND 1), drop_bit (Suc n) v)"
    by (simp only: funpow.simps comp_apply r(1) reverse_step_def prod.case) simp
  ultimately show ?case by (simp only: fst_conv) blast
qed

lemma bits_loop_spec:
  "2 ^ n \<le> unat v \<Longrightarrow> unat v < 2 ^ Suc n \<Longrightarrow> bits_loop v b = b + int n + 1"
proof (induction n arbitrary: v b)
  case 0
  then have "v = 1" by (simp add: word_unat_eq_iff)
  then show ?case by (simp add: bits_loop.simps [of 1] bits_loop.simps [of 0])
next
  case (Suc n)
  have u: "unat (drop_bit 1 v) = unat v div 2"
  proof -
    have "unat v < 2 ^ 32" using unsigned_less [of v] by simp
    then show ?thesis by (simp only: unsigned_drop_bit_eq) (simp add: drop_bit_nat_def take_bit_nat_eq_self)
  qed
  have "(1 :: nat) \<le> 2 ^ Suc n" by simp
  then have "0 < v" using Suc.prems(1) by (simp only: word_less_nat_alt unsigned_0)
  moreover have "bits_loop (drop_bit 1 v) (b + 1) = b + 1 + int n + 1"
    using Suc.prems u by (intro Suc.IH) (simp_all add: less_mult_imp_div_less)
  ultimately show ?case by (subst bits_loop.simps) simp
qed

lemma check_length_spec:
  assumes "cstr m path s" and "k \<le> length s"
    and "\<And>i. k < i \<Longrightarrow> i \<le> length s \<Longrightarrow> too_long (of_nat i) \<longleftrightarrow> n < i" and "k \<le> n"
  shows "check_length m path too_long (of_nat k) = Some (if n < length s then - 1 else 0)"
  using assms(2-4)
proof (induction "length s - k" arbitrary: k)
  case 0
  then have "k = length s" by simp
  with 0 cstr_end [OF assms(1)] show ?case by (simp add: check_length.simps)
next
  case (Suc d)
  then have k: "k < length s" by simp
  have "m (path + of_nat k) = s ! k" using assms(1) k by (rule cstr_nth)
  moreover have "s ! k \<noteq> 0" using assms(1) k by (metis cstr_iff nth_mem)
  moreover have "too_long (of_nat (Suc k)) \<longleftrightarrow> n < Suc k" using Suc.prems(2) [of "Suc k"] k by simp
  moreover have "check_length m path too_long (of_nat (Suc k)) = Some (if n < length s then - 1 else 0)" if "\<not> n < Suc k"
    using Suc.hyps(2) k that Suc.prems(2) by (intro Suc.hyps(1)) auto
  ultimately show ?case using k Suc.prems(3)
    by (subst check_length.simps) (auto simp: add.commute [of 1])
qed

section \<open>Properties\<close>

text \<open>
  C37. \<open>safe_add\<close> and \<open>safe_multiply\<close> succeed exactly when the mathematical result fits an \<open>int\<close>, and
  then store exactly that result.
\<close>
theorem safe_arithmetic_exact:
  "(case safe_add a b of
      (r, Some x) \<Rightarrow> r = 0 \<and> sint x = sint a + sint b
    | (r, None) \<Rightarrow> r = - 1 \<and> \<not> (INT_MIN \<le> sint a + sint b \<and> sint a + sint b \<le> INT_MAX)) \<and>
   (case safe_multiply a b of
      (r, Some x) \<Rightarrow> r = 0 \<and> sint x = sint a * sint b
    | (r, None) \<Rightarrow> r = - 1 \<and> \<not> (INT_MIN \<le> sint a * sint b \<and> sint a * sint b \<le> INT_MAX))"
proof
  note ra = sint_range [of a] and rb = sint_range [of b]
  show "case safe_add a b of (r, Some x) \<Rightarrow> r = 0 \<and> sint x = sint a + sint b
    | (r, None) \<Rightarrow> r = - 1 \<and> \<not> (INT_MIN \<le> sint a + sint b \<and> sint a + sint b \<le> INT_MAX)"
  proof (cases "INT_MIN \<le> sint a + sint b \<and> sint a + sint b \<le> INT_MAX")
    case True
    then have "sint (a + b) = sint a + sint b" by (intro sint_exact) simp_all
    with True show ?thesis by (simp add: safe_add_def)
  next
    case False
    with ra rb show ?thesis by (auto simp: safe_add_def)
  qed
  note t = overflow_test [OF ra rb] overflow_test [OF rb ra]
  have fits: "INT_MIN \<le> sint a * sint b \<and> sint a * sint b \<le> INT_MAX \<longleftrightarrow> snd (safe_multiply a b) \<noteq> None"
  proof -
    consider "0 < sint a" "0 < sint b" | "0 < sint a" "sint b \<le> 0" | "sint a \<le> 0" "0 < sint b"
      | "sint a < 0" "sint b \<le> 0" | "sint a = 0" "sint b \<le> 0" by linarith
    then show ?thesis
    proof cases
      case 1
      then have "INT_MIN \<le> sint a * sint b" using mult_pos_pos [of "sint a" "sint b"] unfolding INT_MIN_def by linarith
      with 1 t(1) show ?thesis by (auto simp: safe_multiply_def)
    next
      case 2
      then have "sint a * sint b \<le> INT_MAX" using mult_nonneg_nonpos [of "sint a" "sint b"] unfolding INT_MAX_def by linarith
      with 2 t(2) show ?thesis by (auto simp: safe_multiply_def)
    next
      case 3
      then have "sint a * sint b \<le> INT_MAX" using mult_nonpos_nonneg [of "sint a" "sint b"] unfolding INT_MAX_def by linarith
      with 3 t(5) show ?thesis by (auto simp: safe_multiply_def mult.commute)
    next
      case 4
      then have "INT_MIN \<le> sint a * sint b" using mult_nonpos_nonpos [of "sint a" "sint b"] unfolding INT_MIN_def by linarith
      with 4 t(3) show ?thesis by (auto simp: safe_multiply_def)
    next
      case 5
      then show ?thesis by (simp add: safe_multiply_def int_limits)
    qed
  qed
  show "case safe_multiply a b of (r, Some x) \<Rightarrow> r = 0 \<and> sint x = sint a * sint b
    | (r, None) \<Rightarrow> r = - 1 \<and> \<not> (INT_MIN \<le> sint a * sint b \<and> sint a * sint b \<le> INT_MAX)"
  proof (cases "INT_MIN \<le> sint a * sint b \<and> sint a * sint b \<le> INT_MAX")
    case True
    then have "sint (a * b) = sint a * sint b" by (intro sint_exact) simp_all
    with True fits show ?thesis by (auto simp: safe_multiply_def split: if_splits)
  next
    case False
    with fits show ?thesis by (auto simp: safe_multiply_def split: if_splits)
  qed
qed

text \<open>
  C2. \<open>reverse_bits\<close> moves bit \<open>i\<close> to bit \<open>31 - i\<close>, and \<open>bits_needed\<close> is the length of the binary
  numeral: the least number of bits, at least one, that the value fits in.
\<close>
theorem bit_utilities_correct:
  "(\<forall>i. bit (reverse_bits v) i \<longleftrightarrow> i < 32 \<and> bit v (31 - i)) \<and>
   1 \<le> bits_needed v \<and> unat v < 2 ^ nat (bits_needed v) \<and>
   (bits_needed v = 1 \<or> 2 ^ nat (bits_needed v - 1) \<le> unat v)"
proof (intro conjI)
  show "\<forall>i. bit (reverse_bits v) i \<longleftrightarrow> i < 32 \<and> bit v (31 - i)"
    using reverse_iter [of 32 v] by (simp add: reverse_bits_def)
  have "1 \<le> bits_needed v \<and> unat v < 2 ^ nat (bits_needed v) \<and> (bits_needed v = 1 \<or> 2 ^ nat (bits_needed v - 1) \<le> unat v)"
  proof (cases "v = 0")
    case True
    then show ?thesis by (simp add: bits_needed_def)
  next
    case False
    then obtain n where n: "2 ^ n \<le> unat v" "unat v < 2 ^ Suc n" by (rule log_ex)
    then have "bits_needed v = int n + 1" using False bits_loop_spec [OF n, of 0] by (simp add: bits_needed_def)
    moreover from this have "nat (bits_needed v) = Suc n" "nat (bits_needed v - 1) = n" by simp_all
    ultimately show ?thesis using n by simp
  qed
  then show "1 \<le> bits_needed v" "unat v < 2 ^ nat (bits_needed v)"
    "bits_needed v = 1 \<or> 2 ^ nat (bits_needed v - 1) \<le> unat v" by blast+
qed

text \<open>
  C3. With a limit, \<open>validate_path\<close> rejects exactly the strings of the limit's length or more and
  \<open>validate_filename\<close> those that exceed it; as compiled, without the limits, both accept everything.
\<close>
theorem validate_lengths:
  assumes "cstr m p s" and "0 < n" and "unat n < 2 ^ 63" and "length s < 2 ^ 63"
  shows "validate_path (Some n) m p = Some (if unat n \<le> length s then - 1 else 0) \<and>
    validate_filename (Some n) m p = Some (if unat n < length s then - 1 else 0) \<and>
    validate_path None m p = Some 0 \<and> validate_filename None m p = Some 0"
proof -
  have n: "0 < unat n" using assms(2) by (simp add: unat_gt_0 word_gt_0)
  have u: "unat (of_nat i :: u64) = i" if "i \<le> length s" for i
    using that assms(4) by (intro unat_of_nat_64) simp
  have "check_length m p (\<lambda>len. len \<ge> n) (of_nat 0) = Some (if unat n - 1 < length s then - 1 else 0)"
    using assms(1) n u by (intro check_length_spec) (auto simp: word_le_nat_alt)
  moreover have "check_length m p (\<lambda>len. len > n) (of_nat 0) = Some (if unat n < length s then - 1 else 0)"
    using assms(1) n u by (intro check_length_spec) (auto simp: word_less_nat_alt)
  ultimately show ?thesis using n by (auto simp: validate_path_def validate_filename_def)
qed

theorem validate_lengths_witness:
  "validate_path (Some 2) (store_bytes (\<lambda>_. 0) 0x100 [47, 97]) 0x100 = Some (- 1)"
proof -
  have "cstr (store_bytes (\<lambda>_. 0) 0x100 [47, 97]) 0x100 [47, 97]" by simp
  from validate_lengths [OF this, of 2] show ?thesis by simp
qed

end
