(* ===== verification/KMath.thy ===== *)
theory KMath
  imports TlsfBits
begin

text \<open>
  Integer helpers and byte order: \<^verbatim>\<open>tools/math.c\<close>, \<^verbatim>\<open>tools/includes/math.h\<close> and
  \<^verbatim>\<open>tools/includes/endian.h\<close>, for the little-endian target. The floating-point routines are inline
  x87 assembly and are not modelled.
\<close>

section \<open>Integer helpers\<close>

definition abs32 :: "i32 \<Rightarrow> u32" where "abs32 x = (if sint x < 0 then - x else x)"
definition abs16 :: "16 word \<Rightarrow> u16" where "abs16 x = (if sint x < 0 then - x else x)"
definition abs8 :: "8 word \<Rightarrow> u8" where "abs8 x = (if sint x < 0 then - x else x)"
definition min32 :: "i32 \<Rightarrow> i32 \<Rightarrow> u32" where "min32 a b = (if sint a < sint b then a else b)"
definition max32 :: "i32 \<Rightarrow> i32 \<Rightarrow> u32" where "max32 a b = (if sint a > sint b then a else b)"

partial_function (option) log2u_loop :: "u32 \<Rightarrow> u32 \<Rightarrow> u32 option" where
  "log2u_loop num counter = (if num \<noteq> 1 then log2u_loop (drop_bit 1 num) (counter + 1) else Some counter)"

definition log2u :: "u32 \<Rightarrow> u32 option" where
  "log2u number = log2u_loop number 0"

text \<open>
  The shift loop compares a 32-bit product, which wraps, with the 64-bit remainder; at 32 the
  second operand of the conjunction ends it.
\<close>

function find_shift :: "u32 \<Rightarrow> u64 \<Rightarrow> nat \<Rightarrow> nat" where
  "find_shift d r shift = (if ucast (push_bit shift d) \<le> r \<and> shift < 32 then find_shift d r (shift + 1) else shift)"
  by pat_completeness auto
termination
  by (relation "measure (\<lambda>(d, r, shift). 32 - shift)") auto

primrec div_steps :: "nat \<Rightarrow> u32 \<Rightarrow> u64 \<times> u64 \<Rightarrow> u64 \<times> u64" where
  "div_steps 0 d qr = qr"
| "div_steps (Suc i) d qr =
     div_steps i d (case qr of (q, r) \<Rightarrow>
       if r \<ge> push_bit i (ucast d) then (q OR push_bit i 1, r - push_bit i (ucast d)) else (q, r))"

text \<open>Division by zero raises the processor's exception 0: \<open>None\<close>.\<close>

definition udivdi3 :: "u64 \<Rightarrow> u32 \<Rightarrow> u64 option" where
  "udivdi3 n d =
     (if d = 0 then None
      else if n < ucast d then Some 0
      else Some (fst (div_steps (find_shift d n 0) d (0, n))))"

definition umoddi3 :: "u64 \<Rightarrow> u32 \<Rightarrow> u64 option" where
  "umoddi3 n d =
     (if d = 0 then None
      else if n < ucast d then Some n
      else Some (snd (div_steps (find_shift d n 0) d (0, n))))"

declare find_shift.simps [simp del]

section \<open>Byte order\<close>

definition be64toh :: "u64 \<Rightarrow> u64" where
  "be64toh be =
     drop_bit 56 (be AND 0xFF00000000000000) OR
     drop_bit 40 (be AND 0x00FF000000000000) OR
     drop_bit 24 (be AND 0x0000FF0000000000) OR
     drop_bit 8 (be AND 0x000000FF00000000) OR
     push_bit 8 (be AND 0x00000000FF000000) OR
     push_bit 24 (be AND 0x0000000000FF0000) OR
     push_bit 40 (be AND 0x000000000000FF00) OR
     push_bit 56 (be AND 0x00000000000000FF)"

definition le64toh :: "u64 \<Rightarrow> u64" where "le64toh le = le"

definition be32toh :: "u32 \<Rightarrow> u32" where
  "be32toh be =
     drop_bit 24 (be AND 0xFF000000) OR
     drop_bit 8 (be AND 0x00FF0000) OR
     push_bit 8 (be AND 0x0000FF00) OR
     push_bit 24 (be AND 0x000000FF)"

definition le32toh :: "u32 \<Rightarrow> u32" where "le32toh le = le"

text \<open>The operands are promoted to \<open>int\<close> and the result is cut to 16 bits again.\<close>

definition be16toh :: "u16 \<Rightarrow> u16" where
  "be16toh be = ucast (drop_bit 8 ((ucast be :: i32) AND 0xFF00) OR push_bit 8 ((ucast be :: i32) AND 0x00FF))"

definition le16toh :: "u16 \<Rightarrow> u16" where "le16toh le = le"

definition bew64toh :: "u64 \<Rightarrow> u64" where
  "bew64toh be =
     drop_bit 48 (be AND 0xFFFF000000000000) OR
     drop_bit 16 (be AND 0x0000FFFF00000000) OR
     push_bit 16 (be AND 0x00000000FFFF0000) OR
     push_bit 48 (be AND 0x000000000000FFFF)"

definition lew64toh :: "u64 \<Rightarrow> u64" where "lew64toh le = le"

definition bew32toh :: "u32 \<Rightarrow> u32" where
  "bew32toh be = drop_bit 16 (be AND 0xFFFF0000) OR push_bit 16 (be AND 0x0000FFFF)"

definition lew32toh :: "u32 \<Rightarrow> u32" where "lew32toh le = le"

definition lebbew64toh :: "u64 \<Rightarrow> u64" where "lebbew64toh lbe = bew64toh (le64toh lbe)"
definition beblew64toh :: "u64 \<Rightarrow> u64" where "beblew64toh lbe = lew64toh (be64toh lbe)"
definition lebbew32toh :: "u32 \<Rightarrow> u32" where "lebbew32toh lbe = bew32toh (le32toh lbe)"
definition beblew32toh :: "u32 \<Rightarrow> u32" where "beblew32toh lbe = lew32toh (be32toh lbe)"

section \<open>Division\<close>

lemma find_shift_spec:
  "s \<le> 32 \<Longrightarrow> find_shift d r s \<le> 32 \<and> (find_shift d r s < 32 \<longrightarrow> unat r < unat d * 2 ^ find_shift d r s)"
proof (induction d r s rule: find_shift.induct)
  case (1 d r shift)
  show ?case
  proof (cases "ucast (push_bit shift d) \<le> r \<and> shift < 32")
    case True
    then have "find_shift d r shift = find_shift d r (shift + 1)" by (subst find_shift.simps) simp
    with 1 True show ?thesis by simp
  next
    case False
    have "unat r < unat d * 2 ^ shift" if "shift < 32"
    proof -
      have "unat (push_bit shift d) \<le> unat d * 2 ^ shift"
        by (simp add: unsigned_push_bit_eq push_bit_nat_def take_bit_nat_less_eq_self)
      moreover have "r < ucast (push_bit shift d)" using False that by simp
      then have "unat r < unat (ucast (push_bit shift d) :: u64)" by (simp add: word_less_nat_alt)
      moreover have "unat (ucast (push_bit shift d) :: u64) = unat (push_bit shift d)"
      proof -
        have "unat (push_bit shift d) < 2 ^ 32" using unsigned_less [of "push_bit shift d"] by simp
        then show ?thesis by (simp add: unsigned_ucast_eq take_bit_nat_eq_self)
      qed
      ultimately show ?thesis by linarith
    qed
    moreover have "find_shift d r shift = shift" using False by (subst find_shift.simps) auto
    ultimately show ?thesis using "1.prems" by simp
  qed
qed

lemma shifted_divisor: "i \<le> 32 \<Longrightarrow> unat (push_bit i (ucast d) :: u64) = unat (d :: u32) * 2 ^ i"
proof -
  assume i: "i \<le> 32"
  have d: "unat d < 2 ^ 32" using unsigned_less [of d] by simp
  have u: "unat (ucast d :: u64) = unat d" using d by (simp add: unsigned_ucast_eq take_bit_nat_eq_self)
  have "unat d * 2 ^ i < 2 ^ 32 * 2 ^ i" using d by simp
  also have "\<dots> \<le> 2 ^ 64" using i power_increasing [of "32 + i" 64 "2 :: nat"] by (simp add: power_add)
  finally show ?thesis unfolding unsigned_push_bit_eq u
    by (simp add: push_bit_nat_def take_bit_nat_eq_self)
qed

text \<open>Long division: the quotient gathers the bits from \<open>i\<close> down, the remainder shrinks below the divisor.\<close>

lemma div_steps_spec:
  assumes "i \<le> 32" and "unat r < unat d * 2 ^ i" and "\<And>j. j < i \<Longrightarrow> \<not> bit q j"
  shows "unat (fst (div_steps i d (q, r))) * unat d + unat (snd (div_steps i d (q, r))) = unat q * unat d + unat r \<and>
    unat (snd (div_steps i d (q, r))) < unat d"
  using assms
proof (induction i arbitrary: q r)
  case 0
  then show ?case by simp
next
  case (Suc i)
  let ?s = "push_bit i (ucast d) :: u64"
  have s: "unat ?s = unat d * 2 ^ i" using Suc.prems(1) by (intro shifted_divisor) simp
  show ?case
  proof (cases "r \<ge> ?s")
    case True
    then have ur: "unat (r - ?s) = unat r - unat d * 2 ^ i" using s by (simp add: unat_sub)
    have lt: "unat (r - ?s) < unat d * 2 ^ i" using ur Suc.prems(2) by simp
    have nb: "\<not> bit q i" using Suc.prems(3) by simp
    have "q AND push_bit i 1 = 0" using nb by (intro bit_word_eqI) (auto simp: bit_simps)
    then have "unat (q AND push_bit i 1) = 0" by simp
    then have "unat q AND unat (push_bit i 1 :: u64) = 0" by (simp only: unsigned_and_eq)
    then have "unat q + unat (push_bit i 1 :: u64) = unat q OR unat (push_bit i 1 :: u64)"
      by (rule disjunctive_add_eq_or)
    moreover have "unat (push_bit i 1 :: u64) = 2 ^ i"
      using shifted_divisor [of i 1] Suc.prems(1) by simp
    ultimately have uq: "unat (q OR push_bit i 1) = unat q + 2 ^ i" by (simp only: unsigned_or_eq)
    have "\<not> bit (q OR push_bit i 1) j" if "j < i" for j
      using Suc.prems(3) [of j] that by (auto simp: bit_simps)
    from Suc.IH [OF _ lt this] Suc.prems(1) True uq ur s show ?thesis
      by (simp add: word_le_nat_alt distrib_right)
  next
    case False
    then have "unat r < unat d * 2 ^ i" using s by (simp add: word_le_nat_alt not_le)
    with Suc.IH [of r q] Suc.prems False show ?thesis by simp
  qed
qed

section \<open>Logarithm\<close>

lemma unat_half: "unat (drop_bit 1 v :: u32) = unat v div 2"
proof -
  have "unat v < 2 ^ 32" using unsigned_less [of v] by simp
  then show ?thesis by (simp only: unsigned_drop_bit_eq) (simp add: drop_bit_nat_def take_bit_nat_eq_self)
qed

lemma log2u_loop_spec:
  "2 ^ n \<le> unat v \<Longrightarrow> unat v < 2 ^ Suc n \<Longrightarrow> log2u_loop v c = Some (c + of_nat n)"
proof (induction n arbitrary: v c)
  case 0
  then have "v = 1" by (simp add: word_unat_eq_iff)
  then show ?case by (simp add: log2u_loop.simps)
next
  case (Suc n)
  have "(2 :: nat) \<le> 2 ^ Suc n" by simp
  then have "v \<noteq> 1" using Suc.prems(1) by (metis not_less_eq_eq numeral_2_eq_2 le_trans le_refl unsigned_1 One_nat_def)
  moreover have "log2u_loop (drop_bit 1 v) (c + 1) = Some (c + 1 + of_nat n)"
    using Suc.prems unat_half [of v] by (intro Suc.IH) (simp_all add: less_mult_imp_div_less)
  ultimately show ?case by (subst log2u_loop.simps) (simp add: ac_simps)
qed

lemma log2u_loop_returns: "log2u_loop v c = Some k \<Longrightarrow> v \<noteq> 0"
proof (erule log2u_loop.raw_induct [where P = "\<lambda>v c k. v \<noteq> 0", rotated])
  fix loop :: "u32 \<Rightarrow> u32 \<Rightarrow> u32 option" and num counter k
  assume IH: "\<And>v c k. loop v c = Some k \<Longrightarrow> v \<noteq> 0"
    and step: "(if num \<noteq> 1 then loop (drop_bit 1 num) (counter + 1) else Some counter) = Some k"
  show "num \<noteq> 0"
  proof (cases "num = 1")
    case True
    then show ?thesis by simp
  next
    case False
    then have "loop (drop_bit 1 num) (counter + 1) = Some k" using step by simp
    from IH [OF this] show ?thesis by auto
  qed
qed

section \<open>Reversal of units\<close>

text \<open>A function that reverses the order of the \<open>N\<close> units of \<open>u\<close> bits of a word.\<close>

definition reverses :: "nat \<Rightarrow> nat \<Rightarrow> ('a::len word \<Rightarrow> 'a word) \<Rightarrow> bool" where
  "reverses u N f \<longleftrightarrow> 0 < u \<and> LENGTH('a) = u * N \<and>
     (\<forall>x k i. k < N \<longrightarrow> i < u \<longrightarrow> bit (f x) (u * k + i) = bit x (u * (N - 1 - k) + i))"

lemma reverses_involution:
  fixes f :: "'a::len word \<Rightarrow> 'a word"
  assumes "reverses u N f"
  shows "f (f x) = x"
proof (rule bit_word_eqI)
  fix n assume n: "n < LENGTH('a)"
  let ?k = "n div u" and ?i = "n mod u"
  have u: "0 < u" "LENGTH('a) = u * N" using assms by (simp_all add: reverses_def)
  have b: "bit (f y) (u * k + i) = bit y (u * (N - 1 - k) + i)" if "k < N" "i < u" for y k i
    using assms that by (simp add: reverses_def)
  have k: "?k < N" "?i < u" using n u by (simp_all add: less_mult_imp_div_less mult.commute)
  have e: "n = u * ?k + ?i" by simp
  have "bit (f (f x)) (u * ?k + ?i) = bit (f x) (u * (N - 1 - ?k) + ?i)" by (rule b [OF k])
  also have "\<dots> = bit x (u * (N - 1 - (N - 1 - ?k)) + ?i)" using k by (intro b) auto
  also have "N - 1 - (N - 1 - ?k) = ?k" using k(1) by simp
  finally show "bit (f (f x)) n = bit x n" by simp
qed

lemma nth_le_split: "k < n \<Longrightarrow> le_split n w ! k = ucast (drop_bit (8 * k) w)"
  by (induction n arbitrary: k w) (auto simp: less_Suc_eq_0_disj add.commute)

lemma reverses_bytes:
  fixes f :: "'a::len word \<Rightarrow> 'a word"
  assumes "reverses 8 N f"
  shows "le_split N (f x) = rev (le_split N x)"
proof (rule nth_equalityI)
  show "length (le_split N (f x)) = length (rev (le_split N x))" by simp
  fix k assume "k < length (le_split N (f x))"
  then have k: "k < N" by simp
  have len: "LENGTH('a) = 8 * N" using assms by (simp add: reverses_def)
  have "(ucast (drop_bit (8 * k) (f x)) :: u8) = ucast (drop_bit (8 * (N - 1 - k)) x)"
  proof (rule bit_word_eqI)
    fix i assume "i < LENGTH(8)"
    then show "bit (ucast (drop_bit (8 * k) (f x)) :: u8) i = bit (ucast (drop_bit (8 * (N - 1 - k)) x) :: u8) i"
      using assms k by (simp add: reverses_def bit_ucast_iff bit_drop_bit_eq)
  qed
  with k show "le_split N (f x) ! k = rev (le_split N x) ! k" by (simp add: nth_le_split rev_nth)
qed

lemma unit_masks:
  "(0xFF :: u64) = mask 8" "(0xFF00 :: u64) = push_bit 8 (mask 8)" "(0xFF0000 :: u64) = push_bit 16 (mask 8)"
  "(0xFF000000 :: u64) = push_bit 24 (mask 8)" "(0xFF00000000 :: u64) = push_bit 32 (mask 8)"
  "(0xFF0000000000 :: u64) = push_bit 40 (mask 8)" "(0xFF000000000000 :: u64) = push_bit 48 (mask 8)"
  "(0xFF00000000000000 :: u64) = push_bit 56 (mask 8)"
  "(0xFFFF :: u64) = mask 16" "(0xFFFF0000 :: u64) = push_bit 16 (mask 16)"
  "(0xFFFF00000000 :: u64) = push_bit 32 (mask 16)" "(0xFFFF000000000000 :: u64) = push_bit 48 (mask 16)"
  "(0xFF :: u32) = mask 8" "(0xFF00 :: u32) = push_bit 8 (mask 8)" "(0xFF0000 :: u32) = push_bit 16 (mask 8)"
  "(0xFF000000 :: u32) = push_bit 24 (mask 8)" "(0xFFFF :: u32) = mask 16" "(0xFFFF0000 :: u32) = push_bit 16 (mask 16)"
  by (simp_all add: mask_eq_exp_minus_1)

lemmas unit_bits = bit_or_iff bit_and_iff bit_drop_bit_eq bit_push_bit_iff bit_mask_iff comp_apply possible_bit_word

lemma be64toh_reverses: "reverses 8 8 be64toh"
proof -
  have "bit (be64toh x) (8 * k + i) = bit x (8 * (7 - k) + i)" if "k < 8" "i < 8" for x k i
  proof -
    have "k \<in> {0, 1, 2, 3, 4, 5, 6, 7}" using that(1) by auto
    then show ?thesis unfolding be64toh_def unit_masks using that(2)
      by (elim insertE emptyE; simp only: unit_bits; simp)
  qed
  then show ?thesis by (simp add: reverses_def)
qed

lemma be32toh_reverses: "reverses 8 4 be32toh"
proof -
  have "bit (be32toh x) (8 * k + i) = bit x (8 * (3 - k) + i)" if "k < 4" "i < 8" for x k i
  proof -
    have "k \<in> {0, 1, 2, 3}" using that(1) by auto
    then show ?thesis unfolding be32toh_def unit_masks using that(2)
      by (elim insertE emptyE; simp only: unit_bits; simp)
  qed
  then show ?thesis by (simp add: reverses_def)
qed

lemma be16toh_reverses: "reverses 8 2 be16toh"
proof -
  have "bit (be16toh x) (8 * k + i) = bit x (8 * (1 - k) + i)" if "k < 2" "i < 8" for x k i
  proof -
    have "k \<in> {0, 1}" using that(1) by auto
    then show ?thesis unfolding be16toh_def unit_masks using that(2)
      by (elim insertE emptyE; simp only: unit_bits bit_ucast_iff; simp)
  qed
  then show ?thesis by (simp add: reverses_def)
qed

lemma bew64toh_reverses: "reverses 16 4 bew64toh"
proof -
  have "bit (bew64toh x) (16 * k + i) = bit x (16 * (3 - k) + i)" if "k < 4" "i < 16" for x k i
  proof -
    have "k \<in> {0, 1, 2, 3}" using that(1) by auto
    then show ?thesis unfolding bew64toh_def unit_masks using that(2)
      by (elim insertE emptyE; simp only: unit_bits; simp)
  qed
  then show ?thesis by (simp add: reverses_def)
qed

lemma bew32toh_reverses: "reverses 16 2 bew32toh"
proof -
  have "bit (bew32toh x) (16 * k + i) = bit x (16 * (1 - k) + i)" if "k < 2" "i < 16" for x k i
  proof -
    have "k \<in> {0, 1}" using that(1) by auto
    then show ?thesis unfolding bew32toh_def unit_masks using that(2)
      by (elim insertE emptyE; simp only: unit_bits; simp)
  qed
  then show ?thesis by (simp add: reverses_def)
qed

section \<open>Properties\<close>

text \<open>
  For a quotient that fits 32 bits, the long division returns quotient and remainder; the
  smallest quotient that does not fit comes out one too small.
\<close>
theorem udivdi3_correct:
  "(\<forall>n d. d \<noteq> 0 \<and> unat n < unat d * 2 ^ 32 \<longrightarrow>
      udivdi3 n d = Some (n div ucast d) \<and> umoddi3 n d = Some (n mod ucast d)) \<and>
   udivdi3 0x100000000 1 = Some 0xFFFFFFFF"
proof (intro conjI allI impI)
  fix n :: u64 and d :: u32
  assume a: "d \<noteq> 0 \<and> unat n < unat d * 2 ^ 32"
  have "unat d < 2 ^ 32" using unsigned_less [of d] by simp
  then have ud: "unat (ucast d :: u64) = unat d" by (simp add: unsigned_ucast_eq take_bit_nat_eq_self)
  let ?k = "find_shift d n 0"
  have k: "?k \<le> 32" "unat n < unat d * 2 ^ ?k"
    using find_shift_spec [of 0 d n] a by (auto simp: le_less)
  let ?qr = "div_steps ?k d (0, n)"
  have s: "unat (fst ?qr) * unat d + unat (snd ?qr) = unat n" "unat (snd ?qr) < unat d"
    using div_steps_spec [OF k, of 0] by simp_all
  have "unat n div unat d = unat (fst ?qr)" "unat n mod unat d = unat (snd ?qr)"
    unfolding s(1) [symmetric] using s(2) by simp_all
  then have q: "fst ?qr = n div ucast d" "snd ?qr = n mod ucast d"
    by (simp_all add: word_unat_eq_iff unat_div unat_mod ud)
  have small: "n div ucast d = 0 \<and> n mod ucast d = n" if "n < ucast d"
    using that ud by (simp add: word_unat_eq_iff unat_div unat_mod word_less_nat_alt)
  show "udivdi3 n d = Some (n div ucast d)" using a q small by (simp add: udivdi3_def)
  show "umoddi3 n d = Some (n mod ucast d)" using a q small by (simp add: umoddi3_def)
next
  show "udivdi3 0x100000000 1 = Some 0xFFFFFFFF" by code_simp
qed

theorem udivdi3_correct_witness: "udivdi3 1000000007 10 = Some 100000000 \<and> umoddi3 1000000007 10 = Some 7"
proof -
  have "(10 :: u32) \<noteq> 0 \<and> unat (1000000007 :: u64) < unat (10 :: u32) * 2 ^ 32" by simp
  with conjunct1 [OF udivdi3_correct] have "udivdi3 1000000007 10 = Some (1000000007 div ucast (10 :: u32)) \<and>
    umoddi3 1000000007 10 = Some (1000000007 mod ucast (10 :: u32))" by blast
  then show ?thesis by simp
qed

text \<open>C2. \<open>log2u\<close> returns the integer part of the binary logarithm, and on zero it never returns.\<close>
theorem log2u_correct:
  "(\<forall>v. v \<noteq> 0 \<longrightarrow> (\<exists>n. log2u v = Some (of_nat n) \<and> 2 ^ n \<le> unat v \<and> unat v < 2 ^ Suc n)) \<and> log2u 0 = None"
proof (intro conjI allI impI)
  fix v :: u32 assume "v \<noteq> 0"
  then obtain n where "2 ^ n \<le> unat v" "unat v < 2 ^ Suc n" by (rule log_ex)
  then show "\<exists>n. log2u v = Some (of_nat n) \<and> 2 ^ n \<le> unat v \<and> unat v < 2 ^ Suc n"
    using log2u_loop_spec [of n v 0] by (auto simp: log2u_def)
next
  show "log2u 0 = None" using log2u_loop_returns [of 0 0] by (cases "log2u 0") (auto simp: log2u_def)
qed

theorem log2u_correct_witness: "\<exists>n. log2u 1000 = Some (of_nat n) \<and> 2 ^ n \<le> (1000 :: nat) \<and> (1000 :: nat) < 2 ^ Suc n"
proof -
  have "(1000 :: u32) \<noteq> 0" by simp
  with conjunct1 [OF log2u_correct] have "\<exists>n. log2u 1000 = Some (of_nat n) \<and> 2 ^ n \<le> unat (1000 :: u32) \<and> unat (1000 :: u32) < 2 ^ Suc n"
    by blast
  then show ?thesis by simp
qed

text \<open>
  The big-endian conversions reverse the bytes of their argument, the word-wise ones the 16-bit
  units, and each is its own inverse.
\<close>
theorem byte_order_correct:
  "le_split 8 (be64toh x) = rev (le_split 8 x) \<and> le_split 4 (be32toh y) = rev (le_split 4 y) \<and>
   le_split 2 (be16toh z) = rev (le_split 2 z) \<and>
   be64toh (be64toh x) = x \<and> be32toh (be32toh y) = y \<and> be16toh (be16toh z) = z \<and>
   bew64toh (bew64toh x) = x \<and> bew32toh (bew32toh y) = y"
  by (intro conjI reverses_bytes reverses_involution
      be64toh_reverses be32toh_reverses be16toh_reverses bew64toh_reverses bew32toh_reverses)
    (rule reverses_involution be64toh_reverses be32toh_reverses be16toh_reverses bew64toh_reverses bew32toh_reverses)+

end
