(* ===== verification/Gdt.thy ===== *)
theory Gdt
  imports Prelude "HOL-Library.Monad_Syntax"
begin

text \<open>
  Segment descriptors and the task state segment (\<open>arch/x86_64/gdt.c\<close>). The descriptor table is a list
  of packed entries; the processor sees it as bytes, so a descriptor is read back from its eight (or,
  for a system descriptor, sixteen) bytes the way the hardware does. The instructions the code uses are modelled with what the
  processor checks and writes: loading a segment register faults on a bad descriptor and sets its accessed bit, \<open>ltr\<close> faults
  on anything but an available task state segment and marks it busy.
\<close>

section \<open>Descriptors\<close>

record GDTEntry_t =
  LimitLow :: u16
  BaseLow :: u16
  BaseMiddle :: u8
  Access :: u8
  FlagsLimitHi :: u8
  BaseHigh :: u8

record GDTDescriptor_t =
  Limit :: u16
  Ptr :: u64

definition GDT_ACCESS_CODE_READABLE :: u8 where "GDT_ACCESS_CODE_READABLE = 0x02"
definition GDT_ACCESS_DATA_WRITEABLE :: u8 where "GDT_ACCESS_DATA_WRITEABLE = 0x02"
definition GDT_ACCESS_DATA_SEGMENT :: u8 where "GDT_ACCESS_DATA_SEGMENT = 0x10"
definition GDT_ACCESS_CODE_SEGMENT :: u8 where "GDT_ACCESS_CODE_SEGMENT = 0x18"
definition GDT_ACCESS_RING0 :: u8 where "GDT_ACCESS_RING0 = 0x00"
definition GDT_ACCESS_RING3 :: u8 where "GDT_ACCESS_RING3 = 0x60"
definition GDT_ACCESS_PRESENT :: u8 where "GDT_ACCESS_PRESENT = 0x80"
definition GDT_FLAG_64BIT :: u8 where "GDT_FLAG_64BIT = 0x20"
definition GDT_FLAG_GRANULARITY_4K :: u8 where "GDT_FLAG_GRANULARITY_4K = 0x80"
definition GDT_CODE_SEGMENT :: u16 where "GDT_CODE_SEGMENT = 0x08"
definition GDT_DATA_SEGMENT :: u16 where "GDT_DATA_SEGMENT = 0x10"

lemmas gdt_consts = GDT_ACCESS_CODE_READABLE_def GDT_ACCESS_DATA_WRITEABLE_def GDT_ACCESS_DATA_SEGMENT_def
  GDT_ACCESS_CODE_SEGMENT_def GDT_ACCESS_RING0_def GDT_ACCESS_RING3_def GDT_ACCESS_PRESENT_def
  GDT_FLAG_64BIT_def GDT_FLAG_GRANULARITY_4K_def

definition GDT_LIMIT_LOW :: "u32 \<Rightarrow> u16" where "GDT_LIMIT_LOW limit = ucast (limit AND 0xFFFF)"
definition GDT_BASE_LOW :: "u32 \<Rightarrow> u16" where "GDT_BASE_LOW base = ucast (base AND 0xFFFF)"
definition GDT_BASE_MIDDLE :: "u32 \<Rightarrow> u8" where "GDT_BASE_MIDDLE base = ucast (drop_bit 16 base AND 0xFF)"
definition GDT_FLAGS_LIMIT_HI :: "u32 \<Rightarrow> u8 \<Rightarrow> u8" where
  "GDT_FLAGS_LIMIT_HI limit flags = ucast (drop_bit 16 limit AND 0xF) OR (flags AND 0xF0)"
definition GDT_BASE_HIGH :: "u32 \<Rightarrow> u8" where "GDT_BASE_HIGH base = ucast (drop_bit 24 base AND 0xFF)"

definition GDT_ENTRY :: "u32 \<Rightarrow> u32 \<Rightarrow> u8 \<Rightarrow> u8 \<Rightarrow> GDTEntry_t" where
  "GDT_ENTRY base limit access flags =
    \<lparr>LimitLow = GDT_LIMIT_LOW limit, BaseLow = GDT_BASE_LOW base, BaseMiddle = GDT_BASE_MIDDLE base, Access = access,
     FlagsLimitHi = GDT_FLAGS_LIMIT_HI limit flags, BaseHigh = GDT_BASE_HIGH base\<rparr>"

section \<open>The task state segment and the table\<close>

record tss_entry =
  reserved0 :: u32
  rsp0 :: u64
  rsp1 :: u64
  rsp2 :: u64
  reserved1 :: u64
  ist1 :: u64
  ist2 :: u64
  ist3 :: u64
  ist4 :: u64
  ist5 :: u64
  ist6 :: u64
  ist7 :: u64
  reserved2 :: u64
  reserved3 :: u16
  iopb_offset :: u16

definition tss_zero :: tss_entry where
  "tss_zero = \<lparr>reserved0 = 0, rsp0 = 0, rsp1 = 0, rsp2 = 0, reserved1 = 0, ist1 = 0, ist2 = 0, ist3 = 0, ist4 = 0, ist5 = 0,
     ist6 = 0, ist7 = 0, reserved2 = 0, reserved3 = 0, iopb_offset = 0\<rparr>"

definition sizeof_tss :: nat where
  "sizeof_tss = 4 + 8 + 8 + 8 + 8 + 7 * 8 + 8 + 2 + 2"

definition g_GDT_init :: "GDTEntry_t list" where
  "g_GDT_init =
    [GDT_ENTRY 0 0 0 0,
     GDT_ENTRY 0 0xFFFFF (GDT_ACCESS_PRESENT OR GDT_ACCESS_RING0 OR GDT_ACCESS_CODE_SEGMENT OR GDT_ACCESS_CODE_READABLE)
       (GDT_FLAG_64BIT OR GDT_FLAG_GRANULARITY_4K),
     GDT_ENTRY 0 0xFFFFF (GDT_ACCESS_PRESENT OR GDT_ACCESS_RING0 OR GDT_ACCESS_DATA_SEGMENT OR GDT_ACCESS_DATA_WRITEABLE)
       GDT_FLAG_GRANULARITY_4K,
     GDT_ENTRY 0 0xFFFFF (GDT_ACCESS_PRESENT OR GDT_ACCESS_RING3 OR GDT_ACCESS_CODE_SEGMENT OR GDT_ACCESS_CODE_READABLE)
       (GDT_FLAG_64BIT OR GDT_FLAG_GRANULARITY_4K),
     GDT_ENTRY 0 0xFFFFF (GDT_ACCESS_PRESENT OR GDT_ACCESS_RING3 OR GDT_ACCESS_DATA_SEGMENT OR GDT_ACCESS_DATA_WRITEABLE)
       GDT_FLAG_GRANULARITY_4K,
     GDT_ENTRY 0 (of_nat (sizeof_tss - 1)) 0x89 0x00,
     GDT_ENTRY 0 0 0 0]"

text \<open>
  The processor's side: the table register, the segment registers and the task register. Addresses
  of the two objects are parameters of the build.
\<close>

record segments =
  g_GDT :: "GDTEntry_t list"
  tss :: tss_entry
  gdtr :: GDTDescriptor_t
  reg_cs :: u16
  reg_ds :: u16
  reg_es :: u16
  reg_fs :: u16
  reg_gs :: u16
  reg_ss :: u16
  reg_tr :: u16

definition g_GDTDescriptor :: "u64 \<Rightarrow> GDTDescriptor_t" where
  "g_GDTDescriptor gdt_addr = \<lparr>Limit = of_nat (8 * length g_GDT_init - 1), Ptr = gdt_addr\<rparr>"

section \<open>The processor's segment instructions\<close>

text \<open>
  The index a selector has in the table at \<open>gdt_addr\<close> for a descriptor of \<open>n\<close> bytes: the selector must name the global table and the
  descriptor must lie within the limit of the table register, which must point at the table. \<open>None\<close> is a fault, here and below.
\<close>

definition selected :: "u64 \<Rightarrow> nat \<Rightarrow> u16 \<Rightarrow> segments \<Rightarrow> nat option" where
  "selected gdt_addr n sel s =
    (let i = unat (drop_bit 3 sel) in
     if Ptr (gdtr s) = gdt_addr \<and> \<not> bit sel 2 \<and> 0 < i \<and> 8 * i + n \<le> unat (Limit (gdtr s)) + 1 \<and> 8 * i + n \<le> 8 * length (g_GDT s)
     then Some i else None)"

definition set_access :: "nat \<Rightarrow> u8 \<Rightarrow> segments \<Rightarrow> segments" where
  "set_access i a s = s\<lparr>g_GDT := (g_GDT s)[i := (g_GDT s ! i)\<lparr>Access := a\<rparr>]\<rparr>"

definition seg_present :: "u8 \<Rightarrow> bool" where "seg_present a \<longleftrightarrow> bit a 7 \<and> bit a 4"
definition seg_code :: "u8 \<Rightarrow> bool" where "seg_code a \<longleftrightarrow> bit a 3"
definition seg_rw :: "u8 \<Rightarrow> bool" where "seg_rw a \<longleftrightarrow> bit a 1"
definition seg_dpl :: "u8 \<Rightarrow> u8" where "seg_dpl a = drop_bit 5 a AND 3"

text \<open>
  The checks of a load at privilege level 0: of a data register (a present data or readable code segment whose privilege level is not
  below the selector's), of \<open>ss\<close> (a present writable data segment of level 0) and of \<open>cs\<close> by a far return
  (a present 64-bit code segment of level 0). Each sets the accessed bit of the descriptor.
\<close>

definition load_segment :: "(GDTEntry_t \<Rightarrow> bool) \<Rightarrow> u64 \<Rightarrow> u16 \<Rightarrow> segments \<Rightarrow> segments option" where
  "load_segment ok gdt_addr sel s =
    (case selected gdt_addr 8 sel s of None \<Rightarrow> None
     | Some i \<Rightarrow> let e = g_GDT s ! i in if ok e then Some (set_access i (Access e OR 1) s) else None)"

definition data_ok :: "u16 \<Rightarrow> GDTEntry_t \<Rightarrow> bool" where
  "data_ok sel e \<longleftrightarrow> seg_present (Access e) \<and> (seg_code (Access e) \<longrightarrow> seg_rw (Access e)) \<and> ucast (sel AND 3) \<le> seg_dpl (Access e)"

definition stack_ok :: "u16 \<Rightarrow> GDTEntry_t \<Rightarrow> bool" where
  "stack_ok sel e \<longleftrightarrow> seg_present (Access e) \<and> \<not> seg_code (Access e) \<and> seg_rw (Access e) \<and> seg_dpl (Access e) = 0 \<and> sel AND 3 = 0"

definition code_ok :: "u16 \<Rightarrow> GDTEntry_t \<Rightarrow> bool" where
  "code_ok sel e \<longleftrightarrow> seg_present (Access e) \<and> seg_code (Access e) \<and> seg_dpl (Access e) = 0 \<and> sel AND 3 = 0 \<and>
     bit (FlagsLimitHi e) 5 \<and> \<not> bit (FlagsLimitHi e) 6"

text \<open>\<open>ltr\<close>: a present, available 64-bit task state segment, sixteen bytes long, becomes busy.\<close>

definition ltr :: "u64 \<Rightarrow> u16 \<Rightarrow> segments \<Rightarrow> segments option" where
  "ltr gdt_addr sel s =
    (case selected gdt_addr 16 sel s of None \<Rightarrow> None
     | Some i \<Rightarrow> if Access (g_GDT s ! i) AND 0x9F = 0x89 \<and> Access (g_GDT s ! (i + 1)) AND 0x1F = 0
         then Some ((set_access i (Access (g_GDT s ! i) OR 2) s)\<lparr>reg_tr := sel\<rparr>) else None)"

definition GDT_Load :: "u64 \<Rightarrow> GDTDescriptor_t \<Rightarrow> u16 \<Rightarrow> u16 \<Rightarrow> segments \<Rightarrow> segments option" where
  "GDT_Load gdt_addr descriptor c d s =
    do { s \<leftarrow> load_segment (data_ok d) gdt_addr d (s\<lparr>gdtr := descriptor\<rparr>);
         s \<leftarrow> load_segment (data_ok d) gdt_addr d (s\<lparr>reg_ds := d\<rparr>);
         s \<leftarrow> load_segment (data_ok d) gdt_addr d (s\<lparr>reg_es := d\<rparr>);
         s \<leftarrow> load_segment (data_ok d) gdt_addr d (s\<lparr>reg_fs := d\<rparr>);
         s \<leftarrow> load_segment (stack_ok d) gdt_addr d (s\<lparr>reg_gs := d\<rparr>);
         s \<leftarrow> load_segment (code_ok c) gdt_addr c (s\<lparr>reg_ss := d\<rparr>);
         Some (s\<lparr>reg_cs := c\<rparr>) }"

definition TSS_Initialize :: "u64 \<Rightarrow> segments \<Rightarrow> segments" where
  "TSS_Initialize tss_base s =
    (let s = s\<lparr>tss := tss_zero\<lparr>iopb_offset := of_nat sizeof_tss\<rparr>\<rparr>;
         e5 = (g_GDT s ! 5)\<lparr>BaseLow := ucast (tss_base AND 0xFFFF), BaseMiddle := ucast (drop_bit 16 tss_base AND 0xFF),
           BaseHigh := ucast (drop_bit 24 tss_base AND 0xFF)\<rparr>;
         tss_upper = (ucast (drop_bit 32 tss_base AND 0xFFFFFFFF) :: u32);
         e6 = (g_GDT s ! 6)\<lparr>LimitLow := ucast tss_upper, BaseLow := ucast (drop_bit 16 tss_upper)\<rparr>
     in s\<lparr>g_GDT := (g_GDT s)[5 := e5, 6 := e6]\<rparr>)"

text \<open>The branch taken after the loads: each prints its two messages, which are left out, and the second one halts.\<close>

datatype gdt_outcome = Reports_success | Reports_failure_and_halts

definition GDT_Initialize :: "u64 \<Rightarrow> u64 \<Rightarrow> segments \<Rightarrow> (gdt_outcome \<times> segments) option" where
  "GDT_Initialize gdt_addr tss_addr s =
    do { s \<leftarrow> GDT_Load gdt_addr (g_GDTDescriptor gdt_addr) GDT_CODE_SEGMENT GDT_DATA_SEGMENT (TSS_Initialize tss_addr s);
         let cs = reg_cs s;
         let ds = reg_ds s;
         s \<leftarrow> ltr gdt_addr 0x28 s;
         Some (if cs = GDT_CODE_SEGMENT \<and> ds = GDT_DATA_SEGMENT then Reports_success else Reports_failure_and_halts, s) }"

section \<open>How the processor reads a descriptor\<close>

definition entry_bytes :: "GDTEntry_t \<Rightarrow> u8 list" where
  "entry_bytes e = le_split 2 (LimitLow e) @ le_split 2 (BaseLow e) @ [BaseMiddle e, Access e, FlagsLimitHi e, BaseHigh e]"

definition table_bytes :: "GDTEntry_t list \<Rightarrow> u8 list" where
  "table_bytes es = concat (map entry_bytes es)"

text \<open>A descriptor by its offset in the table: base and limit from the scattered bytes.\<close>

definition seg_limit :: "u8 list \<Rightarrow> nat \<Rightarrow> u32" where
  "seg_limit t i = le_join [t ! i, t ! (i + 1), t ! (i + 6) AND 0x0F]"

definition seg_base :: "u8 list \<Rightarrow> nat \<Rightarrow> u32" where
  "seg_base t i = le_join [t ! (i + 2), t ! (i + 3), t ! (i + 4), t ! (i + 7)]"

definition sys_base :: "u8 list \<Rightarrow> nat \<Rightarrow> u64" where
  "sys_base t i = le_join [t ! (i + 2), t ! (i + 3), t ! (i + 4), t ! (i + 7), t ! (i + 8), t ! (i + 9), t ! (i + 10), t ! (i + 11)]"

definition seg_access :: "u8 list \<Rightarrow> nat \<Rightarrow> u8" where "seg_access t i = t ! (i + 5)"
definition seg_flags :: "u8 list \<Rightarrow> nat \<Rightarrow> u8" where "seg_flags t i = t ! (i + 6) AND 0xF0"

lemma entry_bytes_nth:
  "entry_bytes e = [ucast (LimitLow e), ucast (drop_bit 8 (LimitLow e)), ucast (BaseLow e), ucast (drop_bit 8 (BaseLow e)),
     BaseMiddle e, Access e, FlagsLimitHi e, BaseHigh e]"
  by (simp add: entry_bytes_def numeral_2_eq_2)

lemma gdt_masks: "(0xFFFF :: u32) = mask 16" "(0xFF :: u32) = mask 8" "(0xF :: u32) = mask 4" "(0x0F :: u8) = mask 4"
  "(0xFFFF :: u64) = mask 16" "(0xFF :: u64) = mask 8" "(0xFFFFFFFF :: u64) = mask 32" "(0xF0 :: u8) = NOT (mask 4)"
  by (simp_all add: mask_eq_exp_minus_1)

text \<open>The entry macro is a faithful encoding: the processor reads back what it was given.\<close>

lemma GDT_ENTRY_decodes:
  fixes base limit :: u32 and access flags :: u8
  assumes "limit < 2 ^ 20"
  defines "t \<equiv> entry_bytes (GDT_ENTRY base limit access flags)"
  shows "seg_base t 0 = base" and "seg_limit t 0 = limit" and "seg_access t 0 = access" and "seg_flags t 0 = flags AND 0xF0"
proof -
  have "take_bit 20 limit = limit"
    using assms(1) by (simp add: word_unat_eq_iff unsigned_take_bit_eq take_bit_nat_eq_self word_less_nat_alt)
  then have l: "k < 20" if "bit limit k" for k using that by (metis bit_take_bit_iff)
  then have l24: "take_bit 24 limit = limit" by (intro bit_word_eqI) (auto simp: bit_simps dest: l)
  have split3: "le_split 3 limit = [ucast limit, ucast (drop_bit 8 limit), ucast (drop_bit 16 limit)]"
    by (simp add: numeral_3_eq_3)
  have "[ucast (BaseLow (GDT_ENTRY base limit access flags)), ucast (drop_bit 8 (BaseLow (GDT_ENTRY base limit access flags))),
      BaseMiddle (GDT_ENTRY base limit access flags), BaseHigh (GDT_ENTRY base limit access flags)] = le_split 4 base"
    unfolding GDT_ENTRY_def GDT_BASE_LOW_def GDT_BASE_MIDDLE_def GDT_BASE_HIGH_def GDTEntry_t.select_convs
      gdt_masks numeral_eq_Suc pred_numeral_simps arith_simps BitM.simps le_split.simps list.inject
    by (intro conjI bit_word_eqI refl) (auto simp: bit_simps ac_simps)
  then have "seg_base t 0 = le_join (le_split 4 base)"
    unfolding t_def seg_base_def entry_bytes_nth by (simp del: le_join.simps le_split.simps)
  then show "seg_base t 0 = base" by (simp add: le_join_split)
  have "[ucast (LimitLow (GDT_ENTRY base limit access flags)), ucast (drop_bit 8 (LimitLow (GDT_ENTRY base limit access flags))),
      FlagsLimitHi (GDT_ENTRY base limit access flags) AND 0x0F] = le_split 3 limit"
    unfolding GDT_ENTRY_def GDT_LIMIT_LOW_def GDT_FLAGS_LIMIT_HI_def GDTEntry_t.select_convs
      gdt_masks split3 list.inject
    by (intro conjI bit_word_eqI refl) (auto simp: bit_simps dest: l)
  then have "seg_limit t 0 = le_join (le_split 3 limit)"
    unfolding t_def seg_limit_def entry_bytes_nth by (simp del: le_join.simps le_split.simps)
  then show "seg_limit t 0 = limit" using l24 by (simp add: le_join_split)
  show "seg_access t 0 = access" unfolding t_def entry_bytes_nth GDT_ENTRY_def seg_access_def by simp
  show "seg_flags t 0 = flags AND 0xF0"
    unfolding t_def entry_bytes_nth GDT_ENTRY_def seg_flags_def GDT_FLAGS_LIMIT_HI_def gdt_masks
    by (rule bit_word_eqI) (auto simp: bit_simps)
qed

lemma length_entry_bytes [simp]: "length (entry_bytes e) = 8"
  by (simp add: entry_bytes_nth)

lemma table_bytes_nth: "i < length es \<Longrightarrow> k < 8 \<Longrightarrow> table_bytes es ! (8 * i + k) = entry_bytes (es ! i) ! k"
proof (induction es arbitrary: i)
  case (Cons e es)
  show ?case
  proof (cases i)
    case 0
    then show ?thesis using Cons.prems by (simp add: table_bytes_def nth_append)
  next
    case (Suc j)
    then show ?thesis using Cons by (simp add: table_bytes_def nth_append)
  qed
qed simp

lemma length_table_bytes [simp]: "length (table_bytes es) = 8 * length es"
  by (induction es) (simp_all add: table_bytes_def)

text \<open>Reading a segment descriptor of the table is reading its entry.\<close>

lemma seg_of_entry:
  assumes "i < length es"
  shows "seg_base (table_bytes es) (8 * i) = seg_base (entry_bytes (es ! i)) 0"
    and "seg_limit (table_bytes es) (8 * i) = seg_limit (entry_bytes (es ! i)) 0"
    and "seg_access (table_bytes es) (8 * i) = seg_access (entry_bytes (es ! i)) 0"
    and "seg_flags (table_bytes es) (8 * i) = seg_flags (entry_bytes (es ! i)) 0"
  using table_bytes_nth [OF assms, of 0] table_bytes_nth [OF assms, of 1] table_bytes_nth [OF assms, of 2]
    table_bytes_nth [OF assms, of 3] table_bytes_nth [OF assms, of 4] table_bytes_nth [OF assms, of 5]
    table_bytes_nth [OF assms, of 6] table_bytes_nth [OF assms, of 7]
  by (simp_all add: seg_base_def seg_limit_def seg_access_def seg_flags_def entry_bytes_nth)

lemma tss_bytes:
  fixes b :: u64
  shows "[ucast (ucast (b AND 0xFFFF) :: u16), ucast (drop_bit 8 (ucast (b AND 0xFFFF) :: u16)),
      ucast (drop_bit 16 b AND 0xFF), ucast (drop_bit 24 b AND 0xFF),
      ucast (ucast (ucast (drop_bit 32 b AND 0xFFFFFFFF) :: u32) :: u16),
      ucast (drop_bit 8 (ucast (ucast (drop_bit 32 b AND 0xFFFFFFFF) :: u32) :: u16)),
      ucast (ucast (drop_bit 16 (ucast (drop_bit 32 b AND 0xFFFFFFFF) :: u32)) :: u16),
      ucast (drop_bit 8 (ucast (drop_bit 16 (ucast (drop_bit 32 b AND 0xFFFFFFFF) :: u32)) :: u16))] = le_split 8 b"
  unfolding gdt_masks numeral_eq_Suc pred_numeral_simps arith_simps BitM.simps le_split.simps list.inject
  by (intro conjI bit_word_eqI refl) (auto simp: bit_simps ac_simps)

lemma sys_of_entries:
  assumes "Suc i < length es"
  shows "sys_base (table_bytes es) (8 * i) =
    le_join [ucast (BaseLow (es ! i)), ucast (drop_bit 8 (BaseLow (es ! i))), BaseMiddle (es ! i), BaseHigh (es ! i),
      ucast (LimitLow (es ! Suc i)), ucast (drop_bit 8 (LimitLow (es ! Suc i))), ucast (BaseLow (es ! Suc i)), ucast (drop_bit 8 (BaseLow (es ! Suc i)))]"
proof -
  have i: "i < length es" using assms by simp
  note n = table_bytes_nth [OF i, of 2] table_bytes_nth [OF i, of 3] table_bytes_nth [OF i, of 4] table_bytes_nth [OF i, of 7]
    table_bytes_nth [OF assms, of 0] table_bytes_nth [OF assms, of 1] table_bytes_nth [OF assms, of 2] table_bytes_nth [OF assms, of 3]
  have k: "8 * Suc i + 0 = 8 * i + 8" "8 * Suc i + 1 = 8 * i + 9" "8 * Suc i + 2 = 8 * i + 10" "8 * Suc i + 3 = 8 * i + 11" by simp_all
  show ?thesis unfolding sys_base_def using n unfolding k entry_bytes_nth by (simp del: le_join.simps)
qed

section \<open>The run of the initialisation\<close>

definition tss_entries :: "u64 \<Rightarrow> GDTEntry_t list" where
  "tss_entries b =
    [(GDT_ENTRY 0 0x67 0x89 0)\<lparr>BaseLow := ucast (b AND 0xFFFF), BaseMiddle := ucast (drop_bit 16 b AND 0xFF), BaseHigh := ucast (drop_bit 24 b AND 0xFF)\<rparr>,
     (GDT_ENTRY 0 0 0 0)\<lparr>LimitLow := ucast (ucast (drop_bit 32 b AND 0xFFFFFFFF) :: u32),
       BaseLow := ucast (drop_bit 16 (ucast (drop_bit 32 b AND 0xFFFFFFFF) :: u32))\<rparr>]"

text \<open>The table the loads leave: kernel code and data accessed, the task state segment busy.\<close>

definition loaded_table :: "u64 \<Rightarrow> GDTEntry_t list" where
  "loaded_table b =
    [GDT_ENTRY 0 0 0 0, GDT_ENTRY 0 0xFFFFF 0x9B 0xA0, GDT_ENTRY 0 0xFFFFF 0x93 0x80, GDT_ENTRY 0 0xFFFFF 0xFA 0xA0, GDT_ENTRY 0 0xFFFFF 0xF2 0x80,
     (tss_entries b ! 0)\<lparr>Access := 0x8B\<rparr>, tss_entries b ! 1]"

lemma TSS_Initialize_table:
  assumes "g_GDT s = g_GDT_init"
  shows "TSS_Initialize b s = s\<lparr>tss := tss_zero\<lparr>iopb_offset := 104\<rparr>, g_GDT :=
    [GDT_ENTRY 0 0 0 0, GDT_ENTRY 0 0xFFFFF 0x9A 0xA0, GDT_ENTRY 0 0xFFFFF 0x92 0x80, GDT_ENTRY 0 0xFFFFF 0xFA 0xA0, GDT_ENTRY 0 0xFFFFF 0xF2 0x80,
     tss_entries b ! 0, tss_entries b ! 1]\<rparr>"
  using assms by (simp add: TSS_Initialize_def tss_entries_def Let_def g_GDT_init_def gdt_consts sizeof_tss_def)

lemma GDT_Load_run:
  assumes "g_GDT s = [n, GDT_ENTRY 0 0xFFFFF 0x9A 0xA0, GDT_ENTRY 0 0xFFFFF 0x92 0x80, uc, ud, t0, t1]"
  shows "GDT_Load gdt_addr (g_GDTDescriptor gdt_addr) 0x08 0x10 s =
    Some (s\<lparr>g_GDT := [n, GDT_ENTRY 0 0xFFFFF 0x9B 0xA0, GDT_ENTRY 0 0xFFFFF 0x93 0x80, uc, ud, t0, t1], gdtr := g_GDTDescriptor gdt_addr,
      reg_ds := 0x10, reg_es := 0x10, reg_fs := 0x10, reg_gs := 0x10, reg_ss := 0x10, reg_cs := 0x08\<rparr>)"
  using assms
  by (simp add: GDT_Load_def load_segment_def selected_def data_ok_def stack_ok_def code_ok_def seg_present_def seg_code_def seg_rw_def seg_dpl_def
      set_access_def g_GDTDescriptor_def g_GDT_init_def GDT_ENTRY_def GDT_FLAGS_LIMIT_HI_def Let_def)

lemma GDT_Initialize_run:
  assumes "g_GDT s = g_GDT_init"
  shows "GDT_Initialize gdt_addr tss_addr s = Some (Reports_success,
    s\<lparr>tss := tss_zero\<lparr>iopb_offset := 104\<rparr>, g_GDT := loaded_table tss_addr, gdtr := g_GDTDescriptor gdt_addr,
      reg_ds := 0x10, reg_es := 0x10, reg_fs := 0x10, reg_gs := 0x10, reg_ss := 0x10, reg_cs := 0x08, reg_tr := 0x28\<rparr>)"
proof -
  have a: "Access (tss_entries tss_addr ! 0) = 0x89" "Access (tss_entries tss_addr ! 1) = 0" by (simp_all add: tss_entries_def GDT_ENTRY_def)
  have l: "unat (Limit (g_GDTDescriptor gdt_addr)) = 55" "Ptr (g_GDTDescriptor gdt_addr) = gdt_addr" by (simp_all add: g_GDTDescriptor_def g_GDT_init_def)
  show ?thesis
    by (simp add: GDT_Initialize_def GDT_CODE_SEGMENT_def GDT_DATA_SEGMENT_def TSS_Initialize_table [OF assms] GDT_Load_run)
      (simp add: ltr_def selected_def a a(2) [simplified] l set_access_def loaded_table_def)
qed

lemma loaded_segments:
  assumes "loaded_table b ! i = GDT_ENTRY 0 0xFFFFF a f" "i < 7"
  shows "seg_base (table_bytes (loaded_table b)) (8 * i) = 0 \<and> seg_limit (table_bytes (loaded_table b)) (8 * i) = 0xFFFFF \<and>
    seg_access (table_bytes (loaded_table b)) (8 * i) = a \<and> seg_flags (table_bytes (loaded_table b)) (8 * i) = f AND 0xF0"
  using GDT_ENTRY_decodes [where limit = "0xFFFFF" and base = 0 and access = a and flags = f] seg_of_entry [of i "loaded_table b"] assms
  by (simp add: loaded_table_def)

lemma loaded_tss:
  "sys_base (table_bytes (loaded_table b)) 0x28 = b" "seg_limit (table_bytes (loaded_table b)) 0x28 = 0x67"
  "seg_access (table_bytes (loaded_table b)) 0x28 = 0x8B" "seg_flags (table_bytes (loaded_table b)) 0x28 = 0"
proof -
  have len: "length (loaded_table b) = 7" by (simp add: loaded_table_def)
  show "sys_base (table_bytes (loaded_table b)) 0x28 = b"
    using sys_of_entries [of 5 "loaded_table b", unfolded len] le_join_split [of 8 b, folded tss_bytes]
    by (simp add: loaded_table_def tss_entries_def GDT_ENTRY_def del: le_join.simps)
  show "seg_limit (table_bytes (loaded_table b)) 0x28 = 0x67" "seg_access (table_bytes (loaded_table b)) 0x28 = 0x8B" "seg_flags (table_bytes (loaded_table b)) 0x28 = 0"
    using seg_of_entry [of 5 "loaded_table b", unfolded len]
    by (simp_all add: loaded_table_def tss_entries_def GDT_ENTRY_def GDT_FLAGS_LIMIT_HI_def GDT_LIMIT_LOW_def seg_limit_def seg_access_def seg_flags_def entry_bytes_nth)
qed

section \<open>Properties\<close>

text \<open>
  C1. The segment tables are well-formed after start-up. Wherever the table and the task state
  segment lie, \<open>GDT_Initialize\<close> raises no processor fault and reaches its success messages; the table register covers exactly the bytes of the
  table; read back as the processor reads them, the null descriptor is not present, the two code
  segments are flat, present 64-bit segments of rings 0 and 3, the two data segments are flat and
  writable, those of ring 0 are loaded in the segment registers and marked accessed, and the task register selects a present task state segment,
  marked busy, whose 64-bit base is the address of \<open>tss\<close>, whose limit is its last byte and whose I/O map lies behind that limit.
\<close>

theorem gdt_well_formed:
  assumes "g_GDT s = g_GDT_init"
  shows "\<exists>s'. GDT_Initialize gdt_addr tss_addr s = Some (Reports_success, s') \<and>
    (let t = table_bytes (g_GDT s') in
      Ptr (gdtr s') = gdt_addr \<and> unat (Limit (gdtr s')) + 1 = length t \<and>
      seg_access t 0 = 0 \<and>
      (reg_cs s' = 0x08 \<and> seg_base t 0x08 = 0 \<and> seg_limit t 0x08 = 0xFFFFF \<and> seg_access t 0x08 = 0x9B \<and> seg_flags t 0x08 = 0xA0) \<and>
      (reg_ds s' = 0x10 \<and> reg_es s' = 0x10 \<and> reg_fs s' = 0x10 \<and> reg_gs s' = 0x10 \<and> reg_ss s' = 0x10 \<and>
        seg_base t 0x10 = 0 \<and> seg_limit t 0x10 = 0xFFFFF \<and> seg_access t 0x10 = 0x93 \<and> seg_flags t 0x10 = 0x80) \<and>
      (seg_base t 0x18 = 0 \<and> seg_limit t 0x18 = 0xFFFFF \<and> seg_access t 0x18 = 0xFA \<and> seg_flags t 0x18 = 0xA0) \<and>
      (seg_base t 0x20 = 0 \<and> seg_limit t 0x20 = 0xFFFFF \<and> seg_access t 0x20 = 0xF2 \<and> seg_flags t 0x20 = 0x80) \<and>
      (reg_tr s' = 0x28 \<and> sys_base t 0x28 = tss_addr \<and> seg_access t 0x28 = 0x8B \<and> seg_flags t 0x28 = 0 \<and>
        seg_limit t 0x28 = of_nat sizeof_tss - 1 \<and> seg_limit t 0x28 < ucast (iopb_offset (tss s'))))"
proof -
  have "seg_access (table_bytes (loaded_table tss_addr)) 0 = 0"
    using seg_of_entry(3) [of 0 "loaded_table tss_addr"] by (simp add: loaded_table_def GDT_ENTRY_def seg_access_def entry_bytes_nth)
  moreover have "unat (Limit (g_GDTDescriptor gdt_addr)) + 1 = length (table_bytes (loaded_table tss_addr))" "Ptr (g_GDTDescriptor gdt_addr) = gdt_addr"
    by (simp_all add: loaded_table_def g_GDTDescriptor_def g_GDT_init_def)
  moreover note loaded_segments [of tss_addr 1 "0x9B" "0xA0"] loaded_segments [of tss_addr 2 "0x93" "0x80"]
    loaded_segments [of tss_addr 3 "0xFA" "0xA0"] loaded_segments [of tss_addr 4 "0xF2" "0x80"]
  moreover have "loaded_table tss_addr ! 1 = GDT_ENTRY 0 0xFFFFF 0x9B 0xA0" "loaded_table tss_addr ! 2 = GDT_ENTRY 0 0xFFFFF 0x93 0x80"
    "loaded_table tss_addr ! 3 = GDT_ENTRY 0 0xFFFFF 0xFA 0xA0" "loaded_table tss_addr ! 4 = GDT_ENTRY 0 0xFFFFF 0xF2 0x80"
    by (simp_all add: loaded_table_def)
  ultimately show ?thesis unfolding GDT_Initialize_run [OF assms] using loaded_tss [of tss_addr]
    by (simp add: Let_def sizeof_tss_def)
qed

definition segments_before :: segments where
  "segments_before = \<lparr>g_GDT = g_GDT_init, tss = tss_zero, gdtr = \<lparr>Limit = 0, Ptr = 0\<rparr>, reg_cs = 0x28, reg_ds = 0x30, reg_es = 0x30, reg_fs = 0x30,
     reg_gs = 0x30, reg_ss = 0x30, reg_tr = 0\<rparr>"

theorem gdt_well_formed_witness:
  "\<exists>s'. GDT_Initialize 0x1000 0xFFFFFFFF80123450 segments_before = Some (Reports_success, s') \<and>
    sys_base (table_bytes (g_GDT s')) 0x28 = 0xFFFFFFFF80123450 \<and> seg_limit (table_bytes (g_GDT s')) 0x28 = 103"
proof -
  have "g_GDT segments_before = g_GDT_init" by (simp add: segments_before_def)
  from gdt_well_formed [OF this, of "0x1000" "0xFFFFFFFF80123450"] show ?thesis by (auto simp: Let_def sizeof_tss_def)
qed

end
