(* ===== verification/PortIO.thy ===== *)
theory PortIO
  imports Prelude
begin

text \<open>
  Port and register input and output (\<open>arch/x86_64/io.c\<close>, \<open>arch/x86_64/includes/io.h\<close>, the register
  access of \<open>drivers/pic/includes/apic/apic.h\<close>). The hardware is a parameter: a device answers a read
  with a value that may depend on everything the processor did to it before, so the state of the
  machine is the history of its accesses, latest first. Statements about what the code tells the
  hardware are statements about that history.
\<close>

section \<open>Accesses and devices\<close>

datatype io =
    In8 u16 u8 | Out8 u16 u8
  | In16 u16 u16 | Out16 u16 u16
  | In32 u16 u32 | Out32 u16 u32
  | Load32 u64 u32 | Store32 u64 u32
  | ReadMsr u32 u64 | WriteMsr u32 u64
  | ReadCr4 u64 | SetCr4 u64

record device =
  port8 :: "io list \<Rightarrow> u16 \<Rightarrow> u8"
  port16 :: "io list \<Rightarrow> u16 \<Rightarrow> u16"
  port32 :: "io list \<Rightarrow> u16 \<Rightarrow> u32"
  mmio32 :: "io list \<Rightarrow> u64 \<Rightarrow> u32"
  msr :: "io list \<Rightarrow> u32 \<Rightarrow> u64"
  cr4 :: "io list \<Rightarrow> u64"

record machine =
  trace :: "io list"

definition emit :: "io \<Rightarrow> 'a machine_scheme \<Rightarrow> 'a machine_scheme" where
  "emit e s = s\<lparr>trace := e # trace s\<rparr>"

lemma trace_emit [simp]: "trace (emit e s) = e # trace s"
  by (simp add: emit_def)

section \<open>The port instructions\<close>

definition inb :: "device \<Rightarrow> u16 \<Rightarrow> 'a machine_scheme \<Rightarrow> u8 \<times> 'a machine_scheme" where
  "inb dev p s = (let v = port8 dev (trace s) p in (v, emit (In8 p v) s))"

definition outb :: "u16 \<Rightarrow> u8 \<Rightarrow> 'a machine_scheme \<Rightarrow> 'a machine_scheme" where
  "outb p v s = emit (Out8 p v) s"

definition inw :: "device \<Rightarrow> u16 \<Rightarrow> 'a machine_scheme \<Rightarrow> u16 \<times> 'a machine_scheme" where
  "inw dev p s = (let v = port16 dev (trace s) p in (v, emit (In16 p v) s))"

definition outw :: "u16 \<Rightarrow> u16 \<Rightarrow> 'a machine_scheme \<Rightarrow> 'a machine_scheme" where
  "outw p v s = emit (Out16 p v) s"

definition inl :: "device \<Rightarrow> u16 \<Rightarrow> 'a machine_scheme \<Rightarrow> u32 \<times> 'a machine_scheme" where
  "inl dev p s = (let v = port32 dev (trace s) p in (v, emit (In32 p v) s))"

definition outl :: "u16 \<Rightarrow> u32 \<Rightarrow> 'a machine_scheme \<Rightarrow> 'a machine_scheme" where
  "outl p v s = emit (Out32 p v) s"

definition UNUSED_PORT :: u16 where "UNUSED_PORT = 0x80"

definition iowait :: "'a machine_scheme \<Rightarrow> 'a machine_scheme" where
  "iowait s = outb UNUSED_PORT 0 s"

text \<open>String input and output move \<open>count\<close> words between a port and memory, low address first.\<close>

primrec insw :: "device \<Rightarrow> u16 \<Rightarrow> nat \<Rightarrow> 'a machine_scheme \<Rightarrow> u16 list \<times> 'a machine_scheme" where
  "insw dev p 0 s = ([], s)"
| "insw dev p (Suc n) s =
    (let (v, s1) = inw dev p s; (vs, s2) = insw dev p n s1 in (v # vs, s2))"

primrec outsw :: "u16 \<Rightarrow> u16 list \<Rightarrow> 'a machine_scheme \<Rightarrow> 'a machine_scheme" where
  "outsw p [] s = s"
| "outsw p (v # vs) s = outsw p vs (outw p v s)"

section \<open>Model-specific registers\<close>

text \<open>\<open>eax\<close> holds the low half and \<open>edx\<close> the high half of the register.\<close>

definition cpuGetMSR :: "device \<Rightarrow> u32 \<Rightarrow> 'a machine_scheme \<Rightarrow> (u32 \<times> u32) \<times> 'a machine_scheme" where
  "cpuGetMSR dev r s = (let v = msr dev (trace s) r in ((ucast v, ucast (drop_bit 32 v)), emit (ReadMsr r v) s))"

definition cpuSetMSR :: "u32 \<Rightarrow> u32 \<Rightarrow> u32 \<Rightarrow> 'a machine_scheme \<Rightarrow> 'a machine_scheme" where
  "cpuSetMSR r eax edx s = emit (WriteMsr r (push_bit 32 (ucast edx) OR ucast eax)) s"

definition ReadCR4 :: "device \<Rightarrow> 'a machine_scheme \<Rightarrow> u64 \<times> 'a machine_scheme" where
  "ReadCR4 dev s = (let v = cr4 dev (trace s) in (v, emit (ReadCr4 v) s))"

definition WriteCR4 :: "u64 \<Rightarrow> 'a machine_scheme \<Rightarrow> 'a machine_scheme" where
  "WriteCR4 v s = emit (SetCr4 v) s"

section \<open>APIC registers\<close>

definition APIC_BASE :: u64 where "APIC_BASE = 0xFEE00000"
definition APIC_IO_BASE :: u64 where "APIC_IO_BASE = 0xFEC00000"
definition APIC_EOI :: u32 where "APIC_EOI = 0xB0"
definition APIC_SVR :: u32 where "APIC_SVR = 0xF0"
definition IOAPIC_REG_SELECT :: u32 where "IOAPIC_REG_SELECT = 0"
definition IOAPIC_REG_WINDOW :: u32 where "IOAPIC_REG_WINDOW = 0x10"

text \<open>A register offset selects an element of an array of 32-bit words: the low two bits are lost.\<close>

definition reg_addr :: "u64 \<Rightarrow> u32 \<Rightarrow> u64" where
  "reg_addr base reg = base + 4 * (ucast reg div 4)"

definition load32 :: "device \<Rightarrow> u64 \<Rightarrow> 'a machine_scheme \<Rightarrow> u32 \<times> 'a machine_scheme" where
  "load32 dev a s = (let v = mmio32 dev (trace s) a in (v, emit (Load32 a v) s))"

definition APIC_Write :: "u32 \<Rightarrow> u32 \<Rightarrow> 'a machine_scheme \<Rightarrow> 'a machine_scheme" where
  "APIC_Write reg v s = emit (Store32 (reg_addr APIC_BASE reg) v) s"

definition APIC_Read :: "device \<Rightarrow> u32 \<Rightarrow> 'a machine_scheme \<Rightarrow> u32 \<times> 'a machine_scheme" where
  "APIC_Read dev reg s = load32 dev (reg_addr APIC_BASE reg) s"

definition APIC_ReadIO :: "device \<Rightarrow> u32 \<Rightarrow> 'a machine_scheme \<Rightarrow> u32 \<times> 'a machine_scheme" where
  "APIC_ReadIO dev reg s =
    load32 dev (reg_addr APIC_IO_BASE IOAPIC_REG_WINDOW) (emit (Store32 (reg_addr APIC_IO_BASE IOAPIC_REG_SELECT) reg) s)"

definition APIC_WriteIO :: "u32 \<Rightarrow> u32 \<Rightarrow> 'a machine_scheme \<Rightarrow> 'a machine_scheme" where
  "APIC_WriteIO reg v s =
    emit (Store32 (reg_addr APIC_IO_BASE IOAPIC_REG_WINDOW) v) (emit (Store32 (reg_addr APIC_IO_BASE IOAPIC_REG_SELECT) reg) s)"

definition LAPIC_SendEOI :: "'a machine_scheme \<Rightarrow> 'a machine_scheme" where
  "LAPIC_SendEOI s = APIC_Write APIC_EOI 0 s"

section \<open>What an access changes\<close>

lemmas io_defs = inb_def outb_def inw_def outw_def inl_def outl_def iowait_def load32_def
  cpuGetMSR_def cpuSetMSR_def ReadCR4_def WriteCR4_def APIC_Write_def APIC_Read_def APIC_ReadIO_def APIC_WriteIO_def
  LAPIC_SendEOI_def Let_def

lemma machine_split: "s\<lparr>trace := t\<rparr> = s \<longleftrightarrow> trace s = t"
  by (metis machine.surjective machine.update_convs(1) machine.select_convs(1))

lemma more_emit [simp]: "machine.more (emit e s) = machine.more s"
  by (simp add: emit_def)

text \<open>An I/O operation only appends to the history: nothing else of the state depends on it.\<close>

definition io_only :: "('a machine_scheme \<Rightarrow> 'a machine_scheme) \<Rightarrow> bool" where
  "io_only f \<longleftrightarrow> (\<forall>s. \<exists>es. f s = s\<lparr>trace := es @ trace s\<rparr>)"

lemma io_onlyI: "(\<And>s. \<exists>es. f s = s\<lparr>trace := es @ trace s\<rparr>) \<Longrightarrow> io_only f"
  by (simp add: io_only_def)

lemma io_only_emit: "io_only (emit e)"
proof (rule io_onlyI)
  fix s :: "'a machine_scheme"
  show "\<exists>es. emit e s = s\<lparr>trace := es @ trace s\<rparr>" by (rule exI [of _ "[e]"]) (simp add: emit_def)
qed

lemma io_only_comp: "io_only f \<Longrightarrow> io_only g \<Longrightarrow> io_only (\<lambda>s. g (f s))"
proof (rule io_onlyI)
  fix s :: "'a machine_scheme"
  assume "io_only f" "io_only g"
  then obtain es es' where "f s = s\<lparr>trace := es @ trace s\<rparr>"
    "g (f s) = (f s)\<lparr>trace := es' @ trace (f s)\<rparr>" unfolding io_only_def by blast
  then have "g (f s) = s\<lparr>trace := (es' @ es) @ trace s\<rparr>" by simp
  then show "\<exists>es. g (f s) = s\<lparr>trace := es @ trace s\<rparr>" by blast
qed

lemma insw_length [simp]: "length (fst (insw dev p n s)) = n"
  by (induction n arbitrary: s) (simp_all add: Let_def split_beta)

end
