(* ===== verification/Pic.thy ===== *)
theory Pic
  imports PortIO
begin

text \<open>
  The legacy interrupt controllers, \<open>drivers/pic/pic.c\<close>. The driver is a translation of the C
  functions to accesses; what the accesses mean is said by an abstract 8259A, the documented state
  machine of the chip: initialisation words one to four, the mask register and the end-of-interrupt
  command. The properties run the driver's accesses through two such chips.
\<close>

section \<open>The driver\<close>

definition PIC1_COMMAND_PORT :: u16 where "PIC1_COMMAND_PORT = 0x20"
definition PIC1_DATA_PORT :: u16 where "PIC1_DATA_PORT = 0x21"
definition PIC2_COMMAND_PORT :: u16 where "PIC2_COMMAND_PORT = 0xA0"
definition PIC2_DATA_PORT :: u16 where "PIC2_DATA_PORT = 0xA1"

definition PIC_ICW1_ICW4 :: u8 where "PIC_ICW1_ICW4 = 0x01"
definition PIC_ICW1_INITIALIZE :: u8 where "PIC_ICW1_INITIALIZE = 0x10"
definition PIC_ICW4_8086 :: u8 where "PIC_ICW4_8086 = 0x1"
definition PIC_CMD_END_OF_INTERRUPT :: u8 where "PIC_CMD_END_OF_INTERRUPT = 0x20"
definition PIC_CMD_READ_IRR :: u8 where "PIC_CMD_READ_IRR = 0x0A"
definition PIC_CMD_READ_ISR :: u8 where "PIC_CMD_READ_ISR = 0x0B"

definition PIC_Configure :: "u8 \<Rightarrow> u8 \<Rightarrow> 'a machine_scheme \<Rightarrow> 'a machine_scheme" where
  "PIC_Configure offsetPic1 offsetPic2 s =
    (let s = iowait (outb PIC1_COMMAND_PORT (PIC_ICW1_ICW4 OR PIC_ICW1_INITIALIZE) s);
         s = iowait (outb PIC2_COMMAND_PORT (PIC_ICW1_ICW4 OR PIC_ICW1_INITIALIZE) s);
         s = iowait (outb PIC1_DATA_PORT offsetPic1 s);
         s = iowait (outb PIC2_DATA_PORT offsetPic2 s);
         s = iowait (outb PIC1_DATA_PORT 0x4 s);
         s = iowait (outb PIC2_DATA_PORT 0x2 s);
         s = iowait (outb PIC1_DATA_PORT PIC_ICW4_8086 s);
         s = iowait (outb PIC2_DATA_PORT PIC_ICW4_8086 s);
         s = iowait (outb PIC1_DATA_PORT 0 s)
     in iowait (outb PIC2_DATA_PORT 0 s))"

definition PIC_SendEndOfInterrupt :: "int \<Rightarrow> 'a machine_scheme \<Rightarrow> 'a machine_scheme" where
  "PIC_SendEndOfInterrupt irq s =
    (let s = if irq \<ge> 8 then iowait (outb PIC2_COMMAND_PORT PIC_CMD_END_OF_INTERRUPT s) else s
     in outb PIC1_COMMAND_PORT PIC_CMD_END_OF_INTERRUPT s)"

definition PIC_Disable :: "'a machine_scheme \<Rightarrow> 'a machine_scheme" where
  "PIC_Disable s = iowait (outb PIC2_DATA_PORT 0xFF (iowait (outb PIC1_DATA_PORT 0xFF s)))"

text \<open>
  The C functions choose a port from the line and then use \<open>PIC1_DATA_PORT\<close> whatever they chose. A
  negative line would shift by a negative count; the callers pass constants.
\<close>

definition mask_line :: "int \<Rightarrow> int" where
  "mask_line irq = (if irq < 8 then irq else irq - 8)"

definition PIC_Mask :: "device \<Rightarrow> int \<Rightarrow> 'a machine_scheme \<Rightarrow> 'a machine_scheme" where
  "PIC_Mask dev irq s =
    (let (m, s) = inb dev PIC1_DATA_PORT s
     in outb PIC1_DATA_PORT (ucast ((ucast m :: i32) OR push_bit (nat (mask_line irq)) 1)) s)"

definition PIC_Unmask :: "device \<Rightarrow> int \<Rightarrow> 'a machine_scheme \<Rightarrow> 'a machine_scheme" where
  "PIC_Unmask dev irq s =
    (let (m, s) = inb dev PIC1_DATA_PORT s
     in outb PIC1_DATA_PORT (ucast ((ucast m :: i32) AND NOT (push_bit (nat (mask_line irq)) 1))) s)"

definition PIC_read_pair :: "device \<Rightarrow> u8 \<Rightarrow> 'a machine_scheme \<Rightarrow> u16 \<times> 'a machine_scheme" where
  "PIC_read_pair dev cmd s =
    (let s = outb PIC2_COMMAND_PORT cmd (outb PIC1_COMMAND_PORT cmd s);
         (lo, s) = inb dev PIC2_COMMAND_PORT s;
         (hi, s) = inb dev PIC2_COMMAND_PORT s
     in (ucast lo OR push_bit 8 (ucast hi), s))"

definition PIC_ReadIrqRequestRegister :: "device \<Rightarrow> 'a machine_scheme \<Rightarrow> u16 \<times> 'a machine_scheme" where
  "PIC_ReadIrqRequestRegister dev s = PIC_read_pair dev PIC_CMD_READ_IRR s"

definition PIC_ReadInServiceRegister :: "device \<Rightarrow> 'a machine_scheme \<Rightarrow> u16 \<times> 'a machine_scheme" where
  "PIC_ReadInServiceRegister dev s = PIC_read_pair dev PIC_CMD_READ_ISR s"

lemmas pic_defs = PIC1_COMMAND_PORT_def PIC1_DATA_PORT_def PIC2_COMMAND_PORT_def PIC2_DATA_PORT_def
  PIC_ICW1_ICW4_def PIC_ICW1_INITIALIZE_def PIC_ICW4_8086_def PIC_CMD_END_OF_INTERRUPT_def
  PIC_CMD_READ_IRR_def PIC_CMD_READ_ISR_def UNUSED_PORT_def io_defs

section \<open>The abstract 8259A\<close>

datatype icw = Ready | Await2 | Await3 | Await4

record chip =
  phase :: icw
  want_icw4 :: bool
  single :: bool
  base :: u8
  cascade :: u8
  mode_8086 :: bool
  auto_eoi :: bool
  imr :: u8
  in_service :: u8

text \<open>A non-specific end of interrupt clears the in-service bit of highest priority, the lowest one.\<close>

definition clear_lowest :: "u8 \<Rightarrow> u8" where
  "clear_lowest x = x AND (x - 1)"

definition write_command :: "u8 \<Rightarrow> chip \<Rightarrow> chip" where
  "write_command v c =
    (if bit v 4 then c\<lparr>phase := Await2, want_icw4 := bit v 0, single := bit v 1, imr := 0, in_service := 0,
                       mode_8086 := False, auto_eoi := False\<rparr>
     else if v = 0x20 then c\<lparr>in_service := clear_lowest (in_service c)\<rparr> else c)"

definition after_cascade :: "chip \<Rightarrow> icw" where
  "after_cascade c = (if want_icw4 c then Await4 else Ready)"

definition write_data :: "u8 \<Rightarrow> chip \<Rightarrow> chip" where
  "write_data v c =
    (case phase c of
       Await2 \<Rightarrow> c\<lparr>base := v AND 0xF8, phase := if single c then after_cascade c else Await3\<rparr>
     | Await3 \<Rightarrow> c\<lparr>cascade := v, phase := after_cascade c\<rparr>
     | Await4 \<Rightarrow> c\<lparr>mode_8086 := bit v 0, auto_eoi := bit v 1, phase := Ready\<rparr>
     | Ready \<Rightarrow> c\<lparr>imr := v\<rparr>)"

fun chip_step :: "u16 \<Rightarrow> io \<Rightarrow> chip \<Rightarrow> chip" where
  "chip_step p (Out8 q v) c = (if q = p then write_command v c else if q = p + 1 then write_data v c else c)"
| "chip_step p _ c = c"

definition chip_after :: "u16 \<Rightarrow> chip \<Rightarrow> io list \<Rightarrow> chip" where
  "chip_after p c tr = foldr (chip_step p) tr c"

lemma chip_after_simps [simp]:
  "chip_after p c [] = c"
  "chip_after p c (e # tr) = chip_step p e (chip_after p c tr)"
  by (simp_all add: chip_after_def)

text \<open>The master and the slave, after a history of accesses from arbitrary power-on states.\<close>

definition master :: "chip \<Rightarrow> 'a machine_scheme \<Rightarrow> chip" where
  "master c s = chip_after PIC1_COMMAND_PORT c (trace s)"

definition slave :: "chip \<Rightarrow> 'a machine_scheme \<Rightarrow> chip" where
  "slave c s = chip_after PIC2_COMMAND_PORT c (trace s)"

lemma master_outb: "master c (outb p v s) = chip_step 0x20 (Out8 p v) (master c s)"
  by (simp add: master_def pic_defs)
lemma slave_outb: "slave c (outb p v s) = chip_step 0xA0 (Out8 p v) (slave c s)"
  by (simp add: slave_def pic_defs)
lemma iowait_chips [simp]: "master c (iowait s) = master c s" "slave c (iowait s) = slave c s"
  by (simp_all add: master_def slave_def pic_defs)
lemma inb_chips [simp]: "master c (snd (inb dev p s)) = master c s" "slave c (snd (inb dev p s)) = slave c s"
  by (simp_all add: master_def slave_def pic_defs)

lemmas chip_simps = master_outb slave_outb write_command_def write_data_def after_cascade_def

section \<open>Line masks\<close>

lemma mask_bits:
  fixes m :: u8
  assumes "k < 8"
  shows "ucast ((ucast m :: i32) OR push_bit k 1) = m OR push_bit k 1"
    and "ucast ((ucast m :: i32) AND NOT (push_bit k 1)) = m AND NOT (push_bit k 1)"
  using assms by (auto intro!: bit_word_eqI simp: bit_simps)

lemma PIC_Mask_master:
  assumes "port8 dev (trace s) 0x21 = imr (master c s)" and "phase (master c s) = Ready" and "0 \<le> irq" "irq < 16"
  shows "master c (PIC_Mask dev irq s) = (master c s)\<lparr>imr := imr (master c s) OR push_bit (nat (mask_line irq)) 1\<rparr>"
    and "slave d (PIC_Mask dev irq s) = slave d s"
proof -
  have k: "nat (mask_line irq) < 8" using assms(3,4) by (auto simp: mask_line_def)
  have r: "fst (inb dev 0x21 s) = imr (master c s)" using assms(1) by (simp add: inb_def Let_def)
  show "master c (PIC_Mask dev irq s) = (master c s)\<lparr>imr := imr (master c s) OR push_bit (nat (mask_line irq)) 1\<rparr>"
    using assms(2) mask_bits [OF k] r
    by (simp add: PIC_Mask_def split_beta PIC1_DATA_PORT_def chip_simps)
  show "slave d (PIC_Mask dev irq s) = slave d s"
    by (simp add: PIC_Mask_def split_beta PIC1_DATA_PORT_def chip_simps)
qed

lemma PIC_Unmask_master:
  assumes "port8 dev (trace s) 0x21 = imr (master c s)" and "phase (master c s) = Ready" and "0 \<le> irq" "irq < 16"
  shows "master c (PIC_Unmask dev irq s) = (master c s)\<lparr>imr := imr (master c s) AND NOT (push_bit (nat (mask_line irq)) 1)\<rparr>"
    and "slave d (PIC_Unmask dev irq s) = slave d s"
proof -
  have k: "nat (mask_line irq) < 8" using assms(3,4) by (auto simp: mask_line_def)
  have r: "fst (inb dev 0x21 s) = imr (master c s)" using assms(1) by (simp add: inb_def Let_def)
  show "master c (PIC_Unmask dev irq s) = (master c s)\<lparr>imr := imr (master c s) AND NOT (push_bit (nat (mask_line irq)) 1)\<rparr>"
    using assms(2) mask_bits [OF k] r
    by (simp add: PIC_Unmask_def split_beta PIC1_DATA_PORT_def chip_simps)
  show "slave d (PIC_Unmask dev irq s) = slave d s"
    by (simp add: PIC_Unmask_def split_beta PIC1_DATA_PORT_def chip_simps)
qed

section \<open>Properties\<close>

text \<open>
  C37. Whatever state the controllers are in, \<open>PIC_Configure\<close> leaves both initialised: vectors from the
  two offsets (rounded to a multiple of eight by the chip), the slave on line 2 of the master, 8086
  mode, explicit end of interrupt and no line masked; \<open>PIC_Disable\<close> then masks all sixteen lines.
\<close>
theorem pic_configure_programs_controllers:
  fixes s :: machine
  shows "master c1 (PIC_Configure o1 o2 s) =
      \<lparr>phase = Ready, want_icw4 = True, single = False, base = o1 AND 0xF8, cascade = 4, mode_8086 = True,
       auto_eoi = False, imr = 0, in_service = 0\<rparr> \<and>
    slave c2 (PIC_Configure o1 o2 s) =
      \<lparr>phase = Ready, want_icw4 = True, single = False, base = o2 AND 0xF8, cascade = 2, mode_8086 = True,
       auto_eoi = False, imr = 0, in_service = 0\<rparr> \<and>
    imr (master c1 (PIC_Disable (PIC_Configure o1 o2 s))) = 0xFF \<and>
    imr (slave c2 (PIC_Disable (PIC_Configure o1 o2 s))) = 0xFF"
  by (simp add: PIC_Configure_def PIC_Disable_def Let_def PIC1_COMMAND_PORT_def PIC1_DATA_PORT_def PIC2_COMMAND_PORT_def
      PIC2_DATA_PORT_def PIC_ICW1_ICW4_def PIC_ICW1_INITIALIZE_def PIC_ICW4_8086_def chip_simps bit_simps)

text \<open>
  C25. On initialised controllers whose data port reads back the mask, \<open>PIC_Mask\<close> and \<open>PIC_Unmask\<close> of
  a line below 8 set and clear exactly that line of the master. For a line from 8 to 15 they change
  line \<open>irq - 8\<close> of the master instead, and the slave's mask stays as it was.
\<close>
theorem pic_mask_lines:
  fixes s :: machine
  assumes "port8 dev (trace s) 0x21 = imr (master c1 s)" and "phase (master c1 s) = Ready" and "0 \<le> irq" and "irq < 16"
  shows "(bit (imr (master c1 (PIC_Mask dev irq s))) i \<longleftrightarrow> bit (imr (master c1 s)) i \<or> int i = mask_line irq) \<and>
    (bit (imr (master c1 (PIC_Unmask dev irq s))) i \<longleftrightarrow> bit (imr (master c1 s)) i \<and> int i \<noteq> mask_line irq) \<and>
    slave c2 (PIC_Mask dev irq s) = slave c2 s \<and> slave c2 (PIC_Unmask dev irq s) = slave c2 s"
proof (intro conjI)
  have k: "nat (mask_line irq) < 8" "0 \<le> mask_line irq" using assms(3,4) by (auto simp: mask_line_def)
  have e: "bit (push_bit (nat (mask_line irq)) 1 :: u8) i \<longleftrightarrow> int i = mask_line irq"
    using k by (auto simp: bit_simps)
  show "bit (imr (master c1 (PIC_Mask dev irq s))) i \<longleftrightarrow> bit (imr (master c1 s)) i \<or> int i = mask_line irq"
    unfolding PIC_Mask_master(1) [OF assms] by (simp add: bit_or_iff e [simplified])
  have "bit (imr (master c1 s)) i \<Longrightarrow> i < 8" using bit_imp_le_length by fastforce
  then show "bit (imr (master c1 (PIC_Unmask dev irq s))) i \<longleftrightarrow> bit (imr (master c1 s)) i \<and> int i \<noteq> mask_line irq"
    unfolding PIC_Unmask_master(1) [OF assms] by (auto simp add: bit_and_iff bit_not_iff e [simplified])
qed (fact PIC_Mask_master(2) [OF assms] PIC_Unmask_master(2) [OF assms])+

definition power_on :: chip where
  "power_on = \<lparr>phase = Ready, want_icw4 = False, single = False, base = 0, cascade = 0, mode_8086 = False,
    auto_eoi = False, imr = 0, in_service = 0\<rparr>"

definition pic_board :: device where
  "pic_board = \<lparr>port8 = (\<lambda>tr p. if p = 0x21 then imr (chip_after 0x20 power_on tr) else imr (chip_after 0xA0 power_on tr)),
    port16 = \<lambda>_ _. 0, port32 = \<lambda>_ _. 0, mmio32 = \<lambda>_ _. 0, msr = \<lambda>_ _. 0, cr4 = \<lambda>_. 0\<rparr>"

theorem pic_mask_lines_witness:
  "bit (imr (master power_on (PIC_Mask pic_board 12 \<lparr>trace = []\<rparr>))) 4 \<and>
   \<not> bit (imr (slave power_on (PIC_Mask pic_board 12 \<lparr>trace = []\<rparr>))) 4"
proof -
  let ?s = "\<lparr>trace = []\<rparr> :: machine"
  have h: "port8 pic_board (trace ?s) 0x21 = imr (master power_on ?s)" "phase (master power_on ?s) = Ready"
    by (simp_all add: pic_board_def master_def power_on_def)
  have "bit (imr (master power_on (PIC_Mask pic_board 12 ?s))) 4"
    using pic_mask_lines [OF h, of 12 4] by (simp add: mask_line_def)
  moreover have "slave power_on (PIC_Mask pic_board 12 ?s) = power_on"
    using pic_mask_lines [OF h, of 12 _ power_on] by (simp add: slave_def)
  ultimately show ?thesis by (simp add: power_on_def)
qed

end
