(* ===== verification/Interrupts.thy ===== *)
theory Interrupts
  imports Gdt Pic
begin

text \<open>
  Interrupt descriptors, handler tables and dispatch: \<open>arch/x86_64/idt.c\<close>, \<open>isr.c\<close>, the gate
  initialisation of \<open>isrs_gen.c\<close>, \<open>drivers/pic/pic_irq.c\<close> and \<open>drivers/pic/apic/\<close>. The assembly stub of
  vector \<open>i\<close> is its address \<open>isr i\<close>, a parameter; device drivers register themselves in the interrupt
  request tables, so what a driver does is a parameter as well, with the contract \<open>irq_driver\<close>.
  Messages are not modelled, except that a panic records what it reports.
\<close>

section \<open>State\<close>

record IDTEntry_t =
  BaseLow :: u16
  SegmentSelector :: u16
  IST :: u8
  Flags :: u8
  BaseMiddle :: u16
  BaseHigh :: u32
  Reserved :: u32

record Registers_t =
  rax :: u64
  rbx :: u64
  rcx :: u64
  rdx :: u64
  rsi :: u64
  rdi :: u64
  rbp :: u64
  r8 :: u64
  r9 :: u64
  r10 :: u64
  r11 :: u64
  r12 :: u64
  r13 :: u64
  r14 :: u64
  r15 :: u64
  interrupt :: u64
  err :: u64
  rip :: u64
  cs :: u64
  rflags :: u64
  rsp :: u64
  ss :: u64

text \<open>The functions the kernel installs in \<open>g_ISRHandlers\<close>; an absent entry is a null pointer.\<close>

datatype ISRHandler_t = page_fault_handler_fn | PIC_IRQ_Handler_fn | APIC_IRQ_Handler_fn

datatype report = Unhandled_interrupt u64 | Unhandled_exception u64 | Page_fault_read | Page_fault_write

record 'h cpu = machine +
  g_IDT :: "nat \<Rightarrow> IDTEntry_t"
  g_ISRHandlers :: "nat \<Rightarrow> ISRHandler_t option"
  g_PICIRQHandler_ts :: "nat \<Rightarrow> 'h option"
  g_APICIRQHandler_ts :: "nat \<Rightarrow> 'h option"
  reports :: "report list"

text \<open>
  A handler returns, or halts the processor with interrupts disabled. A call that never returns, or
  that leaves a table, has no outcome.
\<close>

datatype 's outcome = Done 's | Halted 's

definition and_then :: "'s outcome option \<Rightarrow> ('s \<Rightarrow> 's outcome option) \<Rightarrow> 's outcome option" where
  "and_then r f = (case r of Some (Done s) \<Rightarrow> f s | _ \<Rightarrow> r)"

lemma and_then_simps [simp]:
  "and_then None f = None" "and_then (Some (Done s)) f = f s" "and_then (Some (Halted s)) f = Some (Halted s)"
  by (simp_all add: and_then_def)

section \<open>The interrupt descriptor table\<close>

definition IDT_FLAG_GATE_32BIT_INT :: u8 where "IDT_FLAG_GATE_32BIT_INT = 0xE"
definition IDT_FLAG_RING0 :: u8 where "IDT_FLAG_RING0 = 0"
definition IDT_FLAG_PRESENT :: u8 where "IDT_FLAG_PRESENT = 0x80"

definition IDT_SetGate :: "nat \<Rightarrow> u64 \<Rightarrow> u16 \<Rightarrow> u8 \<Rightarrow> ('h, 'a) cpu_scheme \<Rightarrow> ('h, 'a) cpu_scheme" where
  "IDT_SetGate i addr segmentDescriptor flags s =
    s\<lparr>g_IDT := (g_IDT s)(i := \<lparr>BaseLow = ucast (addr AND 0xFFFF), SegmentSelector = segmentDescriptor, IST = 0, Flags = flags,
      BaseMiddle = ucast (drop_bit 16 addr AND 0xFFFF), BaseHigh = ucast (drop_bit 32 addr AND 0xFFFFFFFF), Reserved = 0\<rparr>)\<rparr>"

definition IDT_EnableGate :: "nat \<Rightarrow> ('h, 'a) cpu_scheme \<Rightarrow> ('h, 'a) cpu_scheme" where
  "IDT_EnableGate i s = s\<lparr>g_IDT := (g_IDT s)(i := (g_IDT s i)\<lparr>Flags := Flags (g_IDT s i) OR IDT_FLAG_PRESENT\<rparr>)\<rparr>"

definition IDT_DisableGate :: "nat \<Rightarrow> ('h, 'a) cpu_scheme \<Rightarrow> ('h, 'a) cpu_scheme" where
  "IDT_DisableGate i s = s\<lparr>g_IDT := (g_IDT s)(i := (g_IDT s i)\<lparr>Flags := Flags (g_IDT s i) AND NOT IDT_FLAG_PRESENT\<rparr>)\<rparr>"

section \<open>Interrupt service routines\<close>

definition ISR_RegisterHandler :: "nat \<Rightarrow> ISRHandler_t \<Rightarrow> ('h, 'a) cpu_scheme \<Rightarrow> ('h, 'a) cpu_scheme" where
  "ISR_RegisterHandler i h s = IDT_EnableGate i (s\<lparr>g_ISRHandlers := (g_ISRHandlers s)(i \<mapsto> h)\<rparr>)"

definition ISR_InitializeGates :: "(nat \<Rightarrow> u64) \<Rightarrow> ('h, 'a) cpu_scheme \<Rightarrow> ('h, 'a) cpu_scheme" where
  "ISR_InitializeGates isr s =
    fold (\<lambda>i. IDT_SetGate i (isr i) GDT_CODE_SEGMENT (IDT_FLAG_RING0 OR IDT_FLAG_GATE_32BIT_INT)) [0..<256] s"

definition ISR_Initialize :: "(nat \<Rightarrow> u64) \<Rightarrow> ('h, 'a) cpu_scheme \<Rightarrow> ('h, 'a) cpu_scheme" where
  "ISR_Initialize isr s =
    (let s = ISR_InitializeGates isr s;
         s = ISR_RegisterHandler 14 page_fault_handler_fn s
     in fold (\<lambda>i s. if i \<noteq> 14 then IDT_EnableGate i s else s) [0..<256] s)"

definition report_halt :: "report \<Rightarrow> ('h, 'a) cpu_scheme \<Rightarrow> ('h, 'a) cpu_scheme outcome option" where
  "report_halt r s = Some (Halted (s\<lparr>reports := r # reports s\<rparr>))"

definition page_fault_handler :: "Registers_t \<Rightarrow> ('h, 'a) cpu_scheme \<Rightarrow> ('h, 'a) cpu_scheme outcome option" where
  "page_fault_handler regs s = report_halt (if err regs AND 1 \<noteq> 0 then Page_fault_read else Page_fault_write) s"

section \<open>Requests through the legacy controllers\<close>

type_synonym ('h, 'a) driver_call =
  "'h \<Rightarrow> Registers_t \<Rightarrow> ('h, 'a) cpu_scheme \<Rightarrow> ('h, 'a) cpu_scheme outcome option"

definition PIC_REMAP_OFFSET :: u8 where "PIC_REMAP_OFFSET = 0xE0"

definition irq_of :: "u64 \<Rightarrow> Registers_t \<Rightarrow> int" where
  "irq_of offset regs = sint (ucast (interrupt regs - offset) :: i32)"

definition PIC_IRQ_Handler ::
    "device \<Rightarrow> ('h, 'a) driver_call \<Rightarrow> Registers_t \<Rightarrow> ('h, 'a) cpu_scheme \<Rightarrow> ('h, 'a) cpu_scheme outcome option" where
  "PIC_IRQ_Handler dev call regs s =
    (let irq = irq_of (ucast PIC_REMAP_OFFSET) regs;
         (pic_isr, s) = PIC_ReadInServiceRegister dev s;
         (pic_irr, s) = PIC_ReadIrqRequestRegister dev s
     in if irq < 0 \<or> irq \<ge> 16 then None
        else and_then (case g_PICIRQHandler_ts s (nat irq) of Some h \<Rightarrow> call h regs s | None \<Rightarrow> Some (Done s))
          (\<lambda>s. Some (Done (PIC_SendEndOfInterrupt irq s))))"

definition PIC_IRQ_Initialize :: "('h, 'a) cpu_scheme \<Rightarrow> ('h, 'a) cpu_scheme" where
  "PIC_IRQ_Initialize s =
    fold (\<lambda>i. ISR_RegisterHandler (unat PIC_REMAP_OFFSET + i) PIC_IRQ_Handler_fn) [0..<16]
      (PIC_Configure PIC_REMAP_OFFSET (PIC_REMAP_OFFSET + 8) s)"

definition PIC_IRQ_RegisterHandler :: "nat \<Rightarrow> 'h \<Rightarrow> ('h, 'a) cpu_scheme \<Rightarrow> ('h, 'a) cpu_scheme" where
  "PIC_IRQ_RegisterHandler irq h s = s\<lparr>g_PICIRQHandler_ts := (g_PICIRQHandler_ts s)(irq \<mapsto> h)\<rparr>"

section \<open>Requests through the local and I/O APIC\<close>

definition APIC_REMAP_OFFSET :: nat where "APIC_REMAP_OFFSET = 0x20"
definition MAX_IRQS :: nat where "MAX_IRQS = 64"
definition APIC_ISR :: u32 where "APIC_ISR = 0x100"
definition APIC_IRR :: u32 where "APIC_IRR = 0x200"
definition APIC_LVT_TIMER :: u32 where "APIC_LVT_TIMER = 0x320"
definition APIC_REGISTER_OFFSET :: u32 where "APIC_REGISTER_OFFSET = 0x10"
definition APIC_DELIVERY_MODE_FIXED :: u32 where "APIC_DELIVERY_MODE_FIXED = 0"
definition CR4_APIC_BIT :: u64 where "CR4_APIC_BIT = 0x200"
definition IA32_APIC_BASE_MSR :: u32 where "IA32_APIC_BASE_MSR = 0x1B"
definition IA32_APIC_BASE_MSR_ENABLE :: u32 where "IA32_APIC_BASE_MSR_ENABLE = 0x800"

definition cpu_set_apic_base :: "u64 \<Rightarrow> 'a machine_scheme \<Rightarrow> 'a machine_scheme" where
  "cpu_set_apic_base apic s =
    cpuSetMSR IA32_APIC_BASE_MSR (ucast (apic AND 0xFFFFF000) OR IA32_APIC_BASE_MSR_ENABLE) 0 s"

definition cpu_get_apic_base :: "device \<Rightarrow> 'a machine_scheme \<Rightarrow> u64 \<times> 'a machine_scheme" where
  "cpu_get_apic_base dev s = (let ((eax, edx), s) = cpuGetMSR dev IA32_APIC_BASE_MSR s in (ucast (eax AND 0xFFFFF000), s))"

definition ConfigureIMCR :: "device \<Rightarrow> 'a machine_scheme \<Rightarrow> 'a machine_scheme" where
  "ConfigureIMCR dev s =
    (let (al, s) = inb dev 0x22 s in if al AND 0x80 \<noteq> 0 then outb 0x23 0x1 (outb 0x22 0x70 s) else s)"

definition APIC_Initialize :: "device \<Rightarrow> 'a machine_scheme \<Rightarrow> 'a machine_scheme" where
  "APIC_Initialize dev s =
    (let (c, s) = ReadCR4 dev s;
         s = WriteCR4 (c OR CR4_APIC_BIT) s;
         ((eax, edx), s) = cpuGetMSR dev IA32_APIC_BASE_MSR s;
         s = if eax AND IA32_APIC_BASE_MSR_ENABLE = 0
             then cpuSetMSR IA32_APIC_BASE_MSR (eax OR IA32_APIC_BASE_MSR_ENABLE) edx s else s;
         ((eax, edx), s) = cpuGetMSR dev IA32_APIC_BASE_MSR s;
         (svr, s) = APIC_Read dev APIC_SVR s
     in APIC_Write APIC_SVR (svr OR 0x100 OR 0xFF) s)"

definition APIC_IRQ_Handler ::
    "device \<Rightarrow> ('h, 'a) driver_call \<Rightarrow> Registers_t \<Rightarrow> ('h, 'a) cpu_scheme \<Rightarrow> ('h, 'a) cpu_scheme outcome option" where
  "APIC_IRQ_Handler dev call regs s =
    (let irq = irq_of (of_nat APIC_REMAP_OFFSET) regs;
         (apic_isr, s) = APIC_Read dev APIC_ISR s;
         (apic_irr, s) = APIC_Read dev APIC_IRR s
     in if irq < 0 \<or> irq \<ge> int MAX_IRQS then None
        else and_then (case g_APICIRQHandler_ts s (nat irq) of Some h \<Rightarrow> call h regs s | None \<Rightarrow> Some (Done s))
          (\<lambda>s. Some (Done (LAPIC_SendEOI s))))"

definition APIC_IRQ_Initialize :: "device \<Rightarrow> ('h, 'a) cpu_scheme \<Rightarrow> ('h, 'a) cpu_scheme" where
  "APIC_IRQ_Initialize dev s =
    fold (\<lambda>i. ISR_RegisterHandler (APIC_REMAP_OFFSET + i) APIC_IRQ_Handler_fn) [0..<MAX_IRQS] (APIC_Initialize dev s)"

definition APIC_IRQ_RegisterHandler :: "u32 \<Rightarrow> 'h \<Rightarrow> ('h, 'a) cpu_scheme \<Rightarrow> ('h, 'a) cpu_scheme" where
  "APIC_IRQ_RegisterHandler irq h s =
    (if unat irq \<ge> MAX_IRQS then s else s\<lparr>g_APICIRQHandler_ts := (g_APICIRQHandler_ts s)(unat irq \<mapsto> h)\<rparr>)"

definition APIC_EnableIRQ :: "device \<Rightarrow> u32 \<Rightarrow> 'a machine_scheme \<Rightarrow> 'a machine_scheme" where
  "APIC_EnableIRQ dev irq s =
    (let (v, s) = APIC_Read dev (APIC_LVT_TIMER + irq * APIC_REGISTER_OFFSET) s
     in APIC_Write (APIC_LVT_TIMER + irq * APIC_REGISTER_OFFSET) (v AND NOT 0x10000) s)"

definition APIC_DisableIRQ :: "device \<Rightarrow> u32 \<Rightarrow> 'a machine_scheme \<Rightarrow> 'a machine_scheme" where
  "APIC_DisableIRQ dev irq s =
    (let (v, s) = APIC_Read dev (APIC_LVT_TIMER + irq * APIC_REGISTER_OFFSET) s
     in APIC_Write (APIC_LVT_TIMER + irq * APIC_REGISTER_OFFSET) (v OR 0x10000) s)"

definition APIC_EnableIOIRQ :: "u32 \<Rightarrow> u32 \<Rightarrow> 'a machine_scheme \<Rightarrow> 'a machine_scheme" where
  "APIC_EnableIOIRQ irq interrupt_destination s =
    APIC_WriteIO (irq * APIC_REGISTER_OFFSET) ((interrupt_destination OR APIC_DELIVERY_MODE_FIXED) AND NOT 0x10000) s"

definition APIC_DisableIOIRQ :: "device \<Rightarrow> u32 \<Rightarrow> 'a machine_scheme \<Rightarrow> 'a machine_scheme" where
  "APIC_DisableIOIRQ dev irq s =
    (let (v, s) = APIC_ReadIO dev (irq * APIC_REGISTER_OFFSET) s
     in APIC_WriteIO (irq * APIC_REGISTER_OFFSET) (v OR 0x10000) s)"

section \<open>Dispatch\<close>

definition ISR_Handler ::
    "device \<Rightarrow> ('h, 'a) driver_call \<Rightarrow> Registers_t \<Rightarrow> ('h, 'a) cpu_scheme \<Rightarrow> ('h, 'a) cpu_scheme outcome option" where
  "ISR_Handler dev call regs s =
    (if interrupt regs \<ge> 256 then None
     else case g_ISRHandlers s (unat (interrupt regs)) of
       Some page_fault_handler_fn \<Rightarrow> page_fault_handler regs s
     | Some PIC_IRQ_Handler_fn \<Rightarrow> PIC_IRQ_Handler dev call regs s
     | Some APIC_IRQ_Handler_fn \<Rightarrow> APIC_IRQ_Handler dev call regs s
     | None \<Rightarrow>
         if interrupt regs \<ge> 32 then Some (Done (s\<lparr>reports := Unhandled_interrupt (interrupt regs) # reports s\<rparr>))
         else report_halt (Unhandled_exception (interrupt regs)) s)"

text \<open>The order in which \<open>kernel_main\<close> calls the two initialisers.\<close>

definition boot_interrupts :: "device \<Rightarrow> (nat \<Rightarrow> u64) \<Rightarrow> ('h, 'a) cpu_scheme \<Rightarrow> ('h, 'a) cpu_scheme" where
  "boot_interrupts dev isr s = APIC_IRQ_Initialize dev (ISR_Initialize isr s)"

section \<open>Tables after initialisation\<close>

definition gate_target :: "IDTEntry_t \<Rightarrow> u64" where
  "gate_target e = ucast (BaseLow e) OR push_bit 16 (ucast (BaseMiddle e)) OR push_bit 32 (ucast (BaseHigh e))"

definition gate :: "u64 \<Rightarrow> IDTEntry_t" where
  "gate addr = \<lparr>BaseLow = ucast addr, SegmentSelector = 8, IST = 0, Flags = 0xE, BaseMiddle = ucast (drop_bit 16 addr),
    BaseHigh = ucast (drop_bit 32 addr), Reserved = 0\<rparr>"

definition present_gate :: "IDTEntry_t \<Rightarrow> IDTEntry_t" where
  "present_gate e = e\<lparr>Flags := Flags e OR 0x80\<rparr>"

lemma gate_target_gate: "gate_target (gate addr) = addr"
proof (rule bit_word_eqI)
  fix n assume "n < LENGTH(64)"
  then show "bit (gate_target (gate addr)) n \<longleftrightarrow> bit addr n"
    by (cases "n < 32") (auto simp: gate_target_def gate_def bit_simps)
qed

lemma gate_halves:
  "ucast (addr AND 0xFFFF) = (ucast addr :: u16)" "ucast (drop_bit 16 addr AND 0xFFFF) = (ucast (drop_bit 16 addr) :: u16)"
  "ucast (drop_bit 32 addr AND 0xFFFFFFFF) = (ucast (drop_bit 32 addr) :: u32)" for addr :: u64
proof -
  have m: "(0xFFFF :: u64) = mask 16" "(0xFFFFFFFF :: u64) = mask 32" by (simp_all add: mask_eq_exp_minus_1)
  show "ucast (addr AND 0xFFFF) = (ucast addr :: u16)" "ucast (drop_bit 16 addr AND 0xFFFF) = (ucast (drop_bit 16 addr) :: u16)"
    "ucast (drop_bit 32 addr AND 0xFFFFFFFF) = (ucast (drop_bit 32 addr) :: u32)"
    unfolding m by (auto intro!: bit_word_eqI simp: bit_simps)
qed

lemma set_gate_IDT: "g_IDT (IDT_SetGate i addr GDT_CODE_SEGMENT (IDT_FLAG_RING0 OR IDT_FLAG_GATE_32BIT_INT) s) = (g_IDT s)(i := gate addr)"
  by (simp add: IDT_SetGate_def gate_def GDT_CODE_SEGMENT_def IDT_FLAG_RING0_def IDT_FLAG_GATE_32BIT_INT_def gate_halves)

lemma enable_gate_IDT: "g_IDT (IDT_EnableGate i s) = (g_IDT s)(i := present_gate (g_IDT s i))"
  by (simp add: IDT_EnableGate_def present_gate_def IDT_FLAG_PRESENT_def)

lemma present_gate_twice [simp]: "present_gate (present_gate e) = present_gate e"
  by (simp add: present_gate_def or.assoc)

lemma gate_tables [simp]:
  "g_ISRHandlers (IDT_SetGate i addr sel fl s) = g_ISRHandlers s" "g_ISRHandlers (IDT_EnableGate i s) = g_ISRHandlers s"
  by (simp_all add: IDT_SetGate_def IDT_EnableGate_def)

lemma register_tables:
  "g_IDT (ISR_RegisterHandler i h s) = (g_IDT s)(i := present_gate (g_IDT s i))"
  "g_ISRHandlers (ISR_RegisterHandler i h s) = (g_ISRHandlers s)(i \<mapsto> h)"
  by (simp_all add: ISR_RegisterHandler_def enable_gate_IDT)

lemma fold_set_gates:
  "g_IDT (fold (\<lambda>i. IDT_SetGate i (isr i) GDT_CODE_SEGMENT (IDT_FLAG_RING0 OR IDT_FLAG_GATE_32BIT_INT)) is s) j =
     (if j \<in> set is then gate (isr j) else g_IDT s j)"
  "g_ISRHandlers (fold (\<lambda>i. IDT_SetGate i (isr i) GDT_CODE_SEGMENT (IDT_FLAG_RING0 OR IDT_FLAG_GATE_32BIT_INT)) is s) = g_ISRHandlers s"
  by (induction "is" arbitrary: s) (auto simp: set_gate_IDT)

lemma fold_enable_gates:
  "g_IDT (fold (\<lambda>i s. if i \<noteq> 14 then IDT_EnableGate i s else s) is s) j =
     (if j \<in> set is \<and> j \<noteq> 14 then present_gate (g_IDT s j) else g_IDT s j)"
  "g_ISRHandlers (fold (\<lambda>i s. if i \<noteq> 14 then IDT_EnableGate i s else s) is s) = g_ISRHandlers s"
  by (induction "is" arbitrary: s) (auto simp: enable_gate_IDT)

lemma fold_register:
  "g_IDT (fold (\<lambda>i. ISR_RegisterHandler (k + i) h) is s) j =
     (if j \<in> (+) k ` set is then present_gate (g_IDT s j) else g_IDT s j)"
  "g_ISRHandlers (fold (\<lambda>i. ISR_RegisterHandler (k + i) h) is s) j =
     (if j \<in> (+) k ` set is then Some h else g_ISRHandlers s j)"
  by (induction "is" arbitrary: s) (auto simp: register_tables)

lemma ISR_Initialize_tables:
  assumes "j < 256"
  shows "g_IDT (ISR_Initialize isr s) j = present_gate (gate (isr j))"
    and "g_ISRHandlers (ISR_Initialize isr s) = (g_ISRHandlers s)(14 \<mapsto> page_fault_handler_fn)"
  using assms by (simp_all add: ISR_Initialize_def ISR_InitializeGates_def Let_def fold_enable_gates register_tables fold_set_gates)

lemma APIC_Initialize_tables [simp]:
  "g_IDT (APIC_Initialize dev s) = g_IDT s" "g_ISRHandlers (APIC_Initialize dev s) = g_ISRHandlers s"
  "g_APICIRQHandler_ts (APIC_Initialize dev s) = g_APICIRQHandler_ts s"
  by (simp_all add: APIC_Initialize_def io_defs split_beta emit_def)

lemma boot_IDT: "i < 256 \<Longrightarrow> g_IDT (boot_interrupts dev isr s) i = present_gate (gate (isr i))"
  by (simp add: boot_interrupts_def APIC_IRQ_Initialize_def fold_register ISR_Initialize_tables)

lemma image_offset: "(+) k ` set [0..<n] = {k..<k + n}" for k :: nat
  by (simp add: image_add_atLeastLessThan add.commute)

lemma boot_handlers:
  assumes "g_ISRHandlers s = (\<lambda>_. None)"
  shows "g_ISRHandlers (boot_interrupts dev isr s) i = (if i = 14 then Some page_fault_handler_fn
      else if 0x20 \<le> i \<and> i < 0x60 then Some APIC_IRQ_Handler_fn else None)"
  using assms ISR_Initialize_tables(2) [of 0 isr s]
  by (simp add: boot_interrupts_def APIC_IRQ_Initialize_def fold_register image_offset APIC_REMAP_OFFSET_def MAX_IRQS_def)

lemma irq_of_vector:
  assumes "off \<le> interrupt regs" and "interrupt regs < 256"
  shows "irq_of off regs = int (unat (interrupt regs) - unat off)"
proof -
  have d: "unat (interrupt regs - off) = unat (interrupt regs) - unat off" using assms(1) by (rule unat_sub)
  moreover have "unat (interrupt regs) < 256" using assms(2) by (simp add: word_less_nat_alt)
  ultimately have "unat (ucast (interrupt regs - off) :: i32) = unat (interrupt regs) - unat off"
    by (subst unat_ucast_32) simp_all
  with \<open>unat (interrupt regs) < 256\<close> show ?thesis by (simp add: irq_of_def sint_eq_unat)
qed

lemma APIC_table_gates [simp]:
  "g_APICIRQHandler_ts (IDT_SetGate i addr sel fl s) = g_APICIRQHandler_ts s"
  "g_APICIRQHandler_ts (IDT_EnableGate i s) = g_APICIRQHandler_ts s"
  "g_APICIRQHandler_ts (ISR_RegisterHandler i h s) = g_APICIRQHandler_ts s"
  by (simp_all add: IDT_SetGate_def IDT_EnableGate_def ISR_RegisterHandler_def)

lemma APIC_table_folds [simp]:
  "g_APICIRQHandler_ts (fold (\<lambda>i. ISR_RegisterHandler (k + i) h) is s) = g_APICIRQHandler_ts s"
  "g_APICIRQHandler_ts (fold (\<lambda>i. IDT_SetGate i (isr i) sel fl) is s) = g_APICIRQHandler_ts s"
  "g_APICIRQHandler_ts (fold (\<lambda>i s. if i \<noteq> 14 then IDT_EnableGate i s else s) is s) = g_APICIRQHandler_ts s"
  by (induction "is" arbitrary: s) simp_all

lemma boot_APIC_table [simp]: "g_APICIRQHandler_ts (boot_interrupts dev isr s) = g_APICIRQHandler_ts s"
  by (simp add: boot_interrupts_def APIC_IRQ_Initialize_def ISR_Initialize_def ISR_InitializeGates_def Let_def)

section \<open>The contract of a device driver\<close>

definition same_tables :: "('h, 'a) cpu_scheme \<Rightarrow> ('h, 'a) cpu_scheme \<Rightarrow> bool" where
  "same_tables s s' \<longleftrightarrow> g_IDT s' = g_IDT s \<and> g_ISRHandlers s' = g_ISRHandlers s \<and>
    g_PICIRQHandler_ts s' = g_PICIRQHandler_ts s \<and> g_APICIRQHandler_ts s' = g_APICIRQHandler_ts s"

lemma same_tables_refl [simp]: "same_tables s s"
  by (simp add: same_tables_def)

lemma same_tables_trans: "same_tables s t \<Longrightarrow> same_tables t u \<Longrightarrow> same_tables s u"
  by (simp add: same_tables_def)

lemma same_tables_emit [simp]: "same_tables s (emit e t) \<longleftrightarrow> same_tables s t" "same_tables (emit e s) t \<longleftrightarrow> same_tables s t"
  by (simp_all add: same_tables_def emit_def)

lemma same_tables_report [simp]: "same_tables s (s\<lparr>reports := rs\<rparr>)"
  by (simp add: same_tables_def)

lemma tables_io:
  "snd (APIC_Read dev r s) = emit (Load32 (reg_addr APIC_BASE r) (fst (APIC_Read dev r s))) s"
  "LAPIC_SendEOI s = emit (Store32 0xFEE000B0 0) s"
  by (simp_all add: io_defs reg_addr_def APIC_BASE_def APIC_EOI_def)

lemma tables_emit [simp]:
  "g_IDT (emit e s) = g_IDT s" "g_ISRHandlers (emit e s) = g_ISRHandlers s"
  "g_PICIRQHandler_ts (emit e s) = g_PICIRQHandler_ts s" "g_APICIRQHandler_ts (emit e s) = g_APICIRQHandler_ts s"
  "reports (emit e s) = reports s"
  by (simp_all add: emit_def)

lemma tables_PIC [simp]:
  "same_tables s (snd (PIC_read_pair dev c t)) \<longleftrightarrow> same_tables s t"
  "same_tables s (PIC_SendEndOfInterrupt irq t) \<longleftrightarrow> same_tables s t"
  by (simp_all add: PIC_read_pair_def PIC_SendEndOfInterrupt_def io_defs split_beta)

text \<open>One interrupt that returns, taken through a gate that is present.\<close>

inductive irq_step :: "device \<Rightarrow> ('h, 'a) driver_call \<Rightarrow> ('h, 'a) cpu_scheme \<Rightarrow> ('h, 'a) cpu_scheme \<Rightarrow> bool"
  for dev call where
  take_interrupt: "bit (Flags (g_IDT s (unat (interrupt regs)))) 7 \<Longrightarrow> ISR_Handler dev call regs s = Some (Done s') \<Longrightarrow>
    irq_step dev call s s'"

inductive_cases irq_stepE: "irq_step dev call s s'"

locale irq_driver =
  fixes call :: "('h, 'a) driver_call"
  assumes driver_tables: "call h regs s = Some (Done s') \<Longrightarrow> same_tables s s'"
    and driver_returns: "call h regs s \<noteq> Some (Halted s')"
begin

lemma dispatch_tables:
  assumes "and_then (case t of Some h \<Rightarrow> call h regs s | None \<Rightarrow> Some (Done s)) (\<lambda>s. Some (Done (eoi s))) = Some (Done s')"
    and "\<And>t. same_tables s t \<Longrightarrow> same_tables s (eoi t)"
  shows "same_tables s s'"
proof (cases t)
  case None
  with assms show ?thesis by auto
next
  case (Some h)
  with assms(1) obtain u where "call h regs s = Some (Done u)" "s' = eoi u"
    by (auto simp: and_then_def split: option.splits outcome.splits)
  with assms(2) driver_tables show ?thesis by blast
qed

lemma PIC_IRQ_Handler_tables:
  assumes "PIC_IRQ_Handler dev call regs s = Some (Done s')"
  shows "same_tables s s'"
proof -
  define t where "t = snd (PIC_read_pair dev PIC_CMD_READ_IRR (snd (PIC_read_pair dev PIC_CMD_READ_ISR s)))"
  have "same_tables s t" by (simp add: t_def)
  moreover have "same_tables t s'"
    using assms unfolding PIC_IRQ_Handler_def PIC_ReadInServiceRegister_def PIC_ReadIrqRequestRegister_def Let_def split_beta
      t_def [symmetric]
    by (auto split: if_splits elim!: dispatch_tables)
  ultimately show ?thesis by (rule same_tables_trans)
qed

lemma APIC_IRQ_Handler_tables:
  assumes "APIC_IRQ_Handler dev call regs s = Some (Done s')"
  shows "same_tables s s'"
proof -
  define t where "t = snd (APIC_Read dev APIC_IRR (snd (APIC_Read dev APIC_ISR s)))"
  have "same_tables s t" by (simp add: t_def tables_io)
  moreover have "same_tables t s'"
    using assms unfolding APIC_IRQ_Handler_def Let_def split_beta t_def [symmetric]
    by (auto split: if_splits elim!: dispatch_tables simp: tables_io)
  ultimately show ?thesis by (rule same_tables_trans)
qed

lemma ISR_Handler_tables: "ISR_Handler dev call regs s = Some (Done s') \<Longrightarrow> same_tables s s'"
  by (auto simp: ISR_Handler_def report_halt_def page_fault_handler_def split: if_splits option.splits ISRHandler_t.splits
      dest: PIC_IRQ_Handler_tables APIC_IRQ_Handler_tables)

lemma interrupts_keep_tables: "(irq_step dev call)\<^sup>*\<^sup>* s s' \<Longrightarrow> same_tables s s'"
proof (induction rule: rtranclp_induct)
  case base
  show ?case by simp
next
  case (step t u)
  from step.hyps(2) have "same_tables t u" by (elim irq_stepE) (rule ISR_Handler_tables)
  with step.IH show ?case by (rule same_tables_trans)
qed

lemma interrupt_acknowledged:
  assumes "ISR_Handler dev call regs s = Some (Done s')" and "g_ISRHandlers s (unat (interrupt regs)) = Some APIC_IRQ_Handler_fn"
  shows "hd (trace s') = Store32 0xFEE000B0 0"
  using assms by (auto simp: ISR_Handler_def APIC_IRQ_Handler_def Let_def split_beta tables_io and_then_def
      split: if_splits option.splits outcome.splits)

lemma only_exceptions_halt:
  assumes "ISR_Handler dev call regs s = Some (Halted s')"
  shows "g_ISRHandlers s (unat (interrupt regs)) = Some page_fault_handler_fn \<or>
    g_ISRHandlers s (unat (interrupt regs)) = None \<and> interrupt regs < 32"
  using assms driver_returns by (auto simp: ISR_Handler_def APIC_IRQ_Handler_def PIC_IRQ_Handler_def Let_def split_beta and_then_def
      split: if_splits option.splits outcome.splits ISRHandler_t.splits)

end

section \<open>Properties\<close>

text \<open>
  C22. After \<open>ISR_Initialize\<close> and \<open>APIC_IRQ_Initialize\<close> every one of the 256 gates is present, leads to
  the stub of its own vector through the kernel code segment as a ring-0 interrupt gate, and the
  handler table holds exactly the page fault handler at 14 and the APIC dispatcher at 0x20 to 0x5F.
\<close>
theorem interrupt_tables_after_boot:
  assumes "g_ISRHandlers s = (\<lambda>_. None)" and "i < 256"
  shows "gate_target (g_IDT (boot_interrupts dev isr s) i) = isr i \<and>
    (SegmentSelector (g_IDT (boot_interrupts dev isr s) i), Flags (g_IDT (boot_interrupts dev isr s) i),
       IST (g_IDT (boot_interrupts dev isr s) i), Reserved (g_IDT (boot_interrupts dev isr s) i)) = (0x08, 0x8E, 0, 0) \<and>
    g_ISRHandlers (boot_interrupts dev isr s) i = (if i = 14 then Some page_fault_handler_fn
      else if 0x20 \<le> i \<and> i < 0x60 then Some APIC_IRQ_Handler_fn else None)"
proof (intro conjI)
  have "gate_target (present_gate e) = gate_target e" for e by (simp add: gate_target_def present_gate_def)
  then show "gate_target (g_IDT (boot_interrupts dev isr s) i) = isr i"
    using assms(2) by (simp add: boot_IDT gate_target_gate)
  show "(SegmentSelector (g_IDT (boot_interrupts dev isr s) i), Flags (g_IDT (boot_interrupts dev isr s) i),
       IST (g_IDT (boot_interrupts dev isr s) i), Reserved (g_IDT (boot_interrupts dev isr s) i)) = (0x08, 0x8E, 0, 0)"
    using assms(2) by (simp add: boot_IDT present_gate_def gate_def)
qed (rule boot_handlers [OF assms(1)])

definition zero_cpu :: "nat cpu" where
  "zero_cpu = \<lparr>trace = [], g_IDT = (\<lambda>_. \<lparr>BaseLow = 0, SegmentSelector = 0, IST = 0, Flags = 0, BaseMiddle = 0, BaseHigh = 0,
     Reserved = 0\<rparr>), g_ISRHandlers = (\<lambda>_. None), g_PICIRQHandler_ts = (\<lambda>_. None), g_APICIRQHandler_ts = (\<lambda>_. None), reports = []\<rparr>"

theorem interrupt_tables_after_boot_witness:
  "gate_target (g_IDT (boot_interrupts pic_board (\<lambda>i. 0xFFFFFFFF80001000 + of_nat i * 16) zero_cpu) 0x21) = 0xFFFFFFFF80001210 \<and>
   g_ISRHandlers (boot_interrupts pic_board (\<lambda>i. 0xFFFFFFFF80001000 + of_nat i * 16) zero_cpu) 0x21 = Some APIC_IRQ_Handler_fn"
  using interrupt_tables_after_boot [of zero_cpu 33] by (simp add: zero_cpu_def)


definition vector_regs :: "u64 \<Rightarrow> u64 \<Rightarrow> Registers_t" where
  "vector_regs v e = \<lparr>rax = 0, rbx = 0, rcx = 0, rdx = 0, rsi = 0, rdi = 0, rbp = 0, r8 = 0, r9 = 0, r10 = 0, r11 = 0, r12 = 0,
    r13 = 0, r14 = 0, r15 = 0, interrupt = v, err = e, rip = 0, cs = 8, rflags = 0x202, rsp = 0, ss = 16\<rparr>"


end
