(* ===== verification/Keyboard.thy ===== *)
theory Keyboard
  imports Interrupts
begin

text \<open>
  The PS/2 keyboard driver, \<open>kernel/shell/keyboard.c\<close>: controller commands, the interrupt handler that
  turns scan codes into the tables of held keys and characters, the I/O APIC routing of its line, and
  \<open>getc\<close>, which polls those tables. The handler is the one device driver of the kernel that is
  registered for an interrupt; it is the instance of the \<open>irq_driver\<close> contract. \<open>getc\<close> runs while
  interrupts change the table under it, so the table it sees is a function of time.
\<close>

section \<open>Constants and layout\<close>

definition KEYBOARD_DATA_PORT :: u16 where "KEYBOARD_DATA_PORT = 0x60"
definition KEYBOARD_CMD_PORT :: u16 where "KEYBOARD_CMD_PORT = 0x64"

definition CMD_LED_STATE :: u8 where "CMD_LED_STATE = 0xED"
definition CMD_IDENTIFY_KEYBOARD :: u8 where "CMD_IDENTIFY_KEYBOARD = 0xF2"
definition CMD_TYPEMATIC_BYTE :: u8 where "CMD_TYPEMATIC_BYTE = 0xF3"
definition CMD_ENABLE_SCANNING :: u8 where "CMD_ENABLE_SCANNING = 0xF4"
definition CMD_RESET :: u8 where "CMD_RESET = 0xFF"
definition RES_ACK :: u8 where "RES_ACK = 0xFA"
definition RES_SELF_TEST_PASSED :: u8 where "RES_SELF_TEST_PASSED = 0xAA"
definition RES_SELF_TEST_FAILED :: u8 where "RES_SELF_TEST_FAILED = 0xFC"
definition RES_RESEND :: u8 where "RES_RESEND = 0xFE"

definition KEY_DELETE :: u8 where "KEY_DELETE = 0x91"
definition KEY_LEFT :: u8 where "KEY_LEFT = 0x9B"
definition KEY_UP :: u8 where "KEY_UP = 0x98"
definition KEY_RIGHT :: u8 where "KEY_RIGHT = 0x9D"
definition KEY_DOWN :: u8 where "KEY_DOWN = 0xA0"

definition KEY_LCTRL :: u8 where "KEY_LCTRL = 0x1D"
definition KEY_RCTRL :: u8 where "KEY_RCTRL = 0x1D"
definition KEY_LALT :: u8 where "KEY_LALT = 0x38"
definition KEY_RALT :: u8 where "KEY_RALT = 0x38"
definition KEY_LSHIFT :: u8 where "KEY_LSHIFT = 0x2A"
definition KEY_RSHIFT :: u8 where "KEY_RSHIFT = 0x36"
definition KEY_CAPS_LOCK :: u8 where "KEY_CAPS_LOCK = 0x3A"
definition KEY_SCROLL_LOCK :: u8 where "KEY_SCROLL_LOCK = 0x46"
definition KEY_NUM_LOCK :: u8 where "KEY_NUM_LOCK = 0x45"
definition MAGIC_CAPSLOCK_TOGGLE :: u8 where "MAGIC_CAPSLOCK_TOGGLE = 0x3A"

definition KEY_MOD_ALT :: u16 where "KEY_MOD_ALT = 0x0200"
definition KEY_MOD_CTRL :: u16 where "KEY_MOD_CTRL = 0x0400"
definition KEY_MOD_SHIFT :: u16 where "KEY_MOD_SHIFT = 0x0800"
definition KEY_MOD_CAPS_LOCK :: u16 where "KEY_MOD_CAPS_LOCK = 0x1000"
definition KEY_MOD_NUM_LOCK :: u16 where "KEY_MOD_NUM_LOCK = 0x2000"
definition KEY_MOD_SCROLL_LOCK :: u16 where "KEY_MOD_SCROLL_LOCK = 0x4000"

text \<open>The initialisers list 89 of the 128 entries of each row; C fills the rest with zero.\<close>

definition layout_plain :: "u8 list" where
  "layout_plain = [0, 1, 49, 50, 51, 52, 53, 54, 55, 56, 57, 48, 45, 61, 8, 9, 113, 119, 101, 114, 116, 121, 117, 105, 111, 112,
    91, 93, 10, 0, 97, 115, 100, 102, 103, 104, 106, 107, 108, 59, 39, 96, 0, 92, 122, 120, 99, 118, 98, 110, 109, 44, 46, 47,
    0, 0, 0, 32, 0, 128, 129, 130, 131, 132, 133, 134, 135, 136, 137, 0, 0, 146, 152, 148, 45, 155, 53, 157, 43, 147, 160, 149,
    144, 145, 0, 0, 0, 138, 139]"

definition layout_shifted :: "u8 list" where
  "layout_shifted = [0, 1, 33, 64, 35, 36, 37, 94, 38, 42, 40, 41, 95, 43, 8, 9, 81, 87, 69, 82, 84, 89, 85, 73, 79, 80, 123, 125,
    10, 0, 65, 83, 68, 70, 71, 72, 74, 75, 76, 58, 34, 126, 0, 124, 90, 88, 67, 86, 66, 78, 77, 60, 62, 63, 0, 0, 0, 32, 0, 128,
    129, 130, 131, 132, 133, 134, 135, 136, 137, 0, 0, 146, 152, 148, 45, 155, 53, 157, 43, 147, 160, 149, 144, 145, 0, 0, 0,
    138, 139]"

definition keyboard_layout_us :: "bool \<Rightarrow> nat \<Rightarrow> u8" where
  "keyboard_layout_us shifted i =
    (let row = if shifted then layout_shifted else layout_plain in if i < length row then row ! i else 0)"

section \<open>Bit helpers\<close>

definition HIBIT :: "u32 \<Rightarrow> nat" where
  "HIBIT x = 31 - length (takeWhile (\<lambda>i. \<not> bit x i) (rev [0..<32]))"

definition BIT_SET :: "u16 \<Rightarrow> nat \<Rightarrow> bool \<Rightarrow> u16" where
  "BIT_SET v n x = ucast ((ucast v :: i32) XOR (((- (of_bool x)) XOR ucast v) AND push_bit n 1))"

definition KEY_IS_PRESS :: "u8 \<Rightarrow> bool" where "KEY_IS_PRESS s \<longleftrightarrow> s AND 0x80 = 0"
definition KEY_SCANCODE :: "u8 \<Rightarrow> u8" where "KEY_SCANCODE s = s AND 0x7F"

definition KEY_CHAR :: "i32 \<Rightarrow> u8" where
  "KEY_CHAR s = (if s AND 0x7F < 128 then keyboard_layout_us (s AND ucast KEY_MOD_SHIFT \<noteq> 0) (unat (s AND 0x7F)) else 0)"

section \<open>State\<close>

record keyboard_t =
  mods :: u16
  keys :: "u8 \<Rightarrow> bool"
  chars :: "u8 \<Rightarrow> bool"

datatype driver = keyboard_handler_fn

record kernel = "driver cpu" +
  keyboard :: keyboard_t
  extended :: bool

section \<open>Controller commands\<close>

definition keyboard_send_command :: "u8 \<Rightarrow> 'a machine_scheme \<Rightarrow> 'a machine_scheme" where
  "keyboard_send_command cmd s = outb KEYBOARD_CMD_PORT cmd s"

definition keyboard_send_data :: "u8 \<Rightarrow> 'a machine_scheme \<Rightarrow> 'a machine_scheme" where
  "keyboard_send_data data s = outb KEYBOARD_DATA_PORT data s"

definition keyboard_read_response :: "device \<Rightarrow> 'a machine_scheme \<Rightarrow> u8 \<times> 'a machine_scheme" where
  "keyboard_read_response dev s = inb dev KEYBOARD_DATA_PORT s"

partial_function (option) keyboard_read_response_safe ::
    "device \<Rightarrow> 'a machine_scheme \<Rightarrow> (u8 \<times> 'a machine_scheme) option" where
  "keyboard_read_response_safe dev s =
    (let (status, s) = inb dev 0x64 s
     in if status AND 0x01 = 0 then keyboard_read_response_safe dev s else Some (inb dev 0x60 s))"

declare keyboard_read_response_safe.simps [code]

definition response_code :: "u8 \<Rightarrow> u8" where
  "response_code response = (if response = RES_ACK then 0 else if response = RES_RESEND then 1 else 2)"

definition typematic_byte :: "u32 \<Rightarrow> u32 \<Rightarrow> u8" where
  "typematic_byte repeat_rate delay_time =
    (let b = (0 :: u8);
         b = ucast (ucast b OR push_bit 0 (repeat_rate AND 0x1F)) :: u8;
         b = ucast (ucast b OR push_bit 5 (delay_time AND 0x60)) :: u8
     in ucast (ucast b AND NOT (0x80 :: i32)))"

definition keyboard_set_typematic :: "device \<Rightarrow> u32 \<Rightarrow> u32 \<Rightarrow> 'a machine_scheme \<Rightarrow> u8 \<times> 'a machine_scheme" where
  "keyboard_set_typematic dev repeat_rate delay_time s =
    (let s = keyboard_send_command CMD_TYPEMATIC_BYTE s;
         s = keyboard_send_data (typematic_byte repeat_rate delay_time) s;
         s = iowait s;
         (response, s) = keyboard_read_response dev s
     in (response_code response, s))"

definition keyboard_set_leds :: "device \<Rightarrow> u32 \<Rightarrow> 'a machine_scheme \<Rightarrow> (u8 \<times> 'a machine_scheme) option" where
  "keyboard_set_leds dev led_state s =
    map_option (apfst response_code) (keyboard_read_response_safe dev
      (keyboard_send_data (ucast led_state) (keyboard_send_command CMD_LED_STATE s)))"

definition keyboard_enable_scanning :: "device \<Rightarrow> 'a machine_scheme \<Rightarrow> (u8 \<times> 'a machine_scheme) option" where
  "keyboard_enable_scanning dev s =
    map_option (apfst response_code) (keyboard_read_response_safe dev (keyboard_send_command CMD_ENABLE_SCANNING s))"

definition keyboard_reset :: "device \<Rightarrow> 'a machine_scheme \<Rightarrow> (u8 \<times> 'a machine_scheme) option" where
  "keyboard_reset dev s =
    (case keyboard_read_response_safe dev (keyboard_send_command CMD_RESET s) of
       None \<Rightarrow> None
     | Some (response, s) \<Rightarrow>
         if response = RES_ACK then
           (case keyboard_read_response_safe dev s of
              None \<Rightarrow> None
            | Some (response, s) \<Rightarrow>
                Some (if response = RES_SELF_TEST_PASSED then 0 else if response = RES_SELF_TEST_FAILED then 3 else 2, s))
         else Some (if response = RES_RESEND then 1 else 2, s))"

definition keyboard_identify :: "device \<Rightarrow> 'a machine_scheme \<Rightarrow> (u8 \<times> 'a machine_scheme) option" where
  "keyboard_identify dev s =
    map_option (apfst response_code) (keyboard_read_response_safe dev (keyboard_send_command CMD_IDENTIFY_KEYBOARD s))"

section \<open>The interrupt handler\<close>

definition set_mod :: "u16 \<Rightarrow> u8 \<Rightarrow> keyboard_t \<Rightarrow> keyboard_t" where
  "set_mod m scancode k = k\<lparr>mods := BIT_SET (mods k) (HIBIT (ucast m)) (KEY_IS_PRESS scancode)\<rparr>"

definition extended_key :: "u8 \<Rightarrow> keyboard_t \<Rightarrow> keyboard_t" where
  "extended_key scancode k =
    (let is_release = (scancode AND 0x80 \<noteq> 0);
         code = scancode AND 0x7F;
         set_key = (\<lambda>key. k\<lparr>keys := (keys k)(key := \<not> is_release)\<rparr>)
     in if code = 0x4B then set_key KEY_LEFT
        else if code = 0x4D then set_key KEY_RIGHT
        else if code = 0x48 then set_key KEY_UP
        else if code = 0x50 then set_key KEY_DOWN
        else if code = 0x53 then set_key KEY_DELETE
        else k)"

definition extended_mods :: "u8 \<Rightarrow> keyboard_t \<Rightarrow> keyboard_t" where
  "extended_mods scancode k =
    (let c = KEY_SCANCODE scancode in
     if c = KEY_LALT \<or> c = KEY_RALT then set_mod KEY_MOD_ALT scancode k
     else if c = KEY_LCTRL \<or> c = KEY_RCTRL then set_mod KEY_MOD_CTRL scancode k
     else if c = KEY_LSHIFT \<or> c = KEY_RSHIFT then set_mod KEY_MOD_SHIFT scancode k
     else if c = KEY_CAPS_LOCK then set_mod KEY_MOD_CAPS_LOCK scancode k
     else if c = KEY_NUM_LOCK then set_mod KEY_MOD_NUM_LOCK scancode k
     else if c = KEY_SCROLL_LOCK then set_mod KEY_MOD_SCROLL_LOCK scancode k
     else k)"

definition plain_mods :: "u8 \<Rightarrow> keyboard_t \<Rightarrow> keyboard_t" where
  "plain_mods scancode k =
    (let c = KEY_SCANCODE scancode in
     if c = KEY_LALT \<or> c = KEY_RALT then set_mod KEY_MOD_ALT scancode k
     else if c = KEY_LCTRL \<or> c = KEY_RCTRL then set_mod KEY_MOD_CTRL scancode k
     else if c = KEY_LSHIFT \<or> c = KEY_RSHIFT then set_mod KEY_MOD_SHIFT scancode k
     else if scancode = MAGIC_CAPSLOCK_TOGGLE then k\<lparr>mods := mods k XOR KEY_MOD_CAPS_LOCK\<rparr>
     else if c = KEY_NUM_LOCK then set_mod KEY_MOD_NUM_LOCK scancode k
     else if c = KEY_SCROLL_LOCK then set_mod KEY_MOD_SCROLL_LOCK scancode k
     else k)"

definition key_character :: "u8 \<Rightarrow> u16 \<Rightarrow> u8" where
  "key_character scancode m =
    (let c = KEY_CHAR (ucast scancode OR ucast m) in
     if m AND KEY_MOD_CAPS_LOCK \<noteq> 0 \<and> 97 \<le> c \<and> c \<le> 122
     then c + (if m AND KEY_MOD_SHIFT \<noteq> 0 then 32 else - 32) else c)"

definition plain_key :: "u8 \<Rightarrow> keyboard_t \<Rightarrow> keyboard_t" where
  "plain_key scancode k =
    (let k = plain_mods scancode k;
         k = k\<lparr>keys := (keys k)(scancode AND 0x7F := KEY_IS_PRESS scancode)\<rparr>
     in k\<lparr>chars := (chars k)(key_character scancode (mods k) := KEY_IS_PRESS scancode)\<rparr>)"

definition keyboard_handler :: "device \<Rightarrow> Registers_t \<Rightarrow> kernel \<Rightarrow> kernel outcome option" where
  "keyboard_handler dev regs s =
    (case keyboard_read_response_safe dev (iowait s) of
       None \<Rightarrow> None
     | Some (scancode, s) \<Rightarrow>
         if scancode = 0xE0 then Some (Done (s\<lparr>extended := True\<rparr>))
         else if extended s then
           Some (Done (s\<lparr>keyboard := extended_mods scancode (extended_key scancode (keyboard s)), extended := False\<rparr>))
         else Some (Done (LAPIC_SendEOI (s\<lparr>keyboard := plain_key scancode (keyboard s)\<rparr>))))"

text \<open>A call through an entry of the request tables.\<close>

fun run_driver :: "device \<Rightarrow> driver \<Rightarrow> Registers_t \<Rightarrow> kernel \<Rightarrow> kernel outcome option" where
  "run_driver dev keyboard_handler_fn regs s = keyboard_handler dev regs s"

section \<open>Routing the keyboard line\<close>

definition IOAPIC_IRQ1_ENTRY :: u32 where "IOAPIC_IRQ1_ENTRY = 0x12"
definition IOAPIC_IRQ1_VECTOR :: u32 where "IOAPIC_IRQ1_VECTOR = 0x21"

definition IOAPIC_ConfigureKeyboard :: "device \<Rightarrow> 'a machine_scheme \<Rightarrow> 'a machine_scheme" where
  "IOAPIC_ConfigureKeyboard dev s =
    (let (entry_low, s) = APIC_ReadIO dev IOAPIC_IRQ1_ENTRY s;
         (entry_high, s) = APIC_ReadIO dev (IOAPIC_IRQ1_ENTRY + 1) s;
         entry_low = entry_low AND NOT 0x000000FF;
         entry_low = IOAPIC_IRQ1_VECTOR;
         entry_low = entry_low AND NOT 0x00000700;
         entry_low = entry_low OR APIC_DELIVERY_MODE_FIXED;
         entry_low = entry_low AND NOT (push_bit 15 1);
         entry_low = entry_low AND NOT (push_bit 13 1);
         entry_low = entry_low AND NOT (push_bit 16 1);
         entry_high = entry_high AND NOT 0xFF000000;
         entry_high = entry_high OR push_bit 24 0
     in APIC_WriteIO (IOAPIC_IRQ1_ENTRY + 1) entry_high (APIC_WriteIO IOAPIC_IRQ1_ENTRY entry_low s))"

definition IOAPIC_MaskIRQ1 :: "device \<Rightarrow> 'a machine_scheme \<Rightarrow> 'a machine_scheme" where
  "IOAPIC_MaskIRQ1 dev s =
    (let (entry_low, s) = APIC_ReadIO dev IOAPIC_IRQ1_ENTRY s;
         (entry_high, s) = APIC_ReadIO dev (IOAPIC_IRQ1_ENTRY + 1) s
     in APIC_WriteIO (IOAPIC_IRQ1_ENTRY + 1) entry_high (APIC_WriteIO IOAPIC_IRQ1_ENTRY (entry_low OR 0x00010000) s))"

definition keyboard_pic_init :: "device \<Rightarrow> kernel \<Rightarrow> kernel" where
  "keyboard_pic_init dev s = PIC_Unmask dev 1 (PIC_IRQ_RegisterHandler 1 keyboard_handler_fn s)"

definition keyboard_apic_init :: "device \<Rightarrow> kernel \<Rightarrow> kernel" where
  "keyboard_apic_init dev s = IOAPIC_ConfigureKeyboard dev (APIC_IRQ_RegisterHandler 1 keyboard_handler_fn s)"

section \<open>Polling for a character\<close>

text \<open>
  \<open>env t k\<close> is entry \<open>k\<close> of \<open>keyboard.chars\<close> as the \<open>t\<close>-th read finds it. The state of \<open>getc\<close> between
  calls is the number of reads so far and the static table of keys already reported.
\<close>

type_synonym chars_env = "nat \<Rightarrow> u8 \<Rightarrow> bool"
type_synonym getc_state = "nat \<times> (u8 \<Rightarrow> bool)"

definition is_input :: "u8 \<Rightarrow> bool" where
  "is_input key \<longleftrightarrow> (32 \<le> key \<and> key \<le> 126) \<or> key = 10 \<or> key = 8 \<or> key = 9"

definition getc_key :: "chars_env \<Rightarrow> u8 \<Rightarrow> getc_state \<Rightarrow> u8 option \<times> getc_state" where
  "getc_key env key st =
    (let (t, was) = st in
     if env t key \<and> \<not> was key then (if is_input key then Some key else None, (Suc t, was(key := True)))
     else if \<not> env (Suc t) key \<and> was key then (None, (Suc (Suc t), was(key := False)))
     else (None, (Suc (Suc t), was)))"

fun getc_scan :: "chars_env \<Rightarrow> u8 list \<Rightarrow> getc_state \<Rightarrow> u8 option \<times> getc_state" where
  "getc_scan env [] st = (None, st)"
| "getc_scan env (key # ks) st =
    (case getc_key env key st of (Some c, st) \<Rightarrow> (Some c, st) | (None, st) \<Rightarrow> getc_scan env ks st)"

definition all_keys :: "u8 list" where
  "all_keys = map of_nat [0..<128]"

partial_function (option) getc :: "chars_env \<Rightarrow> getc_state \<Rightarrow> (u8 \<times> getc_state) option" where
  "getc env st =
    (case getc_scan env all_keys st of (Some c, st) \<Rightarrow> Some (c, st) | (None, st) \<Rightarrow> getc env st)"

declare getc.simps [code]

section \<open>Modifier bits\<close>

lemma and_bit_iff: "x AND 2 ^ n \<noteq> 0 \<longleftrightarrow> bit x n" for x :: "'a::len word"
  by (simp add: and_exp_eq_0_iff_not_bit)

lemma mod_tests:
  "m AND KEY_MOD_SHIFT \<noteq> 0 \<longleftrightarrow> bit m 11" "m AND KEY_MOD_CAPS_LOCK \<noteq> 0 \<longleftrightarrow> bit m 12"
  using and_bit_iff [of m 11] and_bit_iff [of m 12] by (simp_all add: KEY_MOD_SHIFT_def KEY_MOD_CAPS_LOCK_def)

lemma KEY_IS_PRESS_iff: "KEY_IS_PRESS s \<longleftrightarrow> \<not> bit s 7"
  using and_bit_iff [of s 7] by (auto simp: KEY_IS_PRESS_def)

lemma HIBIT_mods:
  "HIBIT (ucast KEY_MOD_ALT) = 9" "HIBIT (ucast KEY_MOD_CTRL) = 10" "HIBIT (ucast KEY_MOD_SHIFT) = 11"
  "HIBIT (ucast KEY_MOD_CAPS_LOCK) = 12" "HIBIT (ucast KEY_MOD_NUM_LOCK) = 13" "HIBIT (ucast KEY_MOD_SCROLL_LOCK) = 14"
  by code_simp+

lemma bit_BIT_SET:
  assumes "n < 16"
  shows "bit (BIT_SET v n x) i \<longleftrightarrow> (if i = n then x else bit v i)"
proof (cases "i < 16")
  case True
  then show ?thesis using assms by (cases x) (auto simp: BIT_SET_def bit_simps)
next
  case False
  then show ?thesis using assms bit_imp_le_length [of _ i] by auto fastforce+
qed

lemma KEY_CHAR_mods:
  fixes m :: u16 and sc :: u8
  assumes "m AND 0x7F = 0"
  shows "KEY_CHAR (ucast sc OR ucast m) = keyboard_layout_us (bit m 11) (unat (sc AND 0x7F))"
proof -
  have e: "(0x7F :: i32) = mask 7" "(0x7F :: u8) = mask 7" "(0x7F :: u16) = mask 7" by (simp_all add: mask_eq_exp_minus_1)
  have low: "\<not> bit m i" if "i < 7" for i
    using that arg_cong [OF assms, of "\<lambda>w. bit w i"] unfolding e by (simp add: bit_simps)
  have k: "(ucast sc OR ucast m :: i32) AND 0x7F = ucast (sc AND 0x7F)"
    unfolding e using low by (intro bit_word_eqI) (auto simp: bit_simps)
  have s: "((ucast sc OR ucast m :: i32) AND ucast KEY_MOD_SHIFT \<noteq> 0) = bit m 11"
    using and_bit_iff [of "ucast sc OR ucast m :: i32" 11] bit_imp_le_length [of sc 11]
    by (auto simp: KEY_MOD_SHIFT_def bit_simps)
  have b: "unat (sc AND 0x7F) < 128"
  proof -
    have "sc AND 0x7F \<le> 0x7F" by (rule word_and_le1)
    then show ?thesis by (simp add: word_le_nat_alt)
  qed
  then have u: "unat (ucast (sc AND 0x7F) :: i32) = unat (sc AND 0x7F)" by (simp add: unsigned_ucast_eq take_bit_nat_eq_self)
  with b have "(ucast (sc AND 0x7F) :: i32) < 128" by (simp add: word_less_nat_alt)
  then show ?thesis unfolding KEY_CHAR_def k s u by simp
qed

section \<open>What a scan code does\<close>

definition letter :: "u8 \<Rightarrow> bool" where "letter c \<longleftrightarrow> 97 \<le> c \<and> c \<le> 122"

text \<open>The character of a key under the shift and caps-lock flags.\<close>

definition typed :: "bool \<Rightarrow> bool \<Rightarrow> u8 \<Rightarrow> u8" where
  "typed shift caps code =
    (let c = keyboard_layout_us shift (unat code) in if caps \<and> letter c then c - 32 else c)"

lemma shifted_no_letter: "\<not> letter (keyboard_layout_us True i)"
proof (cases "i < 89")
  case True
  have "\<forall>i \<in> set [0..<89]. \<not> letter (keyboard_layout_us True i)" by code_simp
  with True show ?thesis by simp
next
  case False
  then show ?thesis by (simp add: keyboard_layout_us_def letter_def layout_shifted_def)
qed

lemma key_character_typed:
  assumes "m AND 0x7F = 0"
  shows "key_character sc m = typed (bit m 11) (bit m 12) (sc AND 0x7F)"
  using shifted_no_letter [of "unat (sc AND 0x7F)"]
  by (auto simp: key_character_def typed_def KEY_CHAR_mods [OF assms] mod_tests letter_def Let_def)

definition modifier_code :: "u8 \<Rightarrow> bool" where
  "modifier_code c \<longleftrightarrow> c \<in> {0x1D, 0x38, 0x2A, 0x36, 0x3A, 0x45, 0x46}"

lemmas code_defs = KEY_LCTRL_def KEY_RCTRL_def KEY_LALT_def KEY_RALT_def KEY_LSHIFT_def KEY_RSHIFT_def KEY_CAPS_LOCK_def
  KEY_SCROLL_LOCK_def KEY_NUM_LOCK_def MAGIC_CAPSLOCK_TOGGLE_def KEY_SCANCODE_def

lemma press_release_codes:
  fixes c :: u8
  assumes "c < 0x80"
  shows "c AND 0x7F = c" "(c OR 0x80) AND 0x7F = c" "KEY_IS_PRESS c" "\<not> KEY_IS_PRESS (c OR 0x80)"
proof -
  have e: "(0x7F :: u8) = mask 7" "(0x80 :: u8) = 2 ^ 7" by (simp_all add: mask_eq_exp_minus_1)
  have u: "unat c < 2 ^ 7" using assms by (simp add: word_less_nat_alt)
  have c7: "bit c i \<longrightarrow> i < 7" for i
  proof (rule impI, rule ccontr)
    assume "bit c i" "\<not> i < 7"
    then have "(2 :: nat) ^ 7 \<le> 2 ^ i" by (intro power_increasing) simp_all
    with u have "unat c < 2 ^ i" by (rule less_le_trans)
    with \<open>bit c i\<close> show False by (simp add: bit_iff_odd_unat)
  qed
  have b: "bit (0x80 :: u8) i \<longleftrightarrow> i = 7" for i unfolding e(2) bit_exp_iff by auto
  show "c AND 0x7F = c" unfolding e(1) using c7 by (auto intro!: bit_word_eqI simp: bit_and_iff bit_mask_iff)
  show "(c OR 0x80) AND 0x7F = c"
  proof (rule bit_word_eqI)
    fix n
    show "bit ((c OR 0x80) AND 0x7F) n \<longleftrightarrow> bit c n"
      using c7 [of n] b [of n] unfolding e(1) bit_and_iff bit_or_iff bit_mask_iff by auto
  qed
  show "KEY_IS_PRESS c" "\<not> KEY_IS_PRESS (c OR 0x80)"
    unfolding KEY_IS_PRESS_iff bit_or_iff using c7 [of 7] b [of 7] by auto
qed

lemma plain_mods_ordinary:
  assumes "c < 0x80" and "\<not> modifier_code c"
  shows "plain_mods c k = k" "plain_mods (c OR 0x80) k = k"
  using assms press_release_codes [OF assms(1)] by (auto simp: plain_mods_def code_defs modifier_code_def Let_def)

lemma plain_key_ordinary:
  assumes "c < 0x80" and "\<not> modifier_code c" and "mods k AND 0x7F = 0"
  shows "plain_key c k = k\<lparr>keys := (keys k)(c := True), chars := (chars k)(typed (bit (mods k) 11) (bit (mods k) 12) c := True)\<rparr>"
    and "plain_key (c OR 0x80) k =
      k\<lparr>keys := (keys k)(c := False), chars := (chars k)(typed (bit (mods k) 11) (bit (mods k) 12) c := False)\<rparr>"
  using assms press_release_codes [OF assms(1)]
  by (simp_all add: plain_key_def Let_def plain_mods_ordinary key_character_typed)

lemma typed_shift_key: "typed s c 0x2A = 0" "typed s c 0x36 = 0"
  by (simp_all add: typed_def keyboard_layout_us_def layout_plain_def layout_shifted_def letter_def)

lemma BIT_SET_shift:
  assumes "m AND 0x7F = 0"
  shows "BIT_SET m 11 x AND 0x7F = 0" "bit (BIT_SET m 11 x) 12 = bit m 12" "bit (BIT_SET m 11 x) 11 = x"
proof -
  have e: "(0x7F :: u16) = mask 7" by (simp add: mask_eq_exp_minus_1)
  have "BIT_SET m 11 x AND 0x7F = m AND 0x7F"
    unfolding e by (rule bit_word_eqI) (auto simp: bit_and_iff bit_BIT_SET bit_mask_iff)
  with assms show "BIT_SET m 11 x AND 0x7F = 0" by simp
qed (simp_all add: bit_BIT_SET)

lemma plain_key_shift:
  assumes "mods k AND 0x7F = 0"
  shows "plain_key 0x2A k = k\<lparr>mods := BIT_SET (mods k) 11 True, keys := (keys k)(0x2A := True), chars := (chars k)(0 := True)\<rparr>"
    and "plain_key 0xAA k = k\<lparr>mods := BIT_SET (mods k) 11 False, keys := (keys k)(0x2A := False), chars := (chars k)(0 := False)\<rparr>"
  by (simp_all add: plain_key_def plain_mods_def code_defs set_mod_def HIBIT_mods KEY_IS_PRESS_def Let_def
      key_character_typed BIT_SET_shift [OF assms] typed_shift_key)

section \<open>Waiting for the controller\<close>

lemma read_safe_trace:
  "keyboard_read_response_safe dev s = Some r \<Longrightarrow>
     \<exists>es. snd r = s\<lparr>trace := es @ trace s\<rparr> \<and> (\<forall>e \<in> set es. \<exists>p w. e = In8 p w)"
proof (erule keyboard_read_response_safe.raw_induct
    [where P = "\<lambda>dev s r. \<exists>es. snd r = s\<lparr>trace := es @ trace s\<rparr> \<and> (\<forall>e \<in> set es. \<exists>p w. e = In8 p w)", rotated])
  fix f :: "device \<Rightarrow> 'a machine_scheme \<Rightarrow> (u8 \<times> 'a machine_scheme) option" and dev s r
  assume IH: "\<And>dev s r. f dev s = Some r \<Longrightarrow>
      \<exists>es. snd r = s\<lparr>trace := es @ trace s\<rparr> \<and> (\<forall>e \<in> set es. \<exists>p w. e = In8 p w)"
    and body: "(let (status, s) = inb dev 0x64 s in if status AND 0x01 = 0 then f dev s else Some (inb dev 0x60 s)) = Some r"
  define v where "v = port8 dev (trace s) 0x64"
  define t where "t = emit (In8 0x64 v) s"
  have t: "inb dev 0x64 s = (v, t)" by (simp add: inb_def Let_def v_def t_def)
  show "\<exists>es. snd r = s\<lparr>trace := es @ trace s\<rparr> \<and> (\<forall>e \<in> set es. \<exists>p w. e = In8 p w)"
  proof (cases "v AND 1 = 0")
    case True
    with body t have "f dev t = Some r" by (simp add: Let_def)
    from IH [OF this] obtain es where es: "snd r = t\<lparr>trace := es @ trace t\<rparr>" "\<forall>e \<in> set es. \<exists>p w. e = In8 p w" by blast
    then have "snd r = s\<lparr>trace := (es @ [In8 0x64 v]) @ trace s\<rparr>" by (simp add: t_def emit_def)
    with es(2) show ?thesis by (intro exI [of _ "es @ [In8 0x64 v]"]) auto
  next
    case False
    with body t have "snd r = s\<lparr>trace := [In8 0x60 (fst r), In8 0x64 v] @ trace s\<rparr>"
      by (auto simp: Let_def inb_def t_def emit_def)
    then show ?thesis by (intro exI [of _ "[In8 0x60 (fst r), In8 0x64 v]"]) auto
  qed
qed

lemma read_safe_frame:
  assumes "keyboard_read_response_safe dev s = Some (v, s')"
  obtains es where "s' = s\<lparr>trace := es @ trace s\<rparr>" and "\<forall>e \<in> set es. \<exists>p w. e = In8 p w"
  using read_safe_trace [OF assms] by auto

lemma read_safe_ready:
  assumes "port8 dev (trace s) 0x64 AND 1 \<noteq> 0"
  shows "\<exists>v. keyboard_read_response_safe dev s = Some (v, s\<lparr>trace := In8 0x60 v # In8 0x64 (port8 dev (trace s) 0x64) # trace s\<rparr>)"
  using assms by (subst keyboard_read_response_safe.simps) (simp add: inb_def Let_def emit_def)

section \<open>The handler as a driver\<close>

definition eoi_count :: "'a machine_scheme \<Rightarrow> nat" where
  "eoi_count s = length (filter (\<lambda>e. e = Store32 0xFEE000B0 0) (trace s))"

lemma eoi_count_reads [simp]:
  assumes "\<forall>e \<in> set es. \<exists>p w. e = In8 p w"
  shows "eoi_count (s\<lparr>trace := es @ tr\<rparr>) = eoi_count (s\<lparr>trace := tr\<rparr>)"
proof -
  have "filter (\<lambda>e. e = Store32 0xFEE000B0 0) es = []" using assms by (auto simp: filter_empty_conv)
  then show ?thesis by (simp add: eoi_count_def)
qed

lemma keyboard_handler_outcome:
  assumes "keyboard_handler dev regs s = Some r"
  obtains s' where "r = Done s'" and "same_tables s s'"
    and "eoi_count s' = eoi_count s + (if extended s \<or> extended s' then 0 else 1)"
proof -
  from assms obtain sc t where rd: "keyboard_read_response_safe dev (iowait s) = Some (sc, t)"
    by (auto simp: keyboard_handler_def split: option.splits)
  from read_safe_frame [OF rd] obtain es where
    es: "t = (iowait s)\<lparr>trace := es @ trace (iowait s)\<rparr>" "\<forall>e \<in> set es. \<exists>p w. e = In8 p w" .
  have n: "eoi_count t = eoi_count s" unfolding es(1) using es(2)
    by simp (simp add: eoi_count_def iowait_def outb_def)
  have tab: "g_IDT t = g_IDT s" "g_ISRHandlers t = g_ISRHandlers s" "g_PICIRQHandler_ts t = g_PICIRQHandler_ts s"
    "g_APICIRQHandler_ts t = g_APICIRQHandler_ts s" "extended t = extended s"
    by (simp_all add: es(1) iowait_def outb_def emit_def)
  define s' where "s' = (if sc = 0xE0 then t\<lparr>extended := True\<rparr>
    else if extended t then t\<lparr>keyboard := extended_mods sc (extended_key sc (keyboard t)), extended := False\<rparr>
    else LAPIC_SendEOI (t\<lparr>keyboard := plain_key sc (keyboard t)\<rparr>))"
  have "r = Done s'" using assms rd by (auto simp: keyboard_handler_def s'_def)
  moreover have "same_tables s s'" by (simp add: same_tables_def s'_def tables_io tab)
  moreover have "eoi_count s' = eoi_count s + (if extended s \<or> extended s' then 0 else 1)"
    using n tab(5) by (simp add: s'_def eoi_count_def tables_io emit_def)
  ultimately show ?thesis by (rule that)
qed

interpretation kb: irq_driver "run_driver dev" for dev
proof
  show "same_tables s s'" if "run_driver dev h regs s = Some (Done s')" for h regs s s'
    using that by (cases h) (auto elim: keyboard_handler_outcome)
  show "run_driver dev h regs s \<noteq> Some (Halted s')" for h regs s s'
    by (cases h) (auto elim: keyboard_handler_outcome)
qed

section \<open>From boot to the handler\<close>

definition boot_keyboard :: "device \<Rightarrow> (nat \<Rightarrow> u64) \<Rightarrow> kernel \<Rightarrow> kernel" where
  "boot_keyboard dev isr s = keyboard_apic_init dev (boot_interrupts dev isr s)"

lemma IOAPIC_ConfigureKeyboard_tables:
  "same_tables s (IOAPIC_ConfigureKeyboard dev t) \<longleftrightarrow> same_tables s t"
  by (simp add: IOAPIC_ConfigureKeyboard_def APIC_ReadIO_def APIC_WriteIO_def load32_def Let_def split_beta)

lemma boot_keyboard_tables:
  assumes "g_ISRHandlers s = (\<lambda>_. None)"
  shows "g_ISRHandlers (boot_keyboard dev isr s) 0x21 = Some APIC_IRQ_Handler_fn"
    and "g_APICIRQHandler_ts (boot_keyboard dev isr s) 1 = Some keyboard_handler_fn"
proof -
  let ?t = "APIC_IRQ_RegisterHandler 1 keyboard_handler_fn (boot_interrupts dev isr s)"
  have "same_tables ?t (boot_keyboard dev isr s)"
    by (simp add: boot_keyboard_def keyboard_apic_init_def IOAPIC_ConfigureKeyboard_tables)
  moreover have "g_ISRHandlers ?t 0x21 = Some APIC_IRQ_Handler_fn"
    by (simp add: APIC_IRQ_RegisterHandler_def MAX_IRQS_def boot_handlers [OF assms])
  moreover have "g_APICIRQHandler_ts ?t 1 = Some keyboard_handler_fn"
    by (simp add: APIC_IRQ_RegisterHandler_def MAX_IRQS_def)
  ultimately show "g_ISRHandlers (boot_keyboard dev isr s) 0x21 = Some APIC_IRQ_Handler_fn"
    "g_APICIRQHandler_ts (boot_keyboard dev isr s) 1 = Some keyboard_handler_fn"
    by (simp_all add: same_tables_def)
qed

lemma keyboard_dispatch:
  assumes "g_ISRHandlers t 0x21 = Some APIC_IRQ_Handler_fn" and "g_APICIRQHandler_ts t 1 = Some keyboard_handler_fn"
    and "interrupt regs = 0x21"
  shows "ISR_Handler dev (run_driver dev) regs t =
    and_then (keyboard_handler dev regs (snd (APIC_Read dev APIC_IRR (snd (APIC_Read dev APIC_ISR t)))))
      (\<lambda>s. Some (Done (LAPIC_SendEOI s)))"
proof -
  have "irq_of (of_nat APIC_REMAP_OFFSET) regs = 1"
    using irq_of_vector [of "0x20" regs] assms(3) by (simp add: APIC_REMAP_OFFSET_def)
  then show ?thesis using assms
    by (simp add: ISR_Handler_def APIC_IRQ_Handler_def Let_def split_beta MAX_IRQS_def tables_io)
qed

lemma keyboard_handler_returns:
  assumes "\<And>tr. port8 dev tr 0x64 AND 1 \<noteq> 0"
  shows "\<exists>r. keyboard_handler dev regs s = Some r"
  using read_safe_ready [of dev "iowait s"] assms by (auto simp: keyboard_handler_def)


text \<open>A controller that always has the same code to give, and the kernel's zero-initialised data.\<close>

definition repeating :: "u8 \<Rightarrow> device" where
  "repeating code = \<lparr>port8 = (\<lambda>tr p. if p = 0x64 then 1 else code), port16 = \<lambda>_ _. 0, port32 = \<lambda>_ _. 0,
    mmio32 = \<lambda>_ _. 0, msr = \<lambda>_ _. 0, cr4 = \<lambda>_. 0\<rparr>"

definition no_keys :: keyboard_t where
  "no_keys = \<lparr>mods = 0, keys = \<lambda>_. False, chars = \<lambda>_. False\<rparr>"

definition zero_kernel :: kernel where
  "zero_kernel = \<lparr>trace = [], g_IDT = g_IDT zero_cpu, g_ISRHandlers = (\<lambda>_. None), g_PICIRQHandler_ts = (\<lambda>_. None),
    g_APICIRQHandler_ts = (\<lambda>_. None), reports = [], keyboard = no_keys, extended = False\<rparr>"


text \<open>
  C40. A key that is no modifier sets, on press, exactly its own entry of \<open>keys\<close> and exactly one entry
  of \<open>chars\<close>, the character the layout gives it under the current shift and caps-lock flags; its
  release clears the same two entries. The modifiers stay as they are.
\<close>
theorem ordinary_key_effect:
  assumes "c < 0x80" and "\<not> modifier_code c" and "mods k AND 0x7F = 0"
  shows "plain_key c k = k\<lparr>keys := (keys k)(c := True), chars := (chars k)(typed (bit (mods k) 11) (bit (mods k) 12) c := True)\<rparr> \<and>
    plain_key (c OR 0x80) (plain_key c k) =
      k\<lparr>keys := (keys k)(c := False), chars := (chars k)(typed (bit (mods k) 11) (bit (mods k) 12) c := False)\<rparr>"
proof (intro conjI)
  show p: "plain_key c k = k\<lparr>keys := (keys k)(c := True), chars := (chars k)(typed (bit (mods k) 11) (bit (mods k) 12) c := True)\<rparr>"
    by (rule plain_key_ordinary(1) [OF assms])
  show "plain_key (c OR 0x80) (plain_key c k) =
      k\<lparr>keys := (keys k)(c := False), chars := (chars k)(typed (bit (mods k) 11) (bit (mods k) 12) c := False)\<rparr>"
    unfolding p using plain_key_ordinary(2) [OF assms(1,2)] assms(3) by simp
qed

theorem ordinary_key_effect_witness:
  "chars (plain_key 0x1E no_keys) = (\<lambda>_. False)(97 := True) \<and> chars (plain_key (0x1E OR 0x80) (plain_key 0x1E no_keys)) 97 = False"
proof -
  have m: "\<not> modifier_code 0x1E" by (simp add: modifier_code_def)
  have t: "typed False False 0x1E = 97" by (simp add: typed_def keyboard_layout_us_def layout_plain_def Let_def)
  have z: "mods no_keys AND 0x7F = 0" by (simp add: no_keys_def)
  have "bit (mods no_keys) 11 = False" "bit (mods no_keys) 12 = False" by (simp_all add: no_keys_def)
  with ordinary_key_effect [of "0x1E" no_keys, OF _ m z] t
  have "chars (plain_key 0x1E no_keys) = (chars no_keys)(97 := True)"
    "chars (plain_key (0x1E OR 0x80) (plain_key 0x1E no_keys)) = (chars no_keys)(97 := False)" by auto
  then show ?thesis by (simp only: no_keys_def keyboard_t.simps fun_upd_same)
qed

text \<open>
  Releasing shift before the key leaves the character stuck: for every key whose shifted and
  unshifted characters differ, the sequence shift down, key down, shift up, key up clears the
  unshifted character and leaves the shifted one marked as held.
\<close>
theorem shifted_character_sticks:
  assumes "c < 0x80" and "\<not> modifier_code c" and "mods k AND 0x7F = 0" and "\<not> bit (mods k) 12"
    and "keyboard_layout_us True (unat c) \<notin> {0, keyboard_layout_us False (unat c)}"
  shows "chars (fold plain_key [0x2A, c, 0xAA, c OR 0x80] k) (keyboard_layout_us True (unat c)) \<and>
    \<not> chars (fold plain_key [0x2A, c, 0xAA, c OR 0x80] k) (keyboard_layout_us False (unat c))"
proof -
  define m where "m = BIT_SET (mods k) 11 True"
  note b = BIT_SET_shift [OF assms(3)]
  have m: "m AND 0x7F = 0" "bit m 11" "\<not> bit m 12" using b [of True] assms(4) by (simp_all add: m_def)
  define m' where "m' = BIT_SET m 11 False"
  have m': "m' AND 0x7F = 0" "\<not> bit m' 11" "\<not> bit m' 12" using BIT_SET_shift [OF m(1), of False] m(3) by (simp_all add: m'_def)
  have t: "typed True False c = keyboard_layout_us True (unat c)" "typed False False c = keyboard_layout_us False (unat c)"
    by (simp_all add: typed_def Let_def)
  have s1: "plain_key 0x2A k = k\<lparr>mods := m, keys := (keys k)(0x2A := True), chars := (chars k)(0 := True)\<rparr>"
    using plain_key_shift(1) [OF assms(3)] by (simp add: m_def)
  define k2 where "k2 = plain_key c (plain_key 0x2A k)"
  have k2: "mods k2 = m" "chars k2 = (chars k)(0 := True, keyboard_layout_us True (unat c) := True)"
    using plain_key_ordinary(1) [OF assms(1,2), of "plain_key 0x2A k"] m by (simp_all add: k2_def s1 t)
  define k3 where "k3 = plain_key 0xAA k2"
  have k3: "mods k3 = m'" "chars k3 = (chars k2)(0 := False)"
    using plain_key_shift(2) [of k2] m(1) by (simp_all add: k3_def k2(1) m'_def)
  have "chars (plain_key (c OR 0x80) k3) = (chars k3)(keyboard_layout_us False (unat c) := False)"
    using plain_key_ordinary(2) [OF assms(1,2), of k3] m' by (simp add: k3(1) t)
  then have f: "chars (fold plain_key [0x2A, c, 0xAA, c OR 0x80] k) = (chars k3)(keyboard_layout_us False (unat c) := False)"
    by (simp add: k3_def k2_def)
  then show ?thesis using assms(5) unfolding f k3(2) k2(2) by auto
qed

theorem shifted_character_sticks_witness:
  "chars (fold plain_key [0x2A, 0x1E, 0xAA, 0x1E OR 0x80] no_keys) 65"
proof -
  have m: "\<not> modifier_code 0x1E" by (simp add: modifier_code_def)
  have z: "mods no_keys AND 0x7F = 0" "\<not> bit (mods no_keys) 12" by (simp_all add: no_keys_def)
  have l: "keyboard_layout_us True (unat (0x1E :: u8)) = 65" "keyboard_layout_us False (unat (0x1E :: u8)) = 97"
    by (simp_all add: keyboard_layout_us_def layout_plain_def layout_shifted_def)
  show ?thesis using shifted_character_sticks [of "0x1E" no_keys, OF _ m z] l by simp
qed

section \<open>Edges\<close>

definition new_key :: "(u8 \<Rightarrow> bool) \<Rightarrow> (u8 \<Rightarrow> bool) \<Rightarrow> u8 \<Rightarrow> bool" where
  "new_key tab was k \<longleftrightarrow> tab k \<and> \<not> was k \<and> is_input k"

lemma getc_key_stable:
  "getc_key (\<lambda>_. tab) k (t, was) = (if new_key tab was k then Some k else None, (if tab k \<and> \<not> was k then Suc t else Suc (Suc t), was(k := tab k)))"
  by (auto simp: getc_key_def new_key_def fun_upd_idem)

lemma getc_scan_none:
  assumes "distinct ks" and "\<forall>k \<in> set ks. \<not> new_key tab was k"
  shows "\<exists>t'. getc_scan (\<lambda>_. tab) ks (t, was) = (None, (t', \<lambda>k. if k \<in> set ks then tab k else was k))"
  using assms
proof (induction ks arbitrary: t was)
  case Nil
  then show ?case by simp
next
  case (Cons k ks)
  have "\<forall>j \<in> set ks. \<not> new_key tab (was(k := tab k)) j" using Cons.prems by (auto simp: new_key_def)
  moreover have "distinct ks" using Cons.prems(1) by simp
  ultimately obtain t' where
    "getc_scan (\<lambda>_. tab) ks (if tab k \<and> \<not> was k then Suc t else Suc (Suc t), was(k := tab k)) =
      (None, (t', \<lambda>j. if j \<in> set ks then tab j else (was(k := tab k)) j))" using Cons.IH by blast
  moreover have "(\<lambda>j. if j \<in> set ks then tab j else (was(k := tab k)) j) = (\<lambda>j. if j \<in> set (k # ks) then tab j else was j)"
    using Cons.prems(1) by (auto simp: fun_eq_iff)
  ultimately show ?case using Cons.prems(2) by (simp add: getc_key_stable)
qed

lemma getc_scan_some:
  assumes "distinct (ks @ k # ks')" and "\<forall>j \<in> set ks. \<not> new_key tab was j" and "new_key tab was k"
  shows "\<exists>t'. getc_scan (\<lambda>_. tab) (ks @ k # ks') (t, was) = (Some k, (t', \<lambda>j. if j \<in> insert k (set ks) then tab j else was j))"
  using assms
proof (induction ks arbitrary: t was)
  case Nil
  then show ?case by (auto simp: getc_key_stable new_key_def fun_eq_iff)
next
  case (Cons i ks)
  have "\<forall>j \<in> set ks. \<not> new_key tab (was(i := tab i)) j" "new_key tab (was(i := tab i)) k" using Cons.prems by (auto simp: new_key_def)
  moreover have "distinct (ks @ k # ks')" using Cons.prems(1) by simp
  ultimately obtain t' where
    "getc_scan (\<lambda>_. tab) (ks @ k # ks') (if tab i \<and> \<not> was i then Suc t else Suc (Suc t), was(i := tab i)) =
      (Some k, (t', \<lambda>j. if j \<in> insert k (set ks) then tab j else (was(i := tab i)) j))" using Cons.IH by blast
  moreover have "(\<lambda>j. if j \<in> insert k (set ks) then tab j else (was(i := tab i)) j) =
      (\<lambda>j. if j \<in> insert k (set (i # ks)) then tab j else was j)"
    using Cons.prems(1) by (auto simp: fun_eq_iff)
  ultimately show ?case using Cons.prems(2) by (simp add: getc_key_stable)
qed

lemma of_nat_u8_less: "i < 256 \<Longrightarrow> unat (of_nat i :: u8) = i"
  by (simp add: unat_of_nat)

lemma all_keys_props: "distinct all_keys" "set all_keys = {k. k < 128}"
proof -
  show "distinct all_keys"
  proof (simp add: all_keys_def distinct_map, rule inj_onI)
    fix i j :: nat assume "i \<in> {0..<128}" "j \<in> {0..<128}" "(of_nat i :: u8) = of_nat j"
    then have "unat (of_nat i :: u8) = unat (of_nat j :: u8)" "i < 256" "j < 256" by simp_all
    then show "i = j" by (simp only: of_nat_u8_less)
  qed
  show "set all_keys = {k. k < 128}"
  proof (auto simp: all_keys_def)
    fix i :: nat assume "i < 128"
    then show "(of_nat i :: u8) < 128" by (simp add: word_less_nat_alt of_nat_u8_less)
  next
    fix k :: u8 assume "k < 128"
    then have "unat k < 128" by (simp add: word_less_nat_alt)
    then show "k \<in> of_nat ` {0..<128}" by (intro image_eqI [of _ _ "unat k"]) simp_all
  qed
qed

lemma all_keys_split:
  assumes "k < 128"
  obtains ks where "all_keys = map of_nat [0..<unat k] @ k # ks" and "set (map of_nat [0..<unat k]) = {j. j < k}"
proof -
  have n: "unat k < 128" using assms by (simp add: word_less_nat_alt)
  then have "[0..<128] = [0..<unat k] @ unat k # [Suc (unat k)..<128]"
    by (metis upt_add_eq_append upt_conv_Cons le0 less_imp_le_nat le_add_diff_inverse)
  then have "all_keys = map of_nat [0..<unat k] @ k # map of_nat [Suc (unat k)..<128]" by (simp add: all_keys_def)
  moreover have "set (map of_nat [0..<unat k]) = {j. j < k}"
  proof (auto simp: word_less_nat_alt)
    fix i assume "i < unat k"
    then show "unat (of_nat i :: u8) < unat k" using n by (simp add: of_nat_u8_less)
  next
    fix j assume "unat j < unat k"
    then show "j \<in> of_nat ` {0..<unat k}" by (intro image_eqI [of _ _ "unat j"]) simp_all
  qed
  ultimately show ?thesis by (rule that)
qed

lemma getc_never:
  "getc env st = Some r \<Longrightarrow> \<not> ((env = (\<lambda>_. tab)) \<and> (\<forall>k < 128. \<not> new_key tab (snd st) k))"
proof (erule getc.raw_induct [where P = "\<lambda>env st r. \<not> ((env = (\<lambda>_. tab)) \<and> (\<forall>k < 128. \<not> new_key tab (snd st) k))", rotated])
  fix f :: "chars_env \<Rightarrow> getc_state \<Rightarrow> (u8 \<times> getc_state) option" and env st r
  assume IH: "\<And>env st r. f env st = Some r \<Longrightarrow> \<not> ((env = (\<lambda>_. tab)) \<and> (\<forall>k < 128. \<not> new_key tab (snd st) k))"
    and body: "(case getc_scan env all_keys st of (Some c, st) \<Rightarrow> Some (c, st) | (None, st) \<Rightarrow> f env st) = Some r"
  show "\<not> ((env = (\<lambda>_. tab)) \<and> (\<forall>k < 128. \<not> new_key tab (snd st) k))"
  proof
    assume a: "(env = (\<lambda>_. tab)) \<and> (\<forall>k < 128. \<not> new_key tab (snd st) k)"
    obtain t was where st: "st = (t, was)" by (cases st)
    from a getc_scan_none [OF all_keys_props(1), of tab was t] obtain t' where
      s: "getc_scan (\<lambda>_. tab) all_keys (t, was) = (None, (t', \<lambda>k. if k \<in> set all_keys then tab k else was k))"
      by (auto simp: st all_keys_props)
    with body a have "f (\<lambda>_. tab) (t', \<lambda>k. if k \<in> set all_keys then tab k else was k) = Some r" by (simp add: st)
    from IH [OF this] show False by (auto simp: new_key_def all_keys_props split: if_splits)
  qed
qed

text \<open>
  C17. While the table of held characters does not change, \<open>getc\<close> returns the least accepted character
  that is held and was not reported before, and remembers what it has seen up to that character; if
  there is none it does not return. So a held key is reported once, however long it is held.
\<close>
theorem getc_reports_each_press_once:
  shows "(k < 128 \<and> new_key tab was k \<and> (\<forall>j < k. \<not> new_key tab was j) \<longrightarrow>
      (\<exists>t'. getc (\<lambda>_. tab) (t, was) = Some (k, (t', \<lambda>j. if j \<le> k then tab j else was j)))) \<and>
    ((\<forall>j < 128. \<not> new_key tab was j) \<longrightarrow> getc (\<lambda>_. tab) (t, was) = None)"
proof (intro conjI impI; (elim conjE)?)
  assume k: "k < 128" "new_key tab was k" "\<forall>j < k. \<not> new_key tab was j"
  from all_keys_split [OF k(1)] obtain ks where
    ks: "all_keys = map of_nat [0..<unat k] @ k # ks" "set (map of_nat [0..<unat k]) = {j. j < k}" .
  have "distinct (map of_nat [0..<unat k] @ k # ks)" using all_keys_props(1) by (simp only: ks(1))
  from getc_scan_some [OF this, of tab was t] k(2,3) ks obtain t' where
    "getc_scan (\<lambda>_. tab) all_keys (t, was) = (Some k, (t', \<lambda>j. if j \<in> insert k {j. j < k} then tab j else was j))" by auto
  moreover have "(\<lambda>j. if j \<in> insert k {j. j < k} then tab j else was j) = (\<lambda>j. if j \<le> k then tab j else was j)"
    by (auto simp: fun_eq_iff le_less)
  ultimately show "\<exists>t'. getc (\<lambda>_. tab) (t, was) = Some (k, (t', \<lambda>j. if j \<le> k then tab j else was j))"
    by (subst getc.simps) simp
next
  assume "\<forall>j < 128. \<not> new_key tab was j"
  then show "getc (\<lambda>_. tab) (t, was) = None"
    using getc_never [of "\<lambda>_. tab" "(t, was)" _ tab] by (cases "getc (\<lambda>_. tab) (t, was)") auto
qed

theorem getc_reports_each_press_once_witness:
  "\<exists>t'. getc (\<lambda>_ k. k = 97 \<or> k = 98) (0, \<lambda>k. k = 97) = Some (98, (t', \<lambda>j. if j \<le> 98 then j = 97 \<or> j = 98 else j = 97)) \<and>
     getc (\<lambda>_ k. k = 97) (0, \<lambda>k. k = 97) = None"
proof -
  have n: "new_key (\<lambda>k. k = 97 \<or> k = 98) (\<lambda>k. k = 97) 98" "\<forall>j < 98. \<not> new_key (\<lambda>k. k = 97 \<or> k = 98) (\<lambda>k. k = 97) j"
    by (auto simp: new_key_def is_input_def)
  have "\<forall>j < 128. \<not> new_key (\<lambda>k. k = 97) (\<lambda>k. k = 97) j" by (simp add: new_key_def)
  with n getc_reports_each_press_once [of 98 "\<lambda>k. k = 97 \<or> k = 98" "\<lambda>k. k = 97" 0]
    getc_reports_each_press_once [of 98 "\<lambda>k. k = 97" "\<lambda>k. k = 97" 0] show ?thesis by simp
qed

text \<open>The delay is shifted out of the byte: the controller always receives delay 0.\<close>

lemma typematic_delay_lost: "typematic_byte rate delay = ucast (rate AND 0x1F)"
proof (rule bit_word_eqI)
  fix n :: nat assume "n < LENGTH(8)"
  have e: "(0x1F :: u32) = mask 5" "(0x60 :: u32) = push_bit 5 (mask 2)" "(0x80 :: i32) = 2 ^ 7"
    by (simp_all add: mask_eq_exp_minus_1 push_bit_eq_mult)
  have b: "bit (0x80 :: i32) n \<longleftrightarrow> n = 7" unfolding e(3) bit_exp_iff by auto
  show "bit (typematic_byte rate delay) n = bit (ucast (rate AND 0x1F) :: u8) n"
    unfolding typematic_byte_def Let_def e(1,2) using b by (auto simp only: bit_simps) auto
qed

end
