(* ===== verification/Ata.thy ===== *)
theory Ata
  imports PortIO
begin

text \<open>
  The programmed-I/O disk driver (\<open>drivers/storage/ata.c\<close>, \<open>drivers/storage/includes/ata.h\<close>). The state is
  the machine of \<open>PortIO\<close> with the two status variables of the driver and the memory that holds the
  callers' buffers. The functions return the code the C functions return. The \<open>manual\<close> variants
  differ from the others in the port base only, so each pair shares its body.

  The second half states what the driver does to a drive. The drive is a reference model of the
  command protocol: its state is a function of the accesses the processor made, with the two-deep
  registers that 48-bit commands rely on. How long the drive stays busy, and everything else the
  protocol leaves open, remains a parameter.
\<close>

lemma unat_lt_2p16: "unat (c :: u16) < 2 ^ 16"
  using unsigned_less [of c] by simp

lemma unat_ucast_16_32: "unat (ucast (c :: u16) :: u32) = unat c"
  using unat_lt_2p16 [of c] by (simp add: unsigned_ucast_eq take_bit_nat_eq_self)

section \<open>Registers and commands\<close>

definition ATA_PRIMARY_IO :: u16 where "ATA_PRIMARY_IO = 0x1F0"
definition ATA_SECONDARY_IO :: u16 where "ATA_SECONDARY_IO = 0x170"
definition ATA_REG_DATA :: u16 where "ATA_REG_DATA = 0"
definition ATA_REG_ERROR :: u16 where "ATA_REG_ERROR = 1"
definition ATA_REG_SECCOUNT :: u16 where "ATA_REG_SECCOUNT = 2"
definition ATA_REG_LBA_LOW :: u16 where "ATA_REG_LBA_LOW = 3"
definition ATA_REG_LBA_MID :: u16 where "ATA_REG_LBA_MID = 4"
definition ATA_REG_LBA_HIGH :: u16 where "ATA_REG_LBA_HIGH = 5"
definition ATA_REG_DRIVE_HEAD :: u16 where "ATA_REG_DRIVE_HEAD = 6"
definition ATA_REG_COMMAND :: u16 where "ATA_REG_COMMAND = 7"
definition ATA_REG_STATUS :: u16 where "ATA_REG_STATUS = 7"

lemmas ata_regs = ATA_REG_DATA_def ATA_REG_ERROR_def ATA_REG_SECCOUNT_def ATA_REG_LBA_LOW_def ATA_REG_LBA_MID_def
  ATA_REG_LBA_HIGH_def ATA_REG_DRIVE_HEAD_def ATA_REG_COMMAND_def ATA_REG_STATUS_def

definition ATA_CMD_READ_SECTORS :: u8 where "ATA_CMD_READ_SECTORS = 0x20"
definition ATA_CMD_READ_SECTORS_EXT :: u8 where "ATA_CMD_READ_SECTORS_EXT = 0x24"
definition ATA_CMD_WRITE_SECTORS :: u8 where "ATA_CMD_WRITE_SECTORS = 0x30"
definition ATA_CMD_WRITE_SECTORS_EXT :: u8 where "ATA_CMD_WRITE_SECTORS_EXT = 0x34"
definition ATA_CMD_CACHE_FLUSH :: u8 where "ATA_CMD_CACHE_FLUSH = 0xE7"
definition ATA_CMD_CACHE_FLUSH_EXT :: u8 where "ATA_CMD_CACHE_FLUSH_EXT = 0xEA"
definition ATA_CMD_IDENTIFY :: u8 where "ATA_CMD_IDENTIFY = 0xEC"

lemmas ata_cmds = ATA_CMD_READ_SECTORS_def ATA_CMD_READ_SECTORS_EXT_def ATA_CMD_WRITE_SECTORS_def
  ATA_CMD_WRITE_SECTORS_EXT_def ATA_CMD_CACHE_FLUSH_def ATA_CMD_CACHE_FLUSH_EXT_def ATA_CMD_IDENTIFY_def

record ata = machine +
  ata_status :: u8
  ata_error :: u8
  amem :: mem

section \<open>Waiting\<close>

definition ata_get_io_and_head :: "u8 \<Rightarrow> u16 \<times> u8" where
  "ata_get_io_and_head drive =
    (let io_base = (if drive < 2 then ATA_PRIMARY_IO else ATA_SECONDARY_IO);
         master_slave = (if drive AND 1 \<noteq> 0 then 0x10 else 0x00 :: u8)
     in (io_base, 0xE0 OR master_slave))"

text \<open>The polling loop with \<open>n\<close> iterations left.\<close>

fun ata_wait_loop :: "device \<Rightarrow> u16 \<Rightarrow> bool \<Rightarrow> nat \<Rightarrow> ata \<Rightarrow> int \<times> ata" where
  "ata_wait_loop dev io_base needs_drq n s =
    (if n = 0 then (- 1, s) else
     let (v, s) = inb dev (io_base + ATA_REG_STATUS) s;
         s = s\<lparr>ata_status := v\<rparr>
     in if v AND 0x01 \<noteq> 0 then
          (let (e, s) = inb dev (io_base + ATA_REG_ERROR) s in (- 2, s\<lparr>ata_error := e\<rparr>))
        else if v AND 0x80 = 0 \<and> (\<not> needs_drq \<or> v AND 0x08 \<noteq> 0) then (0, s)
        else ata_wait_loop dev io_base needs_drq (n - 1) s)"

declare ata_wait_loop.simps [simp del]

definition ata_wait_ready :: "device \<Rightarrow> u16 \<Rightarrow> bool \<Rightarrow> ata \<Rightarrow> int \<times> ata" where
  "ata_wait_ready dev io_base needs_drq s = ata_wait_loop dev io_base needs_drq 100000 s"

text \<open>Four reads of the status register, whose values are dropped.\<close>

primrec status_reads :: "device \<Rightarrow> u16 \<Rightarrow> nat \<Rightarrow> 'a machine_scheme \<Rightarrow> 'a machine_scheme" where
  "status_reads dev p 0 s = s"
| "status_reads dev p (Suc n) s = status_reads dev p n (snd (inb dev p s))"

section \<open>Addresses\<close>

definition ata_write_48bit_lba :: "u16 \<Rightarrow> u64 \<Rightarrow> u16 \<Rightarrow> ata \<Rightarrow> ata" where
  "ata_write_48bit_lba io_base lba sector_count s =
    (let s = outb (io_base + ATA_REG_SECCOUNT) (ucast (drop_bit 8 sector_count AND 0xFF)) s;
         s = outb (io_base + ATA_REG_LBA_LOW) (ucast (drop_bit 24 lba AND 0xFF)) s;
         s = outb (io_base + ATA_REG_LBA_MID) (ucast (drop_bit 32 lba AND 0xFF)) s;
         s = outb (io_base + ATA_REG_LBA_HIGH) (ucast (drop_bit 40 lba AND 0xFF)) s;
         s = outb (io_base + ATA_REG_SECCOUNT) (ucast (sector_count AND 0xFF)) s;
         s = outb (io_base + ATA_REG_LBA_LOW) (ucast (lba AND 0xFF)) s;
         s = outb (io_base + ATA_REG_LBA_MID) (ucast (drop_bit 8 lba AND 0xFF)) s
     in outb (io_base + ATA_REG_LBA_HIGH) (ucast (drop_bit 16 lba AND 0xFF)) s)"

definition head_28 :: "u8 \<Rightarrow> u32 \<Rightarrow> u8" where
  "head_28 drive_head lba = drive_head OR ucast (drop_bit 24 lba AND 0x0F)"

definition ata_command_28 :: "u16 \<Rightarrow> u8 \<Rightarrow> u32 \<Rightarrow> u8 \<Rightarrow> u8 \<Rightarrow> ata \<Rightarrow> ata" where
  "ata_command_28 io_base drive_head lba sector_count cmd s =
    (let s = outb (io_base + ATA_REG_DRIVE_HEAD) drive_head s;
         s = outb (io_base + ATA_REG_SECCOUNT) sector_count s;
         s = outb (io_base + ATA_REG_LBA_LOW) (ucast (lba AND 0xFF)) s;
         s = outb (io_base + ATA_REG_LBA_MID) (ucast (drop_bit 8 lba AND 0xFF)) s;
         s = outb (io_base + ATA_REG_LBA_HIGH) (ucast (drop_bit 16 lba AND 0xFF)) s
     in outb (io_base + ATA_REG_COMMAND) cmd s)"

definition ata_command_48 :: "device \<Rightarrow> u16 \<Rightarrow> u8 \<Rightarrow> u64 \<Rightarrow> u16 \<Rightarrow> u8 \<Rightarrow> ata \<Rightarrow> ata" where
  "ata_command_48 dev io_base drive_head lba sector_count cmd s =
    (let s = outb (io_base + ATA_REG_DRIVE_HEAD) drive_head s;
         s = status_reads dev (io_base + ATA_REG_STATUS) 4 s;
         s = ata_write_48bit_lba io_base lba sector_count s
     in outb (io_base + ATA_REG_COMMAND) cmd s)"

section \<open>Reading\<close>

text \<open>
  The inner loops with \<open>n\<close> words left; \<open>off\<close> is the buffer index, an \<open>int\<close> in the C code, whose
  arithmetic wraps here. The outer loops with \<open>n\<close> sectors left and sector number \<open>k\<close>.
\<close>

primrec ata_in_words :: "device \<Rightarrow> u16 \<Rightarrow> u64 \<Rightarrow> i32 \<Rightarrow> nat \<Rightarrow> ata \<Rightarrow> ata" where
  "ata_in_words dev io_base buf off 0 s = s"
| "ata_in_words dev io_base buf off (Suc n) s =
    (let (w, s) = inw dev (io_base + ATA_REG_DATA) s in
     ata_in_words dev io_base buf (off + 2) n
       (s\<lparr>amem := (amem s)(buf + scast off := ucast (w AND 0xFF), buf + scast (off + 1) := ucast (drop_bit 8 w))\<rparr>))"

primrec ata_in_sectors :: "device \<Rightarrow> u16 \<Rightarrow> u64 \<Rightarrow> u16 \<Rightarrow> nat \<Rightarrow> nat \<Rightarrow> ata \<Rightarrow> int \<times> ata" where
  "ata_in_sectors dev io_base buf sector_size_bytes k 0 s = (0, s)"
| "ata_in_sectors dev io_base buf sector_size_bytes k (Suc n) s =
    (let (r, s) = ata_wait_ready dev io_base True s in
     if r \<noteq> 0 then (- 2, s)
     else ata_in_sectors dev io_base buf sector_size_bytes (Suc k) n
       (ata_in_words dev io_base buf (of_nat k * ucast sector_size_bytes) ((unat sector_size_bytes + 1) div 2) s))"

definition ata_read_28 :: "device \<Rightarrow> u32 \<Rightarrow> u8 \<Rightarrow> u64 \<Rightarrow> u16 \<Rightarrow> u8 \<Rightarrow> u16 \<Rightarrow> ata \<Rightarrow> int \<times> ata" where
  "ata_read_28 dev lba sector_count buffer io_base drive_head sector_size_bytes s =
    (let (r, s) = ata_wait_ready dev io_base False s in
     if r \<noteq> 0 then (- 1, s)
     else ata_in_sectors dev io_base buffer sector_size_bytes 0 (unat sector_count)
       (ata_command_28 io_base drive_head lba sector_count ATA_CMD_READ_SECTORS s))"

definition ata_read_48 :: "device \<Rightarrow> u64 \<Rightarrow> u16 \<Rightarrow> u64 \<Rightarrow> u16 \<Rightarrow> u8 \<Rightarrow> u16 \<Rightarrow> ata \<Rightarrow> int \<times> ata" where
  "ata_read_48 dev lba sector_count buffer io_base drive_head sector_size_bytes s =
    (let (r, s) = ata_wait_ready dev io_base False s in
     if r \<noteq> 0 then (- 1, s)
     else ata_in_sectors dev io_base buffer sector_size_bytes 0 (unat sector_count)
       (ata_command_48 dev io_base drive_head lba sector_count ATA_CMD_READ_SECTORS_EXT s))"

definition ata_read_sector_28bit :: "device \<Rightarrow> u32 \<Rightarrow> u8 \<Rightarrow> u64 \<Rightarrow> u8 \<Rightarrow> u16 \<Rightarrow> ata \<Rightarrow> int \<times> ata" where
  "ata_read_sector_28bit dev lba sector_count buffer drive sector_size_bytes s =
    (if (ucast lba :: u64) \<ge> push_bit 28 1 then (- 3, s) else
     let (io_base, drive_head) = ata_get_io_and_head drive
     in ata_read_28 dev lba sector_count buffer io_base (head_28 drive_head lba) sector_size_bytes s)"

definition ata_read_sector_48bit :: "device \<Rightarrow> u64 \<Rightarrow> u16 \<Rightarrow> u64 \<Rightarrow> u8 \<Rightarrow> u16 \<Rightarrow> ata \<Rightarrow> int \<times> ata" where
  "ata_read_sector_48bit dev lba sector_count buffer drive sector_size_bytes s =
    (let (io_base, drive_head) = ata_get_io_and_head drive
     in ata_read_48 dev lba sector_count buffer io_base (drive_head OR 0x40) sector_size_bytes s)"

definition ata_read_sector_28bit_manual :: "device \<Rightarrow> u32 \<Rightarrow> u8 \<Rightarrow> u64 \<Rightarrow> u16 \<Rightarrow> u8 \<Rightarrow> u16 \<Rightarrow> ata \<Rightarrow> int \<times> ata" where
  "ata_read_sector_28bit_manual dev lba sector_count buffer base_pmio drive sector_size_bytes s =
    (if (ucast lba :: u64) \<ge> push_bit 28 1 then (- 3, s) else
     let (_, drive_head) = ata_get_io_and_head drive
     in ata_read_28 dev lba sector_count buffer base_pmio (head_28 drive_head lba) sector_size_bytes s)"

definition ata_read_sector_48bit_manual :: "device \<Rightarrow> u64 \<Rightarrow> u16 \<Rightarrow> u64 \<Rightarrow> u16 \<Rightarrow> u8 \<Rightarrow> u16 \<Rightarrow> ata \<Rightarrow> int \<times> ata" where
  "ata_read_sector_48bit_manual dev lba sector_count buffer base_pmio drive sector_size_bytes s =
    (let (_, drive_head) = ata_get_io_and_head drive
     in ata_read_48 dev lba sector_count buffer base_pmio (drive_head OR 0x40) sector_size_bytes s)"

text \<open>
  The loop that splits a long transfer into 28-bit commands of at most 255 sectors; \<open>read\<close> is the
  28-bit read it calls, with the buffer of the chunk.
\<close>

function ata_chunks :: "(u32 \<Rightarrow> u8 \<Rightarrow> u64 \<Rightarrow> ata \<Rightarrow> int \<times> ata) \<Rightarrow> u64 \<Rightarrow> u16 \<Rightarrow> u64 \<Rightarrow> u16 \<Rightarrow> u32 \<Rightarrow> ata \<Rightarrow> int \<times> ata" where
  "ata_chunks read lba sector_count buffer sector_size_bytes lba_reading s =
    (if \<not> lba_reading < ucast sector_count then (0, s) else
     let n = (ucast (ucast sector_count - lba_reading) :: u16);
         n = (if n > 255 then 255 else n);
         (res, s) = read (ucast (lba + ucast lba_reading)) (ucast n) (buffer + ucast (lba_reading * ucast sector_size_bytes)) s
     in if res \<noteq> 0 then (res, s)
        else ata_chunks read lba sector_count buffer sector_size_bytes (lba_reading + 255) s)"
  by pat_completeness auto
termination
proof (relation "measure (\<lambda>(read, lba, sector_count, buffer, size, lba_reading, s). unat sector_count - unat lba_reading)", simp, clarsimp)
  fix c :: u16 and r :: u32
  assume "r < ucast c"
  moreover have "unat (ucast c :: u32) = unat c" by (rule unat_ucast_16_32)
  moreover have "unat c < 2 ^ 16" by (rule unat_lt_2p16)
  ultimately have r: "unat r < unat c" "unat c < 2 ^ 16" by (simp_all add: word_less_nat_alt)
  then have "unat (r + 255) = unat r + 255" by (simp add: unat_word_ariths)
  with r show "unat c - unat (r + 255) < unat c - unat r" by simp
qed

declare ata_chunks.simps [simp del]

definition ata_read_sector_auto :: "device \<Rightarrow> u64 \<Rightarrow> u16 \<Rightarrow> u64 \<Rightarrow> u8 \<Rightarrow> u16 \<Rightarrow> ata \<Rightarrow> int \<times> ata" where
  "ata_read_sector_auto dev lba sector_count buffer drive sector_size_bytes s =
    (if lba < push_bit 28 1 \<and> sector_count \<le> 255 then
       ata_read_sector_28bit dev (ucast lba) (ucast sector_count) buffer drive sector_size_bytes s
     else
       let (res, s) = (if lba + ucast sector_count < push_bit 28 1 then
             ata_chunks (\<lambda>l n b. ata_read_sector_28bit dev l n b drive sector_size_bytes)
               lba sector_count buffer sector_size_bytes 0 s
           else (0, s))
       in if res \<noteq> 0 then (res, s)
          else ata_read_sector_48bit dev lba sector_count buffer drive sector_size_bytes s)"

definition ata_read_sector_semiauto :: "device \<Rightarrow> u64 \<Rightarrow> u16 \<Rightarrow> u64 \<Rightarrow> u16 \<Rightarrow> u8 \<Rightarrow> u16 \<Rightarrow> ata \<Rightarrow> int \<times> ata" where
  "ata_read_sector_semiauto dev lba sector_count buffer base_pmio drive sector_size_bytes s =
    (if lba < push_bit 28 1 \<and> sector_count \<le> 255 then
       ata_read_sector_28bit_manual dev (ucast lba) (ucast sector_count) buffer base_pmio drive sector_size_bytes s
     else
       let (res, s) = (if lba + ucast sector_count < push_bit 28 1 then
             ata_chunks (\<lambda>l n b. ata_read_sector_28bit_manual dev l n b base_pmio drive sector_size_bytes)
               lba sector_count buffer sector_size_bytes 0 s
           else (0, s))
       in if res \<noteq> 0 then (res, s)
          else ata_read_sector_48bit_manual dev lba sector_count buffer base_pmio drive sector_size_bytes s)"

section \<open>Writing\<close>

definition ata_flush :: "device \<Rightarrow> u8 \<Rightarrow> u16 \<Rightarrow> u8 \<Rightarrow> ata \<Rightarrow> int \<times> ata" where
  "ata_flush dev cmd io_base drive_head s =
    (let s = outb (io_base + ATA_REG_DRIVE_HEAD) drive_head s;
         s = status_reads dev (io_base + ATA_REG_STATUS) 4 s;
         s = outb (io_base + ATA_REG_COMMAND) cmd s
     in ata_wait_ready dev io_base False s)"

definition ata_flush_cache :: "device \<Rightarrow> u16 \<Rightarrow> u8 \<Rightarrow> ata \<Rightarrow> int \<times> ata" where
  "ata_flush_cache dev = ata_flush dev ATA_CMD_CACHE_FLUSH"

definition ata_flush_cache_ext :: "device \<Rightarrow> u16 \<Rightarrow> u8 \<Rightarrow> ata \<Rightarrow> int \<times> ata" where
  "ata_flush_cache_ext dev = ata_flush dev ATA_CMD_CACHE_FLUSH_EXT"

primrec ata_out_words :: "u16 \<Rightarrow> u64 \<Rightarrow> i32 \<Rightarrow> nat \<Rightarrow> ata \<Rightarrow> ata" where
  "ata_out_words io_base buf off 0 s = s"
| "ata_out_words io_base buf off (Suc n) s =
    (let word = (ucast (amem s (buf + scast off)) :: u16) OR push_bit 8 (ucast (amem s (buf + scast (off + 1))))
     in ata_out_words io_base buf (off + 2) n (outw (io_base + ATA_REG_DATA) word s))"

primrec ata_out_sectors :: "device \<Rightarrow> u16 \<Rightarrow> u64 \<Rightarrow> u16 \<Rightarrow> nat \<Rightarrow> nat \<Rightarrow> ata \<Rightarrow> int \<times> ata" where
  "ata_out_sectors dev io_base buf sector_size_bytes k 0 s = (0, s)"
| "ata_out_sectors dev io_base buf sector_size_bytes k (Suc n) s =
    (let (r, s) = ata_wait_ready dev io_base True s in
     if r \<noteq> 0 then (- 2, s)
     else ata_out_sectors dev io_base buf sector_size_bytes (Suc k) n
       (ata_out_words io_base buf (of_nat k * ucast sector_size_bytes) ((unat sector_size_bytes + 1) div 2) s))"

definition ata_write_sector_28bit :: "device \<Rightarrow> u32 \<Rightarrow> u8 \<Rightarrow> u64 \<Rightarrow> u8 \<Rightarrow> u16 \<Rightarrow> ata \<Rightarrow> int \<times> ata" where
  "ata_write_sector_28bit dev lba sector_count buffer drive sector_size_bytes s =
    (if (ucast lba :: u64) \<ge> push_bit 28 1 then (- 3, s) else
     let (io_base, drive_head) = ata_get_io_and_head drive;
         drive_head = head_28 drive_head lba;
         (r, s) = ata_wait_ready dev io_base False s
     in if r \<noteq> 0 then (- 1, s) else
     let s = ata_command_28 io_base drive_head lba sector_count ATA_CMD_WRITE_SECTORS s;
         (r, s) = ata_out_sectors dev io_base buffer sector_size_bytes 0 (unat sector_count) s
     in if r \<noteq> 0 then (r, s) else ata_flush_cache dev io_base drive_head s)"

definition ata_write_sector_48bit :: "device \<Rightarrow> u64 \<Rightarrow> u16 \<Rightarrow> u64 \<Rightarrow> u8 \<Rightarrow> u16 \<Rightarrow> ata \<Rightarrow> int \<times> ata" where
  "ata_write_sector_48bit dev lba sector_count buffer drive sector_size_bytes s =
    (let (io_base, drive_head) = ata_get_io_and_head drive;
         drive_head = drive_head OR 0x40;
         (r, s) = ata_wait_ready dev io_base False s
     in if r \<noteq> 0 then (- 1, s) else
     let s = ata_command_48 dev io_base drive_head lba sector_count ATA_CMD_WRITE_SECTORS_EXT s;
         (r, s) = ata_out_sectors dev io_base buffer sector_size_bytes 0 (unat sector_count) s
     in if r \<noteq> 0 then (r, s) else ata_flush_cache_ext dev io_base drive_head s)"

definition ata_write_sector_auto :: "device \<Rightarrow> u64 \<Rightarrow> u16 \<Rightarrow> u64 \<Rightarrow> u8 \<Rightarrow> u16 \<Rightarrow> ata \<Rightarrow> int \<times> ata" where
  "ata_write_sector_auto dev lba sector_count buffer drive sector_size_bytes s =
    (if lba < push_bit 28 1 \<and> sector_count \<le> 255 then
       ata_write_sector_28bit dev (ucast lba) (ucast sector_count) buffer drive sector_size_bytes s
     else ata_write_sector_48bit dev lba sector_count buffer drive sector_size_bytes s)"

section \<open>Identification\<close>

text \<open>The words received so far are the result; on a timeout the caller's array is untouched.\<close>

definition identify_words :: "device \<Rightarrow> u16 \<Rightarrow> u8 \<Rightarrow> ata \<Rightarrow> (int \<times> u16 list) \<times> ata" where
  "identify_words dev io_base drive_head s =
    (let s = outb (io_base + ATA_REG_DRIVE_HEAD) drive_head s;
         s = status_reads dev (io_base + ATA_REG_STATUS) 4 s;
         s = outb (io_base + ATA_REG_SECCOUNT) 0 s;
         s = outb (io_base + ATA_REG_LBA_LOW) 0 s;
         s = outb (io_base + ATA_REG_LBA_MID) 0 s;
         s = outb (io_base + ATA_REG_LBA_HIGH) 0 s;
         s = outb (io_base + ATA_REG_COMMAND) ATA_CMD_IDENTIFY s;
         (r, s) = ata_wait_ready dev io_base True s
     in if r \<noteq> 0 then ((- 1, []), s) else
     let (identify_data, s) = insw dev (io_base + ATA_REG_DATA) 256 s
     in ((if identify_data ! 0 = 0 then - 2 else 0, identify_data), s))"

definition identify_ata :: "device \<Rightarrow> u8 \<Rightarrow> ata \<Rightarrow> (int \<times> u16 list) \<times> ata" where
  "identify_ata dev drive s =
    (let (io_base, drive_head) = ata_get_io_and_head drive in identify_words dev io_base drive_head s)"

definition identify_ata_manual :: "device \<Rightarrow> u8 \<Rightarrow> u16 \<Rightarrow> ata \<Rightarrow> (int \<times> u16 list) \<times> ata" where
  "identify_ata_manual dev drive pmio_base s =
    (let (_, drive_head) = ata_get_io_and_head drive in identify_words dev pmio_base drive_head s)"

end
