(* ===== verification/AtaSpec.thy ===== *)
theory AtaSpec
  imports Ata
begin

text \<open>
  What the disk driver of \<open>Ata\<close> does to a drive. The reference drive below follows the register
  protocol of the command set: a command reads the address and count registers, a data-in command
  queues the words of the addressed sectors, a data-out command stores the words that follow. The
  address registers are two deep, and a 48-bit command uses both levels. A device serves as such a
  drive when it delivers the queued words and becomes ready within the driver's polling limit; its
  status values, its busy times and the answers it gives outside a transfer are its own.
\<close>

section \<open>The reference drive\<close>

record drive =
  r_count :: "u8 \<times> u8"
  r_low :: "u8 \<times> u8"
  r_mid :: "u8 \<times> u8"
  r_high :: "u8 \<times> u8"
  r_head :: u8
  d_in :: "u16 list"
  d_out :: "(bool \<times> nat \<times> nat) option"
  d_ok :: bool
  media :: "bool \<Rightarrow> nat \<Rightarrow> u16"

definition lba28 :: "drive \<Rightarrow> nat" where
  "lba28 d = unat (snd (r_low d)) + 2 ^ 8 * unat (snd (r_mid d)) + 2 ^ 16 * unat (snd (r_high d)) + 2 ^ 24 * (unat (r_head d) mod 16)"

definition lba48 :: "drive \<Rightarrow> nat" where
  "lba48 d = unat (snd (r_low d)) + 2 ^ 8 * unat (snd (r_mid d)) + 2 ^ 16 * unat (snd (r_high d)) +
     2 ^ 24 * unat (fst (r_low d)) + 2 ^ 32 * unat (fst (r_mid d)) + 2 ^ 40 * unat (fst (r_high d))"

definition count28 :: "drive \<Rightarrow> nat" where
  "count28 d = (if snd (r_count d) = 0 then 256 else unat (snd (r_count d)))"

definition count48 :: "drive \<Rightarrow> nat" where
  "count48 d = (let n = unat (snd (r_count d)) + 2 ^ 8 * unat (fst (r_count d)) in if n = 0 then 65536 else n)"

definition sectors :: "nat \<Rightarrow> (bool \<Rightarrow> nat \<Rightarrow> u16) \<Rightarrow> bool \<Rightarrow> nat \<Rightarrow> nat \<Rightarrow> u16 list" where
  "sectors w md u lba n = map (md u) [lba * w..<(lba + n) * w]"

definition command :: "nat \<Rightarrow> u8 \<Rightarrow> drive \<Rightarrow> drive" where
  "command w c d =
    (let u = bit (r_head d) 4; d' = d\<lparr>d_in := [], d_out := None, d_ok := True\<rparr>;
         in28 = lba28 d + count28 d \<le> 2 ^ 28; in48 = lba48 d + count48 d \<le> 2 ^ 48 in
     if c = ATA_CMD_READ_SECTORS \<and> in28 then d'\<lparr>d_in := sectors w (media d) u (lba28 d) (count28 d)\<rparr>
     else if c = ATA_CMD_READ_SECTORS_EXT \<and> in48 then d'\<lparr>d_in := sectors w (media d) u (lba48 d) (count48 d)\<rparr>
     else if c = ATA_CMD_WRITE_SECTORS \<and> in28 then d'\<lparr>d_out := Some (u, lba28 d * w, count28 d * w)\<rparr>
     else if c = ATA_CMD_WRITE_SECTORS_EXT \<and> in48 then d'\<lparr>d_out := Some (u, lba48 d * w, count48 d * w)\<rparr>
     else d'\<lparr>d_ok := c = ATA_CMD_CACHE_FLUSH \<or> c = ATA_CMD_CACHE_FLUSH_EXT\<rparr>)"

definition store_word :: "u16 \<Rightarrow> drive \<Rightarrow> drive" where
  "store_word v d = (case d_out d of None \<Rightarrow> d
     | Some (u, a, n) \<Rightarrow> d\<lparr>media := (media d)(u := (media d u)(a := v)), d_out := if n \<le> 1 then None else Some (u, a + 1, n - 1)\<rparr>)"

definition drive_step :: "nat \<Rightarrow> u16 \<Rightarrow> io \<Rightarrow> drive \<Rightarrow> drive" where
  "drive_step w io e d = (case e of
     Out8 p v \<Rightarrow>
       if p = io + 2 then d\<lparr>r_count := (snd (r_count d), v)\<rparr>
       else if p = io + 3 then d\<lparr>r_low := (snd (r_low d), v)\<rparr>
       else if p = io + 4 then d\<lparr>r_mid := (snd (r_mid d), v)\<rparr>
       else if p = io + 5 then d\<lparr>r_high := (snd (r_high d), v)\<rparr>
       else if p = io + 6 then d\<lparr>r_head := v\<rparr>
       else if p = io + 7 then command w v d
       else d
   | In16 p v \<Rightarrow> if p = io then d\<lparr>d_in := tl (d_in d)\<rparr> else d
   | Out16 p v \<Rightarrow> if p = io then store_word v d else d
   | _ \<Rightarrow> d)"

definition drive_after :: "nat \<Rightarrow> u16 \<Rightarrow> drive \<Rightarrow> io list \<Rightarrow> drive" where
  "drive_after w io d tr = foldr (drive_step w io) tr d"

lemma drive_after_simps [simp]:
  "drive_after w io d [] = d" "drive_after w io d (e # tr) = drive_step w io e (drive_after w io d tr)"
  by (simp_all add: drive_after_def)

primrec polls :: "device \<Rightarrow> u16 \<Rightarrow> nat \<Rightarrow> io list \<Rightarrow> io list" where
  "polls dev p 0 tr = tr"
| "polls dev p (Suc k) tr = polls dev p k (In8 p (port8 dev tr p) # tr)"

definition transfer :: "drive \<Rightarrow> bool" where
  "transfer d \<longleftrightarrow> d_in d \<noteq> [] \<or> d_out d \<noteq> None"

definition ready :: "bool \<Rightarrow> u8 \<Rightarrow> bool" where
  "ready drq v \<longleftrightarrow> v AND 0x80 = 0 \<and> (\<not> drq \<or> v AND 0x08 \<noteq> 0)"

definition serves :: "device \<Rightarrow> u16 \<Rightarrow> nat \<Rightarrow> drive \<Rightarrow> bool" where
  "serves dev io w d \<longleftrightarrow>
    (\<forall>tr. d_in (drive_after w io d tr) \<noteq> [] \<longrightarrow> port16 dev tr io = hd (d_in (drive_after w io d tr))) \<and>
    (\<forall>tr. d_ok (drive_after w io d tr) \<longrightarrow> port8 dev tr (io + 7) AND 0x01 = 0) \<and>
    (\<forall>tr. d_ok (drive_after w io d tr) \<longrightarrow> (\<exists>k < 100000. ready (transfer (drive_after w io d tr)) (port8 dev (polls dev (io + 7) k tr) (io + 7))))"

section \<open>Words and bytes\<close>

definition word_bytes :: "u16 list \<Rightarrow> u8 list" where
  "word_bytes ws = concat (map (le_split 2) ws)"

lemma word_bytes_simps [simp]:
  "word_bytes [] = []"
  "word_bytes (v # ws) = ucast v # ucast (drop_bit 8 v) # word_bytes ws"
  "word_bytes (ws @ vs) = word_bytes ws @ word_bytes vs"
  by (simp_all add: word_bytes_def numeral_2_eq_2)

lemma length_word_bytes [simp]: "length (word_bytes ws) = 2 * length ws"
  by (induction ws) simp_all

lemma store_bytes_append: "store_bytes m p (xs @ ys) = store_bytes (store_bytes m p xs) (p + of_nat (length xs)) ys"
  by (induction xs arbitrary: m p) (simp_all add: ac_simps)

lemma store_bytes_again:
  "length bs \<le> 2 ^ 64 \<Longrightarrow> store_bytes (store_bytes m p bs) p bs = store_bytes m p bs"
  by (rule ext) (simp add: store_bytes_apply)

definition words_at :: "mem \<Rightarrow> u64 \<Rightarrow> nat \<Rightarrow> u16 list" where
  "words_at m p n = map (\<lambda>i. read16 m (p + of_nat (2 * i))) [0..<n]"

lemma words_at_simps [simp]:
  "words_at m p 0 = []" "words_at m p (Suc n) = read16 m p # words_at m (p + 2) n"
  by (simp_all add: words_at_def upt_conv_Cons map_Suc_upt [symmetric] ac_simps o_def del: upt_Suc)

lemma length_words_at [simp]: "length (words_at m p n) = n"
  by (simp add: words_at_def)

lemma words_at_add: "words_at m p (n + k) = words_at m p n @ words_at m (p + of_nat (2 * n)) k"
  by (induction n arbitrary: p) (simp_all add: ac_simps)

lemma word_bytes_words_at: "word_bytes (words_at m p n) = bytes_at m p (2 * n)"
proof (induction n arbitrary: p)
  case (Suc n)
  have "ucast (read16 m p) = m p" "ucast (drop_bit 8 (read16 m p)) = m (p + 1)"
    by (auto simp: read16_def numeral_2_eq_2 intro!: bit_word_eqI) (auto simp: bit_simps dest: bit_imp_le_length)
  with Suc show ?case by (simp add: ac_simps)
qed simp

lemma scast_of_nat: "i < 2 ^ 31 \<Longrightarrow> (scast (of_nat i :: i32) :: u64) = of_nat i"
proof -
  assume i: "i < 2 ^ 31"
  then have "unat (of_nat i :: i32) = i" by (simp add: unat_of_nat)
  with i have "sint (of_nat i :: i32) = int i" by (simp add: sint_eq_unat)
  then show ?thesis by (metis of_int_of_nat_eq of_int_sint)
qed

lemma ucast_low_byte: "(ucast (x AND mask 8) :: u8) = ucast (x :: 'a::len word)"
  by (rule bit_word_eqI) (auto simp: bit_simps dest: bit_imp_le_length)

lemma mask_8: "(0xFF :: u64) = mask 8" "(0xFF :: u32) = mask 8" "(0xFF :: u16) = mask 8"
  by (simp_all add: mask_eq_exp_minus_1)

lemma unat_ucast_8: "unat (ucast (x :: 'a::len word) :: u8) = unat x mod 2 ^ 8"
  by (simp add: unsigned_ucast_eq take_bit_nat_def)

lemma unat_drop_bit: "unat (drop_bit n (x :: 'a::len word)) = unat x div 2 ^ n"
  by (simp add: unsigned_drop_bit_eq drop_bit_nat_def take_bit_nat_eq_self [OF unsigned_less])

lemmas low_byte = mask_8 ucast_low_byte unat_ucast_8 unat_drop_bit

section \<open>The driver against a drive\<close>

abbreviation drv :: "nat \<Rightarrow> u16 \<Rightarrow> drive \<Rightarrow> ata \<Rightarrow> drive" where
  "drv w io d s \<equiv> drive_after w io d (trace s)"

lemma serves_data: "serves dev io w d \<Longrightarrow> d_in (drive_after w io d tr) = v # vs \<Longrightarrow> port16 dev tr io = v"
  by (simp add: serves_def)

text \<open>
  Waiting, for any device whose condition \<open>obs\<close> is a function of the accesses that polling does not
  change: \<open>ok\<close> says when its status is prescribed, \<open>want\<close> when it asks for data.
\<close>

lemma wait_loop_ready:
  assumes poll: "\<And>p v tr. obs (In8 p v # tr) = obs tr" and err: "\<And>tr. ok (obs tr) \<Longrightarrow> port8 dev tr (io + 7) AND 0x01 = 0"
  shows "ok (obs (trace s)) \<Longrightarrow> ready drq (port8 dev (polls dev (io + 7) k (trace s)) (io + 7)) \<Longrightarrow> k < n \<Longrightarrow>
    \<exists>s'. ata_wait_loop dev io drq n s = (0, s') \<and> amem s' = amem s \<and> obs (trace s') = obs (trace s)"
proof (induction k arbitrary: s n)
  case 0
  then show ?case using err
    by (simp add: ata_wait_loop.simps [of dev io drq n] inb_def Let_def ready_def ATA_REG_STATUS_def poll emit_def)
next
  case (Suc k)
  let ?v = "port8 dev (trace s) (io + 7)"
  let ?t = "(emit (In8 (io + 7) ?v) s)\<lparr>ata_status := ?v\<rparr>"
  have t: "amem ?t = amem s" "obs (trace ?t) = obs (trace s)" by (simp_all add: emit_def poll)
  have v: "?v AND 0x01 = 0" using err Suc.prems(1) by blast
  show ?case
  proof (cases "ready drq ?v")
    case True
    then have "ata_wait_loop dev io drq n s = (0, ?t)" using v Suc.prems
      by (simp add: ata_wait_loop.simps [of dev io drq n] inb_def Let_def ready_def ATA_REG_STATUS_def)
    with t show ?thesis by blast
  next
    case False
    then have "ata_wait_loop dev io drq n s = ata_wait_loop dev io drq (n - 1) ?t" using v Suc.prems
      by (auto simp add: ata_wait_loop.simps [of dev io drq n] inb_def Let_def ready_def ATA_REG_STATUS_def)
    moreover have "ready drq (port8 dev (polls dev (io + 7) k (trace ?t)) (io + 7))"
      using Suc.prems(2) by simp
    moreover have "k < n - 1" using Suc.prems(3) by simp
    ultimately show ?thesis using Suc.IH [of ?t "n - 1"] t Suc.prems(1) by auto
  qed
qed

lemma wait_polled:
  assumes "\<And>p v tr. obs (In8 p v # tr) = obs tr" and "\<And>tr. ok (obs tr) \<Longrightarrow> port8 dev tr (io + 7) AND 0x01 = 0"
    and "\<And>tr. ok (obs tr) \<Longrightarrow> \<exists>k < 100000. ready (want (obs tr)) (port8 dev (polls dev (io + 7) k tr) (io + 7))"
    and "ok (obs (trace s))" and "drq \<longrightarrow> want (obs (trace s))"
  obtains s' where "ata_wait_ready dev io drq s = (0, s')" "amem s' = amem s" "obs (trace s') = obs (trace s)"
proof -
  obtain k where k: "k < 100000" "ready (want (obs (trace s))) (port8 dev (polls dev (io + 7) k (trace s)) (io + 7))"
    using assms(3,4) by blast
  then have "ready drq (port8 dev (polls dev (io + 7) k (trace s)) (io + 7))" using assms(5) by (auto simp: ready_def)
  then show thesis using wait_loop_ready [of obs ok dev io, OF assms(1,2,4) _ k(1)] that unfolding ata_wait_ready_def by blast
qed

lemma wait_ready:
  assumes "serves dev io w d" and "drq \<longrightarrow> transfer (drv w io d s)" and "d_ok (drv w io d s)"
  obtains s' where "ata_wait_ready dev io drq s = (0, s')" "amem s' = amem s" "drv w io d s' = drv w io d s"
proof (rule wait_polled [of "drive_after w io d" d_ok dev io transfer s drq])
  show "drive_after w io d (In8 p v # tr) = drive_after w io d tr" for p v tr by (simp add: drive_step_def)
qed (use assms that in \<open>auto simp: serves_def\<close>)

lemma in_words:
  assumes "serves dev io w d"
  shows "d_in (drv w io d s) = ws @ rest \<Longrightarrow> i + 2 * length ws \<le> 2 ^ 31 \<Longrightarrow>
    amem (ata_in_words dev io buf (of_nat i) (length ws) s) = store_bytes (amem s) (buf + of_nat i) (word_bytes ws) \<and>
    drv w io d (ata_in_words dev io buf (of_nat i) (length ws) s) = (drv w io d s)\<lparr>d_in := rest\<rparr>"
proof (induction ws arbitrary: s i)
  case Nil
  then show ?case by simp
next
  case (Cons v ws)
  let ?t = "(emit (In16 io v) s)\<lparr>amem := (amem s)(buf + of_nat i := ucast v, buf + of_nat i + 1 := ucast (drop_bit 8 v))\<rparr>"
  have v: "port16 dev (trace s) io = v" using serves_data [OF assms, of "trace s"] Cons.prems(1) by simp
  have b: "ucast (v AND 0xFF) = (ucast v :: u8)" unfolding mask_8 by (rule ucast_low_byte)
  have "(scast (of_nat i + 1 :: i32) :: u64) = of_nat i + 1"
    using scast_of_nat [of "Suc i"] Cons.prems(2) by (simp add: ac_simps)
  then have "ata_in_words dev io buf (of_nat i) (length (v # ws)) s = ata_in_words dev io buf (of_nat (i + 2)) (length ws) ?t"
    using Cons.prems(2) by (simp add: inw_def ATA_REG_DATA_def v b scast_of_nat emit_def ac_simps)
  moreover have "drv w io d ?t = (drv w io d s)\<lparr>d_in := ws @ rest\<rparr>"
    using Cons.prems(1) by (simp add: drive_step_def emit_def)
  moreover have "amem ?t = (amem s)(buf + of_nat i := ucast v, buf + of_nat i + 1 := ucast (drop_bit 8 v))" by simp
  ultimately show ?case using Cons.IH [of ?t "i + 2"] Cons.prems(2) by (simp add: ac_simps fun_upd_def)
qed

lemma in_sectors:
  assumes "serves dev io w d" and "unat sz = 2 * w" and "0 < w"
  shows "d_ok (drv w io d s) \<Longrightarrow> d_in (drv w io d s) = ws @ rest \<Longrightarrow> length ws = n * w \<Longrightarrow> (k + n) * unat sz \<le> 2 ^ 31 \<Longrightarrow>
    \<exists>s'. ata_in_sectors dev io buf sz k n s = (0, s') \<and>
      amem s' = store_bytes (amem s) (buf + of_nat (k * unat sz)) (word_bytes ws) \<and>
      drv w io d s' = (drv w io d s)\<lparr>d_in := rest\<rparr>"
proof (induction n arbitrary: s ws k)
  case 0
  then show ?case by simp
next
  case (Suc n)
  define us vs where "us = take w ws" and "vs = drop w ws"
  have ws: "ws = us @ vs" "length us = w" "length vs = n * w"
    using Suc.prems(3) by (simp_all add: us_def vs_def)
  have "transfer (drv w io d s)" using Suc.prems(2) ws assms(3) by (auto simp: transfer_def)
  then obtain t where t: "ata_wait_ready dev io True s = (0, t)" "amem t = amem s" "drv w io d t = drv w io d s"
    using wait_ready [OF assms(1), of True s] Suc.prems(1) by blast
  let ?u = "ata_in_words dev io buf (of_nat (k * unat sz)) w t"
  have le: "k * unat sz + 2 * length us \<le> 2 ^ 31" using Suc.prems(4) ws assms(2) by (simp add: algebra_simps)
  have u: "amem ?u = store_bytes (amem s) (buf + of_nat (k * unat sz)) (word_bytes us)"
    "drv w io d ?u = (drv w io d s)\<lparr>d_in := vs @ rest\<rparr>"
    using in_words [OF assms(1), of t us "vs @ rest" "k * unat sz" buf] le t ws Suc.prems(2) by simp_all
  have "(of_nat k * ucast sz :: i32) = of_nat (k * unat sz)" by simp
  moreover have "(unat sz + 1) div 2 = w" using assms(2) by simp
  ultimately have "ata_in_sectors dev io buf sz k (Suc n) s = ata_in_sectors dev io buf sz (Suc k) n ?u"
    using t(1) by (simp del: of_nat_mult)
  moreover obtain s' where "ata_in_sectors dev io buf sz (Suc k) n ?u = (0, s')"
    "amem s' = store_bytes (amem ?u) (buf + of_nat (Suc k * unat sz)) (word_bytes vs)"
    "drv w io d s' = (drv w io d ?u)\<lparr>d_in := rest\<rparr>"
    using Suc.IH [of ?u vs "Suc k"] u(2) ws Suc.prems(1,4) by auto
  ultimately show ?case using u ws assms(2)
    by (simp add: store_bytes_append algebra_simps)
qed

section \<open>Commands reach the drive as they were meant\<close>

lemma drive_step_simps [simp]:
  "drive_step w io (Out8 (io + 2) v) d = d\<lparr>r_count := (snd (r_count d), v)\<rparr>"
  "drive_step w io (Out8 (io + 3) v) d = d\<lparr>r_low := (snd (r_low d), v)\<rparr>"
  "drive_step w io (Out8 (io + 4) v) d = d\<lparr>r_mid := (snd (r_mid d), v)\<rparr>"
  "drive_step w io (Out8 (io + 5) v) d = d\<lparr>r_high := (snd (r_high d), v)\<rparr>"
  "drive_step w io (Out8 (io + 6) v) d = d\<lparr>r_head := v\<rparr>"
  "drive_step w io (Out8 (io + 7) v) d = command w v d"
  "drive_step w io (In8 p v) d = d"
  by (simp_all add: drive_step_def)

lemma status_reads_frame [simp]:
  "amem (status_reads dev p n s) = amem s" "drv w io d (status_reads dev p n s) = drv w io d s"
  by (induction n arbitrary: s) (simp_all add: inb_def Let_def emit_def)

lemma command_frame [simp]:
  "amem (ata_command_28 io h lba c cmd s) = amem s"
  "amem (ata_command_48 dev io h lba' c' cmd s) = amem s"
  by (simp_all add: ata_command_28_def ata_command_48_def ata_write_48bit_lba_def Let_def outb_def emit_def)

lemma digit_step: "p = b * c \<Longrightarrow> a mod b + b * (a div b mod c) = a mod (p :: nat)"
  by (simp add: mod_mult2_eq)

lemma digits_256:
  fixes a :: nat
  shows "a mod 2 ^ 8 + 2 ^ 8 * (a div 2 ^ 8 mod 2 ^ 8) = a mod 2 ^ 16"
    and "a mod 2 ^ 16 + 2 ^ 16 * (a div 2 ^ 16 mod 2 ^ 8) = a mod 2 ^ 24"
    and "a mod 2 ^ 24 + 2 ^ 24 * (a div 2 ^ 24 mod 2 ^ 8) = a mod 2 ^ 32"
    and "a mod 2 ^ 32 + 2 ^ 32 * (a div 2 ^ 32 mod 2 ^ 8) = a mod 2 ^ 40"
    and "a mod 2 ^ 40 + 2 ^ 40 * (a div 2 ^ 40 mod 2 ^ 8) = a mod 2 ^ 48"
    and "a mod 2 ^ 24 + 2 ^ 24 * (a div 2 ^ 24 mod 2 ^ 4) = a mod 2 ^ 28"
  by (rule digit_step, simp)+

definition head_of :: "u8 \<Rightarrow> u8" where "head_of drive = snd (ata_get_io_and_head drive)"

lemma head_of_eq: "head_of drive = (if bit drive 0 then 0xF0 else 0xE0)"
  by (simp add: head_of_def ata_get_io_and_head_def Let_def bit_0 and_one_eq odd_iff_mod_2_eq_one)

lemma head_28_unit: "bit (head_28 (head_of drive) lba) 4 = bit drive 0"
proof -
  have "(0x0F :: u32) = mask 4" by (simp add: mask_eq_exp_minus_1)
  then have "\<not> bit (ucast (drop_bit 24 lba AND 0x0F) :: u8) 4" by (simp add: bit_simps)
  moreover have "bit (0xF0 :: u8) 4" "\<not> bit (0xE0 :: u8) 4" by (simp_all add: bit_iff_odd_unat)
  ultimately show ?thesis unfolding head_28_def head_of_eq bit_or_iff by auto
qed

lemma head_48_unit: "bit (head_of drive OR 0x40) 4 = bit drive 0"
  unfolding head_of_eq by (simp add: bit_iff_odd_unat)

lemma head_28_low: "unat (head_28 (head_of drive) lba) mod 16 = unat lba div 2 ^ 24 mod 2 ^ 4"
proof -
  let ?y = "ucast (drop_bit 24 lba AND 0x0F) :: u8"
  have "(0x0F :: u32) = mask 4" by (simp add: mask_eq_exp_minus_1)
  then have y: "?y = ucast (take_bit 4 (drop_bit 24 lba))" by (simp add: take_bit_eq_mask)
  have "take_bit 4 (head_28 (head_of drive) lba) = take_bit 4 ?y"
    unfolding head_28_def head_of_eq by (simp add: take_bit_or)
  then have "take_bit 4 (unat (head_28 (head_of drive) lba)) = take_bit 4 (unat ?y)"
    by (metis unsigned_take_bit_eq)
  also have "\<dots> = unat lba div 2 ^ 24 mod 2 ^ 4"
    unfolding y by (simp add: unsigned_ucast_eq unsigned_take_bit_eq unat_drop_bit take_bit_nat_def mod_mod_cancel)
  finally show ?thesis by (simp add: take_bit_nat_def)
qed

definition regs28 :: "u8 \<Rightarrow> u32 \<Rightarrow> u8 \<Rightarrow> drive \<Rightarrow> drive" where
  "regs28 drive lba c d = d
     \<lparr>r_head := head_28 (head_of drive) lba, r_count := (snd (r_count d), c),
      r_low := (snd (r_low d), ucast (lba AND 0xFF)),
      r_mid := (snd (r_mid d), ucast (drop_bit 8 lba AND 0xFF)),
      r_high := (snd (r_high d), ucast (drop_bit 16 lba AND 0xFF))\<rparr>"

definition regs48 :: "u8 \<Rightarrow> u64 \<Rightarrow> u16 \<Rightarrow> drive \<Rightarrow> drive" where
  "regs48 drive lba c d = d
     \<lparr>r_head := head_of drive OR 0x40, r_count := (ucast (drop_bit 8 c AND 0xFF), ucast (c AND 0xFF)),
      r_low := (ucast (drop_bit 24 lba AND 0xFF), ucast (lba AND 0xFF)),
      r_mid := (ucast (drop_bit 32 lba AND 0xFF), ucast (drop_bit 8 lba AND 0xFF)),
      r_high := (ucast (drop_bit 40 lba AND 0xFF), ucast (drop_bit 16 lba AND 0xFF))\<rparr>"

lemma drv_command_28:
  "drv w io d (ata_command_28 io (head_28 (head_of drive) lba) lba c cmd s) = command w cmd (regs28 drive lba c (drv w io d s))"
  by (simp add: ata_command_28_def Let_def outb_def ata_regs regs28_def)

lemma drv_command_48:
  "drv w io d (ata_command_48 dev io (head_of drive OR 0x40) lba c cmd s) = command w cmd (regs48 drive lba c (drv w io d s))"
  by (simp add: ata_command_48_def ata_write_48bit_lba_def Let_def outb_def ata_regs regs48_def)

lemma lba28_regs: "unat lba < 2 ^ 28 \<Longrightarrow> lba28 (regs28 drive lba c d) = unat lba"
  using digits_256(1,2,6) [of "unat lba"]
  unfolding lba28_def regs28_def low_byte by (simp add: low_byte head_28_low)

lemma lba48_regs: "unat lba < 2 ^ 48 \<Longrightarrow> lba48 (regs48 drive lba c d) = unat lba"
  using digits_256(1-5) [of "unat lba"]
  unfolding lba48_def regs48_def low_byte by (simp add: low_byte)

lemma count_regs:
  "c \<noteq> 0 \<Longrightarrow> count28 (regs28 drive lba c d) = unat c"
  "c' \<noteq> 0 \<Longrightarrow> count48 (regs48 drive lba' c' d) = unat c'"
  using digits_256(1) [of "unat c'"] unat_lt_2p16 [of c'] unat_eq_0 [of c']
  unfolding count48_def count28_def regs48_def regs28_def low_byte by (simp_all add: low_byte Let_def)

lemma unit_regs:
  "bit (r_head (regs28 drive lba c d)) 4 = bit drive 0" "bit (r_head (regs48 drive lba' c' d)) 4 = bit drive 0"
  by (simp_all add: regs28_def regs48_def head_28_unit head_48_unit del: bit_or_iff)

lemma media_regs [simp]: "media (regs28 drive lba c d) = media d" "media (regs48 drive lba' c' d) = media d"
  by (simp_all add: regs28_def regs48_def)

section \<open>Reading\<close>

lemma below_limit: "a + unat (c :: 'a::len word) \<le> b \<Longrightarrow> c \<noteq> 0 \<Longrightarrow> a < b"
  using unat_gt_0 [of c] by linarith

lemma command_28:
  assumes "unat lba + unat c \<le> 2 ^ 28" and "c \<noteq> 0"
  shows "d_in (command w ATA_CMD_READ_SECTORS (regs28 drive lba c d)) = sectors w (media d) (bit drive 0) (unat lba) (unat c)"
    and "d_ok (command w ATA_CMD_READ_SECTORS (regs28 drive lba c d))"
    and "d_out (command w ATA_CMD_WRITE_SECTORS (regs28 drive lba c d)) = Some (bit drive 0, unat lba * w, unat c * w)"
    and "d_ok (command w ATA_CMD_WRITE_SECTORS (regs28 drive lba c d))"
proof -
  have "unat lba < 2 ^ 28" using assms by (rule below_limit)
  then show "d_in (command w ATA_CMD_READ_SECTORS (regs28 drive lba c d)) = sectors w (media d) (bit drive 0) (unat lba) (unat c)"
    and "d_ok (command w ATA_CMD_READ_SECTORS (regs28 drive lba c d))"
    and "d_out (command w ATA_CMD_WRITE_SECTORS (regs28 drive lba c d)) = Some (bit drive 0, unat lba * w, unat c * w)"
    and "d_ok (command w ATA_CMD_WRITE_SECTORS (regs28 drive lba c d))"
    using assms by (simp_all add: command_def Let_def ata_cmds lba28_regs count_regs unit_regs)
qed

lemma command_48:
  assumes "unat lba + unat c \<le> 2 ^ 48" and "c \<noteq> 0"
  shows "d_in (command w ATA_CMD_READ_SECTORS_EXT (regs48 drive lba c d)) = sectors w (media d) (bit drive 0) (unat lba) (unat c)"
    and "d_ok (command w ATA_CMD_READ_SECTORS_EXT (regs48 drive lba c d))"
    and "d_out (command w ATA_CMD_WRITE_SECTORS_EXT (regs48 drive lba c d)) = Some (bit drive 0, unat lba * w, unat c * w)"
    and "d_ok (command w ATA_CMD_WRITE_SECTORS_EXT (regs48 drive lba c d))"
proof -
  have "unat lba < 2 ^ 48" using assms by (rule below_limit)
  then show "d_in (command w ATA_CMD_READ_SECTORS_EXT (regs48 drive lba c d)) = sectors w (media d) (bit drive 0) (unat lba) (unat c)"
    and "d_ok (command w ATA_CMD_READ_SECTORS_EXT (regs48 drive lba c d))"
    and "d_out (command w ATA_CMD_WRITE_SECTORS_EXT (regs48 drive lba c d)) = Some (bit drive 0, unat lba * w, unat c * w)"
    and "d_ok (command w ATA_CMD_WRITE_SECTORS_EXT (regs48 drive lba c d))"
    using assms by (simp_all add: command_def Let_def ata_cmds lba48_regs count_regs unit_regs)
qed

lemma command_flush: "d_ok (command w ATA_CMD_CACHE_FLUSH d)" "d_ok (command w ATA_CMD_CACHE_FLUSH_EXT d)"
  by (simp_all add: command_def Let_def ata_cmds)

lemma command_media [simp]: "media (command w c d) = media d"
  by (simp add: command_def Let_def)

lemma length_sectors [simp]: "length (sectors w md u lba n) = n * w"
  by (simp add: sectors_def algebra_simps)

lemma sectors_add: "sectors w md u lba (n + k) = sectors w md u lba n @ sectors w md u (lba + n) k"
proof -
  have "[lba * w..<(lba + (n + k)) * w] = [lba * w..<(lba + n) * w] @ [(lba + n) * w..<(lba + n + k) * w]"
    using upt_add_eq_append [of "lba * w" "(lba + n) * w" "k * w"] by (simp add: algebra_simps)
  then show ?thesis unfolding sectors_def by simp
qed

lemma sectors_0 [simp]: "sectors w md u lba 0 = []"
  by (simp add: sectors_def)

text \<open>The outcome of a successful read: the sectors in the buffer, the media as it was.\<close>

definition read_done :: "nat \<Rightarrow> u16 \<Rightarrow> drive \<Rightarrow> u64 \<Rightarrow> bool \<Rightarrow> nat \<Rightarrow> nat \<Rightarrow> ata \<Rightarrow> int \<times> ata \<Rightarrow> bool" where
  "read_done w io d buf u lba n s r \<longleftrightarrow> fst r = 0 \<and>
     amem (snd r) = store_bytes (amem s) buf (word_bytes (sectors w (media (drv w io d s)) u lba n)) \<and>
     media (drv w io d (snd r)) = media (drv w io d s) \<and> d_ok (drv w io d (snd r))"

lemma read_after_command:
  assumes "serves dev io w d" and "unat sz = 2 * w" and "0 < w" and "n * unat sz \<le> 2 ^ 31"
    and "amem t = amem s" and "media (drv w io d t) = media (drv w io d s)"
    and "d_in (drv w io d t) = sectors w (media (drv w io d s)) u lba n" and "d_ok (drv w io d t)"
  shows "read_done w io d buf u lba n s (ata_in_sectors dev io buf sz 0 n t)"
  using in_sectors [OF assms(1-3,8), of "sectors w (media (drv w io d s)) u lba n" "[]" n 0 buf] assms(4-8)
  by (auto simp: read_done_def)

lemma read_28:
  assumes srv: "serves dev io w d" and sz: "unat sz = 2 * w" "0 < w" and lba: "unat lba + unat c \<le> 2 ^ 28" "c \<noteq> 0"
    and n: "unat c * unat sz \<le> 2 ^ 31" and ok: "d_ok (drv w io d s)"
  shows "read_done w io d buf (bit drive 0) (unat lba) (unat c) s
    (ata_read_28 dev lba c buf io (head_28 (head_of drive) lba) sz s)"
proof -
  obtain t where t: "ata_wait_ready dev io False s = (0, t)" "amem t = amem s" "drv w io d t = drv w io d s"
    using wait_ready [OF srv, of False s] ok by blast
  show ?thesis unfolding ata_read_28_def t(1) Let_def prod.case
    by (simp, rule read_after_command [OF srv sz n]) (simp_all add: t drv_command_28 command_28 [OF lba])
qed

lemma read_48:
  assumes srv: "serves dev io w d" and sz: "unat sz = 2 * w" "0 < w" and lba: "unat lba + unat c \<le> 2 ^ 48" "c \<noteq> 0"
    and n: "unat c * unat sz \<le> 2 ^ 31" and ok: "d_ok (drv w io d s)"
  shows "read_done w io d buf (bit drive 0) (unat lba) (unat c) s
    (ata_read_48 dev lba c buf io (head_of drive OR 0x40) sz s)"
proof -
  obtain t where t: "ata_wait_ready dev io False s = (0, t)" "amem t = amem s" "drv w io d t = drv w io d s"
    using wait_ready [OF srv, of False s] ok by blast
  show ?thesis unfolding ata_read_48_def t(1) Let_def prod.case
    by (simp, rule read_after_command [OF srv sz n]) (simp_all add: t drv_command_48 command_48 [OF lba])
qed

definition channel :: "u8 \<Rightarrow> u16" where "channel drive = fst (ata_get_io_and_head drive)"

lemma io_and_head: "ata_get_io_and_head drive = (channel drive, head_of drive)"
  by (simp add: head_of_def channel_def)

lemma below_2p28: "(lba :: u64) < push_bit 28 1 \<longleftrightarrow> unat lba < 2 ^ 28"
  by (simp add: word_less_nat_alt push_bit_eq_mult)

lemma not_above_2p28: "unat (lba :: u32) < 2 ^ 28 \<Longrightarrow> \<not> (ucast lba :: u64) \<ge> push_bit 28 1"
  using below_2p28 [of "ucast lba"] by (simp add: unsigned_ucast_eq take_bit_nat_eq_self)

lemma read_sector_28bit:
  assumes "serves dev (channel drive) w d" and "unat sz = 2 * w" "0 < w" and "unat lba + unat c \<le> 2 ^ 28" "c \<noteq> 0"
    and "unat c * unat sz \<le> 2 ^ 31" and "d_ok (drv w (channel drive) d s)"
  shows "read_done w (channel drive) d buf (bit drive 0) (unat lba) (unat c) s
    (ata_read_sector_28bit dev lba c buf drive sz s)"
proof -
  have "unat lba < 2 ^ 28" using assms(4,5) by (rule below_limit)
  then show ?thesis using read_28 [OF assms, of buf] not_above_2p28
    by (simp add: ata_read_sector_28bit_def io_and_head)
qed

lemma read_sector_48bit:
  assumes "serves dev (channel drive) w d" and "unat sz = 2 * w" "0 < w" and "unat lba + unat c \<le> 2 ^ 48" "c \<noteq> 0"
    and "unat c * unat sz \<le> 2 ^ 31" and "d_ok (drv w (channel drive) d s)"
  shows "read_done w (channel drive) d buf (bit drive 0) (unat lba) (unat c) s
    (ata_read_sector_48bit dev lba c buf drive sz s)"
  using read_48 [OF assms] by (simp add: ata_read_sector_48bit_def io_and_head)

text \<open>Two reads of adjacent sectors into adjacent places make one read.\<close>

lemma read_done_append:
  assumes "read_done w io d buf u lba n s r" and "read_done w io d (buf + of_nat (n * (2 * w))) u (lba + n) k (snd r) r'"
  shows "read_done w io d buf u lba (n + k) s r'"
  using assms unfolding read_done_def sectors_add word_bytes_simps store_bytes_append by (simp add: mult.left_commute)

lemma read_done_again:
  assumes "read_done w io d buf u lba n s r" and "read_done w io d buf u lba n (snd r) r'" and "n * (2 * w) \<le> 2 ^ 31"
  shows "read_done w io d buf u lba n s r'"
  using assms by (simp add: read_done_def store_bytes_again)

lemma chunks_read:
  assumes rd: "\<And>l n b s. unat l + unat n \<le> 2 ^ 28 \<Longrightarrow> n \<noteq> 0 \<Longrightarrow> unat n * (2 * w) \<le> 2 ^ 31 \<Longrightarrow>
      d_ok (drv w io d s) \<Longrightarrow> read_done w io d b u (unat l) (unat n) s (read l n b s)"
    and sz: "unat sz = 2 * w" and n: "unat c * (2 * w) \<le> 2 ^ 31" and lba: "unat lba + unat c < 2 ^ 28"
  shows "read_done w io d buf u (unat lba) (unat r) s0 (0, s) \<Longrightarrow> unat r \<le> unat c \<Longrightarrow>
    read_done w io d buf u (unat lba) (unat c) s0 (ata_chunks read lba c buf sz r s)"
proof (induction "unat c - unat r" arbitrary: r s rule: less_induct)
  case less
  note c16 = unat_lt_2p16 [of c]
  have uc: "unat (ucast c :: u32) = unat c" by (rule unat_ucast_16_32)
  show ?case
  proof (cases "unat r < unat c")
    case False
    then have "unat r = unat c" using less.prems(2) by simp
    with less.prems uc show ?thesis by (simp add: ata_chunks.simps [of read] word_less_nat_alt read_done_def)
  next
    case True
    let ?n = "let n = (ucast (ucast c - r) :: u16) in if n > 255 then 255 else n"
    let ?k = "min (unat c - unat r) 255"
    have d: "unat (ucast c - r) = unat c - unat r" using True uc by (simp add: unat_sub_if')
    have "unat (ucast (ucast c - r) :: u16) = unat c - unat r"
      using c16 d by (simp add: unsigned_ucast_eq take_bit_nat_eq_self)
    then have "unat ?n = ?k" by (auto simp: Let_def word_less_nat_alt)
    then have k: "unat (ucast ?n :: u8) = ?k" by (simp add: unsigned_ucast_eq take_bit_nat_eq_self)
    then have k0: "(ucast ?n :: u8) \<noteq> 0" using True by auto
    have r32: "unat r < 2 ^ 16" using True c16 by simp
    have rc: "unat (ucast r :: u64) = unat r" using r32 by (simp add: unsigned_ucast_eq take_bit_nat_eq_self)
    then have l64: "unat (lba + ucast r) = unat lba + unat r" using lba True by (simp add: unat_word_ariths)
    then have l: "unat (ucast (lba + ucast r) :: u32) = unat lba + unat r"
      using lba True by (simp add: unsigned_ucast_eq take_bit_nat_eq_self)
    have kw: "?k * (2 * w) \<le> 2 ^ 31" "unat r * (2 * w) \<le> 2 ^ 31"
      by (rule le_trans [OF mult_le_mono1 n]; use True in simp)+
    have "unat (r * ucast sz) = unat r * (2 * w)" using kw(2) sz
      by (simp add: unat_word_ariths unat_ucast_16_32)
    then have b: "(ucast (r * ucast sz) :: u64) = of_nat (unat r * (2 * w))"
      by (metis of_nat_unat)
    let ?q = "read (ucast (lba + ucast r)) (ucast ?n) (buf + ucast (r * ucast sz)) s"
    have q: "read_done w io d (buf + of_nat (unat r * (2 * w))) u (unat lba + unat r) ?k s ?q"
      using rd [of "ucast (lba + ucast r)" "ucast ?n" s "buf + ucast (r * ucast sz)"] kw(1) lba True k0 less.prems(1)
      unfolding k l b read_done_def [of _ _ _ _ _ _ _ s0] by simp
    have dn: "read_done w io d buf u (unat lba) (unat r + ?k) s0 ?q"
      using read_done_append [OF less.prems(1)] q by simp
    have step: "ata_chunks read lba c buf sz r s = ata_chunks read lba c buf sz (r + 255) (snd ?q)"
      using True q uc by (simp add: ata_chunks.simps [of read lba c buf sz r] word_less_nat_alt Let_def split_beta read_done_def)
    show ?thesis
    proof (cases "unat r + 255 \<le> unat c")
      case True
      then have "unat (r + 255) = unat r + ?k" using r32 by (simp add: unat_word_ariths)
      moreover have "?q = (0, snd ?q)" using q by (simp add: read_done_def prod_eq_iff)
      ultimately show ?thesis using less.hyps [of "r + 255" "snd ?q"] dn \<open>unat r < unat c\<close> True step by simp
    next
      case False
      then have "\<not> r + 255 < ucast c" using r32 uc by (simp add: unat_word_ariths word_less_nat_alt)
      moreover have "unat r + ?k = unat c" using False True by simp
      ultimately show ?thesis using dn step by (simp add: ata_chunks.simps [of read] read_done_def)
    qed
  qed
qed


lemma ucast_small:
  "unat (lba :: u64) < 2 ^ 32 \<Longrightarrow> unat (ucast lba :: u32) = unat lba"
  "unat (c :: u16) \<le> 255 \<Longrightarrow> unat (ucast c :: u8) = unat c"
  by (simp_all add: unsigned_ucast_eq take_bit_nat_eq_self)

lemma read_done_0: "d_ok (drv w io d s) \<Longrightarrow> read_done w io d buf u lba 0 s (0, s)"
  by (simp add: read_done_def)

text \<open>
  A transfer stays inside the disk, and a short one inside the range of the command that serves it.
\<close>

definition in_range :: "u64 \<Rightarrow> u16 \<Rightarrow> bool" where
  "in_range lba c \<longleftrightarrow> c \<noteq> 0 \<and> unat lba + unat c \<le> 2 ^ 48 \<and>
     (unat lba < 2 ^ 28 \<and> unat c \<le> 255 \<longrightarrow> unat lba + unat c \<le> 2 ^ 28)"

lemma short_range:
  assumes "in_range lba c" and "unat lba < 2 ^ 28" and "unat c \<le> 255"
  shows "unat (ucast lba :: u32) = unat lba" "unat (ucast c :: u8) = unat c" "(ucast c :: u8) \<noteq> 0"
    "unat (ucast lba :: u32) + unat (ucast c :: u8) \<le> 2 ^ 28"
proof -
  show u: "unat (ucast lba :: u32) = unat lba" "unat (ucast c :: u8) = unat c"
    using assms ucast_small(1) [of lba] ucast_small(2) [of c] by simp_all
  have "unat c \<noteq> 0" using assms(1) by (simp add: in_range_def unat_eq_0)
  then show "(ucast c :: u8) \<noteq> 0" using u(2) by auto
  show "unat (ucast lba :: u32) + unat (ucast c :: u8) \<le> 2 ^ 28" using assms unfolding u in_range_def by simp
qed

lemma read_sector_auto:
  assumes srv: "serves dev (channel drive) w d" and sz: "unat sz = 2 * w" "0 < w"
    and lba: "in_range lba c" and n: "unat c * unat sz \<le> 2 ^ 31" and ok: "d_ok (drv w (channel drive) d s)"
  shows "read_done w (channel drive) d buf (bit drive 0) (unat lba) (unat c) s (ata_read_sector_auto dev lba c buf drive sz s)"
proof (cases "unat lba < 2 ^ 28 \<and> unat c \<le> 255")
  case True
  then have "ata_read_sector_auto dev lba c buf drive sz s = ata_read_sector_28bit dev (ucast lba) (ucast c) buf drive sz s"
    unfolding ata_read_sector_auto_def below_2p28 by (simp add: word_le_nat_alt)
  with read_sector_28bit [OF srv sz short_range(4,3) [OF lba], of s buf] True n ok short_range(1,2) [OF lba]
  show ?thesis by simp
next
  case False
  have l48: "unat lba + unat c \<le> 2 ^ 48" "c \<noteq> 0" using lba by (simp_all add: in_range_def)
  have "unat (ucast c :: u64) = unat c" using unat_lt_2p16 [of c] by (simp add: unsigned_ucast_eq take_bit_nat_eq_self)
  then have sum: "unat (lba + ucast c) = unat lba + unat c" using l48 unat_lt_2p16 [of c] by (simp add: unat_word_ariths)
  let ?r = "if lba + ucast c < push_bit 28 1
    then ata_chunks (\<lambda>l n b. ata_read_sector_28bit dev l n b drive sz) lba c buf sz 0 s else (0, s)"
  let ?done = "read_done w (channel drive) d buf (bit drive 0) (unat lba) (unat c)"
  have r: "fst ?r = 0 \<and> d_ok (drv w (channel drive) d (snd ?r)) \<and> (?done s ?r \<or> snd ?r = s)"
  proof (cases "lba + ucast c < push_bit 28 1")
    case True
    then have "unat lba + unat c < 2 ^ 28" unfolding below_2p28 sum .
    then have "?done s (ata_chunks (\<lambda>l n b. ata_read_sector_28bit dev l n b drive sz) lba c buf sz 0 s)"
      using n sz ok by (intro chunks_read read_sector_28bit [OF srv sz]) (simp_all add: read_done_0)
    with True show ?thesis by (simp add: read_done_def)
  qed (use ok in simp)
  have e: "ata_read_sector_auto dev lba c buf drive sz s = ata_read_sector_48bit dev lba c buf drive sz (snd ?r)"
    using False r unfolding ata_read_sector_auto_def below_2p28 [of lba] by (auto simp: word_le_nat_alt split_beta)
  have again: "?done (snd ?r) (ata_read_sector_48bit dev lba c buf drive sz (snd ?r))"
    using r by (intro read_sector_48bit [OF srv sz l48 n]) simp
  show ?thesis unfolding e
  proof (cases "?done s ?r")
    case True
    then show "?done s (ata_read_sector_48bit dev lba c buf drive sz (snd ?r))"
      using read_done_again [OF True again] n sz by simp
  next
    case False
    then have "snd ?r = s" using r by blast
    with again show "?done s (ata_read_sector_48bit dev lba c buf drive sz (snd ?r))" by simp
  qed
qed

section \<open>Writing\<close>

definition media_store :: "bool \<Rightarrow> nat \<Rightarrow> u16 list \<Rightarrow> (bool \<Rightarrow> nat \<Rightarrow> u16) \<Rightarrow> bool \<Rightarrow> nat \<Rightarrow> u16" where
  "media_store u a ws md = md(u := \<lambda>x. if a \<le> x \<and> x < a + length ws then ws ! (x - a) else md u x)"

lemma media_store_Nil [simp]: "media_store u a [] md = md"
  by (intro ext) (auto simp add: media_store_def)

lemma media_store_Cons: "media_store u a (v # ws) md = media_store u (a + 1) ws (md(u := (md u)(a := v)))"
  by (intro ext) (auto simp: media_store_def nth_Cons')

lemma media_store_append: "media_store u a (ws @ vs) md = media_store u (a + length ws) vs (media_store u a ws md)"
  by (induction ws arbitrary: a md) (simp_all add: media_store_Cons)

lemma sectors_media_store: "length ws = n * w \<Longrightarrow> sectors w (media_store u (lba * w) ws md) u lba n = ws"
  by (rule nth_equalityI) (simp_all add: sectors_def media_store_def algebra_simps)

lemma out_words:
  "d_out (drv w io d s) = Some (u, a, N) \<Longrightarrow> n \<le> N \<Longrightarrow> i + 2 * n \<le> 2 ^ 31 \<Longrightarrow>
    amem (ata_out_words io buf (of_nat i) n s) = amem s \<and>
    media (drv w io d (ata_out_words io buf (of_nat i) n s)) =
      media_store u a (words_at (amem s) (buf + of_nat i) n) (media (drv w io d s)) \<and>
    d_ok (drv w io d (ata_out_words io buf (of_nat i) n s)) = d_ok (drv w io d s) \<and>
    (n < N \<longrightarrow> d_out (drv w io d (ata_out_words io buf (of_nat i) n s)) = Some (u, a + n, N - n))"
proof (induction n arbitrary: s i a N)
  case (Suc n)
  let ?v = "read16 (amem s) (buf + of_nat i)"
  let ?t = "emit (Out16 io ?v) s"
  have v: "?v = ucast (amem s (buf + of_nat i)) OR push_bit 8 (ucast (amem s (buf + of_nat i + 1)))"
    by (simp add: read16_def numeral_2_eq_2)
  have "(scast (of_nat i + 1 :: i32) :: u64) = of_nat i + 1"
    using scast_of_nat [of "Suc i"] Suc.prems(3) by (simp add: ac_simps)
  then have e: "ata_out_words io buf (of_nat i) (Suc n) s = ata_out_words io buf (of_nat (i + 2)) n ?t"
    using Suc.prems(3) by (simp add: v outw_def ATA_REG_DATA_def scast_of_nat ac_simps)
  have m: "media (drive_step w io (Out16 io ?v) (drv w io d s)) = (media (drv w io d s))(u := (media (drv w io d s) u)(a := ?v))"
    using Suc.prems(1) by (simp add: drive_step_def store_word_def)
  have o: "d_ok (drive_step w io (Out16 io ?v) (drv w io d s)) = d_ok (drv w io d s)"
    using Suc.prems(1) by (simp add: drive_step_def store_word_def)
  have t: "amem ?t = amem s" "media (drv w io d ?t) = (media (drv w io d s))(u := (media (drv w io d s) u)(a := ?v))"
    "1 < N \<Longrightarrow> d_out (drv w io d ?t) = Some (u, a + 1, N - 1)"
    using Suc.prems(1) by (simp_all add: drive_step_def store_word_def emit_def)
  show ?case
  proof (cases "n = 0")
    case True
    then show ?thesis using t o unfolding e by (simp add: media_store_Cons)
  next
    case False
    then have "d_out (drv w io d ?t) = Some (u, a + 1, N - 1)" "n \<le> N - 1" using Suc.prems(2) t(3) by simp_all
    from Suc.IH [OF this, of "i + 2"] Suc.prems(3) show ?thesis unfolding e
      by (auto simp add: t(1) m o media_store_Cons ac_simps fun_upd_def)
  qed
qed simp

lemma out_sectors:
  assumes "serves dev io w d" and "unat sz = 2 * w" and "0 < w"
  shows "d_ok (drv w io d s) \<Longrightarrow> d_out (drv w io d s) = Some (u, a, n * w) \<Longrightarrow> (k + n) * unat sz \<le> 2 ^ 31 \<Longrightarrow>
    \<exists>s'. ata_out_sectors dev io buf sz k n s = (0, s') \<and> amem s' = amem s \<and>
      media (drv w io d s') = media_store u a (words_at (amem s) (buf + of_nat (k * unat sz)) (n * w)) (media (drv w io d s))"
proof (induction n arbitrary: s k a)
  case (Suc n)
  have "transfer (drv w io d s)" using Suc.prems(2) by (simp add: transfer_def)
  then obtain t where t: "ata_wait_ready dev io True s = (0, t)" "amem t = amem s" "drv w io d t = drv w io d s"
    using wait_ready [OF assms(1), of True s] Suc.prems(1) by blast
  let ?v = "ata_out_words io buf (of_nat (k * unat sz)) w t"
  have le: "k * unat sz + 2 * w \<le> 2 ^ 31" using Suc.prems(3) assms(2) by (simp add: algebra_simps)
  have v: "amem ?v = amem s" "d_ok (drv w io d ?v)"
    "media (drv w io d ?v) = media_store u a (words_at (amem s) (buf + of_nat (k * unat sz)) w) (media (drv w io d s))"
    "0 < n \<Longrightarrow> d_out (drv w io d ?v) = Some (u, a + w, n * w)"
    using out_words [of w io d t u a "Suc n * w" w "k * unat sz" buf] le t Suc.prems(1,2) assms(3) by simp_all
  have "(of_nat k * ucast sz :: i32) = of_nat (k * unat sz)" by simp
  moreover have "(unat sz + 1) div 2 = w" using assms(2) by simp
  ultimately have e: "ata_out_sectors dev io buf sz k (Suc n) s = ata_out_sectors dev io buf sz (Suc k) n ?v"
    using t(1) by (simp del: of_nat_mult)
  have add: "words_at (amem s) (buf + of_nat (k * unat sz)) (Suc n * w) =
      words_at (amem s) (buf + of_nat (k * unat sz)) w @ words_at (amem s) (buf + of_nat (Suc k * unat sz)) (n * w)"
    using words_at_add [of "amem s" "buf + of_nat (k * unat sz)" w "n * w"] assms(2) by (simp add: ac_simps)
  show ?case
  proof (cases "n = 0")
    case True
    then show ?thesis unfolding e using v(1,3) by (simp del: of_nat_mult)
  next
    case False
    then show ?thesis using Suc.IH [of ?v "a + w" "Suc k"] Suc.prems(3) v unfolding e add media_store_append by simp
  qed
qed simp

lemma flush_frame:
  assumes "serves dev io w d" and "\<And>d. d_ok (command w cmd d)"
  shows "\<exists>s'. ata_flush dev cmd io h s = (0, s') \<and> amem s' = amem s \<and> media (drv w io d s') = media (drv w io d s) \<and>
    d_ok (drv w io d s')"
proof -
  let ?t = "outb (io + ATA_REG_COMMAND) cmd (status_reads dev (io + ATA_REG_STATUS) 4 (outb (io + ATA_REG_DRIVE_HEAD) h s))"
  have "amem ?t = amem s" "media (drv w io d ?t) = media (drv w io d s)" "d_ok (drv w io d ?t)"
    using assms(2) by (simp_all add: outb_def ata_regs emit_def)
  moreover from this(3) obtain s' where "ata_wait_ready dev io False ?t = (0, s')" "amem s' = amem ?t" "drv w io d s' = drv w io d ?t"
    using wait_ready [OF assms(1), of False ?t] by blast
  ultimately show ?thesis unfolding ata_flush_def by simp
qed

text \<open>The outcome of a successful write: the bytes of the buffer on the addressed sectors.\<close>

definition write_done :: "nat \<Rightarrow> u16 \<Rightarrow> drive \<Rightarrow> u64 \<Rightarrow> bool \<Rightarrow> nat \<Rightarrow> nat \<Rightarrow> ata \<Rightarrow> int \<times> ata \<Rightarrow> bool" where
  "write_done w io d buf u lba n s r \<longleftrightarrow> fst r = 0 \<and> amem (snd r) = amem s \<and>
     media (drv w io d (snd r)) = media_store u (lba * w) (words_at (amem s) buf (n * w)) (media (drv w io d s)) \<and>
     d_ok (drv w io d (snd r))"

lemma write_after_command:
  assumes srv: "serves dev io w d" and sz: "unat sz = 2 * w" "0 < w" and n: "n * unat sz \<le> 2 ^ 31"
    and t: "amem t = amem s" "media (drv w io d t) = media (drv w io d s)"
    and "d_ok (drv w io d t)" "d_out (drv w io d t) = Some (u, lba * w, n * w)" and "\<And>d. d_ok (command w cmd d)"
  shows "write_done w io d buf u lba n s
    (case ata_out_sectors dev io buf sz 0 n t of (r, s) \<Rightarrow> if r \<noteq> 0 then (r, s) else ata_flush dev cmd io h s)"
proof -
  obtain s1 where s1: "ata_out_sectors dev io buf sz 0 n t = (0, s1)" "amem s1 = amem s"
    "media (drv w io d s1) = media_store u (lba * w) (words_at (amem s) buf (n * w)) (media (drv w io d s))"
    using out_sectors [OF srv sz assms(7,8), of 0 buf] n t by auto
  obtain s2 where "ata_flush dev cmd io h s1 = (0, s2)" "amem s2 = amem s1" "media (drv w io d s2) = media (drv w io d s1)"
    "d_ok (drv w io d s2)"
    using flush_frame [OF srv assms(9)] by blast
  with s1 show ?thesis by (simp add: write_done_def)
qed

lemma write_28:
  assumes srv: "serves dev (channel drive) w d" and sz: "unat sz = 2 * w" "0 < w" and lba: "unat lba + unat c \<le> 2 ^ 28" "c \<noteq> 0"
    and n: "unat c * unat sz \<le> 2 ^ 31" and ok: "d_ok (drv w (channel drive) d s)"
  shows "write_done w (channel drive) d buf (bit drive 0) (unat lba) (unat c) s (ata_write_sector_28bit dev lba c buf drive sz s)"
proof -
  have l: "unat lba < 2 ^ 28" using lba by (rule below_limit)
  obtain t where t: "ata_wait_ready dev (channel drive) False s = (0, t)" "amem t = amem s"
    "drv w (channel drive) d t = drv w (channel drive) d s"
    using wait_ready [OF srv, of False s] ok by blast
  show ?thesis unfolding ata_write_sector_28bit_def io_and_head Let_def prod.case t(1) if_not_P [OF not_above_2p28 [OF l]]
      ata_flush_cache_def
    by (simp only: simp_thms if_False, rule write_after_command [OF srv sz n])
      (simp_all add: t drv_command_28 command_28 [OF lba] command_flush)
qed

lemma write_48:
  assumes srv: "serves dev (channel drive) w d" and sz: "unat sz = 2 * w" "0 < w" and lba: "unat lba + unat c \<le> 2 ^ 48" "c \<noteq> 0"
    and n: "unat c * unat sz \<le> 2 ^ 31" and ok: "d_ok (drv w (channel drive) d s)"
  shows "write_done w (channel drive) d buf (bit drive 0) (unat lba) (unat c) s (ata_write_sector_48bit dev lba c buf drive sz s)"
proof -
  obtain t where t: "ata_wait_ready dev (channel drive) False s = (0, t)" "amem t = amem s"
    "drv w (channel drive) d t = drv w (channel drive) d s"
    using wait_ready [OF srv, of False s] ok by blast
  show ?thesis unfolding ata_write_sector_48bit_def io_and_head Let_def prod.case t(1) ata_flush_cache_ext_def
    by (simp only: simp_thms if_False, rule write_after_command [OF srv sz n])
      (simp_all add: t drv_command_48 command_48 [OF lba] command_flush)
qed

lemma write_sector_auto:
  assumes srv: "serves dev (channel drive) w d" and sz: "unat sz = 2 * w" "0 < w"
    and lba: "in_range lba c" and n: "unat c * unat sz \<le> 2 ^ 31" and ok: "d_ok (drv w (channel drive) d s)"
  shows "write_done w (channel drive) d buf (bit drive 0) (unat lba) (unat c) s (ata_write_sector_auto dev lba c buf drive sz s)"
proof (cases "unat lba < 2 ^ 28 \<and> unat c \<le> 255")
  case True
  then have "ata_write_sector_auto dev lba c buf drive sz s = ata_write_sector_28bit dev (ucast lba) (ucast c) buf drive sz s"
    unfolding ata_write_sector_auto_def below_2p28 by (simp add: word_le_nat_alt)
  with write_28 [OF srv sz short_range(4,3) [OF lba], of s buf] True n ok short_range(1,2) [OF lba]
  show ?thesis by simp
next
  case False
  then have "ata_write_sector_auto dev lba c buf drive sz s = ata_write_sector_48bit dev lba c buf drive sz s"
    unfolding ata_write_sector_auto_def below_2p28 by (auto simp: word_le_nat_alt)
  with write_48 [OF srv sz _ _ n ok, of lba buf] lba show ?thesis by (simp add: in_range_def)
qed

section \<open>Properties\<close>

text \<open>
  C7. What is written to a disk is read back. On a drive that serves the channel, a write of \<open>c\<close>
  sectors from \<open>src\<close> succeeds and leaves memory alone, a following read of the same sectors into
  \<open>dst\<close> succeeds and makes \<open>dst\<close> a copy of what \<open>src\<close> held, and the rest of the media, the other
  unit included, keeps its contents. This holds for every address and length, whichever of the
  28-bit, chunked and 48-bit paths the two functions choose, as long as a buffer offset fits the
  \<open>int\<close> it is computed in and a short transfer does not cross the 28-bit limit.
\<close>

theorem ata_disk_round_trip:
  assumes "serves dev (channel drive) w d" and "unat sz = 2 * w" and "0 < w" and "in_range lba c"
    and "unat c * unat sz \<le> 2 ^ 31" and "d_ok (drv w (channel drive) d s)"
  shows "\<exists>s1 s2. ata_write_sector_auto dev lba c src drive sz s = (0, s1) \<and> amem s1 = amem s \<and>
    ata_read_sector_auto dev lba c dst drive sz s1 = (0, s2) \<and>
    amem s2 = store_bytes (amem s) dst (bytes_at (amem s) src (unat c * unat sz)) \<and>
    (\<forall>u x. u \<noteq> bit drive 0 \<or> x < unat lba * w \<or> (unat lba + unat c) * w \<le> x \<longrightarrow>
      media (drv w (channel drive) d s2) u x = media (drv w (channel drive) d s) u x)"
proof -
  let ?io = "channel drive" let ?u = "bit drive 0"
  obtain s1 where s1: "ata_write_sector_auto dev lba c src drive sz s = (0, s1)" "amem s1 = amem s"
    "media (drv w ?io d s1) = media_store ?u (unat lba * w) (words_at (amem s) src (unat c * w)) (media (drv w ?io d s))"
    "d_ok (drv w ?io d s1)"
    using write_sector_auto [OF assms, of src] unfolding write_done_def by (metis prod.collapse)
  obtain s2 where s2: "ata_read_sector_auto dev lba c dst drive sz s1 = (0, s2)"
    "amem s2 = store_bytes (amem s1) dst (word_bytes (sectors w (media (drv w ?io d s1)) ?u (unat lba) (unat c)))"
    "media (drv w ?io d s2) = media (drv w ?io d s1)"
    using read_sector_auto [OF assms(1-5) s1(4), of dst] unfolding read_done_def by (metis prod.collapse)
  have "amem s2 = store_bytes (amem s) dst (bytes_at (amem s) src (unat c * unat sz))"
    using s1 s2 assms(2) by (simp add: sectors_media_store word_bytes_words_at mult.left_commute)
  moreover have "media (drv w ?io d s2) u x = media (drv w ?io d s) u x"
    if "u \<noteq> ?u \<or> x < unat lba * w \<or> (unat lba + unat c) * w \<le> x" for u x
    using that unfolding s2(3) s1(3) media_store_def by (auto simp: algebra_simps)
  ultimately show ?thesis using s1 s2 by blast
qed

definition ideal_drive :: "u16 \<Rightarrow> nat \<Rightarrow> drive \<Rightarrow> device" where
  "ideal_drive io w d =
    \<lparr>port8 = \<lambda>tr p. if transfer (drive_after w io d tr) then 0x58 else 0x50,
     port16 = \<lambda>tr p. if d_in (drive_after w io d tr) = [] then 0 else hd (d_in (drive_after w io d tr)),
     port32 = \<lambda>tr p. 0, mmio32 = \<lambda>tr a. 0, msr = \<lambda>tr r. 0, cr4 = \<lambda>tr. 0\<rparr>"

lemma ideal_drive_serves: "serves (ideal_drive io w d) io w d"
  unfolding serves_def by (auto simp: ideal_drive_def ready_def intro!: exI [of _ 0])

definition blank_drive :: drive where
  "blank_drive = \<lparr>r_count = (0, 0), r_low = (0, 0), r_mid = (0, 0), r_high = (0, 0), r_head = 0, d_in = [], d_out = None,
     d_ok = True, media = \<lambda>u x. 0\<rparr>"

theorem ata_disk_round_trip_witness:
  "\<exists>s1 s2. ata_write_sector_auto (ideal_drive 0x1F0 256 blank_drive) 0x0FFFFFF0 300 0x1000 1 512
      \<lparr>trace = [], ata_status = 0, ata_error = 0, amem = \<lambda>x. ucast x\<rparr> = (0, s1) \<and>
    ata_read_sector_auto (ideal_drive 0x1F0 256 blank_drive) 0x0FFFFFF0 300 0x100000 1 512 s1 = (0, s2) \<and>
    amem s2 = store_bytes (\<lambda>x. ucast x) 0x100000 (bytes_at (\<lambda>x. ucast x) 0x1000 (300 * 512)) \<and>
    media (drv 256 0x1F0 blank_drive s2) False 7 = 0"
proof -
  let ?s = "\<lparr>trace = [], ata_status = 0, ata_error = 0, amem = \<lambda>x. ucast x\<rparr> :: ata"
  have ch: "channel 1 = 0x1F0" "bit (1 :: u8) 0" by (simp_all add: channel_def ata_get_io_and_head_def ATA_PRIMARY_IO_def)
  have ok: "d_ok (drv 256 (channel 1) blank_drive ?s)" by (simp add: blank_drive_def)
  have rg: "in_range 0x0FFFFFF0 300" by (simp add: in_range_def)
  have "\<exists>s1 s2. ata_write_sector_auto (ideal_drive (channel 1) 256 blank_drive) 0x0FFFFFF0 300 0x1000 1 512 ?s = (0, s1) \<and> amem s1 = amem ?s \<and>
      ata_read_sector_auto (ideal_drive (channel 1) 256 blank_drive) 0x0FFFFFF0 300 0x100000 1 512 s1 = (0, s2) \<and>
      amem s2 = store_bytes (amem ?s) 0x100000 (bytes_at (amem ?s) 0x1000 (unat (300 :: u16) * unat (512 :: u16))) \<and>
      (\<forall>u x. u \<noteq> bit (1 :: u8) 0 \<or> x < unat (0x0FFFFFF0 :: u64) * 256 \<or> (unat (0x0FFFFFF0 :: u64) + unat (300 :: u16)) * 256 \<le> x \<longrightarrow>
        media (drv 256 (channel 1) blank_drive s2) u x = media (drv 256 (channel 1) blank_drive ?s) u x)"
    by (rule ata_disk_round_trip [OF ideal_drive_serves _ _ rg _ ok]) simp_all
  then obtain s1 s2 where "ata_write_sector_auto (ideal_drive (channel 1) 256 blank_drive) 0x0FFFFFF0 300 0x1000 1 512 ?s = (0, s1)"
      "ata_read_sector_auto (ideal_drive (channel 1) 256 blank_drive) 0x0FFFFFF0 300 0x100000 1 512 s1 = (0, s2)"
      "amem s2 = store_bytes (amem ?s) 0x100000 (bytes_at (amem ?s) 0x1000 (unat (300 :: u16) * unat (512 :: u16)))"
      "media (drv 256 (channel 1) blank_drive s2) False 7 = media (drv 256 (channel 1) blank_drive ?s) False 7"
    using ch(2) by blast
  moreover have "media (drv 256 (channel 1) blank_drive ?s) False 7 = 0" by (simp add: blank_drive_def)
  moreover have "unat (300 :: u16) * unat (512 :: u16) = 300 * 512" by simp
  ultimately show ?thesis unfolding ch(1) by (metis ata.select_convs(3))
qed

end
