(* ===== verification/Atapi.thy ===== *)
theory Atapi
  imports AtaSpec KMath
begin

text \<open>
  The packet driver for optical drives (\<open>drivers/storage/atapi.c\<close>, \<open>includes/scsi.h\<close>). A packet command
  announces a byte count, hands over a twelve-byte command block and then transfers data. The
  driver's state is that of \<open>Ata\<close>; the variables \<open>atapi_status\<close> and \<open>atapi_error\<close> are never used.
\<close>

section \<open>Command blocks\<close>

definition ATAPI_CMD_PACKET :: u8 where "ATAPI_CMD_PACKET = 0xA0"
definition ATAPI_CMD_IDENTIFY :: u8 where "ATAPI_CMD_IDENTIFY = 0xA1"
definition ATA_REG_FEATURES :: u16 where "ATA_REG_FEATURES = 1"

text \<open>The builders clear the front of the array they are given and fill in their fields.\<close>

definition build_read_capacity_atapi_cmd :: "u8 list \<Rightarrow> u8 list" where
  "build_read_capacity_atapi_cmd cmd = (replicate 10 0 @ drop 10 cmd)[0 := 0x25]"

definition build_read10_atapi_cmd :: "u8 list \<Rightarrow> u32 \<Rightarrow> u16 \<Rightarrow> u8 list" where
  "build_read10_atapi_cmd cmd lba sector_count = (replicate 12 0 @ drop 12 cmd)
    [0 := 0x28, 2 := ucast (drop_bit 24 lba AND 0xFF), 3 := ucast (drop_bit 16 lba AND 0xFF), 4 := ucast (drop_bit 8 lba AND 0xFF),
     5 := ucast (lba AND 0xFF), 7 := ucast (drop_bit 8 sector_count AND 0xFF), 8 := ucast (sector_count AND 0xFF)]"

text \<open>String output reads the array as little-endian words.\<close>

fun packet_words :: "u8 list \<Rightarrow> u16 list" where
  "packet_words (a # b # bs) = (ucast a OR push_bit 8 (ucast b)) # packet_words bs"
| "packet_words _ = []"

section \<open>Packet commands\<close>

definition packet_setup :: "device \<Rightarrow> u16 \<Rightarrow> u8 \<Rightarrow> u8 \<Rightarrow> u8 \<Rightarrow> ata \<Rightarrow> int \<times> ata" where
  "packet_setup dev io_base drive_head lo hi s =
    (let s = outb (io_base + ATA_REG_DRIVE_HEAD) drive_head s;
         (r, s) = ata_wait_ready dev io_base False s
     in if r \<noteq> 0 then (- 1, s) else
     let s = outb (io_base + ATA_REG_FEATURES) 0 s;
         s = outb (io_base + ATA_REG_SECCOUNT) 0 s;
         s = outb (io_base + ATA_REG_LBA_LOW) 0 s;
         s = outb (io_base + ATA_REG_LBA_MID) lo s;
         s = outb (io_base + ATA_REG_LBA_HIGH) hi s;
         s = outb (io_base + ATA_REG_COMMAND) ATAPI_CMD_PACKET s;
         (r, s) = ata_wait_ready dev io_base True s
     in if r \<noteq> 0 then
          (let (v, s) = inb dev (io_base + ATA_REG_STATUS) s;
               s = s\<lparr>ata_status := v\<rparr>;
               (e, s) = inb dev (io_base + ATA_REG_ERROR) s
           in (- 2, s\<lparr>ata_error := e\<rparr>))
        else (0, s))"

text \<open>The data loop stores words at the index \<open>idx\<close> of an array of 16-bit words.\<close>

primrec atapi_in_words :: "device \<Rightarrow> u16 \<Rightarrow> u64 \<Rightarrow> u32 \<Rightarrow> nat \<Rightarrow> ata \<Rightarrow> ata" where
  "atapi_in_words dev io_base buf idx 0 s = s"
| "atapi_in_words dev io_base buf idx (Suc n) s =
    (let (w, s) = inw dev (io_base + ATA_REG_DATA) s in
     atapi_in_words dev io_base buf (idx + 1) n (s\<lparr>amem := write16 (amem s) (buf + 2 * ucast idx) w\<rparr>))"

primrec atapi_in_sectors :: "device \<Rightarrow> u16 \<Rightarrow> u64 \<Rightarrow> u32 \<Rightarrow> nat \<Rightarrow> nat \<Rightarrow> ata \<Rightarrow> int \<times> ata" where
  "atapi_in_sectors dev io_base buf sector_size k 0 s = (0, s)"
| "atapi_in_sectors dev io_base buf sector_size k (Suc n) s =
    (let (r, s) = ata_wait_ready dev io_base True s in
     if r \<noteq> 0 then (- 3, s)
     else atapi_in_sectors dev io_base buf sector_size (Suc k) n
       (atapi_in_words dev io_base buf (of_nat k * (sector_size div 2)) (unat (sector_size div 2)) s))"

definition atapi_read :: "device \<Rightarrow> u32 \<Rightarrow> u16 \<Rightarrow> u64 \<Rightarrow> u16 \<Rightarrow> u8 \<Rightarrow> u32 \<Rightarrow> ata \<Rightarrow> int \<times> ata" where
  "atapi_read dev lba sector_count buffer io_base drive_head sector_size s =
    (let (r, s) = packet_setup dev io_base drive_head 0 8 s in
     if r \<noteq> 0 then (r, s)
     else let s = outsw (io_base + ATA_REG_DATA) (packet_words (build_read10_atapi_cmd (replicate 12 0) lba sector_count)) s
          in atapi_in_sectors dev io_base buffer sector_size 0 (unat sector_count) s)"

definition atapi_read_sector :: "device \<Rightarrow> u32 \<Rightarrow> u16 \<Rightarrow> u64 \<Rightarrow> u8 \<Rightarrow> u32 \<Rightarrow> ata \<Rightarrow> int \<times> ata" where
  "atapi_read_sector dev lba sector_count buffer drive sector_size s =
    (let (io_base, drive_head) = ata_get_io_and_head drive
     in atapi_read dev lba sector_count buffer io_base drive_head sector_size s)"

definition atapi_read_sector_manual :: "device \<Rightarrow> u32 \<Rightarrow> u16 \<Rightarrow> u64 \<Rightarrow> u8 \<Rightarrow> u16 \<Rightarrow> u32 \<Rightarrow> ata \<Rightarrow> int \<times> ata" where
  "atapi_read_sector_manual dev lba sector_count buffer drive pmio_base sector_size s =
    (let (_, drive_head) = ata_get_io_and_head drive
     in atapi_read dev lba sector_count buffer pmio_base drive_head sector_size s)"

section \<open>Identification\<close>

definition ata_io_wait :: "device \<Rightarrow> u16 \<Rightarrow> ata \<Rightarrow> ata" where
  "ata_io_wait dev io_base s = status_reads dev (io_base + 0x206) 4 s"

definition identify_packet :: "device \<Rightarrow> u16 \<Rightarrow> u8 \<Rightarrow> ata \<Rightarrow> (int \<times> u16 list) \<times> ata" where
  "identify_packet dev io_base drive_head s =
    (let s = outb (io_base + ATA_REG_DRIVE_HEAD) drive_head s;
         s = ata_io_wait dev io_base s;
         s = outb (io_base + ATA_REG_FEATURES) 0 s;
         s = outb (io_base + ATA_REG_SECCOUNT) 0 s;
         s = outb (io_base + ATA_REG_LBA_LOW) 0 s;
         s = outb (io_base + ATA_REG_LBA_MID) 0 s;
         s = outb (io_base + ATA_REG_LBA_HIGH) 0 s;
         s = outb (io_base + ATA_REG_COMMAND) ATAPI_CMD_IDENTIFY s;
         (r, s) = ata_wait_ready dev io_base True s
     in if r \<noteq> 0 then ((- 1, []), s) else
     let (identify_data, s) = insw dev (io_base + ATA_REG_DATA) 256 s
     in ((0, identify_data), s))"

definition identify_atapi :: "device \<Rightarrow> u8 \<Rightarrow> ata \<Rightarrow> (int \<times> u16 list) \<times> ata" where
  "identify_atapi dev drive s =
    (let (io_base, drive_head) = ata_get_io_and_head drive in identify_packet dev io_base drive_head s)"

definition identify_atapi_manual :: "device \<Rightarrow> u8 \<Rightarrow> u16 \<Rightarrow> ata \<Rightarrow> (int \<times> u16 list) \<times> ata" where
  "identify_atapi_manual dev drive pmio_base s =
    (let (_, drive_head) = ata_get_io_and_head drive in identify_packet dev pmio_base drive_head s)"

text \<open>
  The capacity command. The structure \<open>read10_capabillity_buffer_t\<close> is eight bytes, the last address and
  then the sector size; both are turned from big-endian in place.
\<close>

definition read_capacity :: "device \<Rightarrow> bool \<Rightarrow> u64 \<Rightarrow> u16 \<Rightarrow> u8 \<Rightarrow> ata \<Rightarrow> int \<times> ata" where
  "read_capacity dev waits buffer io_base drive_head s =
    (let (r, s) = packet_setup dev io_base drive_head 8 0 s in
     if r \<noteq> 0 then (r, s) else
     let s = outsw (io_base + ATA_REG_DATA) (packet_words (build_read_capacity_atapi_cmd (replicate 12 0))) s;
         (r, s) = (if waits then ata_wait_ready dev io_base True s else (0, s))
     in if r \<noteq> 0 then (- 3, s) else
     let s = atapi_in_words dev io_base buffer 0 4 s;
         s = s\<lparr>amem := write32 (amem s) (buffer + 4) (be32toh (read32 (amem s) (buffer + 4)))\<rparr>;
         s = s\<lparr>amem := write32 (amem s) buffer (be32toh (read32 (amem s) buffer))\<rparr>
     in (0, s))"

definition identify_atapi_useful :: "device \<Rightarrow> u64 \<Rightarrow> u8 \<Rightarrow> ata \<Rightarrow> int \<times> ata" where
  "identify_atapi_useful dev buffer drive s =
    (let (io_base, drive_head) = ata_get_io_and_head drive in read_capacity dev True buffer io_base drive_head s)"

definition identify_atapi_useful_manual :: "device \<Rightarrow> u64 \<Rightarrow> u8 \<Rightarrow> u16 \<Rightarrow> ata \<Rightarrow> int \<times> ata" where
  "identify_atapi_useful_manual dev buffer drive pmio_base s =
    (let (_, drive_head) = ata_get_io_and_head drive in read_capacity dev False buffer pmio_base drive_head s)"

section \<open>The reference optical drive\<close>

text \<open>
  A packet device collects six words after the packet command and then executes the block. A data
  transfer is prescribed when the announced byte count is one block of the data.
\<close>

record cd =
  c_mid :: u8
  c_high :: u8
  c_pkt :: "u16 list option"
  c_in :: "u16 list"
  c_ok :: bool

record disc =
  d_words :: nat
  d_data :: "nat \<Rightarrow> u16"
  d_last :: u32

definition be_nat :: "u8 list \<Rightarrow> nat" where
  "be_nat bs = foldl (\<lambda>n b. 256 * n + unat b) 0 bs"

definition capacity_words :: "disc \<Rightarrow> u16 list" where
  "capacity_words dc = packet_words (rev (le_split 4 (d_last dc)) @ rev (le_split 4 (of_nat (2 * d_words dc) :: u32)))"

definition execute_packet :: "disc \<Rightarrow> u16 list \<Rightarrow> cd \<Rightarrow> cd" where
  "execute_packet dc ws c =
    (let b = word_bytes ws; limit = unat (c_mid c) + 256 * unat (c_high c); c = c\<lparr>c_pkt := None\<rparr>;
         lba = be_nat [b ! 2, b ! 3, b ! 4, b ! 5]; n = be_nat [b ! 7, b ! 8] in
     if b ! 0 = 0x28 \<and> limit = 2 * d_words dc then c\<lparr>c_in := map (d_data dc) [lba * d_words dc..<(lba + n) * d_words dc]\<rparr>
     else if b ! 0 = 0x25 \<and> limit = 8 then c\<lparr>c_in := capacity_words dc\<rparr>
     else c\<lparr>c_ok := False\<rparr>)"

definition cd_step :: "disc \<Rightarrow> u16 \<Rightarrow> io \<Rightarrow> cd \<Rightarrow> cd" where
  "cd_step dc io e c = (case e of
     Out8 p v \<Rightarrow>
       if p = io + 4 then c\<lparr>c_mid := v\<rparr>
       else if p = io + 5 then c\<lparr>c_high := v\<rparr>
       else if p = io + 7 then c\<lparr>c_pkt := if v = ATAPI_CMD_PACKET then Some [] else None, c_in := [], c_ok := v = ATAPI_CMD_PACKET\<rparr>
       else c
   | Out16 p v \<Rightarrow> if p \<noteq> io then c else (case c_pkt c of None \<Rightarrow> c
       | Some ws \<Rightarrow> if length ws < 5 then c\<lparr>c_pkt := Some (ws @ [v])\<rparr> else execute_packet dc (ws @ [v]) c)
   | In16 p v \<Rightarrow> if p = io then c\<lparr>c_in := tl (c_in c)\<rparr> else c
   | _ \<Rightarrow> c)"

definition cd_after :: "disc \<Rightarrow> u16 \<Rightarrow> cd \<Rightarrow> io list \<Rightarrow> cd" where
  "cd_after dc io c tr = foldr (cd_step dc io) tr c"

lemma cd_after_simps [simp]:
  "cd_after dc io c [] = c" "cd_after dc io c (e # tr) = cd_step dc io e (cd_after dc io c tr)"
  by (simp_all add: cd_after_def)

definition cd_busy :: "cd \<Rightarrow> bool" where
  "cd_busy c \<longleftrightarrow> c_in c \<noteq> [] \<or> c_pkt c \<noteq> None"

definition cd_serves :: "device \<Rightarrow> u16 \<Rightarrow> disc \<Rightarrow> cd \<Rightarrow> bool" where
  "cd_serves dev io dc c \<longleftrightarrow>
    (\<forall>tr. c_in (cd_after dc io c tr) \<noteq> [] \<longrightarrow> port16 dev tr io = hd (c_in (cd_after dc io c tr))) \<and>
    (\<forall>tr. c_ok (cd_after dc io c tr) \<longrightarrow> port8 dev tr (io + 7) AND 0x01 = 0) \<and>
    (\<forall>tr. c_ok (cd_after dc io c tr) \<longrightarrow> (\<exists>k < 100000. ready (cd_busy (cd_after dc io c tr)) (port8 dev (polls dev (io + 7) k tr) (io + 7))))"

abbreviation cdv :: "disc \<Rightarrow> u16 \<Rightarrow> cd \<Rightarrow> ata \<Rightarrow> cd" where
  "cdv dc io c s \<equiv> cd_after dc io c (trace s)"

section \<open>The driver against an optical drive\<close>

lemma cd_wait:
  assumes "cd_serves dev io dc c" and "drq \<longrightarrow> cd_busy (cdv dc io c s)" and "c_ok (cdv dc io c s)"
  obtains s' where "ata_wait_ready dev io drq s = (0, s')" "amem s' = amem s" "cdv dc io c s' = cdv dc io c s"
proof (rule wait_polled [of "cd_after dc io c" c_ok dev io cd_busy s drq])
  show "cd_after dc io c (In8 p v # tr) = cd_after dc io c tr" for p v tr by (simp add: cd_step_def)
qed (use assms that in \<open>auto simp: cd_serves_def\<close>)

lemma cd_step_simps [simp]:
  "cd_step dc io (Out8 (io + 1) v) c = c"
  "cd_step dc io (Out8 (io + 2) v) c = c"
  "cd_step dc io (Out8 (io + 3) v) c = c"
  "cd_step dc io (Out8 (io + 4) v) c = c\<lparr>c_mid := v\<rparr>"
  "cd_step dc io (Out8 (io + 5) v) c = c\<lparr>c_high := v\<rparr>"
  "cd_step dc io (Out8 (io + 6) v) c = c"
  "cd_step dc io (Out8 (io + 7) ATAPI_CMD_PACKET) c = c\<lparr>c_pkt := Some [], c_in := [], c_ok := True\<rparr>"
  by (simp_all add: cd_step_def)

lemma packet_setup_ok:
  assumes "cd_serves dev io dc c" and "c_ok (cdv dc io c s)"
  obtains s' where "packet_setup dev io h lo hi s = (0, s')" "amem s' = amem s"
    "cdv dc io c s' = (cdv dc io c s)\<lparr>c_mid := lo, c_high := hi, c_pkt := Some [], c_in := [], c_ok := True\<rparr>"
proof -
  let ?a = "outb (io + ATA_REG_DRIVE_HEAD) h s"
  have a: "amem ?a = amem s" "cdv dc io c ?a = cdv dc io c s" by (simp_all add: outb_def ata_regs emit_def)
  obtain t where t: "ata_wait_ready dev io False ?a = (0, t)" "amem t = amem s" "cdv dc io c t = cdv dc io c s"
    using cd_wait [OF assms(1), of False ?a] assms(2) a by metis
  let ?b = "outb (io + 7) ATAPI_CMD_PACKET (outb (io + 5) hi (outb (io + 4) lo (outb (io + 3) 0 (outb (io + 2) 0 (outb (io + 1) 0 t)))))"
  have b: "amem ?b = amem s" "cdv dc io c ?b = (cdv dc io c s)\<lparr>c_mid := lo, c_high := hi, c_pkt := Some [], c_in := [], c_ok := True\<rparr>"
    using t by (simp_all add: outb_def emit_def)
  obtain u where u: "ata_wait_ready dev io True ?b = (0, u)" "amem u = amem ?b" "cdv dc io c u = cdv dc io c ?b"
    using cd_wait [OF assms(1), of True ?b] b(2) by (auto simp: cd_busy_def)
  have "packet_setup dev io h lo hi s = (0, u)"
    using t(1) u(1) by (simp add: packet_setup_def Let_def ata_regs ATA_REG_FEATURES_def)
  then show thesis using that u b by simp
qed

lemma word_bytes_packet: "even (length bs) \<Longrightarrow> word_bytes (packet_words bs) = bs"
proof (induction bs rule: packet_words.induct)
  case (1 a b bs)
  have "\<not> bit a (8 + n)" for n using bit_imp_le_length [of a "8 + n"] by auto
  then have "(ucast (ucast a OR push_bit 8 (ucast b) :: u16) :: u8) = a" "(ucast (drop_bit 8 (ucast a OR push_bit 8 (ucast b) :: u16)) :: u8) = b"
    by (auto intro!: bit_word_eqI simp: bit_simps)
  with 1 show ?case by simp
qed simp_all

lemma length_packet_words [simp]: "length (packet_words bs) = length bs div 2"
  by (induction bs rule: packet_words.induct) simp_all

lemma execute_packet_pkt [simp]: "execute_packet dc ws (c\<lparr>c_pkt := x\<rparr>) = execute_packet dc ws c"
  by (simp add: execute_packet_def Let_def)

lemma outsw_packet:
  "c_pkt (cdv dc io c s) = Some vs \<Longrightarrow> length vs + length ws = 6 \<Longrightarrow> ws \<noteq> [] \<Longrightarrow>
    amem (outsw io ws s) = amem s \<and> cdv dc io c (outsw io ws s) = execute_packet dc (vs @ ws) (cdv dc io c s)"
proof (induction ws arbitrary: vs s)
  case (Cons v ws)
  let ?t = "emit (Out16 io v) s"
  show ?case
  proof (cases "ws = []")
    case True
    then show ?thesis using Cons.prems by (simp add: outw_def cd_step_def emit_def)
  next
    case False
    then have "length ws > 0" by simp
    then have l: "length vs < 5" using Cons.prems(2) unfolding list.size by linarith
    then have t: "cdv dc io c ?t = (cdv dc io c s)\<lparr>c_pkt := Some (vs @ [v])\<rparr>" "amem ?t = amem s"
      using Cons.prems(1) by (simp_all add: cd_step_def emit_def)
    then have "c_pkt (cdv dc io c ?t) = Some (vs @ [v])" by simp
    from Cons.IH [OF this] False Cons.prems(2)
    have "amem (outsw io ws ?t) = amem ?t \<and> cdv dc io c (outsw io ws ?t) = execute_packet dc ((vs @ [v]) @ ws) (cdv dc io c ?t)" by simp
    then show ?thesis unfolding t by (simp add: outw_def)
  qed
qed simp

lemma cd_in_words:
  assumes "cd_serves dev io dc c"
  shows "c_in (cdv dc io c s) = ws @ rest \<Longrightarrow> i + length ws \<le> 2 ^ 32 \<Longrightarrow>
    amem (atapi_in_words dev io buf (of_nat i) (length ws) s) = store_bytes (amem s) (buf + of_nat (2 * i)) (word_bytes ws) \<and>
    cdv dc io c (atapi_in_words dev io buf (of_nat i) (length ws) s) = (cdv dc io c s)\<lparr>c_in := rest\<rparr>"
proof (induction ws arbitrary: s i)
  case (Cons v ws)
  have u: "(2 * ucast (of_nat i :: u32) :: u64) = of_nat (2 * i)"
  proof -
    have "unat (of_nat i :: u32) = i" using Cons.prems(2) by (simp add: unat_of_nat)
    then have "(ucast (of_nat i :: u32) :: u64) = of_nat i" by (metis of_nat_unat)
    then show ?thesis by simp
  qed
  let ?t = "(emit (In16 io v) s)\<lparr>amem := write16 (amem s) (buf + of_nat (2 * i)) v\<rparr>"
  have v: "port16 dev (trace s) io = v" using assms Cons.prems(1) by (simp add: cd_serves_def)
  have "atapi_in_words dev io buf (of_nat i) (length (v # ws)) s = atapi_in_words dev io buf (of_nat (i + 1)) (length ws) ?t"
    by (simp add: inw_def ATA_REG_DATA_def v u emit_def Let_def add.commute del: of_nat_mult)
  moreover have "cdv dc io c ?t = (cdv dc io c s)\<lparr>c_in := ws @ rest\<rparr>"
    using Cons.prems(1) by (simp add: cd_step_def emit_def)
  ultimately show ?case using Cons.IH [of ?t "i + 1"] Cons.prems(2)
    by (simp add: write16_def numeral_2_eq_2 ac_simps fun_upd_def)
qed simp

lemma cd_in_sectors:
  assumes "cd_serves dev io dc c" and "unat sz = 2 * w" and "0 < w"
  shows "c_ok (cdv dc io c s) \<Longrightarrow> c_in (cdv dc io c s) = ws \<Longrightarrow> length ws = n * w \<Longrightarrow> (k + n) * w \<le> 2 ^ 32 \<Longrightarrow>
    \<exists>s'. atapi_in_sectors dev io buf sz k n s = (0, s') \<and>
      amem s' = store_bytes (amem s) (buf + of_nat (2 * (k * w))) (word_bytes ws)"
proof (induction n arbitrary: s ws k)
  case (Suc n)
  define us vs where "us = take w ws" and "vs = drop w ws"
  have ws: "ws = us @ vs" "length us = w" "length vs = n * w" using Suc.prems(3) by (simp_all add: us_def vs_def)
  have "cd_busy (cdv dc io c s)" using Suc.prems(2) ws assms(3) by (auto simp: cd_busy_def)
  then obtain t where t: "ata_wait_ready dev io True s = (0, t)" "amem t = amem s" "cdv dc io c t = cdv dc io c s"
    using cd_wait [OF assms(1), of True s] Suc.prems(1) by blast
  let ?v = "atapi_in_words dev io buf (of_nat (k * w)) w t"
  have v: "amem ?v = store_bytes (amem s) (buf + of_nat (2 * (k * w))) (word_bytes us)"
    "cdv dc io c ?v = (cdv dc io c s)\<lparr>c_in := vs\<rparr>"
    using cd_in_words [OF assms(1), of t us vs "k * w" buf] t ws Suc.prems(2,4) by (simp_all add: algebra_simps)
  have "unat (sz div 2) = w" using assms(2) by (simp add: unat_div)
  then have "sz div 2 = of_nat w" by (metis of_nat_unat ucast_id)
  with \<open>unat (sz div 2) = w\<close> have "atapi_in_sectors dev io buf sz k (Suc n) s = atapi_in_sectors dev io buf sz (Suc k) n ?v"
    using t(1) by simp
  moreover obtain s' where "atapi_in_sectors dev io buf sz (Suc k) n ?v = (0, s')"
    "amem s' = store_bytes (amem ?v) (buf + of_nat (2 * (Suc k * w))) (word_bytes vs)"
    using Suc.IH [of ?v vs "Suc k"] v(2) ws Suc.prems(1,4) by auto
  ultimately show ?case using v ws by (simp add: store_bytes_append algebra_simps)
qed simp

section \<open>Properties\<close>

lemma be_nat_simps: "be_nat [a, b] = 256 * unat a + unat b" "be_nat [a, b, c, d] = 256 * (256 * (256 * unat a + unat b) + unat c) + unat d"
  by (simp_all add: be_nat_def)

lemma read10_block:
  "length (build_read10_atapi_cmd (replicate 12 0) lba n) = 12"
  "build_read10_atapi_cmd (replicate 12 0) lba n ! 0 = 0x28"
  "be_nat [build_read10_atapi_cmd (replicate 12 0) lba n ! 2, build_read10_atapi_cmd (replicate 12 0) lba n ! 3,
     build_read10_atapi_cmd (replicate 12 0) lba n ! 4, build_read10_atapi_cmd (replicate 12 0) lba n ! 5] = unat lba"
  "be_nat [build_read10_atapi_cmd (replicate 12 0) lba n ! 7, build_read10_atapi_cmd (replicate 12 0) lba n ! 8] = unat n"
proof -
  have l: "unat lba < 2 ^ 32" using unsigned_less [of lba] by simp
  show "length (build_read10_atapi_cmd (replicate 12 0) lba n) = 12" "build_read10_atapi_cmd (replicate 12 0) lba n ! 0 = 0x28"
    by (simp_all add: build_read10_atapi_cmd_def)
  show "be_nat [build_read10_atapi_cmd (replicate 12 0) lba n ! 2, build_read10_atapi_cmd (replicate 12 0) lba n ! 3,
     build_read10_atapi_cmd (replicate 12 0) lba n ! 4, build_read10_atapi_cmd (replicate 12 0) lba n ! 5] = unat lba"
    using digits_256(1,2) [of "unat lba"] l unfolding build_read10_atapi_cmd_def be_nat_simps low_byte
    by (simp add: low_byte) (use mult_div_mod_eq [of 16777216 "unat lba"] in linarith)
  show "be_nat [build_read10_atapi_cmd (replicate 12 0) lba n ! 7, build_read10_atapi_cmd (replicate 12 0) lba n ! 8] = unat n"
    using digits_256(1) [of "unat n"] unat_lt_2p16 [of n]
    unfolding build_read10_atapi_cmd_def be_nat_simps low_byte by (simp add: low_byte)
qed

lemma rev_split_bits:
  assumes "k < 4" and "i < 8"
  shows "bit (le_join (rev (le_split 4 (x :: u32))) :: u32) (8 * k + i) = bit x (8 * (3 - k) + i)"
proof -
  have r: "rev (le_split 4 x) = [ucast (drop_bit 24 x), ucast (drop_bit 16 x), ucast (drop_bit 8 x), ucast x]"
    by (simp add: numeral_eq_Suc)
  have "k \<in> {0, 1, 2, 3}" using assms(1) by auto
  then show ?thesis unfolding r using assms(2)
    by (elim insertE emptyE; simp only: le_join.simps; simp add: bit_simps)
qed

lemma be32toh_split: "be32toh (le_join (rev (le_split 4 (x :: u32)))) = x"
proof (rule bit_word_eqI)
  fix n assume "n < LENGTH(32)"
  then have n: "n div 8 < 4" "n mod 8 < 8" "3 - (3 - n div 8) = n div 8" "8 * (n div 8) + n mod 8 = n" by simp_all
  have "3 - n div 8 < 4" by simp
  from rev_split_bits [OF this n(2), of x]
  have "bit (be32toh (le_join (rev (le_split 4 x)))) (8 * (n div 8) + n mod 8) = bit x (8 * (n div 8) + n mod 8)"
    using be32toh_reverses [unfolded reverses_def, THEN conjunct2, THEN conjunct2, rule_format, OF n(1,2)] unfolding n(3) by simp
  then show "bit (be32toh (le_join (rev (le_split 4 x)))) n = bit x n" unfolding n(4) .
qed

lemma disjoint_next_4: "disjoint_regions p 4 (p + 4) 4"
proof (unfold disjoint_regions_def, rule equals0I)
  fix x assume x: "x \<in> region p 4 \<inter> region (p + 4) 4"
  then have "unat (x - p) < 4" "unat (x - p - 4) < 4" by (simp_all add: in_region_iff diff_diff_eq)
  then show False by (simp add: unat_sub_if' split: if_splits)
qed

lemma capacity_in_memory:
  fixes l z :: u32 and m0 :: mem and p :: u64
  defines "m \<equiv> store_bytes (store_bytes m0 p (rev (le_split 4 l))) (p + 4) (rev (le_split 4 z))"
  defines "m1 \<equiv> write32 m (p + 4) (be32toh (read32 m (p + 4)))"
  defines "m2 \<equiv> write32 m1 p (be32toh (read32 m1 p))"
  shows "read32 m2 p = l" and "read32 m2 (p + 4) = z" and "x \<notin> region p 8 \<Longrightarrow> m2 x = m0 x"
proof -
  have d: "disjoint_regions p 4 (p + 4) 4" "disjoint_regions (p + 4) 4 p 4" using disjoint_next_4 disjoint_regions_sym by blast+
  have "read32 m (p + 4) = le_join (rev (le_split 4 z))" unfolding m_def read32_def by (simp add: bytes_at_store_bytes)
  then have m1: "m1 = store_bytes m (p + 4) (le_split 4 z)" by (simp add: m1_def be32toh_split write32_def)
  have "read32 m1 p = le_join (rev (le_split 4 l))"
    unfolding m1 m_def read32_def by (simp add: bytes_at_store_bytes bytes_at_store_bytes_other d)
  then have m2: "m2 = store_bytes m1 p (le_split 4 l)" by (simp add: m2_def be32toh_split write32_def)
  show "read32 m2 p = l" unfolding m2 read32_def by (simp add: bytes_at_store_bytes le_join_split)
  show "read32 m2 (p + 4) = z" unfolding m2 m1 read32_def
    by (simp add: bytes_at_store_bytes bytes_at_store_bytes_other d le_join_split)
  assume "x \<notin> region p 8"
  then have "x \<notin> region p 4" "x \<notin> region (p + 4) 4" using region_mono [of 4 8 p] region_shift [of 4 4 8 p] by auto
  then show "m2 x = m0 x" unfolding m2 m1 m_def by (simp add: store_bytes_outside)
qed

text \<open>
  Announcing a transfer and sending the twelve bytes of a command block makes the drive execute that
  block, whatever the block holds; the two operations of the driver differ only in what follows.
\<close>
lemma packet_sent:
  assumes "cd_serves dev io dc c" and "c_ok (cdv dc io c s)" and b: "length b = 12"
  obtains t where "packet_setup dev io h lo hi s = (0, t)" "amem (outsw io (packet_words b) t) = amem s"
    "cdv dc io c (outsw io (packet_words b) t) =
      execute_packet dc (packet_words b) ((cdv dc io c s)\<lparr>c_mid := lo, c_high := hi, c_in := [], c_ok := True\<rparr>)"
    "word_bytes (packet_words b) = b"
proof -
  obtain t where t: "packet_setup dev io h lo hi s = (0, t)" "amem t = amem s"
    "cdv dc io c t = (cdv dc io c s)\<lparr>c_mid := lo, c_high := hi, c_pkt := Some [], c_in := [], c_ok := True\<rparr>"
    using packet_setup_ok [OF assms(1,2)] by blast
  have "length (packet_words b) = 6" by (simp add: b)
  moreover from this have "packet_words b \<noteq> []" by (metis length_0_conv zero_neq_numeral)
  moreover have "c_pkt (cdv dc io c t) = Some []" unfolding t(3) by simp
  ultimately have "amem (outsw io (packet_words b) t) = amem t \<and>
      cdv dc io c (outsw io (packet_words b) t) = execute_packet dc (packet_words b) (cdv dc io c t)"
    using outsw_packet [of dc io c t "[]" "packet_words b"] by simp
  moreover have "execute_packet dc (packet_words b) (cdv dc io c t) =
      execute_packet dc (packet_words b) ((cdv dc io c s)\<lparr>c_mid := lo, c_high := hi, c_in := [], c_ok := True\<rparr>)"
    unfolding t(3) execute_packet_def by (simp add: Let_def)
  ultimately show thesis using that [OF t(1)] t(2) word_bytes_packet [of b] b by simp
qed

lemma read_disc:
  assumes "cd_serves dev (channel drive) dc c" and "d_words dc = 1024" and "c_ok (cdv dc (channel drive) c s)"
  shows "\<exists>s'. atapi_read_sector dev lba n buf drive 2048 s = (0, s') \<and>
    amem s' = store_bytes (amem s) buf (word_bytes (map (d_data dc) [unat lba * 1024..<(unat lba + unat n) * 1024]))"
proof -
  let ?io = "channel drive" let ?b = "build_read10_atapi_cmd (replicate 12 0) lba n"
  let ?ws = "map (d_data dc) [unat lba * 1024..<(unat lba + unat n) * 1024]"
  obtain t where t: "packet_setup dev ?io (head_of drive) 0 8 s = (0, t)" "amem (outsw ?io (packet_words ?b) t) = amem s"
    "cdv dc ?io c (outsw ?io (packet_words ?b) t) =
      execute_packet dc (packet_words ?b) ((cdv dc ?io c s)\<lparr>c_mid := 0, c_high := 8, c_in := [], c_ok := True\<rparr>)"
    "word_bytes (packet_words ?b) = ?b"
    using packet_sent [OF assms(1,3) read10_block(1)] by blast
  let ?u = "outsw ?io (packet_words ?b) t"
  have x: "c_in (cdv dc ?io c ?u) = ?ws" "c_ok (cdv dc ?io c ?u)"
    using t(4) unfolding t(3) execute_packet_def by (simp_all add: read10_block assms(2) Let_def)
  have "length ?ws = unat n * 1024" by (simp add: algebra_simps)
  then obtain s' where "atapi_in_sectors dev ?io buf 2048 0 (unat n) ?u = (0, s')" "amem s' = store_bytes (amem ?u) buf (word_bytes ?ws)"
    using cd_in_sectors [OF assms(1), of 2048 1024 ?u ?ws "unat n" 0 buf] x unat_lt_2p16 [of n] by auto
  then show ?thesis
    using t(1,2) by (simp add: atapi_read_sector_def atapi_read_def io_and_head ATA_REG_DATA_def)
qed

lemma capacity_disc:
  assumes "cd_serves dev (channel drive) dc c" and "d_words dc = 1024" and "c_ok (cdv dc (channel drive) c s)"
  shows "\<exists>s'. identify_atapi_useful dev buf drive s = (0, s') \<and>
    read32 (amem s') buf = d_last dc \<and> read32 (amem s') (buf + 4) = 2048 \<and>
    (\<forall>x. x \<notin> region buf 8 \<longrightarrow> amem s' x = amem s x)"
proof -
  let ?io = "channel drive" let ?b = "build_read_capacity_atapi_cmd (replicate 12 0)"
  have b: "length ?b = 12" "?b ! 0 = 0x25" by (simp_all add: build_read_capacity_atapi_cmd_def)
  obtain t where t: "packet_setup dev ?io (head_of drive) 8 0 s = (0, t)" "amem (outsw ?io (packet_words ?b) t) = amem s"
    "cdv dc ?io c (outsw ?io (packet_words ?b) t) =
      execute_packet dc (packet_words ?b) ((cdv dc ?io c s)\<lparr>c_mid := 8, c_high := 0, c_in := [], c_ok := True\<rparr>)"
    "word_bytes (packet_words ?b) = ?b"
    using packet_sent [OF assms(1,3) b(1)] by blast
  let ?u = "outsw ?io (packet_words ?b) t"
  have x: "c_in (cdv dc ?io c ?u) = capacity_words dc" "c_ok (cdv dc ?io c ?u)"
    using t(4) unfolding t(3) execute_packet_def by (simp_all add: b Let_def)
  have len: "length (capacity_words dc) = 4" by (simp add: capacity_words_def)
  then have "cd_busy (cdv dc ?io c ?u)" using x by (auto simp: cd_busy_def)
  then obtain v where v: "ata_wait_ready dev ?io True ?u = (0, v)" "amem v = amem ?u" "cdv dc ?io c v = cdv dc ?io c ?u"
    using cd_wait [OF assms(1), of True ?u] x by blast
  let ?y = "atapi_in_words dev ?io buf 0 4 v"
  have "word_bytes (capacity_words dc) = rev (le_split 4 (d_last dc)) @ rev (le_split 4 (2048 :: u32))"
    unfolding capacity_words_def assms(2) by (subst word_bytes_packet) simp_all
  then have y: "amem ?y = store_bytes (store_bytes (amem s) buf (rev (le_split 4 (d_last dc)))) (buf + 4) (rev (le_split 4 (2048 :: u32)))"
    using cd_in_words [OF assms(1), of v "capacity_words dc" "[]" 0 buf] v(2,3) x t(2) len by (simp add: store_bytes_append)
  show ?thesis
    using t(1) v(1) capacity_in_memory [where ?m0.0 = "amem s" and p = buf and l = "d_last dc" and z = 2048]
    by (simp add: identify_atapi_useful_def read_capacity_def io_and_head ATA_REG_DATA_def y Let_def)
qed

text \<open>
  C18. The packet driver works on an optical drive. Reading \<open>n\<close> sectors of 2048 bytes succeeds and
  leaves exactly the bytes of the addressed sectors in the buffer, for every address and every
  number of sectors the command block can express; and the capacity query succeeds and leaves the
  last address and the sector size of the disc, in the byte order of the processor.
\<close>

theorem atapi_driver_correct:
  assumes "cd_serves dev (channel drive) dc c" and "d_words dc = 1024" and "c_ok (cdv dc (channel drive) c s)"
  shows "(\<exists>s'. atapi_read_sector dev lba n buf drive 2048 s = (0, s') \<and>
      amem s' = store_bytes (amem s) buf (word_bytes (map (d_data dc) [unat lba * 1024..<(unat lba + unat n) * 1024]))) \<and>
    (\<exists>s'. identify_atapi_useful dev buf drive s = (0, s') \<and>
      read32 (amem s') buf = d_last dc \<and> read32 (amem s') (buf + 4) = 2048 \<and>
      (\<forall>x. x \<notin> region buf 8 \<longrightarrow> amem s' x = amem s x))"
  using read_disc [OF assms] capacity_disc [OF assms] by (rule conjI)

definition ideal_cd :: "u16 \<Rightarrow> disc \<Rightarrow> cd \<Rightarrow> device" where
  "ideal_cd io dc c =
    \<lparr>port8 = \<lambda>tr p. if cd_busy (cd_after dc io c tr) then 0x58 else 0x50,
     port16 = \<lambda>tr p. if c_in (cd_after dc io c tr) = [] then 0 else hd (c_in (cd_after dc io c tr)),
     port32 = \<lambda>tr p. 0, mmio32 = \<lambda>tr a. 0, msr = \<lambda>tr r. 0, cr4 = \<lambda>tr. 0\<rparr>"

lemma ideal_cd_serves: "cd_serves (ideal_cd io dc c) io dc c"
  unfolding cd_serves_def by (auto simp: ideal_cd_def ready_def intro!: exI [of _ 0])

theorem atapi_driver_correct_witness:
  "\<exists>s'. identify_atapi_useful (ideal_cd 0x170 \<lparr>d_words = 1024, d_data = \<lambda>x. 0, d_last = 0x54321\<rparr>
        \<lparr>c_mid = 0, c_high = 0, c_pkt = None, c_in = [], c_ok = True\<rparr>) 0x2000 2
        \<lparr>trace = [], ata_status = 0, ata_error = 0, amem = \<lambda>x. 0\<rparr> = (0, s') \<and>
    read32 (amem s') 0x2000 = 0x54321 \<and> read32 (amem s') 0x2004 = 2048"
proof -
  let ?c = "\<lparr>c_mid = 0, c_high = 0, c_pkt = None, c_in = [], c_ok = True\<rparr> :: cd"
  let ?dc = "\<lparr>d_words = 1024, d_data = \<lambda>x. 0, d_last = 0x54321\<rparr> :: disc"
  let ?s = "\<lparr>trace = [], ata_status = 0, ata_error = 0, amem = \<lambda>x. 0\<rparr> :: ata"
  have ch: "channel 2 = 0x170" by (simp add: channel_def ata_get_io_and_head_def ATA_SECONDARY_IO_def Let_def)
  show ?thesis
    using atapi_driver_correct [of "ideal_cd 0x170 ?dc ?c" 2 ?dc ?c ?s 0 0 "0x2000", unfolded ch, OF ideal_cd_serves] by auto
qed

end
