(* ===== verification/Sata.thy ===== *)
theory Sata
  imports KHeap Vmm Atapi
begin

text \<open>
  The AHCI disk driver (\<open>drivers/storage/sata.c\<close>, \<open>drivers/storage/includes/sata.h\<close>). The host bus adapter
  is a parameter: it answers the accesses to its registers and may read and write memory whenever it
  is accessed, since it transfers data by itself. The command list, the received FIS area and the
  command tables are objects of the kernel heap, written field by field at their C offsets. A
  function gives \<open>None\<close> where an assertion of the heap fails or a loop without a timeout does not
  end. Delays, messages and cache maintenance have no effect on the model; that the flush
  loops return is part of it.
\<close>

section \<open>The adapter\<close>

record 'h hba =
  hread :: "u64 \<Rightarrow> mem \<times> 'h \<Rightarrow> u32 \<times> mem \<times> 'h"
  hwrite :: "u64 \<Rightarrow> u32 \<Rightarrow> mem \<times> 'h \<Rightarrow> mem \<times> 'h"

definition reg_update :: "'h hba \<Rightarrow> u64 \<Rightarrow> (u32 \<Rightarrow> u32) \<Rightarrow> mem \<times> 'h \<Rightarrow> mem \<times> 'h" where
  "reg_update H a f st = (let (v, st) = hread H a st in hwrite H a (f v) st)"

definition on_mem :: "(mem \<Rightarrow> mem) \<Rightarrow> mem \<times> 'h \<Rightarrow> mem \<times> 'h" where
  "on_mem f st = (f (fst st), snd st)"

definition SATA_WAIT_TIMEOUT :: u32 where "SATA_WAIT_TIMEOUT = 1000"
definition SATA_WAIT_TIMEOUT_PER_SECTOR :: u32 where "SATA_WAIT_TIMEOUT_PER_SECTOR = 250"

section \<open>Waiting\<close>

text \<open>
  The loop condition \<open>cond && timeout--\<close> lowers the counter only while the condition holds, and once
  more, below 0, when it finds the counter at 0. The first loop also stops in its body, when the counter
  has just become 0; its result says whether it did. The second gives the value the counter is left with.
\<close>

function wait_clear_checked :: "'h hba \<Rightarrow> u64 \<Rightarrow> u32 \<Rightarrow> u32 \<Rightarrow> mem \<times> 'h \<Rightarrow> bool \<times> mem \<times> 'h" where
  "wait_clear_checked H a msk timeout st =
    (let (v, st) = hread H a st in
     if v AND msk = 0 \<or> timeout = 0 then (False, st)
     else if timeout - 1 = 0 then (True, st)
     else wait_clear_checked H a msk (timeout - 1) st)"
  by pat_completeness auto
termination by (relation "measure (\<lambda>(H, a, msk, timeout, st). unat timeout)") (auto intro: measure_unat)

function wait_clear :: "'h hba \<Rightarrow> u64 \<Rightarrow> u32 \<Rightarrow> u32 \<Rightarrow> mem \<times> 'h \<Rightarrow> u32 \<times> mem \<times> 'h" where
  "wait_clear H a msk timeout st =
    (let (v, st) = hread H a st in
     if v AND msk = 0 then (timeout, st)
     else if timeout = 0 then (timeout - 1, st)
     else wait_clear H a msk (timeout - 1) st)"
  by pat_completeness auto
termination by (relation "measure (\<lambda>(H, a, msk, timeout, st). unat timeout)") (auto intro: measure_unat)

partial_function (option) wait_clear_forever :: "'h hba \<Rightarrow> u64 \<Rightarrow> u32 \<Rightarrow> mem \<times> 'h \<Rightarrow> (mem \<times> 'h) option" where
  "wait_clear_forever H a msk st =
    (let (v, st) = hread H a st in
     if v AND msk = 0 then Some st else wait_clear_forever H a msk st)"

text \<open>Completion: the command slot clears, or the interrupt status shows one of the given errors.\<close>

function wait_command :: "'h hba \<Rightarrow> u64 \<Rightarrow> u32 \<Rightarrow> u32 \<Rightarrow> mem \<times> 'h \<Rightarrow> (u32 \<times> bool) \<times> mem \<times> 'h" where
  "wait_command H port_base errors timeout st =
    (let (v, st) = hread H (port_base + 0x38) st in
     if v AND 1 = 0 then ((timeout, False), st)
     else if timeout = 0 then ((timeout - 1, False), st)
     else
       let (isr, st) = hread H (port_base + 0x10) st in
       if isr AND errors \<noteq> 0 then ((timeout - 1, True), st)
       else wait_command H port_base errors (timeout - 1) st)"
  by pat_completeness auto
termination by (relation "measure (\<lambda>(H, a, e, timeout, st). unat timeout)") (auto intro: measure_unat)

declare wait_clear_checked.simps [simp del] wait_clear.simps [simp del] wait_command.simps [simp del]

section \<open>The memory of a port\<close>

text \<open>\<open>ahci_port_mem_t\<close>: command list, received FIS area, command tables.\<close>

definition sizeof_port_mem :: u64 where "sizeof_port_mem = 1024 + 256 + 256 * 32"
definition port_mem_cl :: "u64 \<Rightarrow> u64" where "port_mem_cl port_mem = port_mem"
definition port_mem_rfis :: "u64 \<Rightarrow> u64" where "port_mem_rfis port_mem = port_mem + 1024"
definition port_mem_ct :: "u64 \<Rightarrow> u64" where "port_mem_ct port_mem = port_mem + 1280"

text \<open>\<open>hba_cmd_header_t\<close>: 32 bytes.\<close>

definition set_header_flags :: "u64 \<Rightarrow> u16 \<Rightarrow> mem \<Rightarrow> mem" where "set_header_flags hdr v m = write16 m hdr v"
definition set_header_prdt_length :: "u64 \<Rightarrow> u16 \<Rightarrow> mem \<Rightarrow> mem" where "set_header_prdt_length hdr v m = write16 m (hdr + 2) v"
definition set_header_ctba :: "u64 \<Rightarrow> u64 \<Rightarrow> mem \<Rightarrow> mem" where
  "set_header_ctba hdr ct m = write32 (write32 m (hdr + 8) (ucast ct)) (hdr + 12) (ucast (drop_bit 32 ct))"

text \<open>
  \<open>hba_prdt_entry_t\<close>: 16 bytes, the last word holding the bit fields \<open>dbc\<close> (22 bits) and \<open>i\<close> (the top
  bit); an assignment to a bit field reads and writes the word.
\<close>

definition prdt_entry :: "u64 \<Rightarrow> nat \<Rightarrow> u64" where "prdt_entry ct i = ct + 128 + of_nat (16 * i)"

definition set_prdt_entry :: "u64 \<Rightarrow> u64 \<Rightarrow> u32 \<Rightarrow> mem \<Rightarrow> mem" where
  "set_prdt_entry e buf dbc m =
    (let m = write32 m e (ucast buf);
         m = write32 m (e + 4) (ucast (drop_bit 32 buf));
         m = write32 m (e + 12) (read32 m (e + 12) AND NOT 0x3FFFFF OR (dbc AND 0x3FFFFF))
     in write32 m (e + 12) (read32 m (e + 12) OR push_bit 31 1))"

text \<open>The loop over the full entries, \<open>n\<close> of them left, each 16 sectors long.\<close>

primrec fill_prdt :: "u64 \<Rightarrow> nat \<Rightarrow> nat \<Rightarrow> u64 \<Rightarrow> i32 \<Rightarrow> mem \<Rightarrow> (nat \<times> u64 \<times> i32) \<times> mem" where
  "fill_prdt ct 0 i buf remaining_sectors m = ((i, buf, remaining_sectors), m)"
| "fill_prdt ct (Suc n) i buf remaining_sectors m =
    fill_prdt ct n (Suc i) (buf + 8 * 1024) (remaining_sectors - 16) (set_prdt_entry (prdt_entry ct i) buf (8 * 1024 - 1) m)"

text \<open>\<open>fis_reg_h2d_t\<close>: 20 bytes, zeroed before; \<open>c\<close> is the top bit of the second byte.\<close>

definition sizeof_fis :: u64 where "sizeof_fis = 20"

definition fis_command :: "u64 \<Rightarrow> u8 \<Rightarrow> mem \<Rightarrow> mem" where
  "fis_command fis cmd m = (let m = m(fis := 0x27); m = m(fis + 1 := m (fis + 1) OR 0x80) in m(fis + 2 := cmd))"

definition fis_lba_count :: "u64 \<Rightarrow> u64 \<Rightarrow> u16 \<Rightarrow> mem \<Rightarrow> mem" where
  "fis_lba_count fis lba sector_count m =
    m(fis + 4 := ucast (lba AND 0xFF), fis + 5 := ucast (drop_bit 8 lba AND 0xFF), fis + 6 := ucast (drop_bit 16 lba AND 0xFF),
      fis + 8 := ucast (drop_bit 24 lba AND 0xFF), fis + 9 := ucast (drop_bit 32 lba AND 0xFF), fis + 10 := ucast (drop_bit 40 lba AND 0xFF),
      fis + 12 := ucast (sector_count AND 0xFF), fis + 13 := ucast (drop_bit 8 sector_count AND 0xFF))"

definition fis_device :: "u64 \<Rightarrow> u8 \<Rightarrow> mem \<Rightarrow> mem" where
  "fis_device fis v m = m(fis + 7 := v)"

section \<open>Steps the commands share\<close>

definition set_bases :: "'h hba \<Rightarrow> u64 \<Rightarrow> u64 \<Rightarrow> u64 \<Rightarrow> mem \<times> 'h \<Rightarrow> mem \<times> 'h" where
  "set_bases H port_base cl fb st =
    (let st = hwrite H (port_base + 0x00) (ucast cl) st;
         st = hwrite H (port_base + 0x04) (ucast (drop_bit 32 cl)) st;
         st = hwrite H (port_base + 0x08) (ucast fb) st
     in hwrite H (port_base + 0x0C) (ucast (drop_bit 32 fb)) st)"

definition release_port_mem :: "u64 \<Rightarrow> u64 \<Rightarrow> int \<Rightarrow> mem \<times> 'h \<Rightarrow> (int \<times> mem \<times> 'h) option" where
  "release_port_mem c port_mem code st = do { m \<leftarrow> free c port_mem (fst st); Some (code, (m, snd st)) }"

section \<open>Reading a disk\<close>

text \<open>The command header, the descriptor table and the FIS of a read, in the order the code writes them.\<close>

definition build_read :: "u64 \<Rightarrow> u64 \<Rightarrow> u16 \<Rightarrow> u64 \<Rightarrow> mem \<Rightarrow> mem" where
  "build_read port_mem lba sector_count buffer m =
    (let hdr = port_mem_cl port_mem;
         m = fst (memset m hdr 0 32);
         prdt_entries = (unat sector_count + 15) div 16;
         prdt_entries = (if prdt_entries > 65535 then 65535 else prdt_entries);
         m = set_header_flags hdr 5 m;
         m = set_header_prdt_length hdr (of_nat prdt_entries) m;
         ct = port_mem_ct port_mem;
         m = fst (memset m ct 0 144);
         m = set_header_ctba hdr ct m;
         ((i, buf, remaining_sectors), m) = fill_prdt ct (prdt_entries - 1) 0 buffer (ucast sector_count) m;
         m = set_prdt_entry (prdt_entry ct i) buf (push_bit 9 remaining_sectors - 1) m;
         m = fst (memset m ct 0 sizeof_fis);
         m = fis_command ct 0x25 m;
         m = fis_device ct (push_bit 6 1) m
     in fis_lba_count ct lba sector_count m)"

definition sata_ahci_read_sector :: "u64 \<Rightarrow> 'h hba \<Rightarrow> u64 \<Rightarrow> u64 \<Rightarrow> u16 \<Rightarrow> u64 \<Rightarrow> mem \<times> 'h \<Rightarrow> (int \<times> mem \<times> 'h) option" where
  "sata_ahci_read_sector c H port_base lba sector_count buffer st =
    do { (port_mem, m) \<leftarrow> malloc c sizeof_port_mem (fst st);
         let st = (fst (memset m port_mem 0 sizeof_port_mem), snd st);
         let st = set_bases H port_base (port_mem_cl port_mem) (port_mem_rfis port_mem) st;
         let st = reg_update H (port_base + 0x18) (\<lambda>v. v AND NOT 0x01) st;
         let st = reg_update H (port_base + 0x18) (\<lambda>v. v AND NOT (push_bit 4 1)) st;
         let (late, st) = wait_clear_checked H (port_base + 0x18) (push_bit 15 1) SATA_WAIT_TIMEOUT st;
         if late then release_port_mem c port_mem 6 st
         else do {
         let (late, st) = wait_clear_checked H (port_base + 0x18) (push_bit 14 1) SATA_WAIT_TIMEOUT st;
         if late then release_port_mem c port_mem 7 st
         else do {
         let st = on_mem (build_read port_mem lba sector_count buffer) st;
         let st = hwrite H (port_base + 0x10) (- 1) st;
         let st = reg_update H (port_base + 0x18) (\<lambda>v. v AND NOT 0x11) st;
         st \<leftarrow> wait_clear_forever H (port_base + 0x18) (push_bit 14 1 OR push_bit 15 1) st;
         let st = reg_update H (port_base + 0x18) (\<lambda>v. v OR push_bit 4 1) st;
         let st = reg_update H (port_base + 0x18) (\<lambda>v. v OR 1) st;
         _ \<leftarrow> phys_invalidate_cache buffer (ucast sector_count * 512);
         _ \<leftarrow> phys_flush_cache port_mem sizeof_port_mem;
         let st = reg_update H (port_base + 0x38) (\<lambda>v. v OR 1) st;
         _ \<leftarrow> phys_invalidate_cache buffer 512;
         let ((timeout, error_detected), st) =
           wait_command H port_base (push_bit 30 1 OR push_bit 31 1) (SATA_WAIT_TIMEOUT + ucast sector_count * SATA_WAIT_TIMEOUT_PER_SECTOR) st;
         if error_detected then release_port_mem c port_mem 8 st
         else if timeout = 0 then release_port_mem c port_mem 9 st
         else release_port_mem c port_mem 0 st } } }"

section \<open>Identification\<close>

definition build_identify :: "u64 \<Rightarrow> u8 \<Rightarrow> u64 \<Rightarrow> mem \<Rightarrow> mem" where
  "build_identify port_mem cmd buffer m =
    (let hdr = port_mem_cl port_mem;
         m = set_header_flags hdr 5 m;
         m = set_header_prdt_length hdr 1 m;
         ct = port_mem_ct port_mem;
         m = set_header_ctba hdr ct m;
         m = set_prdt_entry (prdt_entry ct 0) buffer (512 - 1) m;
         m = zero_loop m ct 0 sizeof_fis
     in fis_command ct cmd m)"

definition identify_with :: "u8 \<Rightarrow> u64 \<Rightarrow> 'h hba \<Rightarrow> u64 \<Rightarrow> u64 \<Rightarrow> mem \<times> 'h \<Rightarrow> (int \<times> mem \<times> 'h) option" where
  "identify_with cmd c H port_base buffer st =
    do { (port_mem, m) \<leftarrow> malloc c sizeof_port_mem (fst st);
         let st = (m, snd st);
         let st = set_bases H port_base (port_mem_cl port_mem) (port_mem_rfis port_mem) st;
         let st = reg_update H (port_base + 0x18) (\<lambda>v. v AND NOT 0x01) st;
         let st = reg_update H (port_base + 0x18) (\<lambda>v. v AND NOT (push_bit 4 1)) st;
         st \<leftarrow> wait_clear_forever H (port_base + 0x18) (push_bit 15 1) st;
         st \<leftarrow> wait_clear_forever H (port_base + 0x18) (push_bit 14 1) st;
         let st = on_mem (build_identify port_mem cmd buffer) st;
         let st = hwrite H (port_base + 0x10) (- 1) st;
         let st = reg_update H (port_base + 0x18) (\<lambda>v. v OR 0x11) st;
         _ \<leftarrow> phys_invalidate_cache buffer 512;
         _ \<leftarrow> phys_flush_cache port_mem sizeof_port_mem;
         let st = reg_update H (port_base + 0x38) (\<lambda>v. v OR 1) st;
         _ \<leftarrow> phys_invalidate_cache buffer 512;
         let ((timeout, error_detected), st) = wait_command H port_base (push_bit 30 1) SATA_WAIT_TIMEOUT st;
         if error_detected then release_port_mem c port_mem 8 st
         else release_port_mem c port_mem 0 st }"

definition sata_ahci_identify :: "u64 \<Rightarrow> 'h hba \<Rightarrow> u64 \<Rightarrow> u64 \<Rightarrow> mem \<times> 'h \<Rightarrow> (int \<times> mem \<times> 'h) option" where
  "sata_ahci_identify = identify_with 0xEC"

definition sata_ahci_identify_satapi :: "u64 \<Rightarrow> 'h hba \<Rightarrow> u64 \<Rightarrow> u64 \<Rightarrow> mem \<times> 'h \<Rightarrow> (int \<times> mem \<times> 'h) option" where
  "sata_ahci_identify_satapi = identify_with 0xA1"

section \<open>Packet commands\<close>

text \<open>
  The packet variants give the adapter physical addresses. \<open>stack\<close> is what the uninitialised local
  array of 12 bytes holds. A failure reads three registers for its message.
\<close>

definition build_packet :: "vmm \<Rightarrow> u64 \<Rightarrow> u64 \<Rightarrow> u32 \<Rightarrow> u8 list \<Rightarrow> mem \<Rightarrow> mem" where
  "build_packet v port_mem buffer dbc atapi_cmd m =
    (let hdr = port_mem_cl port_mem;
         m = fst (memset m hdr 0 32);
         m = set_header_prdt_length hdr 1 m;
         m = set_header_flags hdr (5 OR push_bit 5 1) m;
         ct = port_mem_ct port_mem;
         m = set_header_ctba hdr (virt_to_phys v ct) m;
         m = set_prdt_entry (prdt_entry ct 0) (virt_to_phys v buffer) dbc m;
         m = fst (memset m (ct + 64) 0 16);
         m = store_bytes m (ct + 64) atapi_cmd;
         m = fst (memset m ct 0 sizeof_fis);
         m = fis_command ct 0xA0 m
     in fis_device ct 0xA0 m)"

definition stop_engines :: "'h hba \<Rightarrow> u64 \<Rightarrow> mem \<times> 'h \<Rightarrow> u32 \<times> mem \<times> 'h" where
  "stop_engines H port_base st =
    (let st = reg_update H (port_base + 0x18) (\<lambda>v. v AND NOT (1 OR push_bit 4 1)) st
     in wait_clear H (port_base + 0x18) (push_bit 14 1 OR push_bit 15 1) SATA_WAIT_TIMEOUT st)"

definition start_packet :: "'h hba \<Rightarrow> u64 \<Rightarrow> mem \<times> 'h \<Rightarrow> mem \<times> 'h" where
  "start_packet H port_base st =
    (let st = hwrite H (port_base + 0x10) 0xFFFFFFFF st;
         st = hwrite H (port_base + 0x30) 0xFFFFFFFF st;
         st = reg_update H (port_base + 0x18) (\<lambda>v. v OR push_bit 4 1) st;
         st = reg_update H (port_base + 0x18) (\<lambda>v. v OR 1) st
     in hwrite H (port_base + 0x38) 1 st)"

definition sata_ahci_identify_satapi_properly ::
    "vmm \<Rightarrow> u8 list \<Rightarrow> u64 \<Rightarrow> 'h hba \<Rightarrow> u64 \<Rightarrow> u64 \<Rightarrow> mem \<times> 'h \<Rightarrow> (int \<times> mem \<times> 'h) option" where
  "sata_ahci_identify_satapi_properly v stack c H port_base buffer st =
    (if buffer = 0 then Some (- 1, st) else
     do { (port_mem, m) \<leftarrow> malloc c sizeof_port_mem (fst st);
          if port_mem = 0 then Some (- 1, (m, snd st)) else do {
          let st = (fst (memset m port_mem 0 sizeof_port_mem), snd st);
          let st = set_bases H port_base (virt_to_phys v (port_mem_cl port_mem)) (virt_to_phys v (port_mem_rfis port_mem)) st;
          let (timeout, st) = stop_engines H port_base st;
          if timeout = 0 then release_port_mem c port_mem (- 1) st
          else do {
          let st = on_mem (build_packet v port_mem buffer ((8 - 1) AND 0x003FFFFF) (build_read_capacity_atapi_cmd stack)) st;
          let st = start_packet H port_base st;
          let (timeout, st) = wait_clear H (port_base + 0x38) 1 SATA_WAIT_TIMEOUT st;
          if timeout = 0 then release_port_mem c port_mem (- 1) st
          else do {
          let st = on_mem (\<lambda>m. write32 m (buffer + 4) (be32toh (read32 m (buffer + 4)))) st;
          let st = on_mem (\<lambda>m. write32 m buffer (be32toh (read32 m buffer))) st;
          release_port_mem c port_mem 0 st } } } })"

definition satapi_fail :: "u64 \<Rightarrow> 'h hba \<Rightarrow> u64 \<Rightarrow> u64 \<Rightarrow> mem \<times> 'h \<Rightarrow> (int \<times> mem \<times> 'h) option" where
  "satapi_fail c H port_base port_mem st =
    (let (isr, st) = hread H (port_base + 0x10) st;
         (tfd, st) = hread H (port_base + 0x20) st;
         (serr, st) = hread H (port_base + 0x30) st
     in release_port_mem c port_mem (- 1) st)"

definition sata_ahci_read_sector_satapi ::
    "vmm \<Rightarrow> u8 list \<Rightarrow> u64 \<Rightarrow> 'h hba \<Rightarrow> u64 \<Rightarrow> u32 \<Rightarrow> u16 \<Rightarrow> u64 \<Rightarrow> mem \<times> 'h \<Rightarrow> (int \<times> mem \<times> 'h) option" where
  "sata_ahci_read_sector_satapi v stack c H port_base lba sector_count buffer st =
    (if buffer = 0 \<or> sector_count = 0 then Some (- 1, st) else
     do { (port_mem, m) \<leftarrow> malloc c sizeof_port_mem (fst st);
          if port_mem = 0 then Some (- 1, (m, snd st)) else do {
          let st = (fst (memset m port_mem 0 sizeof_port_mem), snd st);
          let st = set_bases H port_base (virt_to_phys v (port_mem_cl port_mem)) (virt_to_phys v (port_mem_rfis port_mem)) st;
          let (timeout, st) = stop_engines H port_base st;
          if timeout = 0 then satapi_fail c H port_base port_mem st
          else do {
          let byte_count = (ucast sector_count * 2048 :: u32);
          let st = on_mem (build_packet v port_mem buffer ((byte_count - 1) AND 0x003FFFFF) (build_read10_atapi_cmd stack lba sector_count)) st;
          let st = on_mem (\<lambda>m. m(port_mem_ct port_mem + 3 := 0, port_mem_ct port_mem + 11 := 0, port_mem_ct port_mem + 12 := 0, port_mem_ct port_mem + 13 := 0)) st;
          let st = start_packet H port_base st;
          let ((timeout, error), st) =
            wait_command H port_base (push_bit 30 1 OR push_bit 31 1) (SATA_WAIT_TIMEOUT + ucast sector_count * SATA_WAIT_TIMEOUT_PER_SECTOR) st;
          if error \<or> timeout = 0 then satapi_fail c H port_base port_mem st
          else do {
          let (timeout, st) = wait_clear H (port_base + 0x38) 1 SATA_WAIT_TIMEOUT st;
          release_port_mem c port_mem 0 st } } } })"

section \<open>Detection\<close>

definition IO_ALIGN_UP :: "u64 \<Rightarrow> u64 \<Rightarrow> u64" where
  "IO_ALIGN_UP address alignment = (address + (alignment - 1)) AND NOT (alignment - 1)"

text \<open>
  Port \<open>p\<close> of the adapter: the base is 32-bit arithmetic. The results of the commands are not used.
\<close>

definition sata_search_drive :: "u64 \<Rightarrow> 'h hba \<Rightarrow> u64 \<Rightarrow> mem \<times> 'h \<Rightarrow> (mem \<times> 'h) option" where
  "sata_search_drive c H port_base st =
    do { (identify_buffer, m) \<leftarrow> malloc c 512 (fst st);
         (_, st) \<leftarrow> sata_ahci_identify c H port_base identify_buffer (m, snd st);
         let word = read16 (fst st) (identify_buffer + 2 * 117);
         let sector_size = (if word \<noteq> 0 then ucast word else 512 :: u64);
         (read_buffer, m) \<leftarrow> malloc c (IO_ALIGN_UP 600 sector_size) (fst st);
         (_, st) \<leftarrow> sata_ahci_read_sector c H port_base 0 (ucast (IO_ALIGN_UP 600 sector_size div sector_size)) read_buffer (m, snd st);
         m \<leftarrow> free c read_buffer (fst st);
         m \<leftarrow> free c identify_buffer m;
         Some (m, snd st) }"

definition sata_search_packet :: "vmm \<Rightarrow> u8 list \<Rightarrow> u64 \<Rightarrow> 'h hba \<Rightarrow> u64 \<Rightarrow> mem \<times> 'h \<Rightarrow> (mem \<times> 'h) option" where
  "sata_search_packet v stack c H port_base st =
    do { (read_buffer, m) \<leftarrow> malloc c 2048 (fst st);
         (_, st) \<leftarrow> sata_ahci_read_sector_satapi v stack c H port_base 0 1 read_buffer (m, snd st);
         m \<leftarrow> free c read_buffer (fst st);
         Some (m, snd st) }"

definition sata_search_port :: "vmm \<Rightarrow> u8 list \<Rightarrow> u64 \<Rightarrow> 'h hba \<Rightarrow> u32 \<Rightarrow> u32 \<Rightarrow> nat \<Rightarrow> mem \<times> 'h \<Rightarrow> (mem \<times> 'h) option" where
  "sata_search_port v stack c H mmio_base pi p st =
    (if \<not> bit pi p then Some st else
     let port_base = (ucast (mmio_base + 0x100 + of_nat p * 0x80) :: u64);
         (ssts, st) = hread H (port_base + 0x28) st;
         det = (ucast ssts :: u8) AND 0x0F;
         ipm = (ucast (drop_bit 8 ssts) :: u8) AND 0x0F
     in if det \<noteq> 3 \<or> ipm \<noteq> 1 then Some st else
     let (sig, st) = hread H (port_base + 0x24) st
     in if sig = 0x00000101 then sata_search_drive c H port_base st
        else if sig = 0xEB140101 then sata_search_packet v stack c H port_base st
        else Some st)"

fun sata_search_ports :: "vmm \<Rightarrow> u8 list \<Rightarrow> u64 \<Rightarrow> 'h hba \<Rightarrow> u32 \<Rightarrow> u32 \<Rightarrow> nat list \<Rightarrow> mem \<times> 'h \<Rightarrow> (mem \<times> 'h) option" where
  "sata_search_ports v stack c H mmio_base pi [] st = Some st"
| "sata_search_ports v stack c H mmio_base pi (p # ps) st =
    do { st \<leftarrow> sata_search_port v stack c H mmio_base pi p st; sata_search_ports v stack c H mmio_base pi ps st }"

definition sata_search :: "vmm \<Rightarrow> u8 list \<Rightarrow> u64 \<Rightarrow> 'h hba \<Rightarrow> u32 \<Rightarrow> mem \<times> 'h \<Rightarrow> (mem \<times> 'h) option" where
  "sata_search v stack c H mmio_base st =
    (let (pi, st) = hread H (ucast (mmio_base + 0x0C)) st
     in sata_search_ports v stack c H mmio_base pi [0..<32] st)"

end
