(* ===== verification/SataPort.thy ===== *)
theory SataPort
  imports Sata AtaSpec
begin

text \<open>
  What the AHCI driver does to an adapter. The adapter is a reference model of one port: when a command
  is issued it fetches the command header, the command table and the FIS from memory, reads the sectors
  of its disk and scatters them over the regions of the descriptor table. How long its engines take
  to stop and how many polls a command takes are parameters. It takes the addresses it is given as
  addresses of the model's memory, whatever their alignment, so the theorems speak about memory the
  adapter sees where the processor sees it and about structures that happen to lie where an adapter
  wants them.
\<close>

section \<open>The reference adapter\<close>

record port =
  clb :: u64
  fb :: u64
  engines :: u32
  lag :: nat
  pending :: bool
  left :: nat

definition high_low :: "u32 \<Rightarrow> u32 \<Rightarrow> u64" where
  "high_low lo hi = ucast lo OR push_bit 32 (ucast hi)"

text \<open>A descriptor: where a piece of the data goes and how long it is.\<close>

definition prdt_addr :: "mem \<Rightarrow> u64 \<Rightarrow> u64" where
  "prdt_addr m e = high_low (read32 m e) (read32 m (e + 4))"

definition prdt_len :: "mem \<Rightarrow> u64 \<Rightarrow> nat" where
  "prdt_len m e = unat (read32 m (e + 12) AND 0x3FFFFF) + 1"

primrec scatter :: "u64 \<Rightarrow> nat \<Rightarrow> nat \<Rightarrow> u8 list \<Rightarrow> mem \<Rightarrow> mem" where
  "scatter ct 0 i data m = m"
| "scatter ct (Suc n) i data m =
    (let e = prdt_entry ct i; len = prdt_len m e
     in scatter ct n (Suc i) (drop len data) (store_bytes m (prdt_addr m e) (take len data)))"

text \<open>The fields of a register FIS.\<close>

definition fis_lba :: "mem \<Rightarrow> u64 \<Rightarrow> nat" where
  "fis_lba m ct = unat (m (ct + 4)) + 256 * (unat (m (ct + 5)) + 256 * (unat (m (ct + 6)) + 256 * (unat (m (ct + 8)) +
     256 * (unat (m (ct + 9)) + 256 * unat (m (ct + 10))))))"

definition fis_count :: "mem \<Rightarrow> u64 \<Rightarrow> nat" where
  "fis_count m ct = (let n = unat (m (ct + 12)) + 256 * unat (m (ct + 13)) in if n = 0 then 65536 else n)"

definition disk_sectors :: "(nat \<Rightarrow> u8 list) \<Rightarrow> nat \<Rightarrow> nat \<Rightarrow> u8 list" where
  "disk_sectors disk lba n = concat (map disk [lba ..< lba + n])"

definition is_read :: "mem \<Rightarrow> u64 \<Rightarrow> u64 \<Rightarrow> bool" where
  "is_read m hdr ct \<longleftrightarrow> read16 m hdr AND 0x1F = 5 \<and> \<not> bit (read16 m hdr) 6 \<and> m ct = 0x27 \<and> bit (m (ct + 1)) 7 \<and> m (ct + 2) = 0x25"

text \<open>
  Completion: the data, the byte count in the command header, and a status FIS in the received FIS
  area.
\<close>

definition perform :: "(nat \<Rightarrow> u8 list) \<Rightarrow> port \<Rightarrow> mem \<Rightarrow> mem" where
  "perform disk p m =
    (let hdr = clb p; ct = high_low (read32 m (hdr + 8)) (read32 m (hdr + 12)); n = unat (read16 m (hdr + 2)) in
     if is_read m hdr ct then
       let data = disk_sectors disk (fis_lba m ct) (fis_count m ct);
           m = scatter ct n 0 data m;
           m = write32 m (hdr + 4) (of_nat (length data))
       in store_bytes m (fb p + 0x40) ([0x34, 0x40, 0x50] @ replicate 17 0)
     else m)"

definition adapter_read :: "(nat \<Rightarrow> u8 list) \<Rightarrow> u64 \<Rightarrow> u64 \<Rightarrow> mem \<times> port \<Rightarrow> u32 \<times> mem \<times> port" where
  "adapter_read disk pb a st = (case st of (m, p) \<Rightarrow>
    if a = pb + 0x18 then
      (engines p OR (if 0 < lag p \<or> bit (engines p) 0 then push_bit 15 1 else 0) OR
         (if 0 < lag p \<or> bit (engines p) 4 then push_bit 14 1 else 0), m, p\<lparr>lag := lag p - 1\<rparr>)
    else if a = pb + 0x38 then
      if \<not> pending p then (0, m, p)
      else if left p = 0 then (0, perform disk p m, p\<lparr>pending := False\<rparr>)
      else (1, m, p\<lparr>left := left p - 1\<rparr>)
    else (0, m, p))"

definition adapter_write :: "nat \<Rightarrow> nat \<Rightarrow> u64 \<Rightarrow> u64 \<Rightarrow> u32 \<Rightarrow> mem \<times> port \<Rightarrow> mem \<times> port" where
  "adapter_write slow work pb a v st = (case st of (m, p) \<Rightarrow>
    if a = pb then (m, p\<lparr>clb := high_low v (ucast (drop_bit 32 (clb p)))\<rparr>)
    else if a = pb + 4 then (m, p\<lparr>clb := high_low (ucast (clb p)) v\<rparr>)
    else if a = pb + 8 then (m, p\<lparr>fb := high_low v (ucast (drop_bit 32 (fb p)))\<rparr>)
    else if a = pb + 0x0C then (m, p\<lparr>fb := high_low (ucast (fb p)) v\<rparr>)
    else if a = pb + 0x18 then
      (m, p\<lparr>engines := v AND 0x11, lag := (if (v AND 0x11) AND engines p = engines p then lag p else slow)\<rparr>)
    else if a = pb + 0x38 then (if bit v 0 \<and> bit (engines p) 0 then (m, p\<lparr>pending := True, left := work\<rparr>) else (m, p))
    else (m, p))"

definition adapter :: "(nat \<Rightarrow> u8 list) \<Rightarrow> nat \<Rightarrow> nat \<Rightarrow> u64 \<Rightarrow> port hba" where
  "adapter disk slow work pb = \<lparr>hread = adapter_read disk pb, hwrite = adapter_write slow work pb\<rparr>"

section \<open>Registers\<close>

lemma high_low_split [simp]: "high_low (ucast a) (ucast (drop_bit 32 a)) = a"
  unfolding high_low_def by (rule bit_word_eqI) (auto simp: bit_simps)

lemma high_low_parts: "(ucast (high_low lo hi) :: u32) = lo" "(ucast (drop_bit 32 (high_low lo hi)) :: u32) = hi"
  unfolding high_low_def by (rule bit_word_eqI; auto simp: bit_simps dest: bit_imp_le_length)+

lemma adapter_simps:
  "hread (adapter disk slow work pb) (pb + 0x18) (m, p) =
     (engines p OR (if 0 < lag p \<or> bit (engines p) 0 then push_bit 15 1 else 0) OR
        (if 0 < lag p \<or> bit (engines p) 4 then push_bit 14 1 else 0), m, p\<lparr>lag := lag p - 1\<rparr>)"
  "hread (adapter disk slow work pb) (pb + 0x10) (m, p) = (0, m, p)"
  "hwrite (adapter disk slow work pb) pb v (m, p) = (m, p\<lparr>clb := high_low v (ucast (drop_bit 32 (clb p)))\<rparr>)"
  "hwrite (adapter disk slow work pb) (pb + 4) v (m, p) = (m, p\<lparr>clb := high_low (ucast (clb p)) v\<rparr>)"
  "hwrite (adapter disk slow work pb) (pb + 8) v (m, p) = (m, p\<lparr>fb := high_low v (ucast (drop_bit 32 (fb p)))\<rparr>)"
  "hwrite (adapter disk slow work pb) (pb + 0x0C) v (m, p) = (m, p\<lparr>fb := high_low (ucast (fb p)) v\<rparr>)"
  "hwrite (adapter disk slow work pb) (pb + 0x10) v (m, p) = (m, p)"
  "hwrite (adapter disk slow work pb) (pb + 0x18) v (m, p) =
     (m, p\<lparr>engines := v AND 0x11, lag := (if (v AND 0x11) AND engines p = engines p then lag p else slow)\<rparr>)"
  "hwrite (adapter disk slow work pb) (pb + 0x38) v (m, p) =
     (if bit v 0 \<and> bit (engines p) 0 then (m, p\<lparr>pending := True, left := work\<rparr>) else (m, p))"
  "hread (adapter disk slow work pb) (pb + 0x38) (m, p) =
     (if \<not> pending p then (0, m, p) else if left p = 0 then (0, perform disk p m, p\<lparr>pending := False\<rparr>)
      else (1, m, p\<lparr>left := left p - 1\<rparr>))"
  by (simp_all add: adapter_def adapter_read_def adapter_write_def)

lemma set_bases_adapter:
  "set_bases (adapter disk slow work pb) pb cl rf (m, p) = (m, p\<lparr>clb := cl, fb := rf\<rparr>)"
  unfolding set_bases_def Let_def by (simp add: adapter_simps high_low_parts)

definition engine_state :: "u32 \<Rightarrow> bool" where
  "engine_state e \<longleftrightarrow> e \<in> {0, 1, 0x10, 0x11}"

lemma clear_engines:
  assumes "engine_state (engines p)" "msk \<in> {0x01, 0x10, 0x11}"
  shows "\<exists>l \<le> max (lag p) slow. reg_update (adapter disk slow work pb) (pb + 0x18) (\<lambda>v. v AND NOT msk) (m, p) =
    (m, p\<lparr>engines := engines p AND NOT msk, lag := l\<rparr>)"
proof -
  define v where "v = engines p OR (if 0 < lag p \<or> bit (engines p) 0 then push_bit 15 1 else 0) OR
        (if 0 < lag p \<or> bit (engines p) 4 then push_bit 14 1 else 0)"
  have v: "v \<in> {engines p, engines p OR 0x8000, engines p OR 0x4000, engines p OR 0xC000}" unfolding v_def by auto
  have "(v AND NOT msk) AND 0x11 = engines p AND NOT msk"
    using v assms unfolding engine_state_def by (elim insertE emptyE) simp_all
  then have "reg_update (adapter disk slow work pb) (pb + 0x18) (\<lambda>v. v AND NOT msk) (m, p) = (m, p\<lparr>engines := engines p AND NOT msk,
      lag := (if (engines p AND NOT msk) AND engines p = engines p then lag p - 1 else slow)\<rparr>)"
    unfolding reg_update_def adapter_simps v_def [symmetric] Let_def prod.case by simp
  moreover have "(if (engines p AND NOT msk) AND engines p = engines p then lag p - 1 else slow) \<le> max (lag p) slow" by auto
  ultimately show ?thesis by blast
qed

lemma halted_engines:
  assumes "engine_state (engines p)"
  shows "\<exists>l \<le> max (lag p) slow. reg_update (adapter disk slow work pb) (pb + 0x18) (\<lambda>v. v AND NOT (push_bit 4 1))
      (reg_update (adapter disk slow work pb) (pb + 0x18) (\<lambda>v. v AND NOT 0x01) (m, p)) = (m, p\<lparr>engines := 0, lag := l\<rparr>)"
proof -
  obtain l where l: "l \<le> max (lag p) slow" "reg_update (adapter disk slow work pb) (pb + 0x18) (\<lambda>v. v AND NOT 0x01) (m, p) =
      (m, p\<lparr>engines := engines p AND NOT 0x01, lag := l\<rparr>)" using clear_engines [OF assms, of "0x01"] by blast
  let ?p = "p\<lparr>engines := engines p AND NOT 0x01, lag := l\<rparr>"
  have e: "engine_state (engines ?p)" and z: "(engines p AND NOT 0x01) AND NOT 0x10 = 0" using assms by (auto simp: engine_state_def)
  obtain l' where l': "l' \<le> max (lag ?p) slow" "reg_update (adapter disk slow work pb) (pb + 0x18) (\<lambda>v. v AND NOT 0x10) (m, ?p) =
      (m, ?p\<lparr>engines := engines ?p AND NOT 0x10, lag := l'\<rparr>)"
    using clear_engines [OF e, of "0x10" slow disk work pb m] by blast
  moreover have "l' \<le> max (lag p) slow" using l(1) l'(1) by simp
  moreover have "push_bit 4 1 = (0x10 :: u32)" by simp
  ultimately show ?thesis using l(2) z by (intro exI [of _ l']) simp
qed

lemma wait_halted:
  assumes "engines p = 0" "msk \<in> {push_bit 15 1, push_bit 14 1}" "lag p < unat T"
  shows "wait_clear_checked (adapter disk slow work pb) (pb + 0x18) msk T (m, p) = (False, (m, p\<lparr>lag := 0\<rparr>))"
  using assms
proof (induction "lag p" arbitrary: p T)
  case 0
  then have "p\<lparr>lag := lag p - 1\<rparr> = p\<lparr>lag := 0\<rparr>" by simp
  with 0 show ?case by (subst wait_clear_checked.simps) (simp add: adapter_simps)
next
  case (Suc k)
  let ?p = "p\<lparr>lag := lag p - 1\<rparr>"
  have nz: "T \<noteq> 0" using Suc.prems(3) by auto
  note T = nz unat_minus_one [OF nz]
  have "unat (T - 1) \<noteq> 0" using T(2) Suc.hyps(2) Suc.prems(3) by simp
  then have "T - 1 \<noteq> 0" by auto
  moreover have "wait_clear_checked (adapter disk slow work pb) (pb + 0x18) msk (T - 1) (m, ?p) = (False, (m, ?p\<lparr>lag := 0\<rparr>))"
    using Suc T by (intro Suc.hyps(1)) auto
  moreover have "(push_bit 15 1 OR push_bit 14 1 :: u32) AND msk \<noteq> 0" using Suc.prems(2) by auto
  ultimately show ?case using Suc.prems T Suc.hyps(2) by (subst wait_clear_checked.simps) (simp add: adapter_simps)
qed

lemma no_wait:
  assumes "engines p = 0" "lag p = 0"
  shows "wait_clear_forever (adapter disk slow work pb) (pb + 0x18) msk (m, p) = Some (m, p)"
  using assms by (subst wait_clear_forever.simps) (simp add: adapter_simps)

lemma start_engines:
  assumes "engines p = 0" "lag p = 0"
  shows "reg_update (adapter disk slow work pb) (pb + 0x18) (\<lambda>v. v OR 1)
      (reg_update (adapter disk slow work pb) (pb + 0x18) (\<lambda>v. v OR push_bit 4 1) (m, p)) = (m, p\<lparr>engines := 0x11\<rparr>)"
  using assms unfolding reg_update_def by (simp add: adapter_simps)

lemma issue:
  assumes "engines p = 0x11" "\<not> pending p"
  shows "reg_update (adapter disk slow work pb) (pb + 0x38) (\<lambda>v. v OR 1) (m, p) = (m, p\<lparr>pending := True, left := work\<rparr>)"
  using assms unfolding reg_update_def by (simp add: adapter_simps)

text \<open>Polling a command: it completes within the timeout, or the loop gives up.\<close>

lemma wait_completes:
  assumes "pending p" "left p \<le> unat T"
  shows "wait_command (adapter disk slow work pb) pb errors T (m, p) =
    ((T - of_nat (left p), False), (perform disk p m, p\<lparr>left := 0, pending := False\<rparr>))"
  using assms
proof (induction "left p" arbitrary: p T)
  case 0
  then have "p\<lparr>pending := False\<rparr> = p\<lparr>left := 0, pending := False\<rparr>" by simp
  with 0 show ?case by (subst wait_command.simps) (simp add: adapter_simps)
next
  case (Suc k)
  let ?p = "p\<lparr>left := left p - 1\<rparr>"
  have nz: "T \<noteq> 0" using Suc by auto
  note T = nz unat_minus_one [OF nz]
  have "wait_command (adapter disk slow work pb) pb errors (T - 1) (m, ?p) =
      ((T - 1 - of_nat (left ?p), False), (perform disk ?p m, ?p\<lparr>left := 0, pending := False\<rparr>))"
    using Suc T by (intro Suc.hyps(1)) auto
  moreover have "perform disk ?p m = perform disk p m" by (simp add: perform_def Let_def)
  moreover have "T - 1 - of_nat (left ?p) = T - of_nat (left p)" using Suc.hyps(2) [symmetric] by simp
  ultimately show ?case using Suc.prems T Suc.hyps(2) by (subst wait_command.simps) (simp add: adapter_simps)
qed

lemma wait_gives_up:
  assumes "pending p" "unat T < left p"
  shows "\<exists>k. wait_command (adapter disk slow work pb) pb errors T (m, p) = ((- 1, False), (m, p\<lparr>left := k\<rparr>))"
  using assms
proof (induction "unat T" arbitrary: p T)
  case 0
  then show ?case by (subst wait_command.simps) (auto simp: adapter_simps unat_eq_zero)
next
  case (Suc k)
  let ?p = "p\<lparr>left := left p - 1\<rparr>"
  have nz: "T \<noteq> 0" using Suc by auto
  note T = nz unat_minus_one [OF nz]
  have "k = unat (T - 1)" "pending ?p" "unat (T - 1) < left ?p" using Suc.prems Suc.hyps(2) T by auto
  then obtain j where "wait_command (adapter disk slow work pb) pb errors (T - 1) (m, ?p) = ((- 1, False), (m, ?p\<lparr>left := j\<rparr>))"
    using Suc.hyps(1) [of "T - 1" ?p] by blast
  then show ?case using Suc.prems T by (subst wait_command.simps) (auto simp: adapter_simps)
qed

section \<open>The structures in memory\<close>

lemma write16_outside: "x \<notin> region p 2 \<Longrightarrow> write16 m p v x = m x"
  by (simp add: write16_def store_bytes_outside)

lemma read16_cong: "(\<And>x. x \<in> region p 2 \<Longrightarrow> m x = m' x) \<Longrightarrow> read16 m p = read16 m' p"
  unfolding read16_def by (rule arg_cong [where f = le_join], rule bytes_at_cong) (simp add: region_offset)

lemma read16_write16_other:
  assumes "disjoint_regions p 2 q 2"
  shows "read16 (write16 m p v) q = read16 m q"
proof (rule read16_cong)
  fix x assume "x \<in> region q 2"
  then have "x \<notin> region p 2" using assms by (auto simp: disjoint_regions_def)
  then show "write16 m p v x = m x" by (rule write16_outside)
qed

lemma in_sub: "x \<in> region (p + of_nat a) k \<Longrightarrow> a + k \<le> n \<Longrightarrow> n \<le> 2 ^ 64 \<Longrightarrow> x \<in> region p n"
  using region_shift [of k a n p] by (auto simp: add.commute)

lemma set_prdt_entry:
  shows "x \<notin> region e 16 \<Longrightarrow> set_prdt_entry e buf dbc m x = m x"
    and "prdt_addr (set_prdt_entry e buf dbc m) e = buf"
    and "prdt_len (set_prdt_entry e buf dbc m) e = unat (dbc AND 0x3FFFFF) + 1"
proof -
  have d: "disjoint_regions (e + 4) 4 e 4" "disjoint_regions (e + 12) 4 e 4" "disjoint_regions (e + 12) 4 (e + 4) 4"
    by (rule disjoint_regions_diff; simp)+
  show "set_prdt_entry e buf dbc m x = m x" if "x \<notin> region e 16"
  proof -
    have "x \<notin> region e 4" "x \<notin> region (e + 4) 4" "x \<notin> region (e + 12) 4"
      using that in_sub [of x e 0 4 16] in_sub [of x e 4 4 16] in_sub [of x e 12 4 16] by auto
    then show ?thesis by (simp add: set_prdt_entry_def Let_def write32_outside)
  qed
  show "prdt_addr (set_prdt_entry e buf dbc m) e = buf"
    unfolding prdt_addr_def set_prdt_entry_def Let_def by (simp add: read32_write32_other d read32_write32)
  have "((x AND NOT 0x3FFFFF OR (dbc AND 0x3FFFFF)) OR push_bit 31 1) AND 0x3FFFFF = dbc AND 0x3FFFFF" for x :: u32
  proof -
    have mask: "(0x3FFFFF :: u32) = mask 22" by (simp add: mask_eq_exp_minus_1)
    have b31: "push_bit 31 1 = (2 ^ 31 :: u32)" by simp
    show ?thesis unfolding mask b31
      by (rule bit_word_eqI) (auto simp only: bit_and_iff bit_or_iff bit_not_iff bit_mask_iff bit_exp_iff)
  qed
  then show "prdt_len (set_prdt_entry e buf dbc m) e = unat (dbc AND 0x3FFFFF) + 1"
    unfolding prdt_len_def set_prdt_entry_def Let_def by (simp add: read32_write32)
qed

lemma prdt_cong:
  assumes "\<And>x. x \<in> region e 16 \<Longrightarrow> m x = m' x"
  shows "prdt_addr m e = prdt_addr m' e" "prdt_len m e = prdt_len m' e"
proof -
  have "m x = m' x" if "x \<in> region e 4 \<or> x \<in> region (e + 4) 4 \<or> x \<in> region (e + 12) 4" for x
    using that assms in_sub [of x e 0 4 16] in_sub [of x e 4 4 16] in_sub [of x e 12 4 16] by auto
  then have "read32 m e = read32 m' e" "read32 m (e + 4) = read32 m' (e + 4)" "read32 m (e + 12) = read32 m' (e + 12)"
    by (auto intro: read32_cong)
  then show "prdt_addr m e = prdt_addr m' e" "prdt_len m e = prdt_len m' e" by (simp_all add: prdt_addr_def prdt_len_def)
qed

text \<open>The descriptors of a table.\<close>

lemma prdt_apart: "i \<noteq> j \<Longrightarrow> i < 2 ^ 32 \<Longrightarrow> j < 2 ^ 32 \<Longrightarrow> disjoint_regions (prdt_entry ct i) 16 (prdt_entry ct j) 16"
  unfolding prdt_entry_def by (rule disjoint_offsets) auto

lemma fill_prdt_spec:
  assumes "i + n \<le> 2 ^ 16"
  shows "fst (fill_prdt ct n i buf r m) = (i + n, buf + of_nat (8192 * n), r - of_nat (16 * n))"
    and "(\<And>k. i \<le> k \<Longrightarrow> k < i + n \<Longrightarrow> x \<notin> region (prdt_entry ct k) 16) \<Longrightarrow> snd (fill_prdt ct n i buf r m) x = m x"
    and "i \<le> k \<Longrightarrow> k < i + n \<Longrightarrow> prdt_addr (snd (fill_prdt ct n i buf r m)) (prdt_entry ct k) = buf + of_nat (8192 * (k - i))"
    and "i \<le> k \<Longrightarrow> k < i + n \<Longrightarrow> prdt_len (snd (fill_prdt ct n i buf r m)) (prdt_entry ct k) = 8192"
  using assms
proof (induction n arbitrary: i buf r m x k)
  case (Suc n)
  have rest: "snd (fill_prdt ct n (Suc i) buf' r m') x = m' x" if "x \<in> region (prdt_entry ct i) 16" "i + Suc n \<le> 2 ^ 16" for x i buf' r m'
  proof (rule Suc.IH(2))
    fix k assume "Suc i \<le> k" "k < Suc i + n"
    then have "disjoint_regions (prdt_entry ct i) 16 (prdt_entry ct k) 16" using that(2) by (intro prdt_apart) auto
    then show "x \<notin> region (prdt_entry ct k) 16" using that(1) by (auto simp: disjoint_regions_def)
  qed (use that in simp)
  { case 1 then show ?case using Suc.IH(1) [of "Suc i"] by (simp add: algebra_simps) }
  { case 2 then show ?case using Suc.IH(2) [of "Suc i"] set_prdt_entry(1) [of x "prdt_entry ct i"] by force }
  { case 3 show ?case
    proof (cases "k = i")
      case True
      let ?m = "set_prdt_entry (prdt_entry ct i) buf (8 * 1024 - 1) m"
      have "prdt_addr (snd (fill_prdt ct n (Suc i) (buf + 8 * 1024) (r - 16) ?m)) (prdt_entry ct i) = prdt_addr ?m (prdt_entry ct i)"
        using 3(3) by (intro prdt_cong(1) rest)
      with True show ?thesis using set_prdt_entry(2) [of "prdt_entry ct i" buf "8 * 1024 - 1" m] by simp
    next
      case False
      then have "8192 * (k - i) = 8192 + 8192 * (k - Suc i)" using 3 by (cases "k - i") auto
      with 3 False Suc.IH(3) [of "Suc i"] show ?thesis by (simp add: add.assoc)
    qed }
  { case 4 show ?case
    proof (cases "k = i")
      case True
      let ?m = "set_prdt_entry (prdt_entry ct i) buf (8 * 1024 - 1) m"
      have "prdt_len (snd (fill_prdt ct n (Suc i) (buf + 8 * 1024) (r - 16) ?m)) (prdt_entry ct i) = prdt_len ?m (prdt_entry ct i)"
        using 4(3) by (intro prdt_cong(2) rest)
      with True show ?thesis using set_prdt_entry(3) [of "prdt_entry ct i" buf "8 * 1024 - 1" m] by simp
    next
      case False
      with 4 Suc.IH(4) [of "Suc i"] show ?thesis by simp
    qed }
qed simp_all

section \<open>A read command\<close>

lemma memset_spec: "fst (memset m p v n) x = (if x \<in> region p (unat n) then ucast v else m x)"
  by (simp add: memset_def memset_loop_spec)

lemma last_length:
  assumes "1 \<le> j" "j \<le> 16"
  shows "unat ((push_bit 9 (of_nat j :: u32) - 1) AND 0x3FFFFF) + 1 = 512 * j"
proof -
  have "push_bit 9 (of_nat j :: u32) = of_nat (512 * j)" by (simp add: push_bit_eq_mult mult.commute)
  moreover have "of_nat (512 * j) - 1 = (of_nat (512 * j - 1) :: u32)" using assms by (subst of_nat_diff) auto
  moreover have "(0x3FFFFF :: u32) = mask 22" by (simp add: mask_eq_exp_minus_1)
  ultimately have "unat ((push_bit 9 (of_nat j :: u32) - 1) AND 0x3FFFFF) = take_bit 22 (unat (of_nat (512 * j - 1) :: u32))"
    by (simp only: take_bit_eq_mask [symmetric] unsigned_take_bit_eq)
  also have "unat (of_nat (512 * j - 1) :: u32) = 512 * j - 1"
    unfolding unat_of_nat using assms by simp
  also have "take_bit 22 (512 * j - 1) = 512 * j - 1" using assms by (intro take_bit_nat_eq_self) simp
  finally show ?thesis using assms by simp
qed

definition entries :: "u16 \<Rightarrow> nat" where
  "entries n = (unat n + 15) div 16"

lemma entries_bounds:
  assumes "0 < unat n" "unat n \<le> 8064"
  shows "0 < entries n" "entries n \<le> 504" "1 \<le> unat n - 16 * (entries n - 1)" "unat n - 16 * (entries n - 1) \<le> 16"
    "16 * (entries n - 1) \<le> unat n"
  using assms unfolding entries_def by auto

text \<open>The three parts of the command: header, descriptor table, FIS.\<close>

definition read_header :: "u64 \<Rightarrow> u16 \<Rightarrow> mem \<Rightarrow> mem" where
  "read_header pm n m = set_header_ctba pm (pm + 1280) (fst (memset (set_header_prdt_length pm (of_nat (entries n))
     (set_header_flags pm 5 (fst (memset m pm 0 32)))) (pm + 1280) 0 144))"

definition read_table :: "u64 \<Rightarrow> u16 \<Rightarrow> u64 \<Rightarrow> mem \<Rightarrow> mem" where
  "read_table ct n buf m = set_prdt_entry (prdt_entry ct (entries n - 1)) (buf + of_nat (8192 * (entries n - 1)))
     (push_bit 9 (ucast n - of_nat (16 * (entries n - 1))) - 1) (snd (fill_prdt ct (entries n - 1) 0 buf (ucast n) m))"

definition read_fis :: "u64 \<Rightarrow> u64 \<Rightarrow> u16 \<Rightarrow> mem \<Rightarrow> mem" where
  "read_fis ct lba n m = fis_lba_count ct lba n (fis_device ct (push_bit 6 1) (fis_command ct 0x25 (fst (memset m ct 0 sizeof_fis))))"

lemma build_read_parts:
  assumes "0 < unat n" "unat n \<le> 8064"
  shows "build_read pm lba n buf m = read_fis (pm + 1280) lba n (read_table (pm + 1280) n buf (read_header pm n m))"
proof -
  note e = entries_bounds [OF assms]
  have lim: "\<not> entries n > 65535" using e(2) by simp
  have f: "fst (fill_prdt ct (entries n - 1) 0 buf r m) = (entries n - 1, buf + of_nat (8192 * (entries n - 1)), r - of_nat (16 * (entries n - 1)))" for ct r m
    using fill_prdt_spec(1) [of 0 "entries n - 1"] e(2) by simp
  show ?thesis
    unfolding build_read_def read_header_def read_table_def read_fis_def port_mem_cl_def port_mem_ct_def Let_def entries_def [symmetric]
    using lim f by (simp add: split_beta)
qed

lemma read_fis_spec:
  shows "x \<notin> region ct 20 \<Longrightarrow> read_fis ct lba n m x = m x"
    and "read_fis ct lba n m ct = 0x27" "bit (read_fis ct lba n m (ct + 1)) 7" "read_fis ct lba n m (ct + 2) = 0x25"
    and "unat lba < 2 ^ 48 \<Longrightarrow> fis_lba (read_fis ct lba n m) ct = unat lba"
    and "unat n \<noteq> 0 \<Longrightarrow> fis_count (read_fis ct lba n m) ct = unat n"
proof -
  have in20: "ct + of_nat k \<in> region ct 20" if "k < 20" for k using region_offset [of k 20 ct] that by simp
  show "read_fis ct lba n m x = m x" if "x \<notin> region ct 20"
  proof -
    have "x \<noteq> ct + of_nat k" if "k < 20" for k using in20 [OF that] \<open>x \<notin> region ct 20\<close> by auto
    note ne = this [of 0] this [of 1] this [of 2] this [of 4] this [of 5] this [of 6] this [of 7] this [of 8] this [of 9] this [of 10] this [of 12] this [of 13]
    show ?thesis using ne that
      unfolding read_fis_def fis_lba_count_def fis_device_def fis_command_def Let_def
      by (simp add: memset_spec sizeof_fis_def)
  qed
  show "read_fis ct lba n m ct = 0x27" "read_fis ct lba n m (ct + 2) = 0x25"
    unfolding read_fis_def fis_lba_count_def fis_device_def fis_command_def Let_def by simp_all
  have "fst (memset m ct 0 sizeof_fis) (ct + 1) = 0" using in20 [of 1] by (simp add: memset_spec sizeof_fis_def)
  then show "bit (read_fis ct lba n m (ct + 1)) 7"
    unfolding read_fis_def fis_lba_count_def fis_device_def fis_command_def Let_def by simp
  have b: "read_fis ct lba n m (ct + 4) = ucast (lba AND 0xFF)" "read_fis ct lba n m (ct + 5) = ucast (drop_bit 8 lba AND 0xFF)"
    "read_fis ct lba n m (ct + 6) = ucast (drop_bit 16 lba AND 0xFF)" "read_fis ct lba n m (ct + 8) = ucast (drop_bit 24 lba AND 0xFF)"
    "read_fis ct lba n m (ct + 9) = ucast (drop_bit 32 lba AND 0xFF)" "read_fis ct lba n m (ct + 10) = ucast (drop_bit 40 lba AND 0xFF)"
    "read_fis ct lba n m (ct + 12) = ucast (n AND 0xFF)" "read_fis ct lba n m (ct + 13) = ucast (drop_bit 8 n AND 0xFF)"
    unfolding read_fis_def fis_lba_count_def by simp_all
  show "fis_lba (read_fis ct lba n m) ct = unat lba" if "unat lba < 2 ^ 48"
    unfolding fis_lba_def b low_byte using digits_256(1-5) [of "unat lba"] that by simp
  show "fis_count (read_fis ct lba n m) ct = unat n" if "unat n \<noteq> 0"
    unfolding fis_count_def Let_def b low_byte using digits_256(1) [of "unat n"] that unat_lt_2p16 [of n] by simp
qed

lemma read_header_spec:
  shows "x \<notin> region pm 9472 \<Longrightarrow> read_header pm n m x = m x"
    and "read16 (read_header pm n m) pm = 5" "read16 (read_header pm n m) (pm + 2) = of_nat (entries n)"
    and "read32 (read_header pm n m) (pm + 8) = ucast (pm + 1280)" "read32 (read_header pm n m) (pm + 12) = ucast (drop_bit 32 (pm + 1280))"
proof -
  let ?h = "set_header_prdt_length pm (of_nat (entries n)) (set_header_flags pm 5 (fst (memset m pm 0 32)))"
  let ?m = "fst (memset ?h (pm + 1280) 0 144)"
  have sub: "x \<in> region pm 9472" if "x \<in> region (pm + of_nat a) k" "a + k \<le> 9472" for x a k using that in_sub [of x pm a k 9472] by simp
  show "read_header pm n m x = m x" if x: "x \<notin> region pm 9472"
  proof -
    have "x \<notin> region pm 2" "x \<notin> region (pm + 2) 2" "x \<notin> region pm 32" "x \<notin> region (pm + 1280) 144" "x \<notin> region (pm + 8) 4" "x \<notin> region (pm + 12) 4"
      using x sub [of x 0 2] sub [of x 2 2] sub [of x 0 32] sub [of x 1280 144] sub [of x 8 4] sub [of x 12 4] by auto
    then show ?thesis
      by (simp add: read_header_def set_header_ctba_def set_header_prdt_length_def set_header_flags_def memset_spec write16_outside write32_outside)
  qed
  have d: "disjoint_regions (pm + 1280) 144 pm 2" "disjoint_regions (pm + 1280) 144 (pm + 2) 2" "disjoint_regions (pm + 8) 4 pm 2" "disjoint_regions (pm + 8) 4 (pm + 2) 2"
    "disjoint_regions (pm + 12) 4 pm 2" "disjoint_regions (pm + 12) 4 (pm + 2) 2" "disjoint_regions (pm + 2) 2 pm 2" "disjoint_regions (pm + 12) 4 (pm + 8) 4"
    by (rule disjoint_regions_diff; simp)+
  have low: "read16 (read_header pm n m) a = read16 ?h a" if a: "a = pm \<or> a = pm + 2" for a
  proof (rule read16_cong)
    fix x assume x: "x \<in> region a 2"
    have "disjoint_regions (pm + 1280) 144 a 2" "disjoint_regions (pm + 8) 4 a 2" "disjoint_regions (pm + 12) 4 a 2" using a d(1-6) by auto
    then have "x \<notin> region (pm + 1280) 144" "x \<notin> region (pm + 8) 4" "x \<notin> region (pm + 12) 4"
      using x by (auto simp: disjoint_regions_def)
    then show "read_header pm n m x = ?h x"
      unfolding read_header_def set_header_ctba_def by (simp add: write32_outside memset_spec)
  qed
  have "read16 ?h pm = read16 (set_header_flags pm 5 (fst (memset m pm 0 32))) pm"
    unfolding set_header_prdt_length_def by (rule read16_write16_other [OF d(7)])
  with low show "read16 (read_header pm n m) pm = 5" by (simp add: set_header_flags_def read16_write16)
  show "read16 (read_header pm n m) (pm + 2) = of_nat (entries n)"
    using low by (simp add: set_header_prdt_length_def read16_write16)
  show "read32 (read_header pm n m) (pm + 8) = ucast (pm + 1280)" "read32 (read_header pm n m) (pm + 12) = ucast (drop_bit 32 (pm + 1280))"
    unfolding read_header_def set_header_ctba_def by (simp_all add: read32_write32_other d(8) read32_write32)
qed

lemma read_table_spec:
  assumes "0 < unat n" "unat n \<le> 8064"
  shows "x \<notin> region (ct + 128) (16 * entries n) \<Longrightarrow> read_table ct n buf m x = m x"
    and "k < entries n \<Longrightarrow> prdt_addr (read_table ct n buf m) (prdt_entry ct k) = buf + of_nat (8192 * k)"
    and "k < entries n \<Longrightarrow> prdt_len (read_table ct n buf m) (prdt_entry ct k) = (if k = entries n - 1 then 512 * (unat n - 16 * k) else 8192)"
proof -
  note e = entries_bounds [OF assms]
  let ?l = "entries n - 1" let ?f = "snd (fill_prdt ct ?l 0 buf (ucast n) m)"
  have len: "0 + ?l \<le> 2 ^ 16" using e(2) by simp
  note f = fill_prdt_spec [OF len, where ct = ct and buf = buf and r = "ucast n" and m = m]
  have "x \<notin> region (prdt_entry ct k) 16" if "x \<notin> region (ct + 128) (16 * entries n)" "k < entries n" for x k
    using that in_sub [of x "ct + 128" "16 * k" 16 "16 * entries n"] e(2) by (auto simp: prdt_entry_def)
  then show "read_table ct n buf m x = m x" if "x \<notin> region (ct + 128) (16 * entries n)"
    unfolding read_table_def using that e(1) f(2) [of x] by (simp add: set_prdt_entry(1))
  have other: "read_table ct n buf m z = ?f z" if "z \<in> region (prdt_entry ct k) 16" "k < ?l" for z k
  proof -
    have "disjoint_regions (prdt_entry ct k) 16 (prdt_entry ct ?l) 16" using that e(2) by (intro prdt_apart) auto
    then show ?thesis using that(1) unfolding read_table_def disjoint_regions_def by (auto intro: set_prdt_entry(1))
  qed
  show "prdt_addr (read_table ct n buf m) (prdt_entry ct k) = buf + of_nat (8192 * k)" if "k < entries n"
  proof (cases "k = ?l")
    case True
    then show ?thesis unfolding read_table_def by (simp only: set_prdt_entry(2))
  next
    case False
    then have k: "k < ?l" using that by simp
    with prdt_cong(1) [OF other [OF _ k]] f(3) [of k] show ?thesis by simp
  qed
  show "prdt_len (read_table ct n buf m) (prdt_entry ct k) = (if k = ?l then 512 * (unat n - 16 * k) else 8192)" if "k < entries n"
  proof (cases "k = ?l")
    case True
    have "(ucast n :: u32) = of_nat (unat n)" by (simp add: unsigned_ucast_eq)
    then have r: "(ucast n :: u32) - of_nat (16 * ?l) = of_nat (unat n - 16 * ?l)" by (simp only: of_nat_diff [OF e(5)])
    show ?thesis unfolding read_table_def True set_prdt_entry(3) r last_length [OF e(3,4)] by simp
  next
    case False
    then have k: "k < ?l" using that by simp
    with prdt_cong(2) [OF other [OF _ k]] f(4) [of k] False show ?thesis by simp
  qed
qed

end
