(* ===== verification/SataSpec.thy ===== *)
theory SataSpec
  imports SataPort
begin

text \<open>
  What \<open>sata_ahci_read_sector\<close> does with the reference adapter of the port theory, from a reachable
  state of the kernel heap: the structures it builds describe the requested transfer, the adapter
  fills the buffer, and nothing else that is allocated changes.
\<close>

section \<open>The command as the adapter finds it\<close>

lemma build_read_spec:
  assumes "0 < unat n" "unat n \<le> 8064"
  shows "x \<notin> region pm 9472 \<Longrightarrow> build_read pm lba n buf m x = m x"
    and "is_read (build_read pm lba n buf m) pm (pm + 1280)"
    and "read16 (build_read pm lba n buf m) (pm + 2) = of_nat (entries n)"
    and "high_low (read32 (build_read pm lba n buf m) (pm + 8)) (read32 (build_read pm lba n buf m) (pm + 12)) = pm + 1280"
    and "unat lba < 2 ^ 48 \<Longrightarrow> fis_lba (build_read pm lba n buf m) (pm + 1280) = unat lba"
    and "fis_count (build_read pm lba n buf m) (pm + 1280) = unat n"
    and "k < entries n \<Longrightarrow> prdt_addr (build_read pm lba n buf m) (prdt_entry (pm + 1280) k) = buf + of_nat (8192 * k)"
    and "k < entries n \<Longrightarrow> prdt_len (build_read pm lba n buf m) (prdt_entry (pm + 1280) k) =
      (if k = entries n - 1 then 512 * (unat n - 16 * k) else 8192)"
proof -
  note e = entries_bounds [OF assms]
  let ?ct = "pm + 1280" let ?h = "read_header pm n m" let ?t = "read_table ?ct n buf ?h" let ?m = "build_read pm lba n buf m"
  note parts = build_read_parts [OF assms, of pm lba buf m]
  note t = read_table_spec [OF assms, where ct = ?ct and buf = buf and m = ?h]
  note f = read_fis_spec [where ct = ?ct and lba = lba and n = n and m = ?t]
  have out: "?m x = ?h x" if "x \<notin> region ?ct 20" "x \<notin> region (pm + 1408) (16 * entries n)" for x
    unfolding parts using f(1) [OF that(1)] t(1) [of x] that(2) by (simp add: add.assoc)
  show "?m x = m x" if x: "x \<notin> region pm 9472"
  proof -
    have "x \<notin> region ?ct 20" "x \<notin> region (pm + 1408) (16 * entries n)"
      using x in_sub [of x pm 1280 20 9472] in_sub [of x pm 1408 "16 * entries n" 9472] e(2) by auto
    then show ?thesis using out read_header_spec(1) [OF x] by simp
  qed
  have head: "?m x = ?h x" if "x \<in> region (pm + of_nat a) k" "a + k \<le> 32" for x a k
  proof (rule out)
    have "x \<in> region pm 32" using that in_sub [of x pm a k 32] by simp
    moreover have "disjoint_regions pm 32 ?ct 20" "disjoint_regions pm 32 (pm + 1408) (16 * entries n)"
      using e(2) by (auto intro: disjoint_regions_diff)
    ultimately show "x \<notin> region ?ct 20" "x \<notin> region (pm + 1408) (16 * entries n)" by (auto simp: disjoint_regions_def)
  qed
  have h: "read16 ?m pm = read16 ?h pm" "read16 ?m (pm + 2) = read16 ?h (pm + 2)"
    "read32 ?m (pm + 8) = read32 ?h (pm + 8)" "read32 ?m (pm + 12) = read32 ?h (pm + 12)"
    using head [of _ 0 2] head [of _ 2 2] head [of _ 8 4] head [of _ 12 4]
    by (auto intro: read16_cong read32_cong)
  show "read16 ?m (pm + 2) = of_nat (entries n)" "high_low (read32 ?m (pm + 8)) (read32 ?m (pm + 12)) = ?ct"
    by (simp_all only: h read_header_spec high_low_split)
  have "read16 ?m pm = 5" by (simp only: h read_header_spec)
  moreover have "?m ?ct = 0x27" "bit (?m (?ct + 1)) 7" "?m (?ct + 2) = 0x25" unfolding parts by (rule f(2-4))+
  ultimately show "is_read ?m pm ?ct" by (simp add: is_read_def add.assoc)
  show "fis_lba ?m ?ct = unat lba" if "unat lba < 2 ^ 48" unfolding parts by (rule f(5) [OF that])
  show "fis_count ?m ?ct = unat n" unfolding parts by (rule f(6)) (use assms in simp)
  have tab: "?m x = ?t x" if "x \<in> region (prdt_entry ?ct k) 16" "k < entries n" for x k
  proof -
    have "disjoint_regions ?ct 20 (prdt_entry ?ct k) 16"
      using disjoint_offsets [of 0 20 "128 + 16 * k" 16 ?ct] that(2) e(2) by (simp add: prdt_entry_def add.assoc)
    then have "x \<notin> region ?ct 20" using that(1) by (auto simp: disjoint_regions_def)
    then show ?thesis unfolding parts by (rule f(1))
  qed
  show "prdt_addr ?m (prdt_entry ?ct k) = buf + of_nat (8192 * k)" if "k < entries n"
    using prdt_cong(1) [OF tab [OF _ that]] t(2) [OF that] by simp
  show "prdt_len ?m (prdt_entry ?ct k) = (if k = entries n - 1 then 512 * (unat n - 16 * k) else 8192)" if "k < entries n"
    using prdt_cong(2) [OF tab [OF _ that]] t(3) [OF that] by simp
qed

text \<open>Scattering over consecutive descriptors stores the data in one piece.\<close>

lemma scatter_spec:
  assumes "i + N = entries n" "length data = 512 * unat n - 8192 * i" "0 < unat n" "unat n \<le> 8064"
    and "\<And>k. k < entries n \<Longrightarrow> prdt_addr m (prdt_entry ct k) = buf + of_nat (8192 * k)"
    and "\<And>k. k < entries n \<Longrightarrow> prdt_len m (prdt_entry ct k) = (if k = entries n - 1 then 512 * (unat n - 16 * k) else 8192)"
    and apart: "disjoint_regions buf (512 * unat n) (ct + 128) (16 * entries n)"
  shows "scatter ct N i data m = store_bytes m (buf + of_nat (8192 * i)) data"
  using assms(1,2,5,6)
proof (induction N arbitrary: i data m)
  case 0
  then have "data = []" using assms(3,4) unfolding entries_def by auto
  then show ?case by simp
next
  case (Suc N)
  note e = entries_bounds [OF assms(3,4)]
  have i: "i < entries n" using Suc.prems(1) by simp
  show ?case
  proof (cases "N = 0")
    case True
    then have "i = entries n - 1" using Suc.prems(1) by simp
    then have "prdt_len m (prdt_entry ct i) = length data" using Suc.prems(2,4) i by (simp add: diff_mult_distrib2)
    then show ?thesis using True Suc.prems(3) [OF i] by (simp add: Let_def)
  next
    case False
    let ?m = "store_bytes m (buf + of_nat (8192 * i)) (take 8192 data)"
    have len: "prdt_len m (prdt_entry ct i) = 8192"
    proof -
      have "i \<noteq> entries n - 1" using Suc.prems(1) False by linarith
      then show ?thesis using Suc.prems(4) [OF i] by simp
    qed
    have "Suc i \<le> entries n - 1" using Suc.prems(1) False by simp
    then have "16 * Suc i \<le> 16 * (entries n - 1)" by (rule mult_le_mono2)
    also note e(5)
    finally have "16 * Suc i \<le> unat n" .
    then have full: "8192 \<le> length data" "8192 * i + 8192 \<le> 512 * unat n" using Suc.prems(2) by auto
    have keep: "?m x = m x" if "x \<in> region (prdt_entry ct k) 16" "k < entries n" for x k
    proof (rule store_bytes_outside)
      have "x \<in> region (ct + 128) (16 * entries n)"
        using that in_sub [of x "ct + 128" "16 * k" 16 "16 * entries n"] e(2) by (simp add: prdt_entry_def)
      then have "x \<notin> region buf (512 * unat n)" using apart by (auto simp: disjoint_regions_def)
      then show "x \<notin> region (buf + of_nat (8192 * i)) (length (take 8192 data))"
        using in_sub [of x buf "8192 * i" 8192 "512 * unat n"] full assms(4) by auto
    qed (use full in simp)
    have "scatter ct N (Suc i) (drop 8192 data) ?m = store_bytes ?m (buf + of_nat (8192 * Suc i)) (drop 8192 data)"
    proof (rule Suc.IH)
      show "prdt_addr ?m (prdt_entry ct k) = buf + of_nat (8192 * k)" if "k < entries n" for k
        using prdt_cong(1) [OF keep [OF _ that]] Suc.prems(3) [OF that] by simp
      show "prdt_len ?m (prdt_entry ct k) = (if k = entries n - 1 then 512 * (unat n - 16 * k) else 8192)" if "k < entries n" for k
        using prdt_cong(2) [OF keep [OF _ that]] Suc.prems(4) [OF that] by simp
    qed (use Suc.prems in auto)
    moreover have "buf + of_nat (8192 * Suc i) = (buf + of_nat (8192 * i)) + of_nat (length (take 8192 data))"
      using full by (simp add: algebra_simps)
    ultimately show ?thesis
      using store_bytes_append [of m "buf + of_nat (8192 * i)" "take 8192 data" "drop 8192 data"] len Suc.prems(3) [OF i] by (simp add: Let_def ac_simps)
  qed
qed

lemma length_disk_sectors: "\<forall>s. length (disk s) = 512 \<Longrightarrow> length (disk_sectors disk lba n) = 512 * n"
  by (simp add: disk_sectors_def length_concat comp_def sum_list_triv)

lemma perform_read:
  assumes n: "0 < unat n" "unat n \<le> 8064" and lba: "unat lba < 2 ^ 48" and disk: "\<forall>s. length (disk s) = 512"
    and apart: "disjoint_regions buf (512 * unat n) pm 9472" and p: "clb p = pm" "fb p = pm + 1024"
  shows "bytes_at (perform disk p (build_read pm lba n buf m)) buf (512 * unat n) = disk_sectors disk (unat lba) (unat n)"
    and "x \<notin> region buf (512 * unat n) \<Longrightarrow> x \<notin> region pm 9472 \<Longrightarrow> perform disk p (build_read pm lba n buf m) x = m x"
proof -
  note b = build_read_spec [OF n, where pm = pm and lba = lba and buf = buf and m = m]
  let ?m = "build_read pm lba n buf m" let ?d = "disk_sectors disk (unat lba) (unat n)"
  let ?w = "store_bytes (write32 (store_bytes ?m buf ?d) (pm + 4) (of_nat (length ?d))) (pm + 1024 + 0x40) ([0x34, 0x40, 0x50] @ replicate 17 0)"
  note e = entries_bounds [OF n] note len = length_disk_sectors [of disk "unat lba" "unat n", OF disk]
  have num: "unat (read16 ?m (pm + 2)) = entries n" unfolding b(3) using e(2) by (simp add: unat_of_nat take_bit_nat_eq_self)
  have "region (pm + 1280 + 128) (16 * entries n) \<subseteq> region pm 9472"
    using region_shift [of "16 * entries n" 1408 9472 pm] e(2) by (simp add: add.assoc)
  then have dis: "disjoint_regions buf (512 * unat n) (pm + 1280 + 128) (16 * entries n)" using apart by (auto simp: disjoint_regions_def)
  have "scatter (pm + 1280) (entries n) 0 ?d ?m = store_bytes ?m (buf + of_nat (8192 * 0)) ?d"
    by (rule scatter_spec [OF _ _ n b(7,8) dis]) (use len in auto)
  then have eq: "perform disk p ?m = ?w"
    unfolding perform_def Let_def p b(4) num b(5) [OF lba] b(6) using b(2) by simp
  have out: "?w x = store_bytes ?m buf ?d x" if "x \<notin> region pm 9472" for x
  proof -
    have "x \<notin> region (pm + 4) 4" "x \<notin> region (pm + 1024 + 0x40) 20"
      using that in_sub [of x pm 4 4 9472] in_sub [of x pm 1088 20 9472] by (auto simp: add.assoc)
    then show ?thesis by (simp add: store_bytes_outside write32_outside del: store_bytes.simps append.simps)
  qed
  show "bytes_at (perform disk p ?m) buf (512 * unat n) = ?d" unfolding eq
  proof -
    have "bytes_at ?w buf (512 * unat n) = bytes_at (store_bytes ?m buf ?d) buf (512 * unat n)"
    proof (rule bytes_at_cong, rule out)
      fix i assume "i < 512 * unat n"
      then have "buf + of_nat i \<in> region buf (512 * unat n)" using n(2) by (intro region_offset) auto
      then show "buf + of_nat i \<notin> region pm 9472" using apart by (auto simp: disjoint_regions_def)
    qed
    also have "\<dots> = ?d" by (rule bytes_at_store_bytes) (use len n(2) in auto)
    finally show "bytes_at ?w buf (512 * unat n) = ?d" .
  qed
  show "perform disk p ?m x = m x" if x: "x \<notin> region buf (512 * unat n)" "x \<notin> region pm 9472"
    unfolding eq using out [OF x(2)] b(1) [OF x(2)] x(1) len n(2) by (simp add: store_bytes_outside)
qed

section \<open>The driver up to completion\<close>

lemma clear_halted:
  assumes "engines p = 0" "lag p = 0"
  shows "reg_update (adapter disk slow work pb) (pb + 0x18) (\<lambda>v. v AND NOT msk) (m, p) = (m, p)"
proof -
  have "p\<lparr>engines := 0, lag := 0\<rparr> = p" using assms by simp
  with assms show ?thesis unfolding reg_update_def by (simp add: adapter_simps)
qed

lemma cache_loops:
  assumes "unat addr + unat sz \<le> 2 ^ 64 - 64"
  shows "\<exists>l. phys_invalidate_cache addr sz = Some l" "\<exists>l. phys_flush_cache addr sz = Some l"
proof -
  have al: "aligned 6 (addr AND NOT 63)"
    using aligned_align_down [of 6 addr] by (simp add: align_down_def mask_eq_exp_minus_1)
  have "unat (addr + sz) \<le> 2 ^ 64 - 64" using assms by (simp add: unat_word_ariths)
  then show "\<exists>l. phys_invalidate_cache addr sz = Some l" "\<exists>l. phys_flush_cache addr sz = Some l"
    using flush_lines_spec [OF al, of "addr + sz" "[]"] unfolding phys_invalidate_cache_def phys_flush_cache_def by blast+
qed

text \<open>The port when a read command has been issued.\<close>

definition issued :: "nat \<Rightarrow> u64 \<Rightarrow> port \<Rightarrow> port" where
  "issued work pm p = p\<lparr>clb := pm, fb := pm + 1024, engines := 0x11, lag := 0, pending := True, left := work\<rparr>"

definition read_timeout :: "u16 \<Rightarrow> u32" where
  "read_timeout n = SATA_WAIT_TIMEOUT + ucast n * SATA_WAIT_TIMEOUT_PER_SECTOR"

lemma unat_read_timeout: "unat (read_timeout n) = 1000 + 250 * unat n"
  using unat_lt_2p16 [of n]
  by (simp add: read_timeout_def SATA_WAIT_TIMEOUT_def SATA_WAIT_TIMEOUT_PER_SECTOR_def unat_word_ariths unat_ucast_16_32)

lemma read_sector_to_wait:
  assumes m: "malloc c sizeof_port_mem m = Some (pm, m1)"
    and p: "engine_state (engines p)" "lag p < 1000" "slow < 1000" "\<not> pending p"
    and n: "0 < unat n" and ends: "unat buf + 512 * unat n \<le> 2 ^ 64 - 64" "unat pm + 9472 \<le> 2 ^ 64 - 64"
  shows "sata_ahci_read_sector c (adapter disk slow work pb) pb lba n buf (m, p) =
    (let ((timeout, error_detected), st) = wait_command (adapter disk slow work pb) pb (push_bit 30 1 OR push_bit 31 1) (read_timeout n)
           (build_read pm lba n buf (fst (memset m1 pm 0 sizeof_port_mem)), issued work pm p)
     in release_port_mem c pm (if error_detected then 8 else if timeout = 0 then 9 else 0) st)"
proof -
  let ?H = "adapter disk slow work pb" let ?z = "fst (memset m1 pm 0 sizeof_port_mem)" let ?b = "build_read pm lba n buf ?z"
  let ?p1 = "p\<lparr>clb := pm, fb := pm + 1024\<rparr>"
  have "engine_state (engines ?p1)" using p(1) by simp
  from halted_engines [OF this, of slow disk work pb ?z] obtain l where l: "l \<le> max (lag p) slow"
    "reg_update ?H (pb + 0x18) (\<lambda>v. v AND NOT (push_bit 4 1)) (reg_update ?H (pb + 0x18) (\<lambda>v. v AND NOT 0x01) (?z, ?p1)) =
      (?z, ?p1\<lparr>engines := 0, lag := l\<rparr>)" by auto
  let ?p2 = "?p1\<lparr>engines := 0, lag := l\<rparr>" let ?p3 = "?p1\<lparr>engines := 0, lag := 0\<rparr>"
  have T: "unat SATA_WAIT_TIMEOUT = 1000" by (simp add: SATA_WAIT_TIMEOUT_def)
  have w: "wait_clear_checked ?H (pb + 0x18) msk SATA_WAIT_TIMEOUT (?z, ?p2) = (False, (?z, ?p3))"
    "wait_clear_checked ?H (pb + 0x18) msk SATA_WAIT_TIMEOUT (?z, ?p3) = (False, (?z, ?p3))"
    if "msk \<in> {push_bit 15 1, push_bit 14 1}" for msk
    using wait_halted [of ?p2 msk SATA_WAIT_TIMEOUT disk slow work pb ?z] wait_halted [of ?p3 msk SATA_WAIT_TIMEOUT disk slow work pb ?z]
      that l(1) p(2,3) T by auto
  have c3: "reg_update ?H (pb + 0x18) (\<lambda>v. v AND NOT 0x11) (?b, ?p3) = (?b, ?p3)" by (rule clear_halted) simp_all
  have f3: "wait_clear_forever ?H (pb + 0x18) (push_bit 14 1 OR push_bit 15 1) (?b, ?p3) = Some (?b, ?p3)" by (rule no_wait) simp_all
  have s3: "reg_update ?H (pb + 0x18) (\<lambda>v. v OR 1) (reg_update ?H (pb + 0x18) (\<lambda>v. v OR push_bit 4 1) (?b, ?p3)) = (?b, ?p3\<lparr>engines := 0x11\<rparr>)"
    by (rule start_engines) simp_all
  have "reg_update ?H (pb + 0x38) (\<lambda>v. v OR 1) (?b, ?p3\<lparr>engines := 0x11\<rparr>) = (?b, ?p3\<lparr>engines := 0x11, pending := True, left := work\<rparr>)"
    using issue [of "?p3\<lparr>engines := 0x11\<rparr>"] p(4) by simp
  then have i3: "reg_update ?H (pb + 0x38) (\<lambda>v. v OR 1) (?b, ?p3\<lparr>engines := 0x11\<rparr>) = (?b, issued work pm p)"
    by (simp add: issued_def)
  have un: "unat (ucast n * 512 :: u64) = 512 * unat n" using unat_lt_2p16 [of n]
    by (simp add: unat_word_ariths unsigned_ucast_eq take_bit_nat_eq_self)
  obtain c1 where c1: "phys_invalidate_cache buf (ucast n * 512) = Some c1" using cache_loops(1) [of buf "ucast n * 512"] un ends(1) by auto
  obtain c2 where c2: "phys_flush_cache pm sizeof_port_mem = Some c2" using cache_loops(2) [of pm sizeof_port_mem] ends(2) by (auto simp: sizeof_port_mem_def)
  obtain c4 where c4: "phys_invalidate_cache buf 512 = Some c4" using cache_loops(1) [of buf 512] ends(1) n by auto
  have m15: "push_bit 15 1 \<in> {push_bit 15 1, push_bit 14 1 :: u32}" "push_bit 14 1 \<in> {push_bit 15 1, push_bit 14 1 :: u32}" by blast+
  show ?thesis
    unfolding sata_ahci_read_sector_def fst_conv snd_conv m Option.bind.bind_lunit Let_def prod.case port_mem_cl_def port_mem_rfis_def
      set_bases_adapter l(2) w(1) [OF m15(1)] w(2) [OF m15(2)] if_False on_mem_def adapter_simps(7) c3 f3 s3 c1 c2 c4 i3 read_timeout_def [symmetric]
    by (auto split: prod.splits)
qed

section \<open>Releasing the port memory\<close>

lemma release_read:
  assumes run: "heap_run c m A" and pm: "malloc c sizeof_port_mem m = Some (pm, m1)" "pm \<noteq> 0"
    and buf: "(buf, len) \<in> A" "k \<le> unat len"
    and m2: "\<And>x. x \<notin> region buf k \<Longrightarrow> x \<notin> region pm 9472 \<Longrightarrow> m2 x = m1 x"
  shows "\<exists>m'. release_port_mem c pm code (m2, p) = Some (code, (m', p)) \<and> heap_run c m' A \<and> bytes_at m' buf k = bytes_at m2 buf k \<and>
    (\<forall>(q, j) \<in> A. \<forall>x \<in> region q (unat j) - region buf k. m' x = m x)"
proof -
  have sz: "unat sizeof_port_mem = 9472" "unat sizeof_port_mem + 7 < 2 ^ 64" by (simp_all add: sizeof_port_mem_def)
  note r1 = kh.alloc_run [OF run sz(2) pm(1)] and keep = kh.alloc_keeps [OF run sz(2) pm(1)] and apart = kh.alloc_apart [OF run sz(2) pm]
  have new: "(pm, sizeof_port_mem) \<notin> A"
  proof
    assume "(pm, sizeof_port_mem) \<in> A"
    from apart [OF this] have "region pm 9472 = {}" using sz by simp
    then show False using region_offset [of 0 9472 pm] by simp
  qed
  have r2: "heap_run c m2 (insert (pm, sizeof_port_mem) A)"
  proof (rule kh.rewrite_run)
    show "heap_run c m1 (insert (pm, sizeof_port_mem) A)" using r1 pm(2) by simp
    fix x assume "m2 x \<noteq> m1 x"
    then have "x \<in> region pm 9472 \<or> x \<in> region buf (unat len)" using m2 region_mono [OF buf(2)] by blast
    then show "x \<notin> span c \<or> (\<exists>(q, j) \<in> insert (pm, sizeof_port_mem) A. x \<in> region q (unat j))" using buf(1) sz(1) by auto
  qed
  obtain m' where m': "free c pm m2 = Some m'" "heap_run c m' (insert (pm, sizeof_port_mem) A - {(pm, sizeof_port_mem)})"
    "\<forall>(q, j) \<in> insert (pm, sizeof_port_mem) A - {(pm, sizeof_port_mem)}. \<forall>x \<in> region q (unat j). m' x = m2 x"
    using kh.release_run [OF r2, of pm sizeof_port_mem] by blast
  have A: "insert (pm, sizeof_port_mem) A - {(pm, sizeof_port_mem)} = A" using new by simp
  have same: "m' x = m2 x" if "(q, j) \<in> A" "x \<in> region q (unat j)" for q j x using m'(3) that unfolding A by blast
  have "bytes_at m' buf k = bytes_at m2 buf k"
  proof (rule bytes_at_cong)
    fix i assume "i < k"
    then have "buf + of_nat i \<in> region buf (unat len)" using buf(2) less_imp_le [OF unat_lt_2p64 [of len]] by (intro region_offset) (simp_all del: unat_lt_2p64)
    then show "m' (buf + of_nat i) = m2 (buf + of_nat i)" by (rule same [OF buf(1)])
  qed
  moreover have "m' x = m x" if "(q, j) \<in> A" "x \<in> region q (unat j)" "x \<notin> region buf k" for q j x
  proof -
    have "x \<notin> region pm 9472" using apart [OF that(1)] that(2) sz(1) by auto
    then show ?thesis using same [OF that(1,2)] m2 [OF that(3)] keep [OF that(1,2)] by simp
  qed
  ultimately show ?thesis using m' unfolding A release_port_mem_def by auto
qed

text \<open>Both outcomes of a command that completes, with the port memory released.\<close>

lemma completed_read:
  assumes run: "heap_run c m A" and buf: "(buffer, len) \<in> A" "512 * unat n \<le> unat len"
    and pm: "malloc c sizeof_port_mem m = Some (pm, m1)" "pm \<noteq> 0"
    and n: "0 < unat n" "unat n \<le> 8064" and lba: "unat lba < 2 ^ 48" and disk: "\<forall>s. length (disk s) = 512"
    and ends: "unat buffer + 512 * unat n \<le> 2 ^ 64 - 64" "unat pm + 9472 \<le> 2 ^ 64 - 64"
    and p: "engine_state (engines p)" "lag p < 1000" "slow < 1000" "\<not> pending p"
    and work: "work \<le> 1000 + 250 * unat n"
  shows "\<exists>m' p'. sata_ahci_read_sector c (adapter disk slow work pb) pb lba n buffer (m, p) =
      Some (if work = 1000 + 250 * unat n then 9 else 0, (m', p')) \<and>
    bytes_at m' buffer (512 * unat n) = disk_sectors disk (unat lba) (unat n) \<and> heap_run c m' A \<and>
    (\<forall>(q, k) \<in> A. \<forall>x \<in> region q (unat k) - region buffer (512 * unat n). m' x = m x)"
proof -
  let ?z = "fst (memset m1 pm 0 sizeof_port_mem)" let ?b = "build_read pm lba n buffer ?z" let ?q = "issued work pm p"
  let ?p = "?q\<lparr>left := 0, pending := False\<rparr>" let ?m = "perform disk ?q ?b" let ?code = "if work = 1000 + 250 * unat n then 9 else 0"
  have apart: "disjoint_regions buffer (512 * unat n) pm 9472"
    using kh.alloc_apart [OF run _ pm buf(1)] region_mono [OF buf(2), of buffer]
    by (auto simp: sizeof_port_mem_def disjoint_regions_def)
  have q: "clb ?q = pm" "fb ?q = pm + 1024" "pending ?q" "left ?q = work" by (simp_all add: issued_def)
  have "work < 2 ^ 32" using work unat_lt_2p16 [of n] by simp
  then have "unat (of_nat work :: u32) = work" by (simp add: unat_of_nat take_bit_nat_eq_self)
  then have t: "read_timeout n - of_nat work = 0 \<longleftrightarrow> work = 1000 + 250 * unat n"
    using unat_read_timeout [of n] word_unat_eq_iff [of "read_timeout n" "of_nat work"] by auto
  have "wait_command (adapter disk slow work pb) pb (push_bit 30 1 OR push_bit 31 1) (read_timeout n) (?b, ?q) =
      ((read_timeout n - of_nat work, False), (?m, ?p))"
    using wait_completes [of ?q "read_timeout n"] q(3,4) work unat_read_timeout [of n] by simp
  then have eq: "sata_ahci_read_sector c (adapter disk slow work pb) pb lba n buffer (m, p) = release_port_mem c pm ?code (?m, ?p)"
    unfolding read_sector_to_wait [OF pm(1) p n(1) ends] Let_def by (simp only: prod.case t if_False)
  note r = perform_read [OF n lba disk apart q(1,2)]
  have m: "?m x = m1 x" if "x \<notin> region buffer (512 * unat n)" "x \<notin> region pm 9472" for x
    using r(2) [OF that] that(2) by (simp add: memset_spec sizeof_port_mem_def)
  from release_read [OF run pm buf m, of ?code ?p] show ?thesis unfolding eq r(1) by blast
qed

section \<open>Properties\<close>


text \<open>
  C27. What the timeout of \<open>sata_ahci_read_sector\<close> does, in the situation of the property above. A command that
  needs more polls than the timeout has is reported as a success (0), although nothing has been read: no
  live allocation has changed, and the command is still pending. A command that completes at the very last poll is
  reported as a timeout (9), although the sectors are in the buffer.
\<close>
theorem sata_read_timeout_result:
  assumes run: "heap_run c m A" and buf: "(buffer, len) \<in> A" "512 * unat n \<le> unat len"
    and pm: "malloc c sizeof_port_mem m = Some (pm, m1)" "pm \<noteq> 0"
    and n: "0 < unat n" "unat n \<le> 8064" and lba: "unat lba < 2 ^ 48" and disk: "\<forall>s. length (disk s) = 512"
    and ends: "unat buffer + 512 * unat n \<le> 2 ^ 64 - 64" "unat pm + 9472 \<le> 2 ^ 64 - 64"
    and p: "engine_state (engines p)" "lag p < 1000" "slow < 1000" "\<not> pending p"
    and work: "1000 + 250 * unat n \<le> work"
  shows "\<exists>m' p'. sata_ahci_read_sector c (adapter disk slow work pb) pb lba n buffer (m, p) =
      Some (if work = 1000 + 250 * unat n then 9 else 0, (m', p')) \<and> heap_run c m' A \<and>
    (if work = 1000 + 250 * unat n then bytes_at m' buffer (512 * unat n) = disk_sectors disk (unat lba) (unat n)
     else pending p' \<and> (\<forall>(q, k) \<in> A. \<forall>x \<in> region q (unat k). m' x = m x))"
proof (cases "work = 1000 + 250 * unat n")
  case True
  with completed_read [OF run buf pm n lba disk ends p, of work pb] show ?thesis by auto
next
  case False
  let ?z = "fst (memset m1 pm 0 sizeof_port_mem)" let ?b = "build_read pm lba n buffer ?z" let ?q = "issued work pm p"
  have q: "pending ?q" "unat (read_timeout n) < left ?q" using False work unat_read_timeout [of n] by (simp_all add: issued_def)
  then obtain k where "wait_command (adapter disk slow work pb) pb (push_bit 30 1 OR push_bit 31 1) (read_timeout n) (?b, ?q) =
      ((- 1, False), (?b, ?q\<lparr>left := k\<rparr>))" using wait_gives_up by blast
  then have eq: "sata_ahci_read_sector c (adapter disk slow work pb) pb lba n buffer (m, p) = release_port_mem c pm 0 (?b, ?q\<lparr>left := k\<rparr>)"
    unfolding read_sector_to_wait [OF pm(1) p n(1) ends] Let_def by simp
  have b: "?b x = m1 x" if "x \<notin> region buffer 0" "x \<notin> region pm 9472" for x
    using build_read_spec(1) [OF n that(2)] that(2) by (simp add: memset_spec sizeof_port_mem_def)
  obtain m' where "release_port_mem c pm 0 (?b, ?q\<lparr>left := k\<rparr>) = Some (0, (m', ?q\<lparr>left := k\<rparr>))" "heap_run c m' A"
    "\<forall>(q, j) \<in> A. \<forall>x \<in> region q (unat j) - region buffer 0. m' x = m x"
    using release_read [OF run pm buf(1) _ b, where k = 0 and code = 0 and p = "?q\<lparr>left := k\<rparr>"] by auto
  then show ?thesis using eq False q(1) by auto
qed

text \<open>The sample heap with a buffer of one sector, and an idle adapter.\<close>

lemma sample_port_mem:
  "\<exists>m m1. heap_run 4096 m {(10640, 512)} \<and> malloc 4096 sizeof_port_mem m = Some (11160, m1)"
proof -
  obtain m0 where m0: "heap_run 4096 m0 {}" "heap 4096 m0 (pool_blocks 4096 58984) {}" using sample_pool by blast
  have "adjust_request_size 512 ALIGN_SIZE = Some 512" "class_le (mapping_search 512) (mapping_insert 58984)"
    "adjust_request_size 9472 ALIGN_SIZE = Some 9472" "class_le (mapping_search 9472) (mapping_insert 58464)" by code_simp+
  then obtain m B where m: "heap_run 4096 m {(10640, 512)}" "heap 4096 m B {}" "B 11144 = Some (58464, True)" "\<And>b s. B b = Some (s, True) \<Longrightarrow> b = 11144"
    and a: "adjust_request_size 9472 ALIGN_SIZE = Some 9472" "class_le (mapping_search 9472) (mapping_insert 58464)"
    using sample_malloc [OF m0, of 512 512] by (auto simp: nxt_def)
  have "unat sizeof_port_mem + 7 < 2 ^ 64" by (simp add: sizeof_port_mem_def)
  with m(2) show ?thesis
  proof (cases rule: malloc_ok)
    case none
    then show ?thesis using m(3) a by (auto simp: sizeof_port_mem_def)
  next
    case (some b s B' m')
    then have "b = 11144" using m(4) by blast
    with some(1) m(1) show ?thesis by (auto simp: malloc_def block_to_ptr_def block_start_offset_def)
  qed
qed

definition idle :: port where
  "idle = \<lparr>clb = 0, fb = 0, engines = 0x11, lag = 0, pending = False, left = 0\<rparr>"


theorem sata_read_timeout_result_witness:
  "\<exists>m m' p'. heap_run 4096 m {(10640, 512)} \<and>
    sata_ahci_read_sector 4096 (adapter (\<lambda>s. replicate 512 (of_nat s)) 3 5000 0x1000) 0x1000 7 1 10640 (m, idle) = Some (0, (m', p')) \<and>
    pending p' \<and> (\<forall>x \<in> region 10640 512. m' x = m x)"
proof -
  obtain m m1 where m: "heap_run 4096 m {(10640, 512)}" "malloc 4096 sizeof_port_mem m = Some (11160, m1)" using sample_port_mem by blast
  show ?thesis
    using sata_read_timeout_result [OF m(1) _ _ m(2), where buffer = 10640 and len = 512 and n = 1 and lba = 7 and disk = "\<lambda>s. replicate 512 (of_nat s)" and p = idle and slow = 3 and work = 5000 and pb = "0x1000"] m(1)
    by (auto simp: idle_def engine_state_def)
qed

end
