(* ===== verification/Storage.thy ===== *)
theory Storage
  imports SataSpec
begin

text \<open>
  The drive layer (\<open>drivers/storage/storage.c\<close>, \<open>drivers/storage/stinit.c\<close>, \<open>sata_init\<close> of
  \<open>drivers/storage/sata.c\<close>): reading from a drive by the type it was registered with, and the table of
  registered drives. The state is the machine of the disk drivers, whose memory the heap and the
  adapter of the AHCI driver share.
\<close>

section \<open>Reading a drive\<close>

text \<open>
  \<open>storage_device_t\<close> of \<open>storage.h\<close> lies in memory: the type, a union of 24 bytes at offset 8, the sector
  size at 32. The members of the union are read at their own offsets, whichever was written.
\<close>

definition type_identifier :: "mem \<Rightarrow> u64 \<Rightarrow> u8" where "type_identifier m device = m device"
definition pata_drive_number :: "mem \<Rightarrow> u64 \<Rightarrow> u8" where "pata_drive_number m device = m (device + 8)"
definition pata_pmio_base :: "mem \<Rightarrow> u64 \<Rightarrow> u16" where "pata_pmio_base m device = read16 m (device + 12)"
definition sata_port_base :: "mem \<Rightarrow> u64 \<Rightarrow> u64" where "sata_port_base m device = read64 m (device + 8)"
definition device_sector_size :: "mem \<Rightarrow> u64 \<Rightarrow> u32" where "device_sector_size m device = read32 m (device + 32)"

definition on_ata :: "(ata \<Rightarrow> int \<times> ata) \<Rightarrow> ata \<times> 'h \<Rightarrow> (int \<times> ata \<times> 'h) option" where
  "on_ata f st = (let (r, s) = f (fst st) in Some (r, (s, snd st)))"

definition on_ahci :: "(mem \<times> 'h \<Rightarrow> (int \<times> mem \<times> 'h) option) \<Rightarrow> ata \<times> 'h \<Rightarrow> (int \<times> ata \<times> 'h) option" where
  "on_ahci f st = do { (r, (m, h)) \<leftarrow> f (amem (fst st), snd st); Some (r, ((fst st)\<lparr>amem := m\<rparr>, h)) }"

definition drive_read ::
    "device \<Rightarrow> vmm \<Rightarrow> u8 list \<Rightarrow> u64 \<Rightarrow> 'h hba \<Rightarrow> u64 \<Rightarrow> u64 \<Rightarrow> u32 \<Rightarrow> u64 \<Rightarrow> ata \<times> 'h \<Rightarrow> (int \<times> ata \<times> 'h) option" where
  "drive_read dev v stack c H device lba sector_count buf st =
    (let m = amem (fst st); t = type_identifier m device; n = (ucast sector_count :: u16) in
     if t = of_char (CHR ''P'') then
       on_ata (ata_read_sector_auto dev lba n buf (pata_drive_number m device) (ucast (device_sector_size m device))) st
     else if t = of_char (CHR ''Q'') then
       on_ata (atapi_read_sector dev (ucast lba) n buf (pata_drive_number m device) (device_sector_size m device)) st
     else if t = of_char (CHR ''p'') then
       on_ata (ata_read_sector_semiauto dev lba n buf (pata_pmio_base m device) (pata_drive_number m device) (ucast (device_sector_size m device))) st
     else if t = of_char (CHR ''q'') then
       on_ata (atapi_read_sector_manual dev (ucast lba) n buf (pata_drive_number m device) (pata_pmio_base m device) (device_sector_size m device)) st
     else if t = of_char (CHR ''S'') then
       on_ahci (sata_ahci_read_sector c H (sata_port_base m device) lba n buf) st
     else if t = of_char (CHR ''T'') then
       on_ahci (sata_ahci_read_sector_satapi v stack c H (sata_port_base m device) (ucast lba) n buf) st
     else Some (9, st))"

section \<open>The table of drives\<close>

text \<open>
  \<open>storage_device_t\<close> of \<open>stinit.h\<close>, a different structure: the entries of the table, in order, and of the
  temporary table of the AHCI driver with its count.
\<close>

record stdev =
  st_type :: u8
  device_data :: u64
  st_sector_size :: u64

definition MAX_STORAGE_DEVICES :: nat where "MAX_STORAGE_DEVICES = 1028"

record storage =
  disks :: ata
  storage_devices :: "stdev list"
  sata_temp_devices :: "nat \<Rightarrow> stdev"
  sata_temp_count :: nat

definition sata_init :: "storage \<Rightarrow> storage" where
  "sata_init s =
    (let dev = \<lparr>st_type = of_char (CHR ''S''), device_data = 0, st_sector_size = 512\<rparr>
     in s\<lparr>sata_temp_devices := (sata_temp_devices s)(0 := dev), sata_temp_count := 1\<rparr>)"

definition register_device :: "stdev \<Rightarrow> storage \<Rightarrow> storage" where
  "register_device dev s =
    (if length (storage_devices s) \<ge> MAX_STORAGE_DEVICES then s
     else sata_init (s\<lparr>storage_devices := storage_devices s @ [dev]\<rparr>))"

text \<open>
  One round of each detection loop. The result of \<open>malloc\<close> is used unchecked. The identification data of
  a disk is a local array, and that of an optical drive a structure on the stack, at \<open>buffer\<close>.
\<close>

definition probe_ata :: "device \<Rightarrow> u64 \<Rightarrow> u8 \<Rightarrow> storage \<Rightarrow> storage option" where
  "probe_ata dev c drive s =
    (let ((r, identify_data), a) = identify_ata dev drive (disks s) in
     if r \<noteq> 0 then Some (s\<lparr>disks := a\<rparr>)
     else do { (p, m) \<leftarrow> malloc c (2 * 256) (amem a);
               let m = store_bytes m p (word_bytes identify_data);
               Some (register_device \<lparr>st_type = of_char (CHR ''P''), device_data = p, st_sector_size = 512\<rparr>
                 (s\<lparr>disks := a\<lparr>amem := m\<rparr>\<rparr>)) })"

definition probe_atapi :: "device \<Rightarrow> u64 \<Rightarrow> u64 \<Rightarrow> u8 \<Rightarrow> storage \<Rightarrow> storage option" where
  "probe_atapi dev c buffer drive s =
    (let (r, a) = identify_atapi_useful dev buffer drive (disks s) in
     if r \<noteq> 0 then Some (s\<lparr>disks := a\<rparr>)
     else do { let sz = ucast (read32 (amem a) (buffer + 4));
               (p, m) \<leftarrow> malloc c 8 (amem a);
               let (m, _) = memcpy m p buffer 8;
               Some (register_device \<lparr>st_type = of_char (CHR ''Q''), device_data = p, st_sector_size = sz\<rparr>
                 (s\<lparr>disks := a\<lparr>amem := m\<rparr>\<rparr>)) })"

text \<open>The loop over the temporary table, whose count a registration sets again.\<close>

function register_sata :: "nat \<Rightarrow> storage \<Rightarrow> storage" where
  "register_sata i s =
    (if i < sata_temp_count s then register_sata (Suc i) (register_device (sata_temp_devices s i) s) else s)"
  by pat_completeness auto
termination
  by (relation "measure (\<lambda>(i, s). max (sata_temp_count s) 1 - i)") (auto simp: register_device_def sata_init_def Let_def)

declare register_sata.simps [simp del]

definition storage_init :: "device \<Rightarrow> u64 \<Rightarrow> u64 \<Rightarrow> storage \<Rightarrow> storage option" where
  "storage_init dev c buffer s =
    do { s \<leftarrow> probe_ata dev c 0 s;
         s \<leftarrow> probe_ata dev c 1 s;
         s \<leftarrow> probe_atapi dev c buffer 0 s;
         s \<leftarrow> probe_atapi dev c buffer 1 s;
         Some (register_sata 0 s) }"

section \<open>What detection does to memory\<close>

lemma amem_emit [simp]: "amem (emit e s) = amem s"
  by (simp add: emit_def)

lemma amem_wait: "amem (snd (ata_wait_loop dev io drq n s)) = amem s"
proof (induction n arbitrary: s)
  case (Suc n)
  then show ?case by (subst ata_wait_loop.simps) (simp add: inb_def Let_def)
qed (subst ata_wait_loop.simps, simp)

lemma amem_ready [simp]: "amem (snd (ata_wait_ready dev io drq s)) = amem s"
  by (simp add: ata_wait_ready_def amem_wait)

lemma amem_insw [simp]: "amem (snd (insw dev p n s)) = amem s"
  by (induction n arbitrary: s) (simp_all add: inw_def Let_def split_beta)

lemma amem_outsw [simp]: "amem (outsw p vs s) = amem s"
  by (induction vs arbitrary: s) (simp_all add: outw_def)

lemma amem_identify_ata: "amem (snd (identify_ata dev drive s)) = amem s"
  by (simp add: identify_ata_def identify_words_def split_beta Let_def outb_def)

lemma length_identify: "fst (fst (identify_ata dev drive s)) = 0 \<Longrightarrow> length (snd (fst (identify_ata dev drive s))) = 256"
  by (auto simp: identify_ata_def identify_words_def split_beta Let_def split: if_splits)

lemma amem_setup [simp]: "amem (snd (packet_setup dev io h lo hi s)) = amem s"
  by (simp add: packet_setup_def split_beta Let_def outb_def inb_def)

lemma amem_identify_atapi:
  assumes "x \<notin> region buffer 8"
  shows "amem (snd (identify_atapi_useful dev buffer drive s)) x = amem s x"
proof -
  have sub: "x \<notin> region (buffer + of_nat a) k" if "a + k \<le> 8" for a k
    using assms in_sub [of x buffer a k 8] that by auto
  have out: "x \<notin> region buffer 2" "x \<notin> region (buffer + 2) 2" "x \<notin> region (buffer + 4) 2" "x \<notin> region (buffer + 6) 2"
    "x \<notin> region buffer 4" "x \<notin> region (buffer + 4) 4"
    using sub [of 0 2] sub [of 2 2] sub [of 4 2] sub [of 6 2] sub [of 0 4] sub [of 4 4] by simp_all
  have "amem (atapi_in_words dev io buffer 0 4 t) x = amem t x" for io t
  proof -
    have four: "(4 :: nat) = Suc (Suc (Suc (Suc 0)))" by simp
    show ?thesis unfolding four using out by (simp add: inw_def Let_def write16_outside del: One_nat_def)
  qed
  with out show ?thesis
    by (simp add: identify_atapi_useful_def read_capacity_def split_beta Let_def write32_outside)
qed

lemma memcpy_loop_outside: "x \<notin> region d (unat n) \<Longrightarrow> memcpy_loop m d s n x = m x"
proof (induction m d s n rule: memcpy_loop.induct)
  case (1 m d s n)
  show ?case
  proof (cases "n = 0")
    case False
    then have n: "unat n = Suc (unat (n - 1))" using unat_minus_one [OF False] unat_gt_0 [of n] by simp
    have "region d (unat n) = insert d (region (d + 1) (unat (n - 1)))"
      unfolding n using unat_lt_2p64 [of "n - 1"] by (intro region_Suc) simp
    with 1(2) have x: "x \<notin> region (d + 1) (unat (n - 1))" "x \<noteq> d" by auto
    from 1(1) [OF False x(1)] have "memcpy_loop (m(d := m s)) (d + 1) (s + 1) (n - 1) x = (m(d := m s)) x" .
    with x(2) False show ?thesis by (simp add: memcpy_loop.simps [of m d s n])
  qed (subst memcpy_loop.simps, simp)
qed

lemma memcpy_outside: "x \<notin> region d (unat n) \<Longrightarrow> fst (memcpy m d s n) x = m x"
  by (simp add: memcpy_def memcpy_loop_outside)

section \<open>Detection on the heap\<close>

text \<open>An allocation filled without looking at the pointer.\<close>

lemma alloc_fill:
  assumes run: "heap_run c m A" and n: "unat n + 7 < 2 ^ 64" and null: "region 0 (unat n) \<inter> span c = {}"
  obtains p m1 where "malloc c n m = Some (p, m1)" 
    "\<forall>m2. (\<forall>x. x \<notin> region p (unat n) \<longrightarrow> m2 x = m1 x) \<longrightarrow> heap_run c m2 (if p = 0 then A else insert (p, n) A) \<and>
      (\<forall>(q, k) \<in> A. \<forall>x \<in> region q (unat k). m2 x = m x)"
proof -
  obtain p m1 where a: "malloc c n m = Some (p, m1)" using kh.alloc_returns [OF run n] by blast
  note r1 = kh.alloc_run [OF run n a] and k1 = kh.alloc_keeps [OF run n a]
  have "heap_run c m2 (if p = 0 then A else insert (p, n) A) \<and> (\<forall>(q, k) \<in> A. \<forall>x \<in> region q (unat k). m2 x = m x)"
    if m2: "\<forall>x. x \<notin> region p (unat n) \<longrightarrow> m2 x = m1 x" for m2
  proof
    show "heap_run c m2 (if p = 0 then A else insert (p, n) A)"
    proof (rule kh.rewrite_run [OF r1])
      fix x assume "m2 x \<noteq> m1 x"
      then have "x \<in> region p (unat n)" using m2 by blast
      then show "x \<notin> span c \<or> (\<exists>(q, k) \<in> (if p = 0 then A else insert (p, n) A). x \<in> region q (unat k))" using null by auto
    qed
    have "m2 x = m x" if x: "(q, k) \<in> A" "x \<in> region q (unat k)" for q k x
    proof -
      have "x \<notin> region p (unat n)"
        using kh.alloc_apart [OF run n a _ x(1)] run_span [OF run x(1)] x(2) null by (cases "p = 0") auto
      then show ?thesis using m2 k1 [OF x] by simp
    qed
    then show "\<forall>(q, k) \<in> A. \<forall>x \<in> region q (unat k). m2 x = m x" by auto
  qed
  then show thesis using that [OF a] by blast
qed

text \<open>
  What one detection step does: it returns, keeps the heap and its allocations, and registers at most one
  drive, of its type.
\<close>

definition dummy :: stdev where
  "dummy = \<lparr>st_type = of_char (CHR ''S''), device_data = 0, st_sector_size = 512\<rparr>"

definition registered :: "storage \<Rightarrow> stdev list \<Rightarrow> storage \<Rightarrow> bool" where
  "registered s ds s' \<longleftrightarrow> storage_devices s' = storage_devices s @ ds \<and>
     (if ds = [] then sata_temp_count s' = sata_temp_count s \<and> sata_temp_devices s' = sata_temp_devices s
      else sata_temp_count s' = 1 \<and> sata_temp_devices s' 0 = dummy)"

definition kept :: "u64 \<Rightarrow> storage \<Rightarrow> (u64 \<times> u64) set \<Rightarrow> storage \<Rightarrow> bool" where
  "kept c s A s' \<longleftrightarrow> (\<exists>A'. A \<subseteq> A' \<and> heap_run c (amem (disks s')) A') \<and>
     (\<forall>(q, k) \<in> A. \<forall>x \<in> region q (unat k). amem (disks s') x = amem (disks s) x)"

lemma registered_one:
  "length (storage_devices s) < MAX_STORAGE_DEVICES \<Longrightarrow> registered s [d] (register_device d (s\<lparr>disks := a\<rparr>))"
  by (simp add: registered_def register_device_def sata_init_def dummy_def)

lemma disks_register [simp]: "disks (register_device d s) = disks s"
  by (simp add: register_device_def sata_init_def)

lemma probe_ata_ok:
  assumes run: "heap_run c (amem (disks s)) A" and null: "region 0 512 \<inter> span c = {}" and room: "length (storage_devices s) < MAX_STORAGE_DEVICES"
  shows "\<exists>s' ds. probe_ata dev c drive s = Some s' \<and> registered s ds s' \<and> kept c s A s' \<and> length ds \<le> 1 \<and>
    (\<forall>d \<in> set ds. st_type d = of_char (CHR ''P'') \<and> st_sector_size d = 512)"
proof -
  obtain r ws a where i: "identify_ata dev drive (disks s) = ((r, ws), a)" by (metis prod.exhaust)
  have a: "amem a = amem (disks s)" using amem_identify_ata [of dev drive "disks s"] i by simp
  show ?thesis
  proof (cases "r = 0")
    case False
    then have "probe_ata dev c drive s = Some (s\<lparr>disks := a\<rparr>)" using i by (simp add: probe_ata_def)
    then show ?thesis using run a by (intro exI [of _ "s\<lparr>disks := a\<rparr>"] exI [of _ "[]"]) (auto simp: registered_def kept_def)
  next
    case True
    have len: "length (word_bytes ws) = 512" using length_identify [of dev drive "disks s"] i True by (simp add: length_word_bytes)
    have f: "unat (2 * 256 :: u64) + 7 < 2 ^ 64" and n: "region 0 (unat (2 * 256 :: u64)) \<inter> span c = {}" using null by simp_all
    obtain p m1 where p: "malloc c (2 * 256) (amem (disks s)) = Some (p, m1)"
      and m2: "\<forall>m2. (\<forall>x. x \<notin> region p (unat (2 * 256 :: u64)) \<longrightarrow> m2 x = m1 x) \<longrightarrow>
        heap_run c m2 (if p = 0 then A else insert (p, 2 * 256) A) \<and> (\<forall>(q, k) \<in> A. \<forall>x \<in> region q (unat k). m2 x = amem (disks s) x)"
      by (rule alloc_fill [OF run f n])
    let ?m = "store_bytes m1 p (word_bytes ws)"
    have "heap_run c ?m (if p = 0 then A else insert (p, 2 * 256) A) \<and> (\<forall>(q, k) \<in> A. \<forall>x \<in> region q (unat k). ?m x = amem (disks s) x)"
      using m2 len by (auto simp: store_bytes_outside)
    then have "kept c s A (register_device d (s\<lparr>disks := a\<lparr>amem := ?m\<rparr>\<rparr>))" for d
      unfolding kept_def by (auto intro!: exI [of _ "if p = 0 then A else insert (p, 2 * 256) A"])
    moreover have "probe_ata dev c drive s = Some (register_device \<lparr>st_type = of_char (CHR ''P''), device_data = p, st_sector_size = 512\<rparr> (s\<lparr>disks := a\<lparr>amem := ?m\<rparr>\<rparr>))"
      using i True p a by (simp add: probe_ata_def)
    ultimately show ?thesis using registered_one [OF room] by (intro exI conjI) auto
  qed
qed

lemma probe_atapi_ok:
  assumes run: "heap_run c (amem (disks s)) A" and null: "region 0 512 \<inter> span c = {}" and buf: "region buffer 8 \<inter> span c = {}"
    and room: "length (storage_devices s) < MAX_STORAGE_DEVICES"
  shows "\<exists>s' ds. probe_atapi dev c buffer drive s = Some s' \<and> registered s ds s' \<and> kept c s A s' \<and> length ds \<le> 1 \<and>
    (\<forall>d \<in> set ds. st_type d = of_char (CHR ''Q''))"
proof -
  obtain r a where i: "identify_atapi_useful dev buffer drive (disks s) = (r, a)" by fastforce
  have a: "amem a x = amem (disks s) x" if "x \<notin> region buffer 8" for x using amem_identify_atapi [OF that, of dev drive "disks s"] i by simp
  have run': "heap_run c (amem a) A" using run by (rule kh.rewrite_run) (use a buf in blast)
  have same: "amem a x = amem (disks s) x" if "(q, k) \<in> A" "x \<in> region q (unat k)" for q k x
    using a run_span [OF run that(1)] that(2) buf by blast
  show ?thesis
  proof (cases "r = 0")
    case False
    then have "probe_atapi dev c buffer drive s = Some (s\<lparr>disks := a\<rparr>)" using i by (simp add: probe_atapi_def)
    then show ?thesis using run' same by (intro exI [of _ "s\<lparr>disks := a\<rparr>"] exI [of _ "[]"]) (auto simp: registered_def kept_def)
  next
    case True
    have f: "unat (8 :: u64) + 7 < 2 ^ 64" and n: "region 0 (unat (8 :: u64)) \<inter> span c = {}"
      using null region_mono [of 8 512 0] by auto
    obtain p m1 where p: "malloc c 8 (amem a) = Some (p, m1)"
      and m2: "\<forall>m2. (\<forall>x. x \<notin> region p (unat (8 :: u64)) \<longrightarrow> m2 x = m1 x) \<longrightarrow>
        heap_run c m2 (if p = 0 then A else insert (p, 8) A) \<and> (\<forall>(q, k) \<in> A. \<forall>x \<in> region q (unat k). m2 x = amem a x)"
      by (rule alloc_fill [OF run' f n])
    let ?m = "fst (memcpy m1 p buffer 8)"
    have h: "heap_run c ?m (if p = 0 then A else insert (p, 8) A)" "\<forall>(q, k) \<in> A. \<forall>x \<in> region q (unat k). ?m x = amem a x"
      using m2 memcpy_outside [of _ p 8 m1 buffer] by auto
    then have "kept c s A (register_device d (s\<lparr>disks := a\<lparr>amem := ?m\<rparr>\<rparr>))" for d
      unfolding kept_def using same by (auto intro!: exI [of _ "if p = 0 then A else insert (p, 8) A"])
    moreover have "probe_atapi dev c buffer drive s = Some (register_device \<lparr>st_type = of_char (CHR ''Q''), device_data = p,
        st_sector_size = ucast (read32 (amem a) (buffer + 4))\<rparr> (s\<lparr>disks := a\<lparr>amem := ?m\<rparr>\<rparr>))"
      using i True p by (simp add: probe_atapi_def split_beta)
    ultimately show ?thesis using registered_one [OF room] by (intro exI conjI) auto
  qed
qed

lemma registered_trans:
  assumes "registered s ds s1" "registered s1 es s2"
  shows "registered s (ds @ es) s2"
  using assms unfolding registered_def by (cases "es = []") auto

lemma kept_run: "kept c s A s1 \<Longrightarrow> \<exists>A1. A \<subseteq> A1 \<and> heap_run c (amem (disks s1)) A1"
  by (auto simp: kept_def)

lemma kept_trans:
  assumes "kept c s A s1" "A \<subseteq> A1" "kept c s1 A1 s2"
  shows "kept c s A s2"
proof -
  have "amem (disks s2) x = amem (disks s) x" if "(q, k) \<in> A" "x \<in> region q (unat k)" for q k x
    using assms that unfolding kept_def by fastforce
  moreover have "\<exists>A'. A \<subseteq> A' \<and> heap_run c (amem (disks s2)) A'" using assms(2) kept_run [OF assms(3)] by blast
  ultimately show ?thesis unfolding kept_def by auto
qed

lemma register_sata_none: "sata_temp_count s = 0 \<Longrightarrow> register_sata 0 s = s"
  by (simp add: register_sata.simps [of 0])

lemma register_sata_dummy:
  assumes "sata_temp_count s = 1" "sata_temp_devices s 0 = dummy" "length (storage_devices s) < MAX_STORAGE_DEVICES"
  shows "storage_devices (register_sata 0 s) = storage_devices s @ [dummy]" "disks (register_sata 0 s) = disks s"
proof -
  have "sata_temp_count (register_device dummy s) = 1" using assms by (simp add: register_device_def sata_init_def)
  then have "register_sata 0 s = register_device dummy s"
    using assms by (simp add: register_sata.simps [of 0] register_sata.simps [of "Suc 0"])
  then show "storage_devices (register_sata 0 s) = storage_devices s @ [dummy]" "disks (register_sata 0 s) = disks s"
    using assms(3) by (simp_all add: register_device_def sata_init_def)
qed

text \<open>
  Both kinds of drive are probed at position 0 and then at position 1. What one probe adds to the table and keeps
  of the heap composes, so the two probes of a kind are one step that adds at most two entries of that kind.
\<close>
lemma probe_twice:
  assumes probe: "\<And>i s A. heap_run c (amem (disks s)) A \<Longrightarrow> length (storage_devices s) < MAX_STORAGE_DEVICES \<Longrightarrow>
      \<exists>s' ds. probe i s = Some s' \<and> registered s ds s' \<and> kept c s A s' \<and> length ds \<le> 1 \<and> (\<forall>d \<in> set ds. P d)"
    and run: "heap_run c (amem (disks s)) A" and room: "length (storage_devices s) + 1 < MAX_STORAGE_DEVICES"
  obtains s1 s2 ds where "probe i s = Some s1" "probe j s1 = Some s2" "registered s ds s2" "kept c s A s2"
    "length ds \<le> 2" "\<forall>d \<in> set ds. P d"
proof -
  have "length (storage_devices s) < MAX_STORAGE_DEVICES" using room by simp
  then obtain s1 d1 where s1: "probe i s = Some s1" "registered s d1 s1" "kept c s A s1" "length d1 \<le> 1" "\<forall>d \<in> set d1. P d"
    using probe [OF run] by blast
  obtain A1 where A1: "A \<subseteq> A1" "heap_run c (amem (disks s1)) A1" using kept_run [OF s1(3)] by blast
  have "length (storage_devices s1) < MAX_STORAGE_DEVICES" using s1(2,4) room by (simp add: registered_def)
  then obtain s2 d2 where s2: "probe j s1 = Some s2" "registered s1 d2 s2" "kept c s1 A1 s2" "length d2 \<le> 1" "\<forall>d \<in> set d2. P d"
    using probe [OF A1(2)] by blast
  show thesis
    by (rule that [OF s1(1) s2(1) registered_trans [OF s1(2) s2(2)] kept_trans [OF s1(3) A1(1) s2(3)]]) (use s1(4,5) s2(4,5) in auto)
qed

lemma register_sata_found:
  assumes "registered s ds s'" and "storage_devices s = []" "sata_temp_count s = 0" and "length ds < MAX_STORAGE_DEVICES"
  shows "storage_devices (register_sata 0 s') = ds @ (if ds = [] then [] else [dummy]) \<and> disks (register_sata 0 s') = disks s'"
proof (cases "ds = []")
  case True
  then show ?thesis using assms register_sata_none [of s'] by (simp add: registered_def)
next
  case False
  have "sata_temp_count s' = 1" "sata_temp_devices s' 0 = dummy" using False assms(1) unfolding registered_def by metis+
  then show ?thesis using register_sata_dummy [of s'] False assms by (auto simp: registered_def)
qed

section \<open>Properties\<close>


text \<open>
  C28. Reading from a drive that is registered as a disk on the legacy ports (\<open>P\<close>, sectors of \<open>2 * w\<close> bytes) and that serves its channel:
  \<open>drive_read\<close> returns 0 with sectors of that disk in the buffer, and nothing else in memory changes; but
  the number of sectors is the lower half of the 32-bit count the caller gave, so a request for 65536
  sectors or more succeeds with fewer.
\<close>
theorem drive_read_disk:
  assumes dv: "type_identifier (amem s) device = of_char (CHR ''P'')" "pata_drive_number (amem s) device = drive"
      "unat (device_sector_size (amem s) device) = 2 * w" "0 < w" "w < 2 ^ 15"
    and srv: "serves dev (channel drive) w d" "d_ok (drv w (channel drive) d s)"
    and n: "unat n = unat sector_count mod 2 ^ 16" and rg: "in_range lba n" "unat n * (2 * w) \<le> 2 ^ 31"
  shows "\<exists>s'. drive_read dev v stack c H device lba sector_count buf (s, h) = Some (0, (s', h)) \<and>
    amem s' = store_bytes (amem s) buf (word_bytes (sectors w (media (drv w (channel drive) d s)) (bit drive 0) (unat lba) (unat n))) \<and>
    media (drv w (channel drive) d s') = media (drv w (channel drive) d s)"
proof -
  let ?sz = "ucast (device_sector_size (amem s) device) :: u16"
  have sz: "unat ?sz = 2 * w" using dv(3,5) by (simp add: unsigned_ucast_eq take_bit_nat_eq_self)
  have "ucast sector_count = n" using n by (simp add: word_unat_eq_iff unsigned_ucast_eq take_bit_eq_mod)
  then have "drive_read dev v stack c H device lba sector_count buf (s, h) = on_ata (ata_read_sector_auto dev lba n buf drive ?sz) (s, h)"
    using dv(1,2) by (simp add: drive_read_def Let_def)
  moreover have "read_done w (channel drive) d buf (bit drive 0) (unat lba) (unat n) s (ata_read_sector_auto dev lba n buf drive ?sz s)"
    by (rule read_sector_auto [OF srv(1) sz dv(4) rg(1) _ srv(2)]) (use rg(2) sz in simp)
  ultimately show ?thesis unfolding read_done_def on_ata_def by (auto simp: split_beta)
qed


theorem drive_read_disk_witness:
  "\<forall>v stack c (H :: unit hba) h. \<exists>s'. drive_read (ideal_drive 0x1F0 256 blank_drive) v stack c H 0x5000 7 65538 0x9000
      (\<lparr>trace = [], ata_status = 0, ata_error = 0, amem = (\<lambda>x. 0)(0x5000 := 80, 0x5021 := 2)\<rparr>, h) = Some (0, (s', h)) \<and>
    amem s' = store_bytes ((\<lambda>x. 0)(0x5000 := 80, 0x5021 := 2)) 0x9000 (word_bytes (sectors 256 (media blank_drive) False 7 2))"
proof (intro allI)
  fix v stack c and H :: "unit hba" and h
  let ?m = "(\<lambda>x. 0)(0x5000 := 80, 0x5021 := 2) :: mem" let ?s = "\<lparr>trace = [], ata_status = 0, ata_error = 0, amem = ?m\<rparr> :: ata"
  have ch: "channel 0 = 0x1F0" by (simp add: channel_def ata_get_io_and_head_def ATA_PRIMARY_IO_def)
  have m: "amem ?s = ?m" by simp
  have dv: "type_identifier (amem ?s) 0x5000 = of_char (CHR ''P'')" "pata_drive_number (amem ?s) 0x5000 = 0"
    unfolding m by (simp_all add: type_identifier_def pata_drive_number_def)
  have sz: "unat (device_sector_size (amem ?s) 0x5000) = 2 * 256" unfolding m by code_simp
  have srv: "serves (ideal_drive 0x1F0 256 blank_drive) (channel 0) 256 blank_drive" unfolding ch by (rule ideal_drive_serves)
  have "\<exists>s'. drive_read (ideal_drive 0x1F0 256 blank_drive) v stack c H 0x5000 7 65538 0x9000 (?s, h) = Some (0, (s', h)) \<and>
    amem s' = store_bytes (amem ?s) 0x9000 (word_bytes (sectors 256 (media (drv 256 (channel 0) blank_drive ?s)) (bit (0 :: u8) 0) (unat (7 :: u64)) (unat (2 :: u16)))) \<and>
    media (drv 256 (channel 0) blank_drive s') = media (drv 256 (channel 0) blank_drive ?s)"
    by (rule drive_read_disk [OF dv sz _ _ srv]) (simp_all add: in_range_def blank_drive_def)
  then show "\<exists>s'. drive_read (ideal_drive 0x1F0 256 blank_drive) v stack c H 0x5000 7 65538 0x9000 (?s, h) = Some (0, (s', h)) \<and>
    amem s' = store_bytes ?m 0x9000 (word_bytes (sectors 256 (media blank_drive) False 7 2))" by auto
qed

end
