(* ===== verification/Time.thy ===== *)
theory Time
  imports PortIO "HOL-Library.Monad_Syntax"
begin

text \<open>
  Time (\<open>tools/pit.c\<close>, \<open>kernel/time/tsc.c\<close>, \<open>kernel/time/includes/tsc.h\<close>, \<open>kernel/time/time.c\<close>). The time stamp
  counter is a parameter: what it shows may depend on the accesses made so far and on the number of
  times it was read. \<open>None\<close> stands for a call that does not return: a loop that never ends, or a
  division by zero. The variant of \<open>get_time_ms\<close> that computes with floating-point numbers is left out.
\<close>

section \<open>The processor's clock\<close>

record clock =
  cpu_has_tsc :: bool
  tsc_at :: "io list \<Rightarrow> nat \<Rightarrow> u64"

datatype t_delay_mode = PIT_DELAY | PIC_DELAY | APIC_DELAY | IOAPIC_DELAY | TSC_DELAY | HPET_DELAY

record timer = machine +
  tsc_reads :: nat
  CPU_clock_speed :: u64
  boot_tsc :: u64
  microdelay_mode :: t_delay_mode

definition read_tsc :: "clock \<Rightarrow> 'a timer_scheme \<Rightarrow> u64 \<times> 'a timer_scheme" where
  "read_tsc k s = (tsc_at k (trace s) (tsc_reads s), s\<lparr>tsc_reads := tsc_reads s + 1\<rparr>)"

definition capture_boot_tsc :: "clock \<Rightarrow> 'a timer_scheme \<Rightarrow> 'a timer_scheme" where
  "capture_boot_tsc k s = (if cpu_has_tsc k then let (v, s) = read_tsc k s in s\<lparr>boot_tsc := v\<rparr> else s)"

section \<open>The interval timer\<close>

definition PIT_CHANNEL0_PORT :: u16 where "PIT_CHANNEL0_PORT = 0x40"
definition PIT_CMD_PORT :: u16 where "PIT_CMD_PORT = 0x43"
definition PIT_FREQ :: u32 where "PIT_FREQ = 1193182"

definition pit_read_counter :: "device \<Rightarrow> 'a timer_scheme \<Rightarrow> u16 \<times> 'a timer_scheme" where
  "pit_read_counter dev s =
    (let s = outb PIT_CMD_PORT 0x00 s;
         (lo, s) = inb dev PIT_CHANNEL0_PORT s;
         (hi, s) = inb dev PIT_CHANNEL0_PORT s
     in (push_bit 8 (ucast hi) OR ucast lo, s))"

definition pit_start_one_shot :: "u16 \<Rightarrow> 'a timer_scheme \<Rightarrow> 'a timer_scheme" where
  "pit_start_one_shot reload s =
    (let s = outb PIT_CMD_PORT 0x34 s;
         s = outb PIT_CHANNEL0_PORT (ucast (reload AND 0xFF)) s
     in outb PIT_CHANNEL0_PORT (ucast (drop_bit 8 reload)) s)"

partial_function (option) pit_wait_above :: "device \<Rightarrow> u16 \<Rightarrow> 'a timer_scheme \<Rightarrow> 'a timer_scheme option" where
  "pit_wait_above dev limit s =
    (let (v, s) = pit_read_counter dev s in if v > limit then pit_wait_above dev limit s else Some s)"

definition pit_delay_us_limited :: "device \<Rightarrow> u32 \<Rightarrow> 'a timer_scheme \<Rightarrow> 'a timer_scheme option" where
  "pit_delay_us_limited dev micros s =
    (if micros = 0 then Some s
     else let pit_reload = (ucast ((PIT_FREQ div 1000000) * micros) :: u16);
              pit_reload = (if pit_reload = 0 then 1 else pit_reload)
          in pit_wait_above dev pit_reload (pit_start_one_shot (pit_reload * 2) s))"

primrec pit_shards :: "device \<Rightarrow> nat \<Rightarrow> 'a timer_scheme \<Rightarrow> 'a timer_scheme option" where
  "pit_shards dev 0 s = Some s"
| "pit_shards dev (Suc n) s = do { s \<leftarrow> pit_delay_us_limited dev 25000 s; pit_shards dev n s }"

definition pit_delay_us :: "device \<Rightarrow> u32 \<Rightarrow> 'a timer_scheme \<Rightarrow> 'a timer_scheme option" where
  "pit_delay_us dev micros s =
    (if micros > 25000
     then do { s \<leftarrow> pit_shards dev (unat (micros div 25000)) s; pit_delay_us_limited dev (micros mod 25000) s }
     else pit_delay_us_limited dev micros s)"

text \<open>The first count is kept in eight bits and compared as a 16-bit number.\<close>

partial_function (option) pit_legit_wait :: "device \<Rightarrow> clock \<Rightarrow> u16 \<Rightarrow> u64 \<Rightarrow> 'a timer_scheme \<Rightarrow> 'a timer_scheme option" where
  "pit_legit_wait dev k old base_tsc s =
    (let (v, s) = pit_read_counter dev s in
     if v = old then
       (let (t, s) = read_tsc k s in if t - base_tsc > 24000 then pit_legit_wait dev k old base_tsc s else Some s)
     else Some s)"

definition pit_get_is_legit :: "device \<Rightarrow> clock \<Rightarrow> 'a timer_scheme \<Rightarrow> (bool \<times> 'a timer_scheme) option" where
  "pit_get_is_legit dev k s =
    (let s = pit_start_one_shot 8 s;
         (v, s) = pit_read_counter dev s;
         old_pit_counter = (ucast v :: u8)
     in if \<not> cpu_has_tsc k then Some (True, s)
        else let (base_tsc, s) = read_tsc k s in
          do { s \<leftarrow> pit_legit_wait dev k (ucast old_pit_counter) base_tsc s;
               let (t, s) = read_tsc k s;
               Some (t - base_tsc > 24000, s) })"

section \<open>The speed of the processor\<close>

definition measure_tsc_over_pit :: "device \<Rightarrow> clock \<Rightarrow> u16 \<Rightarrow> 'a timer_scheme \<Rightarrow> (u64 \<times> 'a timer_scheme) option" where
  "measure_tsc_over_pit dev k pit_reload s =
    (if pit_reload = 0 then Some (0, s) else
     do { (legit, s) \<leftarrow> pit_get_is_legit dev k s;
          if \<not> legit then Some (0, s) else do {
          let unary = (pit_reload \<le> 0x7FFF);
          let tickrate = (if unary then pit_reload * 2 else pit_reload);
          let skiprate = (if unary then pit_reload else 0);
          let s = pit_start_one_shot tickrate s;
          let (tsc_start, s) = read_tsc k s;
          s \<leftarrow> pit_wait_above dev skiprate s;
          let (tsc_end, s) = read_tsc k s;
          let (remaining_ticks, s) = pit_read_counter dev s;
          let elapsed_ticks = tickrate - remaining_ticks;
          let tsc_estimate = tsc_end - tsc_start;
          Some (if elapsed_ticks > 0 \<and> elapsed_ticks \<noteq> pit_reload
                then (tsc_estimate * ucast pit_reload) div ucast elapsed_ticks else tsc_estimate, s) } })"

definition get_cpu_clock_speed_khz :: "device \<Rightarrow> clock \<Rightarrow> 'a timer_scheme \<Rightarrow> (u64 \<times> 'a timer_scheme) option" where
  "get_cpu_clock_speed_khz dev k s =
    (if \<not> cpu_has_tsc k then Some (0, s) else
     do { (tsc_in_1_ltu, s) \<leftarrow> measure_tsc_over_pit dev k (1193 * 4) s;
          if tsc_in_1_ltu = 0 then Some (0, s)
          else Some ((tsc_in_1_ltu * 1000000000 div 999848528) div 4, s) })"

definition set_CPU_clock_speed_partial :: "device \<Rightarrow> clock \<Rightarrow> 'a timer_scheme \<Rightarrow> (int \<times> 'a timer_scheme) option" where
  "set_CPU_clock_speed_partial dev k s =
    do { s \<leftarrow> (if CPU_clock_speed s = 0
               then do { (v, s) \<leftarrow> get_cpu_clock_speed_khz dev k s; Some (s\<lparr>CPU_clock_speed := v * 1000\<rparr>) }
               else Some s);
         Some (if CPU_clock_speed s = 0 then - 1 else 0, s) }"

text \<open>The loop of ten rounds, \<open>n\<close> left; a failed round ends it.\<close>

primrec clock_rounds :: "device \<Rightarrow> clock \<Rightarrow> nat \<Rightarrow> u64 \<Rightarrow> 'a timer_scheme \<Rightarrow> (u64 option \<times> 'a timer_scheme) option" where
  "clock_rounds dev k 0 accumulate s = Some (Some accumulate, s)"
| "clock_rounds dev k (Suc n) accumulate s =
    do { (_, s) \<leftarrow> set_CPU_clock_speed_partial dev k s;
         if CPU_clock_speed s = 0 then Some (None, s)
         else clock_rounds dev k n (accumulate + CPU_clock_speed s div 1000) s }"

definition set_CPU_clock_speed :: "device \<Rightarrow> clock \<Rightarrow> 'a timer_scheme \<Rightarrow> (int \<times> 'a timer_scheme) option" where
  "set_CPU_clock_speed dev k s =
    (if CPU_clock_speed s \<noteq> 0 then Some (0, s) else
     do { (r, s) \<leftarrow> clock_rounds dev k 10 0 s;
          case r of None \<Rightarrow> Some (- 1, s) | Some accumulate \<Rightarrow> Some (0, s\<lparr>CPU_clock_speed := accumulate * 100\<rparr>) })"

section \<open>Reading the time\<close>

definition get_time_ms :: "device \<Rightarrow> clock \<Rightarrow> 'a timer_scheme \<Rightarrow> (u32 \<times> 'a timer_scheme) option" where
  "get_time_ms dev k s =
    do { (error, s) \<leftarrow> set_CPU_clock_speed dev k s;
         if error \<noteq> 0 \<or> boot_tsc s = 0 then Some (0, s) else do {
         let (current_tsc, s) = read_tsc k s;
         let elapsed_tsc = current_tsc - boot_tsc s;
         if CPU_clock_speed s = 0 then None
         else Some (ucast ((elapsed_tsc * 1000) div CPU_clock_speed s), s) } }"

definition get_time_us :: "device \<Rightarrow> clock \<Rightarrow> 'a timer_scheme \<Rightarrow> (u32 \<times> 'a timer_scheme) option" where
  "get_time_us dev k s =
    do { (error, s) \<leftarrow> set_CPU_clock_speed dev k s;
         if error \<noteq> 0 \<or> boot_tsc s = 0 then Some (0, s) else do {
         let (current_tsc, s) = read_tsc k s;
         let elapsed_tsc = current_tsc - boot_tsc s;
         let cycles_per_us = CPU_clock_speed s div 1000000;
         if cycles_per_us = 0 then None
         else Some (ucast (elapsed_tsc div cycles_per_us), s) } }"

partial_function (option) tsc_delay_loop :: "device \<Rightarrow> clock \<Rightarrow> u32 \<Rightarrow> u32 \<Rightarrow> u32 \<Rightarrow> 'a timer_scheme \<Rightarrow> (u32 \<times> 'a timer_scheme) option" where
  "tsc_delay_loop dev k micros start_time last_recorded_time s =
    (if last_recorded_time \<noteq> 0 \<and> last_recorded_time - start_time < micros
     then do { (last_recorded_time, s) \<leftarrow> get_time_us dev k s; tsc_delay_loop dev k micros start_time last_recorded_time s }
     else Some (last_recorded_time, s))"

definition tsc_delay_us :: "device \<Rightarrow> clock \<Rightarrow> u32 \<Rightarrow> 'a timer_scheme \<Rightarrow> (int \<times> 'a timer_scheme) option" where
  "tsc_delay_us dev k micros s =
    do { (start_time, s) \<leftarrow> get_time_us dev k s;
         if start_time = 0 then Some (- 1, s)
         else do { (last_recorded_time, s) \<leftarrow> tsc_delay_loop dev k micros start_time start_time s;
                   Some (if last_recorded_time = 0 then - 1 else 0, s) } }"

definition udelay :: "device \<Rightarrow> clock \<Rightarrow> u32 \<Rightarrow> 'a timer_scheme \<Rightarrow> (int \<times> 'a timer_scheme) option" where
  "udelay dev k micros s =
    do { s \<leftarrow> (if microdelay_mode s = PIT_DELAY
               then do { (legit, s) \<leftarrow> pit_get_is_legit dev k s; Some (if legit then s else s\<lparr>microdelay_mode := TSC_DELAY\<rparr>) }
               else Some s);
         let s = (if microdelay_mode s = TSC_DELAY \<and> \<not> cpu_has_tsc k then s\<lparr>microdelay_mode := HPET_DELAY\<rparr> else s);
         case microdelay_mode s of
           PIT_DELAY \<Rightarrow> do { s \<leftarrow> pit_delay_us dev micros s; Some (0, s) }
         | TSC_DELAY \<Rightarrow> tsc_delay_us dev k micros s
         | _ \<Rightarrow> Some (- 1, s) }"

section \<open>A clock that is never calibrated\<close>

text \<open>Three port accesses, and the readings between them, take at most 24000 cycles.\<close>

definition quick_ports :: "clock \<Rightarrow> bool" where
  "quick_ports k \<longleftrightarrow> (\<forall>es tr n j. length es \<le> 3 \<longrightarrow> j \<le> 2 \<longrightarrow> tsc_at k (es @ tr) (n + j) - tsc_at k tr n \<le> 24000)"

lemma read_counter_trace:
  obtains es v where "pit_read_counter dev s = (v, s\<lparr>trace := es @ trace s\<rparr>)" "length es = 3"
proof -
  let ?t = "trace s" let ?o = "Out8 PIT_CMD_PORT 0x00"
  let ?a = "In8 PIT_CHANNEL0_PORT (port8 dev (?o # ?t) PIT_CHANNEL0_PORT)"
  let ?b = "In8 PIT_CHANNEL0_PORT (port8 dev (?a # ?o # ?t) PIT_CHANNEL0_PORT)"
  show thesis
    by (rule that [of _ "[?b, ?a, ?o]"]) (simp_all add: pit_read_counter_def outb_def inb_def emit_def Let_def)
qed

lemma not_legit:
  assumes q: "quick_ports k" and k: "cpu_has_tsc k"
  shows "\<exists>s'. pit_get_is_legit dev k s = Some (False, s') \<and> CPU_clock_speed s' = CPU_clock_speed s \<and> boot_tsc s' = boot_tsc s \<and>
    microdelay_mode s' = microdelay_mode s \<and> timer.more s' = timer.more s"
proof -
  define s0 where "s0 = pit_start_one_shot 8 s"
  have s0: "CPU_clock_speed s0 = CPU_clock_speed s" "boot_tsc s0 = boot_tsc s" "microdelay_mode s0 = microdelay_mode s" "timer.more s0 = timer.more s"
    by (simp_all add: s0_def pit_start_one_shot_def outb_def emit_def Let_def)
  obtain e1 v where 1: "pit_read_counter dev s0 = (v, s0\<lparr>trace := e1 @ trace s0\<rparr>)" by (rule read_counter_trace)
  define s1 where "s1 = s0\<lparr>trace := e1 @ trace s0\<rparr>"
  let ?b = "tsc_at k (trace s1) (tsc_reads s1)" let ?s2 = "s1\<lparr>tsc_reads := tsc_reads s1 + 1\<rparr>"
  obtain e2 w where 2: "pit_read_counter dev ?s2 = (w, ?s2\<lparr>trace := e2 @ trace ?s2\<rparr>)" "length e2 = 3" by (rule read_counter_trace)
  let ?s3 = "?s2\<lparr>trace := e2 @ trace s1\<rparr>" let ?s4 = "?s3\<lparr>tsc_reads := tsc_reads s1 + 2\<rparr>"
  have le: "\<not> 24000 < tsc_at k (e2 @ trace s1) (tsc_reads s1 + j) - ?b" if "j \<le> 2" for j
    using q 2(2) that unfolding quick_ports_def not_less by auto
  note le1 = le [of 1, simplified] and le2 = le [of 2, simplified]
  show ?thesis
  proof (cases "w = ucast (ucast v :: u8)")
    case True
    then have "pit_legit_wait dev k (ucast (ucast v :: u8)) ?b ?s2 = Some ?s4"
      using 2(1) le1 by (subst pit_legit_wait.simps) (simp add: read_tsc_def)
    then have "pit_get_is_legit dev k s = Some (False, ?s4\<lparr>tsc_reads := tsc_reads s1 + 3\<rparr>)"
      using k 1 le2 unfolding pit_get_is_legit_def s0_def [symmetric] Let_def
      by (simp add: s1_def [symmetric] read_tsc_def)
    then show ?thesis using s0 by (simp add: s1_def)
  next
    case False
    then have "pit_legit_wait dev k (ucast (ucast v :: u8)) ?b ?s2 = Some ?s3"
      using 2(1) by (subst pit_legit_wait.simps) simp
    then have "pit_get_is_legit dev k s = Some (False, ?s3\<lparr>tsc_reads := tsc_reads s1 + 2\<rparr>)"
      using k 1 le1 unfolding pit_get_is_legit_def s0_def [symmetric] Let_def
      by (simp add: s1_def [symmetric] read_tsc_def)
    then show ?thesis using s0 by (simp add: s1_def)
  qed
qed

lemma no_clock:
  assumes q: "quick_ports k" and k: "cpu_has_tsc k" and z: "CPU_clock_speed s = 0"
  shows "\<exists>s'. set_CPU_clock_speed dev k s = Some (- 1, s') \<and> CPU_clock_speed s' = 0 \<and> microdelay_mode s' = microdelay_mode s \<and>
    timer.more s' = timer.more s"
proof -
  obtain s1 where s1: "pit_get_is_legit dev k s = Some (False, s1)" "CPU_clock_speed s1 = 0" "microdelay_mode s1 = microdelay_mode s"
    "timer.more s1 = timer.more s" using not_legit [OF q k, of dev s] z by auto
  then have "get_cpu_clock_speed_khz dev k s = Some (0, s1)"
    using k by (simp add: get_cpu_clock_speed_khz_def measure_tsc_over_pit_def)
  then have "set_CPU_clock_speed_partial dev k s = Some (- 1, s1\<lparr>CPU_clock_speed := 0\<rparr>)"
    using z by (simp add: set_CPU_clock_speed_partial_def)
  then have "clock_rounds dev k 10 0 s = Some (None, s1\<lparr>CPU_clock_speed := 0\<rparr>)"
    by (simp add: numeral_eq_Suc)
  then show ?thesis using z s1 by (simp add: set_CPU_clock_speed_def)
qed

text \<open>Then the clocks show 0 and nothing waits; of the state, only the part of the timer changes.\<close>

lemma dead_time:
  assumes "quick_ports k" "cpu_has_tsc k" "CPU_clock_speed s = 0"
  shows "\<exists>s'. get_time_ms dev k s = Some (0, s') \<and> get_time_us dev k s = Some (0, s') \<and> CPU_clock_speed s' = 0 \<and> timer.more s' = timer.more s"
  using no_clock [OF assms, of dev] by (auto simp: get_time_us_def get_time_ms_def)

lemma dead_delay:
  assumes "quick_ports k" "cpu_has_tsc k" "CPU_clock_speed s = 0"
  shows "\<exists>s'. udelay dev k micros s = Some (- 1, s') \<and> CPU_clock_speed s' = 0 \<and> timer.more s' = timer.more s"
proof -
  have tsc: "\<exists>s'. tsc_delay_us dev k micros s = Some (- 1, s') \<and> CPU_clock_speed s' = 0 \<and> timer.more s' = timer.more s"
    if "CPU_clock_speed s = 0" for s
    using dead_time [OF assms(1,2) that, of dev] by (auto simp: tsc_delay_us_def)
  show ?thesis
  proof (cases "microdelay_mode s")
    case PIT_DELAY
    obtain s1 where "pit_get_is_legit dev k s = Some (False, s1)" "CPU_clock_speed s1 = 0" "timer.more s1 = timer.more s"
      using not_legit [OF assms(1,2), of dev s] assms(3) by auto
    then show ?thesis using PIT_DELAY assms(2) tsc [of "s1\<lparr>microdelay_mode := TSC_DELAY\<rparr>"] by (simp add: udelay_def)
  next
    case TSC_DELAY
    then show ?thesis using tsc [OF assms(3)] assms(2) by (simp add: udelay_def)
  qed (use assms in \<open>simp_all add: udelay_def\<close>)
qed

section \<open>A calibrated clock\<close>

text \<open>The ticks since the start of the kernel that the \<open>n\<close>-th reading shows.\<close>

definition elapsed :: "clock \<Rightarrow> 'a timer_scheme \<Rightarrow> nat \<Rightarrow> nat" where
  "elapsed k s n = unat (tsc_at k (trace s) n - boot_tsc s)"

definition calibrated :: "nat \<Rightarrow> 'a timer_scheme \<Rightarrow> bool" where
  "calibrated c s \<longleftrightarrow> boot_tsc s \<noteq> 0 \<and> unat (CPU_clock_speed s) div 1000000 = c \<and> 0 < c"

lemma time_us:
  assumes "calibrated c s"
  shows "get_time_us dev k s = Some (of_nat (elapsed k s (tsc_reads s) div c), s\<lparr>tsc_reads := Suc (tsc_reads s)\<rparr>)"
proof -
  let ?f = "CPU_clock_speed s" let ?e = "tsc_at k (trace s) (tsc_reads s) - boot_tsc s"
  have u: "unat (?f div 1000000) = c" using assms by (simp add: calibrated_def unat_div)
  then have nz: "?f div 1000000 \<noteq> 0" using assms unfolding calibrated_def by auto
  then have f: "?f \<noteq> 0" by auto
  have "unat (?e div (?f div 1000000)) = elapsed k s (tsc_reads s) div c" using u by (simp add: unat_div elapsed_def)
  moreover have "(ucast (?e div (?f div 1000000)) :: u32) = of_nat (unat (?e div (?f div 1000000)))" by simp
  ultimately have "(ucast (?e div (?f div 1000000)) :: u32) = of_nat (elapsed k s (tsc_reads s) div c)" by (simp only:)
  with nz f show ?thesis using assms by (simp add: get_time_us_def set_CPU_clock_speed_def calibrated_def read_tsc_def)
qed

lemma delay_loop:
  assumes cal: "calibrated c s" and up: "\<forall>n. elapsed k s n < (a + unat micros) * c \<longrightarrow> elapsed k s n < elapsed k s (Suc n) \<and> elapsed k s (Suc n) \<le> elapsed k s n + D"
    and a: "0 < a" and lim: "(a + unat micros + 1) * c + D \<le> 2 ^ 32 * c"
    and n: "a \<le> elapsed k s n div c" "elapsed k s n < (a + unat micros + 1) * c + D"
  shows "\<exists>n'. tsc_delay_loop dev k micros (of_nat a) (of_nat (elapsed k s n div c)) (s\<lparr>tsc_reads := Suc n\<rparr>) =
      Some (of_nat (elapsed k s n' div c), s\<lparr>tsc_reads := Suc n'\<rparr>) \<and>
    a + unat micros \<le> elapsed k s n' div c \<and> elapsed k s n' < (a + unat micros + 1) * c + D"
  using n
proof (induction "(a + unat micros + 1) * c + D - elapsed k s n" arbitrary: n rule: less_induct)
  case less
  let ?e = "elapsed k s n div c" let ?s = "s\<lparr>tsc_reads := Suc n\<rparr>"
  have c: "0 < c" using cal by (simp add: calibrated_def)
  have "elapsed k s n < 2 ^ 32 * c" using less.prems(2) lim by linarith
  then have e32: "?e < 2 ^ 32" using c by (simp add: less_mult_imp_div_less)
  then have u: "unat (of_nat ?e :: u32) = ?e" "unat (of_nat a :: u32) = a"
    using less.prems(1) by (simp_all add: unat_of_nat take_bit_nat_eq_self)
  then have d: "unat (of_nat ?e - of_nat a :: u32) = ?e - a" using less.prems(1) by (subst unat_sub) (simp_all add: word_le_nat_alt)
  have nz: "(of_nat ?e :: u32) \<noteq> 0" using u(1) less.prems(1) a by auto
  show ?case
  proof (cases "?e - a < unat micros")
    case False
    then have "tsc_delay_loop dev k micros (of_nat a) (of_nat ?e) ?s = Some (of_nat ?e, ?s)"
      using d by (subst tsc_delay_loop.simps) (simp add: word_less_nat_alt)
    then show ?thesis using False less.prems by (intro exI [of _ n]) auto
  next
    case True
    have cal': "calibrated c ?s" using cal by (simp add: calibrated_def)
    have el: "elapsed k ?s = elapsed k s" by (simp add: elapsed_def fun_eq_iff)
    have step: "get_time_us dev k ?s = Some (of_nat (elapsed k s (Suc n) div c), s\<lparr>tsc_reads := Suc (Suc n)\<rparr>)"
      using time_us [OF cal', of dev k] by (simp add: el)
    then have eq: "tsc_delay_loop dev k micros (of_nat a) (of_nat ?e) ?s =
        tsc_delay_loop dev k micros (of_nat a) (of_nat (elapsed k s (Suc n) div c)) (s\<lparr>tsc_reads := Suc (Suc n)\<rparr>)"
      using True d nz by (subst tsc_delay_loop.simps) (simp add: word_less_nat_alt)
    have "?e < a + unat micros" using True less.prems(1) by linarith
    then have "elapsed k s n < (a + unat micros) * c" using c by (simp add: div_less_iff_less_mult)
    then have up: "elapsed k s n < elapsed k s (Suc n)" "elapsed k s (Suc n) \<le> elapsed k s n + D" "elapsed k s n < (a + unat micros) * c"
      using up by auto
    then have "elapsed k s (Suc n) < (a + unat micros + 1) * c + D" using c by (simp add: algebra_simps)
    moreover have "a \<le> elapsed k s (Suc n) div c"
      using less.prems(1) div_le_mono [of "elapsed k s n" "elapsed k s (Suc n)" c] up(1) by simp
    ultimately show ?thesis unfolding eq using up(1) less.prems(2) by (intro less.hyps) auto
  qed
qed

section \<open>Properties\<close>

text \<open>
  C26. On a processor whose ports answer quickly (three accesses within 24000 cycles) the clock is never
  calibrated: the test of the interval timer leaves its waiting loop at once, because its condition is
  inverted, and then finds that too few cycles have passed. So both clocks show 0 for ever, whatever the
  timer does, and \<open>udelay\<close> reports an error at once instead of waiting.
\<close>
theorem clock_never_calibrated:
  assumes "quick_ports k" "cpu_has_tsc k" "CPU_clock_speed s = 0"
  shows "(\<exists>s'. get_time_ms dev k s = Some (0, s') \<and> CPU_clock_speed s' = 0) \<and>
    (\<exists>s'. get_time_us dev k s = Some (0, s') \<and> CPU_clock_speed s' = 0) \<and>
    (\<exists>s'. udelay dev k micros s = Some (- 1, s') \<and> CPU_clock_speed s' = 0)"
  using dead_time [OF assms, of dev] dead_delay [OF assms, of dev micros] by blast

text \<open>
  C25. With a calibrated clock of \<open>c\<close> ticks per microsecond that advances from one reading to the next while the call waits, by at most
  \<open>D\<close> ticks, \<open>udelay\<close> returns 0. It has then waited at least the time asked for, counted in whole
  microseconds of the clock, and at most one microsecond and \<open>D\<close> ticks longer. The clock must not wrap while it waits, and must show at least one microsecond
  at the start.
\<close>
theorem udelay_waits:
  assumes cal: "calibrated c s" and mode: "microdelay_mode s = TSC_DELAY" "cpu_has_tsc k"
    and up: "\<forall>n. elapsed k s n < (e0 div c + unat micros) * c \<longrightarrow> elapsed k s n < elapsed k s (Suc n) \<and> elapsed k s (Suc n) \<le> elapsed k s n + D"
    and start: "e0 = elapsed k s (tsc_reads s)" "0 < e0 div c" and lim: "(e0 div c + unat micros + 1) * c + D \<le> 2 ^ 32 * c"
  shows "\<exists>n'. udelay dev k micros s = Some (0, s\<lparr>tsc_reads := Suc n'\<rparr>) \<and>
    e0 div c + unat micros \<le> elapsed k s n' div c \<and> elapsed k s n' < (e0 div c + unat micros + 1) * c + D"
proof -
  have c: "0 < c" using cal by (simp add: calibrated_def)
  have "e0 < (e0 div c + 1) * c" using dividend_less_times_div [OF c, of e0] by (simp add: mult.commute)
  also have "\<dots> \<le> (e0 div c + unat micros + 1) * c + D" by (simp add: algebra_simps)
  finally have "elapsed k s (tsc_reads s) < (e0 div c + unat micros + 1) * c + D" unfolding start(1) .
  from delay_loop [OF cal up start(2) lim _ this, of dev] start(1)
  obtain n' where n': "tsc_delay_loop dev k micros (of_nat (e0 div c)) (of_nat (e0 div c)) (s\<lparr>tsc_reads := Suc (tsc_reads s)\<rparr>) =
      Some (of_nat (elapsed k s n' div c), s\<lparr>tsc_reads := Suc n'\<rparr>)"
    "e0 div c + unat micros \<le> elapsed k s n' div c" "elapsed k s n' < (e0 div c + unat micros + 1) * c + D" by blast
  have nz: "(of_nat e :: u32) \<noteq> 0" if "0 < e" "e < 2 ^ 32" for e
  proof
    assume "(of_nat e :: u32) = 0"
    then have "unat (of_nat e :: u32) = 0" by simp
    then show False using that by (simp add: unat_of_nat take_bit_nat_eq_self)
  qed
  have "elapsed k s n' div c < 2 ^ 32" using n'(3) lim by (intro less_mult_imp_div_less) linarith
  moreover have "e0 div c < 2 ^ 32"
    using n'(2) calculation by linarith
  ultimately have "tsc_delay_us dev k micros s = Some (0, s\<lparr>tsc_reads := Suc n'\<rparr>)"
    using time_us [OF cal, of dev k] n'(1,2) start nz [of "e0 div c"] nz [of "elapsed k s n' div c"] by (simp add: tsc_delay_us_def)
  then show ?thesis using mode n'(2,3) by (auto simp: udelay_def)
qed

text \<open>A processor of 3 GHz that needs a microsecond for a port access or a reading.\<close>

definition sample_clock :: clock where
  "sample_clock = \<lparr>cpu_has_tsc = True, tsc_at = \<lambda>tr n. of_nat (3000 * (length tr + n))\<rparr>"

definition no_ports :: device where
  "no_ports = \<lparr>port8 = \<lambda>tr p. 0, port16 = \<lambda>tr p. 0, port32 = \<lambda>tr p. 0, mmio32 = \<lambda>tr a. 0, msr = \<lambda>tr r. 0, cr4 = \<lambda>tr. 0\<rparr>"

lemma quick_sample_clock: "quick_ports sample_clock"
proof -
  have "tsc_at sample_clock (es @ tr) (n + j) - tsc_at sample_clock tr n = of_nat (3000 * (length es + j))" for es tr n j
    by (simp add: sample_clock_def algebra_simps)
  moreover have "(of_nat (3000 * (l + j)) :: u64) \<le> 24000" if "l \<le> 3" "j \<le> 2" for l j :: nat
  proof -
    have "unat (of_nat (3000 * (l + j)) :: u64) = 3000 * (l + j)" using that by (intro unat_of_nat_64) simp
    then show ?thesis unfolding word_le_nat_alt using that by (simp del: of_nat_mult of_nat_add)
  qed
  ultimately show ?thesis unfolding quick_ports_def by (simp only:) blast
qed

theorem clock_never_calibrated_witness:
  "\<exists>s'. udelay no_ports sample_clock 1000 \<lparr>trace = [], tsc_reads = 1, CPU_clock_speed = 0, boot_tsc = 1, microdelay_mode = TSC_DELAY\<rparr> = Some (- 1, s')"
  using clock_never_calibrated [OF quick_sample_clock, of "\<lparr>trace = [], tsc_reads = 1, CPU_clock_speed = 0, boot_tsc = 1, microdelay_mode = TSC_DELAY\<rparr>" no_ports 1000]
  by (auto simp: sample_clock_def)

theorem udelay_waits_witness:
  "\<exists>n'. udelay no_ports sample_clock 5 \<lparr>trace = [], tsc_reads = 10, CPU_clock_speed = 3000000000, boot_tsc = 3000, microdelay_mode = TSC_DELAY\<rparr> =
      Some (0, \<lparr>trace = [], tsc_reads = Suc n', CPU_clock_speed = 3000000000, boot_tsc = 3000, microdelay_mode = TSC_DELAY\<rparr>)"
proof -
  let ?s = "\<lparr>trace = [], tsc_reads = 10, CPU_clock_speed = 3000000000, boot_tsc = 3000, microdelay_mode = TSC_DELAY\<rparr> :: timer"
  have el: "elapsed sample_clock ?s n = unat (of_nat (3000 * n) - 3000 :: u64)" for n
    by (simp add: elapsed_def sample_clock_def)
  have up: "elapsed sample_clock ?s (Suc n) = elapsed sample_clock ?s n + 3000" if "elapsed sample_clock ?s n < 42000" for n
  proof -
    have plus: "unat (x + 3000) = unat x + 3000" if "unat x < 42000" for x :: u64 using that by (simp add: unat_word_ariths)
    have "(of_nat (3000 * Suc n) - 3000 :: u64) = (of_nat (3000 * n) - 3000) + 3000" by simp
    then show ?thesis unfolding el by (simp only: plus [OF that [unfolded el]])
  qed
  have u: "\<forall>n. elapsed sample_clock ?s n < (27000 div 3000 + unat (5 :: u32)) * 3000 \<longrightarrow>
      elapsed sample_clock ?s n < elapsed sample_clock ?s (Suc n) \<and> elapsed sample_clock ?s (Suc n) \<le> elapsed sample_clock ?s n + 3000"
  proof (intro allI impI)
    fix n assume "elapsed sample_clock ?s n < (27000 div 3000 + unat (5 :: u32)) * 3000"
    then have "elapsed sample_clock ?s n < 42000" by simp
    from up [OF this] show "elapsed sample_clock ?s n < elapsed sample_clock ?s (Suc n) \<and> elapsed sample_clock ?s (Suc n) \<le> elapsed sample_clock ?s n + 3000"
      by linarith
  qed
  have st: "27000 = elapsed sample_clock ?s (tsc_reads ?s)" unfolding el by simp
  have c: "calibrated 3000 ?s" "microdelay_mode ?s = TSC_DELAY" "cpu_has_tsc sample_clock" by (simp_all add: calibrated_def sample_clock_def)
  have "\<exists>n'. udelay no_ports sample_clock 5 ?s = Some (0, ?s\<lparr>tsc_reads := Suc n'\<rparr>) \<and>
      27000 div 3000 + unat (5 :: u32) \<le> elapsed sample_clock ?s n' div 3000 \<and> elapsed sample_clock ?s n' < (27000 div 3000 + unat (5 :: u32) + 1) * 3000 + 3000"
    by (rule udelay_waits [OF c u st]) simp_all
  then show ?thesis by auto
qed

end
