(* ===== verification/Pci.thy ===== *)
theory Pci
  imports Sata Time
begin

text \<open>
  Enumeration of the PCI bus (\<open>drivers/pci/pci.c\<close>). The state is the machine with the memory, the page
  allocator and the adapters behind memory-mapped registers. What is done with an EHCI controller
  is an argument of the scan. Buses behind bridges are scanned by recursion, whose depth nothing
  bounds in the code: \<open>n\<close> is the number of nested buses the model follows, and \<open>None\<close> says that it was not enough or
  that a device's function did not return.
\<close>

section \<open>Configuration space\<close>

record 'h pci = timer +
  pid_rn :: u32
  pages :: pmm
  kmem :: mem
  hw :: 'h

definition PCI_CONFIG_ADDRESS :: u16 where "PCI_CONFIG_ADDRESS = 0xCF8"
definition PCI_CONFIG_DATA :: u16 where "PCI_CONFIG_DATA = 0xCFC"

definition config_address :: "u8 \<Rightarrow> u8 \<Rightarrow> u8 \<Rightarrow> u8 \<Rightarrow> u32" where
  "config_address bus device func offset =
    push_bit 31 1 OR push_bit 16 (ucast bus) OR push_bit 11 (ucast device) OR push_bit 8 (ucast func) OR ucast (offset AND 0xFC)"

definition pci_read :: "device \<Rightarrow> u8 \<Rightarrow> u8 \<Rightarrow> u8 \<Rightarrow> u8 \<Rightarrow> 'a machine_scheme \<Rightarrow> u32 \<times> 'a machine_scheme" where
  "pci_read dev bus device func offset s =
    (let s = outl PCI_CONFIG_ADDRESS (config_address bus device func offset) s in inl dev PCI_CONFIG_DATA s)"

definition pci_write :: "u8 \<Rightarrow> u8 \<Rightarrow> u8 \<Rightarrow> u8 \<Rightarrow> u32 \<Rightarrow> 'a machine_scheme \<Rightarrow> 'a machine_scheme" where
  "pci_write bus device func offset data s =
    (let s = outl PCI_CONFIG_ADDRESS (config_address bus device func offset) s in outl PCI_CONFIG_DATA data s)"

definition pci_get_bar_size :: "device \<Rightarrow> u8 \<Rightarrow> u8 \<Rightarrow> u8 \<Rightarrow> u8 \<Rightarrow> 'a machine_scheme \<Rightarrow> u32 \<times> 'a machine_scheme" where
  "pci_get_bar_size dev bus device func offset s =
    (let (orig, s) = pci_read dev bus device func offset s;
         s = pci_write bus device func offset 0xFFFFFFFF s;
         (size_mask, s) = pci_read dev bus device func offset s;
         s = pci_write bus device func offset orig s;
         size_mask = size_mask AND NOT 0xF
     in (NOT size_mask + 1, s))"

definition pci_read_bar :: "device \<Rightarrow> u8 \<Rightarrow> u8 \<Rightarrow> u8 \<Rightarrow> u8 \<Rightarrow> 'a machine_scheme \<Rightarrow> u32 \<times> 'a machine_scheme" where
  "pci_read_bar dev bus device func bar_num s =
    (if bar_num > 5 then (0, s) else pci_read dev bus device func (0x10 + bar_num * 4) s)"

section \<open>Enumeration\<close>

definition PTE_CACHE_DISABLE :: u64 where "PTE_CACHE_DISABLE = push_bit 4 1"
definition PTE_WRITE_THROUGH :: u64 where "PTE_WRITE_THROUGH = push_bit 3 1"

definition kmap_page :: "vmm \<Rightarrow> u64 \<Rightarrow> u64 \<Rightarrow> u64 \<Rightarrow> ('h, 'a) pci_scheme \<Rightarrow> ('h, 'a) pci_scheme" where
  "kmap_page v virt phys flags s = (let (m, p) = map_page v virt phys flags (kmem s, pages s) in s\<lparr>kmem := m, pages := p\<rparr>)"

text \<open>An AHCI controller: its registers are mapped where they are and its ports are searched.\<close>

definition ahci_found :: "vmm \<Rightarrow> u8 list \<Rightarrow> u64 \<Rightarrow> 'h hba \<Rightarrow> u32 \<Rightarrow> ('h, 'a) pci_scheme \<Rightarrow> ('h, 'a) pci_scheme option" where
  "ahci_found v stack c H ahci_base s =
    (let s = s\<lparr>pid_rn := 7\<rparr>;
         s = kmap_page v (ucast ahci_base) (ucast ahci_base) (PTE_WRITABLE OR PTE_CACHE_DISABLE OR PTE_WRITE_THROUGH) s
     in do { (m, h) \<leftarrow> sata_search v stack c H ahci_base (kmem s, hw s); Some (s\<lparr>kmem := m, hw := h\<rparr>) })"

text \<open>
  One function of a device. \<open>ahci\<close> and \<open>ehci\<close> stand for what is done with the controllers, \<open>down\<close> for the scan of a
  bus behind a bridge.
\<close>

definition scan_pci_func ::
    "device \<Rightarrow> (u32 \<Rightarrow> 'a machine_scheme \<Rightarrow> 'a machine_scheme option) \<Rightarrow> (u8 \<Rightarrow> u8 \<Rightarrow> u8 \<Rightarrow> 'a machine_scheme \<Rightarrow> 'a machine_scheme option) \<Rightarrow>
     (u8 \<Rightarrow> 'a machine_scheme \<Rightarrow> 'a machine_scheme option) \<Rightarrow> u8 \<Rightarrow> u8 \<Rightarrow> u8 \<Rightarrow> 'a machine_scheme \<Rightarrow> 'a machine_scheme option" where
  "scan_pci_func dev ahci ehci down bus device func s =
    (let (vd, s) = pci_read dev bus device func 0x00 s;
         vid = (ucast (vd AND 0xFFFF) :: u16)
     in if vid = 0xFFFF then Some s else
     let (class_data, s) = pci_read dev bus device func 0x08 s;
         class_code = (ucast (drop_bit 24 class_data AND 0xFF) :: u8);
         subclass = (ucast (drop_bit 16 class_data AND 0xFF) :: u8);
         prog_if = (ucast (drop_bit 8 class_data AND 0xFF) :: u8)
     in if class_code = 0x01 then
          (if subclass = 0x06 \<and> prog_if = 0x01 then
             let (bar5, s) = pci_read dev bus device func 0x24 s in ahci (bar5 AND 0xFFFFFFF0) s
           else Some s)
        else if class_code = 0x0C \<and> subclass = 0x03 then
          (if prog_if = 0x20 then ehci bus device func s else Some s)
        else if class_code = 0x06 \<and> subclass = 0x04 then
          let (bus_data, s) = pci_read dev bus device func 0x18 s in down (ucast (drop_bit 8 bus_data AND 0xFF)) s
        else Some s)"

primrec each :: "('b \<Rightarrow> 's \<Rightarrow> 's option) \<Rightarrow> 'b list \<Rightarrow> 's \<Rightarrow> 's option" where
  "each f [] s = Some s"
| "each f (x # xs) s = do { s \<leftarrow> f x s; each f xs s }"

definition scan_pci_device ::
    "device \<Rightarrow> (u32 \<Rightarrow> 'a machine_scheme \<Rightarrow> 'a machine_scheme option) \<Rightarrow> (u8 \<Rightarrow> u8 \<Rightarrow> u8 \<Rightarrow> 'a machine_scheme \<Rightarrow> 'a machine_scheme option) \<Rightarrow>
     (u8 \<Rightarrow> 'a machine_scheme \<Rightarrow> 'a machine_scheme option) \<Rightarrow> u8 \<Rightarrow> u8 \<Rightarrow> 'a machine_scheme \<Rightarrow> 'a machine_scheme option" where
  "scan_pci_device dev ahci ehci down bus device s =
    (let (vendor_data, s) = pci_read dev bus device 0 0x00 s;
         vendor_id = (ucast (vendor_data AND 0xFFFF) :: u16)
     in if vendor_id = 0xFFFF then Some s else
     let (header_data, s) = pci_read dev bus device 0 0x0C s;
         header_type = (ucast (drop_bit 16 header_data AND 0xFF) :: u8);
         func_limit = (if header_type AND 0x80 \<noteq> 0 then 8 else 1 :: nat)
     in each (scan_pci_func dev ahci ehci down bus device) (map of_nat [0..<func_limit]) s)"

primrec scan_pci_bus ::
    "device \<Rightarrow> (u32 \<Rightarrow> 'a machine_scheme \<Rightarrow> 'a machine_scheme option) \<Rightarrow> (u8 \<Rightarrow> u8 \<Rightarrow> u8 \<Rightarrow> 'a machine_scheme \<Rightarrow> 'a machine_scheme option) \<Rightarrow>
     nat \<Rightarrow> u8 \<Rightarrow> 'a machine_scheme \<Rightarrow> 'a machine_scheme option" where
  "scan_pci_bus dev ahci ehci 0 bus s = None"
| "scan_pci_bus dev ahci ehci (Suc n) bus s =
    each (scan_pci_device dev ahci ehci (scan_pci_bus dev ahci ehci n) bus) (map of_nat [0..<32]) s"

definition start_pci_enumeration ::
    "device \<Rightarrow> (u32 \<Rightarrow> 'a machine_scheme \<Rightarrow> 'a machine_scheme option) \<Rightarrow> (u8 \<Rightarrow> u8 \<Rightarrow> u8 \<Rightarrow> 'a machine_scheme \<Rightarrow> 'a machine_scheme option) \<Rightarrow>
     nat \<Rightarrow> 'a machine_scheme \<Rightarrow> 'a machine_scheme option" where
  "start_pci_enumeration dev ahci ehci n s =
    (let (header_data, s) = pci_read dev 0 0 0 0x0C s;
         header_type = (ucast (drop_bit 16 header_data AND 0xFF) :: u8)
     in if header_type AND 0x80 = 0 then scan_pci_bus dev ahci ehci n 0 s
        else each (\<lambda>func s.
          (let (vd, s) = pci_read dev 0 0 func 0x00 s;
               vid = (ucast (vd AND 0xFFFF) :: u16)
           in if vid = 0xFFFF then Some s else
           let (bus_data, s) = pci_read dev 0 0 func 0x18 s in
           scan_pci_bus dev ahci ehci n (ucast (drop_bit 8 bus_data AND 0xFF)) s)) (map of_nat [0..<8]) s)"

section \<open>The devices of a configuration space\<close>

text \<open>A configuration space whose registers do not change while the bus is scanned.\<close>

definition config :: "device \<Rightarrow> (u32 \<Rightarrow> u32) \<Rightarrow> bool" where
  "config dev cfg \<longleftrightarrow> (\<forall>a tr. port32 dev (Out32 PCI_CONFIG_ADDRESS a # tr) PCI_CONFIG_DATA = cfg a)"

lemma config_read:
  assumes "config dev cfg"
  obtains e1 e2 where "pci_read dev bus device func offset s =
    (cfg (config_address bus device func offset), s\<lparr>trace := e1 # e2 # trace s\<rparr>)"
  using assms by (auto simp: pci_read_def outl_def inl_def emit_def Let_def config_def)

datatype role = Nothing | Ahci u32 | Ehci | Bridge u8

definition field :: "nat \<Rightarrow> u32 \<Rightarrow> nat" where "field k x = unat x div 2 ^ k mod 256"

definition vendor :: "u32 \<Rightarrow> nat" where "vendor x = unat x mod 2 ^ 16"

definition role :: "(u32 \<Rightarrow> u32) \<Rightarrow> u8 \<Rightarrow> u8 \<Rightarrow> u8 \<Rightarrow> role" where
  "role cfg bus device func =
    (let reg = (\<lambda>ofs. cfg (config_address bus device func ofs)); cl = reg 0x08 in
     if vendor (reg 0x00) = 0xFFFF then Nothing
     else if (field 24 cl, field 16 cl, field 8 cl) = (1, 6, 1) then Ahci (reg 0x24 AND 0xFFFFFFF0)
     else if (field 24 cl, field 16 cl, field 8 cl) = (0xC, 3, 0x20) then Ehci
     else if (field 24 cl, field 16 cl) = (6, 4) then Bridge (of_nat (field 8 (reg 0x18)))
     else Nothing)"

text \<open>The functions of a device: function 0 must be there, and bit 7 of its header type says that there may be more.\<close>

definition dev_functions :: "(u32 \<Rightarrow> u32) \<Rightarrow> u8 \<Rightarrow> u8 \<Rightarrow> u8 list" where
  "dev_functions cfg bus device =
    (if vendor (cfg (config_address bus device 0 0)) = 0xFFFF then []
     else if bit (cfg (config_address bus device 0 0x0C)) 23 then map of_nat [0..<8] else [0])"

text \<open>
  The controllers on a bus and behind its bridges, in the order of the scan, for \<open>n\<close> nested buses.
\<close>

definition devices :: "u8 list" where "devices = map of_nat [0..<32]"

definition on_bus :: "(u32 \<Rightarrow> u32) \<Rightarrow> u8 \<Rightarrow> (u8 \<times> u8) list" where
  "on_bus cfg bus = concat (map (\<lambda>d. map (Pair d) (dev_functions cfg bus d)) devices)"

primrec hierarchy :: "(u32 \<Rightarrow> u32) \<Rightarrow> nat \<Rightarrow> u8 \<Rightarrow> (u8 \<times> u8 \<times> u8) list option" where
  "hierarchy cfg 0 bus = None"
| "hierarchy cfg (Suc n) bus = map_option concat (those (map (\<lambda>(d, f).
    case role cfg bus d f of Nothing \<Rightarrow> Some [] | Bridge b \<Rightarrow> hierarchy cfg n b | _ \<Rightarrow> Some [(bus, d, f)]) (on_bus cfg bus)))"

definition treat :: "(u32 \<Rightarrow> 'r \<Rightarrow> 'r option) \<Rightarrow> (u8 \<Rightarrow> u8 \<Rightarrow> u8 \<Rightarrow> 'r \<Rightarrow> 'r option) \<Rightarrow> (u32 \<Rightarrow> u32) \<Rightarrow> u8 \<times> u8 \<times> u8 \<Rightarrow> 'r \<Rightarrow> 'r option" where
  "treat fa fe cfg bdf r = (case bdf of (b, d, f) \<Rightarrow> case role cfg b d f of Ahci base \<Rightarrow> fa base r | Ehci \<Rightarrow> fe b d f r | _ \<Rightarrow> Some r)"

text \<open>What the code computes from the registers.\<close>

lemma field_eq: "(ucast (drop_bit k (x :: u32) AND 0xFF) :: u8) = of_nat (field k x)"
proof -
  have "drop_bit k x AND 0xFF = take_bit 8 (drop_bit k x)" by (simp add: take_bit_eq_mask mask_eq_exp_minus_1)
  then have "unat (ucast (drop_bit k x AND 0xFF) :: u8) = unat x div 2 ^ k mod 256"
    by (simp only: unsigned_ucast_eq unsigned_take_bit_eq unat_drop_bit) (simp add: take_bit_eq_mod)
  then show ?thesis by (simp add: field_def word_unat_eq_iff unat_of_nat take_bit_eq_mod)
qed

lemma of_field: "(of_nat (field k x) :: u8) = w \<longleftrightarrow> field k x = unat w"
  using unsigned_less [of w] by (auto simp: field_def word_unat_eq_iff unat_of_nat take_bit_eq_mod)

lemma vendor_eq: "(ucast ((x :: u32) AND 0xFFFF) :: u16) = 0xFFFF \<longleftrightarrow> vendor x = 0xFFFF"
proof -
  have "x AND 0xFFFF = take_bit 16 x" by (simp add: take_bit_eq_mask mask_eq_exp_minus_1)
  then have "unat (ucast (x AND 0xFFFF) :: u16) = unat x mod 2 ^ 16"
    by (simp only: unsigned_ucast_eq unsigned_take_bit_eq) (simp add: take_bit_eq_mod)
  then show ?thesis by (simp add: vendor_def word_unat_eq_iff)
qed

lemma header_bit: "(of_nat (field 16 x) :: u8) AND 0x80 = 0 \<longleftrightarrow> \<not> bit x 23"
proof -
  have "(of_nat (field 16 x) :: u8) = ucast (drop_bit 16 x AND 0xFF)" by (simp add: field_eq)
  moreover have "(w AND 0x80 = 0) \<longleftrightarrow> \<not> bit w 7" for w :: u8
  proof -
    have m: "(0x80 :: u8) = 2 ^ 7" by simp
    show ?thesis unfolding m by (rule and_exp_eq_0_iff_not_bit)
  qed
  moreover have "bit (ucast (drop_bit 16 x AND 0xFF) :: u8) 7 \<longleftrightarrow> bit x 23"
  proof -
    have "(0xFF :: u32) = mask 8" by (simp add: mask_eq_exp_minus_1)
    then show ?thesis by (simp add: bit_simps)
  qed
  ultimately show ?thesis by simp
qed

section \<open>The scan follows the hierarchy\<close>

lemma each_append: "each f (xs @ ys) s = Option.bind (each f xs s) (each f ys)"
  by (induction xs arbitrary: s) simp_all

lemma each_concat: "each f (concat xss) = each (each f) xss"
proof (induction xss)
  case (Cons xs xss)
  then show ?case by (intro ext) (simp add: each_append)
qed (rule ext, simp)

lemma those_Some: "those xs = Some ys \<Longrightarrow> ys = map the xs \<and> None \<notin> set xs"
  by (induction xs arbitrary: ys) (auto split: option.splits)

lemma each_map: "each f (map g xs) = each (\<lambda>x. f (g x)) xs"
proof (induction xs)
  case (Cons x xs)
  then show ?case by (intro ext) simp
qed (rule ext, simp)

text \<open>A view of the state that the port accesses of the scan do not touch, and what the controllers' functions do to it.\<close>

definition controllers :: "device \<Rightarrow> (u32 \<Rightarrow> u32) \<Rightarrow> ('a machine_scheme \<Rightarrow> 'r) \<Rightarrow>
    (u32 \<Rightarrow> 'a machine_scheme \<Rightarrow> 'a machine_scheme option) \<Rightarrow> (u8 \<Rightarrow> u8 \<Rightarrow> u8 \<Rightarrow> 'a machine_scheme \<Rightarrow> 'a machine_scheme option) \<Rightarrow>
    (u32 \<Rightarrow> 'r \<Rightarrow> 'r option) \<Rightarrow> (u8 \<Rightarrow> u8 \<Rightarrow> u8 \<Rightarrow> 'r \<Rightarrow> 'r option) \<Rightarrow> bool" where
  "controllers dev cfg view ahci ehci fa fe \<longleftrightarrow> config dev cfg \<and> (\<forall>s tr. view (s\<lparr>trace := tr\<rparr>) = view s) \<and>
     (\<forall>base s. map_option view (ahci base s) = fa base (view s)) \<and> (\<forall>b d f s. map_option view (ehci b d f s) = fe b d f (view s))"

lemma controllersD:
  assumes "controllers dev cfg view ahci ehci fa fe"
  shows "config dev cfg" "view (s\<lparr>trace := tr\<rparr>) = view s" "map_option view (ahci base s) = fa base (view s)"
    "map_option view (ehci b d f s) = fe b d f (view s)"
  using assms unfolding controllers_def by blast+

lemma each_view:
  assumes "\<And>x s. x \<in> set xs \<Longrightarrow> map_option view (g x s) = h x (view s)"
  shows "map_option view (each g xs s) = each h xs (view s)"
  using assms
proof (induction xs arbitrary: s)
  case (Cons x xs)
  have "map_option view (g x s) = h x (view s)" using Cons.prems by simp
  then show ?case using Cons by (cases "g x s"; cases "h x (view s)") auto
qed simp

lemma read_view: "config dev cfg \<Longrightarrow> \<exists>tr. pci_read dev b d f ofs s = (cfg (config_address b d f ofs), s\<lparr>trace := tr\<rparr>)"
  by (rule config_read) blast+

lemma func_view:
  assumes C: "controllers dev cfg view ahci ehci fa fe" and "\<And>b s. role cfg bus d f = Bridge b \<Longrightarrow> map_option view (down b s) = g b (view s)"
  shows "map_option view (scan_pci_func dev ahci ehci down bus d f s) =
    (case role cfg bus d f of Bridge b \<Rightarrow> g b (view s) | _ \<Rightarrow> treat fa fe cfg (bus, d, f) (view s))"
proof -
  let ?r = "\<lambda>ofs. cfg (config_address bus d f ofs)"
  obtain t1 where 1: "pci_read dev bus d f 0 s = (?r 0, s\<lparr>trace := t1\<rparr>)" using read_view [OF controllersD(1) [OF C]] by blast
  obtain t2 where 2: "pci_read dev bus d f 0x08 (s\<lparr>trace := t1\<rparr>) = (?r 0x08, s\<lparr>trace := t2\<rparr>)" using read_view [OF controllersD(1) [OF C], where b = bus and d = d and f = f and ofs = "8" and s = "s\<lparr>trace := t1\<rparr>"] by auto
  obtain t3 where 3: "pci_read dev bus d f 0x24 (s\<lparr>trace := t2\<rparr>) = (?r 0x24, s\<lparr>trace := t3\<rparr>)" using read_view [OF controllersD(1) [OF C], where b = bus and d = d and f = f and ofs = "0x24" and s = "s\<lparr>trace := t2\<rparr>"] by auto
  obtain t4 where 4: "pci_read dev bus d f 0x18 (s\<lparr>trace := t2\<rparr>) = (?r 0x18, s\<lparr>trace := t4\<rparr>)" using read_view [OF controllersD(1) [OF C], where b = bus and d = d and f = f and ofs = "0x18" and s = "s\<lparr>trace := t2\<rparr>"] by auto
  note ports = controllersD(2) [OF C] and ahci = controllersD(3) [OF C] and ehci = controllersD(4) [OF C]
  note step = scan_pci_func_def Let_def 1 2 3 4 prod.case vendor_eq field_eq of_field
  show ?thesis
  proof (cases "role cfg bus d f")
    case (Bridge b)
    then have "map_option view (scan_pci_func dev ahci ehci down bus d f s) = map_option view (down b (s\<lparr>trace := t4\<rparr>))"
      unfolding step role_def by (auto split: if_splits)
    then show ?thesis using Bridge assms(2) ports by simp
  next
    case (Ahci base)
    then have "scan_pci_func dev ahci ehci down bus d f s = ahci base (s\<lparr>trace := t3\<rparr>)"
      unfolding step role_def by (auto split: if_splits)
    then show ?thesis using Ahci ahci ports by (simp add: treat_def)
  next
    case Ehci
    then have "scan_pci_func dev ahci ehci down bus d f s = ehci bus d f (s\<lparr>trace := t2\<rparr>)"
      unfolding step role_def by (auto split: if_splits)
    then show ?thesis using Ehci ehci ports by (simp add: treat_def)
  next
    case Nothing
    then have "\<exists>tr. scan_pci_func dev ahci ehci down bus d f s = Some (s\<lparr>trace := tr\<rparr>)"
      unfolding step role_def by (auto split: if_splits)
    then show ?thesis using Nothing ports by (auto simp: treat_def)
  qed
qed

lemma device_view:
  assumes C: "controllers dev cfg view ahci ehci fa fe" and "\<And>f s. f \<in> set (dev_functions cfg bus d) \<Longrightarrow> map_option view (scan_pci_func dev ahci ehci down bus d f s) = h f (view s)"
  shows "map_option view (scan_pci_device dev ahci ehci down bus d s) = each h (dev_functions cfg bus d) (view s)"
proof -
  let ?r = "\<lambda>ofs. cfg (config_address bus d 0 ofs)"
  obtain t1 where 1: "pci_read dev bus d 0 0 s = (?r 0, s\<lparr>trace := t1\<rparr>)" using read_view [OF controllersD(1) [OF C]] by blast
  obtain t2 where 2: "pci_read dev bus d 0 0x0C (s\<lparr>trace := t1\<rparr>) = (?r 0x0C, s\<lparr>trace := t2\<rparr>)" using read_view [OF controllersD(1) [OF C], where b = bus and d = d and f = 0 and ofs = "0x0C" and s = "s\<lparr>trace := t1\<rparr>"] by auto
  note ports = controllersD(2) [OF C]
  note step = scan_pci_device_def Let_def 1 2 prod.case vendor_eq field_eq header_bit
  show ?thesis
  proof (cases "vendor (?r 0) = 0xFFFF")
    case True
    then show ?thesis unfolding step by (simp add: dev_functions_def ports)
  next
    case False
    then have "scan_pci_device dev ahci ehci down bus d s = each (scan_pci_func dev ahci ehci down bus d) (dev_functions cfg bus d) (s\<lparr>trace := t2\<rparr>)"
      unfolding step dev_functions_def by simp
    then show ?thesis using each_view [where xs = "dev_functions cfg bus d" and g = "scan_pci_func dev ahci ehci down bus d" and h = h and s = "s\<lparr>trace := t2\<rparr>"] assms(2) by (simp add: ports)
  qed
qed

lemma bus_view:
  assumes C: "controllers dev cfg view ahci ehci fa fe"
  shows "hierarchy cfg n bus = Some fs \<Longrightarrow> map_option view (scan_pci_bus dev ahci ehci n bus s) = each (treat fa fe cfg) fs (view s)"
proof (induction n arbitrary: bus fs s)
  case (Suc n)
  let ?F = "\<lambda>(d, f). case role cfg bus d f of Nothing \<Rightarrow> Some [] | Bridge b \<Rightarrow> hierarchy cfg n b | _ \<Rightarrow> Some [(bus, d, f)]"
  let ?h = "\<lambda>d f. each (treat fa fe cfg) (the (?F (d, f)))" let ?scan = "scan_pci_bus dev ahci ehci n"
  obtain gs where gs: "those (map ?F (on_bus cfg bus)) = Some gs" "fs = concat gs" using Suc.prems by auto
  note ok = those_Some [OF gs(1)]
  have func: "map_option view (scan_pci_func dev ahci ehci ?scan bus d f s) = ?h d f (view s)" if "(d, f) \<in> set (on_bus cfg bus)" for d f s
  proof -
    have "?F (d, f) \<noteq> None" using ok that by (metis (no_types, lifting) image_eqI list.set_map)
    then have "map_option view (?scan b s) = each (treat fa fe cfg) (the (hierarchy cfg n b)) (view s)" if "role cfg bus d f = Bridge b" for b s
      using that by (intro Suc.IH) auto
    from func_view [OF C, of bus d f ?scan "\<lambda>b. each (treat fa fe cfg) (the (hierarchy cfg n b))", OF this] show ?thesis
      by (auto simp: treat_def split: role.splits)
  qed
  have device: "map_option view (scan_pci_device dev ahci ehci ?scan bus d s) = each (?h d) (dev_functions cfg bus d) (view s)"
    if "d \<in> set devices" for d s
  proof (rule device_view [OF C])
    fix f s assume "f \<in> set (dev_functions cfg bus d)"
    then have "(d, f) \<in> set (on_bus cfg bus)" using that by (auto simp: on_bus_def)
    then show "map_option view (scan_pci_func dev ahci ehci ?scan bus d f s) = ?h d f (view s)" by (rule func)
  qed
  have "map_option view (scan_pci_bus dev ahci ehci (Suc n) bus s) = each (\<lambda>d. each (?h d) (dev_functions cfg bus d)) devices (view s)"
    unfolding scan_pci_bus.simps devices_def [symmetric] using device by (rule each_view)
  also have "\<dots> = each (\<lambda>(d, f). ?h d f) (on_bus cfg bus) (view s)"
    by (simp add: on_bus_def each_concat each_map)
  also have "\<dots> = each (each (treat fa fe cfg)) (map (\<lambda>x. the (?F x)) (on_bus cfg bus)) (view s)"
  proof -
    have "(\<lambda>(d, f). ?h d f) = (\<lambda>x. each (treat fa fe cfg) (the (?F x)))" by auto
    then show ?thesis by (simp only: each_map)
  qed
  also have "\<dots> = each (treat fa fe cfg) fs (view s)" using ok gs(2) by (simp add: each_concat comp_def)
  finally show ?case .
qed simp

section \<open>Which controllers are reached\<close>

text \<open>Bus numbers as firmware assigns them: a bridge leads to a bus with a larger number.\<close>

definition numbered :: "(u32 \<Rightarrow> u32) \<Rightarrow> bool" where
  "numbered cfg \<longleftrightarrow> (\<forall>bus d f b. (d, f) \<in> set (on_bus cfg bus) \<longrightarrow> role cfg bus d f = Bridge b \<longrightarrow> bus < b)"

inductive below :: "(u32 \<Rightarrow> u32) \<Rightarrow> u8 \<Rightarrow> u8 \<Rightarrow> bool" for cfg where
  here: "below cfg b b"
| behind: "(d, f) \<in> set (on_bus cfg b) \<Longrightarrow> role cfg b d f = Bridge b' \<Longrightarrow> below cfg b' b'' \<Longrightarrow> below cfg b b''"

definition controller_of :: "(u32 \<Rightarrow> u32) \<Rightarrow> u8 \<Rightarrow> (u8 \<times> u8 \<times> u8) set" where
  "controller_of cfg bus = {(b, d, f). below cfg bus b \<and> (d, f) \<in> set (on_bus cfg b) \<and> (role cfg b d f = Ehci \<or> (\<exists>a. role cfg b d f = Ahci a))}"

lemma those_map: "(\<And>x. x \<in> set xs \<Longrightarrow> f x = Some (g x)) \<Longrightarrow> those (map f xs) = Some (map g xs)"
  by (induction xs) simp_all

lemma hierarchy_complete:
  assumes "numbered cfg"
  shows "256 \<le> n + unat bus \<Longrightarrow> \<exists>fs. hierarchy cfg n bus = Some fs \<and> set fs = controller_of cfg bus"
proof (induction n arbitrary: bus)
  case 0
  moreover have "unat bus < 2 ^ 8" using unsigned_less [of bus] by simp
  ultimately show ?case by simp
next
  case (Suc n)
  let ?F = "\<lambda>(d, f). case role cfg bus d f of Nothing \<Rightarrow> Some [] | Bridge b \<Rightarrow> hierarchy cfg n b | _ \<Rightarrow> Some [(bus, d, f)]"
  have sub: "\<exists>fs. hierarchy cfg n b = Some fs \<and> set fs = controller_of cfg b" if "(d, f) \<in> set (on_bus cfg bus)" "role cfg bus d f = Bridge b" for d f b
  proof (rule Suc.IH)
    have "bus < b" using assms that unfolding numbered_def by blast
    then show "256 \<le> n + unat b" using Suc.prems by (simp add: word_less_nat_alt)
  qed
  have F: "?F x = Some (the (?F x))" if "x \<in> set (on_bus cfg bus)" for x
  proof -
    obtain d f where x: "x = (d, f)" by fastforce
    then show ?thesis using that sub [of d f] by (auto split: role.splits)
  qed
  let ?fs = "concat (map (\<lambda>x. the (?F x)) (on_bus cfg bus))"
  have h: "hierarchy cfg (Suc n) bus = Some ?fs" using those_map [of "on_bus cfg bus" ?F "\<lambda>x. the (?F x)", OF F] by simp
  have own: "set (the (?F (d, f))) = (case role cfg bus d f of Nothing \<Rightarrow> {} | Bridge b \<Rightarrow> controller_of cfg b | _ \<Rightarrow> {(bus, d, f)})"
    if "(d, f) \<in> set (on_bus cfg bus)" for d f
    using that sub by (force split: role.splits)
  have "set ?fs = (\<Union>(d, f) \<in> set (on_bus cfg bus). case role cfg bus d f of Nothing \<Rightarrow> {} | Bridge b \<Rightarrow> controller_of cfg b | _ \<Rightarrow> {(bus, d, f)})"
    using own by auto
  also have "\<dots> = controller_of cfg bus"
  proof (rule set_eqI, clarify)
    fix b d f
    show "(b, d, f) \<in> (\<Union>(d, f) \<in> set (on_bus cfg bus). case role cfg bus d f of Nothing \<Rightarrow> {} | Bridge b \<Rightarrow> controller_of cfg b | _ \<Rightarrow> {(bus, d, f)}) \<longleftrightarrow>
      (b, d, f) \<in> controller_of cfg bus"
    proof
      assume "(b, d, f) \<in> (\<Union>(d, f) \<in> set (on_bus cfg bus). case role cfg bus d f of Nothing \<Rightarrow> {} | Bridge b \<Rightarrow> controller_of cfg b | _ \<Rightarrow> {(bus, d, f)})"
      then show "(b, d, f) \<in> controller_of cfg bus"
        by (auto simp: controller_of_def split: role.splits intro: below.intros)
    next
      assume "(b, d, f) \<in> controller_of cfg bus"
      then have r: "below cfg bus b" "(d, f) \<in> set (on_bus cfg b)" "role cfg b d f = Ehci \<or> (\<exists>a. role cfg b d f = Ahci a)" by (auto simp: controller_of_def)
      from r(1) show "(b, d, f) \<in> (\<Union>(d, f) \<in> set (on_bus cfg bus). case role cfg bus d f of Nothing \<Rightarrow> {} | Bridge b \<Rightarrow> controller_of cfg b | _ \<Rightarrow> {(bus, d, f)})"
      proof (cases rule: below.cases)
        case here
        then show ?thesis using r by (intro UN_I [of "(d, f)"]) auto
      next
        case (behind d' f' b')
        then show ?thesis using r by (intro UN_I [of "(d', f')"]) (auto simp: controller_of_def)
      qed
    qed
  qed
  finally show ?case using h by blast
qed

text \<open>The treatment of an AHCI controller is such a function: it works on the memory, the pages and the adapters alone.\<close>

definition kview :: "('h, 'a) pci_scheme \<Rightarrow> u32 \<times> mem \<times> pmm \<times> 'h" where
  "kview s = (pid_rn s, kmem s, pages s, hw s)"

definition ahci_effect :: "vmm \<Rightarrow> u8 list \<Rightarrow> u64 \<Rightarrow> 'h hba \<Rightarrow> u32 \<Rightarrow> u32 \<times> mem \<times> pmm \<times> 'h \<Rightarrow> (u32 \<times> mem \<times> pmm \<times> 'h) option" where
  "ahci_effect v stack c H base r = (case r of (_, m, p, h) \<Rightarrow>
    (let (m, p) = map_page v (ucast base) (ucast base) (PTE_WRITABLE OR PTE_CACHE_DISABLE OR PTE_WRITE_THROUGH) (m, p)
     in do { (m, h) \<leftarrow> sata_search v stack c H base (m, h); Some (7, m, p, h) }))"

lemma ahci_controllers:
  assumes "config dev cfg" and "\<And>b d f s. map_option kview (ehci b d f s) = fe b d f (kview s)"
  shows "controllers dev cfg kview (ahci_found v stack c H) ehci (ahci_effect v stack c H) fe"
  using assms unfolding controllers_def
  by (auto simp: kview_def ahci_found_def ahci_effect_def kmap_page_def Let_def split_beta split: Option.bind_splits)

text \<open>A bridge that leads to its own bus, as one does that has not been configured on bus 0, makes the scan recurse for ever.\<close>

lemma each_None: "x \<in> set xs \<Longrightarrow> (\<And>s. f x s = None) \<Longrightarrow> each f xs s = None"
proof (induction xs arbitrary: s)
  case (Cons y ys)
  then show ?case by (cases "f y s") auto
qed simp

lemma pci_self_bridge:
  assumes "config dev cfg" and d: "d \<in> set devices" "f \<in> set (dev_functions cfg bus d)" and r: "role cfg bus d f = Bridge bus"
  shows "scan_pci_bus dev ahci ehci n bus s = None"
proof (induction n arbitrary: s)
  case (Suc n)
  let ?down = "scan_pci_bus dev ahci ehci n"
  have fn: "scan_pci_func dev ahci ehci ?down bus d f s = None" for s
  proof -
    let ?r = "\<lambda>ofs. cfg (config_address bus d f ofs)"
    obtain t1 where 1: "pci_read dev bus d f 0 s = (?r 0, s\<lparr>trace := t1\<rparr>)" using read_view [OF assms(1)] by blast
    obtain t2 where 2: "pci_read dev bus d f 0x08 (s\<lparr>trace := t1\<rparr>) = (?r 0x08, s\<lparr>trace := t2\<rparr>)" using read_view [OF assms(1), where b = bus and d = d and f = f and ofs = "8" and s = "s\<lparr>trace := t1\<rparr>"] by auto
    obtain t4 where 4: "pci_read dev bus d f 0x18 (s\<lparr>trace := t2\<rparr>) = (?r 0x18, s\<lparr>trace := t4\<rparr>)" using read_view [OF assms(1), where b = bus and d = d and f = f and ofs = "0x18" and s = "s\<lparr>trace := t2\<rparr>"] by auto
    show ?thesis using r Suc.IH unfolding scan_pci_func_def Let_def 1 2 4 prod.case vendor_eq field_eq of_field role_def
      by (auto split: if_splits)
  qed
  have "scan_pci_device dev ahci ehci ?down bus d s = None" for s
  proof -
    let ?r = "\<lambda>ofs. cfg (config_address bus d 0 ofs)"
    obtain t1 where 1: "pci_read dev bus d 0 0 s = (?r 0, s\<lparr>trace := t1\<rparr>)" using read_view [OF assms(1)] by blast
    obtain t2 where 2: "pci_read dev bus d 0 0x0C (s\<lparr>trace := t1\<rparr>) = (?r 0x0C, s\<lparr>trace := t2\<rparr>)" using read_view [OF assms(1), where b = bus and d = d and f = 0 and ofs = "12" and s = "s\<lparr>trace := t1\<rparr>"] by auto
    have "scan_pci_device dev ahci ehci ?down bus d s = each (scan_pci_func dev ahci ehci ?down bus d) (dev_functions cfg bus d) (s\<lparr>trace := t2\<rparr>)"
      using d(2) unfolding scan_pci_device_def Let_def 1 2 prod.case vendor_eq field_eq header_bit dev_functions_def by (auto split: if_splits)
    then show ?thesis using each_None [OF d(2), where f = "scan_pci_func dev ahci ehci ?down bus d"] fn by simp
  qed
  then show ?case using each_None [OF d(1), where f = "scan_pci_device dev ahci ehci ?down bus"]
    unfolding scan_pci_bus.simps devices_def [symmetric] by blast
qed simp

section \<open>The size of a register block\<close>

text \<open>
  The configuration ports as a machine: the selected register and the contents of the registers,
  where \<open>w a\<close> says what a register makes of a value written to it.
\<close>

definition config_step :: "(u32 \<Rightarrow> u32 \<Rightarrow> u32) \<Rightarrow> io \<Rightarrow> u32 \<times> (u32 \<Rightarrow> u32) \<Rightarrow> u32 \<times> (u32 \<Rightarrow> u32)" where
  "config_step w e c = (case e of
     Out32 p v \<Rightarrow> if p = PCI_CONFIG_ADDRESS then (v, snd c) else if p = PCI_CONFIG_DATA then (fst c, (snd c)(fst c := w (fst c) v)) else c
   | _ \<Rightarrow> c)"

definition config_after :: "(u32 \<Rightarrow> u32 \<Rightarrow> u32) \<Rightarrow> u32 \<times> (u32 \<Rightarrow> u32) \<Rightarrow> io list \<Rightarrow> u32 \<times> (u32 \<Rightarrow> u32)" where
  "config_after w c tr = foldr (config_step w) tr c"

definition config_ports :: "device \<Rightarrow> (u32 \<Rightarrow> u32 \<Rightarrow> u32) \<Rightarrow> u32 \<times> (u32 \<Rightarrow> u32) \<Rightarrow> bool" where
  "config_ports dev w c \<longleftrightarrow> (\<forall>tr. port32 dev tr PCI_CONFIG_DATA = (case config_after w c tr of (a, regs) \<Rightarrow> regs a))"

text \<open>A base address register of a block of \<open>2 ^ k\<close> bytes: the address bits below the size read as zero, the four lowest bits as the type.\<close>

definition bar_value :: "nat \<Rightarrow> u32 \<Rightarrow> u32 \<Rightarrow> u32" where
  "bar_value k kind v = (v AND NOT (mask k)) OR (kind AND 0xF)"

lemma bar_size: "4 \<le> k \<Longrightarrow> k < 32 \<Longrightarrow> NOT (bar_value k kind 0xFFFFFFFF AND NOT 0xF) + 1 = (2 ^ k :: u32)"
proof -
  assume k: "4 \<le> k" "k < 32"
  have f: "(0xFFFFFFFF :: u32) = - 1" "(0xF :: u32) = mask 4" by (simp_all add: mask_eq_exp_minus_1)
  have "bar_value k kind 0xFFFFFFFF AND NOT 0xF = NOT (mask k)"
    unfolding bar_value_def f using k by (intro bit_word_eqI) (auto simp: bit_simps)
  then have "NOT (bar_value k kind 0xFFFFFFFF AND NOT 0xF) = mask k" by (simp only: bit.double_compl)
  then show ?thesis by (simp add: mask_eq_exp_minus_1)
qed

lemma bar_restore: "bar_value k kind (bar_value k kind v) = bar_value k kind v" if "4 \<le> k"
  using that unfolding bar_value_def
  by (intro bit_word_eqI) (auto simp: bit_simps)

section \<open>Properties\<close>


text \<open>
  C36. \<open>pci_get_bar_size\<close> returns the size of the block of a memory base address register, for every size from 16 bytes to 2 GiB, and leaves
  all registers as they were.
\<close>
theorem pci_bar_size:
  assumes "config_ports dev w c" "a = config_address bus d f ofs" "w a = bar_value k kind" "4 \<le> k" "k < 32"
    and "snd (config_after w c (trace s)) a = bar_value k kind base"
  shows "\<exists>s'. pci_get_bar_size dev bus d f ofs s = (2 ^ k, s') \<and> snd (config_after w c (trace s')) = snd (config_after w c (trace s))"
proof -
  let ?r = "snd (config_after w c (trace s))"
  have st: "config_after w c (e # tr) = config_step w e (config_after w c tr)" for e tr by (simp add: config_after_def)
  have ne: "PCI_CONFIG_DATA \<noteq> PCI_CONFIG_ADDRESS" by (simp add: PCI_CONFIG_DATA_def PCI_CONFIG_ADDRESS_def)
  have rd: "\<exists>s'. pci_read dev bus d f ofs s = (snd (config_after w c (trace s)) a, s') \<and> config_after w c (trace s') = (a, snd (config_after w c (trace s)))" for s :: "'a machine_scheme"
    using assms(1) by (simp add: pci_read_def outl_def inl_def Let_def assms(2) config_ports_def st config_step_def split_beta)
  have wr: "config_after w c (trace (pci_write bus d f ofs v s)) = (a, (snd (config_after w c (trace s)))(a := w a v))" for v and s :: "'a machine_scheme"
    using ne by (simp add: pci_write_def outl_def Let_def assms(2) st config_step_def)
  obtain s1 where s1: "pci_read dev bus d f ofs s = (bar_value k kind base, s1)" "config_after w c (trace s1) = (a, ?r)"
    using rd [of s] assms(6) by auto
  let ?s2 = "pci_write bus d f ofs 0xFFFFFFFF s1"
  obtain s3 where s3: "pci_read dev bus d f ofs ?s2 = (bar_value k kind 0xFFFFFFFF, s3)" "config_after w c (trace s3) = (a, ?r(a := bar_value k kind 0xFFFFFFFF))"
    using rd [of ?s2] wr [of "0xFFFFFFFF" s1] s1(2) assms(3) by auto
  let ?s4 = "pci_write bus d f ofs (bar_value k kind base) s3"
  have "snd (config_after w c (trace ?s4)) = ?r" using wr [of "bar_value k kind base" s3] s3(2) assms(3,4,6) by (auto simp: bar_restore)
  moreover have "pci_get_bar_size dev bus d f ofs s = (2 ^ k, ?s4)"
    using s1(1) s3(1) bar_size [OF assms(4,5), of kind] by (simp add: pci_get_bar_size_def)
  ultimately show ?thesis by blast
qed

text \<open>A machine with an AHCI controller as its only device, and one whose ports keep what is written.\<close>

definition sample_config :: "u32 \<Rightarrow> u32" where
  "sample_config a = (if a = 0x80000000 then 0x29228086 else if a = 0x80000008 then 0x01060102 else if a = 0x8000000C then 0
    else if a = 0x80000024 then 0xFEBF1000 else 0xFFFFFFFF)"

definition config_device :: "(io list \<Rightarrow> u32) \<Rightarrow> device" where
  "config_device f = \<lparr>port8 = \<lambda>tr p. 0, port16 = \<lambda>tr p. 0, port32 = \<lambda>tr p. f tr, mmio32 = \<lambda>tr a. 0, msr = \<lambda>tr r. 0, cr4 = \<lambda>tr. 0\<rparr>"

definition sample_select :: "io list \<Rightarrow> u32" where
  "sample_select tr = (case tr of Out32 p a # _ \<Rightarrow> sample_config a | _ \<Rightarrow> 0)"

lemma sample_numbered: "numbered sample_config"
  unfolding numbered_def
proof (intro allI impI)
  fix bus d f b assume "(d, f) \<in> set (on_bus sample_config bus)" and r: "role sample_config bus d f = Bridge b"
  then have "vendor (sample_config (config_address bus d f 0)) \<noteq> 0xFFFF" by (auto simp: role_def Let_def split: if_splits)
  then have a: "config_address bus d f 0 \<in> {0x80000000, 0x80000008, 0x8000000C, 0x80000024}"
    by (auto simp: sample_config_def vendor_def split: if_splits)
  have low: "\<not> bit (config_address bus d f 0) n" if "n < 8" for n
  proof -
    have b31: "push_bit 31 1 = (2 ^ 31 :: u32)" by simp
    show ?thesis using that unfolding config_address_def b31 bit_or_iff bit_exp_iff bit_push_bit_iff by simp
  qed
  have "config_address bus d f 0 = 0x80000000" using a low [of 3] low [of 2] low [of 5] by (elim insertE emptyE) simp_all
  moreover have "config_address bus d f 8 = config_address bus d f 0 OR 8" by (simp add: config_address_def or.assoc)
  ultimately have "config_address bus d f 8 = 0x80000008" by simp
  then have "field 24 (sample_config (config_address bus d f 8)) = 1" by (simp add: sample_config_def field_def)
  then show "bus < b" using r by (auto simp: role_def Let_def split: if_splits)
qed


theorem pci_bar_size_witness:
  "\<exists>s'. pci_get_bar_size (config_device (\<lambda>tr. case config_after (\<lambda>a. bar_value 13 0) (0, \<lambda>a. 0xFEB00000) tr of (a, regs) \<Rightarrow> regs a)) 0 3 0 0x10 \<lparr>trace = []\<rparr> = (0x2000, s')"
proof -
  let ?w = "\<lambda>a :: u32. bar_value 13 0" let ?c = "(0, \<lambda>a. 0xFEB00000) :: u32 \<times> (u32 \<Rightarrow> u32)"
  let ?dev = "config_device (\<lambda>tr. case config_after ?w ?c tr of (a, regs) \<Rightarrow> regs a)"
  have "config_ports ?dev ?w ?c" by (simp add: config_ports_def config_device_def)
  from pci_bar_size [OF this refl refl, where bus = 0 and d = 3 and f = 0 and ofs = "0x10" and s = "\<lparr>trace = []\<rparr>" and base = "0xFEB00000"]
  show ?thesis by (auto simp: config_after_def bar_value_def mask_eq_exp_minus_1)
qed

end
