(* ===== verification/Ehci.thy ===== *)
theory Ehci
  imports Pci
begin

text \<open>
  The USB host driver (\<open>drivers/hci/ehci.c\<close>, \<open>drivers/hci/includes/ehci.h\<close>). Registers are accesses to the adapter, as for
  the AHCI driver; queue heads and transfer descriptors lie in pages of the physical allocator and
  are written field by field. The controller works on them by itself: \<open>dma\<close> is what it does to
  memory while the code polls a queue head. \<open>None\<close> stands for a call that does not return. Messages
  are left out, except that they read the registers they print.
\<close>

section \<open>Constants and structures\<close>

definition EHCI_RUN_STOP :: u32 where "EHCI_RUN_STOP = push_bit 0 1"
definition EHCI_RESET :: u32 where "EHCI_RESET = push_bit 1 1"
definition EHCI_ASYNC_EN :: u32 where "EHCI_ASYNC_EN = push_bit 5 1"
definition EHCI_USBSTS_HCHALTED :: u32 where "EHCI_USBSTS_HCHALTED = push_bit 12 1"
definition USB_REQ_GET_DESCRIPTOR :: u8 where "USB_REQ_GET_DESCRIPTOR = 0x06"
definition USB_REQ_SET_ADDRESS :: u8 where "USB_REQ_SET_ADDRESS = 0x05"
definition USB_REQ_SET_CONFIGURATION :: u8 where "USB_REQ_SET_CONFIGURATION = 0x09"
definition USB_CLASS_MASS_STORAGE :: u8 where "USB_CLASS_MASS_STORAGE = 0x08"
definition USB_SUBCLASS_SCSI :: u8 where "USB_SUBCLASS_SCSI = 0x06"
definition USB_PROTOCOL_BULK_ONLY :: u8 where "USB_PROTOCOL_BULK_ONLY = 0x50"
definition PORTSC_CONNECTED :: u32 where "PORTSC_CONNECTED = push_bit 0 1"
definition PORTSC_CONNECT_CHANGE :: u32 where "PORTSC_CONNECT_CHANGE = push_bit 1 1"
definition PORTSC_ENABLED :: u32 where "PORTSC_ENABLED = push_bit 2 1"
definition PORTSC_ENABLE_CHANGE :: u32 where "PORTSC_ENABLE_CHANGE = push_bit 3 1"
definition PORTSC_RESET :: u32 where "PORTSC_RESET = push_bit 8 1"
definition PORTSC_POWER :: u32 where "PORTSC_POWER = push_bit 12 1"
definition PORTSC_OWNER :: u32 where "PORTSC_OWNER = push_bit 13 1"
definition PID_OUT :: u32 where "PID_OUT = 0"
definition PID_IN :: u32 where "PID_IN = 1"
definition CBW_SIGNATURE :: u32 where "CBW_SIGNATURE = 0x43425355"
definition CSW_SIGNATURE :: u32 where "CSW_SIGNATURE = 0x53425355"
definition SCSI_READ10 :: u8 where "SCSI_READ10 = 0x28"

definition HCSPARAMS_N_PORTS :: "u32 \<Rightarrow> u32" where "HCSPARAMS_N_PORTS x = x AND 0x0F"

text \<open>Offsets in \<open>struct ehci_regs\<close>.\<close>

definition USBCMD :: u64 where "USBCMD = 0x00"
definition USBSTS :: u64 where "USBSTS = 0x04"
definition USBINTR :: u64 where "USBINTR = 0x08"
definition PERIODICLISTBASE :: u64 where "PERIODICLISTBASE = 0x14"
definition ASYNCLISTADDR :: u64 where "ASYNCLISTADDR = 0x18"
definition CONFIGFLAG :: u64 where "CONFIGFLAG = 0x40"
definition PORTSC :: "u32 \<Rightarrow> u64" where "PORTSC n = 0x44 + 4 * ucast n"

text \<open>\<open>qh_t\<close> (64 bytes, the overlay at 16) and \<open>qtd_t\<close> (32 bytes, the buffers at 12).\<close>

definition sizeof_qh :: u64 where "sizeof_qh = 64"
definition sizeof_qtd :: u64 where "sizeof_qtd = 32"
definition qh_overlay :: "u64 \<Rightarrow> u64" where "qh_overlay qh = qh + 16"
definition qtd_token :: "u64 \<Rightarrow> u64" where "qtd_token qtd = qtd + 8"
definition qtd_buffer :: "u64 \<Rightarrow> nat \<Rightarrow> u64" where "qtd_buffer qtd i = qtd + 12 + of_nat (4 * i)"

record usb_endpoint_t =
  addr :: u8
  max_packet :: u16
  attrs :: u8

record usb_device_t =
  address :: u8
  config_value :: u8
  bulk_in :: usb_endpoint_t
  bulk_out :: usb_endpoint_t
  iface_number :: u8

record 'h ehci = "'h pci" +
  ehci :: u64
  async_list_head :: u64
  async_list_head_phys :: u64
  global_tag :: u32

text \<open>What surrounds the driver: the ports and clock of the machine, the page tables, the adapter with its accesses to memory.\<close>

record 'h board =
  ports :: device
  clk :: clock
  vm :: vmm
  regs :: "'h hba"
  dma :: "mem \<times> 'h \<Rightarrow> mem \<times> 'h"

section \<open>Access\<close>

definition rd :: "'h board \<Rightarrow> u64 \<Rightarrow> 'h ehci \<Rightarrow> u32 \<times> 'h ehci" where
  "rd B a s = (let (v, (m, h)) = hread (regs B) a (kmem s, hw s) in (v, s\<lparr>kmem := m, hw := h\<rparr>))"

definition wr :: "'h board \<Rightarrow> u64 \<Rightarrow> u32 \<Rightarrow> 'h ehci \<Rightarrow> 'h ehci" where
  "wr B a v s = (let (m, h) = hwrite (regs B) a v (kmem s, hw s) in s\<lparr>kmem := m, hw := h\<rparr>)"

definition upd :: "'h board \<Rightarrow> u64 \<Rightarrow> (u32 \<Rightarrow> u32) \<Rightarrow> 'h ehci \<Rightarrow> 'h ehci" where
  "upd B a f s = (let (v, s) = rd B a s in wr B a (f v) s)"

definition put32 :: "u64 \<Rightarrow> u32 \<Rightarrow> 'h ehci \<Rightarrow> 'h ehci" where
  "put32 a v s = s\<lparr>kmem := write32 (kmem s) a v\<rparr>"

definition zero :: "u64 \<Rightarrow> u64 \<Rightarrow> 'h ehci \<Rightarrow> 'h ehci" where
  "zero a n s = s\<lparr>kmem := fst (memset (kmem s) a 0 n)\<rparr>"

definition poll :: "'h board \<Rightarrow> 'h ehci \<Rightarrow> 'h ehci" where
  "poll B s = (let (m, h) = dma B (kmem s, hw s) in s\<lparr>kmem := m, hw := h\<rparr>)"

definition get_page :: "'h ehci \<Rightarrow> u64 \<times> 'h ehci" where
  "get_page s = (let (p, (m, st)) = palloc (kmem s, pages s) in (p, s\<lparr>kmem := m, pages := st\<rparr>))"

definition give_page :: "'h board \<Rightarrow> u64 \<Rightarrow> 'h ehci \<Rightarrow> 'h ehci" where
  "give_page B p s = (let (m, st) = pfree (hhdm_offset (vm B)) p (kmem s, pages s) in s\<lparr>kmem := m, pages := st\<rparr>)"

definition now_ms :: "'h board \<Rightarrow> 'h ehci \<Rightarrow> (u32 \<times> 'h ehci) option" where
  "now_ms B s = get_time_ms (ports B) (clk B) s"

definition delay :: "'h board \<Rightarrow> u32 \<Rightarrow> 'h ehci \<Rightarrow> 'h ehci option" where
  "delay B n s = map_option snd (udelay (ports B) (clk B) n s)"

section \<open>Control of the controller\<close>

partial_function (option) wait_reg :: "'h board \<Rightarrow> u64 \<Rightarrow> (u32 \<Rightarrow> bool) \<Rightarrow> u32 \<Rightarrow> u32 \<Rightarrow> u32 \<Rightarrow> 'h ehci \<Rightarrow> (bool \<times> 'h ehci) option" where
  "wait_reg B a ok limit pause start s =
    (let (v, s) = rd B a s in
     if ok v then Some (True, s)
     else do { (t, s) \<leftarrow> now_ms B s;
               if t - start > limit then Some (False, s)
               else do { s \<leftarrow> delay B pause s; wait_reg B a ok limit pause start s } })"

definition print_regs :: "'h board \<Rightarrow> u64 list \<Rightarrow> 'h ehci \<Rightarrow> 'h ehci" where
  "print_regs B as s = fold (\<lambda>a s. snd (rd B a s)) as s"

definition ehci_stop_controller :: "'h board \<Rightarrow> 'h ehci \<Rightarrow> (int \<times> 'h ehci) option" where
  "ehci_stop_controller B s =
    do { let s = upd B (ehci s + USBCMD) (\<lambda>v. v AND NOT EHCI_RUN_STOP) s;
         (start, s) \<leftarrow> now_ms B s;
         (halted, s) \<leftarrow> wait_reg B (ehci s + USBSTS) (\<lambda>v. v AND EHCI_USBSTS_HCHALTED \<noteq> 0) 500 1000 start s;
         let s = print_regs B [ehci s + USBSTS, ehci s + USBCMD] s;
         Some (if halted then 0 else - 1, s) }"

definition ehci_reset_controller :: "'h board \<Rightarrow> 'h ehci \<Rightarrow> (int \<times> 'h ehci) option" where
  "ehci_reset_controller B s =
    do { let (v, s) = rd B (ehci s + USBSTS) s;
         (rc, s) \<leftarrow> (if v AND EHCI_USBSTS_HCHALTED = 0 then ehci_stop_controller B s else Some (0, s));
         if rc < 0 then Some (- 2, s) else do {
         s \<leftarrow> delay B 1000 s;
         let s = wr B (ehci s + USBCMD) EHCI_RESET s;
         let s = print_regs B [ehci s + USBCMD] s;
         (start, s) \<leftarrow> now_ms B s;
         (clear, s) \<leftarrow> wait_reg B (ehci s + USBCMD) (\<lambda>v. v AND EHCI_RESET = 0) 1000 1000 start s;
         let s = print_regs B [ehci s + USBCMD, ehci s + USBSTS] s;
         if \<not> clear then Some (- 1, s)
         else do { s \<leftarrow> delay B 1000 s; Some (0, s) } } }"

definition ehci_init_async_list :: "'h board \<Rightarrow> 'h ehci \<Rightarrow> (int \<times> 'h ehci) option" where
  "ehci_init_async_list B s =
    (let (qh_page_phys, s) = get_page s in
     if qh_page_phys = 0 then Some (- 1, s) else
     let qh_page = phys_to_virt (vm B) qh_page_phys;
         s = zero qh_page 4096 s;
         phys = virt_to_phys (vm B) qh_page;
         s = s\<lparr>async_list_head := qh_page, async_list_head_phys := phys\<rparr>;
         s = put32 qh_page (ucast phys OR 0x2) s;
         s = put32 (qh_page + 4) 0x00000000 s;
         s = put32 (qh_page + 8) 0x40000000 s;
         s = put32 (qh_page + 12) 0x1 s;
         s = put32 (qh_overlay qh_page) 0x1 s;
         s = put32 (qtd_token (qh_overlay qh_page)) 0x40 s;
         s = wr B (ehci s + ASYNCLISTADDR) (ucast phys) s
     in do { _ \<leftarrow> phys_flush_cache qh_page sizeof_qh; Some (0, s) })"

definition ehci_init_simple :: "'h board \<Rightarrow> 'h ehci \<Rightarrow> (int \<times> 'h ehci) option" where
  "ehci_init_simple B s =
    do { (rc, s) \<leftarrow> ehci_stop_controller B s;
         if rc < 0 then Some (- 1, s) else do {
         (rc, s) \<leftarrow> ehci_reset_controller B s;
         if rc < 0 then Some (- 2, s) else do {
         (rc, s) \<leftarrow> ehci_init_async_list B s;
         if rc < 0 then Some (- 3, s) else do {
         let s = wr B (ehci s + PERIODICLISTBASE) 0 s;
         let s = wr B (ehci s + USBINTR) 0 s;
         let s = upd B (ehci s + USBCMD) (\<lambda>v. v OR (EHCI_ASYNC_EN OR EHCI_RUN_STOP)) s;
         (start, s) \<leftarrow> now_ms B s;
         (_, s) \<leftarrow> wait_reg B (ehci s + USBSTS) (\<lambda>v. v AND push_bit 15 1 \<noteq> 0) 100 100 start s;
         let s = print_regs B [ehci s + USBCMD, ehci s + USBSTS] s;
         Some (0, s) } } } }"

section \<open>Ports\<close>

text \<open>Port numbers are \<open>int\<close>; a negative one is outside the range.\<close>

definition bad_port :: "i32 \<Rightarrow> bool" where "bad_port port_num \<longleftrightarrow> sint port_num < 0 \<or> sint port_num \<ge> 16"

definition ehci_port_connected :: "'h board \<Rightarrow> i32 \<Rightarrow> 'h ehci \<Rightarrow> int \<times> 'h ehci" where
  "ehci_port_connected B port_num s =
    (if bad_port port_num then (0, s)
     else let (v, s) = rd B (ehci s + PORTSC port_num) s in (if v AND PORTSC_CONNECTED \<noteq> 0 then 1 else 0, s))"

partial_function (option) port_loop :: "'h board \<Rightarrow> u64 \<Rightarrow> u32 \<Rightarrow> 'h ehci \<Rightarrow> (int \<times> 'h ehci) option" where
  "port_loop B portsc start s =
    (let (v, s) = rd B portsc s in
     if v AND PORTSC_ENABLED \<noteq> 0 then Some (0, s) else
     let (v, s) = rd B portsc s in
     if v AND PORTSC_RESET = 0 then Some (- 3, upd B portsc (\<lambda>v. v OR PORTSC_OWNER) s)
     else do { (t, s) \<leftarrow> now_ms B s;
               if t - start > 500 then Some (- 4, s)
               else do { s \<leftarrow> delay B 1000 s; port_loop B portsc start s } })"

definition ehci_reset_port :: "'h board \<Rightarrow> i32 \<Rightarrow> 'h ehci \<Rightarrow> (int \<times> 'h ehci) option" where
  "ehci_reset_port B port_num s =
    (if bad_port port_num then Some (- 1, s) else
     let portsc = ehci s + PORTSC port_num;
         (v, s) = rd B portsc s
     in if v AND PORTSC_CONNECTED = 0 then Some (- 2, s) else
     let (v, s) = rd B portsc s in
     do { s \<leftarrow> (if v AND PORTSC_ENABLED \<noteq> 0 then delay B 1000 (upd B portsc (\<lambda>v. v AND NOT PORTSC_ENABLED) s) else Some s);
          let s = upd B portsc (\<lambda>v. v OR PORTSC_RESET) s;
          s \<leftarrow> delay B 50000 s;
          let s = upd B portsc (\<lambda>v. v AND NOT PORTSC_RESET) s;
          (start, s) \<leftarrow> now_ms B s;
          (rc, s) \<leftarrow> port_loop B portsc start s;
          if rc \<noteq> 0 then Some (rc, s) else do {
          let s = upd B portsc (\<lambda>v. v OR (PORTSC_CONNECT_CHANGE OR PORTSC_ENABLE_CHANGE)) s;
          s \<leftarrow> delay B 10000 s;
          Some (0, s) } })"

definition ehci_power_on_ports :: "'h board \<Rightarrow> int \<Rightarrow> 'h ehci \<Rightarrow> 'h ehci option" where
  "ehci_power_on_ports B num_ports s =
    (let s = fold (\<lambda>i s. upd B (ehci s + PORTSC (of_nat i)) (\<lambda>v. v OR PORTSC_POWER) s) [0..<min (nat num_ports) 16] s
     in delay B 20000 s)"

primrec find_port :: "'h board \<Rightarrow> nat list \<Rightarrow> 'h ehci \<Rightarrow> (nat option \<times> 'h ehci) option" where
  "find_port B [] s = Some (None, s)"
| "find_port B (i # is) s =
    (let (c, s) = ehci_port_connected B (of_nat i) s in
     if c = 0 then find_port B is s
     else do { (rc, s) \<leftarrow> ehci_reset_port B (of_nat i) s;
               if rc = 0 then Some (Some i, s) else find_port B is s })"

definition ehci_find_and_reset_device :: "'h board \<Rightarrow> 'h ehci \<Rightarrow> ((int \<times> nat option) \<times> 'h ehci) option" where
  "ehci_find_and_reset_device B s =
    do { (r, s) \<leftarrow> find_port B [0..<16] s; Some ((if r = None then - 1 else 0, r), s) }"

section \<open>Bulk transfers\<close>

definition unlink :: "u64 \<Rightarrow> 'h ehci \<Rightarrow> 'h ehci option" where
  "unlink qh s =
    (let s = put32 (async_list_head s) (read32 (kmem s) qh) s
     in do { _ \<leftarrow> phys_flush_cache (async_list_head s) 64; Some s })"

text \<open>Polling the queue head of a transfer: 0 when it is no longer active, \<open>- 3\<close> on an error bit, \<open>- 2\<close> after the timeout.\<close>

partial_function (option) bulk_wait :: "'h board \<Rightarrow> u64 \<Rightarrow> u32 \<Rightarrow> u32 \<Rightarrow> 'h ehci \<Rightarrow> (int \<times> 'h ehci) option" where
  "bulk_wait B qh timeout_ms start s =
    do { _ \<leftarrow> phys_invalidate_cache qh sizeof_qh;
         let s = poll B s;
         let overlay_token = read32 (kmem s) (qtd_token (qh_overlay qh));
         if overlay_token AND push_bit 7 1 = 0 then Some (0, s)
         else if overlay_token AND 0x7E \<noteq> 0 then Some (- 3, s)
         else do { (t, s) \<leftarrow> now_ms B s;
                   if t - start > timeout_ms then Some (- 2, s)
                   else do { s \<leftarrow> delay B 100 s; bulk_wait B qh timeout_ms start s } } }"

definition put_buffers :: "u64 \<Rightarrow> u64 \<Rightarrow> nat list \<Rightarrow> 'h ehci \<Rightarrow> 'h ehci" where
  "put_buffers qtd buf_phys is s = fold (\<lambda>i. put32 (qtd_buffer qtd i) (ucast (buf_phys + of_nat (i * 4096)) AND NOT 0xFFF)) is s"

definition bulk_token :: "u64 \<Rightarrow> bool \<Rightarrow> u32" where
  "bulk_token len dir_in =
    ucast (push_bit 7 1 OR push_bit 16 len OR push_bit 10 3 OR ucast (push_bit 8 (if dir_in then PID_IN else PID_OUT)) :: u64)"

definition build_bulk :: "'h board \<Rightarrow> u64 \<Rightarrow> u8 \<Rightarrow> u8 \<Rightarrow> u64 \<Rightarrow> u64 \<Rightarrow> bool \<Rightarrow> 'h ehci \<Rightarrow> 'h ehci" where
  "build_bulk B page devaddr ep_addr data_vaddr len dir_in s =
    (let qh = page; qtd = page + 64;
         s = zero qh sizeof_qh s;
         s = zero qtd sizeof_qtd s;
         buf_phys = virt_to_phys (vm B) data_vaddr;
         s = put32 qtd 0x1 s;
         s = put32 (qtd + 4) 0x1 s;
         s = put32 (qtd_token qtd) (bulk_token len dir_in) s;
         s = put32 (qtd_buffer qtd 0) (ucast buf_phys) s;
         s = put_buffers qtd buf_phys (takeWhile (\<lambda>i. len > of_nat (i * 4096)) [1..<5]) s;
         ep_num = ep_addr AND 0x0F;
         s = put32 (qh + 4) (ucast devaddr OR push_bit 8 (ucast ep_num) OR push_bit 16 512 OR push_bit 12 2) s;
         s = put32 (qh + 8) (push_bit 30 1) s;
         s = put32 (qh + 12) 0 s;
         s = s\<lparr>kmem := store_bytes (kmem s) (qh_overlay qh) (bytes_at (kmem s) qtd 32)\<rparr>
     in put32 qh (read32 (kmem s) (async_list_head s)) s)"

definition ehci_submit_bulk_simple :: "'h board \<Rightarrow> u8 \<Rightarrow> u8 \<Rightarrow> u64 \<Rightarrow> u64 \<Rightarrow> bool \<Rightarrow> u32 \<Rightarrow> 'h ehci \<Rightarrow> (int \<times> 'h ehci) option" where
  "ehci_submit_bulk_simple B devaddr ep_addr data_vaddr len dir_in timeout_ms s =
    (if async_list_head s = 0 then Some (- 1, s) else
     let (page_phys, s) = get_page s in
     if page_phys = 0 then Some (- 1, s) else
     let qh = phys_to_virt (vm B) page_phys;
         s = build_bulk B qh devaddr ep_addr data_vaddr len dir_in s
     in do { _ \<leftarrow> phys_flush_cache qh sizeof_qh;
             _ \<leftarrow> phys_flush_cache (qh + 64) sizeof_qtd;
             _ \<leftarrow> phys_flush_cache data_vaddr len;
             let s = put32 (async_list_head s) (ucast (virt_to_phys (vm B) qh) OR 0x2) s;
             _ \<leftarrow> phys_flush_cache (async_list_head s) 64;
             (start, s) \<leftarrow> now_ms B s;
             (rc, s) \<leftarrow> bulk_wait B qh timeout_ms start s;
             s \<leftarrow> unlink qh s;
             _ \<leftarrow> (if rc = 0 \<and> dir_in then phys_invalidate_cache data_vaddr len else Some []);
             Some (rc, give_page B page_phys s) })"

section \<open>Control transfers\<close>

text \<open>The loop \<open>while (cond && timeout_ctr--)\<close> makes at most 10000 pauses.\<close>

primrec flush_wait :: "'h board \<Rightarrow> nat \<Rightarrow> 'h ehci \<Rightarrow> 'h ehci option" where
  "flush_wait B 0 s = Some (snd (rd B (ehci s + USBSTS) s))"
| "flush_wait B (Suc n) s =
    (let (v, s) = rd B (ehci s + USBSTS) s in
     if v AND push_bit 15 1 \<noteq> 0 then do { s \<leftarrow> delay B 10 s; flush_wait B n s } else Some s)"

definition ehci_flush_async :: "'h board \<Rightarrow> 'h ehci \<Rightarrow> (int \<times> 'h ehci) option" where
  "ehci_flush_async B s =
    do { let s = upd B (ehci s + USBCMD) (\<lambda>v. v AND NOT (push_bit 5 1)) s;
         s \<leftarrow> delay B 50 s;
         s \<leftarrow> flush_wait B 10000 s;
         let (v, s) = rd B (ehci s + USBSTS) s;
         Some (if v AND push_bit 15 1 \<noteq> 0 then - 1 else 0, s) }"

definition ehci_run_async :: "'h board \<Rightarrow> 'h ehci \<Rightarrow> 'h ehci option" where
  "ehci_run_async B s =
    do { let s = wr B (ehci s + ASYNCLISTADDR) (ucast (async_list_head s)) s;
         s \<leftarrow> delay B 20 s;
         let s = upd B (ehci s + USBCMD) (\<lambda>v. v OR push_bit 5 1) s;
         delay B 20 s }"

partial_function (option) control_wait :: "'h board \<Rightarrow> u64 \<Rightarrow> u64 \<Rightarrow> 'h ehci \<Rightarrow> (bool \<times> 'h ehci) option" where
  "control_wait B qh start s =
    (let s = poll B s in
     if read32 (kmem s) (qtd_token (qh_overlay qh)) AND push_bit 7 1 = 0 then Some (True, s)
     else do { (t, s) \<leftarrow> now_ms B s;
               if ucast t - start > 5000 then Some (False, s)
               else do { s \<leftarrow> delay B 100 s; control_wait B qh start s } })"

text \<open>A setup packet is the eight bytes of \<open>usb_ctrl_setup_t\<close>.\<close>

definition setup_packet :: "u8 \<Rightarrow> u8 \<Rightarrow> u16 \<Rightarrow> u16 \<Rightarrow> u16 \<Rightarrow> u8 list" where
  "setup_packet bmRequestType bRequest wValue wIndex wLength =
    [bmRequestType, bRequest] @ le_split 2 wValue @ le_split 2 wIndex @ le_split 2 wLength"

definition build_control :: "'h board \<Rightarrow> u64 \<Rightarrow> u8 \<Rightarrow> u8 list \<Rightarrow> u64 \<Rightarrow> u16 \<Rightarrow> 'h ehci \<Rightarrow> 'h ehci" where
  "build_control B mem devaddr setup data_buf data_len s =
    (let phys_mem = virt_to_phys (vm B) mem;
         qh = mem; qtd_setup = mem + 64; qtd_data = mem + 128; qtd_status = mem + 192;
         s = zero mem 4096 s;
         s = zero qh sizeof_qh s;
         s = zero qtd_setup sizeof_qtd s;
         s = zero qtd_data sizeof_qtd s;
         s = zero qtd_status sizeof_qtd s;
         s = put32 qtd_setup (ucast (phys_mem + 128)) s;
         s = put32 (qtd_token qtd_setup) (push_bit 16 8) s;
         s = s\<lparr>kmem := store_bytes (kmem s) (qtd_buffer qtd_setup 0) setup\<rparr>;
         s = (if data_buf \<noteq> 0 \<and> data_len \<noteq> 0 then
                let s = put32 qtd_data (ucast (phys_mem + 192)) s;
                    s = put32 (qtd_token qtd_data) (push_bit 16 (ucast (data_len AND 0x7FFF))) s
                in fold (\<lambda>i. put32 (qtd_buffer qtd_data i) (ucast (data_buf + of_nat (i * 4096)))) [0..<5] s
              else put32 qtd_setup (ucast (phys_mem + 192)) s);
         s = put32 qtd_status 1 s;
         s = put32 (qtd_token qtd_status) 0 s;
         s = put32 (qh + 12) 0 s;
         s = s\<lparr>kmem := store_bytes (kmem s) (qh_overlay qh) (bytes_at (kmem s) qtd_setup 32)\<rparr>;
         s = put32 qh 1 s;
         s = put32 (qh + 4) (push_bit 8 (ucast devaddr) OR push_bit 16 64) s
     in put32 (qh + 8) 0 s)"

definition usb_control_transfer :: "'h board \<Rightarrow> u8 \<Rightarrow> u8 list option \<Rightarrow> u64 \<Rightarrow> u16 \<Rightarrow> 'h ehci \<Rightarrow> (int \<times> 'h ehci) option" where
  "usb_control_transfer B devaddr setup data_buf data_len s =
    (case setup of None \<Rightarrow> Some (- 1, s) | Some setup \<Rightarrow>
     let (mem_phys, s) = get_page s in
     if mem_phys = 0 then Some (- 2, s) else
     let mem = phys_to_virt (vm B) mem_phys;
         s = build_control B mem devaddr setup data_buf data_len s
     in do { _ \<leftarrow> phys_flush_cache mem 4096;
             let old_head = async_list_head s;
             let s = s\<lparr>async_list_head := mem\<rparr>;
             (rc, s) \<leftarrow> ehci_flush_async B s;
             if rc \<noteq> 0 then Some (- 3, give_page B mem_phys (s\<lparr>async_list_head := old_head\<rparr>)) else do {
             s \<leftarrow> ehci_run_async B s;
             (start, s) \<leftarrow> now_ms B s;
             (complete, s) \<leftarrow> control_wait B mem (ucast start) s;
             if \<not> complete then Some (- 4, give_page B mem_phys (s\<lparr>async_list_head := old_head\<rparr>)) else do {
             _ \<leftarrow> phys_invalidate_cache mem 4096;
             let token = read32 (kmem s) (qtd_token (mem + 128));
             let actual = (if data_len \<noteq> 0 \<and> token AND push_bit 3 15 = 0
                           then int (unat data_len) - int (unat (drop_bit 16 token AND 0x7FFF)) else int (unat data_len));
             Some (actual, give_page B mem_phys (s\<lparr>async_list_head := old_head\<rparr>)) } } })"

definition usb_get_device_descriptor :: "'h board \<Rightarrow> u8 \<Rightarrow> u64 \<Rightarrow> u16 \<Rightarrow> 'h ehci \<Rightarrow> (int \<times> 'h ehci) option" where
  "usb_get_device_descriptor B devaddr desc_buf len s =
    usb_control_transfer B devaddr (Some (setup_packet 0x80 USB_REQ_GET_DESCRIPTOR (push_bit 8 0x01) 0 len)) desc_buf len s"

definition usb_get_config_descriptor :: "'h board \<Rightarrow> u8 \<Rightarrow> u64 \<Rightarrow> u16 \<Rightarrow> 'h ehci \<Rightarrow> (int \<times> 'h ehci) option" where
  "usb_get_config_descriptor B devaddr desc_buf len s =
    usb_control_transfer B devaddr (Some (setup_packet 0x80 USB_REQ_GET_DESCRIPTOR (push_bit 8 0x02) 0 len)) desc_buf len s"

definition usb_set_address :: "'h board \<Rightarrow> u8 \<Rightarrow> 'h ehci \<Rightarrow> (int \<times> 'h ehci) option" where
  "usb_set_address B new_addr s =
    do { (rc, s) \<leftarrow> usb_control_transfer B 0 (Some (setup_packet 0x00 USB_REQ_SET_ADDRESS (ucast new_addr) 0 0)) 0 0 s;
         s \<leftarrow> (if rc = 0 then delay B 2000 s else Some s);
         Some (rc, s) }"

definition usb_set_configuration :: "'h board \<Rightarrow> u8 \<Rightarrow> u8 \<Rightarrow> 'h ehci \<Rightarrow> (int \<times> 'h ehci) option" where
  "usb_set_configuration B devaddr cfg s =
    usb_control_transfer B devaddr (Some (setup_packet 0x00 USB_REQ_SET_CONFIGURATION (ucast cfg) 0 0)) 0 0 s"

definition usb_msd_reset :: "'h board \<Rightarrow> u8 \<Rightarrow> u8 \<Rightarrow> 'h ehci \<Rightarrow> (int \<times> 'h ehci) option" where
  "usb_msd_reset B devaddr iface_num s =
    usb_control_transfer B devaddr (Some (setup_packet 0x21 0xFF 0 (ucast iface_num) 0)) 0 0 s"

section \<open>Enumeration of the device\<close>

text \<open>
  The loop over the descriptors of a configuration. It reads the interface and endpoint descriptors in
  place; \<open>None\<close> stands for a loop that does not end.
\<close>

definition interface_seen :: "mem \<Rightarrow> u64 \<Rightarrow> bool \<times> usb_device_t \<Rightarrow> bool \<times> usb_device_t" where
  "interface_seen m ptr fd =
    (case fd of (found_msd, dev) \<Rightarrow>
     if m (ptr + 5) = USB_CLASS_MASS_STORAGE \<and> m (ptr + 6) = USB_SUBCLASS_SCSI \<and> m (ptr + 7) = USB_PROTOCOL_BULK_ONLY
     then (True, dev\<lparr>iface_number := m (ptr + 2)\<rparr>) else (found_msd, dev))"

definition endpoint_seen :: "mem \<Rightarrow> u64 \<Rightarrow> bool \<times> usb_device_t \<Rightarrow> bool \<times> usb_device_t" where
  "endpoint_seen m ptr fd =
    (case fd of (found_msd, dev) \<Rightarrow>
     if found_msd \<and> m (ptr + 3) AND 0x03 = 0x02 then
       let ep = \<lparr>addr = m (ptr + 2), max_packet = read16 m (ptr + 4), attrs = m (ptr + 3)\<rparr>
       in (found_msd, if m (ptr + 2) AND 0x80 \<noteq> 0 then dev\<lparr>bulk_in := ep\<rparr> else dev\<lparr>bulk_out := ep\<rparr>)
     else (found_msd, dev))"

partial_function (option) parse_descriptors :: "mem \<Rightarrow> u64 \<Rightarrow> u64 \<Rightarrow> bool \<times> usb_device_t \<Rightarrow> (bool \<times> usb_device_t) option" where
  "parse_descriptors m end_ptr ptr fd =
    (if ptr < end_ptr then
       let len = m ptr; type = m (ptr + 1) in
       if len < 2 then Some fd
       else parse_descriptors m end_ptr (ptr + ucast len)
         (if type = 0x04 \<and> len \<ge> 9 then interface_seen m ptr fd
          else if type = 0x05 \<and> len \<ge> 7 then endpoint_seen m ptr fd
          else fd)
     else Some fd)"

definition find_mass_storage_device :: "'h board \<Rightarrow> usb_device_t \<Rightarrow> 'h ehci \<Rightarrow> ((int \<times> usb_device_t) \<times> 'h ehci) option" where
  "find_mass_storage_device B out_dev s =
    (let (desc_buf_phys, s) = get_page s in
     if desc_buf_phys = 0 then Some ((- 1, out_dev), s) else
     let desc_buf = phys_to_virt (vm B) desc_buf_phys;
         s = s\<lparr>pid_rn := 18\<rparr>;
         s = zero desc_buf 4096 s
     in do { (res, s) \<leftarrow> usb_get_device_descriptor B 0 desc_buf 18 s;
             if res \<noteq> 0 then Some ((- 100 - res, out_dev), give_page B desc_buf_phys s) else do {
             let s = s\<lparr>pid_rn := 19\<rparr>;
             (res, s) \<leftarrow> usb_set_address B 1 s;
             if res \<noteq> 0 then Some ((- 3, out_dev), give_page B desc_buf_phys s) else do {
             let s = s\<lparr>pid_rn := 20\<rparr>;
             let out_dev = out_dev\<lparr>address := 1\<rparr>;
             (res, s) \<leftarrow> usb_get_config_descriptor B 1 desc_buf 9 s;
             if res \<noteq> 0 then Some ((- 4, out_dev), give_page B desc_buf_phys s) else do {
             let s = s\<lparr>pid_rn := 21\<rparr>;
             let total_len = read16 (kmem s) (desc_buf + 2);
             let total_len = (if total_len > 1024 then 1024 else total_len);
             (res, s) \<leftarrow> usb_get_config_descriptor B 1 desc_buf total_len s;
             if res \<noteq> 0 then Some ((- 5, out_dev), give_page B desc_buf_phys s) else do {
             let s = s\<lparr>pid_rn := 22\<rparr>;
             let out_dev = out_dev\<lparr>config_value := kmem s (desc_buf + 5)\<rparr>;
             (found_msd, out_dev) \<leftarrow> parse_descriptors (kmem s) (desc_buf + ucast total_len) (desc_buf + 9) (False, out_dev);
             let s = give_page B desc_buf_phys s;
             if \<not> found_msd then Some ((- 6, out_dev), s) else do {
             (res, s) \<leftarrow> usb_set_configuration B (address out_dev) (config_value out_dev) s;
             if res \<noteq> 0 then Some ((- 7, out_dev), s) else do {
             s \<leftarrow> delay B 100000 s;
             (_, s) \<leftarrow> usb_msd_reset B (address out_dev) (iface_number out_dev) s;
             s \<leftarrow> delay B 100000 s;
             Some ((0, out_dev), s) } } } } } } })"

section \<open>Mass storage\<close>

definition put8 :: "u64 \<Rightarrow> u8 \<Rightarrow> 'h ehci \<Rightarrow> 'h ehci" where
  "put8 a v s = s\<lparr>kmem := (kmem s)(a := v)\<rparr>"

definition msd_send_cbw :: "'h board \<Rightarrow> usb_device_t \<Rightarrow> u64 \<Rightarrow> 'h ehci \<Rightarrow> (int \<times> 'h ehci) option" where
  "msd_send_cbw B dev cbw_buf s = ehci_submit_bulk_simple B (address dev) (addr (bulk_out dev)) cbw_buf 31 False 1000 s"

definition msd_receive_csw :: "'h board \<Rightarrow> usb_device_t \<Rightarrow> u64 \<Rightarrow> 'h ehci \<Rightarrow> (int \<times> 'h ehci) option" where
  "msd_receive_csw B dev csw_buf s = ehci_submit_bulk_simple B (address dev) (addr (bulk_in dev)) csw_buf 13 True 1000 s"

text \<open>The command block wrapper for the sector \<open>lba\<close>: \<open>struct CBW\<close> is packed, its command block starts at 15.\<close>

definition build_cbw :: "u64 \<Rightarrow> u32 \<Rightarrow> 'h ehci \<Rightarrow> 'h ehci" where
  "build_cbw cbw lba s =
    (let s = zero cbw 31 s;
         s = put32 cbw CBW_SIGNATURE s;
         s = s\<lparr>global_tag := global_tag s + 1\<rparr>;
         s = put32 (cbw + 4) (global_tag s) s;
         s = put32 (cbw + 8) 512 s;
         s = put8 (cbw + 12) 0x80 s;
         s = put8 (cbw + 13) 0 s;
         s = put8 (cbw + 14) 10 s;
         s = put8 (cbw + 15) SCSI_READ10 s;
         s = put8 (cbw + 16) 0 s;
         s = put8 (cbw + 17) (ucast (drop_bit 24 lba AND 0xFF)) s;
         s = put8 (cbw + 18) (ucast (drop_bit 16 lba AND 0xFF)) s;
         s = put8 (cbw + 19) (ucast (drop_bit 8 lba AND 0xFF)) s;
         s = put8 (cbw + 20) (ucast (drop_bit 0 lba AND 0xFF)) s;
         s = put8 (cbw + 22) 0 s
     in put8 (cbw + 23) 1 s)"

definition msd_read_sector :: "'h board \<Rightarrow> usb_device_t \<Rightarrow> u32 \<Rightarrow> u64 \<Rightarrow> 'h ehci \<Rightarrow> (int \<times> 'h ehci) option" where
  "msd_read_sector B dev lba buf_vaddr s =
    (let (page_phys, s) = get_page s in
     if page_phys = 0 then Some (- 1, s) else
     let cbw = phys_to_virt (vm B) page_phys;
         csw = cbw + ALIGN_UP 31 16;
         s = build_cbw cbw lba s
     in do { _ \<leftarrow> phys_flush_cache cbw 31;
             (rc, s) \<leftarrow> msd_send_cbw B dev cbw s;
             if rc \<noteq> 0 then Some (- 2, give_page B page_phys s) else do {
             (rc, s) \<leftarrow> ehci_submit_bulk_simple B (address dev) (addr (bulk_in dev)) buf_vaddr 512 True 1000 s;
             if rc \<noteq> 0 then Some (- 3, give_page B page_phys s) else do {
             let s = zero csw 13 s;
             (rc, s) \<leftarrow> msd_receive_csw B dev csw s;
             if rc \<noteq> 0 then Some (- 4, give_page B page_phys s) else do {
             _ \<leftarrow> phys_invalidate_cache csw 13;
             let rc = (if read32 (kmem s) csw \<noteq> CSW_SIGNATURE then - 5
                       else if read32 (kmem s) (csw + 4) \<noteq> read32 (kmem s) (cbw + 4) then - 6
                       else if kmem s (csw + 12) \<noteq> 0 then - 7 else 0);
             Some (rc, give_page B page_phys s) } } } })"

section \<open>Discovery of the controller\<close>

text \<open>The byte CAPLENGTH is the low byte of the first capability register, HCIVERSION its upper half.\<close>

definition pci_map_ehci_mmio :: "'h board \<Rightarrow> u64 \<Rightarrow> 'h ehci \<Rightarrow> (u64 \<times> (u16 \<times> u64) option) \<times> 'h ehci" where
  "pci_map_ehci_mmio B bar0_virt s =
    (if bar0_virt = 0 then ((0, None), s) else
     let (v, s) = rd B bar0_virt s;
         caplength = (ucast v :: u8);
         (hcsparams, s) = rd B (bar0_virt + 4) s;
         n_ports = (ucast (HCSPARAMS_N_PORTS hcsparams) :: u16);
         op_regs = bar0_virt + ucast caplength;
         s = s\<lparr>ehci := bar0_virt\<rparr>
     in ((op_regs, Some (n_ports, bar0_virt)), s))"

definition ehci_print_capabilities :: "'h board \<Rightarrow> u64 \<Rightarrow> 'h ehci \<Rightarrow> 'h ehci" where
  "ehci_print_capabilities B bar0_virt s = print_regs B [bar0_virt, bar0_virt, bar0_virt + 4, bar0_virt + 8] s"

text \<open>What the stack holds where \<open>dev\<close> and \<open>ports\<close> are declared is a parameter.\<close>

definition read_sector0_example :: "'h board \<Rightarrow> usb_device_t \<Rightarrow> u16 \<Rightarrow> 'h ehci \<Rightarrow> (int \<times> 'h ehci) option" where
  "read_sector0_example B dev ports0 s =
    (let ((mmio, out), s) = pci_map_ehci_mmio B 0 s;
         num_ports = (case out of None \<Rightarrow> ports0 | Some (n, _) \<Rightarrow> n)
     in if mmio = 0 then Some (- 1, s) else do {
     let s = s\<lparr>ehci := mmio\<rparr>;
     (rc, s) \<leftarrow> ehci_init_simple B s;
     if rc \<noteq> 0 then Some (- 2, s) else do {
     s \<leftarrow> ehci_power_on_ports B (int (unat num_ports)) s;
     ((rc, _), s) \<leftarrow> ehci_find_and_reset_device B s;
     if rc \<noteq> 0 then Some (- 3, s) else do {
     ((rc, dev), s) \<leftarrow> find_mass_storage_device B dev s;
     if rc \<noteq> 0 then Some (- 4, s) else do {
     let (sector_buf_phys, s) = get_page s;
     if sector_buf_phys = 0 then Some (- 5, s) else do {
     let sector_buf = phys_to_virt (vm B) sector_buf_phys;
     let s = zero sector_buf 512 s;
     (rc, s) \<leftarrow> msd_read_sector B dev 0 sector_buf s;
     Some (if rc \<noteq> 0 then rc - 5 else 0, give_page B sector_buf_phys s) } } } } })"

partial_function (option) wait_forever :: "'h board \<Rightarrow> u64 \<Rightarrow> (u32 \<Rightarrow> bool) \<Rightarrow> 'h ehci \<Rightarrow> 'h ehci option" where
  "wait_forever B a ok s = (let (v, s) = rd B a s in if ok v then Some s else wait_forever B a ok s)"

definition ehci_init :: "'h board \<Rightarrow> u64 \<Rightarrow> 'h ehci \<Rightarrow> 'h ehci option" where
  "ehci_init B phys_mmio s =
    (let cap = phys_to_virt (vm B) phys_mmio;
         (v, s) = rd B cap s;
         op = cap + ucast (ucast v :: u8);
         s = print_regs B [cap] s;
         s = upd B (op + USBCMD) (\<lambda>v. v AND NOT 1) s
     in do { s \<leftarrow> wait_forever B (op + USBSTS) (\<lambda>v. v AND push_bit 12 1 \<noteq> 0) s;
             let s = upd B (op + USBCMD) (\<lambda>v. v OR push_bit 1 1) s;
             s \<leftarrow> wait_forever B (op + USBCMD) (\<lambda>v. v AND push_bit 1 1 = 0) s;
             let (qh_phys, s) = get_page s;
             let qh_virt = phys_to_virt (vm B) qh_phys;
             let s = zero qh_virt 4096 s;
             let s = put32 qh_virt (ucast (qh_phys OR 0x2)) s;
             let s = put32 (qh_virt + 4) (push_bit 30 1) s;
             let s = put32 (qh_virt + 8) 1 s;
             let s = wr B (op + ASYNCLISTADDR) (ucast qh_phys) s;
             let s = upd B (op + USBCMD) (\<lambda>v. v OR push_bit 5 1) s;
             let s = upd B (op + USBCMD) (\<lambda>v. v OR 1) s;
             Some (wr B (op + CONFIGFLAG) 1 s) })"

definition ehci_pci_init :: "'h board \<Rightarrow> u8 \<Rightarrow> u8 \<Rightarrow> u8 \<Rightarrow> 'h ehci \<Rightarrow> 'h ehci option" where
  "ehci_pci_init B bus device func s =
    (let (bar0, s) = pci_read (ports B) bus device func 0x10 s in
     if bar0 AND 0x1 \<noteq> 0 then Some s else
     let phys = (ucast (bar0 AND 0xFFFFFFF0) :: u64);
         (bar_size, s) = pci_get_bar_size (ports B) bus device func 0x10 s;
         s = fold (\<lambda>i. kmap_page (vm B) (phys + of_nat (i * 0x1000)) (phys + of_nat (i * 0x1000))
               (PTE_PRESENT OR PTE_WRITABLE OR PTE_CACHE_DISABLE OR PTE_WRITE_THROUGH)) [0..<(unat bar_size + 0xFFF) div 0x1000] s
     in ehci_init B phys s)"

text \<open>The scan of the bus with this driver and the AHCI driver.\<close>

definition pci_scan_devices :: "'h board \<Rightarrow> u8 list \<Rightarrow> u64 \<Rightarrow> nat \<Rightarrow> 'h ehci \<Rightarrow> 'h ehci option" where
  "pci_scan_devices B stack c n s =
    start_pci_enumeration (ports B) (ahci_found (vm B) stack c (regs B)) (ehci_pci_init B) n s"

end
