(* ===== verification/EhciSpec.thy ===== *)
theory EhciSpec
  imports Ehci SataPort
begin

text \<open>
  What the USB driver achieves: the loop over the descriptors of a device, and the search for a
  mass-storage device with the transfers as the driver sets them up.
\<close>

section \<open>The state while nothing happens\<close>

text \<open>A clock that is never calibrated, so that nothing waits, and registers whose accesses do not write to memory.\<close>

definition inert :: "'h board \<Rightarrow> bool" where
  "inert B \<longleftrightarrow> quick_ports (clk B) \<and> cpu_has_tsc (clk B) \<and>
    (\<forall>a st. fst (snd (hread (regs B) a st)) = fst st) \<and> (\<forall>a v st. fst (hwrite (regs B) a v st) = fst st)"

definition same :: "'h ehci \<Rightarrow> 'h ehci \<Rightarrow> bool" where
  "same s s' \<longleftrightarrow> kmem s' = kmem s \<and> pages s' = pages s \<and> ehci s' = ehci s \<and> async_list_head s' = async_list_head s \<and>
    CPU_clock_speed s' = CPU_clock_speed s"

lemma same_refl [simp]: "same s s"
  by (simp add: same_def)

lemma same_trans [trans]: "same s s' \<Longrightarrow> same s' s'' \<Longrightarrow> same s s''"
  by (simp add: same_def)

lemma same_clock: "same s s' \<Longrightarrow> CPU_clock_speed s' = CPU_clock_speed s"
  by (simp add: same_def)

lemma rd_same: "inert B \<Longrightarrow> same s (snd (rd B a s))"
  by (simp add: inert_def same_def rd_def split: prod.split) (metis fst_conv snd_conv)

lemma wr_same: "inert B \<Longrightarrow> same s (wr B a v s)"
  by (simp add: inert_def same_def wr_def split: prod.split) (metis fst_conv)

lemma upd_same: "inert B \<Longrightarrow> same s (upd B a f s)"
  unfolding upd_def using rd_same [of B s a] wr_same [of B "snd (rd B a s)" a] 
  by (auto simp: Let_def same_def split: prod.split)

lemma timer_more_same: "timer.more s' = timer.more s \<Longrightarrow> CPU_clock_speed s' = CPU_clock_speed s \<Longrightarrow> same s (s' :: 'h ehci)"
  by (cases s; cases s') (simp add: same_def)

lemma now_same:
  assumes "inert B" "CPU_clock_speed s = 0"
  obtains s' where "now_ms B s = Some (0, s')" "same s s'"
  using dead_time [of "clk B" s "ports B"] assms timer_more_same [of _ s] unfolding now_ms_def inert_def by metis

lemma delay_same:
  assumes "inert B" "CPU_clock_speed s = 0"
  obtains s' where "delay B n s = Some s'" "same s s'"
proof -
  obtain s' where "udelay (ports B) (clk B) n s = Some (- 1, s')" "CPU_clock_speed s' = 0" "timer.more s' = timer.more s"
    using dead_delay [of "clk B" s "ports B" n] assms unfolding inert_def by blast
  then show thesis using assms(2) by (intro that [of s']) (simp_all add: delay_def timer_more_same)
qed

lemma flush_wait_same:
  assumes "inert B" "CPU_clock_speed s = 0"
  shows "\<exists>s'. flush_wait B n s = Some s' \<and> same s s'"
  using assms(2)
proof (induction n arbitrary: s)
  case 0
  then show ?case using rd_same [OF assms(1)] by simp
next
  case (Suc n)
  let ?r = "rd B (ehci s + USBSTS) s"
  have r: "same s (snd ?r)" by (rule rd_same [OF assms(1)])
  obtain s1 where s1: "delay B 10 (snd ?r) = Some s1" "same (snd ?r) s1"
    using delay_same [OF assms(1), of "snd ?r" 10] r Suc.prems by (auto simp: same_def)
  have "CPU_clock_speed s1 = 0" using r s1(2) Suc.prems by (simp add: same_def)
  from Suc.IH [OF this] obtain s2 where "flush_wait B n s1 = Some s2" "same s1 s2" by blast
  with r s1 show ?case by (auto simp: same_def split: prod.split)
qed

lemma flush_async_same:
  assumes "inert B" "CPU_clock_speed s = 0"
  obtains rc s' where "ehci_flush_async B s = Some (rc, s')" "same s s'" "rc = 0 \<or> rc = - 1"
proof -
  define s1 where "s1 = upd B (ehci s + USBCMD) (\<lambda>v. v AND NOT (push_bit 5 1)) s"
  have 1: "same s s1" unfolding s1_def by (rule upd_same [OF assms(1)])
  obtain s2 where 2: "delay B 50 s1 = Some s2" "same s1 s2"
    using delay_same [OF assms(1), of s1 50] 1 assms(2) by (auto simp: same_def)
  obtain s3 where 3: "flush_wait B 10000 s2 = Some s3" "same s2 s3"
    using flush_wait_same [OF assms(1), of s2] 1 2 assms(2) by (auto simp: same_def)
  let ?r = "rd B (ehci s3 + USBSTS) s3"
  have 4: "same s3 (snd ?r)" by (rule rd_same [OF assms(1)])
  have "ehci_flush_async B s = Some (if fst ?r AND push_bit 15 1 \<noteq> 0 then - 1 else 0, snd ?r)"
    unfolding ehci_flush_async_def s1_def [symmetric] Let_def using 2 3 by (simp add: case_prod_beta)
  moreover have "same s (snd ?r)" using 1 2(2) 3(2) 4 by (simp add: same_def)
  ultimately show thesis by (rule that) simp
qed

lemma run_async_same:
  assumes "inert B" "CPU_clock_speed s = 0"
  obtains s' where "ehci_run_async B s = Some s'" "same s s'"
proof -
  define s1 where "s1 = wr B (ehci s + ASYNCLISTADDR) (ucast (async_list_head s)) s"
  have 1: "same s s1" unfolding s1_def by (rule wr_same [OF assms(1)])
  obtain s2 where 2: "delay B 20 s1 = Some s2" "same s1 s2"
    using delay_same [OF assms(1), of s1 20] 1 assms(2) by (auto simp: same_def)
  define s3 where "s3 = upd B (ehci s2 + USBCMD) (\<lambda>v. v OR push_bit 5 1) s2"
  have 3: "same s2 s3" unfolding s3_def by (rule upd_same [OF assms(1)])
  obtain s4 where 4: "delay B 20 s3 = Some s4" "same s3 s4"
    using delay_same [OF assms(1), of s3 20] 1 2 3 assms(2) by (auto simp: same_def)
  have "ehci_run_async B s = Some s4"
    unfolding ehci_run_async_def s1_def [symmetric] Let_def using 2 4 by (simp del: push_bit_of_1 add: s3_def)
  moreover have "same s s4" using 1 2(2) 3 4(2) by (simp add: same_def)
  ultimately show thesis by (rule that)
qed

section \<open>A control transfer\<close>

lemma page_part: "x \<notin> region p 4096 \<Longrightarrow> unat k + n \<le> 4096 \<Longrightarrow> x \<notin> region (p + k) n"
  using in_sub [of x p "unat k" n 4096] by auto

lemma put32_frame:
  assumes "x \<notin> region p 4096"
  shows "kmem (put32 p v s) x = kmem s x" "unat k \<le> 4092 \<Longrightarrow> kmem (put32 (p + k) v s) x = kmem s x" "unat k \<le> 4092 \<Longrightarrow> kmem (put32 (k + p) v s) x = kmem s x"
  using page_part [OF assms, of 0 4] page_part [OF assms, of k 4] by (simp_all add: put32_def write32_def store_bytes_outside add.commute)

lemma zero_frame:
  assumes "x \<notin> region p 4096"
  shows "unat n \<le> 4096 \<Longrightarrow> kmem (zero p n s) x = kmem s x" "unat k + unat n \<le> 4096 \<Longrightarrow> kmem (zero (p + k) n s) x = kmem s x"
  using page_part [OF assms, of 0 "unat n"] page_part [OF assms, of k "unat n"] by (simp_all add: zero_def memset_spec)

lemma store_frame:
  assumes "x \<notin> region p 4096"
  shows "unat k + length bs \<le> 4096 \<Longrightarrow> store_bytes m (p + k) bs x = m x" "unat k + length bs \<le> 4096 \<Longrightarrow> store_bytes m (k + p) bs x = m x"
  using page_part [OF assms, of k "length bs"] by (simp_all add: store_bytes_outside add.commute)

lemmas page_frames = put32_frame zero_frame store_frame

lemma build_control_frame:
  assumes "x \<notin> region mem 4096" "length setup = 8"
  shows "kmem (build_control B mem d setup buf n s) x = kmem s x"
  using assms(2) by (simp add: build_control_def Let_def qtd_token_def qtd_buffer_def qh_overlay_def sizeof_qh_def sizeof_qtd_def page_frames [OF assms(1)] upt_rec)

lemma put32_read: "read32 (kmem (put32 a v s)) a = v" "disjoint_regions a 4 b 4 \<Longrightarrow> read32 (kmem (put32 a v s)) b = read32 (kmem s) b"
  by (simp_all add: put32_def read32_write32) (simp add: read32_def write32_def mem_simps)

lemma store_read: "length bs \<le> 2 ^ 64 \<Longrightarrow> disjoint_regions a (length bs) b 4 \<Longrightarrow> read32 (store_bytes m a bs) b = read32 m b"
  by (simp add: read32_def mem_simps)

lemma copy_read:
  assumes "k + 4 \<le> n" "n \<le> 2 ^ 64"
  shows "read32 (store_bytes m a (bytes_at m b n)) (a + of_nat k) = read32 m (b + of_nat k)"
proof -
  have "store_bytes m a (bytes_at m b n) (a + of_nat k + of_nat i) = m (b + of_nat k + of_nat i)" if "i < 4" for i
  proof -
    have u: "unat (of_nat k + of_nat i :: u64) = k + i" using assms that unat_of_nat_64 [of "k + i"] by simp
    then show ?thesis using assms that u by (simp add: store_bytes_apply add.assoc)
  qed
  then show ?thesis unfolding read32_def by (intro arg_cong [where f = le_join]) (simp add: bytes_at_eq_iff)
qed

lemma build_control_token:
  assumes "length setup = 8"
  shows "read32 (kmem (build_control B mem d setup buf n s)) (mem + 24) = push_bit 16 8"
proof -
  have eq: "read32 (store_bytes m (mem + 16) (bytes_at m (mem + 64) 32)) (mem + 24) = read32 m (mem + 72)" for m
    using copy_read [of 8 32 m "mem + 16" "mem + 64"] by (simp add: add.assoc)
  show ?thesis
    unfolding build_control_def Let_def qtd_token_def qtd_buffer_def qh_overlay_def using assms
    by (simp add: put32_read store_read disjoint_regions_diff eq upt_rec add.assoc)
qed

lemma build_control_data:
  assumes "length setup = 8" "buf \<noteq> 0" "n \<noteq> 0"
  shows "read32 (kmem (build_control B mem d setup buf n s)) (mem + 136) = push_bit 16 (ucast (n AND 0x7FFF))"
  unfolding build_control_def Let_def qtd_token_def qtd_buffer_def qh_overlay_def using assms
  by (simp add: put32_read store_read disjoint_regions_diff upt_rec add.assoc)

lemma no_residue:
  assumes "n < 0x8000"
  shows "(push_bit 16 (ucast (n AND 0x7FFF)) :: u32) AND push_bit 3 15 = 0"
    "unat (drop_bit 16 (push_bit 16 (ucast (n AND 0x7FFF)) :: u32) AND 0x7FFF) = unat (n :: u16)"
proof -
  have m: "(15 :: u32) = mask 4" "(0x7FFF :: u16) = mask 15" "(0x7FFF :: u32) = mask 15" by (simp_all add: mask_eq_exp_minus_1)
  show "(push_bit 16 (ucast (n AND 0x7FFF)) :: u32) AND push_bit 3 15 = 0"
    unfolding m(1) by (rule bit_eqI) (auto simp: bit_simps)
  have u: "unat n < 2 ^ 15" using assms by (simp add: word_less_nat_alt)
  then have "take_bit 15 (unat n) = unat n" by (rule take_bit_nat_eq_self)
  then have n: "n AND 0x7FFF = n" unfolding m(2) take_bit_eq_mask [symmetric]
    by (metis unsigned_take_bit_eq word_unat_eq_iff)
  have x: "unat (ucast n :: u32) = unat n" by (rule unat_ucast_16_32)
  have "unat (push_bit 16 (ucast n :: u32)) = unat n * 2 ^ 16"
    using u x by (simp add: push_bit_eq_mult unat_word_ariths)
  then have "drop_bit 16 (push_bit 16 (ucast n :: u32)) = ucast n"
    using x unfolding word_unat_eq_iff unat_drop_bit by simp
  then show "unat (drop_bit 16 (push_bit 16 (ucast (n AND 0x7FFF)) :: u32) AND 0x7FFF) = unat n"
    using u x unfolding n m(3) by (simp add: take_bit_eq_mask [symmetric] unsigned_take_bit_eq take_bit_nat_eq_self)
qed

lemma control_wait_done:
  assumes "\<forall>m h. \<not> bit (read32 m (qh + 24)) 7 \<longrightarrow> fst (dma B (m, h)) = m" "\<not> bit (read32 (kmem s) (qh + 24)) 7"
  obtains s' where "control_wait B qh start s = Some (True, s')" "same s s'"
proof -
  obtain h where h: "dma B (kmem s, hw s) = (kmem s, h)" using assms by (metis prod.collapse)
  have "read32 (kmem s) (qh + 24) AND push_bit 7 1 = 0" using assms(2) unfolding push_bit_of_1 and_exp_eq_0_iff_not_bit .
  then have "control_wait B qh start s = Some (True, s\<lparr>hw := h\<rparr>)"
    by (subst control_wait.simps) (simp add: poll_def h qtd_token_def qh_overlay_def add.assoc)
  then show thesis by (rule that) (simp add: same_def)
qed

lemma build_control_other [simp]:
  "pages (build_control B mem d setup buf n s) = pages s" "ehci (build_control B mem d setup buf n s) = ehci s"
  "async_list_head (build_control B mem d setup buf n s) = async_list_head s" "CPU_clock_speed (build_control B mem d setup buf n s) = CPU_clock_speed s"
  by (simp_all add: build_control_def Let_def put32_def zero_def upt_rec)

lemma flush_page: "aligned 12 p \<Longrightarrow> \<exists>ls. phys_flush_cache p 4096 = Some ls" "aligned 12 p \<Longrightarrow> \<exists>ls. phys_invalidate_cache p 4096 = Some ls"
proof -
  have "\<exists>ls. flush_lines (p AND NOT 63) (p + 4096) [] = Some ls" if p: "aligned 12 p" for p
  proof -
    have "aligned 12 (p + 4096)" by (rule aligned_add [OF p]) (simp_all add: aligned_def)
    then obtain k where "unat (p + 4096) = 4096 * k" by (auto simp: aligned_def elim: dvdE)
    then have "unat (p + 4096) \<le> 2 ^ 64 - 4096" using unat_lt_2p64 [of "p + 4096"] by simp
    moreover have "p AND NOT 63 = align_down 6 p" by (simp add: align_down_def mask_eq_exp_minus_1)
    ultimately show ?thesis using flush_lines_spec [of "p AND NOT 63" "p + 4096" "[]"] by auto
  qed
  then show "aligned 12 p \<Longrightarrow> \<exists>ls. phys_flush_cache p 4096 = Some ls" "aligned 12 p \<Longrightarrow> \<exists>ls. phys_invalidate_cache p 4096 = Some ls"
    unfolding phys_flush_cache_def phys_invalidate_cache_def by blast+
qed

text \<open>
  Nothing marks the setup transfer active, so the wait for it ends at once. The transfer then counts as complete with
  all of its bytes left over.
\<close>

lemma control_inert:
  assumes B: "inert B" "CPU_clock_speed s = 0" and pm: "pmm_inv (hhdm_offset (vm B)) (g # fs) (kmem s, pages s)" and g: "g \<noteq> 0"
    and dma: "\<forall>m h. \<not> bit (read32 m (g + hhdm_offset (vm B) + 24)) 7 \<longrightarrow> fst (dma B (m, h)) = m"
    and len: "length setup = 8" and n: "n < 0x8000" "buf \<noteq> 0 \<or> n = 0"
  obtains rc s' where "usb_control_transfer B d (Some setup) buf n s = Some (rc, s')" "rc = 0 \<or> rc = - 3" "CPU_clock_speed s' = 0"
    "async_list_head s' = async_list_head s" "pmm_inv (hhdm_offset (vm B)) (g # fs) (kmem s', pages s')"
    "\<And>x. x \<notin> region (g + hhdm_offset (vm B)) 4096 \<Longrightarrow> kmem s' x = kmem s x"
proof -
  define hh where "hh = hhdm_offset (vm B)"
  define qh where "qh = g + hh"
  obtain pg where get: "get_page s = (g, s\<lparr>pages := pg\<rparr>)" and pg: "pmm_inv hh fs (kmem s, pg)"
    using pm.alloc_frame [OF pm] pm.alloc_rest [OF pm] pm.alloc_mem [of "(kmem s, pages s)"] unfolding hh_def
    by (cases "palloc (kmem s, pages s)") (auto simp: get_page_def)
  have fresh: "g \<notin> set fs" "frame_ok hh g" using pm.holds_distinct [OF pm] pm.holds_ok [OF pm, of g] by (simp_all add: hh_def)
  define s1 where "s1 = build_control B qh d setup buf n (s\<lparr>pages := pg\<rparr>)"
  have frame: "kmem s1 x = kmem s x" if "x \<notin> region qh 4096" for x
    using build_control_frame [OF that len, of B d buf n "s\<lparr>pages := pg\<rparr>"] by (simp add: s1_def)
  have pg1: "pmm_inv hh fs (kmem s1, pg)"
  proof (rule pm.holds_frame [OF pg])
    fix f x assume "f \<in> set fs" "x \<in> region (f + hh) 4096"
    then show "kmem s1 x = kmem s x"
      using pm.page_disjoint [OF fresh(2) pm.holds_ok [OF pg]] fresh(1) by (intro frame) (auto simp: qh_def dest: disjoint_regionsD)
  qed
  let ?fin = "\<lambda>s'. give_page B g (s'\<lparr>async_list_head := async_list_head s\<rparr>)"
  have finish: "CPU_clock_speed (?fin s') = 0" "async_list_head (?fin s') = async_list_head s" "pmm_inv hh (g # fs) (kmem (?fin s'), pages (?fin s'))"
    "x \<notin> region qh 4096 \<Longrightarrow> kmem (?fin s') x = kmem s x"
    if "same (s1\<lparr>async_list_head := qh\<rparr>) s'" for s' x
  proof -
    have s': "kmem s' = kmem s1" "pages s' = pg" "CPU_clock_speed s' = 0" using that B(2) by (simp_all add: same_def s1_def)
    show "CPU_clock_speed (?fin s') = 0" "async_list_head (?fin s') = async_list_head s" "pmm_inv hh (g # fs) (kmem (?fin s'), pages (?fin s'))"
      using s' pm.release_push [OF pg1 fresh(2,1)] by (simp_all add: give_page_def hh_def case_prod_beta)
    show "kmem (?fin s') x = kmem s x" if x: "x \<notin> region qh 4096"
      using s' frame [OF x] page_part [OF x, of 0 8] page_part [OF x, of 8 8]
      by (simp add: give_page_def pfree_def Let_def set_region_next_def set_region_base_def write64_outside qh_def hh_def)
  qed
  have page: "phys_to_virt (vm B) g = qh" by (simp add: phys_to_virt_def qh_def hh_def)
  have "aligned 12 qh" using fresh(2) by (auto simp: frame_ok_def qh_def intro: aligned_add)
  then obtain l1 l2 where fl: "phys_flush_cache qh 4096 = Some l1" "phys_invalidate_cache qh 4096 = Some l2" using flush_page by blast
  have keep: "async_list_head s1 = async_list_head s" by (simp add: s1_def)
  have cleared: "CPU_clock_speed (s1\<lparr>async_list_head := qh\<rparr>) = 0" using B(2) by (simp add: s1_def)
  obtain rc s3 where s3: "ehci_flush_async B (s1\<lparr>async_list_head := qh\<rparr>) = Some (rc, s3)" "same (s1\<lparr>async_list_head := qh\<rparr>) s3"
    by (rule flush_async_same [OF B(1) cleared])
  show thesis
  proof (cases "rc = 0")
    case False
    then have "usb_control_transfer B d (Some setup) buf n s = Some (- 3, ?fin s3)"
      using get g fl s3(1) keep by (simp add: usb_control_transfer_def page s1_def [symmetric])
    then show thesis by (rule that) (use finish [OF s3(2)] in \<open>simp_all add: hh_def qh_def\<close>)
  next
    case True
    obtain s4 where s4: "ehci_run_async B s3 = Some s4" "same s3 s4" by (rule run_async_same [of B s3]) (use B(1) s3(2) cleared in \<open>simp_all add: same_def\<close>)
    obtain s5 where s5: "now_ms B s4 = Some (0, s5)" "same s4 s5" by (rule now_same [of B s4]) (use B(1) s3(2) s4(2) cleared in \<open>simp_all add: same_def\<close>)
    have k5: "same (s1\<lparr>async_list_head := qh\<rparr>) s5" using s3(2) s4(2) s5(2) by (blast intro: same_trans)
    then have "\<not> bit (read32 (kmem s5) (qh + 24)) 7"
      using build_control_token [OF len, of B qh d buf n "s\<lparr>pages := pg\<rparr>"] by (simp add: same_def s1_def bit_simps)
    then obtain s6 where s6: "control_wait B qh 0 s5 = Some (True, s6)" "same s5 s6"
      using control_wait_done [of qh B s5 0] dma by (auto simp: qh_def hh_def)
    have k6: "same (s1\<lparr>async_list_head := qh\<rparr>) s6" using k5 s6(2) by (rule same_trans)
    have "n = 0 \<or> read32 (kmem s6) (qh + 136) = push_bit 16 (ucast (n AND 0x7FFF))"
      using build_control_data [OF len, of buf n B qh d "s\<lparr>pages := pg\<rparr>"] n(2) k6 by (auto simp: same_def s1_def)
    then have "usb_control_transfer B d (Some setup) buf n s = Some (0, ?fin s6)"
      using get g fl s3(1) s4(1) s5(1) s6(1) True no_residue(1) [OF n(1)] no_residue(2) [OF n(1), THEN arg_cong [where f = int]] keep
      by (auto simp: usb_control_transfer_def page s1_def [symmetric] qtd_token_def add.assoc Let_def) 
    then show thesis by (rule that) (use finish [OF k6] in \<open>simp_all add: hh_def qh_def\<close>)
  qed
qed

section \<open>Parsing a configuration\<close>

text \<open>What one descriptor of the device adds, on its bytes.\<close>

definition descriptor_seen :: "u8 list \<Rightarrow> bool \<times> usb_device_t \<Rightarrow> bool \<times> usb_device_t" where
  "descriptor_seen d fd =
    (let (found, dev) = fd in
     if d ! 1 = 4 \<and> 9 \<le> length d then
       (if take 3 (drop 5 d) = [8, 6, 0x50] then (True, dev\<lparr>iface_number := d ! 2\<rparr>) else fd)
     else if d ! 1 = 5 \<and> 7 \<le> length d \<and> found \<and> unat (d ! 3) mod 4 = 2 then
       let ep = \<lparr>addr = d ! 2, max_packet = le_join [d ! 4, d ! 5], attrs = d ! 3\<rparr> in
       (found, if unat (d ! 2) \<ge> 128 then dev\<lparr>bulk_in := ep\<rparr> else dev\<lparr>bulk_out := ep\<rparr>)
     else fd)"

definition descriptor :: "u8 list \<Rightarrow> bool" where
  "descriptor d \<longleftrightarrow> 2 \<le> length d \<and> length d < 256 \<and> unat (d ! 0) = length d"

lemma descriptor_step:
  assumes d: "descriptor d" and m: "bytes_at m ptr (length d) = d"
  shows "(if m (ptr + 1) = 0x04 \<and> m ptr \<ge> 9 then interface_seen m ptr fd
          else if m (ptr + 1) = 0x05 \<and> m ptr \<ge> 7 then endpoint_seen m ptr fd else fd) = descriptor_seen d fd"
proof -
  have byte: "m (ptr + of_nat i) = d ! i" if "i < length d" for i using m that nth_bytes_at [of i "length d" m ptr] by simp
  have len: "2 \<le> length d" "m ptr \<ge> 9 \<longleftrightarrow> 9 \<le> length d" "m ptr \<ge> 7 \<longleftrightarrow> 7 \<le> length d"
    using d byte [of 0] by (cases d; auto simp: descriptor_def word_le_nat_alt)+
  have b: "m (ptr + 1) = d ! 1" using byte [of 1] len(1) by simp
  have attr: "x AND 0x03 = 0x02 \<longleftrightarrow> unat x mod 4 = 2" "x AND 0x80 \<noteq> 0 \<longleftrightarrow> unat x \<ge> 128" for x :: u8
  proof -
    have "x AND 0x03 = take_bit 2 x" by (simp add: take_bit_eq_mask mask_eq_exp_minus_1)
    then show "x AND 0x03 = 0x02 \<longleftrightarrow> unat x mod 4 = 2" by (simp add: word_unat_eq_iff unat_mod take_bit_eq_mod)
    have "x AND 0x80 \<noteq> 0 \<longleftrightarrow> bit x 7" using and_exp_eq_0_iff_not_bit [of x 7] by simp
    moreover have "odd (k div 2 ^ 7) \<longleftrightarrow> 128 \<le> k" if "k < 2 ^ 8" for k :: nat
    proof -
      have "k div 2 ^ 7 = (if 128 \<le> k then 1 else 0)" using that by (auto intro: div_nat_eqI)
      then show ?thesis by simp
    qed
    moreover have "unat x < 2 ^ 8" using unsigned_less [of x] by simp
    ultimately show "x AND 0x80 \<noteq> 0 \<longleftrightarrow> unat x \<ge> 128" unfolding bit_iff_odd_unat by blast
  qed
  show ?thesis
  proof (cases "9 \<le> length d \<and> d ! 1 = 4")
    case True
    then have "take 3 (drop 5 d) = [d ! 5, d ! 6, d ! 7]" by (intro nth_equalityI) (auto simp: less_Suc_eq numeral_eq_Suc)
    then show ?thesis using True len b byte [of 5] byte [of 6] byte [of 7] byte [of 2]
      by (auto simp: interface_seen_def descriptor_seen_def USB_CLASS_MASS_STORAGE_def USB_SUBCLASS_SCSI_def USB_PROTOCOL_BULK_ONLY_def split: prod.split)
  next
    case False
    show ?thesis
    proof (cases "7 \<le> length d \<and> d ! 1 = 5")
      case True
      have "read16 m (ptr + 4) = le_join [d ! 4, d ! 5]"
        using True byte [of 4] byte [of 5] by (simp add: read16_def numeral_eq_Suc add.assoc)
      then show ?thesis using True False len b byte [of 2] byte [of 3]
        by (auto simp: endpoint_seen_def descriptor_seen_def attr Let_def split: prod.split)
    qed (use False len b in \<open>auto simp: descriptor_seen_def split: prod.split\<close>)
  qed
qed

lemma parse_all:
  assumes "list_all descriptor ds" "bytes_at m ptr (length (concat ds)) = concat ds" "unat ptr + length (concat ds) < 2 ^ 64"
  shows "parse_descriptors m (ptr + of_nat (length (concat ds))) ptr fd = Some (fold descriptor_seen ds fd)"
  using assms
proof (induction ds arbitrary: ptr fd)
  case Nil
  then show ?case by (simp add: parse_descriptors.simps)
next
  case (Cons d ds)
  let ?r = "concat ds" let ?p = "ptr + of_nat (length d)" let ?e = "ptr + of_nat (length (concat (d # ds)))"
  have d: "descriptor d" "list_all descriptor ds" using Cons.prems(1) by simp_all
  then have l: "2 \<le> length d" "unat (d ! 0) = length d" by (simp_all add: descriptor_def)
  have byte: "m (ptr + of_nat i) = concat (d # ds) ! i" if "i < length (concat (d # ds))" for i
    using Cons.prems(2) that nth_bytes_at [of i "length (concat (d # ds))" m ptr] by simp
  have md: "bytes_at m ptr (length d) = d" using byte by (auto simp: bytes_at_eq_iff nth_append)
  have rest: "bytes_at m ?p (length ?r) = ?r"
  proof -
    have "m (?p + of_nat i) = ?r ! i" if "i < length ?r" for i using byte [of "length d + i"] that by (simp add: nth_append add.assoc)
    then show ?thesis by (simp add: bytes_at_eq_iff)
  qed
  have m0: "m ptr = d ! 0" using byte [of 0] l by (cases d) auto
  have up: "unat ?p = unat ptr + length d" "unat ?e = unat ptr + length (concat (d # ds))"
    using Cons.prems(3) by (simp_all add: unat_word_ariths unat_of_nat_64)
  have step: "ptr + ucast (m ptr) = ?p" proof -
    have "(ucast (m ptr) :: u64) = of_nat (unat (m ptr))" by simp
    then show ?thesis using m0 l(2) by (simp only:)
  qed
  have "parse_descriptors m ?e ptr fd = parse_descriptors m ?e ?p (descriptor_seen d fd)"
  proof -
    have "ptr < ?e" "\<not> m ptr < 2" using up(2) l m0 by (auto simp: word_less_nat_alt)
    then show ?thesis using descriptor_step [OF d(1) md, of fd] unfolding step [symmetric]
      by (subst parse_descriptors.simps) (simp only: Let_def if_True if_False)
  qed
  also have "?e = ?p + of_nat (length ?r)" by simp
  also have "parse_descriptors m \<dots> ?p (descriptor_seen d fd) = Some (fold descriptor_seen ds (descriptor_seen d fd))"
    using Cons.prems(3) up(1) by (intro Cons.IH [OF d(2) rest]) simp
  finally show ?case by (simp add: add.assoc)
qed

lemma parse_ends:
  assumes "unat end_ptr + 256 \<le> 2 ^ 64"
  shows "\<exists>fd'. parse_descriptors m end_ptr ptr fd = Some fd'"
proof (induction "unat end_ptr - unat ptr" arbitrary: ptr fd rule: less_induct)
  case less
  show ?case
  proof (cases "ptr < end_ptr \<and> \<not> m ptr < 2")
    case True
    have b: "unat (m ptr) < 2 ^ 8" using unsigned_less [of "m ptr"] by simp
    then have "unat (ptr + ucast (m ptr)) = unat ptr + unat (m ptr)"
      using True assms by (simp add: unat_word_ariths unsigned_ucast_eq word_less_nat_alt take_bit_nat_eq_self)
    then have "unat end_ptr - unat (ptr + ucast (m ptr)) < unat end_ptr - unat ptr" using True by (auto simp: word_less_nat_alt)
    from less.hyps [OF this] show ?thesis using True by (subst parse_descriptors.simps) (simp add: Let_def)
  qed (subst parse_descriptors.simps, auto)+
qed

lemma parse_none:
  assumes "aligned 12 p"
  shows "parse_descriptors m p (p + 9) fd = Some fd"
proof -
  obtain k where "unat p = 4096 * k" using assms by (auto simp: aligned_def elim: dvdE)
  then have "unat p + 9 < 2 ^ 64" using unat_lt_2p64 [of p] by simp
  then have "\<not> p + 9 < p" unfolding word_less_nat_alt by (simp add: unat_word_ariths)
  then show ?thesis by (subst parse_descriptors.simps) simp
qed

lemma found_iff: "fst (fold descriptor_seen ds fd) \<longleftrightarrow> fst fd \<or> (\<exists>d\<in>set ds. d ! 1 = 4 \<and> 9 \<le> length d \<and> take 3 (drop 5 d) = [8, 6, 0x50])"
proof (induction ds arbitrary: fd)
  case (Cons d ds)
  have "fst (descriptor_seen d fd) \<longleftrightarrow> fst fd \<or> d ! 1 = 4 \<and> 9 \<le> length d \<and> take 3 (drop 5 d) = [8, 6, 0x50]"
    by (auto simp: descriptor_seen_def Let_def split: prod.split)
  then show ?case using Cons.IH by auto
qed simp

section \<open>The search\<close>

text \<open>The descriptor page, at frame \<open>f\<close>, holds zeros; the frame \<open>g\<close> is the next to be given out.\<close>

definition searching :: "'h board \<Rightarrow> u64 \<Rightarrow> u64 \<Rightarrow> u64 list \<Rightarrow> 'h ehci \<Rightarrow> bool" where
  "searching B f g fs s \<longleftrightarrow> CPU_clock_speed s = 0 \<and> pmm_inv (hhdm_offset (vm B)) (g # fs) (kmem s, pages s) \<and>
    (\<forall>x\<in>region (f + hhdm_offset (vm B)) 4096. kmem s x = 0)"

lemma searching_pid [simp]: "searching B f g fs (s\<lparr>pid_rn := n\<rparr>) = searching B f g fs s"
  by (simp add: searching_def)

lemma length_setup_packet [simp]: "length (setup_packet a b c d e) = 8"
  by (simp add: setup_packet_def)

lemma search_step:
  assumes B: "inert B" "\<forall>m h. \<not> bit (read32 m (g + hhdm_offset (vm B) + 24)) 7 \<longrightarrow> fst (dma B (m, h)) = m" "g \<noteq> 0"
    and f: "frame_ok (hhdm_offset (vm B)) f" "f \<noteq> g" and s: "searching B f g fs s" and n: "n < 0x8000" "buf \<noteq> 0 \<or> n = 0"
  shows "\<exists>rc s'. usb_control_transfer B d (Some (setup_packet p1 p2 p3 p4 p5)) buf n s = Some (rc, s') \<and> (rc = 0 \<or> rc = - 3) \<and> searching B f g fs s'"
proof -
  have s': "CPU_clock_speed s = 0" "pmm_inv (hhdm_offset (vm B)) (g # fs) (kmem s, pages s)" using s by (simp_all add: searching_def)
  have "disjoint_regions (g + hhdm_offset (vm B)) 4096 (f + hhdm_offset (vm B)) 4096"
    using pm.holds_ok [OF s'(2), of g] f by (intro pm.page_disjoint) auto
  then have apart: "x \<notin> region (g + hhdm_offset (vm B)) 4096" if "x \<in> region (f + hhdm_offset (vm B)) 4096" for x
    using that by (rule disjoint_regionsD)
  obtain rc s1 where 1: "usb_control_transfer B d (Some (setup_packet p1 p2 p3 p4 p5)) buf n s = Some (rc, s1)" "rc = 0 \<or> rc = - 3" "CPU_clock_speed s1 = 0"
    "pmm_inv (hhdm_offset (vm B)) (g # fs) (kmem s1, pages s1)" "\<And>x. x \<notin> region (g + hhdm_offset (vm B)) 4096 \<Longrightarrow> kmem s1 x = kmem s x"
    by (rule control_inert [OF B(1) s' B(3,2) length_setup_packet [of p1 p2 p3 p4 p5] n, of d]) blast
  have "searching B f g fs s1" using s apart 1 by (simp add: searching_def)
  with 1(1,2) show ?thesis by blast
qed

lemma search_begins:
  assumes "CPU_clock_speed s = 0" "pmm_inv (hhdm_offset (vm B)) (f # g # fs) (kmem s, pages s)"
  obtains pg where "get_page s = (f, s\<lparr>pages := pg\<rparr>)" "searching B f g fs (zero (f + hhdm_offset (vm B)) 4096 (s\<lparr>pages := pg, pid_rn := n\<rparr>))"
proof -
  let ?hh = "hhdm_offset (vm B)" let ?p = "f + ?hh"
  have f: "frame_ok ?hh f" "f \<notin> set (g # fs)" using pm.holds_ok [OF assms(2), of f] pm.holds_distinct [OF assms(2)] by auto
  obtain pg where get: "get_page s = (f, s\<lparr>pages := pg\<rparr>)" and pg: "pmm_inv ?hh (g # fs) (kmem s, pg)"
    using pm.alloc_frame [OF assms(2)] pm.alloc_rest [OF assms(2)] pm.alloc_mem [of "(kmem s, pages s)"]
    by (cases "palloc (kmem s, pages s)") (auto simp: get_page_def)
  define s0 where "s0 = zero ?p 4096 (s\<lparr>pages := pg, pid_rn := n\<rparr>)"
  have "searching B f g fs s0"
  proof -
    have "pmm_inv ?hh (g # fs) (kmem s0, pg)"
    proof (rule pm.holds_frame [OF pg])
      fix f' x assume x: "f' \<in> set (g # fs)" "x \<in> region (f' + ?hh) 4096"
      have "disjoint_regions ?p 4096 (f' + ?hh) 4096" using f pm.holds_ok [OF pg x(1)] x(1) by (intro pm.page_disjoint) auto
      then have "x \<notin> region ?p 4096" using x(2) by (rule disjoint_regionsD)
      then show "kmem s0 x = kmem s x" by (simp add: s0_def zero_def memset_spec)
    qed
    then show ?thesis using assms(1) by (simp add: searching_def s0_def zero_def memset_spec)
  qed
  with get show thesis unfolding s0_def by (rule that)
qed

lemma search_ends:
  assumes "searching B f g fs s" "frame_ok (hhdm_offset (vm B)) f" "f \<notin> set (g # fs)"
  shows "pmm_inv (hhdm_offset (vm B)) (f # g # fs) (kmem (give_page B f s), pages (give_page B f s))"
  using pm.release_push [of "hhdm_offset (vm B)" "g # fs" "(kmem s, pages s)" f] assms
  by (simp add: searching_def give_page_def case_prod_beta)

lemma search_address:
  assumes "inert B" "\<forall>m h. \<not> bit (read32 m (g + hhdm_offset (vm B) + 24)) 7 \<longrightarrow> fst (dma B (m, h)) = m" "g \<noteq> 0"
    and "frame_ok (hhdm_offset (vm B)) f" "f \<noteq> g" and "searching B f g fs s"
  shows "\<exists>rc s'. usb_set_address B a s = Some (rc, s') \<and> (rc = 0 \<or> rc = - 3) \<and> searching B f g fs s'"
proof -
  obtain rc s1 where 1: "usb_control_transfer B 0 (Some (setup_packet 0x00 USB_REQ_SET_ADDRESS (ucast a) 0 0)) 0 0 s = Some (rc, s1)"
    "rc = 0 \<or> rc = - 3" "searching B f g fs s1" using search_step [OF assms, of 0 0] by simp blast
  obtain s2 where 2: "delay B 2000 s1 = Some s2" "same s1 s2"
    by (rule delay_same [of B s1]) (use assms(1) 1(3) in \<open>simp_all add: searching_def\<close>)
  then have "searching B f g fs s2" using 1(3) by (simp add: searching_def same_def)
  then show ?thesis using 1 2 by (cases "rc = 0") (auto simp: usb_set_address_def)
qed

text \<open>The example passes no register block.\<close>

lemma sector0_always_fails: "read_sector0_example B dev n s = Some (- 1, s)"
  by (simp add: read_sector0_example_def pci_map_ehci_mmio_def)

section \<open>Properties\<close>

text \<open>
  C24. The loop over the descriptors of a configuration, on a buffer that holds whole descriptors (each
  at least two bytes long, with its length in the first byte) and does not wrap, returns. It has then looked at each
  of them in turn: it found a mass-storage interface exactly when one of them is an interface descriptor of class 8, subclass 6,
  protocol 50h, and the device has the number of the last such interface and the last bulk endpoints
  after the first of them. On a buffer with any contents that ends 256 bytes before the
  end of the address space the loop returns too.
\<close>
theorem configuration_parsed:
  assumes "list_all descriptor ds" "bytes_at m ptr (length (concat ds)) = concat ds" "unat ptr + length (concat ds) < 2 ^ 64"
  shows "parse_descriptors m (ptr + of_nat (length (concat ds))) ptr (False, dev) = Some (fold descriptor_seen ds (False, dev)) \<and>
    (fst (fold descriptor_seen ds (False, dev)) \<longleftrightarrow> (\<exists>d\<in>set ds. d ! 1 = 4 \<and> 9 \<le> length d \<and> take 3 (drop 5 d) = [8, 6, 0x50])) \<and>
    (\<forall>m end_ptr ptr. unat end_ptr + 256 \<le> 2 ^ 64 \<longrightarrow> parse_descriptors m end_ptr ptr (False, dev) \<noteq> None)"
  using parse_all [OF assms] found_iff [of ds "(False, dev)"] parse_ends by auto


text \<open>A stick with one interface and two bulk endpoints, in a buffer at 1000h.\<close>

definition sample_descriptors :: "u8 list list" where
  "sample_descriptors =
    [[9, 4, 3, 0, 2, 8, 6, 0x50, 0], [7, 5, 0x81, 2, 0, 2, 0], [7, 5, 2, 2, 0, 2, 0]]"

theorem configuration_parsed_witness:
  "\<exists>dev. parse_descriptors (store_bytes (\<lambda>_. 0) 0x1000 (concat sample_descriptors)) 0x1017 0x1000
      (False, \<lparr>address = 1, config_value = 1, bulk_in = \<lparr>addr = 0, max_packet = 0, attrs = 0\<rparr>, bulk_out = \<lparr>addr = 0, max_packet = 0, attrs = 0\<rparr>, iface_number = 0\<rparr>) =
      Some (True, dev) \<and> bulk_in dev = \<lparr>addr = 0x81, max_packet = 512, attrs = 2\<rparr> \<and> bulk_out dev = \<lparr>addr = 2, max_packet = 512, attrs = 2\<rparr> \<and> iface_number dev = 3"
proof -
  let ?m = "store_bytes (\<lambda>_. 0) 0x1000 (concat sample_descriptors)"
  let ?dev = "\<lparr>address = 1, config_value = 1, bulk_in = \<lparr>addr = 0, max_packet = 0, attrs = 0\<rparr>, bulk_out = \<lparr>addr = 0, max_packet = 0, attrs = 0\<rparr>, iface_number = 0\<rparr> :: usb_device_t"
  have "length (concat sample_descriptors) = 23" by (simp add: sample_descriptors_def)
  moreover have "list_all descriptor sample_descriptors" by (simp add: sample_descriptors_def descriptor_def)
  moreover have "bytes_at ?m 0x1000 23 = concat sample_descriptors" using calculation(1) by (intro bytes_at_store_bytes) simp_all
  moreover have "fold descriptor_seen sample_descriptors (False, ?dev) =
      (True, ?dev\<lparr>iface_number := 3, bulk_in := \<lparr>addr = 0x81, max_packet = 512, attrs = 2\<rparr>, bulk_out := \<lparr>addr = 2, max_packet = 512, attrs = 2\<rparr>\<rparr>)"
    by (simp add: sample_descriptors_def descriptor_seen_def)
  ultimately show ?thesis using configuration_parsed [of sample_descriptors ?m "0x1000" ?dev] by simp
qed

text \<open>A board whose frames 1000h and 2000h are free and whose controller does nothing.\<close>

definition sample_board :: "unit board" where
  "sample_board = \<lparr>ports = no_ports, clk = sample_clock, vm = \<lparr>hhdm_offset = 0, kernel_pml4 = 0x8000\<rparr>,
    regs = \<lparr>hread = \<lambda>a st. (0, st), hwrite = \<lambda>a v st. st\<rparr>, dma = \<lambda>st. st\<rparr>"

definition sample_usb :: "unit ehci" where
  "sample_usb = \<lparr>trace = [], tsc_reads = 1, CPU_clock_speed = 0, boot_tsc = 1, microdelay_mode = TSC_DELAY, pid_rn = 0,
    pages = \<lparr>pmm_total_pages = 2, pmm_free_pages = 2, free_mem_head = 0x1000\<rparr>,
    kmem = write64 (write64 (write64 (write64 (\<lambda>_. 0) 0x1000 0x1000) 0x1008 0x2000) 0x2000 0x2000) 0x2008 0, hw = (),
    ehci = 0xFEB00000, async_list_head = 0, async_list_head_phys = 0, global_tag = 0x1000\<rparr>"


end
