(* ===== verification/Boot.thy ===== *)
theory Boot
  imports Vmm
begin

text \<open>
  The memory managers as \<open>kernel_main\<close> starts them, and the self-tests of \<open>kernel/kernel.c\<close>. An access
  through a virtual address goes through the page tables, huge pages included: it faults (\<open>None\<close>) where there is no translation,
  and a write also where the entry is not writable. Physical memory is what the direct map shows.
\<close>

section \<open>Starting the memory managers\<close>

definition start_memory :: "u64 \<Rightarrow> u64 \<Rightarrow> memmap_entry list \<Rightarrow> vmm \<Rightarrow> mem \<Rightarrow> (vmm \<times> (mem \<times> pmm)) option" where
  "start_memory cr3 hhdm es v m =
    (let v = vmm_init cr3 (Some hhdm) v in case pmm_init hhdm es m of None \<Rightarrow> None | Some ms \<Rightarrow> Some (v, ms))"

section \<open>Accesses through the tables\<close>

text \<open>The bits below the page come from the virtual address: 12 for 4 KB, 21 for 2 MB, 30 for 1 GB.\<close>

definition va_addr :: "vmm \<Rightarrow> u64 \<times> nat \<Rightarrow> u64 \<Rightarrow> u64" where
  "va_addr v r virt = (case r of (e, l) \<Rightarrow> phys_to_virt v ((frame_of e AND NOT (mask (12 + 9 * l))) + (virt AND mask (12 + 9 * l))))"

definition va_read64 :: "vmm \<Rightarrow> mem \<Rightarrow> u64 \<Rightarrow> u64 option" where
  "va_read64 v m virt = map_option (\<lambda>r. read64 m (va_addr v r virt)) (translate v m virt)"

definition va_write64 :: "vmm \<Rightarrow> u64 \<Rightarrow> u64 \<Rightarrow> mem \<Rightarrow> mem option" where
  "va_write64 v virt x m =
    (case translate v m virt of None \<Rightarrow> None
     | Some r \<Rightarrow> if fst r AND PTE_WRITABLE \<noteq> 0 then Some (write64 m (va_addr v r virt) x) else None)"

section \<open>The self-tests\<close>

definition test_virt :: u64 where "test_virt = 0x1000000000"
definition test_phys :: u64 where "test_phys = 0x200000"
definition test_value :: u64 where "test_value = 0x1234567890ABCDEF"

text \<open>The verdict logged, and the memory afterwards.\<close>

definition vmm_test_mapping :: "vmm \<Rightarrow> mem \<times> pmm \<Rightarrow> (bool \<times> (mem \<times> pmm)) option" where
  "vmm_test_mapping v ms =
    (let (m, st) = map_page v test_virt test_phys (PTE_PRESENT OR PTE_WRITABLE) ms in
     case va_write64 v test_virt test_value m of None \<Rightarrow> None
     | Some m \<Rightarrow> (case va_read64 v m test_virt of None \<Rightarrow> None | Some val \<Rightarrow> Some (val = test_value, (m, st))))"

definition vmm_test_unmap :: "vmm \<Rightarrow> mem \<times> pmm \<Rightarrow> (bool \<times> (mem \<times> pmm)) option" where
  "vmm_test_unmap v ms =
    (case vmm_test_mapping v ms of None \<Rightarrow> None
     | Some (verdict, (m, st)) \<Rightarrow> Some (verdict, (unmap_page v test_virt m, st)))"

section \<open>Memory outside the tables\<close>

definition same_tables :: "vmm \<Rightarrow> mem \<Rightarrow> mem \<Rightarrow> bool" where
  "same_tables v m m' \<longleftrightarrow>
    (\<forall>p a x. path_ok p \<longrightarrow> table_at v m (kernel_pml4 v) p = Some a \<longrightarrow> x \<in> region a 4096 \<longrightarrow> m' x = m x)"

text \<open>A change of memory that leaves the pages of all tables alone changes neither the walk nor the invariant.\<close>

lemma same_tables_entry:
  "same_tables v m m' \<Longrightarrow> path_ok p \<Longrightarrow> table_at v m (kernel_pml4 v) p = Some a \<Longrightarrow> i < 512 \<Longrightarrow> get_entry m' a i = get_entry m a i"
  unfolding same_tables_def by (intro get_entry_cong) blast+

lemma same_tables_walk: "same_tables v m m' \<Longrightarrow> path_ok p \<Longrightarrow> table_at v m' (kernel_pml4 v) p = table_at v m (kernel_pml4 v) p"
proof (induction p rule: rev_induct)
  case (snoc i p)
  then have p: "path_ok p" "i < 512" by (simp_all add: path_ok_snoc)
  show ?case using snoc.IH [OF snoc.prems(1) p(1)] same_tables_entry [OF snoc.prems(1) p(1) _ p(2)]
    by (auto simp: table_at_snoc split: option.split)
qed simp

lemma same_tables_walks:
  assumes "same_tables v m m'"
  shows "path_ok q \<Longrightarrow> table_at v m (kernel_pml4 v) q = Some a \<Longrightarrow> \<forall>j \<in> set w. j < 512 \<Longrightarrow> length q + length w = 4 \<Longrightarrow> walk v m' a w = walk v m a w"
    and "path_ok q \<Longrightarrow> table_at v m (kernel_pml4 v) q = Some a \<Longrightarrow> \<forall>j \<in> set w. j < 512 \<Longrightarrow> length q + length w = 3 \<Longrightarrow>
      plain_path v m' a w = plain_path v m a w"
proof -
  show "walk v m' a w = walk v m a w"
    if "path_ok q" "table_at v m (kernel_pml4 v) q = Some a" "\<forall>j \<in> set w. j < 512" "length q + length w = 4"
    using that
  proof (induction w arbitrary: q a)
    case (Cons j w)
    have g: "get_entry m' a j = get_entry m a j" using same_tables_entry [OF assms Cons.prems(1,2)] Cons.prems(3) by simp
    have "walk v m' b w = walk v m b w" if "w \<noteq> []" "links (get_entry m a j)" "b = phys_to_virt v (frame_of (get_entry m a j))" for b
    proof (rule Cons.IH [of "q @ [j]"])
      have "0 < length w" using that(1) by blast
      then have "length q < 3" using Cons.prems(4) unfolding list.size by linarith
      then show "path_ok (q @ [j])" using Cons.prems by (simp add: path_ok_snoc)
    qed (use Cons.prems that in \<open>simp_all add: table_at_snoc\<close>)
    then show ?case using g by (simp add: Let_def links_def)
  qed simp
  show "plain_path v m' a w = plain_path v m a w"
    if "path_ok q" "table_at v m (kernel_pml4 v) q = Some a" "\<forall>j \<in> set w. j < 512" "length q + length w = 3"
    using that
  proof (induction w arbitrary: q a)
    case (Cons j w)
    have g: "get_entry m' a j = get_entry m a j" using same_tables_entry [OF assms Cons.prems(1,2)] Cons.prems(3) by simp
    have "plain_path v m' b w = plain_path v m b w" if "links (get_entry m a j)" "b = phys_to_virt v (frame_of (get_entry m a j))" for b
      using Cons.prems that by (intro Cons.IH [of "q @ [j]"]) (simp_all add: path_ok_snoc table_at_snoc)
    then show ?case using g by (auto simp: links_def plain_def)
  qed simp
qed

lemma same_tables_translate:
  assumes "same_tables v m m'"
  shows "translate v m' virt = translate v m virt" and "small_pages v m' virt = small_pages v m virt"
  using same_tables_walks [OF assms, of "[]"] indices_bound [of virt] by (simp_all add: translate_def small_pages_def path_ok_def)

lemma same_tables_inv: "same_tables v m m' \<Longrightarrow> vm_inv v fs m \<Longrightarrow> set fs' \<subseteq> set fs \<Longrightarrow> vm_inv v fs' m'"
  using same_tables_walk [of v m m'] unfolding vm_inv_def by (simp add: subset_iff) metis

text \<open>Changes inside the pages of some frames leave the tables alone when none of these frames is a table.\<close>

lemma changes_same_tables:
  assumes "vm_inv v fs' m" "\<And>p a. path_ok p \<Longrightarrow> table_at v m (kernel_pml4 v) p = Some a \<Longrightarrow> a - hhdm_offset v \<notin> F"
    and "\<forall>f \<in> F. aligned 12 (f + hhdm_offset v)" "changes_frames (hhdm_offset v) F m m'"
  shows "same_tables v m m'"
  unfolding same_tables_def
proof (intro allI impI)
  fix p a x assume p: "path_ok p" "table_at v m (kernel_pml4 v) p = Some a" and x: "x \<in> region a 4096"
  have a: "aligned 12 a" using vm_invD [OF assms(1) p] by blast
  have "x \<notin> region (f + hhdm_offset v) 4096" if f: "f \<in> F" for f
  proof -
    have "f + hhdm_offset v \<noteq> a" using assms(2) [OF p] f by auto
    then have "disjoint_regions (f + hhdm_offset v) 4096 a 4096"
      using a assms(3) f aligned_disjoint [of 12 "f + hhdm_offset v" a] by simp
    then show ?thesis using x by (rule disjoint_regionsD)
  qed
  then show "m' x = m x" using assms(4) by (simp add: changes_frames_def)
qed

lemma changes_pmm_inv:
  assumes "pmm_inv hhdm fs (m, st)" "set fs \<inter> F = {}" "\<forall>f \<in> F. aligned 12 (f + hhdm)" "changes_frames hhdm F m m'"
  shows "pmm_inv hhdm fs (m', st)"
proof (rule pmm_inv_frame [OF assms(1)])
  fix f x assume f: "f \<in> set fs" and x: "x \<in> region (f + hhdm) 4096"
  have "x \<notin> region (g + hhdm) 4096" if g: "g \<in> F" for g
  proof -
    have "aligned 12 (f + hhdm)" using assms(1) f by (auto simp: pmm_inv_def list_all_iff frame_page_aligned)
    moreover have "g + hhdm \<noteq> f + hhdm" using assms(2) f g by auto
    ultimately have "disjoint_regions (g + hhdm) 4096 (f + hhdm) 4096" using assms(3) g aligned_disjoint [of 12 "g + hhdm" "f + hhdm"] by simp
    then show ?thesis using x by (rule disjoint_regionsD)
  qed
  then show "m' x = m x" using assms(4) by (simp add: changes_frames_def)
qed

lemma write_changes_frame: "i < 512 \<Longrightarrow> changes_frames hhdm {f} m (write64 m (entry_addr (f + hhdm) i) x)"
  using set_entry_outside [of i _ "f + hhdm" m x] by (simp add: changes_frames_def set_entry_def)

section \<open>The tables of the boot loader\<close>

text \<open>No page serves as two tables, and no table lies in a frame of \<open>F\<close>.\<close>

definition distinct_tables :: "vmm \<Rightarrow> mem \<Rightarrow> bool" where
  "distinct_tables v m \<longleftrightarrow>
    (\<forall>p q a. path_ok p \<longrightarrow> path_ok q \<longrightarrow> table_at v m (kernel_pml4 v) p = Some a \<longrightarrow> table_at v m (kernel_pml4 v) q = Some a \<longrightarrow> p = q)"

definition tables_outside :: "vmm \<Rightarrow> u64 set \<Rightarrow> mem \<Rightarrow> bool" where
  "tables_outside v F m \<longleftrightarrow> (\<forall>p a. path_ok p \<longrightarrow> table_at v m (kernel_pml4 v) p = Some a \<longrightarrow> virt_to_phys v a \<notin> F)"

lemma root_aligned: "aligned 12 hhdm \<Longrightarrow> aligned 12 (kernel_pml4 (vmm_init cr3 (Some hhdm) v))"
proof -
  have "aligned 12 (cr3 AND NOT 0xFFF)" unfolding aligned_mask_iff by (rule bit_word_eqI) (auto simp: bit_simps mask_eq_exp_minus_1)
  then show "aligned 12 hhdm \<Longrightarrow> aligned 12 (kernel_pml4 (vmm_init cr3 (Some hhdm) v))"
    by (simp add: vmm_init_def phys_to_virt_def aligned_add)
qed

lemma table_aligned:
  assumes "aligned 12 (kernel_pml4 v)" "aligned 12 (hhdm_offset v)" "table_at v m (kernel_pml4 v) p = Some a"
  shows "aligned 12 a"
  using assms by (cases p rule: rev_cases) (auto simp: table_at_snoc phys_to_virt_def frame_of_aligned aligned_add split: option.splits if_splits)

lemma loader_tables_inv:
  assumes "aligned 12 hhdm" "v' = vmm_init cr3 (Some hhdm) v" "distinct_tables v' m" "tables_outside v' (set fs) m" "\<forall>f \<in> set fs. frame_of f = f"
  shows "vm_inv v' fs m"
proof -
  have "aligned 12 (hhdm_offset v')" "aligned 12 (kernel_pml4 v')"
    using assms(1,2) root_aligned [OF assms(1), of cr3 v] by (simp_all add: vmm_init_def Let_def)
  then have "aligned 12 a" if "table_at v' m (kernel_pml4 v') p = Some a" for p a using table_aligned that by blast
  with assms(3-5) show ?thesis unfolding vm_inv_def distinct_tables_def tables_outside_def virt_to_phys_def by blast
qed

section \<open>Properties\<close>

text \<open>
  C1. Starting the memory managers keeps the tables of the boot loader. Suppose no page serves as two of these tables, none of them lies in
  usable memory, and usable memory lies below 2 to the 52; huge pages are allowed. Then \<open>start_memory\<close> returns, all usable frames are free, the
  tables still satisfy the invariant of the virtual memory manager and every address translates as before.
  From then on \<open>map_page\<close> adds exactly the requested translation to those of the boot loader, for addresses whose path has no huge page.
\<close>
theorem memory_after_boot:
  assumes "aligned 12 hhdm" "\<forall>e \<in> set es. me_type e = LIMINE_MEMMAP_USABLE \<longrightarrow> entry_ok e"
    and "\<forall>f \<in> set (usable_frames es). f + hhdm \<noteq> 0 \<and> frame_of f = f" "distinct (usable_frames es)" "3 \<le> length (usable_frames es)"
    and "v' = vmm_init cr3 (Some hhdm) v" "distinct_tables v' m" "tables_outside v' (set (usable_frames es)) m"
  shows "\<exists>m1 st1. start_memory cr3 hhdm es v m = Some (v', (m1, st1)) \<and>
    pmm_inv hhdm (rev (usable_frames es)) (m1, st1) \<and> vm_inv v' (usable_frames es) m1 \<and>
    (\<forall>a. translate v' m1 a = translate v' m a) \<and>
    (\<forall>virt phys flags m2 st2. small_pages v' m virt \<and> map_page v' virt phys flags (m1, st1) = (m2, st2) \<longrightarrow>
      (\<forall>a. translate v' m2 a =
        (if take_bit 36 (drop_bit 12 a) = take_bit 36 (drop_bit 12 virt) then Some (phys OR flags OR PTE_PRESENT, 0) else translate v' m a)))"
proof -
  have nz: "\<forall>f \<in> set (usable_frames es). f + hhdm \<noteq> 0" using assms(3) by blast
  obtain ms where ms: "pmm_init hhdm es m = Some ms" "pmm_inv hhdm (rev (usable_frames es)) ms"
    "changes_frames hhdm (set (usable_frames es)) m (fst ms)" by (rule pmm_init_spec [OF assms(1,2) nz assms(4)])
  obtain m1 st1 where m1: "ms = (m1, st1)" by (cases ms)
  have h: "hhdm_offset v' = hhdm" using assms(6) by (simp add: vmm_init_def Let_def)
  have vm0: "vm_inv v' (usable_frames es) m" using assms(3) by (intro loader_tables_inv [OF assms(1,6-8)]) blast
  have "\<forall>f \<in> set (usable_frames es). aligned 12 (f + hhdm)" using ms(2) by (auto simp: pmm_inv_def list_all_iff frame_page_aligned)
  then have same: "same_tables v' m m1"
    using changes_same_tables [OF vm0 vm_invD(2) [OF vm0]] ms(3) m1 h by simp
  have vm: "vm_inv v' (usable_frames es) m1" "vm_inv v' (rev (usable_frames es)) m1"
    using same_tables_inv [OF same vm0] by simp_all
  note tr = same_tables_translate [OF same]
  have "translate v' m2 a = (if same_page a virt then Some (phys OR flags OR PTE_PRESENT, 0) else translate v' m a)"
    if "small_pages v' m virt" "map_page v' virt phys flags (m1, st1) = (m2, st2)" for virt phys flags m2 st2 a
  proof -
    have "pmm_inv (hhdm_offset v') (rev (usable_frames es)) (m1, st1)" using ms(2) m1 h by simp
    from map_page_spec [OF this vm(2) _ _ that(2)] that(1) assms(5) tr show ?thesis by (metis length_rev)
  qed
  then show ?thesis using ms m1 vm(1) tr assms(6) by (auto simp: start_memory_def Let_def same_page_iff)
qed

text \<open>
  A memory map with three usable frames, and tables of a boot loader behind them: the root at 10000h, whose entry 256 leads to a table at 11000h,
  whose first entry is the first gigabyte of the direct map as one huge page.
\<close>

definition boot_map :: "memmap_entry list" where
  "boot_map = [\<lparr>me_base = 0x1000, me_length = 0x3000, me_type = 0\<rparr>, \<lparr>me_base = 0x9000, me_length = 0x1000, me_type = 1\<rparr>]"

definition loader_memory :: mem where
  "loader_memory = set_entry (set_entry (\<lambda>_. 0) 0xFFFF800000010000 256 0x11003) 0xFFFF800000011000 0 0x83"

lemma boot_map_frames: "usable_frames boot_map = [0x1000, 0x2000, 0x3000]"
  by (simp add: boot_map_def usable_frames_def entry_frames_def LIMINE_MEMMAP_USABLE_def ALIGN_UP_def ALIGN_DOWN_def PAGE_SIZE_def upt_rec)

lemma loader_entries:
  assumes "j < 512"
  shows "get_entry loader_memory 0xFFFF800000010000 j = (if j = 256 then 0x11003 else 0)"
    and "get_entry loader_memory 0xFFFF800000011000 j = (if j = 0 then 0x83 else 0)"
proof -
  have z: "get_entry (\<lambda>_. 0) t j = 0" for t using assms by (intro get_entry_zeroed) simp_all
  have a: "aligned 12 (0xFFFF800000010000 :: u64)" "aligned 12 (0xFFFF800000011000 :: u64)" by (simp_all add: aligned_def)
  show "get_entry loader_memory 0xFFFF800000010000 j = (if j = 256 then 0x11003 else 0)"
    "get_entry loader_memory 0xFFFF800000011000 j = (if j = 0 then 0x83 else 0)"
    using assms a z by (auto simp: loader_memory_def get_set_entry get_set_entry_other)
qed

lemma loader_tables:
  assumes "path_ok p" "table_at sample_vmm loader_memory (kernel_pml4 sample_vmm) p = Some a"
  shows "p = [] \<and> a = 0xFFFF800000010000 \<or> p = [256] \<and> a = 0xFFFF800000011000"
proof -
  have r: "kernel_pml4 sample_vmm = 0xFFFF800000010000" "phys_to_virt sample_vmm (frame_of 0x11003) = 0xFFFF800000011000"
    by (simp_all add: sample_vmm_def phys_to_virt_def frame_of_def)
  have l: "links 0x11003" "\<not> links 0x83" by (simp_all add: links_def huge_def present_def PTE_HUGE_def PTE_PRESENT_def)
  show ?thesis
  proof (cases p)
    case (Cons i q)
    then have "i < 512" using assms(1) by (simp add: path_ok_def)
    then have q: "i = 256" "table_at sample_vmm loader_memory 0xFFFF800000011000 q = Some a"
      using assms(2) loader_entries(1) [of i] r l Cons by (auto split: if_splits)
    have "q = []"
    proof (cases q)
      case (Cons j q')
      then have "j < 512" using assms(1) \<open>p = i # q\<close> by (simp add: path_ok_def)
      then show ?thesis using q(2) loader_entries(2) [of j] l Cons by (auto split: if_splits)
    qed simp
    with q Cons show ?thesis by simp
  qed (use assms r in auto)
qed

theorem memory_after_boot_witness:
  "\<exists>m1 st1. start_memory 0x10003 0xFFFF800000000000 boot_map \<lparr>hhdm_offset = 0, kernel_pml4 = 0\<rparr> loader_memory = Some (sample_vmm, (m1, st1)) \<and>
    pmm_inv 0xFFFF800000000000 [0x3000, 0x2000, 0x1000] (m1, st1) \<and> translate sample_vmm m1 0xFFFF800012345678 = Some (0x83, 2)"
proof -
  have v: "sample_vmm = vmm_init 0x10003 (Some 0xFFFF800000000000) \<lparr>hhdm_offset = 0, kernel_pml4 = 0\<rparr>"
    by (simp add: sample_vmm_def vmm_init_def phys_to_virt_def Let_def)
  have es: "\<forall>e \<in> set boot_map. me_type e = LIMINE_MEMMAP_USABLE \<longrightarrow> entry_ok e"
    by (simp add: boot_map_def entry_ok_def LIMINE_MEMMAP_USABLE_def)
  have d: "distinct_tables sample_vmm loader_memory" unfolding distinct_tables_def by (auto dest!: loader_tables)
  have o: "tables_outside sample_vmm (set (usable_frames boot_map)) loader_memory"
    unfolding tables_outside_def boot_map_frames by (auto dest!: loader_tables simp: virt_to_phys_def) (simp_all add: sample_vmm_def)
  have f: "\<forall>f \<in> set (usable_frames boot_map). f + 0xFFFF800000000000 \<noteq> 0 \<and> frame_of f = f" by (simp add: boot_map_frames frame_of_def)
  have "translate sample_vmm loader_memory 0xFFFF800012345678 = Some (0x83, 2)"
    using loader_entries(1) [of 256] loader_entries(2) [of 0]
    by (simp add: translate_def indices_def PML4_INDEX_def PDPT_INDEX_def sample_vmm_def phys_to_virt_def frame_of_def
        present_def huge_def PTE_PRESENT_def PTE_HUGE_def Let_def)
  with memory_after_boot [OF _ es f _ _ v d o] show ?thesis by (auto simp: boot_map_frames aligned_def)
qed

text \<open>
  C2. The self-tests succeed and leave both managers in order when the frame they use, which they do not take from the
  allocator, is neither free nor a table, and no huge page lies on the path of their address: the value written through the new mapping is
  read back, and after the second test the page has no translation and every other page the one it had.
\<close>
theorem vmm_self_tests_pass:
  assumes "pmm_inv (hhdm_offset v) fs (m, st)" "vm_inv v (test_phys # fs) m" "small_pages v m test_virt" "test_phys \<notin> set fs" "3 \<le> length fs"
  shows "\<exists>m1 m2 st' fs'. vmm_test_mapping v (m, st) = Some (True, (m1, st')) \<and> vmm_test_unmap v (m, st) = Some (True, (m2, st')) \<and>
    pmm_inv (hhdm_offset v) fs' (m2, st') \<and> vm_inv v fs' m2 \<and> set fs' \<subseteq> set fs \<and> translate v m2 test_virt = None \<and>
    (\<forall>a. take_bit 36 (drop_bit 12 a) \<noteq> take_bit 36 (drop_bit 12 test_virt) \<longrightarrow> translate v m2 a = translate v m a)"
proof -
  let ?h = "hhdm_offset v" and ?fl = "PTE_PRESENT OR PTE_WRITABLE" and ?e = "test_phys OR (PTE_PRESENT OR PTE_WRITABLE) OR PTE_PRESENT"
  obtain m0 st' where m0: "map_page v test_virt test_phys ?fl (m, st) = (m0, st')" by fastforce
  have vm: "vm_inv v fs m" using assms(2) by (auto simp: vm_inv_def)
  obtain fs' where s: "\<And>a. translate v m0 a = (if same_page a test_virt then Some (?e, 0) else translate v m a)" "small_pages v m0 test_virt"
    "pmm_inv ?h fs' (m0, st')" "vm_inv v fs' m0" "set fs' \<subseteq> set fs"
    "\<And>q a. path_ok q \<Longrightarrow> table_at v m0 (kernel_pml4 v) q = Some a \<Longrightarrow> table_at v m (kernel_pml4 v) q = Some a \<or> a - ?h \<in> set fs"
    by (rule map_page_spec [OF assms(1) vm assms(3,5) m0]) (use assms(3) in blast)
  define m1 where "m1 = write64 m0 (test_phys + ?h) test_value"
  have al: "aligned 12 (test_phys + ?h)" using assms(1) by (intro aligned_add) (simp_all add: pmm_inv_def test_phys_def aligned_def)
  have ch: "changes_frames ?h {test_phys} m0 m1" using write_changes_frame [of 0 ?h test_phys m0 test_value] by (simp add: m1_def entry_addr_def)
  have "a - ?h \<noteq> test_phys" if "path_ok q" "table_at v m0 (kernel_pml4 v) q = Some a" for q a
    using s(6) [OF that] vm_invD(2) [OF assms(2) that(1)] assms(4) by auto
  then have same: "same_tables v m0 m1" using changes_same_tables [OF s(4) _ _ ch] al by simp
  have pm: "pmm_inv ?h fs' (m1, st')" using changes_pmm_inv [OF s(3) _ _ ch] al assms(4) s(5) by auto
  have vm1: "vm_inv v fs' m1" using same_tables_inv [OF same s(4)] by simp
  have sm: "small_pages v m1 test_virt" using same_tables_translate(2) [OF same] s(2) by simp
  have t: "translate v m0 test_virt = Some (?e, 0)" "translate v m1 test_virt = Some (?e, 0)"
    using s(1) [of test_virt] same_tables_translate(1) [OF same, of test_virt] by (simp_all add: same_page_def)
  have e: "?e AND PTE_WRITABLE \<noteq> 0" "va_addr v (?e, 0) test_virt = test_phys + ?h"
    by (simp_all add: PTE_WRITABLE_def PTE_PRESENT_def va_addr_def frame_of_def test_phys_def test_virt_def phys_to_virt_def mask_eq_exp_minus_1)
  have "vmm_test_mapping v (m, st) = Some (True, (m1, st'))"
    using m0 t e by (simp add: vmm_test_mapping_def va_write64_def va_read64_def m1_def [symmetric]) (simp add: m1_def mem_simps)
  then show ?thesis
    using unmap_page_spec [OF pm vm1 sm] s(1,5) same_tables_translate(1) [OF same]
    by (intro exI [of _ m1] exI [of _ "unmap_page v test_virt m1"] exI [of _ st'] exI [of _ fs'])
      (auto simp: vmm_test_unmap_def same_page_iff)
qed

theorem vmm_self_tests_pass_witness:
  "\<exists>m2 st'. vmm_test_unmap sample_vmm sample_frames = Some (True, (m2, st')) \<and> translate sample_vmm m2 test_virt = None"
proof -
  obtain m st where s: "sample_frames = (m, st)" by fastforce
  note start = sample_start [of "[test_phys, 0x1000, 0x2000, 0x3000]", unfolded s fst_conv]
  from vmm_self_tests_pass [OF start(1,2,3)] show ?thesis unfolding s by (auto simp: test_phys_def)
qed

end
