(* ===== verification/RvVm.thy ===== *)
theory RvVm
  imports Prelude
begin

text \<open>
  The emulator of a 32-bit RISC-V processor (\<open>drivers/emul/rv_vm.h/rv_vm.h\<close>). The functions of the embedding
  program that read and write its memory and serve its calls are parameters, which may change the
  whole machine. Signed arithmetic wraps around, as the machine code does; a shift by 32 or more, a division by zero and an access
  behind an array are outcomes of their own.
\<close>

section \<open>The machine\<close>

record 'm rvvm =
  xregs :: "u32 list"
  ip :: u32
  stval :: u32
  env :: 'm

text \<open>A reading function returns its code and the bytes it stored, a writing function its code.\<close>

record 'm hooks =
  read_hook :: "u32 \<Rightarrow> nat \<Rightarrow> 'm rvvm \<Rightarrow> (int \<times> u8 list) \<times> 'm rvvm"
  write32_hook :: "u32 \<Rightarrow> u32 \<Rightarrow> nat \<Rightarrow> 'm rvvm \<Rightarrow> int \<times> 'm rvvm"
  on_syscall :: "'m rvvm \<Rightarrow> int \<times> 'm rvvm"
  on_breakpoint :: "'m rvvm \<Rightarrow> int \<times> 'm rvvm"

definition on_environ :: "'m hooks \<Rightarrow> nat \<Rightarrow> 'm rvvm \<Rightarrow> int \<times> 'm rvvm" where
  "on_environ H i = (if i = 0 then on_syscall H else on_breakpoint H)"

datatype rv_result = Returns int | Panics | Undefined

definition RV_VM_ERR_NON32_BIT :: int where "RV_VM_ERR_NON32_BIT = 1"
definition RV_VM_ERR_UNSUP_OPCODE :: int where "RV_VM_ERR_UNSUP_OPCODE = 2"

section \<open>Fields of an instruction\<close>

definition rv_get_inst_len16 :: "u32 \<Rightarrow> u32" where
  "rv_get_inst_len16 tag =
    (if tag AND 0x3 \<noteq> 0x3 then 1
     else if drop_bit 2 tag AND 0x7 \<noteq> 0x7 then 2
     else if drop_bit 5 tag AND 0x1 \<noteq> 0x1 then 4
     else 0)"

definition RV_R32_OP :: "u32 \<Rightarrow> u32" where "RV_R32_OP dword = dword AND 0x7f"
definition RV_R32_RD :: "u32 \<Rightarrow> u32" where "RV_R32_RD dword = drop_bit 7 dword AND 0x1f"
definition RV_R32_R1 :: "u32 \<Rightarrow> u32" where "RV_R32_R1 dword = drop_bit 15 dword AND 0x1f"
definition RV_R32_R2 :: "u32 \<Rightarrow> u32" where "RV_R32_R2 dword = drop_bit 20 dword AND 0x1f"
definition RV_R32_IMM_U :: "u32 \<Rightarrow> u32" where "RV_R32_IMM_U dword = signed_drop_bit 12 dword"
definition RV_R32_IMM_I :: "u32 \<Rightarrow> u32" where "RV_R32_IMM_I dword = signed_drop_bit 20 dword"
definition RV_R32_IMM_S :: "u32 \<Rightarrow> u32" where
  "RV_R32_IMM_S dword = (signed_drop_bit 7 dword AND 0x1f) OR push_bit 5 (signed_drop_bit 25 dword)"
definition RV_R32_IMM_B :: "u32 \<Rightarrow> u32" where
  "RV_R32_IMM_B dword =
    signed_drop_bit 20 (push_bit 20
      ((signed_drop_bit 7 dword AND 0x1e) OR
       push_bit 5 (signed_drop_bit 25 dword AND 0x3f) OR
       push_bit 11 (signed_drop_bit 7 dword AND 0x1) OR
       push_bit 12 (signed_drop_bit 30 dword AND 0x1)))"
definition RV_R32_IMM_J :: "u32 \<Rightarrow> u32" where
  "RV_R32_IMM_J dword =
    (let imm = signed_drop_bit 12 dword;
         a = signed_drop_bit 9 imm AND 0x3ff;
         b = signed_drop_bit 8 imm AND 0x1;
         c = signed_drop_bit 0 imm AND 0xff;
         d = signed_drop_bit 19 imm
     in push_bit 20 d OR push_bit 12 c OR push_bit 11 b OR push_bit 1 a)"
definition RV_R32_FUNCT3 :: "u32 \<Rightarrow> u32" where "RV_R32_FUNCT3 dword = drop_bit 12 dword AND 0x7"
definition RV_R32_FUNCT7 :: "u32 \<Rightarrow> u32" where "RV_R32_FUNCT7 dword = drop_bit 25 dword AND 0x7f"

definition RV_IMM_INT_MATH_OP :: u32 where "RV_IMM_INT_MATH_OP = 0x13"
definition RV_REG_INT_MATH_OP :: u32 where "RV_REG_INT_MATH_OP = 0x33"
definition RV_STORE_OP :: u32 where "RV_STORE_OP = 0x23"
definition RV_LUI_OP :: u32 where "RV_LUI_OP = 0x37"
definition RV_AUIPC_OP :: u32 where "RV_AUIPC_OP = 0x17"
definition RV_LOAD_OP :: u32 where "RV_LOAD_OP = 0x03"
definition RV_BRANCH_OP :: u32 where "RV_BRANCH_OP = 0x63"
definition RV_JAL_OP :: u32 where "RV_JAL_OP = 0x6f"
definition RV_JALR_OP :: u32 where "RV_JALR_OP = 0x67"
definition RV_ENVIRONMENT_OP :: u32 where "RV_ENVIRONMENT_OP = 0x73"

section \<open>Execution\<close>

definition xreg :: "'m rvvm \<Rightarrow> u32 \<Rightarrow> u32" where "xreg vm r = xregs vm ! unat r"

definition set_xreg :: "u32 \<Rightarrow> u32 \<Rightarrow> 'm rvvm \<Rightarrow> 'm rvvm" where
  "set_xreg r v vm = vm\<lparr>xregs := (xregs vm)[unat r := v]\<rparr>"

definition of_bool32 :: "bool \<Rightarrow> u32" where "of_bool32 b = (if b then 1 else 0)"

definition imm_math :: "u32 \<Rightarrow> u32 \<Rightarrow> u32 \<Rightarrow> u32" where
  "imm_math funct3 a b =
    (if funct3 = 0x0 then a + b
     else if funct3 = 0x1 then push_bit (unat (b AND 0x1f)) a
     else if funct3 = 0x2 then of_bool32 (sint a < sint b)
     else if funct3 = 0x3 then of_bool32 (a < b)
     else if funct3 = 0x4 then a XOR b
     else if funct3 = 0x5 then
       (if signed_drop_bit 5 b = 0x20 then signed_drop_bit (unat (b AND 0x1f)) a else drop_bit (unat (b AND 0x1f)) a)
     else if funct3 = 0x6 then a OR b
     else a AND b)"

datatype math_result = Value u32 | Unsupported | Undef

definition checked_shift :: "(nat \<Rightarrow> u32 \<Rightarrow> u32) \<Rightarrow> u32 \<Rightarrow> u32 \<Rightarrow> math_result" where
  "checked_shift f a b = (if b < 32 then Value (f (unat b) a) else Undef)"

definition reg_math :: "u32 \<Rightarrow> u32 \<Rightarrow> u32 \<Rightarrow> math_result" where
  "reg_math key a b =
    (if key = 0x000 then Value (a + b)
     else if key = 0x001 then checked_shift push_bit a b
     else if key = 0x002 then Value (of_bool32 (sint a < sint b))
     else if key = 0x003 then Value (of_bool32 (a < b))
     else if key = 0x004 then Value (a XOR b)
     else if key = 0x005 then checked_shift drop_bit a b
     else if key = 0x006 then Value (a OR b)
     else if key = 0x007 then Value (a AND b)
     else if key = 0x010 then Value (a * b)
     else if key = 0x015 then (if b = 0 then Undef else Value (a div b))
     else if key = 0x017 then (if b = 0 then Undef else Value (a mod b))
     else if key = 0x200 then Value (a - b)
     else if key = 0x205 then checked_shift signed_drop_bit a b
     else Unsupported)"

definition branch_taken :: "u32 \<Rightarrow> u32 \<Rightarrow> u32 \<Rightarrow> bool" where
  "branch_taken funct3 rs1 rs2 =
    (let res = (if funct3 div 2 = 0 then rs1 = rs2
                else if funct3 div 2 = 1 then False
                else if funct3 div 2 = 2 then sint rs1 < sint rs2
                else rs1 < rs2)
     in if funct3 AND 0x1 \<noteq> 0 then \<not> res else res)"

definition next_ip :: "'m rvvm \<Rightarrow> rv_result \<times> 'm rvvm" where
  "next_ip vm = (Returns 0, vm\<lparr>ip := ip vm + 4\<rparr>)"

definition rv_store :: "'m hooks \<Rightarrow> u32 \<Rightarrow> 'm rvvm \<Rightarrow> rv_result \<times> 'm rvvm" where
  "rv_store H inst vm =
    (let shift = unat (RV_R32_FUNCT3 inst mod 4); byte_size = 2 ^ shift; masks = [0xFF, 0xFFFF, 0xFFFFFFFF] in
     if shift = 3 then (Undefined, vm) else
     let (e, vm) = write32_hook H (xreg vm (RV_R32_R1 inst) + RV_R32_IMM_S inst) (xreg vm (RV_R32_R2 inst) AND masks ! shift) byte_size vm
     in if e < 0 then (Returns e, vm) else next_ip vm)"

text \<open>The mask computed for the sign extension is an unsigned number, so its shift to the right leaves one bit.\<close>

definition rv_load :: "'m hooks \<Rightarrow> u32 \<Rightarrow> 'm rvvm \<Rightarrow> rv_result \<times> 'm rvvm" where
  "rv_load H inst vm =
    (let shift = unat (RV_R32_FUNCT3 inst mod 4); byte_size = 2 ^ shift;
         sign_extend = ((4 - of_nat byte_size) * 8) AND drop_bit 31 (push_bit 31 (drop_bit 2 (RV_R32_FUNCT3 inst AND 0x4)))
     in if shift = 3 then (Undefined, vm) else
     let ((e, bytes), vm) = read_hook H (xreg vm (RV_R32_R1 inst) + RV_R32_IMM_I inst) byte_size vm
     in if e < 0 then (Returns e, vm) else
     let data = le_join (take 4 bytes);
         data = signed_drop_bit (unat (sign_extend * 8)) (push_bit (unat (sign_extend * 8)) data)
     in next_ip (set_xreg (RV_R32_RD inst) data vm))"

definition rv_environment :: "'m hooks \<Rightarrow> u32 \<Rightarrow> 'm rvvm \<Rightarrow> rv_result \<times> 'm rvvm" where
  "rv_environment H inst vm =
    (if RV_R32_FUNCT3 inst = 0 \<and> RV_R32_IMM_I inst < 2 then
       let vm = vm\<lparr>ip := ip vm + 4\<rparr>; (e, vm) = on_environ H (unat (RV_R32_IMM_I inst)) vm in (Returns e, vm)
     else (Returns (- RV_VM_ERR_UNSUP_OPCODE), vm))"

definition rv_execute :: "'m hooks \<Rightarrow> u32 \<Rightarrow> 'm rvvm \<Rightarrow> rv_result \<times> 'm rvvm" where
  "rv_execute H inst vm =
    (let opc = RV_R32_OP inst in
     if opc = RV_IMM_INT_MATH_OP then
       next_ip (set_xreg (RV_R32_RD inst) (imm_math (RV_R32_FUNCT3 inst) (xreg vm (RV_R32_R1 inst)) (RV_R32_IMM_I inst)) vm)
     else if opc = RV_REG_INT_MATH_OP then
       (case reg_math (push_bit 4 (RV_R32_FUNCT7 inst) OR RV_R32_FUNCT3 inst) (xreg vm (RV_R32_R1 inst)) (xreg vm (RV_R32_R2 inst)) of
          Value c \<Rightarrow> next_ip (set_xreg (RV_R32_RD inst) c vm)
        | Unsupported \<Rightarrow> (Panics, vm)
        | Undef \<Rightarrow> (Undefined, vm))
     else if opc = RV_STORE_OP then rv_store H inst vm
     else if opc = RV_LOAD_OP then rv_load H inst vm
     else if opc = RV_LUI_OP then next_ip (set_xreg (RV_R32_RD inst) (push_bit 12 (RV_R32_IMM_U inst)) vm)
     else if opc = RV_AUIPC_OP then next_ip (set_xreg (RV_R32_RD inst) (ip vm + push_bit 12 (RV_R32_IMM_U inst)) vm)
     else if opc = RV_BRANCH_OP then
       next_ip (if branch_taken (RV_R32_FUNCT3 inst) (xreg vm (RV_R32_R1 inst)) (xreg vm (RV_R32_R2 inst))
                then vm\<lparr>ip := ip vm + (RV_R32_IMM_B inst - 4)\<rparr> else vm)
     else if opc = RV_JAL_OP then
       (let vm = set_xreg (RV_R32_RD inst) (ip vm + 4) vm in next_ip (vm\<lparr>ip := ip vm + (RV_R32_IMM_J inst - 4)\<rparr>))
     else if opc = RV_JALR_OP then
       (let vm = set_xreg (RV_R32_RD inst) (ip vm + 4) vm in next_ip (vm\<lparr>ip := xreg vm (RV_R32_R1 inst) + RV_R32_IMM_I inst - 4\<rparr>))
     else if opc = RV_ENVIRONMENT_OP then rv_environment H inst vm
     else (Returns (- RV_VM_ERR_UNSUP_OPCODE), vm))"

definition rv_vm_step :: "'m hooks \<Rightarrow> 'm rvvm \<Rightarrow> rv_result \<times> 'm rvvm" where
  "rv_vm_step H vm =
    (let vm = set_xreg 0 0 vm;
         ((e, ipbuf), vm) = read_hook H (ip vm) 4 vm
     in if e < 0 then (Returns e, vm) else
     let inst = le_join (take 4 ipbuf) in
     if rv_get_inst_len16 inst \<noteq> 2 then (Returns (- RV_VM_ERR_NON32_BIT), vm)
     else rv_execute H inst vm)"

end
