(* ===== verification/RvEncode.thy ===== *)
theory RvEncode
  imports RvVm
begin

text \<open>
  The instruction formats of the RISC-V manual, and what the emulator's field macros read from them.
\<close>

section \<open>Encoding\<close>

text \<open>The formats of the instruction set manual.\<close>

definition enc_R :: "7 word \<Rightarrow> 3 word \<Rightarrow> 7 word \<Rightarrow> 5 word \<Rightarrow> 5 word \<Rightarrow> 5 word \<Rightarrow> u32" where
  "enc_R opc f3 f7 rd r1 r2 = ucast opc OR push_bit 7 (ucast rd) OR push_bit 12 (ucast f3) OR push_bit 15 (ucast r1) OR push_bit 20 (ucast r2) OR push_bit 25 (ucast f7)"

definition enc_I :: "7 word \<Rightarrow> 3 word \<Rightarrow> 5 word \<Rightarrow> 5 word \<Rightarrow> 12 word \<Rightarrow> u32" where
  "enc_I opc f3 rd r1 imm = ucast opc OR push_bit 7 (ucast rd) OR push_bit 12 (ucast f3) OR push_bit 15 (ucast r1) OR push_bit 20 (ucast imm)"

definition enc_S :: "7 word \<Rightarrow> 3 word \<Rightarrow> 5 word \<Rightarrow> 5 word \<Rightarrow> 12 word \<Rightarrow> u32" where
  "enc_S opc f3 r1 r2 imm = ucast opc OR push_bit 7 (take_bit 5 (ucast imm)) OR push_bit 12 (ucast f3) OR push_bit 15 (ucast r1) OR push_bit 20 (ucast r2) OR
    push_bit 25 (drop_bit 5 (ucast imm))"

definition enc_B :: "7 word \<Rightarrow> 3 word \<Rightarrow> 5 word \<Rightarrow> 5 word \<Rightarrow> 12 word \<Rightarrow> u32" where
  "enc_B opc f3 r1 r2 off = ucast opc OR push_bit 7 (take_bit 1 (drop_bit 10 (ucast off))) OR push_bit 8 (take_bit 4 (ucast off)) OR push_bit 12 (ucast f3) OR
    push_bit 15 (ucast r1) OR push_bit 20 (ucast r2) OR push_bit 25 (take_bit 6 (drop_bit 4 (ucast off))) OR push_bit 31 (drop_bit 11 (ucast off))"

definition enc_U :: "7 word \<Rightarrow> 5 word \<Rightarrow> 20 word \<Rightarrow> u32" where
  "enc_U opc rd imm = ucast opc OR push_bit 7 (ucast rd) OR push_bit 12 (ucast imm)"

definition enc_J :: "7 word \<Rightarrow> 5 word \<Rightarrow> 20 word \<Rightarrow> u32" where
  "enc_J opc rd off = ucast opc OR push_bit 7 (ucast rd) OR push_bit 12 (take_bit 8 (drop_bit 11 (ucast off))) OR push_bit 20 (take_bit 1 (drop_bit 10 (ucast off))) OR
    push_bit 21 (take_bit 10 (ucast off)) OR push_bit 31 (drop_bit 19 (ucast off))"

lemma masks: "x AND 0x1 = take_bit 1 x" "x AND 0x3 = take_bit 2 x" "x AND 0x7 = take_bit 3 x" "x AND 0x1f = take_bit 5 x" "x AND 0x3f = take_bit 6 x"
    "x AND 0x7f = take_bit 7 x" "x AND 0xff = take_bit 8 x" "x AND 0x3ff = take_bit 10 x" for x :: u32
  by (simp_all add: take_bit_eq_mask mask_eq_exp_minus_1)

lemma upt_32: "[0..<32] = [0, 1, 2, 3, 4, 5, 6, 7, 8, 9, 10, 11, 12, 13, 14, 15, 16, 17, 18, 19, 20, 21, 22, 23, 24, 25, 26, 27, 28, 29, 30, 31]"
  by code_simp

lemma word32_eqI:
  assumes "list_all (\<lambda>n. bit x n = bit y n) [0, 1, 2, 3, 4, 5, 6, 7, 8, 9, 10, 11, 12, 13, 14, 15, 16, 17, 18, 19, 20, 21, 22, 23, 24, 25, 26, 27, 28, 29, 30, 31]"
  shows "x = (y :: u32)"
proof (rule bit_word_eqI)
  fix n assume "n < LENGTH(32)"
  then have "n \<in> set [0..<32]" by simp
  then show "bit x n = bit y n" using assms unfolding upt_32 [symmetric] list_all_iff by blast
qed

lemma narrow_bits [simp]:
  "3 \<le> n \<Longrightarrow> \<not> bit (a :: 3 word) n" "5 \<le> n \<Longrightarrow> \<not> bit (b :: 5 word) n" "7 \<le> n \<Longrightarrow> \<not> bit (c :: 7 word) n"
  "12 \<le> n \<Longrightarrow> \<not> bit (d :: 12 word) n" "20 \<le> n \<Longrightarrow> \<not> bit (e :: 20 word) n"
  using bit_imp_le_length [of a n] bit_imp_le_length [of b n] bit_imp_le_length [of c n] bit_imp_le_length [of d n] bit_imp_le_length [of e n] by auto

lemma mask_1e: "x AND 0x1e = push_bit 1 (take_bit 4 (drop_bit 1 x))" for x :: u32
proof -
  have m: "(0x1e :: u32) = push_bit 1 (mask 4)" by (simp add: mask_eq_exp_minus_1)
  show ?thesis unfolding m by (rule bit_word_eqI) (simp only: bit_simps, auto)
qed

lemmas field_defs = RV_R32_OP_def RV_R32_RD_def RV_R32_R1_def RV_R32_R2_def RV_R32_FUNCT3_def RV_R32_FUNCT7_def masks


lemma fields_R:
  "RV_R32_OP (enc_R opc f3 f7 rd r1 r2) = ucast opc" "RV_R32_RD (enc_R opc f3 f7 rd r1 r2) = ucast rd" "RV_R32_R1 (enc_R opc f3 f7 rd r1 r2) = ucast r1"
  "RV_R32_R2 (enc_R opc f3 f7 rd r1 r2) = ucast r2" "RV_R32_FUNCT3 (enc_R opc f3 f7 rd r1 r2) = ucast f3" "RV_R32_FUNCT7 (enc_R opc f3 f7 rd r1 r2) = ucast f7"
  unfolding field_defs enc_R_def by (rule word32_eqI, simp only: list.pred_inject bit_simps, simp add: bit_simps)+

lemma fields_I:
  "RV_R32_OP (enc_I opc f3 rd r1 imm) = ucast opc" "RV_R32_RD (enc_I opc f3 rd r1 imm) = ucast rd" "RV_R32_R1 (enc_I opc f3 rd r1 imm) = ucast r1"
  "RV_R32_FUNCT3 (enc_I opc f3 rd r1 imm) = ucast f3" "RV_R32_IMM_I (enc_I opc f3 rd r1 imm) = scast imm"
  unfolding field_defs RV_R32_IMM_I_def enc_I_def by (rule word32_eqI, simp only: list.pred_inject bit_simps, simp add: bit_simps)+

lemma fields_S:
  "RV_R32_OP (enc_S opc f3 r1 r2 imm) = ucast opc" "RV_R32_R1 (enc_S opc f3 r1 r2 imm) = ucast r1" "RV_R32_R2 (enc_S opc f3 r1 r2 imm) = ucast r2"
  "RV_R32_FUNCT3 (enc_S opc f3 r1 r2 imm) = ucast f3" "RV_R32_IMM_S (enc_S opc f3 r1 r2 imm) = scast imm"
  unfolding field_defs RV_R32_IMM_S_def enc_S_def by (rule word32_eqI, simp only: list.pred_inject bit_simps, simp add: bit_simps)+

lemma fields_B:
  "RV_R32_OP (enc_B opc f3 r1 r2 off) = ucast opc" "RV_R32_R1 (enc_B opc f3 r1 r2 off) = ucast r1" "RV_R32_R2 (enc_B opc f3 r1 r2 off) = ucast r2"
  "RV_R32_FUNCT3 (enc_B opc f3 r1 r2 off) = ucast f3"
  unfolding field_defs enc_B_def by (rule word32_eqI, simp only: list.pred_inject bit_simps, simp add: bit_simps)+

lemma fields_U:
  "RV_R32_OP (enc_U opc rd imm) = ucast opc" "RV_R32_RD (enc_U opc rd imm) = ucast rd" "push_bit 12 (RV_R32_IMM_U (enc_U opc rd imm)) = push_bit 12 (ucast imm)"
  unfolding field_defs RV_R32_IMM_U_def enc_U_def by (rule word32_eqI, simp only: list.pred_inject bit_simps, simp add: bit_simps)+

lemma fields_J:
  "RV_R32_OP (enc_J opc rd off) = ucast opc" "RV_R32_RD (enc_J opc rd off) = ucast rd" "RV_R32_IMM_J (enc_J opc rd off) = push_bit 1 (scast off)"
  unfolding field_defs RV_R32_IMM_J_def enc_J_def Let_def by (rule word32_eqI, simp only: list.pred_inject bit_simps, simp add: bit_simps)+

text \<open>The sign of a branch offset is taken from its bit 11 instead of its bit 12.\<close>

lemma branch_offset: "RV_R32_IMM_B (enc_B opc f3 r1 r2 off) = push_bit 1 (scast (ucast off :: 11 word))"
  unfolding RV_R32_IMM_B_def masks mask_1e enc_B_def by (rule word32_eqI, simp only: list.pred_inject bit_simps, simp add: bit_simps)

lemma short_branch_offset:
  assumes "bit off 11 = bit off 10"
  shows "RV_R32_IMM_B (enc_B opc f3 r1 r2 off) = push_bit 1 (scast off)"
  unfolding branch_offset using assms by (intro word32_eqI) (simp only: list.pred_inject bit_simps, simp add: bit_simps)

end
