(* ===== verification/Simulation.thy ===== *)
theory Simulation
  imports Main
begin

text \<open>
  Forward simulation of sequences of operations. The concrete system runs an operation with a function that may fail, the
  abstract one with a total function; a relation ties their states together as long as the operations are admissible in
  the abstract state. The law for one step is the interface, the law for a sequence its consequence.
\<close>

primrec run_ops :: "('o \<Rightarrow> 'c \<Rightarrow> 'c option) \<Rightarrow> 'o list \<Rightarrow> 'c \<Rightarrow> 'c option" where
  "run_ops cstep [] c = Some c"
| "run_ops cstep (p # ps) c = Option.bind (cstep p c) (run_ops cstep ps)"

primrec admissible :: "('o \<Rightarrow> 'a \<Rightarrow> bool) \<Rightarrow> ('o \<Rightarrow> 'a \<Rightarrow> 'a) \<Rightarrow> 'o list \<Rightarrow> 'a \<Rightarrow> bool" where
  "admissible ok astep [] a \<longleftrightarrow> True"
| "admissible ok astep (p # ps) a \<longleftrightarrow> ok p a \<and> admissible ok astep ps (astep p a)"

lemma run_ops_total: "run_ops (\<lambda>p c. Some (f p c)) ps c = Some (fold f ps c)"
  by (induction ps arbitrary: c) simp_all

locale forward_simulation =
  fixes cstep :: "'o \<Rightarrow> 'c \<Rightarrow> 'c option" and astep :: "'o \<Rightarrow> 'a \<Rightarrow> 'a"
    and ok :: "'o \<Rightarrow> 'a \<Rightarrow> bool" and R :: "'c \<Rightarrow> 'a \<Rightarrow> bool"
  assumes step: "R c a \<Longrightarrow> ok p a \<Longrightarrow> \<exists>c'. cstep p c = Some c' \<and> R c' (astep p a)"
begin

lemma run_simulates: "R c a \<Longrightarrow> admissible ok astep ps a \<Longrightarrow> \<exists>c'. run_ops cstep ps c = Some c' \<and> R c' (fold astep ps a)"
proof (induction ps arbitrary: c a)
  case (Cons p ps)
  then obtain c1 where "cstep p c = Some c1" "R c1 (astep p a)" using step [of c a p] by auto
  with Cons show ?case by simp
qed simp

text \<open>Every state on the way is related too.\<close>

lemma prefix_simulates:
  assumes "R c a" "admissible ok astep (ps @ qs) a"
  shows "\<exists>c'. run_ops cstep ps c = Some c' \<and> R c' (fold astep ps a)"
proof -
  have "admissible ok astep ps a" if "admissible ok astep (ps @ qs) a" for a
    using that by (induction ps arbitrary: a) simp_all
  with assms run_simulates show ?thesis by blast
qed

end

text \<open>A simulation whose concrete steps cannot fail.\<close>

locale total_simulation =
  fixes cfun :: "'o \<Rightarrow> 'c \<Rightarrow> 'c" and astep :: "'o \<Rightarrow> 'a \<Rightarrow> 'a"
    and ok :: "'o \<Rightarrow> 'a \<Rightarrow> bool" and R :: "'c \<Rightarrow> 'a \<Rightarrow> bool"
  assumes total_step: "R c a \<Longrightarrow> ok p a \<Longrightarrow> R (cfun p c) (astep p a)"

sublocale total_simulation \<subseteq> forward_simulation "\<lambda>p c. Some (cfun p c)" astep ok R
  by unfold_locales (simp add: total_step)

context total_simulation
begin

lemma fold_simulates: "R c a \<Longrightarrow> admissible ok astep ps a \<Longrightarrow> R (fold cfun ps c) (fold astep ps a)"
  using run_simulates [of c a ps] by (simp add: run_ops_total)

end

end
