(* ===== verification/RvSpec.thy ===== *)
theory RvSpec
  imports RvEncode Simulation
begin

text \<open>
  The instruction set the emulator is meant for, after the RISC-V manual: the instructions with their encoding and their
  meaning, the simulation of a run by the emulator over a flat memory, and where the emulator differs.
\<close>

section \<open>The instruction set\<close>

type_synonym reg = "5 word"

datatype alu = A_ADD | A_SUB | A_SLL | A_SLT | A_SLTU | A_XOR | A_SRL | A_SRA | A_OR | A_AND | A_MUL | A_DIVU | A_REMU

datatype width = Byte | Half | Word

datatype cond = BEQ | BNE | BLT | BGE | BLTU | BGEU

text \<open>Immediates have the width they have in the manual; jump offsets count half-words.\<close>

datatype instr =
    OpImm alu reg reg "12 word"
  | ShiftImm alu reg reg "5 word"
  | Op alu reg reg reg
  | Load width reg reg "12 word"
  | Store width reg reg "12 word"
  | Lui reg "20 word"
  | Auipc reg "20 word"
  | Branch cond reg reg "12 word"
  | Jal reg "20 word"
  | Jalr reg reg "12 word"

fun alu_f3 :: "alu \<Rightarrow> 3 word" where
  "alu_f3 A_ADD = 0" | "alu_f3 A_SUB = 0" | "alu_f3 A_SLL = 1" | "alu_f3 A_SLT = 2" | "alu_f3 A_SLTU = 3" | "alu_f3 A_XOR = 4" | "alu_f3 A_SRL = 5" | "alu_f3 A_SRA = 5"
| "alu_f3 A_OR = 6" | "alu_f3 A_AND = 7" | "alu_f3 A_MUL = 0" | "alu_f3 A_DIVU = 5" | "alu_f3 A_REMU = 7"

fun alu_f7 :: "alu \<Rightarrow> 7 word" where
  "alu_f7 A_SUB = 0x20" | "alu_f7 A_SRA = 0x20" | "alu_f7 A_MUL = 1" | "alu_f7 A_DIVU = 1" | "alu_f7 A_REMU = 1" | "alu_f7 _ = 0"

fun cond_f3 :: "cond \<Rightarrow> 3 word" where
  "cond_f3 BEQ = 0" | "cond_f3 BNE = 1" | "cond_f3 BLT = 4" | "cond_f3 BGE = 5" | "cond_f3 BLTU = 6" | "cond_f3 BGEU = 7"

fun load_f3 :: "width \<Rightarrow> 3 word" where
  "load_f3 Byte = 4" | "load_f3 Half = 5" | "load_f3 Word = 2"

fun store_f3 :: "width \<Rightarrow> 3 word" where
  "store_f3 Byte = 0" | "store_f3 Half = 1" | "store_f3 Word = 2"

fun encode :: "instr \<Rightarrow> u32" where
  "encode (OpImm a rd r1 imm) = enc_I 0x13 (alu_f3 a) rd r1 imm"
| "encode (ShiftImm a rd r1 sh) = enc_R 0x13 (alu_f3 a) (alu_f7 a) rd r1 sh"
| "encode (Op a rd r1 r2) = enc_R 0x33 (alu_f3 a) (alu_f7 a) rd r1 r2"
| "encode (Load w rd r1 imm) = enc_I 0x03 (load_f3 w) rd r1 imm"
| "encode (Store w r2 r1 imm) = enc_S 0x23 (store_f3 w) r1 r2 imm"
| "encode (Lui rd imm) = enc_U 0x37 rd imm"
| "encode (Auipc rd imm) = enc_U 0x17 rd imm"
| "encode (Branch c r1 r2 off) = enc_B 0x63 (cond_f3 c) r1 r2 off"
| "encode (Jal rd off) = enc_J 0x6f rd off"
| "encode (Jalr rd r1 imm) = enc_I 0x67 0 rd r1 imm"

section \<open>Its meaning\<close>

record isa =
  gpr :: "reg \<Rightarrow> u32"
  pc :: u32
  ram :: "u32 \<Rightarrow> u8"

definition getx :: "isa \<Rightarrow> reg \<Rightarrow> u32" where "getx s r = (if r = 0 then 0 else gpr s r)"

definition setx :: "reg \<Rightarrow> u32 \<Rightarrow> isa \<Rightarrow> isa" where "setx r v s = s\<lparr>gpr := (gpr s)(r := v)\<rparr>"

fun alu_fun :: "alu \<Rightarrow> u32 \<Rightarrow> u32 \<Rightarrow> u32" where
  "alu_fun A_ADD a b = a + b"
| "alu_fun A_SUB a b = a - b"
| "alu_fun A_SLL a b = push_bit (unat b mod 32) a"
| "alu_fun A_SLT a b = (if sint a < sint b then 1 else 0)"
| "alu_fun A_SLTU a b = (if a < b then 1 else 0)"
| "alu_fun A_XOR a b = a XOR b"
| "alu_fun A_SRL a b = drop_bit (unat b mod 32) a"
| "alu_fun A_SRA a b = signed_drop_bit (unat b mod 32) a"
| "alu_fun A_OR a b = a OR b"
| "alu_fun A_AND a b = a AND b"
| "alu_fun A_MUL a b = a * b"
| "alu_fun A_DIVU a b = (if b = 0 then - 1 else a div b)"
| "alu_fun A_REMU a b = (if b = 0 then a else a mod b)"

fun holds :: "cond \<Rightarrow> u32 \<Rightarrow> u32 \<Rightarrow> bool" where
  "holds BEQ a b = (a = b)" | "holds BNE a b = (a \<noteq> b)" | "holds BLT a b = (sint a < sint b)" | "holds BGE a b = (sint a \<ge> sint b)"
| "holds BLTU a b = (a < b)" | "holds BGEU a b = (a \<ge> b)"

fun nbytes :: "width \<Rightarrow> nat" where
  "nbytes Byte = 1" | "nbytes Half = 2" | "nbytes Word = 4"

definition ram_bytes :: "(u32 \<Rightarrow> u8) \<Rightarrow> u32 \<Rightarrow> nat \<Rightarrow> u8 list" where
  "ram_bytes m a n = map (\<lambda>i. m (a + of_nat i)) [0..<n]"

definition ram_store :: "(u32 \<Rightarrow> u8) \<Rightarrow> u32 \<Rightarrow> u8 list \<Rightarrow> u32 \<Rightarrow> u8" where
  "ram_store m a bs x = (if unat (x - a) < length bs then bs ! unat (x - a) else m x)"

definition adv :: "isa \<Rightarrow> isa" where "adv s = s\<lparr>pc := pc s + 4\<rparr>"

fun isa_step :: "instr \<Rightarrow> isa \<Rightarrow> isa" where
  "isa_step (OpImm a rd r1 imm) s = adv (setx rd (alu_fun a (getx s r1) (scast imm)) s)"
| "isa_step (ShiftImm a rd r1 sh) s = adv (setx rd (alu_fun a (getx s r1) (ucast sh)) s)"
| "isa_step (Op a rd r1 r2) s = adv (setx rd (alu_fun a (getx s r1) (getx s r2)) s)"
| "isa_step (Load w rd r1 imm) s = adv (setx rd (le_join (ram_bytes (ram s) (getx s r1 + scast imm) (nbytes w))) s)"
| "isa_step (Store w r2 r1 imm) s = adv (s\<lparr>ram := ram_store (ram s) (getx s r1 + scast imm) (le_split (nbytes w) (getx s r2))\<rparr>)"
| "isa_step (Lui rd imm) s = adv (setx rd (push_bit 12 (ucast imm)) s)"
| "isa_step (Auipc rd imm) s = adv (setx rd (pc s + push_bit 12 (ucast imm)) s)"
| "isa_step (Branch c r1 r2 off) s = (if holds c (getx s r1) (getx s r2) then s\<lparr>pc := pc s + 2 * scast off\<rparr> else adv s)"
| "isa_step (Jal rd off) s = setx rd (pc s + 4) (s\<lparr>pc := pc s + 2 * scast off\<rparr>)"
| "isa_step (Jalr rd r1 imm) s = setx rd (pc s + 4) (s\<lparr>pc := (getx s r1 + scast imm) AND NOT 1\<rparr>)"

section \<open>What the emulator supports\<close>

text \<open>
  The register forms of the shifts take amounts below 32 only, the divisions no zero divisor, branches
  reach 2048 bytes, and \<open>jalr\<close> goes to an even address with a target register other than its base.
\<close>

fun supported :: "instr \<Rightarrow> isa \<Rightarrow> bool" where
  "supported (OpImm a rd r1 imm) s = (a \<in> {A_ADD, A_SLT, A_SLTU, A_XOR, A_OR, A_AND})"
| "supported (ShiftImm a rd r1 sh) s = (a \<in> {A_SLL, A_SRL, A_SRA})"
| "supported (Op a rd r1 r2) s = ((a \<in> {A_SLL, A_SRL, A_SRA} \<longrightarrow> getx s r2 < 32) \<and> (a \<in> {A_DIVU, A_REMU} \<longrightarrow> getx s r2 \<noteq> 0))"
| "supported (Branch c r1 r2 off) s = (bit off 11 = bit off 10)"
| "supported (Jalr rd r1 imm) s = (rd \<noteq> r1 \<and> \<not> bit (getx s r1 + scast imm) 0)"
| "supported _ s = True"

section \<open>The emulator over a flat memory\<close>

definition flat :: "((u32 \<Rightarrow> u8) rvvm \<Rightarrow> int \<times> (u32 \<Rightarrow> u8) rvvm) \<Rightarrow> ((u32 \<Rightarrow> u8) rvvm \<Rightarrow> int \<times> (u32 \<Rightarrow> u8) rvvm) \<Rightarrow> (u32 \<Rightarrow> u8) hooks" where
  "flat sys brk = \<lparr>read_hook = \<lambda>a n vm. ((0, ram_bytes (env vm) a n), vm),
    write32_hook = \<lambda>a v n vm. (0, vm\<lparr>env := ram_store (env vm) a (le_split n v)\<rparr>), on_syscall = sys, on_breakpoint = brk\<rparr>"

definition sim :: "(u32 \<Rightarrow> u8) rvvm \<Rightarrow> isa \<Rightarrow> bool" where
  "sim vm s \<longleftrightarrow> length (xregs vm) = 32 \<and> (\<forall>r. r \<noteq> 0 \<longrightarrow> xregs vm ! unat r = gpr s r) \<and> ip vm = pc s \<and> env vm = ram s"

text \<open>The same with register 0 cleared, as it is while an instruction is executed.\<close>

definition sim0 :: "(u32 \<Rightarrow> u8) rvvm \<Rightarrow> isa \<Rightarrow> bool" where
  "sim0 vm s \<longleftrightarrow> sim vm s \<and> xregs vm ! 0 = 0"

lemma reg_less [simp]: "unat (r :: reg) < 32"
  using unsigned_less [of r] by simp

lemma unat_reg [simp]: "unat (ucast (r :: reg) :: u32) = unat r"
  using less_trans [OF reg_less [of r], of "2 ^ 32"] by (simp add: unsigned_ucast_eq take_bit_nat_eq_self)

lemma sim0_xreg: "sim0 vm s \<Longrightarrow> xreg vm (ucast (r :: reg)) = getx s r"
  by (cases "r = 0") (auto simp: sim0_def sim_def xreg_def getx_def)

lemma sim_set: "sim vm s \<Longrightarrow> sim (set_xreg (ucast (r :: reg)) v vm) (setx r v s)"
  by (auto simp: sim_def set_xreg_def setx_def nth_list_update word_unat_eq_iff)

lemma sim_nth: "sim vm s \<Longrightarrow> r \<noteq> 0 \<Longrightarrow> xregs vm ! unat r = gpr s r"
  by (simp add: sim_def)

lemma sim_clear: "sim vm s \<Longrightarrow> sim0 (set_xreg 0 0 vm) s"
  by (auto simp: sim0_def sim_def set_xreg_def nth_list_update word_unat_eq_iff)

lemma next_ip_sim: "sim vm s \<Longrightarrow> \<exists>vm'. next_ip vm = (Returns 0, vm') \<and> sim vm' (adv s)"
  by (simp add: next_ip_def sim_def adv_def)

lemmas opcodes = RV_IMM_INT_MATH_OP_def RV_REG_INT_MATH_OP_def RV_STORE_OP_def RV_LUI_OP_def RV_AUIPC_OP_def RV_LOAD_OP_def
  RV_BRANCH_OP_def RV_JAL_OP_def RV_JALR_OP_def RV_ENVIRONMENT_OP_def

lemma full_length:
  assumes "RV_R32_OP w \<in> {0x13, 0x33, 0x23, 0x37, 0x17, 0x03, 0x63, 0x6f, 0x67}"
  shows "rv_get_inst_len16 w = 2"
proof -
  have "w AND 3 = RV_R32_OP w AND 3" "drop_bit 2 w AND 7 = drop_bit 2 (RV_R32_OP w) AND 7"
    unfolding RV_R32_OP_def masks by (rule bit_word_eqI, auto simp: bit_simps)+
  then show ?thesis using assms by (auto simp: rv_get_inst_len16_def)
qed

lemma encode_length: "rv_get_inst_len16 (encode i) = 2"
  by (rule full_length, cases i) (simp_all add: fields_R fields_I fields_S fields_B fields_U fields_J)

lemma shift_amount: "unat (take_bit 5 (b :: u32)) = unat b mod 32"
  by (simp add: take_bit_eq_mod unat_mod)

lemma sim_op_imm:
  assumes "sim0 vm s" "a \<in> {A_ADD, A_SLT, A_SLTU, A_XOR, A_OR, A_AND}"
  shows "\<exists>vm'. rv_execute H (encode (OpImm a rd r1 imm)) vm = (Returns 0, vm') \<and> sim vm' (isa_step (OpImm a rd r1 imm) s)"
proof -
  have "imm_math (ucast (alu_f3 a)) x y = alu_fun a x y" for x y using assms(2) by (auto simp: imm_math_def of_bool32_def)
  then show ?thesis
    using next_ip_sim [OF sim_set, of vm s] assms(1) sim0_xreg [OF assms(1)] by (simp add: rv_execute_def Let_def fields_I opcodes sim0_def)
qed

lemma sim_op:
  assumes "sim0 vm s" "supported (Op a rd r1 r2) s"
  shows "\<exists>vm'. rv_execute H (encode (Op a rd r1 r2)) vm = (Returns 0, vm') \<and> sim vm' (isa_step (Op a rd r1 r2) s)"
proof -
  have sh: "unat b mod 32 = unat b" if "b < 32" for b :: u32 using that by (simp add: word_less_nat_alt)
  have "reg_math (push_bit 4 (ucast (alu_f7 a)) OR ucast (alu_f3 a)) x (getx s r2) = Value (alu_fun a x (getx s r2))" for x
    using assms(2) by (cases a) (simp_all add: reg_math_def checked_shift_def of_bool32_def sh)
  then show ?thesis
    using next_ip_sim [OF sim_set, of vm s] assms(1) sim0_xreg [OF assms(1)] by (simp add: rv_execute_def Let_def fields_R opcodes sim0_def)
qed

lemma sim_shift_imm:
  assumes "sim0 vm s" "a \<in> {A_SLL, A_SRL, A_SRA}"
  shows "\<exists>vm'. rv_execute H (encode (ShiftImm a rd r1 sh)) vm = (Returns 0, vm') \<and> sim vm' (isa_step (ShiftImm a rd r1 sh) s)"
proof -
  let ?b = "RV_R32_IMM_I (enc_R 0x13 (alu_f3 a) (alu_f7 a) rd r1 sh)"
  have b: "take_bit 5 ?b = ucast sh" "signed_drop_bit 5 ?b = scast (alu_f7 a)" 
    unfolding RV_R32_IMM_I_def enc_R_def by (rule word32_eqI, simp only: list.pred_inject bit_simps, simp add: bit_simps)+
  have "imm_math (ucast (alu_f3 a)) x ?b = alu_fun a x (ucast sh)" for x
    using assms(2) b(2) less_trans [OF reg_less [of sh], of 32] by (auto simp: imm_math_def masks b(1))
  then show ?thesis
    using next_ip_sim [OF sim_set, of vm s] assms(1) sim0_xreg [OF assms(1)] by (simp add: rv_execute_def Let_def fields_R opcodes sim0_def)
qed

lemma sim_upper:
  assumes "sim0 vm s"
  shows "\<exists>vm'. rv_execute H (encode (Lui rd imm)) vm = (Returns 0, vm') \<and> sim vm' (isa_step (Lui rd imm) s)"
    "\<exists>vm'. rv_execute H (encode (Auipc rd imm)) vm = (Returns 0, vm') \<and> sim vm' (isa_step (Auipc rd imm) s)"
  using next_ip_sim [OF sim_set, of vm s] assms by (simp_all add: rv_execute_def Let_def fields_U opcodes sim0_def sim_def)

lemma sim_jal:
  assumes "sim0 vm s"
  shows "\<exists>vm'. rv_execute H (encode (Jal rd off)) vm = (Returns 0, vm') \<and> sim vm' (isa_step (Jal rd off) s)"
proof -
  have "push_bit 1 (scast off :: u32) = 2 * scast off" by (simp add: push_bit_eq_mult)
  then show ?thesis using assms sim_set [of vm s rd "pc s + 4"]
    by (simp add: rv_execute_def Let_def fields_J opcodes next_ip_def sim0_def) (simp add: sim_def setx_def set_xreg_def)
qed

lemma sim_jalr:
  assumes "sim0 vm s" "supported (Jalr rd r1 i) s"
  shows "\<exists>vm'. rv_execute H (encode (Jalr rd r1 i)) vm = (Returns 0, vm') \<and> sim vm' (isa_step (Jalr rd r1 i) s)"
proof -
  have e: "(getx s r1 + scast i) AND NOT 1 = getx s r1 + scast i"
    by (rule bit_word_eqI) (use assms(2) in \<open>auto simp: bit_simps bit_0 simp del: even_add intro!: gr0I\<close>)
  have "xreg (set_xreg (ucast rd) v vm) (ucast r1) = getx s r1" for v
    using assms sim0_xreg [OF assms(1), of r1] by (auto simp: xreg_def set_xreg_def nth_list_update word_unat_eq_iff)
  then show ?thesis using assms(1) sim_set [of vm s rd "pc s + 4"] e
    by (simp add: rv_execute_def Let_def fields_I opcodes next_ip_def sim0_def) (simp add: sim_def setx_def set_xreg_def)
qed

lemma sim_branch:
  assumes "sim0 vm s" "bit off 11 = bit off 10"
  shows "\<exists>vm'. rv_execute H (encode (Branch c r1 r2 off)) vm = (Returns 0, vm') \<and> sim vm' (isa_step (Branch c r1 r2 off) s)"
proof -
  have "branch_taken (ucast (cond_f3 c)) x y = holds c x y" for x y by (cases c) (auto simp: branch_taken_def)
  moreover have "push_bit 1 (scast off :: u32) = 2 * scast off" by (simp add: push_bit_eq_mult)
  ultimately show ?thesis using assms(1) sim0_xreg [OF assms(1)] short_branch_offset [OF assms(2)]
    by (simp add: rv_execute_def Let_def fields_B opcodes next_ip_def sim0_def sim_def adv_def)
qed

lemma length_ram_bytes [simp]: "length (ram_bytes m a n) = n"
  by (simp add: ram_bytes_def)

lemma sim_load:
  assumes "sim0 vm s"
  shows "\<exists>vm'. rv_execute (flat sys brk) (encode (Load w rd r1 imm)) vm = (Returns 0, vm') \<and> sim vm' (isa_step (Load w rd r1 imm) s)"
proof -
  have "env vm = ram s" using assms by (simp add: sim0_def sim_def)
  then have "rv_execute (flat sys brk) (encode (Load w rd r1 imm)) vm =
      next_ip (set_xreg (ucast rd) (le_join (ram_bytes (ram s) (getx s r1 + scast imm) (nbytes w))) vm)"
    using sim0_xreg [OF assms] by (cases w) (simp_all add: rv_execute_def Let_def fields_I opcodes rv_load_def flat_def)
  then show ?thesis using next_ip_sim [OF sim_set, of vm s] assms by (simp add: sim0_def)
qed

lemma masked_bytes: "le_split 1 (v AND 0xFF) = le_split 1 v" "le_split 2 (v AND 0xFFFF) = le_split 2 v" "v AND 0xFFFFFFFF = v" for v :: u32
proof -
  have m: "v AND 0xFF = take_bit 8 v" "v AND 0xFFFF = take_bit 16 v" "(0xFFFFFFFF :: u32) = - 1" by (simp_all add: take_bit_eq_mask mask_eq_exp_minus_1)
  have "(ucast (take_bit 8 v) :: u8) = ucast v" "(ucast (take_bit 16 v) :: u8) = ucast v" "(ucast (drop_bit 8 (take_bit 16 v)) :: u8) = ucast (drop_bit 8 v)"
    by (rule bit_word_eqI; simp add: bit_simps)+
  then show "le_split 1 (v AND 0xFF) = le_split 1 v" "le_split 2 (v AND 0xFFFF) = le_split 2 v" unfolding m by (simp_all add: numeral_eq_Suc)
  show "v AND 0xFFFFFFFF = v" unfolding m by simp
qed

lemma sim_store:
  assumes "sim0 vm s"
  shows "\<exists>vm'. rv_execute (flat sys brk) (encode (Store w r2 r1 imm)) vm = (Returns 0, vm') \<and> sim vm' (isa_step (Store w r2 r1 imm) s)"
proof -
  have r: "env vm = ram s" using assms by (simp add: sim0_def sim_def)
  have "rv_execute (flat sys brk) (encode (Store w r2 r1 imm)) vm =
      next_ip (vm\<lparr>env := ram_store (ram s) (getx s r1 + scast imm) (le_split (nbytes w) (getx s r2))\<rparr>)"
    using sim0_xreg [OF assms] r masked_bytes by (cases w) (simp_all add: rv_execute_def Let_def fields_S opcodes rv_store_def flat_def)
  then show ?thesis using assms by (simp add: sim0_def sim_def next_ip_def adv_def)
qed

lemma sim_execute:
  assumes "sim0 vm s" "supported i s"
  shows "\<exists>vm'. rv_execute (flat sys brk) (encode i) vm = (Returns 0, vm') \<and> sim vm' (isa_step i s)"
  using assms sim_op_imm sim_shift_imm sim_op sim_load sim_store sim_upper sim_branch sim_jal sim_jalr
  by (cases i) (simp_all only: supported.simps)

lemma sim_step:
  assumes "sim vm s" "supported i s" "le_join (ram_bytes (ram s) (pc s) 4) = encode i"
  shows "\<exists>vm'. rv_vm_step (flat sys brk) vm = (Returns 0, vm') \<and> sim vm' (isa_step i s)"
proof -
  have "rv_vm_step (flat sys brk) vm = rv_execute (flat sys brk) (encode i) (set_xreg 0 0 vm)"
    using assms(1,3) encode_length [of i] by (simp add: rv_vm_step_def Let_def flat_def sim_def set_xreg_def)
  then show ?thesis using sim_execute [OF sim_clear [OF assms(1)] assms(2)] by simp
qed

section \<open>Differences\<close>

lemma fetched:
  assumes "sim vm s" "le_join (ram_bytes (ram s) (pc s) 4) = w" "RV_R32_OP w \<in> {0x13, 0x33, 0x23, 0x37, 0x17, 0x03, 0x63, 0x6f, 0x67}"
  shows "rv_vm_step (flat sys brk) vm = rv_execute (flat sys brk) w (set_xreg 0 0 vm)"
  using assms(1,2) full_length [OF assms(3)] by (simp add: rv_vm_step_def Let_def flat_def sim_def set_xreg_def)

text \<open>The signed byte and halfword loads (LB and LH, function codes 0 and 1) do what the unsigned ones do.\<close>

lemma signed_load:
  assumes "sim0 vm s" "f3 = 0 \<and> w = Byte \<or> f3 = 1 \<and> w = Half"
  shows "\<exists>vm'. rv_execute (flat sys brk) (enc_I 0x03 f3 rd r1 imm) vm = (Returns 0, vm') \<and> sim vm' (isa_step (Load w rd r1 imm) s)"
proof -
  have "env vm = ram s" using assms by (simp add: sim0_def sim_def)
  then have "rv_execute (flat sys brk) (enc_I 0x03 f3 rd r1 imm) vm = next_ip (set_xreg (ucast rd) (le_join (ram_bytes (ram s) (getx s r1 + scast imm) (nbytes w))) vm)"
    using sim0_xreg [OF assms(1)] assms(2) by (auto simp: rv_execute_def Let_def fields_I opcodes rv_load_def flat_def)
  then show ?thesis using next_ip_sim [OF sim_set, of vm s] assms by (simp add: sim0_def)
qed

lemma far_offset:
  assumes "\<not> bit off 11" "bit off 10"
  shows "RV_R32_IMM_B (enc_B opc f3 r1 r2 off) = 2 * scast off - 4096"
proof -
  let ?x = "push_bit 1 (scast off :: u32)"
  have "?x AND push_bit 12 (- 1) = 0" by (rule word32_eqI) (use assms in \<open>simp only: list.pred_inject bit_simps, simp add: bit_simps\<close>)
  then have "?x + push_bit 12 (- 1) = ?x OR push_bit 12 (- 1)" by (rule disjunctive_add_eq_or)
  moreover have "push_bit 1 (scast (ucast off :: 11 word) :: u32) = ?x OR push_bit 12 (- 1)"
    by (rule word32_eqI) (use assms in \<open>simp only: list.pred_inject bit_simps, simp add: bit_simps\<close>)
  ultimately have "push_bit 1 (scast (ucast off :: 11 word) :: u32) = ?x + push_bit 12 (- 1)" by (simp only:)
  then show ?thesis unfolding branch_offset by (simp add: push_bit_eq_mult)
qed

lemma far_branch:
  assumes "sim0 vm s" "holds c (getx s r1) (getx s r2)" "\<not> bit off 11" "bit off 10"
  shows "\<exists>vm'. rv_execute H (encode (Branch c r1 r2 off)) vm = (Returns 0, vm') \<and> ip vm' = pc s + 2 * scast off - 4096"
proof -
  have "branch_taken (ucast (cond_f3 c)) x y = holds c x y" for x y by (cases c) (auto simp: branch_taken_def)
  then show ?thesis using assms(1,2) sim0_xreg [OF assms(1)] far_offset [OF assms(3,4)]
    by (simp add: rv_execute_def Let_def fields_B opcodes next_ip_def sim0_def sim_def)
qed

lemma jalr_same:
  assumes "sim0 vm s"
  shows "\<exists>vm'. rv_execute H (encode (Jalr rd rd imm)) vm = (Returns 0, vm') \<and> ip vm' = pc s + 4 + scast imm"
  using assms by (simp add: rv_execute_def Let_def fields_I opcodes next_ip_def sim0_def sim_def xreg_def set_xreg_def)

lemma big_shift:
  assumes "sim0 vm s" "32 \<le> getx s r2"
  shows "fst (rv_execute H (encode (Op A_SLL rd r1 r2)) vm) = Undefined"
proof -
  have "\<not> getx s r2 < 32" using assms(2) by (simp add: not_less)
  then show ?thesis using sim0_xreg [OF assms(1)] by (simp add: rv_execute_def Let_def fields_R opcodes reg_math_def checked_shift_def)
qed

section \<open>Runs\<close>

text \<open>The program counter meets this instruction, and the emulator supports it.\<close>

definition meets :: "instr \<Rightarrow> isa \<Rightarrow> bool" where
  "meets i s \<longleftrightarrow> le_join (ram_bytes (ram s) (pc s) 4) = encode i \<and> supported i s"

definition runs :: "instr list \<Rightarrow> isa \<Rightarrow> bool" where "runs is s \<longleftrightarrow> admissible meets isa_step is s"

text \<open>The embedding program steps the machine as long as it returns 0.\<close>

definition rv_step :: "'m hooks \<Rightarrow> instr \<Rightarrow> 'm rvvm \<Rightarrow> 'm rvvm option" where
  "rv_step H i vm = (case rv_vm_step H vm of (r, vm') \<Rightarrow> if r = Returns 0 then Some vm' else None)"

primrec rv_steps :: "'m hooks \<Rightarrow> nat \<Rightarrow> 'm rvvm \<Rightarrow> 'm rvvm option" where
  "rv_steps H 0 vm = Some vm"
| "rv_steps H (Suc n) vm = (case rv_vm_step H vm of (r, vm') \<Rightarrow> if r = Returns 0 then rv_steps H n vm' else None)"

lemma rv_steps_run: "rv_steps H (length is) vm = run_ops (rv_step H) is vm"
  by (induction "is" arbitrary: vm) (auto simp: rv_step_def split: prod.split)

interpretation rv: forward_simulation "rv_step (flat sys brk)" isa_step meets sim for sys brk
proof
  fix vm s i assume "sim vm s" "meets i s"
  then obtain vm' where "rv_vm_step (flat sys brk) vm = (Returns 0, vm')" "sim vm' (isa_step i s)"
    using sim_step [of vm s i sys brk] by (auto simp: meets_def)
  then show "\<exists>vm'. rv_step (flat sys brk) i vm = Some vm' \<and> sim vm' (isa_step i s)" by (simp add: rv_step_def)
qed

section \<open>Properties\<close>

text \<open>
  C1. The emulator runs programs as the RISC-V manual says: over a flat memory, as long as the program counter meets integer instructions
  (arithmetic and logic with registers and immediates, shifts, multiplication, unsigned division, loads without sign, stores,
  upper immediates, branches and jumps) within the limits of \<open>supported\<close>, every step returns 0, and registers, program counter and
  memory are those of the manual after each of them, register 0 reading as 0.
\<close>
theorem rv_step_refines_isa:
  assumes "runs is s" "sim vm s"
  shows "\<exists>vm'. rv_steps (flat sys brk) (length is) vm = Some vm' \<and> sim vm' (fold isa_step is s)"
  unfolding rv_steps_run using assms(2,1) unfolding runs_def by (rule rv.run_simulates)

text \<open>
  C2. Where the emulator differs from the manual: a signed byte or halfword load (LB, LH) does what the unsigned one (LBU, LHU) does, so it
  fills the register with zeros instead of copies of the sign; a
  taken branch over 2048 bytes or more forwards lands 4096 bytes before its target; \<open>jalr\<close> with the same base and target
  register jumps relative to the return address; and a left shift by a register with 32 or more
  is undefined instead of using the low five bits.
\<close>
theorem rv_deviations:
  assumes "sim vm s"
  shows "(\<forall>rd r1 imm. le_join (ram_bytes (ram s) (pc s) 4) = enc_I 0x03 0 rd r1 imm \<longrightarrow>
      (\<exists>vm'. rv_vm_step (flat sys brk) vm = (Returns 0, vm') \<and> sim vm' (isa_step (Load Byte rd r1 imm) s))) \<and>
    (\<forall>rd r1 imm. le_join (ram_bytes (ram s) (pc s) 4) = enc_I 0x03 1 rd r1 imm \<longrightarrow>
      (\<exists>vm'. rv_vm_step (flat sys brk) vm = (Returns 0, vm') \<and> sim vm' (isa_step (Load Half rd r1 imm) s))) \<and>
    (\<forall>c r1 r2 off. le_join (ram_bytes (ram s) (pc s) 4) = encode (Branch c r1 r2 off) \<and> holds c (getx s r1) (getx s r2) \<and> \<not> bit off 11 \<and> bit off 10 \<longrightarrow>
      (\<exists>vm'. rv_vm_step (flat sys brk) vm = (Returns 0, vm') \<and> ip vm' = pc s + 2 * scast off - 4096)) \<and>
    (\<forall>rd imm. le_join (ram_bytes (ram s) (pc s) 4) = encode (Jalr rd rd imm) \<longrightarrow>
      (\<exists>vm'. rv_vm_step (flat sys brk) vm = (Returns 0, vm') \<and> ip vm' = pc s + 4 + scast imm)) \<and>
    (\<forall>rd r1 r2. le_join (ram_bytes (ram s) (pc s) 4) = encode (Op A_SLL rd r1 r2) \<and> 32 \<le> getx s r2 \<longrightarrow>
      fst (rv_vm_step (flat sys brk) vm) = Undefined)"
  using fetched [OF assms, of _ sys brk] signed_load [OF sim_clear [OF assms], of 0 Byte sys brk] signed_load [OF sim_clear [OF assms], of 1 Half sys brk] far_branch [OF sim_clear [OF assms], of _ _ _ _ "flat sys brk"]
    jalr_same [OF sim_clear [OF assms], of "flat sys brk"] big_shift [OF sim_clear [OF assms], of _ "flat sys brk"]
  by (auto simp: fields_I fields_B fields_R simp del: isa_step.simps)

text \<open>A program: load 5 and 7, multiply, store the product, and jump back to the start.\<close>

definition sample_program :: "instr list" where
  "sample_program = [OpImm A_ADD 1 0 5, OpImm A_ADD 2 0 7, Op A_MUL 3 1 2, Store Word 3 0 0x40, Branch BEQ 3 3 (- 8)]"

definition sample_isa :: isa where
  "sample_isa = \<lparr>gpr = \<lambda>_. 0, pc = 0,
    ram = \<lambda>a. if a < 20 then [0x93, 0x00, 0x50, 0x00, 0x13, 0x01, 0x70, 0x00, 0xB3, 0x81, 0x20, 0x02, 0x23, 0x20, 0x30, 0x04, 0xE3, 0x88, 0x31, 0xFE] ! unat a else 0\<rparr>"

definition sample_rvvm :: "(u32 \<Rightarrow> u8) rvvm" where
  "sample_rvvm = \<lparr>xregs = replicate 32 0, ip = 0, stval = 0, env = ram sample_isa\<rparr>"

lemma encoded:
  "encode (OpImm A_ADD 1 0 5) = 0x00500093" "encode (OpImm A_ADD 2 0 7) = 0x00700113" "encode (Op A_MUL 3 1 2) = 0x022081B3"
  "encode (Store Word 3 0 0x40) = 0x04302023" "encode (Branch BEQ 3 3 (- 8)) = 0xFE3188E3"
  by code_simp+

lemma sample_runs: "runs sample_program sample_isa"
  unfolding sample_program_def runs_def admissible.simps meets_def encoded
  by (simp add: sample_isa_def ram_bytes_def upt_rec adv_def setx_def getx_def ram_store_def)

lemma sample_sim: "sim sample_rvvm sample_isa"
  by (simp add: sim_def sample_rvvm_def sample_isa_def)

lemma sample_length: "length sample_program = 5"
  by (simp add: sample_program_def)

theorem rv_step_refines_isa_witness:
  "\<exists>vm'. rv_steps (flat (\<lambda>vm. (0, vm)) (\<lambda>vm. (0, vm))) 5 sample_rvvm = Some vm' \<and> xregs vm' ! 3 = 35 \<and> ip vm' = 0 \<and> env vm' 0x40 = 35"
proof -
  obtain vm' where vm': "rv_steps (flat (\<lambda>vm. (0, vm)) (\<lambda>vm. (0, vm))) 5 sample_rvvm = Some vm'" "sim vm' (fold isa_step sample_program sample_isa)"
    using rv_step_refines_isa [OF sample_runs sample_sim] sample_length by metis
  have bytes: "le_split 4 (35 :: u32) = [35, 0, 0, 0]" by code_simp
  have "getx (fold isa_step sample_program sample_isa) 3 = 35" "pc (fold isa_step sample_program sample_isa) = 0" "ram (fold isa_step sample_program sample_isa) 0x40 = 35"
    by (simp_all add: sample_program_def sample_isa_def adv_def setx_def getx_def ram_store_def bytes)
  then show ?thesis using vm' sim_nth [OF vm'(2), of 3] by (auto simp: sim_def getx_def)
qed

text \<open>The instruction \<open>lh x1, 64(x0)\<close> with the halfword FFFEh at 64.\<close>

definition lh_isa :: isa where
  "lh_isa = \<lparr>gpr = \<lambda>_. 0, pc = 0, ram = \<lambda>a. if a < 4 then [0x83, 0x10, 0x00, 0x04] ! unat a else if a = 64 then 0xFE else if a = 65 then 0xFF else 0\<rparr>"

theorem rv_deviations_witness:
  "\<exists>vm'. rv_vm_step (flat (\<lambda>vm. (0, vm)) (\<lambda>vm. (0, vm))) \<lparr>xregs = replicate 32 0, ip = 0, stval = 0, env = ram lh_isa\<rparr> = (Returns 0, vm') \<and> xregs vm' ! 1 = 0xFFFE"
proof -
  let ?vm = "\<lparr>xregs = replicate 32 0, ip = 0, stval = 0, env = ram lh_isa\<rparr> :: (u32 \<Rightarrow> u8) rvvm"
  have s: "sim ?vm lh_isa" by (simp add: sim_def lh_isa_def)
  have e: "enc_I 0x03 1 1 0 64 = 0x04001083" by code_simp
  have "le_join (ram_bytes (ram lh_isa) (pc lh_isa) 4) = enc_I 0x03 1 1 0 64" unfolding e by (simp add: lh_isa_def ram_bytes_def upt_rec)
  then obtain vm' where "rv_vm_step (flat (\<lambda>vm. (0, vm)) (\<lambda>vm. (0, vm))) ?vm = (Returns 0, vm')" "sim vm' (isa_step (Load Half 1 0 64) lh_isa)"
    using rv_deviations [OF s, of "\<lambda>vm. (0, vm)" "\<lambda>vm. (0, vm)"] by blast
  moreover have "gpr (isa_step (Load Half 1 0 64) lh_isa) 1 = 0xFFFE"
    by (simp add: adv_def setx_def getx_def lh_isa_def ram_bytes_def upt_rec)
  ultimately show ?thesis using sim_nth [of vm' _ 1] by auto
qed

end
