(* ===== verification/CList.thy ===== *)
theory CList
  imports Prelude Simulation
begin

text \<open>
  The doubly linked lists of \<open>arch/x86_64/includes/io.h\<close>: a node holds the addresses of its neighbours, and a list
  is a ring through its head. All operations are on byte memory.
\<close>

section \<open>Operations\<close>

text \<open>\<open>list_t\<close>: \<open>next\<close> at 0, \<open>prev\<close> at 8.\<close>

definition nxt :: "mem \<Rightarrow> u64 \<Rightarrow> u64" where "nxt m l = read64 m l"
definition prv :: "mem \<Rightarrow> u64 \<Rightarrow> u64" where "prv m l = read64 m (l + 8)"
definition set_nxt :: "mem \<Rightarrow> u64 \<Rightarrow> u64 \<Rightarrow> mem" where "set_nxt m l v = write64 m l v"
definition set_prv :: "mem \<Rightarrow> u64 \<Rightarrow> u64 \<Rightarrow> mem" where "set_prv m l v = write64 m (l + 8) v"

definition list_init :: "u64 \<Rightarrow> mem \<Rightarrow> mem" where
  "list_init l m = (let m = set_nxt m l l in set_prv m l l)"

definition list_last :: "mem \<Rightarrow> u64 \<Rightarrow> u64" where
  "list_last m l = (if prv m l \<noteq> l then prv m l else 0)"

definition list_next :: "mem \<Rightarrow> u64 \<Rightarrow> u64" where
  "list_next m l = (if nxt m l \<noteq> l then nxt m l else 0)"

definition list_insert :: "u64 \<Rightarrow> u64 \<Rightarrow> mem \<Rightarrow> mem" where
  "list_insert new link m =
    (let m = set_prv m new (prv m link);
         m = set_nxt m new link;
         m = set_nxt m (prv m new) new
     in set_prv m (nxt m new) new)"

definition list_append :: "u64 \<Rightarrow> u64 \<Rightarrow> mem \<Rightarrow> mem" where
  "list_append new into = list_insert new into"

definition list_remove :: "u64 \<Rightarrow> mem \<Rightarrow> mem" where
  "list_remove l m =
    (let m = set_nxt m (prv m l) (nxt m l);
         m = set_prv m (nxt m l) (prv m l);
         m = set_nxt m l l
     in set_prv m l l)"

section \<open>Rings\<close>

definition apart :: "u64 \<Rightarrow> u64 \<Rightarrow> bool" where
  "apart a b \<longleftrightarrow> a = b \<or> disjoint_regions a 16 b 16"

lemma apart_refl [simp]: "apart a a"
  by (simp add: apart_def)

lemma apart_sym: "apart a b \<longleftrightarrow> apart b a"
  by (auto simp: apart_def disjoint_regions_sym)

lemma field_disjoint:
  assumes "disjoint_regions a 16 b 16" "i \<in> {0, 8}" "j \<in> {0, 8}"
  shows "disjoint_regions (a + i) 8 (b + j) 8"
proof -
  have "region (p + k) 8 \<subseteq> region p 16" if "k \<in> {0, 8}" for p k :: u64
    using that region_shift [of 8 "unat k" 16 p] by auto
  then show ?thesis using assms unfolding disjoint_regions_def by blast
qed

lemma own_fields: "disjoint_regions a 8 (a + 8) 8" "disjoint_regions (a + 8) 8 a 8"
proof -
  show "disjoint_regions a 8 (a + 8) 8" by (rule disjoint_regions_diff) simp_all
  then show "disjoint_regions (a + 8) 8 a 8" by (simp add: disjoint_regions_sym)
qed

lemma node_fields:
  assumes "apart a b"
  shows "nxt (set_nxt m a v) b = (if a = b then v else nxt m b)" "prv (set_prv m a v) b = (if a = b then v else prv m b)"
    "nxt (set_prv m a v) b = nxt m b" "prv (set_nxt m a v) b = prv m b"
  using assms field_disjoint [of a b 0 0] field_disjoint [of a b 8 8] field_disjoint [of a b 8 0] field_disjoint [of a b 0 8] own_fields
  by (auto simp: apart_def nxt_def prv_def set_nxt_def set_prv_def read64_write64 read64_write64_other)

text \<open>Neighbours, and the ring of the nodes of a list, which leads from the last back to the first.\<close>

definition linked :: "mem \<Rightarrow> u64 \<Rightarrow> u64 \<Rightarrow> bool" where
  "linked m a b \<longleftrightarrow> nxt m a = b \<and> prv m b = a"

definition ring :: "mem \<Rightarrow> u64 list \<Rightarrow> bool" where
  "ring m ns \<longleftrightarrow> ns \<noteq> [] \<and> distinct ns \<and> (\<forall>a\<in>set ns. \<forall>b\<in>set ns. apart a b) \<and> successively (linked m) (ns @ [hd ns])"

lemma ring_rotate:
  assumes "ring m (xs @ ys)" "ys \<noteq> []"
  shows "ring m (ys @ xs)"
proof (cases "xs = []")
  case False
  have "successively (linked m) (ys @ xs @ [hd ys])"
    using assms False unfolding ring_def by (auto simp: successively_append_iff hd_append)
  then show ?thesis using assms unfolding ring_def by (auto simp: hd_append)
qed (use assms in simp)

lemma ring_chain: "ring m ns \<Longrightarrow> successively (linked m) ns"
  by (simp add: ring_def successively_append_iff)

lemma ring_ends:
  assumes "ring m (l # ys)"
  shows "nxt m l = hd (ys @ [l])" "prv m l = last (l # ys)"
proof -
  have s: "successively (linked m) ((l # ys) @ [l])" using assms by (simp add: ring_def)
  then show "prv m l = last (l # ys)" unfolding successively_append_iff by (simp add: linked_def split: if_splits)
  show "nxt m l = hd (ys @ [l])" using s by (cases ys) (auto simp: linked_def)
qed

lemma successively_change:
  assumes "successively (linked m) ns" "distinct ns" "\<And>a. a \<in> set (butlast ns) \<Longrightarrow> nxt m' a = nxt m a" "\<And>b. b \<in> set (tl ns) \<Longrightarrow> prv m' b = prv m b"
  shows "successively (linked m') ns"
  using assms by (induction ns rule: induct_list012) (auto simp: linked_def)

lemma butlast_last_distinct: "distinct (x # xs) \<Longrightarrow> last (x # xs) \<notin> set (butlast (x # xs))"
  by (metis append_butlast_last_id distinct_append disjoint_iff list.distinct(1) list.set_intros(1) list.simps(15) empty_set)

lemma insert_before_first:
  assumes "ring m (l # ys)" "new \<notin> set (l # ys)" "\<forall>a\<in>set (l # ys). apart new a"
  shows "ring (list_insert new l m) (l # ys @ [new])"
proof -
  define z where "z = last (l # ys)"
  let ?m = "list_insert new l m"
  have z: "prv m l = z" "z \<in> set (l # ys)" using ring_ends(2) [OF assms(1)] by (simp_all add: z_def)
  have ap: "apart a b" if "a \<in> set (new # l # ys)" "b \<in> set (new # l # ys)" for a b
    using that assms(1,3) apart_sym unfolding ring_def by (metis apart_refl set_ConsD)
  have nz: "z \<noteq> new" "l \<noteq> new" using z(2) assms(2) by auto
  have n: "nxt ?m b = (if b = z then new else if b = new then l else nxt m b)" "prv ?m b = (if b = l then new else if b = new then z else prv m b)"
    if "b \<in> set (new # l # ys)" for b
  proof -
    have A: "apart new b" "apart z b" "apart l b" "apart z new" "apart l new" "apart new new" "apart new l" "apart new z" using z(2) that by (auto intro: ap)
    show "nxt ?m b = (if b = z then new else if b = new then l else nxt m b)" "prv ?m b = (if b = l then new else if b = new then z else prv m b)"
      unfolding list_insert_def Let_def z(1) using nz by (auto simp: node_fields A)
  qed
  have s: "successively (linked m) (l # ys)" "distinct (l # ys)" using ring_chain [OF assms(1)] assms(1) by (simp_all add: ring_def)
  have "successively (linked ?m) (l # ys)"
  proof (rule successively_change [OF s(1,2)])
    fix a assume "a \<in> set (butlast (l # ys))"
    then have "a \<in> set (l # ys)" "a \<noteq> z" using butlast_last_distinct [OF s(2)] in_set_butlastD unfolding z_def by fast+
    then show "nxt ?m a = nxt m a" using n(1) [of a] assms(2) by auto
  next
    fix b assume "b \<in> set (tl (l # ys))"
    then show "prv ?m b = prv m b" using n(2) [of b] s(2) assms(2) by auto
  qed
  moreover have "linked ?m z new" "linked ?m new l" using n(1) [of z] n(2) [of new] n(1) [of new] n(2) [of l] z(2) nz by (auto simp: linked_def)
  ultimately have "successively (linked ?m) ((l # ys) @ [new, l])" unfolding successively_append_iff z_def by auto
  then show ?thesis using assms(2) s(2) ap unfolding ring_def by auto
qed

lemma remove_first:
  assumes "ring m (x # y # ys)"
  shows "ring (list_remove x m) (y # ys)" "ring (list_remove x m) [x]"
proof -
  define z where "z = last (y # ys)"
  let ?m = "list_remove x m"
  have e: "prv m x = z" "nxt m x = y" using ring_ends [OF assms] by (simp_all add: z_def)
  have ap: "apart a b" if "a \<in> set (x # y # ys)" "b \<in> set (x # y # ys)" for a b using that assms unfolding ring_def by blast
  have d: "distinct (x # y # ys)" using assms by (simp add: ring_def)
  have nz: "z \<noteq> x" "y \<noteq> x" "z \<in> set (y # ys)" using d last_in_set [of "y # ys"] unfolding z_def by (auto simp del: last.simps)
  have n: "nxt ?m b = (if b = x then x else if b = z then y else nxt m b)" "prv ?m b = (if b = x then x else if b = y then z else prv m b)"
    if "b \<in> set (x # y # ys)" for b
  proof -
    have A: "apart x b" "apart z b" "apart y b" "apart z x" "apart y x" using nz(3) that by (auto intro: ap)
    show "nxt ?m b = (if b = x then x else if b = z then y else nxt m b)" "prv ?m b = (if b = x then x else if b = y then z else prv m b)"
      unfolding list_remove_def Let_def e using nz by (auto simp: node_fields A e)
  qed
  have s: "successively (linked m) (y # ys)" "distinct (y # ys)" using ring_chain [OF assms] d by simp_all
  have "successively (linked ?m) (y # ys)"
  proof (rule successively_change [OF s])
    fix a assume "a \<in> set (butlast (y # ys))"
    then have "a \<in> set (y # ys)" "a \<noteq> z" using butlast_last_distinct [OF s(2)] in_set_butlastD unfolding z_def by fast+
    then show "nxt ?m a = nxt m a" using n(1) [of a] d by auto
  next
    fix b assume "b \<in> set (tl (y # ys))"
    then show "prv ?m b = prv m b" using n(2) [of b] d by auto
  qed
  moreover have "linked ?m z y" using n(1) [of z] n(2) [of y] nz by (auto simp: linked_def)
  ultimately have "successively (linked ?m) ((y # ys) @ [y])" unfolding successively_append_iff z_def by auto
  then show "ring ?m (y # ys)" using s(2) ap unfolding ring_def by auto
  show "ring ?m [x]" using n [of x] by (simp add: ring_def linked_def)
qed

lemma insert_before:
  assumes "ring m (h # xs @ x # ys)" "new \<notin> set (h # xs @ x # ys)" "\<forall>a\<in>set (h # xs @ x # ys). apart new a"
  shows "ring (list_insert new x m) (h # xs @ new # x # ys)"
proof -
  have "ring m (x # ys @ h # xs)" using ring_rotate [of m "h # xs" "x # ys"] assms(1) by simp
  then have "ring (list_insert new x m) ((x # ys) @ h # xs @ [new])" using insert_before_first [of m x "ys @ h # xs" new] assms(2,3) by auto
  from ring_rotate [OF this] show ?thesis by simp
qed

lemma remove_any:
  assumes "ring m (h # xs @ x # ys)"
  shows "ring (list_remove x m) (h # xs @ ys)" "ring (list_remove x m) [x]"
proof -
  have "ring m (x # ys @ h # xs)" using ring_rotate [of m "h # xs" "x # ys"] assms by simp
  then have "ring (list_remove x m) (ys @ h # xs)" "ring (list_remove x m) [x]"
    using remove_first [of m x "hd (ys @ h # xs)" "tl (ys @ h # xs)"] by (cases ys; simp)+
  with ring_rotate [of _ ys "h # xs"] show "ring (list_remove x m) (h # xs @ ys)" "ring (list_remove x m) [x]" by simp_all
qed

section \<open>Clients\<close>

text \<open>A client appends nodes to the list at \<open>h\<close>, inserts them before others and removes them; \<open>abs_op\<close> is what that means for a plain list.\<close>

datatype list_op = Append u64 | InsertBefore u64 u64 | Remove u64

fun mem_op :: "u64 \<Rightarrow> list_op \<Rightarrow> mem \<Rightarrow> mem" where
  "mem_op h (Append new) m = list_append new h m"
| "mem_op h (InsertBefore new x) m = list_insert new x m"
| "mem_op h (Remove x) m = list_remove x m"

fun abs_op :: "list_op \<Rightarrow> u64 list \<Rightarrow> u64 list" where
  "abs_op (Append new) xs = xs @ [new]"
| "abs_op (InsertBefore new x) xs = takeWhile (\<lambda>y. y \<noteq> x) xs @ new # dropWhile (\<lambda>y. y \<noteq> x) xs"
| "abs_op (Remove x) xs = remove1 x xs"

definition fresh :: "u64 \<Rightarrow> u64 list \<Rightarrow> bool" where
  "fresh new ns \<longleftrightarrow> new \<notin> set ns \<and> list_all (apart new) ns"

fun valid_op :: "u64 \<Rightarrow> u64 list \<Rightarrow> list_op \<Rightarrow> bool" where
  "valid_op h xs (Append new) = fresh new (h # xs)"
| "valid_op h xs (InsertBefore new x) = (fresh new (h # xs) \<and> x \<in> set xs)"
| "valid_op h xs (Remove x) = (x \<in> set xs)"

definition valid_ops :: "u64 \<Rightarrow> list_op list \<Rightarrow> bool" where
  "valid_ops h ops \<longleftrightarrow> admissible (\<lambda>p xs. valid_op h xs p) abs_op ops []"

lemma op_ring:
  assumes "ring m (h # xs)" "valid_op h xs p"
  shows "ring (mem_op h p m) (h # abs_op p xs)"
proof (cases p)
  case (Append new)
  then show ?thesis using insert_before_first [OF assms(1), of new] assms(2) by (auto simp: fresh_def list_all_iff list_append_def)
next
  case (InsertBefore new x)
  then obtain as bs where xs: "xs = as @ x # bs" "x \<notin> set as" using assms(2) split_list_first [of x xs] by auto
  then have "takeWhile (\<lambda>y. y \<noteq> x) xs = as" "dropWhile (\<lambda>y. y \<noteq> x) xs = x # bs" by (auto simp: takeWhile_append dropWhile_append)
  then show ?thesis using insert_before [of m h as x bs new] assms InsertBefore xs by (auto simp: fresh_def list_all_iff)
next
  case (Remove x)
  then obtain as bs where xs: "xs = as @ x # bs" "x \<notin> set as" using assms(2) split_list_first [of x xs] by auto
  then have "remove1 x xs = as @ bs" by (simp add: remove1_append)
  then show ?thesis using remove_any(1) [of m h as x bs] assms(1) Remove xs by simp
qed

interpretation cl: total_simulation "mem_op h" abs_op "\<lambda>p xs. valid_op h xs p" "\<lambda>m xs. ring m (h # xs)" for h
  by unfold_locales (rule op_ring)

section \<open>Properties\<close>

text \<open>
  C15. A list in memory behaves as a plain list: after \<open>list_init\<close> and any sequence of appends, insertions before a node of the list and
  removals of nodes of the list, where a new node overlaps neither the head nor a node of the list, the nodes form
  a ring that holds exactly the elements of the plain list in their order, and \<open>list_next\<close> and
  \<open>list_last\<close> of the head return the first and the last of them, or NULL when there is none.
\<close>
theorem list_is_ring:
  assumes "valid_ops h ops"
  shows "ring (fold (mem_op h) ops (list_init h m)) (h # fold abs_op ops []) \<and>
    list_next (fold (mem_op h) ops (list_init h m)) h = (if fold abs_op ops [] = [] then 0 else hd (fold abs_op ops [])) \<and>
    list_last (fold (mem_op h) ops (list_init h m)) h = (if fold abs_op ops [] = [] then 0 else last (fold abs_op ops []))"
proof -
  have "ring (list_init h m) [h]" by (simp add: ring_def linked_def list_init_def Let_def node_fields)
  then have r: "ring (fold (mem_op h) ops (list_init h m)) (h # fold abs_op ops [])"
    using assms unfolding valid_ops_def by (rule cl.fold_simulates)
  then have "h \<notin> set (fold abs_op ops [])" by (simp add: ring_def)
  with r ring_ends [OF r] show ?thesis by (auto simp: list_next_def list_last_def hd_append)
qed

theorem list_is_ring_witness:
  "list_last (fold (mem_op 0x1000) [Append 0x2000, Append 0x3000, InsertBefore 0x4000 0x3000, Remove 0x3000] (list_init 0x1000 (\<lambda>_. 0))) 0x1000 = 0x4000"
proof -
  have "valid_ops 0x1000 [Append 0x2000, Append 0x3000, InsertBefore 0x4000 0x3000, Remove 0x3000]"
    by (simp add: valid_ops_def fresh_def apart_def disjoint_regions_diff)
  from list_is_ring [OF this, of "\<lambda>_. 0"] show ?thesis by simp
qed

end
