(* ===== verification/Serial.thy ===== *)
theory Serial
  imports Stdio PortIO
begin

text \<open>
  The serial console (\<open>tools/serial.c\<close>) and \<open>printk\<close>. The state is the machine with its history of port
  accesses; the characters sent are the bytes written to the data port of COM1. \<open>None\<close> stands for
  a call that does not return (a transmitter that never becomes ready, a string without an end) or takes an argument that is not there.
\<close>

section \<open>The port\<close>

definition SERIAL_COM1 :: u16 where "SERIAL_COM1 = 0x3F8"

definition serial_init :: "'a machine_scheme \<Rightarrow> 'a machine_scheme" where
  "serial_init s =
    (let s = outb (SERIAL_COM1 + 1) 0x00 s;
         s = outb (SERIAL_COM1 + 3) 0x80 s;
         s = outb (SERIAL_COM1 + 0) 0x01 s;
         s = outb (SERIAL_COM1 + 1) 0x00 s;
         s = outb (SERIAL_COM1 + 3) 0x03 s;
         s = outb (SERIAL_COM1 + 2) 0xC7 s
     in outb (SERIAL_COM1 + 4) 0x0B s)"

partial_function (option) serial_wait_tx :: "device \<Rightarrow> 'a machine_scheme \<Rightarrow> 'a machine_scheme option" where
  "serial_wait_tx dev s =
    (let (v, s) = inb dev (SERIAL_COM1 + 5) s in if v AND 0x20 = 0 then serial_wait_tx dev s else Some s)"

definition putc :: "device \<Rightarrow> u8 \<Rightarrow> 'a machine_scheme \<Rightarrow> 'a machine_scheme option" where
  "putc dev c s = do { s \<leftarrow> serial_wait_tx dev s; Some (outb SERIAL_COM1 c s) }"

primrec putcs :: "device \<Rightarrow> u8 list \<Rightarrow> 'a machine_scheme \<Rightarrow> 'a machine_scheme option" where
  "putcs dev [] s = Some s"
| "putcs dev (c # cs) s = do { s \<leftarrow> putc dev c s; putcs dev cs s }"

definition put_text_char :: "device \<Rightarrow> u8 \<Rightarrow> 'a machine_scheme \<Rightarrow> 'a machine_scheme option" where
  "put_text_char dev c s = do { s \<leftarrow> (if c = 10 then putc dev 13 s else Some s); putc dev c s }"

partial_function (option) serial_write_from :: "device \<Rightarrow> mem \<Rightarrow> u64 \<Rightarrow> u64 \<Rightarrow> 'a machine_scheme \<Rightarrow> 'a machine_scheme option" where
  "serial_write_from dev m msg i s =
    do { n \<leftarrow> strlen m msg;
         if i < n then do { s \<leftarrow> put_text_char dev (m (msg + i)) s; serial_write_from dev m msg (i + 1) s }
         else Some s }"

definition serial_write :: "device \<Rightarrow> mem \<Rightarrow> u64 \<Rightarrow> 'a machine_scheme \<Rightarrow> 'a machine_scheme option" where
  "serial_write dev m msg s = serial_write_from dev m msg 0 s"

section \<open>Numbers\<close>

text \<open>The local buffer is the list of its first \<open>i\<close> characters.\<close>

definition hex_char :: "u64 \<Rightarrow> u8" where
  "hex_char d = [48, 49, 50, 51, 52, 53, 54, 55, 56, 57, 97, 98, 99, 100, 101, 102] ! unat d"

function hex_buffer :: "u64 \<Rightarrow> u8 list \<Rightarrow> u8 list" where
  "hex_buffer num buffer =
    (if num > 0 \<and> length buffer < 16 then hex_buffer (drop_bit 4 num) (buffer @ [hex_char (num AND 0xF)]) else buffer)"
  by pat_completeness auto
termination by (relation "measure (\<lambda>(num, buffer). 16 - length buffer)") auto

declare hex_buffer.simps [simp del]

definition serial_print_hex :: "device \<Rightarrow> u64 \<Rightarrow> nat \<Rightarrow> 'a machine_scheme \<Rightarrow> 'a machine_scheme option" where
  "serial_print_hex dev num width s =
    (if num = 0 then putc dev 48 s
     else let buffer = hex_buffer num [];
              buffer = buffer @ replicate (width - length buffer) 48
          in putcs dev (rev buffer) s)"

function dec_buffer :: "i64 \<Rightarrow> u8 list \<Rightarrow> u8 list" where
  "dec_buffer num buffer =
    (if sint num > 0 then dec_buffer (of_int (sint num div 10)) (buffer @ [of_int (48 + sint num mod 10)]) else buffer)"
  by pat_completeness auto
termination
proof (relation "measure (\<lambda>(num, buffer). nat (sint num))")
  fix num :: i64 and buffer :: "u8 list" assume n: "0 < sint num"
  have "sint num < 2 ^ 63" using sint_lt [of num] by simp
  then have "sint (of_int (sint num div 10) :: i64) = sint num div 10" using n by (simp add: signed_of_int signed_take_bit_int_eq_self)
  then show "((of_int (sint num div 10), buffer @ [of_int (48 + sint num mod 10)]), num, buffer) \<in> measure (\<lambda>(num, buffer). nat (sint num))" using n by simp
qed simp

declare dec_buffer.simps [simp del]

definition print_positive :: "device \<Rightarrow> i64 \<Rightarrow> 'a machine_scheme \<Rightarrow> 'a machine_scheme option" where
  "print_positive dev num s = (if num = 0 then putc dev 48 s else putcs dev (rev (dec_buffer num [])) s)"

definition serial_print_dec :: "device \<Rightarrow> i64 \<Rightarrow> 'a machine_scheme \<Rightarrow> 'a machine_scheme option" where
  "serial_print_dec dev num s =
    (if sint num < 0 then do { s \<leftarrow> putc dev 45 s; print_positive dev (- num) s } else print_positive dev num s)"

section \<open>Formats\<close>

definition length_modifier :: "mem \<Rightarrow> u64 \<Rightarrow> (bool \<times> bool) \<times> u64" where
  "length_modifier m p =
    (if m p = 108 then (if m (p + 1) = 108 then ((False, True), p + 2) else ((True, False), p + 1))
     else if m p = 76 then ((False, True), p + 1) else ((False, False), p))"

definition serial_directive ::
    "device \<Rightarrow> mem \<Rightarrow> u8 \<Rightarrow> bool \<Rightarrow> bool \<Rightarrow> u64 list \<Rightarrow> 'a machine_scheme \<Rightarrow> (u64 list \<times> 'a machine_scheme) option" where
  "serial_directive dev m c is_long is_longlong args s =
    (if c = 100 \<or> c = 105 then
       do { (a, args) \<leftarrow> next_arg args; s \<leftarrow> serial_print_dec dev (scast (ucast a :: i32)) s; Some (args, s) }
     else if c = 117 then
       do { (a, args) \<leftarrow> next_arg args; s \<leftarrow> serial_print_dec dev (ucast (ucast a :: u32)) s; Some (args, s) }
     else if c = 120 then
       do { (a, args) \<leftarrow> next_arg args;
            s \<leftarrow> (if is_longlong then do { s \<leftarrow> putcs dev [48, 120] s; serial_print_hex dev a 16 s }
                  else if is_long then do { s \<leftarrow> (if a \<noteq> 0 then putcs dev [48, 120] s else Some s); serial_print_hex dev a 16 s }
                  else let v = (ucast a :: u32) in
                    do { s \<leftarrow> (if v \<noteq> 0 then putcs dev [48, 120] s else Some s); serial_print_hex dev (ucast v) 0 s });
            Some (args, s) }
     else if c = 88 then
       do { (a, args) \<leftarrow> next_arg args;
            s \<leftarrow> (if is_longlong then do { s \<leftarrow> putcs dev [48, 120] s; serial_print_hex dev a 16 s }
                  else if is_long then serial_print_hex dev a 16 s
                  else serial_print_hex dev (ucast (ucast a :: u32)) 0 s);
            Some (args, s) }
     else if c = 112 then
       do { s \<leftarrow> putcs dev [48, 120] s; (a, args) \<leftarrow> next_arg args; s \<leftarrow> serial_print_hex dev a 0 s; Some (args, s) }
     else if c = 115 then
       do { (a, args) \<leftarrow> next_arg args; s \<leftarrow> serial_write dev m a s; Some (args, s) }
     else if c = 99 then
       do { (a, args) \<leftarrow> next_arg args; s \<leftarrow> putc dev (ucast a) s; Some (args, s) }
     else if c = 37 then do { s \<leftarrow> putc dev 37 s; Some (args, s) }
     else do { s \<leftarrow> putc dev 37 s; s \<leftarrow> putc dev c s; Some (args, s) })"

partial_function (option) serial_printf :: "device \<Rightarrow> mem \<Rightarrow> u64 \<Rightarrow> u64 list \<Rightarrow> 'a machine_scheme \<Rightarrow> 'a machine_scheme option" where
  "serial_printf dev m p args s =
    (if m p = 0 then Some s
     else if m p = 37 \<and> m (p + 1) \<noteq> 0 then
       do { let ((is_long, is_longlong), p) = length_modifier m (p + 1);
            (args, s) \<leftarrow> serial_directive dev m (m p) is_long is_longlong args s;
            serial_printf dev m (p + 1) args s }
     else do { s \<leftarrow> put_text_char dev (m p) s; serial_printf dev m (p + 1) args s })"

definition printk :: "device \<Rightarrow> u64 \<Rightarrow> mem \<Rightarrow> u64 \<Rightarrow> u64 list \<Rightarrow> 'a machine_scheme \<Rightarrow> ((i32 \<times> mem) \<times> 'a machine_scheme) option" where
  "printk dev buf m fmt args s =
    do { (m, i) \<leftarrow> vsprintf m buf fmt args;
         s \<leftarrow> serial_write dev m buf s;
         Some ((i, m), s) }"

section \<open>What is sent\<close>

fun sent :: "io list \<Rightarrow> u8 list" where
  "sent [] = []"
| "sent (e # tr) = sent tr @ (case e of Out8 p c \<Rightarrow> if p = SERIAL_COM1 then [c] else [] | _ \<Rightarrow> [])"

text \<open>The history after \<open>k\<close> polls, and a transmitter that becomes ready after some number of them, whatever was sent before.\<close>

definition polled :: "device \<Rightarrow> nat \<Rightarrow> io list \<Rightarrow> io list" where
  "polled dev k tr = ((\<lambda>tr. In8 (SERIAL_COM1 + 5) (port8 dev tr (SERIAL_COM1 + 5)) # tr) ^^ k) tr"

definition tx_ready :: "device \<Rightarrow> bool" where
  "tx_ready dev \<longleftrightarrow> (\<forall>tr. \<exists>k. bit (port8 dev (polled dev k tr) (SERIAL_COM1 + 5)) 5)"

type_synonym 'a console = "'a machine_scheme \<Rightarrow> 'a machine_scheme option"

definition emits :: "('a machine_scheme \<Rightarrow> 'a machine_scheme option) \<Rightarrow> u8 list \<Rightarrow> bool" where
  "emits f bs \<longleftrightarrow> (\<forall>s. \<exists>tr. f s = Some (s\<lparr>trace := tr\<rparr>) \<and> sent tr = sent (trace s) @ bs)"

lemma emitsI: "(\<And>s. f s = Some (s\<lparr>trace := h s\<rparr>)) \<Longrightarrow> (\<And>s. sent (h s) = sent (trace s) @ bs) \<Longrightarrow> emits f bs"
  unfolding emits_def by blast

lemma emits_cong: "emits g bs \<Longrightarrow> (\<And>s. f s = g s) \<Longrightarrow> emits f bs"
  unfolding emits_def by simp

lemma emits_Nil: "(\<And>s. f s = Some s) \<Longrightarrow> emits f []"
  by (rule emitsI [where h = trace]) simp_all

lemma emits_seq:
  assumes "emits f as" "emits g bs"
  shows "emits (\<lambda>s. f s \<bind> g) (as @ bs)"
  unfolding emits_def
proof
  fix s
  obtain tr where 1: "f s = Some (s\<lparr>trace := tr\<rparr>)" "sent tr = sent (trace s) @ as" using assms(1) unfolding emits_def by blast
  obtain tr' where "g (s\<lparr>trace := tr\<rparr>) = Some (s\<lparr>trace := tr\<rparr>\<lparr>trace := tr'\<rparr>)" "sent tr' = sent tr @ bs" using assms(2) unfolding emits_def by fastforce
  then show "\<exists>tr. f s \<bind> g = Some (s\<lparr>trace := tr\<rparr>) \<and> sent tr = sent (trace s) @ as @ bs" using 1 by auto
qed

lemma wait_tx:
  assumes "bit (port8 dev (polled dev k (trace s)) (SERIAL_COM1 + 5)) 5"
  shows "\<exists>tr. serial_wait_tx dev s = Some (s\<lparr>trace := tr\<rparr>) \<and> sent tr = sent (trace s)"
  using assms
proof (induction k arbitrary: s)
  case 0
  let ?v = "port8 dev (trace s) (SERIAL_COM1 + 5)"
  have "?v AND 0x20 \<noteq> 0" using 0 and_exp_eq_0_iff_not_bit [of ?v 5] by (simp add: polled_def)
  then have "serial_wait_tx dev s = Some (s\<lparr>trace := In8 (SERIAL_COM1 + 5) ?v # trace s\<rparr>)"
    by (subst serial_wait_tx.simps) (simp add: inb_def emit_def Let_def)
  moreover have "sent (In8 (SERIAL_COM1 + 5) ?v # trace s) = sent (trace s)" by simp
  ultimately show ?case by blast
next
  case (Suc k)
  let ?e = "In8 (SERIAL_COM1 + 5) (port8 dev (trace s) (SERIAL_COM1 + 5))"
  have "polled dev k (trace (emit ?e s)) = polled dev (Suc k) (trace s)" unfolding polled_def funpow_Suc_right comp_def trace_emit ..
  from Suc.IH [of "emit ?e s", unfolded this, OF Suc.prems] obtain tr where
    "serial_wait_tx dev (emit ?e s) = Some ((emit ?e s)\<lparr>trace := tr\<rparr>)" "sent tr = sent (trace (emit ?e s))" by blast
  moreover have "port8 dev (trace s) (SERIAL_COM1 + 5) AND 0x20 = 0 \<Longrightarrow> serial_wait_tx dev s = serial_wait_tx dev (emit ?e s)"
    by (subst serial_wait_tx.simps) (simp add: inb_def Let_def)
  moreover have "serial_wait_tx dev s = Some (s\<lparr>trace := ?e # trace s\<rparr>)" if "port8 dev (trace s) (SERIAL_COM1 + 5) AND 0x20 \<noteq> 0"
    using that by (subst serial_wait_tx.simps) (simp add: inb_def emit_def Let_def)
  moreover have "(emit ?e s)\<lparr>trace := tr\<rparr> = s\<lparr>trace := tr\<rparr>" "sent (?e # trace s) = sent (trace s)" by (simp_all add: emit_def)
  ultimately show ?case by (cases "port8 dev (trace s) (SERIAL_COM1 + 5) AND 0x20 = 0") (metis trace_emit)+
qed

lemma emits_putc: "tx_ready dev \<Longrightarrow> emits (putc dev c) [c]"
  unfolding emits_def
proof
  fix s assume "tx_ready dev"
  then obtain k where "bit (port8 dev (polled dev k (trace s)) (SERIAL_COM1 + 5)) 5" by (auto simp: tx_ready_def)
  from wait_tx [OF this] obtain tr where "serial_wait_tx dev s = Some (s\<lparr>trace := tr\<rparr>)" "sent tr = sent (trace s)" by blast
  then have "putc dev c s = Some (s\<lparr>trace := Out8 SERIAL_COM1 c # tr\<rparr>)" "sent (Out8 SERIAL_COM1 c # tr) = sent (trace s) @ [c]"
    by (simp_all add: putc_def outb_def emit_def)
  then show "\<exists>tr. putc dev c s = Some (s\<lparr>trace := tr\<rparr>) \<and> sent tr = sent (trace s) @ [c]" by blast
qed

lemma emits_putcs:
  assumes "tx_ready dev"
  shows "emits (putcs dev cs) cs"
proof (induction cs)
  case (Cons c cs)
  show ?case using emits_seq [OF emits_putc [OF assms, of c] Cons.IH] by simp
next
  case Nil
  show ?case by (rule emits_Nil) simp
qed

section \<open>Numbers sent\<close>

lemma hex_char_eq: "unat d < 16 \<Longrightarrow> hex_char d = digit_char (unat d)"
proof -
  assume d: "unat d < 16"
  have all: "\<forall>k \<in> set [0..<16]. hex_char (of_nat k) = digit_char k" by code_simp
  have "unat d \<in> set [0..<16]" unfolding set_upt atLeastLessThan_iff using d by simp
  from bspec [OF all this] show ?thesis by simp
qed

lemma hex_buffer_spec:
  assumes "length buffer + length (udigits 16 (unat num)) \<le> 16"
  shows "hex_buffer num buffer = buffer @ map digit_char (udigits 16 (unat num))"
  using assms
proof (induction num buffer rule: hex_buffer.induct)
  case (1 num buffer)
  show ?case
  proof (cases "num = 0")
    case True
    then show ?thesis by (simp add: hex_buffer.simps udigits.simps)
  next
    case False
    have u: "udigits 16 (unat num) = unat num mod 16 # udigits 16 (unat num div 16)" using False by (simp add: udigits.simps [of 16 "unat num"] unat_eq_0)
    have low: "unat (num AND 0xF) = unat num mod 16" 
    proof -
      have "num AND 0xF = take_bit 4 num" by (simp add: take_bit_eq_mask mask_eq_exp_minus_1)
      then show ?thesis by (simp add: take_bit_eq_mod unat_mod)
    qed
    have "unat (drop_bit 4 num) = unat num div 16" by (simp add: unat_div drop_bit_eq_div)
    then show ?thesis using False 1 u low hex_char_eq [of "num AND 0xF"] by (subst hex_buffer.simps) (simp add: word_gt_0)
  qed
qed

lemma dec_buffer_spec: "0 \<le> sint num \<Longrightarrow> dec_buffer num buffer = buffer @ map digit_char (udigits 10 (nat (sint num)))"
proof (induction num buffer rule: dec_buffer.induct)
  case (1 num buffer)
  show ?case
  proof (cases "sint num = 0")
    case True
    then show ?thesis by (simp add: dec_buffer.simps udigits.simps)
  next
    case False
    let ?n = "nat (sint num)"
    have u: "udigits 10 ?n = ?n mod 10 # udigits 10 (?n div 10)" using False 1 by (simp add: udigits.simps [of 10 ?n])
    have "sint num < 2 ^ 63" using sint_lt [of num] by simp
    then have q: "sint (of_int (sint num div 10) :: i64) = sint num div 10" using 1 by (simp add: signed_of_int signed_take_bit_int_eq_self)
    have "of_int (48 + sint num mod 10) = digit_char (?n mod 10)"
    proof -
      have "sint num mod 10 = int (?n mod 10)" using 1 by (simp add: zmod_int)
      moreover have "?n mod 10 \<le> 9" by simp
      ultimately show ?thesis by (simp only: digit_char_def) simp
    qed
    then show ?thesis using False 1 u q by (subst dec_buffer.simps) (simp add: nat_div_distrib)
  qed
qed

lemma udigits_16_length: "length (udigits 16 (unat (num :: u64))) \<le> 16"
  by (rule udigits_length_power) (use unat_lt_2p64 [of num] in simp_all)

definition padded :: "nat \<Rightarrow> u8 list \<Rightarrow> u8 list" where
  "padded w t = replicate (w - length t) 48 @ t"

lemma emits_hex:
  assumes "tx_ready dev"
  shows "emits (serial_print_hex dev num w) (if num = 0 then [48] else padded w (numeral_of 16 (unat num)))"
proof (cases "num = 0")
  case True
  have "emits (serial_print_hex dev num w) [48]" by (rule emits_cong [OF emits_putc [OF assms]]) (simp add: serial_print_hex_def True)
  then show ?thesis using True by simp
next
  case False
  let ?b = "map digit_char (udigits 16 (unat num))"
  have "hex_buffer num [] = ?b" using hex_buffer_spec [of "[]" num] udigits_16_length [of num] by simp
  then have "emits (serial_print_hex dev num w) (replicate (w - length ?b) 48 @ rev ?b)"
    by (intro emits_cong [OF emits_putcs [OF assms]]) (simp add: serial_print_hex_def False)
  then show ?thesis using False by (simp add: numeral_of_def rev_map padded_def unat_eq_0)
qed

lemma emits_positive:
  assumes "tx_ready dev" "0 \<le> sint v"
  shows "emits (print_positive dev v) (numeral_of 10 (nat (sint v)))"
proof (cases "v = 0")
  case True
  have "emits (print_positive dev v) [48]" by (rule emits_cong [OF emits_putc [OF assms(1)]]) (simp add: print_positive_def True)
  then show ?thesis using True by (simp add: numeral_of_def)
next
  case False
  then have "nat (sint v) \<noteq> 0" using assms(2) sint_eq_0 [of v] by auto
  moreover have "emits (print_positive dev v) (rev (map digit_char (udigits 10 (nat (sint v)))))"
    by (rule emits_cong [OF emits_putcs [OF assms(1)]]) (simp add: print_positive_def False dec_buffer_spec [OF assms(2)])
  ultimately show ?thesis by (simp add: numeral_of_def rev_map)
qed

lemma sint_minus_64:
  assumes "- (2 ^ 63) < sint (num :: i64)"
  shows "sint (- num) = - sint num"
proof -
  have "sint num < 2 ^ 63" using sint_lt [of num] by simp
  then have "sint (of_int (- sint num) :: i64) = - sint num" using assms by (simp only: signed_of_int) (simp add: signed_take_bit_int_eq_self)
  then show ?thesis by simp
qed

lemma emits_dec:
  assumes "tx_ready dev" "- (2 ^ 63) < sint num"
  shows "emits (serial_print_dec dev num) ((if sint num < 0 then [45] else []) @ numeral_of 10 (nat \<bar>sint num\<bar>))"
proof (cases "sint num < 0")
  case True
  have "emits (serial_print_dec dev num) ([45] @ numeral_of 10 (nat (sint (- num))))"
    by (rule emits_cong [OF emits_seq [OF emits_putc emits_positive]]) (use assms True sint_minus_64 in \<open>simp_all add: serial_print_dec_def\<close>)
  then show ?thesis using True sint_minus_64 [OF assms(2)] by simp
next
  case False
  have "emits (serial_print_dec dev num) (numeral_of 10 (nat (sint num)))"
    by (rule emits_cong [OF emits_positive]) (use assms False in \<open>simp_all add: serial_print_dec_def\<close>)
  then show ?thesis using False by simp
qed

text \<open>A text with carriage returns before its line ends.\<close>

definition with_cr :: "u8 list \<Rightarrow> u8 list" where
  "with_cr t = concat (map (\<lambda>c. if c = 10 then [13, 10] else [c]) t)"

lemma emits_text_char:
  assumes "tx_ready dev"
  shows "emits (put_text_char dev c) (if c = 10 then [13, 10] else [c])"
proof (cases "c = 10")
  case True
  have "emits (put_text_char dev c) ([13] @ [10])"
    by (rule emits_cong [OF emits_seq [OF emits_putc emits_putc]]) (use assms True in \<open>simp_all add: put_text_char_def\<close>)
  then show ?thesis using True by simp
next
  case False
  have "emits (put_text_char dev c) [c]" by (rule emits_cong [OF emits_putc [OF assms]]) (simp add: put_text_char_def False)
  then show ?thesis using False by simp
qed

lemma emits_write:
  assumes "tx_ready dev" "cstr m msg t"
  shows "emits (serial_write dev m msg :: 'a console) (with_cr t)"
proof -
  have n: "strlen m msg = Some (of_nat (length t))" "length t < 2 ^ 64" using strlen_cstr [OF assms(2)] cstr_length [OF assms(2)] by simp_all
  have "emits (serial_write_from dev m msg (of_nat i) :: 'a console) (with_cr (drop i t))" if "i \<le> length t" for i
    using that
  proof (induction "length t - i" arbitrary: i)
    case 0
    then have i: "i = length t" by simp
    have "emits (serial_write_from dev m msg (of_nat i) :: 'a console) []" by (rule emits_Nil) (subst serial_write_from.simps, simp add: n i)
    then show ?case using i by (simp add: with_cr_def)
  next
    case (Suc k)
    then have i: "i < length t" by simp
    have c: "m (msg + of_nat i) = t ! i" using cstr_nth [OF assms(2) i] .
    have less: "(of_nat i :: u64) < of_nat (length t)" using i n(2) by (simp add: word_less_nat_alt unat_of_nat_64)
    have "emits (serial_write_from dev m msg (of_nat i) :: 'a console) ((if t ! i = 10 then [13, 10] else [t ! i]) @ with_cr (drop (Suc i) t))"
    proof (rule emits_cong [OF emits_seq [OF emits_text_char [OF assms(1)]]])
      show "emits (serial_write_from dev m msg (of_nat (Suc i)) :: 'a console) (with_cr (drop (Suc i) t))" using Suc.hyps(1) [of "Suc i"] Suc.hyps(2) by simp
      show "serial_write_from dev m msg (of_nat i) s = put_text_char dev (t ! i) s \<bind> serial_write_from dev m msg (of_nat (Suc i))" for s :: "'a machine_scheme"
        using n(1) less c by (subst serial_write_from.simps) (simp add: add.commute)
    qed
    moreover have "with_cr (drop i t) = (if t ! i = 10 then [13, 10] else [t ! i]) @ with_cr (drop (Suc i) t)"
      unfolding Cons_nth_drop_Suc [OF i, symmetric] with_cr_def by simp
    ultimately show ?case by (simp only:)
  qed
  from this [of 0] show ?thesis by (simp add: emits_def serial_write_def)
qed

section \<open>Formats sent\<close>

datatype arg_kind = KDec | KUns | KHex | KHexLL | KPtr | KStr | KChr

datatype format_piece = Text u8 | Percent | Arg arg_kind

fun kind_format :: "arg_kind \<Rightarrow> u8 list" where
  "kind_format KDec = [37, 100]" | "kind_format KUns = [37, 117]" | "kind_format KHex = [37, 120]" | "kind_format KHexLL = [37, 108, 108, 120]"
| "kind_format KPtr = [37, 112]" | "kind_format KStr = [37, 115]" | "kind_format KChr = [37, 99]"

fun format_bytes :: "format_piece \<Rightarrow> u8 list" where
  "format_bytes (Text c) = [c]" | "format_bytes Percent = [37, 37]" | "format_bytes (Arg k) = kind_format k"

fun arg_text :: "mem \<Rightarrow> arg_kind \<Rightarrow> u64 \<Rightarrow> u8 list \<Rightarrow> bool" where
  "arg_text m KDec a t = (let v = sint (ucast a :: i32) in t = (if v < 0 then [45] else []) @ numeral_of 10 (nat \<bar>v\<bar>))"
| "arg_text m KUns a t = (t = numeral_of 10 (unat (ucast a :: u32)))"
| "arg_text m KHex a t = (let v = (ucast a :: u32) in t = (if v = 0 then [48] else [48, 120] @ numeral_of 16 (unat v)))"
| "arg_text m KHexLL a t = (t = [48, 120] @ (if a = 0 then [48] else padded 16 (numeral_of 16 (unat a))))"
| "arg_text m KPtr a t = (t = [48, 120] @ numeral_of 16 (unat a))"
| "arg_text m KStr a t = (\<exists>u. cstr m a u \<and> t = with_cr u)"
| "arg_text m KChr a t = (t = [ucast a])"

text \<open>\<open>out\<close> is what the pieces of a format stand for with these arguments.\<close>

fun says :: "mem \<Rightarrow> format_piece list \<Rightarrow> u64 list \<Rightarrow> u8 list \<Rightarrow> bool" where
  "says m [] as out \<longleftrightarrow> out = []"
| "says m (Text c # ps) as out \<longleftrightarrow> c \<noteq> 37 \<and> (\<exists>w. out = (if c = 10 then [13, 10] else [c]) @ w \<and> says m ps as w)"
| "says m (Percent # ps) as out \<longleftrightarrow> (\<exists>w. out = 37 # w \<and> says m ps as w)"
| "says m (Arg k # ps) (a # as) out \<longleftrightarrow> (\<exists>t w. arg_text m k a t \<and> out = t @ w \<and> says m ps as w)"
| "says m (Arg k # ps) [] out \<longleftrightarrow> False"

lemma padded_0 [simp]: "padded 0 t = t"
  by (simp add: padded_def)

fun kind_char :: "arg_kind \<Rightarrow> u8" where
  "kind_char KDec = 100" | "kind_char KUns = 117" | "kind_char KHex = 120" | "kind_char KHexLL = 120" | "kind_char KPtr = 112" | "kind_char KStr = 115" | "kind_char KChr = 99"

lemma kind_parsed:
  assumes "cstr m p (kind_format k @ r)"
  shows "m p = 37" "m (p + 1) \<noteq> 0" "length_modifier m (p + 1) = ((False, k = KHexLL), p + of_nat (length (kind_format k) - 1))"
    "m (p + of_nat (length (kind_format k) - 1)) = kind_char k"
  using assms by (cases k; auto simp: length_modifier_def add.assoc)+

lemma bind_args: "(x \<bind> (\<lambda>s. Some (args, s))) = map_option (Pair args) x"
  by (cases x) simp_all

lemma emits_prefixed:
  assumes "tx_ready dev"
  shows "emits (\<lambda>s. putcs dev [48, 120] s \<bind> serial_print_hex dev v w) ([48, 120] @ (if v = 0 then [48] else padded w (numeral_of 16 (unat v))))"
  by (rule emits_seq [OF emits_putcs [OF assms] emits_hex [OF assms]])

lemma sint_int_arg: "sint (scast (v :: i32) :: i64) = sint v" "- (2 ^ 63) < sint v" "sint (ucast (w :: u32) :: i64) = int (unat w)" "- (2 ^ 63) < sint (ucast (w :: u32) :: i64)"
proof -
  have v: "- (2 ^ 31) \<le> sint v" "sint v < 2 ^ 31" using sint_ge [of v] sint_lt [of v] by simp_all
  then show "- (2 ^ 63) < sint v" by simp
  show "sint (scast v :: i64) = sint v" using v by (simp add: signed_scast_eq signed_take_bit_int_eq_self)
  have "0 \<le> uint w" "uint w < 2 ^ 32" using unsigned_less [of w] by simp_all
  moreover have low: "- (2 ^ 63) < uint w" by (rule less_le_trans [of _ 0]) simp_all
  ultimately have "signed_take_bit 63 (uint w) = uint w" by (intro signed_take_bit_int_eq_self) simp_all
  then show "sint (ucast w :: i64) = int (unat w)" "- (2 ^ 63) < sint (ucast w :: i64)" using low by (simp_all add: signed_ucast_eq)
qed

text \<open>The function a directive runs, and that it sends the text of the argument.\<close>

fun directive_output :: "device \<Rightarrow> mem \<Rightarrow> arg_kind \<Rightarrow> u64 \<Rightarrow> 'a console" where
  "directive_output dev m KDec a = serial_print_dec dev (scast (ucast a :: i32))"
| "directive_output dev m KUns a = serial_print_dec dev (ucast (ucast a :: u32))"
| "directive_output dev m KHex a = (if (ucast a :: u32) = 0 then putc dev 48 else (\<lambda>s. putcs dev [48, 120] s \<bind> serial_print_hex dev (ucast (ucast a :: u32)) 0))"
| "directive_output dev m KHexLL a = (\<lambda>s. putcs dev [48, 120] s \<bind> serial_print_hex dev a 16)"
| "directive_output dev m KPtr a = (\<lambda>s. putcs dev [48, 120] s \<bind> serial_print_hex dev a 0)"
| "directive_output dev m KStr a = serial_write dev m a"
| "directive_output dev m KChr a = putc dev (ucast a)"

lemma directive_runs: "serial_directive dev m (kind_char k) False (k = KHexLL) (a # args) s = map_option (Pair args) (directive_output dev m k a s)"
proof (cases k)
  case KHex
  then show ?thesis by (simp add: serial_directive_def next_arg_def bind_args serial_print_hex_def split: if_splits)
qed (simp_all add: serial_directive_def next_arg_def bind_args flip: bind_args)

lemma directive_emits:
  assumes "tx_ready dev" "arg_text m k a t"
  shows "emits (directive_output dev m k a :: 'a console) t"
proof (cases k)
  case KDec
  then show ?thesis using emits_dec [OF assms(1), of "scast (ucast a :: i32)"] sint_int_arg(1,2) [of "ucast a"] assms(2) by (simp add: Let_def)
next
  case KUns
  then show ?thesis using emits_dec [OF assms(1), of "ucast (ucast a :: u32)"] sint_int_arg(3,4) [of "ucast a"] assms(2) by simp
next
  case KHex
  have u: "unat (ucast v :: u64) = unat v" for v :: u32
  proof -
    have "unat v < 2 ^ 32" using unsigned_less [of v] by simp
    then show ?thesis by (simp add: unsigned_ucast_eq take_bit_nat_eq_self)
  qed
  have "(ucast (ucast a :: u32) :: u64) = 0 \<longleftrightarrow> (ucast a :: u32) = 0" "unat (ucast (ucast a :: u32) :: u64) = unat (ucast a :: u32)"
    using u [of "ucast a"] by (metis unat_eq_0 u) (rule u)
  then show ?thesis using KHex emits_prefixed [OF assms(1), of "ucast (ucast a :: u32)" 0] emits_putc [OF assms(1), of 48] assms(2) by (auto simp: Let_def)
next
  case KHexLL
  then show ?thesis using emits_prefixed [OF assms(1), of a 16] assms(2) by simp
next
  case KPtr
  then show ?thesis using emits_prefixed [OF assms(1), of a 0] assms(2) by (simp add: numeral_of_def split: if_splits)
next
  case KStr
  then show ?thesis using emits_write [OF assms(1)] assms(2) by auto
next
  case KChr
  then show ?thesis using emits_putc [OF assms(1)] assms(2) by simp
qed

lemma emits_format:
  assumes "tx_ready dev" "cstr m p (concat (map format_bytes ps))" "says m ps args out"
  shows "emits (serial_printf dev m p args :: 'a console) out"
  using assms(2,3)
proof (induction ps arbitrary: p args out)
  case Nil
  have "emits (serial_printf dev m p args :: 'a console) []" by (rule emits_Nil) (use Nil in \<open>simp add: serial_printf.simps\<close>)
  then show ?case using Nil by simp
next
  case (Cons pc ps)
  let ?r = "concat (map format_bytes ps)"
  show ?case
  proof (cases pc)
    case (Text c)
    with Cons.prems obtain w where w: "out = (if c = 10 then [13, 10] else [c]) @ w" "says m ps args w" "c \<noteq> 37" by auto
    have c: "m p = c" "c \<noteq> 0" "cstr m (p + 1) ?r" using Cons.prems(1) Text by simp_all
    show ?thesis unfolding w(1)
      by (rule emits_cong [OF emits_seq [OF emits_text_char [OF assms(1)] Cons.IH [OF c(3) w(2)]]]) (use c w in \<open>simp add: serial_printf.simps [of dev m p]\<close>)
  next
    case Percent
    with Cons.prems obtain w where w: "out = [37] @ w" "says m ps args w" by auto
    have c: "m p = 37" "m (p + 1) = 37" "cstr m (p + 2) ?r" using Cons.prems(1) Percent by (simp_all add: add.assoc)
    show ?thesis unfolding w(1)
      by (rule emits_cong [OF emits_seq [OF emits_putc [OF assms(1)] Cons.IH [OF c(3) w(2)]]])
        (use c in \<open>simp add: serial_printf.simps [of dev m p] length_modifier_def serial_directive_def add.assoc\<close>)
  next
    case (Arg k)
    with Cons.prems(2) obtain a as t w where w: "args = a # as" "arg_text m k a t" "out = t @ w" "says m ps as w" by (cases args) auto
    have f: "cstr m p (kind_format k @ ?r)" using Cons.prems(1) Arg by simp
    have l: "1 \<le> length (kind_format k)" by (cases k) simp_all
    have rest: "cstr m (p + of_nat (length (kind_format k))) ?r" using cstr_drop [OF f, of "length (kind_format k)"] by simp
    have step: "p + of_nat (length (kind_format k) - 1) + 1 = p + of_nat (length (kind_format k))" using l by (simp add: of_nat_diff)
    show ?thesis unfolding w(3)
      by (rule emits_cong [OF emits_seq [OF directive_emits [OF assms(1) w(2)] Cons.IH [OF rest w(4)]]])
        (use kind_parsed [OF f] w(1) step in \<open>simp add: serial_printf.simps [of dev m p] directive_runs bind_map_option comp_def add.assoc\<close>)
  qed
qed

section \<open>Properties\<close>

text \<open>
  C29. With a transmitter that always becomes ready again after some number of polls, \<open>serial_printf\<close> returns for every format
  of characters other than percent signs, \<open>%d\<close>, \<open>%u\<close>, \<open>%x\<close>, \<open>%llx\<close>, \<open>%p\<close>, \<open>%s\<close>, \<open>%c\<close> and \<open>%%\<close>
  with enough arguments, and has then sent exactly the text they stand for: line ends preceded by a carriage return, signed and
  unsigned decimal numerals of the lower 32 bits, hexadecimal numerals with their prefix, padded to 16 digits for
  \<open>%llx\<close>. The rest of the machine is unchanged.
\<close>
theorem serial_printf_correct:
  assumes "tx_ready dev" "cstr m fmt (concat (map format_bytes ps))" "says m ps args out"
  shows "\<exists>tr. serial_printf dev m fmt args s = Some (s\<lparr>trace := tr\<rparr>) \<and> sent tr = sent (trace s) @ out"
  using emits_format [OF assms] unfolding emits_def by blast

text \<open>The line \<open>n=-5 0x1f\<close> on a port that is busy at every other poll.\<close>

definition busy_port :: device where
  "busy_port = \<lparr>port8 = \<lambda>tr p. if even (length tr) then 0x60 else 0x40, port16 = \<lambda>tr p. 0, port32 = \<lambda>tr p. 0, mmio32 = \<lambda>tr a. 0, msr = \<lambda>tr r. 0, cr4 = \<lambda>tr. 0\<rparr>"

theorem serial_printf_correct_witness:
  "\<exists>tr. serial_printf busy_port (store_bytes (\<lambda>_. 0) 0x1000 [110, 61, 37, 100, 32, 37, 120, 10, 0]) 0x1000 [- 5, 0x1F] \<lparr>trace = []\<rparr> = Some \<lparr>trace = tr\<rparr> \<and>
    sent tr = [110, 61, 45, 53, 32, 48, 120, 49, 102, 13, 10]"
proof -
  let ?ps = "[Text 110, Text 61, Arg KDec, Text 32, Arg KHex, Text 10]"
  let ?m = "store_bytes (\<lambda>_. 0) 0x1000 [110, 61, 37, 100, 32, 37, 120, 10, 0] :: mem"
  have "tx_ready busy_port" unfolding tx_ready_def
  proof
    fix tr
    have "\<exists>k. even (length (polled busy_port k tr))"
      by (cases "even (length tr)") (auto simp: polled_def intro: exI [of _ 0] exI [of _ 1])
    then show "\<exists>k. bit (port8 busy_port (polled busy_port k tr) (SERIAL_COM1 + 5)) 5" by (auto simp: busy_port_def bit_numeral_rec)
  qed
  moreover have "cstr ?m 0x1000 (concat (map format_bytes ?ps))" by simp
  moreover have n: "numeral_of 10 5 = [53]" "numeral_of 16 31 = [49, 102]" by code_simp+
  have "says ?m ?ps [- 5, 0x1F] [110, 61, 45, 53, 32, 48, 120, 49, 102, 13, 10]" by (simp add: n)
  ultimately show ?thesis using serial_printf_correct [of busy_port ?m "0x1000" ?ps "[- 5, 0x1F]" _ "\<lparr>trace = []\<rparr>"] by auto
qed

end
