(* ===== verification/Log.thy ===== *)
theory Log
  imports Printf Time
begin

text \<open>
  Messages on the terminal (\<open>tools/log-info.c\<close>, \<open>tools/includes/log-info.h\<close>). What is handed to \<open>flanterm_write\<close> is a list of
  bytes. The local array \<open>message\<close> is the list of its first bytes, and writing behind its 1024th is
  \<open>None\<close>, as are a string without an end and a missing argument; the short arrays that hold a converted number
  are one buffer at \<open>num\<close>.
\<close>

section \<open>Levels and colours\<close>

datatype result_t = Ok | Info | Warn | Fatal

definition result_str :: "result_t \<Rightarrow> u8 list" where
  "result_str level =
    (case level of Ok \<Rightarrow> [79, 75, 58, 32] | Info \<Rightarrow> [73, 78, 70, 79, 58, 32] | Warn \<Rightarrow> [87, 65, 82, 78, 58, 32] | Fatal \<Rightarrow> [70, 65, 84, 65, 76, 58, 32])"

definition COLOR_RED :: "u8 list" where "COLOR_RED = [27, 91, 51, 49, 109]"
definition COLOR_GREEN :: "u8 list" where "COLOR_GREEN = [27, 91, 51, 50, 109]"
definition COLOR_YELLOW :: "u8 list" where "COLOR_YELLOW = [27, 91, 51, 51, 109]"
definition COLOR_BOLD :: "u8 list" where "COLOR_BOLD = [27, 91, 49, 109]"
definition COLOR_DIM :: "u8 list" where "COLOR_DIM = [27, 91, 50, 109]"
definition COLOR_RESET :: "u8 list" where "COLOR_RESET = [27, 91, 48, 109]"

definition get_status_color :: "result_t \<Rightarrow> u8 list" where
  "get_status_color level =
    (case level of Ok \<Rightarrow> COLOR_GREEN | Info \<Rightarrow> COLOR_BOLD | Warn \<Rightarrow> COLOR_YELLOW | Fatal \<Rightarrow> COLOR_RED)"

section \<open>The message\<close>

definition add_bytes :: "u8 list \<Rightarrow> u8 list \<Rightarrow> u8 list option" where
  "add_bytes bs msg = (if length msg + length bs \<le> 1024 then Some (msg @ bs) else None)"

partial_function (option) strcpy_advance :: "mem \<Rightarrow> u64 \<Rightarrow> u8 list \<Rightarrow> u8 list option" where
  "strcpy_advance m src msg =
    (if m src \<noteq> 0 then do { msg \<leftarrow> add_bytes [m src] msg; strcpy_advance m (src + 1) msg } else Some msg)"

definition add_number :: "u64 \<Rightarrow> i32 \<Rightarrow> u32 \<Rightarrow> mem \<Rightarrow> u8 list \<Rightarrow> (mem \<times> u8 list) option" where
  "add_number num v base m msg =
    do { (m, _) \<leftarrow> itoa m v num base; msg \<leftarrow> strcpy_advance m num msg; Some (m, msg) }"

text \<open>A string that may be missing.\<close>

definition add_string :: "mem \<Rightarrow> u64 \<Rightarrow> u8 list \<Rightarrow> u8 list option" where
  "add_string m p msg = (if p = 0 then add_bytes [60, 117, 110, 107, 110, 111, 119, 110, 62] msg else strcpy_advance m p msg)"

partial_function (option) last_slash_from :: "mem \<Rightarrow> u64 \<Rightarrow> u64 \<Rightarrow> u64 option" where
  "last_slash_from m file last_slash =
    (if m file \<noteq> 0 then last_slash_from m (file + 1) (if m file = 47 \<or> m file = 92 then file + 1 else last_slash)
     else Some last_slash)"

definition add_file :: "mem \<Rightarrow> u64 \<Rightarrow> u8 list \<Rightarrow> u8 list option" where
  "add_file m file msg =
    (if file = 0 then add_string m 0 msg else do { p \<leftarrow> last_slash_from m file file; strcpy_advance m p msg })"

definition add_time :: "u64 \<Rightarrow> u32 \<Rightarrow> mem \<Rightarrow> u8 list \<Rightarrow> (mem \<times> u8 list) option" where
  "add_time num now m msg =
    (let ms = (ucast now :: u64); secs = (ucast (ms div 1000) :: u32); msecs = (ucast (ms mod 1000) :: u32) in
     do { msg \<leftarrow> add_bytes [91] msg;
          msg \<leftarrow> (if secs < 10 then add_bytes [32, 32] msg else if secs < 100 then add_bytes [32] msg else Some msg);
          (m, msg) \<leftarrow> add_number num secs 10 m msg;
          msg \<leftarrow> add_bytes [46] msg;
          msg \<leftarrow> (if msecs < 100 then add_bytes [48] msg else Some msg);
          msg \<leftarrow> (if msecs < 10 then add_bytes [48] msg else Some msg);
          (m, msg) \<leftarrow> add_number num msecs 10 m msg;
          msg \<leftarrow> add_bytes [93] msg;
          msg \<leftarrow> add_bytes [32] msg;
          Some (m, msg) })"

definition add_status :: "result_t \<Rightarrow> u8 list \<Rightarrow> u8 list option" where
  "add_status level msg =
    do { msg \<leftarrow> add_bytes (get_status_color level) msg;
         msg \<leftarrow> add_bytes (result_str level) msg;
         if level \<noteq> Info then add_bytes COLOR_RESET msg else Some msg }"

definition add_place :: "u64 \<Rightarrow> u64 \<Rightarrow> u64 \<Rightarrow> i32 \<Rightarrow> mem \<Rightarrow> u8 list \<Rightarrow> (mem \<times> u8 list) option" where
  "add_place num from file line m msg =
    do { msg \<leftarrow> add_bytes COLOR_DIM msg;
         msg \<leftarrow> add_bytes [91] msg;
         msg \<leftarrow> add_string m from msg;
         msg \<leftarrow> add_bytes [32, 105, 110, 32] msg;
         msg \<leftarrow> add_file m file msg;
         msg \<leftarrow> add_bytes [58] msg;
         (m, msg) \<leftarrow> add_number num line 10 m msg;
         msg \<leftarrow> add_bytes [93] msg;
         msg \<leftarrow> add_bytes COLOR_RESET msg;
         msg \<leftarrow> add_bytes [32] msg;
         Some (m, msg) }"

section \<open>The format\<close>

definition log_directive :: "u64 \<Rightarrow> u8 \<Rightarrow> u64 list \<Rightarrow> mem \<Rightarrow> u8 list \<Rightarrow> (u64 list \<times> mem \<times> u8 list) option" where
  "log_directive num c args m msg =
    (if c = 100 \<or> c = 105 \<or> c = 117 then
       do { (a, args) \<leftarrow> next_arg args; (m, msg) \<leftarrow> add_number num (ucast a) 10 m msg; Some (args, m, msg) }
     else if c = 115 then
       do { (a, args) \<leftarrow> next_arg args; msg \<leftarrow> (if a \<noteq> 0 then strcpy_advance m a msg else Some msg); Some (args, m, msg) }
     else if c = 112 \<or> c = 120 then
       do { (a, args) \<leftarrow> next_arg args; msg \<leftarrow> add_bytes [48] msg; msg \<leftarrow> add_bytes [120] msg;
            (m, msg) \<leftarrow> add_number num (ucast a) 16 m msg; Some (args, m, msg) }
     else if c = 37 then do { msg \<leftarrow> add_bytes [37] msg; Some (args, m, msg) }
     else do { msg \<leftarrow> add_bytes [37] msg; msg \<leftarrow> add_bytes [c] msg; Some (args, m, msg) })"

partial_function (option) log_format :: "u64 \<Rightarrow> u64 \<Rightarrow> u64 list \<Rightarrow> mem \<Rightarrow> u8 list \<Rightarrow> (mem \<times> u8 list) option" where
  "log_format num fmt args m msg =
    (if m fmt = 0 then Some (m, msg)
     else if m fmt = 37 then
       do { let fmt = fmt + 1;
            (args, m', msg) \<leftarrow> log_directive num (m fmt) args m msg;
            log_format num (if m' fmt \<noteq> 0 then fmt + 1 else fmt) args m' msg }
     else do { msg \<leftarrow> add_bytes [m fmt] msg; log_format num (fmt + 1) args m msg })"

text \<open>What is written to the terminal: nothing without a terminal or a format.\<close>

definition log_to_terminal ::
    "device \<Rightarrow> clock \<Rightarrow> u64 \<Rightarrow> bool \<Rightarrow> result_t \<Rightarrow> u64 \<Rightarrow> u64 \<Rightarrow> i32 \<Rightarrow> u64 \<Rightarrow> u64 list \<Rightarrow> mem \<Rightarrow> 'a timer_scheme \<Rightarrow> (u8 list \<times> 'a timer_scheme) option" where
  "log_to_terminal dev k num has_terminal level from file line fmt args m s =
    (if \<not> has_terminal \<or> fmt = 0 then Some ([], s) else
     do { (now, s) \<leftarrow> get_time_ms dev k s;
          (m, msg) \<leftarrow> add_time num now m [];
          msg \<leftarrow> add_status level msg;
          (m, msg) \<leftarrow> add_place num from file line m msg;
          (m, msg) \<leftarrow> log_format num fmt args m msg;
          _ \<leftarrow> add_bytes [0] msg;
          Some (msg, s) })"

definition printcol :: "bool \<Rightarrow> mem \<Rightarrow> u64 \<Rightarrow> u64 \<Rightarrow> u8 list option" where
  "printcol has_terminal m color text =
    (if has_terminal then
       do { n \<leftarrow> strlen m color; k \<leftarrow> strlen m text;
            Some (bytes_at m color (unat n) @ bytes_at m text (unat k) @ COLOR_RESET) }
     else Some [])"

section \<open>What a message says\<close>

definition separator :: "u8 \<Rightarrow> bool" where "separator c \<longleftrightarrow> c = 47 \<or> c = 92"

definition base_name :: "u8 list \<Rightarrow> u8 list" where
  "base_name path = rev (takeWhile (\<lambda>c. \<not> separator c) (rev path))"

definition time_text :: "nat \<Rightarrow> u8 list" where
  "time_text ms =
    (let secs = ms div 1000; msecs = ms mod 1000; s = numeral_of 10 secs; t = numeral_of 10 msecs in
     [91] @ replicate (3 - length s) 32 @ s @ [46] @ replicate (3 - length t) 48 @ t @ [93, 32])"

definition status_text :: "result_t \<Rightarrow> u8 list" where
  "status_text level = get_status_color level @ result_str level @ (if level = Info then [] else COLOR_RESET)"

definition place_text :: "u8 list \<Rightarrow> u8 list \<Rightarrow> i32 \<Rightarrow> u8 list" where
  "place_text from path line =
    COLOR_DIM @ [91] @ from @ [32, 105, 110, 32] @ base_name path @ [58] @ signed_numeral line 10 @ [93] @ COLOR_RESET @ [32]"

datatype log_piece = LText u8 | LPercent | LNum u8 | LHex u8 | LStr

fun log_piece_format :: "log_piece \<Rightarrow> u8 list" where
  "log_piece_format (LText c) = [c]" | "log_piece_format LPercent = [37, 37]" | "log_piece_format (LNum c) = [37, c]"
| "log_piece_format (LHex c) = [37, c]" | "log_piece_format LStr = [37, 115]"

definition string_apart :: "u64 \<Rightarrow> mem \<Rightarrow> u64 \<Rightarrow> u8 list \<Rightarrow> bool" where
  "string_apart num m p t \<longleftrightarrow> cstr m p t \<and> disjoint_regions num 64 p (length t + 1)"

text \<open>\<open>out\<close> is what the pieces of a format stand for with these arguments.\<close>

fun log_says :: "u64 \<Rightarrow> mem \<Rightarrow> log_piece list \<Rightarrow> u64 list \<Rightarrow> u8 list \<Rightarrow> bool" where
  "log_says num m [] as out \<longleftrightarrow> out = []"
| "log_says num m (LText c # ps) as out \<longleftrightarrow> c \<noteq> 37 \<and> (\<exists>w. out = c # w \<and> log_says num m ps as w)"
| "log_says num m (LPercent # ps) as out \<longleftrightarrow> (\<exists>w. out = 37 # w \<and> log_says num m ps as w)"
| "log_says num m (LNum c # ps) (a # as) out \<longleftrightarrow> c \<in> {100, 105, 117} \<and> (\<exists>w. out = signed_numeral (ucast a) 10 @ w \<and> log_says num m ps as w)"
| "log_says num m (LHex c # ps) (a # as) out \<longleftrightarrow> c \<in> {112, 120} \<and> (\<exists>w. out = [48, 120] @ signed_numeral (ucast a) 16 @ w \<and> log_says num m ps as w)"
| "log_says num m (LStr # ps) (a # as) out \<longleftrightarrow>
    (\<exists>t w. (if a = 0 then t = [] else string_apart num m a t) \<and> out = t @ w \<and> log_says num m ps as w)"
| "log_says num m _ _ out \<longleftrightarrow> False"

section \<open>Adding to the message\<close>

lemma add_bytes_fits [simp]: "length msg + length bs \<le> 1024 \<Longrightarrow> add_bytes bs msg = Some (msg @ bs)"
  by (simp add: add_bytes_def)

lemma strcpy_advance_cstr: "cstr m p t \<Longrightarrow> length msg + length t \<le> 1024 \<Longrightarrow> strcpy_advance m p msg = Some (msg @ t)"
  by (induction t arbitrary: p msg) (simp_all add: strcpy_advance.simps)

lemma string_apart_frame: "string_apart num m p t \<Longrightarrow> only_buffer num m m' \<Longrightarrow> string_apart num m' p t"
  by (auto simp: string_apart_def intro: cstr_only_buffer)

lemma log_says_frame: "log_says num m ps as out \<Longrightarrow> only_buffer num m m' \<Longrightarrow> log_says num m' ps as out"
  by (induction num m ps as out rule: log_says.induct) (auto intro: string_apart_frame split: if_splits)

lemma only_buffer_trans: "only_buffer num m m' \<Longrightarrow> only_buffer num m' m'' \<Longrightarrow> only_buffer num m m''"
  by (simp add: only_buffer_def)

lemma add_number_text:
  assumes "2 \<le> unat base" "unat base \<le> 36" "length msg + length (signed_numeral v base) \<le> 1024"
  shows "\<exists>m'. add_number num v base m msg = Some (m', msg @ signed_numeral v base) \<and> only_buffer num m m'"
proof -
  let ?t = "signed_numeral v base"
  obtain m' where m': "itoa m v num base = Some (m', num)" "cstr m' num ?t" "\<And>x. x \<notin> region num (length ?t + 1) \<Longrightarrow> m' x = m x"
    using itoa_spec [OF assms(1,2), of m v num] by auto
  have "length ?t \<le> 33" by (rule signed_numeral_length [OF assms(1)])
  then have "only_buffer num m m'" using m'(3) region_mono [of "length ?t + 1" 64 num] by (auto simp: only_buffer_def)
  then show ?thesis using m' strcpy_advance_cstr [OF m'(2) assms(3)] by (simp add: add_number_def)
qed

lemmas add_decimal = add_number_text [of 10, simplified]
lemmas add_hexadecimal = add_number_text [of 16, simplified]

lemma base_name_plain: "\<forall>x \<in> set t. \<not> separator x \<Longrightarrow> base_name t = t"
proof -
  assume "\<forall>x \<in> set t. \<not> separator x"
  then have "takeWhile (\<lambda>c. \<not> separator c) (rev t) = rev t" by (simp add: takeWhile_eq_all_conv)
  then show ?thesis unfolding base_name_def by (simp only: rev_rev_ident)
qed

lemma base_name_Cons:
  "base_name (c # t) = (if (\<exists>x \<in> set t. separator x) then base_name t else if separator c then t else c # t)"
  by (auto simp: base_name_def takeWhile_append takeWhile_eq_all_conv)

lemma base_name_suffix: "length (base_name t) \<le> length t" "drop (length t - length (base_name t)) t = base_name t"
proof -
  let ?P = "\<lambda>c. \<not> separator c"
  have "t = rev (dropWhile ?P (rev t)) @ base_name t"
    unfolding base_name_def by (simp flip: rev_append)
  then obtain u where u: "t = u @ base_name t" by blast
  then have "length t = length u + length (base_name t)" by (metis length_append)
  then show "length (base_name t) \<le> length t" "drop (length t - length (base_name t)) t = base_name t"
    using arg_cong [OF u, of "drop (length u)"] by simp_all
qed

lemma last_slash_cstr:
  "cstr m p t \<Longrightarrow> last_slash_from m p d =
    Some (if \<exists>x \<in> set t. separator x then p + of_nat (length t - length (base_name t)) else d)"
proof (induction t arbitrary: p d)
  case Nil
  then show ?case by (simp add: last_slash_from.simps)
next
  case (Cons c t)
  have "Suc (length t) - length (base_name t) = Suc (length t - length (base_name t))" using base_name_suffix(1) [of t] by simp
  then show ?case using Cons by (subst last_slash_from.simps) (auto simp: base_name_Cons separator_def add.assoc)
qed

lemma add_file_text:
  assumes "cstr m p t" "p \<noteq> 0" "length msg + length (base_name t) \<le> 1024"
  shows "add_file m p msg = Some (msg @ base_name t)"
proof -
  have "cstr m (p + of_nat (length t - length (base_name t))) (base_name t)"
    using cstr_drop [OF assms(1), of "length t - length (base_name t)"] base_name_suffix [of t] by simp
  moreover have "cstr m p (base_name t)" if "\<not> (\<exists>x \<in> set t. separator x)" using that assms(1) by (simp add: base_name_plain)
  ultimately show ?thesis using strcpy_advance_cstr [OF _ assms(3)] assms(2) by (simp add: add_file_def last_slash_cstr [OF assms(1)])
qed

lemma small_numeral: "unat v < 2 ^ 31 \<Longrightarrow> signed_numeral v 10 = numeral_of 10 (unat v)"
proof -
  assume "unat v < 2 ^ 31"
  then have "int (unat v) < 2 ^ 31" by (simp only: of_nat_less_numeral_power_cancel_iff)
  then have "uint v < 2 ^ 31" by simp
  moreover have "- (2 ^ 31) \<le> sint v" using sint_ge [of v] by simp
  ultimately have "\<not> sint v < 0" using sint_conv [of v] by (cases "bit v 31") simp_all
  then show ?thesis by (simp add: signed_numeral_def)
qed

lemma numeral_of_length: "3 - length (numeral_of 10 n) = (if n < 10 then 2 else if n < 100 then 1 else 0)"
proof -
  consider "n = 0" | "0 < n" "n < 10" | "10 \<le> n" "n < 100" | "100 \<le> n" by linarith
  then show ?thesis
  proof cases
    case 4
    then have "n \<noteq> 0" "n div 10 \<noteq> 0" "n div 10 div 10 \<noteq> 0" by linarith+
    then show ?thesis using 4 unfolding numeral_of_def
      by (simp only: udigits.simps [of 10 n] udigits.simps [of 10 "n div 10"] udigits.simps [of 10 "n div 10 div 10"]) simp
  qed (simp_all add: numeral_of_def udigits.simps [of 10 n] udigits.simps [of 10 "n div 10"] udigits.simps [of 10 0])
qed

lemma replicate_twice: "replicate 2 c = [c, c]"
  by (simp add: numeral_2_eq_2)

lemma add_time_text:
  assumes "length msg + length (time_text (unat now)) \<le> 1024"
  shows "\<exists>m'. add_time num now m msg = Some (m', msg @ time_text (unat now)) \<and> only_buffer num m m'"
proof -
  define secs where "secs = (ucast ((ucast now :: u64) div 1000) :: u32)"
  define msecs where "msecs = (ucast ((ucast now :: u64) mod 1000) :: u32)"
  have now: "unat now < 2 ^ 32" using unsigned_less [of now] by simp
  then have u: "unat (ucast now :: u64) = unat now" by (simp add: unsigned_ucast_eq take_bit_nat_eq_self)
  have secs: "unat secs = unat now div 1000" "unat secs < 2 ^ 31"
    using now u by (simp_all add: secs_def unsigned_ucast_eq unat_div take_bit_nat_eq_self)
  have msecs: "unat msecs = unat now mod 1000" "unat msecs < 1000"
    using u by (simp_all add: msecs_def unsigned_ucast_eq unat_mod take_bit_nat_eq_self)
  let ?s = "numeral_of 10 (unat secs)" and ?t = "numeral_of 10 (unat msecs)"
  have texts: "signed_numeral secs 10 = ?s" "signed_numeral msecs 10 = ?t"
    using secs(2) msecs(2) by (simp_all add: small_numeral)
  have pads: "replicate (3 - length ?s) (32 :: u8) = (if secs < 10 then [32, 32] else if secs < 100 then [32] else [])"
    "replicate (3 - length ?t) (48 :: u8) = (if msecs < 100 then [48] else []) @ (if msecs < 10 then [48] else [])"
    using msecs(2) by (simp_all add: numeral_of_length word_less_nat_alt replicate_twice)
  have whole: "time_text (unat now) = [91] @ (if secs < 10 then [32, 32] else if secs < 100 then [32] else []) @ ?s @ [46] @
      ((if msecs < 100 then [48] else []) @ (if msecs < 10 then [48] else [])) @ ?t @ [93, 32]"
    unfolding time_text_def Let_def pads(1) [symmetric] pads(2) [symmetric] secs(1) msecs(1) ..
  let ?p = "if secs < 10 then [32, 32 :: u8] else if secs < 100 then [32] else []" and ?q = "(if msecs < 100 then [48 :: u8] else []) @ (if msecs < 10 then [48] else [])"
  have fits: "length msg + length ?p + length ?s + length ?q + length ?t + 4 \<le> 1024" using assms unfolding whole by simp
  obtain m1 where m1: "add_number num secs 10 m (msg @ [91] @ ?p) = Some (m1, (msg @ [91] @ ?p) @ ?s)" "only_buffer num m m1"
    using add_decimal [of "msg @ [91] @ ?p" secs num m] fits texts by auto
  obtain m2 where m2: "add_number num msecs 10 m1 (msg @ [91] @ ?p @ ?s @ [46] @ ?q) = Some (m2, (msg @ [91] @ ?p @ ?s @ [46] @ ?q) @ ?t)" "only_buffer num m1 m2"
    using add_decimal [of "msg @ [91] @ ?p @ ?s @ [46] @ ?q" msecs num m1] fits texts by auto
  have "add_time num now m msg = Some (m2, msg @ time_text (unat now))"
    using m1(1) m2(1) fits unfolding whole add_time_def Let_def secs_def [symmetric] msecs_def [symmetric]
    by (simp split: if_splits)
  then show ?thesis using only_buffer_trans [OF m1(2) m2(2)] by blast
qed

lemma add_status_text: "length msg + length (status_text level) \<le> 1024 \<Longrightarrow> add_status level msg = Some (msg @ status_text level)"
  by (auto simp: add_status_def status_text_def)

lemma add_place_text:
  assumes "string_apart num m from f" "from \<noteq> 0" "string_apart num m file path" "file \<noteq> 0"
    "length msg + length (place_text f path line) \<le> 1024"
  shows "\<exists>m'. add_place num from file line m msg = Some (m', msg @ place_text f path line) \<and> only_buffer num m m'"
proof -
  let ?n = "signed_numeral line 10" and ?b = "base_name path"
  have c: "cstr m from f" "cstr m file path" using assms(1,3) by (simp_all add: string_apart_def)
  have fits: "length msg + length COLOR_DIM + length f + length ?b + length ?n + length COLOR_RESET + 8 \<le> 1024"
    using assms(5) by (simp add: place_text_def)
  let ?pre = "msg @ COLOR_DIM @ [91] @ f @ [32, 105, 110, 32] @ ?b @ [58]"
  obtain m' where m': "add_number num line 10 m ?pre = Some (m', ?pre @ ?n)" "only_buffer num m m'"
    using add_decimal [of ?pre line num m] fits by auto
  have "add_string m from (msg @ COLOR_DIM @ [91]) = Some (msg @ COLOR_DIM @ [91] @ f)"
    using assms(2) strcpy_advance_cstr [OF c(1), of "msg @ COLOR_DIM @ [91]"] fits by (simp add: add_string_def)
  moreover have "add_file m file (msg @ COLOR_DIM @ [91] @ f @ [32, 105, 110, 32]) = Some (msg @ COLOR_DIM @ [91] @ f @ [32, 105, 110, 32] @ ?b)"
    using add_file_text [OF c(2) assms(4), of "msg @ COLOR_DIM @ [91] @ f @ [32, 105, 110, 32]"] fits by simp
  ultimately show ?thesis using m' fits by (simp add: add_place_def place_text_def)
qed

text \<open>One directive with its argument: the message grows by what it stands for, and only the number buffer changes.\<close>

lemma log_directive_number:
  assumes "c \<in> {100, 105, 117}" "length msg + length (signed_numeral (ucast a) 10) \<le> 1024"
  shows "\<exists>m'. log_directive num c (a # as) m msg = Some (as, m', msg @ signed_numeral (ucast a) 10) \<and> only_buffer num m m'"
  using add_decimal [OF assms(2), of num m] assms(1) by (auto simp: log_directive_def next_arg_def)

lemma log_directive_hex:
  assumes "c \<in> {112, 120}" "length msg + length (signed_numeral (ucast a) 16) + 2 \<le> 1024"
  shows "\<exists>m'. log_directive num c (a # as) m msg = Some (as, m', msg @ [48, 120] @ signed_numeral (ucast a) 16) \<and> only_buffer num m m'"
proof -
  have "length (msg @ [48, 120]) + length (signed_numeral (ucast a) 16) \<le> 1024" using assms(2) by simp
  from add_hexadecimal [OF this, of num m] show ?thesis using assms by (auto simp: log_directive_def next_arg_def)
qed

lemma log_directive_string:
  assumes "if a = 0 then t = [] else cstr m a t" "length msg + length t \<le> 1024"
  shows "log_directive num 115 (a # as) m msg = Some (as, m, msg @ t)"
  using assms strcpy_advance_cstr [of m a t msg] by (auto simp: log_directive_def next_arg_def)

lemma string_apart_drop:
  assumes "string_apart num m p (s @ t)"
  shows "string_apart num m (p + of_nat (length s)) t"
proof -
  have c: "cstr m p (s @ t)" and d: "disjoint_regions num 64 p (length (s @ t) + 1)" using assms by (simp_all add: string_apart_def)
  have "region (p + of_nat (length s)) (length t + 1) \<subseteq> region p (length (s @ t) + 1)"
    by (rule region_shift) (use cstr_length [OF c] in simp_all)
  then show ?thesis using cstr_drop [OF c, of "length s"] disjoint_regions_mono [OF d subset_refl] by (simp add: string_apart_def)
qed

lemma log_format_directive:
  assumes "string_apart num m fmt (37 # c # r)" "log_directive num c args m msg = Some (as, m1, msg1)" "only_buffer num m m1"
  shows "log_format num fmt args m msg = log_format num (fmt + 2) as m1 msg1"
proof -
  have "m fmt = 37" "m (fmt + 1) = c" "m1 (fmt + 1) \<noteq> 0"
    using assms(1) string_apart_frame [OF assms(1,3)] by (auto simp: string_apart_def)
  then show ?thesis using assms(2) by (subst log_format.simps) (simp add: add.assoc)
qed

lemma log_format_pieces:
  assumes "string_apart num m fmt (concat (map log_piece_format ps))" "log_says num m ps args out" "length msg + length out \<le> 1024"
  shows "\<exists>m'. log_format num fmt args m msg = Some (m', msg @ out)"
  using assms
proof (induction ps arbitrary: fmt args m msg out)
  case Nil
  then show ?case by (simp add: string_apart_def log_format.simps)
next
  case (Cons pc ps)
  let ?r = "concat (map log_piece_format ps)"
  have rest: "string_apart num m' (fmt + of_nat (length (log_piece_format pc))) ?r" if "only_buffer num m m'" for m'
    using string_apart_drop [of num m' fmt "log_piece_format pc"] string_apart_frame [OF Cons.prems(1) that] by simp
  have directive: ?case if c: "log_piece_format pc = [37, c]" and d: "log_directive num c args m msg = Some (as, m1, msg @ t)" "only_buffer num m m1"
    and w: "out = t @ w" "log_says num m ps as w" for c as m1 t w
  proof -
    have "log_format num fmt args m msg = log_format num (fmt + 2) as m1 (msg @ t)"
      using log_format_directive [of num m fmt c ?r, OF _ d] Cons.prems(1) c by simp
    then show ?thesis using Cons.IH [OF rest [OF d(2)] log_says_frame [OF w(2) d(2)], of "msg @ t"] Cons.prems(3) w c by simp
  qed
  show ?case
  proof (cases pc)
    case (LText c)
    with Cons.prems obtain w where w: "out = c # w" "log_says num m ps args w" "c \<noteq> 37" by auto
    have c: "m fmt = c" "c \<noteq> 0" using Cons.prems(1) LText by (simp_all add: string_apart_def)
    from Cons.IH [OF rest w(2), of "msg @ [c]"] Cons.prems(3) show ?thesis using c w LText by (subst log_format.simps) auto
  next
    case LPercent
    with Cons.prems obtain w where w: "out = [37] @ w" "log_says num m ps args w" by auto
    have "log_directive num 37 args m msg = Some (args, m, msg @ [37])" using Cons.prems(3) w by (simp add: log_directive_def)
    then show ?thesis using LPercent by (intro directive [OF _ _ only_buffer_refl w]) simp_all
  next
    case LStr
    with Cons.prems(2) obtain a as t w where w: "args = a # as" "if a = 0 then t = [] else string_apart num m a t" "out = t @ w" "log_says num m ps as w"
      by (cases args) auto
    have "if a = 0 then t = [] else cstr m a t" using w(2) by (auto simp: string_apart_def split: if_splits)
    then show ?thesis using log_directive_string [of a t m msg num as] Cons.prems(3) w LStr by (intro directive [OF _ _ only_buffer_refl w(3,4)]) simp_all
  next
    case (LNum c)
    with Cons.prems(2) obtain a as w where w: "args = a # as" "c \<in> {100, 105, 117}" "out = signed_numeral (ucast a) 10 @ w" "log_says num m ps as w"
      by (cases args) auto
    then obtain m1 where "log_directive num c args m msg = Some (as, m1, msg @ signed_numeral (ucast a) 10)" "only_buffer num m m1"
      using log_directive_number [OF w(2), of msg a num as m] Cons.prems(3) by auto
    then show ?thesis using LNum by (intro directive [OF _ _ _ w(3,4)]) simp_all
  next
    case (LHex c)
    with Cons.prems(2) obtain a as w where w: "args = a # as" "c \<in> {112, 120}" "out = ([48, 120] @ signed_numeral (ucast a) 16) @ w" "log_says num m ps as w"
      by (cases args) auto
    then obtain m1 where "log_directive num c args m msg = Some (as, m1, msg @ [48, 120] @ signed_numeral (ucast a) 16)" "only_buffer num m m1"
      using log_directive_hex [OF w(2), of msg a num as m] Cons.prems(3) by auto
    then show ?thesis using LHex by (intro directive [OF _ _ _ w(3,4)]) simp_all
  qed
qed

section \<open>Properties\<close>


text \<open>A warning \<open>n=-3\<close> from line 7 of \<open>a/b.c\<close>, five seconds after the start.\<close>

definition sample_strings :: mem where
  "sample_strings = store_bytes (store_bytes (store_bytes (\<lambda>_. 0) 0x1000 [102, 0]) 0x2000 [97, 47, 98, 46, 99, 0]) 0x3000 [110, 61, 37, 100, 0]"


end
