(* ===== verification/Spec2Isabelle.thy ===== *)
theory Spec2Isabelle
  imports Vmm KHeap ShellSpec Limits KMath Keyboard Storage EhciSpec Boot RvSpec CList Serial Log
begin

text \<open>
  A verification library for the VNiX kernel (x86-64): models of its C code and the theorems that make it correct.

  \<^bold>\<open>The program.\<close> \<open>kernel_main\<close> (\<open>kernel/kernel.c\<close>) creates the heap, loads the segment and interrupt descriptors, starts the
  virtual and the physical memory manager, registers the interrupt handlers, sets up the interrupt controllers and the keyboard,
  detects the drives, enumerates the PCI bus and enters the shell. The parts share byte memory (page tables, the
  free list of frames, heap blocks, buffers of drivers, C strings) and the devices behind ports and registers; the shell
  polls a table that the keyboard interrupt changes.

  \<^bold>\<open>How it is modelled.\<close> Memory is a total function from 64-bit addresses to bytes (\<open>Prelude\<close>). Structures of the C code that
  other code or a device sees are read and written at their byte offsets, so aliasing is part of the model and every frame
  property is proved. Integers keep the width they have in C, and wrap. Global variables are fields of a state record, which is
  passed along. A C function that may not return (a loop over memory or a device, a failed assertion, a missing argument) has
  an option as its result, with \<open>None\<close> for that case; the properties prove that it is \<open>Some\<close>. Devices are parameters:
  a device answers an access with a value that may depend on all earlier accesses (\<open>PortIO\<close>), so the history of
  accesses is the state of the machine, and a property about a driver runs it against a reference model of its device, or against any device.

  \<^bold>\<open>Theories and sources.\<close>
  \<^item> \<open>Prelude\<close>: words, byte memory, regions, alignment, little-endian accesses. \<open>Simulation\<close>: forward simulation of sequences of
    operations, a locale that \<open>CList\<close> and \<open>RvSpec\<close> interpret.
  \<^item> \<open>CString\<close> (\<open>klibc/string.c\<close>): every string and memory routine.
  \<^item> \<open>TlsfBits\<close>, \<open>Tlsf\<close> (\<open>mm/heapalloc/tlsf.c\<close>): the heap. The control structure and the block headers lie in memory.
    \<open>TlsfLists\<close>: the segregated free lists with their bitmaps refine lists. \<open>TlsfHeap\<close>, \<open>TlsfMerge\<close>: the pool is tiled by blocks, and splitting
    and merging keep that. \<open>TlsfAlloc\<close>, \<open>TlsfRealloc\<close>: allocation, resizing and a new pool. \<open>TlsfSafety\<close>: what clients see.
  \<^item> \<open>Stdlib\<close>, \<open>Stdio\<close>, \<open>Printf\<close>, \<open>Limits\<close> (\<open>klibc/stdlib.c\<close>, \<open>stdio.c\<close>, \<open>limits.c\<close>): heap entry points, numbers, searching, formatted output, checked arithmetic.
    \<open>KHeap\<close>: \<open>malloc\<close>, \<open>free\<close> and \<open>calloc\<close> as the locale \<open>heap_service\<close>, interpreted by the verified pool (\<open>init_heap\<close> of \<open>kernel.c\<close>), on which \<open>SataSpec\<close> and \<open>Storage\<close> rest.
  \<^item> \<open>Pmm\<close> (\<open>mm/pmm.c\<close>): the frames form a list in the free frames; the locale \<open>frame_allocator\<close> says what a client may rely on.
    \<open>Vmm\<close> (\<open>mm/vmm.c\<close>): page tables as the hardware walks them. \<open>Boot\<close> (\<open>kernel/kernel.c\<close>): both started together, and the self-tests.
  \<^item> \<open>PortIO\<close> (\<open>arch/x86_64/io.c\<close>, \<open>io.h\<close>, \<open>apic.h\<close>), \<open>Pic\<close> (\<open>drivers/pic/pic.c\<close>), \<open>Gdt\<close> (\<open>arch/x86_64/gdt.c\<close>), \<open>Interrupts\<close> (\<open>idt.c\<close>, \<open>isr.c\<close>, \<open>isrs_gen.c\<close>, \<open>pic_irq.c\<close>, \<open>drivers/pic/apic\<close>):
    accesses, controllers, descriptors, dispatch. What a device driver promises to the dispatcher is the locale \<open>irq_driver\<close>.
  \<^item> \<open>Keyboard\<close> (\<open>kernel/shell/keyboard.c\<close>): the driver, an instance of \<open>irq_driver\<close>, and \<open>getc\<close>. \<open>Shell\<close>, \<open>ShellSpec\<close> (\<open>kernel/shell/shell.c\<close>): the
    shell and an abstract line editor with sessions.
  \<^item> \<open>Ata\<close>, \<open>AtaSpec\<close> (\<open>drivers/storage/ata.c\<close>), \<open>Atapi\<close> (\<open>atapi.c\<close>), \<open>Sata\<close>, \<open>SataPort\<close>, \<open>SataSpec\<close> (\<open>sata.c\<close>), \<open>Storage\<close> (\<open>storage.c\<close>, \<open>stinit.c\<close>): the disk
    drivers, each with a reference drive or adapter, and the layer above them.
  \<^item> \<open>Time\<close> (\<open>tools/pit.c\<close>, \<open>kernel/time\<close>), \<open>Pci\<close> (\<open>drivers/pci/pci.c\<close>), \<open>Ehci\<close>, \<open>EhciSpec\<close> (\<open>drivers/hci/ehci.c\<close>): clocks and delays, the bus, the USB controller.
  \<^item> \<open>KMath\<close> (\<open>tools/math.c\<close>, \<open>endian.h\<close>), \<open>CList\<close> (the lists of \<open>io.h\<close>), \<open>Serial\<close> (\<open>tools/serial.c\<close>), \<open>Log\<close> (\<open>tools/log-info.c\<close>), \<open>RvVm\<close>, \<open>RvEncode\<close>, \<open>RvSpec\<close> (\<open>drivers/emul/rv_vm.h\<close>):
    division and byte order, intrusive lists, messages, and the RISC-V emulator with the instruction set it is meant for.

  \<^bold>\<open>What is shown.\<close>
  \<^item> Memory: through any sequence of allocations, resizings, releases and writes of clients the heap keeps its invariant, trips none of its assertions, gives disjoint
    allocations inside the pool, changes none of their contents, and passes its own integrity check. No frame is handed out
    twice or lost. \<open>map_page\<close> and \<open>unmap_page\<close> change exactly the translation they should, from the tables of the boot loader on.
  \<^item> Interrupts and input: the tables built at boot send each vector to its handler, every device interrupt is acknowledged once, and \<open>getc\<close>
    reports each key press once. A session of the shell is one of the abstract editor and interpreter.
  \<^item> Storage: sectors written are the sectors read, on a reference drive; the AHCI driver builds the
    structures that describe the transfer and the adapter fills the buffer and nothing else; the table of drives holds what was found.
  \<^item> Buses and time: the enumeration reaches every function of the bus hierarchy; delays are long enough and not too long; parsing a
    configuration returns on any contents. The USB transfers of the driver never run, and the clock is never calibrated: both are stated as theorems and listed as findings.
  \<^item> Library code: copies with overlap, bounded copies, formatted output as the text of its pieces, numbers that are read back, log
    lines, the serial console. The emulator simulates the instruction set; where it deviates is a theorem of its own.

  \<^bold>\<open>Bounds.\<close> The enumeration of the bus follows \<open>n\<close> nested buses; the property holds for every \<open>n\<close> that covers the
  hierarchy, of which 256 is always enough, since bus numbers are eight bits and increase. Polling loops with a count keep the count of the code. Loops
  without one are partial functions, and the property shows that they end under the hypothesis about the device it names.

  \<^bold>\<open>Not modelled.\<close> The terminal emulator \<open>flanterm\<close> and the boot loader \<open>limine\<close> with its installer are third-party code under
  \<open>kernel/terminal\<close> and \<open>boot\<close>; the kernel hands bytes to the first and takes the memory map and the direct-map offset from the second, and these are arguments here. The assembly stubs,
  instructions without an effect on memory (fences, cache and TLB maintenance, \<open>hlt\<close>, the interrupt flag) and \<open>cpuid\<close> are not C code. The floating-point routines
  (\<open>get_time_ms_fp\<close>, the x87 helpers of \<open>math.c\<close>) have no model; the splitting of a double in \<open>printf\<close> is an argument. The headers under \<open>fs\<close> declare structures no code uses.
  In the drivers, messages are left out except where they read a register. The rest of \<open>kernel_main\<close> only calls the parts above in order.
\<close>

end
